(* ===== verification/Bowst_Prelude.thy ===== *)
theory Bowst_Prelude
  imports Complex_Main "HOL-Library.Word"
begin

text \<open>
  Shared vocabulary of the development: the Rust result type with its early return,
  the ranges of the machine integers with their checked and saturating arithmetic, slice
  access with bounds checks, and the generic facts on lists that the component theories use.

  Machine integers.  A value of type i64, i128, u64 or usize is an \<open>int\<close> or a \<open>nat\<close>
  together with the range predicate of its width; every operation that may leave the range
  is written with \<open>checked_\<dots>\<close> (the result is an option) or \<open>sat_\<dots>\<close> (the result is clamped),
  as the source writes it.  Bytes, and the positions of the rings, which wrap, are words.
\<close>

named_theorems range_defs
named_theorems result_simps

type_synonym byte = "8 word"

section \<open>Results\<close>

text \<open>Rust's \<open>Result\<close> and the \<open>?\<close> operator.\<close>

datatype ('a, 'e) result = Ok 'a | Err 'e

fun rbind :: "('a, 'e) result \<Rightarrow> ('a \<Rightarrow> ('b, 'e) result) \<Rightarrow> ('b, 'e) result" where
  "rbind (Ok x) f = f x"
| "rbind (Err e) f = Err e"

fun ok_or :: "'a option \<Rightarrow> 'e \<Rightarrow> ('a, 'e) result" where
  "ok_or (Some x) e = Ok x"
| "ok_or None e = Err e"

fun result_map :: "('a \<Rightarrow> 'b) \<Rightarrow> ('a, 'e) result \<Rightarrow> ('b, 'e) result" where
  "result_map f (Ok x) = Ok (f x)"
| "result_map f (Err e) = Err e"

fun map_err :: "('e \<Rightarrow> 'f) \<Rightarrow> ('a, 'e) result \<Rightarrow> ('a, 'f) result" where
  "map_err f (Ok x) = Ok x"
| "map_err f (Err e) = Err (f e)"

fun is_ok :: "('a, 'e) result \<Rightarrow> bool" where
  "is_ok (Ok x) = True"
| "is_ok (Err e) = False"

lemma rbind_Ok_iff [result_simps]: "rbind r f = Ok y \<longleftrightarrow> (\<exists>x. r = Ok x \<and> f x = Ok y)"
  by (cases r) auto

lemma rbind_Err_iff: "rbind r f = Err e \<longleftrightarrow> r = Err e \<or> (\<exists>x. r = Ok x \<and> f x = Err e)"
  by (cases r) auto

lemma ok_or_Ok_iff [result_simps]: "ok_or z e = Ok x \<longleftrightarrow> z = Some x"
  by (cases z) auto

lemma ok_or_Err_iff: "ok_or z e = Err e' \<longleftrightarrow> z = None \<and> e' = e"
  by (cases z) auto

lemma result_map_Ok_iff [result_simps]: "result_map f r = Ok y \<longleftrightarrow> (\<exists>x. r = Ok x \<and> y = f x)"
  by (cases r) auto

lemma result_map_Err_iff [result_simps]: "result_map f r = Err e \<longleftrightarrow> r = Err e"
  by (cases r) auto

lemma map_err_Ok_iff [result_simps]: "map_err f r = Ok y \<longleftrightarrow> r = Ok y"
  by (cases r) auto

lemma is_ok_iff: "is_ok r \<longleftrightarrow> (\<exists>x. r = Ok x)"
  by (cases r) auto

lemma rbind_result_map: "rbind (result_map f r) g = rbind r (\<lambda>x. g (f x))"
  by (cases r) auto

lemma result_map_rbind: "result_map f (rbind r g) = rbind r (\<lambda>x. result_map f (g x))"
  by (cases r) auto

section \<open>Machine integers\<close>

definition fits_i64 :: "int \<Rightarrow> bool" where
  "fits_i64 x \<longleftrightarrow> - (2 ^ 63) \<le> x \<and> x < 2 ^ 63"

definition fits_i128 :: "int \<Rightarrow> bool" where
  "fits_i128 x \<longleftrightarrow> - (2 ^ 127) \<le> x \<and> x < 2 ^ 127"

definition fits_u64 :: "nat \<Rightarrow> bool" where
  "fits_u64 n \<longleftrightarrow> n < 2 ^ 64"

definition fits_u8 :: "nat \<Rightarrow> bool" where
  "fits_u8 n \<longleftrightarrow> n < 2 ^ 8"

definition u64_max :: nat where
  "u64_max = 2 ^ 64 - 1"

declare fits_i64_def [range_defs] fits_i128_def [range_defs] fits_u64_def [range_defs]
  fits_u8_def [range_defs] u64_max_def [range_defs]

definition checked_i64 :: "int \<Rightarrow> int option" where
  "checked_i64 x = (if fits_i64 x then Some x else None)"

definition checked_i128 :: "int \<Rightarrow> int option" where
  "checked_i128 x = (if fits_i128 x then Some x else None)"

definition checked_u64 :: "nat \<Rightarrow> nat option" where
  "checked_u64 n = (if fits_u64 n then Some n else None)"

definition checked_u8 :: "nat \<Rightarrow> nat option" where
  "checked_u8 n = (if fits_u8 n then Some n else None)"

definition checked_nsub :: "nat \<Rightarrow> nat \<Rightarrow> nat option" where
  "checked_nsub a b = (if b \<le> a then Some (a - b) else None)"

definition sat_u8 :: "nat \<Rightarrow> nat" where
  "sat_u8 n = min n 255"

definition sat_u64 :: "nat \<Rightarrow> nat" where
  "sat_u64 n = min n u64_max"

definition sat_i128 :: "int \<Rightarrow> int" where
  "sat_i128 x = max (- (2 ^ 127)) (min x (2 ^ 127 - 1))"

lemma checked_i64_Some [simp]: "checked_i64 x = Some y \<longleftrightarrow> fits_i64 x \<and> y = x"
  by (auto simp: checked_i64_def)

lemma checked_i64_None [simp]: "checked_i64 x = None \<longleftrightarrow> \<not> fits_i64 x"
  by (auto simp: checked_i64_def)

lemma checked_i128_Some [simp]: "checked_i128 x = Some y \<longleftrightarrow> fits_i128 x \<and> y = x"
  by (auto simp: checked_i128_def)

lemma checked_i128_None [simp]: "checked_i128 x = None \<longleftrightarrow> \<not> fits_i128 x"
  by (auto simp: checked_i128_def)

lemma checked_u64_Some [simp]: "checked_u64 x = Some y \<longleftrightarrow> fits_u64 x \<and> y = x"
  by (auto simp: checked_u64_def)

lemma checked_u64_None [simp]: "checked_u64 x = None \<longleftrightarrow> \<not> fits_u64 x"
  by (auto simp: checked_u64_def)

lemma checked_u8_Some [simp]: "checked_u8 x = Some y \<longleftrightarrow> fits_u8 x \<and> y = x"
  by (auto simp: checked_u8_def)

lemma checked_nsub_Some [simp]: "checked_nsub a b = Some y \<longleftrightarrow> b \<le> a \<and> y = a - b"
  by (auto simp: checked_nsub_def)

lemma checked_nsub_None [simp]: "checked_nsub a b = None \<longleftrightarrow> a < b"
  by (auto simp: checked_nsub_def)

lemma fits_i64_i128: "fits_i64 x \<Longrightarrow> fits_i128 x"
  by (auto simp: range_defs)

lemma sat_i128_id: "fits_i128 x \<Longrightarrow> sat_i128 x = x"
  by (auto simp: sat_i128_def range_defs)

lemma sat_u8_id: "n \<le> 255 \<Longrightarrow> sat_u8 n = n"
  by (simp add: sat_u8_def)

lemma sat_u64_id: "fits_u64 n \<Longrightarrow> sat_u64 n = n"
  by (auto simp: sat_u64_def range_defs)

lemma sat_u64_fits [simp]: "fits_u64 (sat_u64 n)"
  by (auto simp: sat_u64_def range_defs)

lemma sat_u64_le: "sat_u64 n \<le> n"
  by (simp add: sat_u64_def)

lemma mod_offset_inj:
  fixes a i j c :: nat
  assumes "(a + i) mod c = (a + j) mod c" "i < c" "j < c" shows "i = j"
proof -
  have "x = y" if "(a + x) mod c = (a + y) mod c" "x \<le> y" "y < c" for x y
  proof -
    have "c dvd (a + y) - (a + x)" using that by (intro mod_eq_dvd_iff_nat [THEN iffD1]) auto
    then have "c dvd y - x" by simp
    moreover have "y - x < c" using that by simp
    ultimately have "y - x = 0" by (meson dvd_imp_le gr0I not_less)
    then show ?thesis using that by simp
  qed
  then show ?thesis using assms by (metis nat_le_linear)
qed

section \<open>Slices\<close>

text \<open>\<open>slice.get(i)\<close>, and insertion and removal by position as \<open>Vec\<close> performs them.\<close>

definition nth_opt :: "'a list \<Rightarrow> nat \<Rightarrow> 'a option" where
  "nth_opt xs i = (if i < length xs then Some (xs ! i) else None)"

definition insert_at :: "nat \<Rightarrow> 'a \<Rightarrow> 'a list \<Rightarrow> 'a list" where
  "insert_at i x xs = take i xs @ x # drop i xs"

definition remove_at :: "nat \<Rightarrow> 'a list \<Rightarrow> 'a list" where
  "remove_at i xs = take i xs @ drop (Suc i) xs"

lemma nth_opt_Some [simp]: "nth_opt xs i = Some x \<longleftrightarrow> i < length xs \<and> x = xs ! i"
  by (auto simp: nth_opt_def)

lemma nth_opt_None [simp]: "nth_opt xs i = None \<longleftrightarrow> length xs \<le> i"
  by (auto simp: nth_opt_def)

lemma length_insert_at [simp]: "length (insert_at i x xs) = Suc (length xs)"
  by (simp add: insert_at_def)

lemma length_remove_at [simp]: "i < length xs \<Longrightarrow> length (remove_at i xs) = length xs - 1"
  by (simp add: remove_at_def)

lemma set_insert_at [simp]: "set (insert_at i x xs) = insert x (set xs)"
  unfolding insert_at_def using set_append [of "take i xs" "drop i xs"] by auto

lemma set_remove_at_subset: "set (remove_at i xs) \<subseteq> set xs"
  unfolding remove_at_def by (auto dest: in_set_takeD in_set_dropD)

lemma list_split3: "i < length xs \<Longrightarrow> xs = take i xs @ xs ! i # drop (Suc i) xs"
  by (rule id_take_nth_drop)

text \<open>The three-way comparison of Rust's \<open>Ord\<close>.\<close>

datatype ordering = Less | Equal | Greater

definition cmp :: "'a::linorder \<Rightarrow> 'a \<Rightarrow> ordering" where
  "cmp a b = (if a < b then Less else if a = b then Equal else Greater)"

fun then_with :: "ordering \<Rightarrow> ordering \<Rightarrow> ordering" where
  "then_with Equal o2 = o2"
| "then_with o1 o2 = o1"

lemma cmp_cases [simp]:
  "cmp a b = Less \<longleftrightarrow> a < b"
  "cmp a b = Equal \<longleftrightarrow> a = b"
  "cmp a b = Greater \<longleftrightarrow> b < a"
  by (auto simp: cmp_def)


text \<open>The largest element of a list by a loop.\<close>

lemma fold_max_ge: "a \<le> fold max xs a" "x \<in> set xs \<Longrightarrow> x \<le> fold max xs (a :: nat)"
proof (induction xs arbitrary: a)
  case (Cons y ys)
  { case 1 show ?case using Cons.IH(1) [of "max y a"] by simp }
  { case 2 then show ?case using Cons.IH(1) [of "max y a"] Cons.IH(2) [of "max y a"] by auto }
qed auto


lemma fold_max_mono: "(a :: nat) \<le> b \<Longrightarrow> fold max xs a \<le> fold max xs b"
  by (induction xs arbitrary: a b) (auto intro: max.mono)

section \<open>Interfaces: stores that follow a stream of updates\<close>

text \<open>
  Several components hold a bounded picture of some larger map and are fed updates one by
  one.  \<open>run_steps\<close> is the loop that feeds a list, stopping at the first error.  The locale
  states what such a store promises for one update; its lemmas carry that to lists.
\<close>

fun run_steps :: "('u \<Rightarrow> 's \<Rightarrow> ('o, 'e) result \<times> 's) \<Rightarrow> 'u list \<Rightarrow> 's \<Rightarrow> (unit, 'e) result \<times> 's" where
  "run_steps f [] s = (Ok (), s)"
| "run_steps f (u # us) s = (case f u s of (Err e, s1) \<Rightarrow> (Err e, s1) | (Ok _, s1) \<Rightarrow> run_steps f us s1)"

locale delta_store =
  fixes inv :: "'s \<Rightarrow> bool"
    and follows_map :: "'s \<Rightarrow> 'm \<Rightarrow> bool"
    and step :: "'u \<Rightarrow> 's \<Rightarrow> ('o, 'e) result \<times> 's"
    and upd :: "'u \<Rightarrow> 'm \<Rightarrow> 'm"
  assumes step_inv: "inv s \<Longrightarrow> step u s = (r, s') \<Longrightarrow> inv s'"
    and step_follows: "inv s \<Longrightarrow> follows_map s m \<Longrightarrow> step u s = (Ok x, s') \<Longrightarrow> follows_map s' (upd u m)"
    and step_Err: "step u s = (Err e, s') \<Longrightarrow> s' = s"
begin

lemma run_inv: "inv s \<Longrightarrow> run_steps step us s = (r, s') \<Longrightarrow> inv s'"
proof (induction us arbitrary: s)
  case (Cons u us)
  obtain r1 s1 where one: "step u s = (r1, s1)" by (cases "step u s")
  have "inv s1" using step_inv [OF Cons.prems(1) one] .
  then show ?case using Cons one by (cases r1) auto
qed auto

lemma run_follows:
  "inv s \<Longrightarrow> follows_map s m \<Longrightarrow> run_steps step us s = (Ok (), s') \<Longrightarrow> follows_map s' (fold upd us m)"
proof (induction us arbitrary: s m)
  case (Cons u us)
  then obtain x s1 where one: "step u s = (Ok x, s1)" "run_steps step us s1 = (Ok (), s')"
    by (auto split: prod.splits result.splits)
  then show ?case
    using Cons.IH [OF step_inv [OF Cons.prems(1) one(1)] step_follows [OF Cons.prems(1,2) one(1)] one(2)] by simp
qed auto

lemma run_append:
  "run_steps step (us @ vs) s = (case run_steps step us s of (Err e, s1) \<Rightarrow> (Err e, s1) | (Ok _, s1) \<Rightarrow> run_steps step vs s1)"
  by (induction us arbitrary: s) (auto split: prod.split result.split)

end


section \<open>Interfaces: single-producer single-consumer queues\<close>

text \<open>
  \<open>push\<close> answers whether the element was taken; \<open>pop\<close> answers the oldest element.  The
  contract speaks of the contents only; the client's lemma is that whatever the two sides do,
  what comes out is what went in, in order, with nothing lost, repeated or invented.
\<close>

datatype 'a queue_op = Push 'a | Pop

fun queue_run :: "('a \<Rightarrow> 's \<Rightarrow> bool \<times> 's) \<Rightarrow> ('s \<Rightarrow> 'a option \<times> 's) \<Rightarrow> 'a queue_op list \<Rightarrow> 's \<Rightarrow> 'a list \<times> 'a list \<times> 's" where
  "queue_run psh pp [] s = ([], [], s)"
| "queue_run psh pp (Push x # ops) s =
     (let (ok, s1) = psh x s; (ins, outs, s2) = queue_run psh pp ops s1 in ((if ok then x # ins else ins), outs, s2))"
| "queue_run psh pp (Pop # ops) s =
     (let (y, s1) = pp s; (ins, outs, s2) = queue_run psh pp ops s1 in
      (ins, (case y of Some v \<Rightarrow> v # outs | None \<Rightarrow> outs), s2))"

text \<open>The answers of a queue, one per operation, and the queue they are measured against: a list of at most \<open>cap\<close> elements.\<close>

datatype 'a queue_answer = Taken bool | Given "'a option"

fun queue_answers :: "('a \<Rightarrow> 's \<Rightarrow> bool \<times> 's) \<Rightarrow> ('s \<Rightarrow> 'a option \<times> 's) \<Rightarrow> 'a queue_op list \<Rightarrow> 's \<Rightarrow> 'a queue_answer list \<times> 's" where
  "queue_answers psh pp [] s = ([], s)"
| "queue_answers psh pp (Push x # ops) s = (let (ok, s1) = psh x s; (as, s2) = queue_answers psh pp ops s1 in (Taken ok # as, s2))"
| "queue_answers psh pp (Pop # ops) s = (let (y, s1) = pp s; (as, s2) = queue_answers psh pp ops s1 in (Given y # as, s2))"

definition list_push :: "nat \<Rightarrow> 'a \<Rightarrow> 'a list \<Rightarrow> bool \<times> 'a list" where
  "list_push cap x xs = (if length xs < cap then (True, xs @ [x]) else (False, xs))"

fun list_pop :: "'a list \<Rightarrow> 'a option \<times> 'a list" where
  "list_pop [] = (None, [])"
| "list_pop (x # xs) = (Some x, xs)"

locale fifo =
  fixes holds_queue :: "'s \<Rightarrow> 'a list \<Rightarrow> bool"
    and push :: "'a \<Rightarrow> 's \<Rightarrow> bool \<times> 's"
    and pop :: "'s \<Rightarrow> 'a option \<times> 's"
  assumes push_holds: "holds_queue s xs \<Longrightarrow> push x s = (ok, s') \<Longrightarrow> holds_queue s' (if ok then xs @ [x] else xs)"
    and pop_empty: "holds_queue s [] \<Longrightarrow> pop s = (y, s') \<Longrightarrow> y = None \<and> holds_queue s' []"
    and pop_front: "holds_queue s (x # xs) \<Longrightarrow> pop s = (y, s') \<Longrightarrow> y = Some x \<and> holds_queue s' xs"
begin

lemma queue_run_fifo:
  assumes "holds_queue s xs" "queue_run push pop ops s = (ins, outs, s')"
  shows "\<exists>ys. holds_queue s' ys \<and> xs @ ins = outs @ ys"
  using assms
proof (induction ops arbitrary: s xs ins outs s')
  case (Cons oper ops)
  show ?case
  proof (cases oper)
    case (Push x)
    obtain ok s1 where p: "push x s = (ok, s1)" by (cases "push x s")
    obtain ins' outs' s2 where r: "queue_run push pop ops s1 = (ins', outs', s2)" by (cases "queue_run push pop ops s1")
    show ?thesis using Cons.IH [OF push_holds [OF Cons.prems(1) p] r] Cons.prems(2) p r Push
      by (auto split: if_splits)
  next
    case Pop
    obtain y s1 where p: "pop s = (y, s1)" by (cases "pop s")
    obtain ins' outs' s2 where r: "queue_run push pop ops s1 = (ins', outs', s2)" by (cases "queue_run push pop ops s1")
    show ?thesis
    proof (cases xs)
      case Nil
      then show ?thesis using pop_empty [OF Cons.prems(1) [unfolded Nil] p] Cons.IH [OF _ r, of "[]"] Cons.prems(2) p r Pop by auto
    next
      case (Cons z zs)
      then show ?thesis using pop_front [OF Cons.prems(1) [unfolded Cons] p] Cons.IH [OF _ r, of zs] Cons.prems(2) p r Pop by auto
    qed
  qed
qed auto

lemma pop_None_iff: "holds_queue s xs \<Longrightarrow> pop s = (y, s') \<Longrightarrow> y = None \<longleftrightarrow> xs = []"
  using pop_empty [of s y s'] pop_front [of s "hd xs" "tl xs" y s'] by (cases xs) auto

end

text \<open>A queue of fixed capacity: it takes an element exactly when it has room.\<close>

locale bounded_fifo = fifo +
  fixes capacity :: "'s \<Rightarrow> nat"
  assumes push_ok_iff: "holds_queue s xs \<Longrightarrow> push x s = (ok, s') \<Longrightarrow> ok \<longleftrightarrow> length xs < capacity s"
    and push_capacity: "push x s = (ok, s') \<Longrightarrow> capacity s' = capacity s"
    and pop_capacity: "pop s = (y, s') \<Longrightarrow> capacity s' = capacity s"
    and within: "holds_queue s xs \<Longrightarrow> length xs \<le> capacity s"
begin

lemma answers_like_list:
  assumes "holds_queue s xs" "queue_answers push pop ops s = (as, s')"
  shows "\<exists>ys. queue_answers (list_push (capacity s)) list_pop ops xs = (as, ys) \<and> holds_queue s' ys \<and> capacity s' = capacity s"
  using assms
proof (induction ops arbitrary: s xs as)
  case (Cons oper ops)
  show ?case
  proof (cases oper)
    case (Push x)
    obtain ok s1 where p: "push x s = (ok, s1)" by (cases "push x s")
    obtain as1 where r: "queue_answers push pop ops s1 = (as1, s')" "as = Taken ok # as1" using Cons.prems(2) p Push by (auto split: prod.splits)
    note ih = Cons.IH [OF push_holds [OF Cons.prems(1) p] r(1), unfolded push_capacity [OF p]]
    show ?thesis using ih push_ok_iff [OF Cons.prems(1) p] r(2) Push by (auto simp: list_push_def split: if_splits)
  next
    case Pop
    obtain y s1 where p: "pop s = (y, s1)" by (cases "pop s")
    obtain as1 where r: "queue_answers push pop ops s1 = (as1, s')" "as = Given y # as1" using Cons.prems(2) p Pop by (auto split: prod.splits)
    have "list_pop xs = (y, snd (list_pop xs))" "holds_queue s1 (snd (list_pop xs))"
      using pop_empty [OF _ p] pop_front [OF _ p] Cons.prems(1) by (cases xs; fastforce)+
    then show ?thesis using Cons.IH [OF _ r(1), of "snd (list_pop xs)", unfolded pop_capacity [OF p]] r(2) Pop by (cases "list_pop xs") auto
  qed
qed simp

lemma full_then_pop_makes_room:
  assumes "holds_queue s xs" "length xs = capacity s" "0 < capacity s" "pop s = (y, s1)" "push x s1 = (ok, s2)"
  shows "ok"
proof (cases xs)
  case Nil
  then show ?thesis using assms(2,3) by simp
next
  case (Cons z zs)
  then have "holds_queue s1 zs" "length zs < capacity s1"
    using pop_front [of s z zs] pop_capacity [OF assms(4)] assms by auto
  then show ?thesis using push_ok_iff [OF _ assms(5)] by blast
qed

end

section \<open>Little-endian integers\<close>

text \<open>\<open>to_le_bytes\<close> and \<open>from_le_bytes\<close> at a width given in bytes.\<close>

fun le_bytes :: "nat \<Rightarrow> nat \<Rightarrow> byte list" where
  "le_bytes 0 v = []"
| "le_bytes (Suc k) v = of_nat (v mod 256) # le_bytes k (v div 256)"

fun from_le :: "byte list \<Rightarrow> nat" where
  "from_le [] = 0"
| "from_le (b # bs) = unat b + 256 * from_le bs"

lemma length_le_bytes [simp]: "length (le_bytes k v) = k"
  by (induction k arbitrary: v) auto

lemma from_le_bytes: "from_le (le_bytes k v) = v mod 256 ^ k"
proof (induction k arbitrary: v)
  case (Suc k)
  show ?case by (simp add: Suc unat_of_nat mod_mult2_eq)
qed simp

lemma from_le_bytes_id [simp]: "v < 256 ^ k \<Longrightarrow> from_le (le_bytes k v) = v"
  by (simp add: from_le_bytes)

lemma from_le_less: "from_le bs < 256 ^ length bs"
proof (induction bs)
  case (Cons b bs)
  have "unat b < 256" using unsigned_less [of b, where 'a = nat] by simp
  then have "unat b + 256 * from_le bs < 256 + 256 * from_le bs" by simp
  also have "\<dots> \<le> 256 * 256 ^ length bs" using Cons by (simp add: Suc_le_eq flip: mult_Suc_right)
  finally show ?case by simp
qed simp

lemma le_bytes_from_le: "le_bytes (length bs) (from_le bs) = bs"
proof (induction bs)
  case (Cons b bs)
  have "unat b < 256" using unsigned_less [of b, where 'a = nat] by simp
  then show ?case using Cons by simp
qed simp

section \<open>Writing a slice in place\<close>

text \<open>\<open>copy_from_slice\<close> into the bytes from \<open>start\<close>.\<close>

definition write_at :: "nat \<Rightarrow> 'a list \<Rightarrow> 'a list \<Rightarrow> 'a list" where
  "write_at start bs buf = take start buf @ bs @ drop (start + length bs) buf"

lemma length_write_at [simp]: "start + length bs \<le> length buf \<Longrightarrow> length (write_at start bs buf) = length buf"
  by (simp add: write_at_def)

lemma nth_write_at:
  "start + length bs \<le> length buf \<Longrightarrow> i < length buf \<Longrightarrow>
     write_at start bs buf ! i = (if start \<le> i \<and> i < start + length bs then bs ! (i - start) else buf ! i)"
  by (auto simp: write_at_def nth_append)

lemma slice_write_at: "start + length bs \<le> length buf \<Longrightarrow> take (length bs) (drop start (write_at start bs buf)) = bs"
  by (simp add: write_at_def)

lemma slice_cong:
  assumes "start + len \<le> length a" "length b = length a" "\<And>j. j < len \<Longrightarrow> a ! (start + j) = b ! (start + j)"
  shows "take len (drop start a) = take len (drop start b)"
  using assms by (intro nth_equalityI) auto

end
