(* ===== verification/Fixed.thy ===== *)
theory Fixed
  imports Bowst_Prelude
begin

text \<open>
  \<open>crates/bowst-core/src/fixed.rs\<close>: exact decimals (\<open>Dec\<close>), their text form, their order,
  and the conversion to whole units of an \<open>Increment\<close>.

  A \<open>Dec\<close> is a mantissa (i128, here an \<open>int\<close> satisfying \<open>fits_i128\<close>) and a scale
  (u8, here a \<open>nat\<close>).  \<open>dec_val\<close> gives its meaning as a rational number; the parsing,
  comparison and rounding lemmas are stated against that meaning.
\<close>

section \<open>Constants and tables\<close>

definition MAX_SCALE :: nat where "MAX_SCALE = 36"
definition MAX_PARSE_SCALE :: nat where "MAX_PARSE_SCALE = 18"
definition FAST_DIGITS :: nat where "FAST_DIGITS = 18"
definition MAX_TEXT_LEN :: nat where "MAX_TEXT_LEN = 42"

lemmas fixed_consts = MAX_SCALE_def MAX_PARSE_SCALE_def FAST_DIGITS_def MAX_TEXT_LEN_def

text \<open>The tables are built entry by entry, each the previous one times ten.\<close>

fun pow10_table :: "nat \<Rightarrow> int list" where
  "pow10_table 0 = []"
| "pow10_table (Suc 0) = [1]"
| "pow10_table (Suc (Suc n)) = (let t = pow10_table (Suc n) in t @ [last t * 10])"

definition POW10 :: "int list" where "POW10 = pow10_table 39"
definition POW10_I64 :: "int list" where "POW10_I64 = pow10_table 19"

datatype fixed_error =
    Empty
  | InvalidChar nat
  | TooManyDecimals
  | ScaleTooLarge
  | Overflow
  | NonPositiveIncrement
  | NotMultiple
  | BufferTooSmall

datatype rounding = Down | Up | Exact

definition pow10 :: "nat \<Rightarrow> (int, fixed_error) result" where
  "pow10 n = ok_or (nth_opt POW10 n) ScaleTooLarge"

definition accumulate :: "int \<Rightarrow> nat \<Rightarrow> (int, fixed_error) result" where
  "accumulate v digit =
     ok_or (Option.bind (checked_i128 (v * 10)) (\<lambda>v. checked_i128 (v + int digit))) Overflow"

fun round_quotient :: "int \<Rightarrow> bool \<Rightarrow> rounding \<Rightarrow> (int, fixed_error) result" where
  "round_quotient q True r = Ok q"
| "round_quotient q False Down = Ok q"
| "round_quotient q False Up = ok_or (checked_i128 (q + 1)) Overflow"
| "round_quotient q False Exact = Err NotMultiple"

section \<open>Decimals\<close>

record dec =
  mantissa :: int
  scale :: nat

definition dec_ZERO :: dec where
  "dec_ZERO = \<lparr>mantissa = 0, scale = 0\<rparr>"

definition dec_new :: "int \<Rightarrow> nat \<Rightarrow> (dec, fixed_error) result" where
  "dec_new m s = (if s > MAX_SCALE then Err ScaleTooLarge else Ok \<lparr>mantissa = m, scale = s\<rparr>)"

definition is_zero :: "dec \<Rightarrow> bool" where
  "is_zero d \<longleftrightarrow> mantissa d = 0"

definition is_negative :: "dec \<Rightarrow> bool" where
  "is_negative d \<longleftrightarrow> mantissa d < 0"

text \<open>The invariant of the type, and the number a decimal denotes.\<close>

definition dec_wf :: "dec \<Rightarrow> bool" where
  "dec_wf d \<longleftrightarrow> fits_i128 (mantissa d) \<and> scale d \<le> MAX_SCALE"

definition dec_val :: "dec \<Rightarrow> rat" where
  "dec_val d = of_int (mantissa d) / 10 ^ scale d"

subsection \<open>Parsing\<close>

definition is_digit :: "byte \<Rightarrow> bool" where
  "is_digit b \<longleftrightarrow> 48 \<le> b \<and> b \<le> 57"

definition digit_of :: "byte \<Rightarrow> nat" where
  "digit_of b = unat (b - 48)"

text \<open>The loop variables of \<open>parse_bytes\<close>.\<close>

record parse_state =
  ps_small :: nat
  ps_big :: "int option"
  ps_scale :: nat
  ps_seen_point :: bool
  ps_int_digits :: nat

definition parse_init :: parse_state where
  "parse_init = \<lparr>ps_small = 0, ps_big = None, ps_scale = 0, ps_seen_point = False, ps_int_digits = 0\<rparr>"

text \<open>Accumulating one digit: in a u64 while it fits, in an i128 from then on.\<close>

definition push_digit :: "nat \<Rightarrow> parse_state \<Rightarrow> (parse_state, fixed_error) result" where
  "push_digit digit st =
     (case ps_big st of
        None \<Rightarrow>
          (case Option.bind (checked_u64 (ps_small st * 10)) (\<lambda>m. checked_u64 (m + digit)) of
             Some next \<Rightarrow> Ok (st\<lparr>ps_small := next\<rparr>)
           | None \<Rightarrow> result_map (\<lambda>v. st\<lparr>ps_big := Some v\<rparr>) (accumulate (int (ps_small st)) digit))
      | Some v \<Rightarrow> result_map (\<lambda>v. st\<lparr>ps_big := Some v\<rparr>) (accumulate v digit))"

definition parse_step :: "nat \<Rightarrow> byte \<Rightarrow> parse_state \<Rightarrow> (parse_state, fixed_error) result" where
  "parse_step pos b st =
     (if is_digit b then
        rbind (push_digit (digit_of b) st)
          (\<lambda>st. if ps_seen_point st then
                  (let s = sat_u8 (ps_scale st + 1) in
                   if s > MAX_PARSE_SCALE then Err TooManyDecimals else Ok (st\<lparr>ps_scale := s\<rparr>))
                else Ok (st\<lparr>ps_int_digits := sat_u64 (ps_int_digits st + 1)\<rparr>))
      else if b = 46 \<and> \<not> ps_seen_point st \<and> ps_int_digits st > 0
      then Ok (st\<lparr>ps_seen_point := True\<rparr>)
      else Err (InvalidChar pos))"

fun parse_loop :: "nat \<Rightarrow> byte list \<Rightarrow> parse_state \<Rightarrow> (parse_state, fixed_error) result" where
  "parse_loop pos [] st = Ok st"
| "parse_loop pos (b # bs) st = rbind (parse_step pos b st) (parse_loop (Suc pos) bs)"

definition parse_finish :: "nat \<Rightarrow> bool \<Rightarrow> parse_state \<Rightarrow> (dec, fixed_error) result" where
  "parse_finish len negative st =
     (if ps_int_digits st = 0 then Err Empty
      else if ps_seen_point st \<and> ps_scale st = 0 then Err (InvalidChar (len - 1))
      else
        let m = (case ps_big st of Some v \<Rightarrow> v | None \<Rightarrow> int (ps_small st)) in
        rbind (if negative then ok_or (checked_i128 (- m)) Overflow else Ok m)
          (\<lambda>m. Ok \<lparr>mantissa = m, scale = ps_scale st\<rparr>))"

definition parse_bytes :: "byte list \<Rightarrow> (dec, fixed_error) result" where
  "parse_bytes bytes =
     (case bytes of
        [] \<Rightarrow> Err Empty
      | b # _ \<Rightarrow>
          (let (negative, digits_start) = (if b = 45 then (True, 1) else (False, 0)) in
           rbind (parse_loop digits_start (drop digits_start bytes) parse_init)
             (parse_finish (length bytes) negative)))"

subsection \<open>Arithmetic\<close>

definition checked_mul :: "dec \<Rightarrow> dec \<Rightarrow> (dec, fixed_error) result" where
  "checked_mul a b =
     rbind (ok_or (checked_i128 (mantissa a * mantissa b)) Overflow)
       (\<lambda>m. rbind (ok_or (checked_u8 (scale a + scale b)) ScaleTooLarge) (\<lambda>s. dec_new m s))"

definition mantissa_at :: "dec \<Rightarrow> nat \<Rightarrow> (int, fixed_error) result" where
  "mantissa_at d s =
     rbind (ok_or (checked_nsub s (scale d)) ScaleTooLarge)
       (\<lambda>shift. rbind (pow10 shift) (\<lambda>p. ok_or (checked_i128 (mantissa d * p)) Overflow))"

definition unwrap_or :: "'a option \<Rightarrow> 'a \<Rightarrow> 'a" where
  "unwrap_or z d = (case z of Some x \<Rightarrow> x | None \<Rightarrow> d)"

text \<open>The divisors are positive, so Euclidean division is \<open>div\<close> and \<open>mod\<close> of HOL.\<close>

definition dec_split :: "dec \<Rightarrow> int \<times> int" where
  "dec_split d =
     (let unit = unwrap_or (nth_opt POW10 (scale d)) 1 in (mantissa d div unit, mantissa d mod unit))"

definition dec_cmp :: "dec \<Rightarrow> dec \<Rightarrow> ordering" where
  "dec_cmp a b =
     (if scale a = scale b then cmp (mantissa a) (mantissa b)
      else
        let (a_int, a_frac) = dec_split a;
            (b_int, b_frac) = dec_split b;
            common = max (scale a) (scale b);
            rescale = (\<lambda>frac s. sat_i128 (frac * unwrap_or (nth_opt POW10 (common - s)) 1))
        in then_with (cmp a_int b_int) (cmp (rescale a_frac (scale a)) (rescale b_frac (scale b))))"

definition dec_eq :: "dec \<Rightarrow> dec \<Rightarrow> bool" where
  "dec_eq a b \<longleftrightarrow> dec_cmp a b = Equal"

subsection \<open>Writing\<close>

text \<open>The output writer: the buffer and the next position in it.\<close>

record writer =
  w_buf :: "byte list"
  w_pos :: nat

definition writer_push :: "byte \<Rightarrow> writer \<Rightarrow> (unit, fixed_error) result \<times> writer" where
  "writer_push b w =
     (if w_pos w < length (w_buf w)
      then (Ok (), w\<lparr>w_buf := (w_buf w)[w_pos w := b], w_pos := sat_u64 (w_pos w + 1)\<rparr>)
      else (Err BufferTooSmall, w))"

text \<open>
  The digits, least significant first.  \<open>ds\<close> is the written prefix of the array \<open>rev\<close>
  (its length is \<open>len\<close>); writing past \<open>MAX_TEXT_LEN\<close> entries is the \<open>Overflow\<close> error.
\<close>

function rev_digits :: "nat \<Rightarrow> nat \<Rightarrow> byte list \<Rightarrow> (byte list, fixed_error) result" where
  "rev_digits min_digits rest ds =
     (if rest > 0 \<or> length ds < min_digits then
        if length ds < MAX_TEXT_LEN
        then rev_digits min_digits (rest div 10) (ds @ [48 + of_nat (rest mod 10)])
        else Err Overflow
      else Ok ds)"
  by pat_completeness auto
termination
  by (relation "measure (\<lambda>(m, r, ds). r + (m - length ds))") auto

declare rev_digits.simps [simp del]

fun write_digits :: "nat \<Rightarrow> nat \<Rightarrow> nat \<Rightarrow> byte list \<Rightarrow> writer \<Rightarrow> (unit, fixed_error) result \<times> writer" where
  "write_digits s point_at i [] w = (Ok (), w)"
| "write_digits s point_at i (d # ds) w =
     (case (if i = point_at \<and> s > 0 then writer_push 46 w else (Ok (), w)) of
        (Err e, w1) \<Rightarrow> (Err e, w1)
      | (Ok _, w1) \<Rightarrow>
          (case writer_push d w1 of
             (Err e, w2) \<Rightarrow> (Err e, w2)
           | (Ok _, w2) \<Rightarrow> write_digits s point_at (Suc i) ds w2))"

text \<open>\<open>write_to\<close> returns the number of bytes written and the buffer it leaves.\<close>

definition write_to :: "dec \<Rightarrow> byte list \<Rightarrow> (nat, fixed_error) result \<times> byte list" where
  "write_to d buf =
     (case rev_digits (scale d + 1) (nat \<bar>mantissa d\<bar>) [] of
        Err e \<Rightarrow> (Err e, buf)
      | Ok ds \<Rightarrow>
          (case (if mantissa d < 0 then writer_push 45 \<lparr>w_buf = buf, w_pos = 0\<rparr>
                 else (Ok (), \<lparr>w_buf = buf, w_pos = 0\<rparr>)) of
             (Err e, w) \<Rightarrow> (Err e, w_buf w)
           | (Ok _, w) \<Rightarrow>
               (case write_digits (scale d) (length ds - scale d) 0 (rev ds) w of
                  (Err e, w1) \<Rightarrow> (Err e, w_buf w1)
                | (Ok _, w1) \<Rightarrow> (Ok (w_pos w1), w_buf w1))))"

section \<open>Increments\<close>

record increment =
  inc_mantissa :: int
  inc_scale :: nat

function strip_zeros :: "int \<Rightarrow> nat \<Rightarrow> int \<times> nat" where
  "strip_zeros m s = (if s > 0 \<and> m mod 10 = 0 then strip_zeros (m div 10) (s - 1) else (m, s))"
  by pat_completeness auto
termination
  by (relation "measure snd") auto

declare strip_zeros.simps [simp del]

definition increment_new :: "int \<Rightarrow> nat \<Rightarrow> (increment, fixed_error) result" where
  "increment_new m s =
     (if m \<le> 0 then Err NonPositiveIncrement
      else if s > MAX_PARSE_SCALE then Err TooManyDecimals
      else let (m, s) = strip_zeros m s in Ok \<lparr>inc_mantissa = m, inc_scale = s\<rparr>)"

definition increment_parse :: "byte list \<Rightarrow> (increment, fixed_error) result" where
  "increment_parse text =
     rbind (parse_bytes text)
       (\<lambda>d. rbind (ok_or (checked_i64 (mantissa d)) Overflow) (\<lambda>m. increment_new m (scale d)))"

definition as_dec :: "increment \<Rightarrow> dec" where
  "as_dec inc = \<lparr>mantissa = inc_mantissa inc, scale = inc_scale inc\<rparr>"

definition i64_factor :: "nat \<Rightarrow> nat \<Rightarrow> int option" where
  "i64_factor common s = Option.bind (checked_nsub common s) (nth_opt POW10_I64)"

definition rescaled_i64 :: "increment \<Rightarrow> dec \<Rightarrow> nat \<Rightarrow> (int \<times> int) option" where
  "rescaled_i64 inc v common =
     Option.bind (checked_i64 (mantissa v)) (\<lambda>m.
     Option.bind (i64_factor common (scale v)) (\<lambda>f.
     Option.bind (checked_i64 (m * f)) (\<lambda>numerator.
     Option.bind (i64_factor common (inc_scale inc)) (\<lambda>g.
     Option.bind (checked_i64 (inc_mantissa inc * g)) (\<lambda>denominator.
     Some (numerator, denominator))))))"

text \<open>
  \<open>checked_div_euclid\<close> and \<open>checked_rem_euclid\<close> at a given width: none for a zero divisor and
  for a quotient that overflows.
\<close>

definition euclid_div :: "int \<Rightarrow> int \<Rightarrow> int" where
  "euclid_div a b = (if b < 0 then - (a div (- b)) else a div b)"

definition euclid_mod :: "int \<Rightarrow> int \<Rightarrow> int" where
  "euclid_mod a b = a mod \<bar>b\<bar>"

definition checked_div_euclid :: "(int \<Rightarrow> int option) \<Rightarrow> int \<Rightarrow> int \<Rightarrow> int option" where
  "checked_div_euclid width a b = (if b = 0 then None else width (euclid_div a b))"

definition checked_rem_euclid :: "(int \<Rightarrow> int option) \<Rightarrow> int \<Rightarrow> int \<Rightarrow> int option" where
  "checked_rem_euclid width a b =
     (if b = 0 \<or> width (euclid_div a b) = None then None else Some (euclid_mod a b))"

definition units_of_quotient :: "(int \<Rightarrow> int option) \<Rightarrow> int \<Rightarrow> int \<Rightarrow> rounding \<Rightarrow> (int, fixed_error) result" where
  "units_of_quotient width numerator denominator r =
     rbind (ok_or (checked_div_euclid width numerator denominator) Overflow) (\<lambda>q.
     rbind (round_quotient q (checked_rem_euclid width numerator denominator = Some 0) r) (\<lambda>units.
     ok_or (checked_i64 units) Overflow))"

definition to_units_general :: "increment \<Rightarrow> dec \<Rightarrow> rounding \<Rightarrow> (int, fixed_error) result" where
  "to_units_general inc v r =
     (let common = max (scale v) (inc_scale inc) in
      rbind (mantissa_at v common) (\<lambda>numerator.
      rbind (mantissa_at (as_dec inc) common) (\<lambda>denominator.
      units_of_quotient checked_i128 numerator denominator r)))"

definition to_units :: "increment \<Rightarrow> dec \<Rightarrow> rounding \<Rightarrow> (int, fixed_error) result" where
  "to_units inc v r =
     (case rescaled_i64 inc v (max (scale v) (inc_scale inc)) of
        Some (numerator, denominator) \<Rightarrow> units_of_quotient checked_i64 numerator denominator r
      | None \<Rightarrow> to_units_general inc v r)"

fun position :: "('a \<Rightarrow> bool) \<Rightarrow> 'a list \<Rightarrow> nat option" where
  "position P [] = None"
| "position P (x # xs) = (if P x then Some 0 else map_option Suc (position P xs))"

text \<open>The digit loop of the fast path, on a wrapping u64.\<close>

fun fast_digits :: "byte list \<Rightarrow> nat \<Rightarrow> nat option" where
  "fast_digits [] units = Some units"
| "fast_digits (b # bs) units =
     (if digit_of b > 9 then None else fast_digits bs ((units * 10 + digit_of b) mod 2 ^ 64))"

definition split_point :: "byte list \<Rightarrow> (byte list \<times> byte list) option" where
  "split_point bytes =
     (case position (\<lambda>b. b = 46) bytes of
        Some dot \<Rightarrow> (let frac = drop (Suc dot) bytes in
                     if frac = [] then None else Some (take dot bytes, frac))
      | None \<Rightarrow> Some (bytes, []))"

definition parse_exact_power_of_ten :: "increment \<Rightarrow> byte list \<Rightarrow> int option" where
  "parse_exact_power_of_ten inc bytes =
     (if inc_mantissa inc \<noteq> 1 then None
      else Option.bind (split_point bytes) (\<lambda>(int_part, frac_part).
        if int_part = [] \<or> length frac_part > MAX_PARSE_SCALE then None
        else
          let wanted = inc_scale inc;
              cut = min (length frac_part) wanted;
              kept = take cut frac_part;
              dropped = drop cut frac_part
          in
          if \<not> list_all (\<lambda>b. b = 48) dropped then None
          else if length int_part + length kept > FAST_DIGITS then None
          else Option.bind (fast_digits (int_part @ kept) 0) (\<lambda>units.
               Option.bind (checked_i64 (int units)) (\<lambda>units.
               Option.bind (nth_opt POW10_I64 (wanted - length kept)) (\<lambda>p.
               checked_i64 (units * p))))))"

definition parse_units_bytes :: "increment \<Rightarrow> byte list \<Rightarrow> rounding \<Rightarrow> (int, fixed_error) result" where
  "parse_units_bytes inc bytes r =
     (case parse_exact_power_of_ten inc bytes of
        Some units \<Rightarrow> Ok units
      | None \<Rightarrow> rbind (parse_bytes bytes) (\<lambda>d. to_units inc d r))"

definition from_units :: "increment \<Rightarrow> int \<Rightarrow> dec" where
  "from_units inc units =
     \<lparr>mantissa = sat_i128 (units * inc_mantissa inc), scale = inc_scale inc\<rparr>"

definition increment_wf :: "increment \<Rightarrow> bool" where
  "increment_wf inc \<longleftrightarrow> 0 < inc_mantissa inc \<and> fits_i64 (inc_mantissa inc) \<and> inc_scale inc \<le> MAX_PARSE_SCALE
     \<and> (inc_scale inc > 0 \<longrightarrow> inc_mantissa inc mod 10 \<noteq> 0)"


section \<open>The tables\<close>

lemma pow10_table_eq: "pow10_table k = map (\<lambda>i. 10 ^ i) [0..<k]"
  by (induction k rule: pow10_table.induct) (auto simp: Let_def)

lemma nth_opt_POW10: "nth_opt POW10 n = (if n < 39 then Some (10 ^ n) else None)"
  by (simp add: nth_opt_def POW10_def pow10_table_eq del: upt_Suc)

lemma nth_opt_POW10_I64: "nth_opt POW10_I64 n = (if n < 19 then Some (10 ^ n) else None)"
  by (simp add: nth_opt_def POW10_I64_def pow10_table_eq del: upt_Suc)

lemma pow10_eq [simp]: "pow10 n = (if n < 39 then Ok (10 ^ n) else Err ScaleTooLarge)"
  by (simp add: pow10_def nth_opt_POW10)

lemma pow10_mono_int: "a \<le> b \<Longrightarrow> (10 :: int) ^ a \<le> 10 ^ b"
  by (rule power_increasing) auto

lemma pow10_fits_i128: "n < 39 \<Longrightarrow> fits_i128 (10 ^ n)"
proof -
  assume "n < 39"
  then have "(10::int) ^ n \<le> 10 ^ 38" by (intro pow10_mono_int) simp
  moreover have "- (2 ^ 127) \<le> (10::int) ^ n" by (rule order_trans [of _ 0]) auto
  ultimately show ?thesis by (simp add: range_defs)
qed

section \<open>Parsing against a reference\<close>

text \<open>The digits of a text, read with an unbounded accumulator.\<close>

definition digits_from :: "nat \<Rightarrow> byte list \<Rightarrow> nat" where
  "digits_from v bs = foldl (\<lambda>v b. v * 10 + digit_of b) v bs"

abbreviation digits_val :: "byte list \<Rightarrow> nat" where
  "digits_val \<equiv> digits_from 0"

lemma digits_from_simps [simp]:
  "digits_from v [] = v"
  "digits_from v (b # bs) = digits_from (v * 10 + digit_of b) bs"
  "digits_from v (bs @ cs) = digits_from (digits_from v bs) cs"
  by (simp_all add: digits_from_def)

lemma digits_from_ge: "v \<le> digits_from v bs"
proof (induction bs arbitrary: v)
  case (Cons b bs)
  show ?case using Cons [of "v * 10 + digit_of b"] by simp
qed simp

lemma digits_from_shift: "digits_from v bs = v * 10 ^ length bs + digits_val bs"
proof (induction bs arbitrary: v)
  case (Cons b bs)
  show ?case
    using Cons [of "v * 10 + digit_of b"] Cons [of "digit_of b"] by (simp add: algebra_simps)
qed simp

lemma is_digit_iff: "is_digit b \<longleftrightarrow> digit_of b \<le> 9"
proof
  assume "is_digit b"
  then have "48 \<le> unat b" "unat b \<le> 57"
    by (auto simp: is_digit_def word_le_nat_alt)
  then show "digit_of b \<le> 9" by (simp add: digit_of_def unat_sub word_le_nat_alt)
next
  assume a: "digit_of b \<le> 9"
  have "b = 48 + of_nat (digit_of b)" by (simp add: digit_of_def)
  moreover have "unat (48 + of_nat (digit_of b) :: byte) = 48 + digit_of b"
    using a by (subst unat_add_lem [THEN iffD1]) (auto simp: unat_of_nat)
  ultimately have "unat b = 48 + digit_of b" by metis
  then show "is_digit b" using a by (simp add: is_digit_def word_le_nat_alt)
qed

lemma digits_val_lt: "list_all is_digit bs \<Longrightarrow> digits_val bs < 10 ^ length bs"
proof (induction bs rule: rev_induct)
  case (snoc b bs)
  then have "digits_val bs + 1 \<le> 10 ^ length bs" "digit_of b \<le> 9" by (auto simp: is_digit_iff)
  then have "(digits_val bs + 1) * 10 \<le> 10 ^ length bs * 10" by (intro mult_le_mono) auto
  then show ?case using \<open>digit_of b \<le> 9\<close> by simp
qed simp

lemma point_not_digit [simp]: "\<not> is_digit 46" "\<not> is_digit 45"
  by (auto simp: is_digit_def word_le_nat_alt)

text \<open>The meaning of the loop state: one accumulator instead of two.\<close>

definition ps_acc :: "parse_state \<Rightarrow> int" where
  "ps_acc st = (case ps_big st of Some v \<Rightarrow> v | None \<Rightarrow> int (ps_small st))"

lemma ps_acc_update [simp]:
  "ps_acc (st\<lparr>ps_scale := s\<rparr>) = ps_acc st"
  "ps_acc (st\<lparr>ps_seen_point := p\<rparr>) = ps_acc st"
  "ps_acc (st\<lparr>ps_int_digits := n\<rparr>) = ps_acc st"
  by (simp_all add: ps_acc_def split: option.split)

definition ps_abs :: "parse_state \<Rightarrow> int \<times> nat \<times> bool \<times> bool" where
  "ps_abs st = (ps_acc st, ps_scale st, ps_seen_point st, ps_int_digits st > 0)"

definition ref_step :: "nat \<Rightarrow> byte \<Rightarrow> int \<times> nat \<times> bool \<times> bool \<Rightarrow> (int \<times> nat \<times> bool \<times> bool, fixed_error) result" where
  "ref_step pos b = (\<lambda>(v, s, seen, some_int).
     if is_digit b then
       if v * 10 + int (digit_of b) < 2 ^ 127 then
         if seen then (if s < MAX_PARSE_SCALE then Ok (v * 10 + int (digit_of b), s + 1, True, some_int)
                       else Err TooManyDecimals)
         else Ok (v * 10 + int (digit_of b), s, False, True)
       else Err Overflow
     else if b = 46 \<and> \<not> seen \<and> some_int then Ok (v, s, True, some_int)
     else Err (InvalidChar pos))"

fun ref_loop :: "nat \<Rightarrow> byte list \<Rightarrow> int \<times> nat \<times> bool \<times> bool \<Rightarrow> (int \<times> nat \<times> bool \<times> bool, fixed_error) result" where
  "ref_loop pos [] st = Ok st"
| "ref_loop pos (b # bs) st = rbind (ref_step pos b st) (ref_loop (Suc pos) bs)"

definition ps_wf :: "parse_state \<Rightarrow> bool" where
  "ps_wf st \<longleftrightarrow> 0 \<le> ps_acc st \<and> ps_acc st < 2 ^ 127 \<and> ps_scale st \<le> MAX_PARSE_SCALE"

lemma accumulate_eq:
  "0 \<le> v \<Longrightarrow> accumulate v d = (if v * 10 + int d < 2 ^ 127 then Ok (v * 10 + int d) else Err Overflow)"
  by (auto simp: accumulate_def checked_i128_def range_defs)

lemma push_digit_abs:
  assumes "ps_wf st"
  shows "(ps_acc st * 10 + int d < 2 ^ 127 \<longrightarrow>
            (\<exists>st'. push_digit d st = Ok st' \<and> ps_acc st' = ps_acc st * 10 + int d
               \<and> ps_scale st' = ps_scale st \<and> ps_seen_point st' = ps_seen_point st
               \<and> ps_int_digits st' = ps_int_digits st))
       \<and> (\<not> ps_acc st * 10 + int d < 2 ^ 127 \<longrightarrow> push_digit d st = Err Overflow)"
proof (cases "ps_big st")
  case None
  then show ?thesis
    by (auto simp: push_digit_def accumulate_eq checked_u64_def range_defs ps_acc_def)
next
  case (Some v)
  then show ?thesis using assms by (auto simp: push_digit_def accumulate_eq ps_acc_def ps_wf_def)
qed

lemma sat_u64_Suc_pos [simp]: "0 < sat_u64 (Suc n)"
  by (simp add: sat_u64_def range_defs)

lemma parse_step_abs:
  assumes "ps_wf st"
  shows "result_map ps_abs (parse_step pos b st) = ref_step pos b (ps_abs st)"
    and "parse_step pos b st = Ok st' \<Longrightarrow> ps_wf st'"
proof -
  note push_digit_abs [OF assms, of "digit_of b"]
  moreover have "ps_scale st \<le> 18" using assms by (simp add: ps_wf_def fixed_consts)
  ultimately show "result_map ps_abs (parse_step pos b st) = ref_step pos b (ps_abs st)"
    by (auto simp: parse_step_def ref_step_def ps_abs_def Let_def sat_u8_def fixed_consts
        split: if_splits)
  assume "parse_step pos b st = Ok st'"
  with push_digit_abs [OF assms, of "digit_of b"] assms show "ps_wf st'"
    by (auto simp: parse_step_def ps_wf_def Let_def sat_u8_def fixed_consts result_simps
        split: if_splits)
qed

lemma parse_loop_abs:
  assumes "ps_wf st"
  shows "result_map ps_abs (parse_loop pos bs st) = ref_loop pos bs (ps_abs st)"
  using assms
proof (induction bs arbitrary: pos st)
  case (Cons b bs)
  note step = parse_step_abs(1) [OF Cons.prems, of pos b]
  show ?case
  proof (cases "parse_step pos b st")
    case (Ok st')
    then show ?thesis using Cons.IH [OF parse_step_abs(2) [OF Cons.prems Ok]] step [symmetric]
      by simp
  next
    case (Err e)
    then show ?thesis using step [symmetric] by simp
  qed
qed simp


text \<open>The texts a decimal may have: an optional sign, digits, and optionally a point and digits.\<close>

definition dec_text :: "bool \<Rightarrow> byte list \<Rightarrow> byte list \<Rightarrow> byte list" where
  "dec_text neg ip fp = (if neg then [45] else []) @ ip @ (if fp = [] then [] else 46 # fp)"

definition dec_of :: "bool \<Rightarrow> byte list \<Rightarrow> byte list \<Rightarrow> dec" where
  "dec_of neg ip fp =
     \<lparr>mantissa = (if neg then - int (digits_val (ip @ fp)) else int (digits_val (ip @ fp))), scale = length fp\<rparr>"

definition text_ok :: "byte list \<Rightarrow> byte list \<Rightarrow> bool" where
  "text_ok ip fp \<longleftrightarrow> ip \<noteq> [] \<and> list_all is_digit ip \<and> list_all is_digit fp
     \<and> length fp \<le> MAX_PARSE_SCALE \<and> digits_val (ip @ fp) < 2 ^ 127"

lemma ref_step_digit_bound: "digits_from (v * 10 + digit_of b) bs < 2 ^ 127 \<Longrightarrow> int v * 10 + int (digit_of b) < 2 ^ 127"
proof -
  assume "digits_from (v * 10 + digit_of b) bs < 2 ^ 127"
  then have "v * 10 + digit_of b < 2 ^ 127" by (rule le_less_trans [OF digits_from_ge])
  then have "int (v * 10 + digit_of b) < int (2 ^ 127)" by (simp only: of_nat_less_iff)
  then show ?thesis by simp
qed

lemma ref_loop_frac:
  assumes "s \<le> MAX_PARSE_SCALE" "v < 2 ^ 127"
  shows "ref_loop pos bs (int v, s, True, n) = Ok r \<longleftrightarrow>
     list_all is_digit bs \<and> s + length bs \<le> MAX_PARSE_SCALE \<and> digits_from v bs < 2 ^ 127
     \<and> r = (int (digits_from v bs), s + length bs, True, n)"
  using assms
proof (induction bs arbitrary: pos v s)
  case (Cons b bs)
  show ?case
  proof (cases "is_digit b \<and> int v * 10 + int (digit_of b) < 2 ^ 127 \<and> s < MAX_PARSE_SCALE")
    case True
    then have "ref_step pos b (int v, s, True, n) = Ok (int (v * 10 + digit_of b), s + 1, True, n)"
      by (simp add: ref_step_def)
    then show ?thesis using Cons.IH [of "s + 1" "v * 10 + digit_of b" "Suc pos"] True by simp
  next
    case False
    then show ?thesis using ref_step_digit_bound [of v b bs]
      by (auto simp: ref_step_def result_simps)
  qed
qed auto

lemma ref_loop_int:
  assumes "v < 2 ^ 127"
  shows "ref_loop pos bs (int v, 0, False, n) = Ok r \<longleftrightarrow>
     (list_all is_digit bs \<and> digits_from v bs < 2 ^ 127 \<and> r = (int (digits_from v bs), 0, False, n \<or> bs \<noteq> []))
     \<or> (\<exists>ip fp. bs = ip @ 46 # fp \<and> list_all is_digit ip \<and> (n \<or> ip \<noteq> []) \<and> list_all is_digit fp
          \<and> length fp \<le> MAX_PARSE_SCALE \<and> digits_from v (ip @ fp) < 2 ^ 127
          \<and> r = (int (digits_from v (ip @ fp)), length fp, True, True))"
  using assms
proof (induction bs arbitrary: pos v n)
  case (Cons b bs)
  consider (digit) "is_digit b" "int v * 10 + int (digit_of b) < 2 ^ 127"
    | (big) "is_digit b" "\<not> int v * 10 + int (digit_of b) < 2 ^ 127"
    | (point) "b = 46" "n" | (bad) "\<not> is_digit b" "b \<noteq> 46 \<or> \<not> n" by auto
  then show ?case
  proof cases
    case digit
    then have step: "ref_step pos b (int v, 0, False, n) = Ok (int (v * 10 + digit_of b), 0, False, True)"
      by (simp add: ref_step_def)
    have ne: "b \<noteq> 46" using digit(1) by auto
    have split: "(\<exists>ip fp. b # bs = ip @ 46 # fp \<and> P ip fp) \<longleftrightarrow> (\<exists>ip fp. bs = ip @ 46 # fp \<and> P (b # ip) fp)" for P
      using ne by (auto simp: Cons_eq_append_conv)
    show ?thesis
      using Cons.IH [of "v * 10 + digit_of b" "Suc pos" True] digit step by (subst split) simp
  next
    case big
    have no: "\<not> digits_from (v * 10 + digit_of b) cs < 2 ^ 127" for cs
      using ref_step_digit_bound [of v b cs] big by blast
    show ?thesis using big no no [of "_ @ _"]
      by (auto simp: ref_step_def Cons_eq_append_conv result_simps)
  next
    case point
    have split: "(\<exists>ip fp. 46 # bs = ip @ 46 # fp \<and> list_all is_digit ip \<and> Q ip fp) \<longleftrightarrow> Q [] bs" for Q
    proof
      assume "Q [] bs"
      then show "\<exists>ip fp. 46 # bs = ip @ 46 # fp \<and> list_all is_digit ip \<and> Q ip fp"
        by (intro exI [of _ "[]"] exI [of _ bs]) simp
    qed (auto simp: Cons_eq_append_conv)
    show ?thesis using ref_loop_frac [of 0 v "Suc pos" bs True r] Cons.prems point
      by (simp add: split, simp add: ref_step_def)
  next
    case bad
    then show ?thesis by (auto simp: ref_step_def Cons_eq_append_conv result_simps)
  qed
qed auto


lemmas ref_loop_init = ref_loop_int [of 0 _ _ False, simplified]

lemma ps_init_wf [simp]: "ps_wf parse_init" "ps_abs parse_init = (0, 0, False, False)"
  by (simp_all add: parse_init_def ps_wf_def ps_abs_def ps_acc_def)

lemma parse_finish_abs:
  assumes "ps_abs st = (v, s, seen, some_int)" "0 \<le> v" "v < 2 ^ 127"
  shows "parse_finish len neg st =
     (if \<not> some_int then Err Empty else if seen \<and> s = 0 then Err (InvalidChar (len - 1))
      else Ok \<lparr>mantissa = (if neg then - v else v), scale = s\<rparr>)"
proof -
  have "fits_i128 (- v)" using assms by (simp add: range_defs)
  then show ?thesis using assms
    by (auto simp: parse_finish_def ps_abs_def ps_acc_def Let_def checked_i128_def)
qed

definition parse_body :: "nat \<Rightarrow> bool \<Rightarrow> byte list \<Rightarrow> nat \<Rightarrow> (dec, fixed_error) result" where
  "parse_body len neg bs start = rbind (parse_loop start bs parse_init) (parse_finish len neg)"

lemma parse_bytes_body:
  "parse_bytes [] = Err Empty"
  "parse_bytes (45 # bs) = parse_body (Suc (length bs)) True bs 1"
  "b \<noteq> 45 \<Longrightarrow> parse_bytes (b # bs) = parse_body (Suc (length bs)) False (b # bs) 0"
  by (simp_all add: parse_bytes_def parse_body_def)

lemma parse_body_Ok_iff:
  "parse_body len neg bs start = Ok d \<longleftrightarrow>
     (\<exists>ip fp. bs = dec_text False ip fp \<and> text_ok ip fp \<and> d = dec_of neg ip fp)"
proof -
  let ?fin = "\<lambda>(v, s, seen, some_int). some_int \<and> \<not> (seen \<and> s = 0)
      \<and> d = \<lparr>mantissa = (if neg then - v else v), scale = s\<rparr>"
  have "parse_body len neg bs start = Ok d \<longleftrightarrow> (\<exists>r. ref_loop start bs (0, 0, False, False) = Ok r \<and> ?fin r)"
  proof -
    have sim: "result_map ps_abs (parse_loop start bs parse_init) = ref_loop start bs (0, 0, False, False)"
      using parse_loop_abs [of parse_init start bs] by simp
    show ?thesis
    proof (cases "parse_loop start bs parse_init")
      case (Ok st)
      obtain v s seen some_int where abs: "ps_abs st = (v, s, seen, some_int)" by (cases "ps_abs st") auto
      have ref: "ref_loop start bs (0, 0, False, False) = Ok (v, s, seen, some_int)"
        using sim Ok abs by simp
      then have "0 \<le> v" "v < 2 ^ 127" by (auto simp: ref_loop_init)
      from parse_finish_abs [OF abs this] show ?thesis unfolding parse_body_def ref Ok by auto
    next
      case (Err e)
      then show ?thesis using sim [symmetric] by (simp add: parse_body_def)
    qed
  qed
  also have "\<dots> \<longleftrightarrow> (\<exists>ip fp. bs = dec_text False ip fp \<and> text_ok ip fp \<and> d = dec_of neg ip fp)"
    (is "?L \<longleftrightarrow> ?R")
  proof
    assume ?L
    then obtain r where r: "ref_loop start bs (0, 0, False, False) = Ok r" "?fin r" by blast
    from r(1) [unfolded ref_loop_init] show ?R
    proof (elim disjE exE conjE)
      assume "list_all is_digit bs" "r = (int (digits_val bs), 0, False, bs \<noteq> [])"
        "digits_val bs < 170141183460469231731687303715884105728"
      then show ?R using r(2) by (intro exI [of _ bs] exI [of _ "[]"]) (simp add: dec_text_def text_ok_def dec_of_def)
    next
      fix ip fp
      assume "bs = ip @ 46 # fp" "list_all is_digit ip" "ip \<noteq> []" "list_all is_digit fp"
        "length fp \<le> MAX_PARSE_SCALE" "digits_from (digits_val ip) fp < 170141183460469231731687303715884105728"
        "r = (int (digits_from (digits_val ip) fp), length fp, True, True)"
      then show ?R using r(2) by (intro exI [of _ ip] exI [of _ fp]) (simp add: dec_text_def text_ok_def dec_of_def)
    qed
  next
    assume ?R
    then obtain ip fp where "bs = dec_text False ip fp" "text_ok ip fp" "d = dec_of neg ip fp" by blast
    then show ?L
      unfolding ref_loop_init
      by (intro exI [of _ "(int (digits_from (digits_val ip) fp), length fp, fp \<noteq> [], True)"])
         (auto simp: dec_text_def text_ok_def dec_of_def)
  qed
  finally show ?thesis .
qed

lemma text_ok_not_minus: "text_ok ip fp \<Longrightarrow> dec_text False ip fp = b # bs \<Longrightarrow> b \<noteq> 45"
  by (auto simp: text_ok_def dec_text_def append_eq_Cons_conv)

lemma parse_bytes_Ok_iff:
  "parse_bytes bs = Ok d \<longleftrightarrow>
     (\<exists>neg ip fp. bs = dec_text neg ip fp \<and> text_ok ip fp \<and> d = dec_of neg ip fp)"
proof (cases bs)
  case Nil
  then show ?thesis by (auto simp: parse_bytes_body dec_text_def text_ok_def)
next
  case (Cons b cs)
  have neg: "dec_text True ip fp = 45 # dec_text False ip fp" for ip fp by (simp add: dec_text_def)
  show ?thesis
  proof (cases "b = 45")
    case True
    then show ?thesis using Cons
      by (auto simp: parse_bytes_body parse_body_Ok_iff ex_bool_eq neg dest: text_ok_not_minus [OF _ sym])
  next
    case False
    then show ?thesis using Cons by (auto simp: parse_bytes_body parse_body_Ok_iff ex_bool_eq neg)
  qed
qed


section \<open>Writing, and the round trip\<close>

text \<open>The bytes \<open>write_to\<close> pushes, as a list, and a run of pushes.\<close>

fun push_all :: "byte list \<Rightarrow> writer \<Rightarrow> (unit, fixed_error) result \<times> writer" where
  "push_all [] w = (Ok (), w)"
| "push_all (b # bs) w = (case writer_push b w of (Err e, w1) \<Rightarrow> (Err e, w1) | (Ok _, w1) \<Rightarrow> push_all bs w1)"

fun pointed :: "nat \<Rightarrow> nat \<Rightarrow> nat \<Rightarrow> byte list \<Rightarrow> byte list" where
  "pointed s p i [] = []"
| "pointed s p i (d # ds) = (if i = p \<and> s > 0 then [46] else []) @ d # pointed s p (Suc i) ds"

lemma write_digits_push_all: "write_digits s p i ds w = push_all (pointed s p i ds) w"
  by (induction s p i ds w rule: write_digits.induct) (auto split: prod.split result.split)

lemma push_all_append:
  "push_all (as @ bs) w = (case push_all as w of (Err e, w1) \<Rightarrow> (Err e, w1) | (Ok _, w1) \<Rightarrow> push_all bs w1)"
  by (induction as w rule: push_all.induct) (auto split: prod.split result.split)

lemma push_all_Ok:
  assumes "w_pos w + length bs \<le> length (w_buf w)" "fits_u64 (length (w_buf w))"
  shows "push_all bs w = (Ok (), w\<lparr>w_buf := take (w_pos w) (w_buf w) @ bs @ drop (w_pos w + length bs) (w_buf w),
            w_pos := w_pos w + length bs\<rparr>)"
  using assms
proof (induction bs arbitrary: w)
  case (Cons b bs)
  let ?w = "w\<lparr>w_buf := (w_buf w)[w_pos w := b], w_pos := w_pos w + 1\<rparr>"
  have "sat_u64 (Suc (w_pos w)) = Suc (w_pos w)"
    using Cons.prems by (intro sat_u64_id) (auto simp: range_defs)
  then have "writer_push b w = (Ok (), ?w)" using Cons.prems by (simp add: writer_push_def)
  moreover have "take (Suc (w_pos w)) ((w_buf w)[w_pos w := b]) = take (w_pos w) (w_buf w) @ [b]"
    using Cons.prems by (simp add: take_Suc_conv_app_nth)
  ultimately show ?case using Cons.IH [of ?w] Cons.prems by simp
qed simp

lemma push_all_Err:
  assumes "\<not> w_pos w + length bs \<le> length (w_buf w)" "w_pos w \<le> length (w_buf w)"
    "fits_u64 (length (w_buf w))"
  shows "fst (push_all bs w) = Err BufferTooSmall"
  using assms
proof (induction bs arbitrary: w)
  case (Cons b bs)
  show ?case
  proof (cases "w_pos w < length (w_buf w)")
    case True
    then have "sat_u64 (Suc (w_pos w)) = Suc (w_pos w)"
      using Cons.prems by (intro sat_u64_id) (auto simp: range_defs)
    then show ?thesis using Cons True by (simp add: writer_push_def)
  qed (simp add: writer_push_def)
qed simp

lemma pointed_eq:
  "pointed s p i ds = (if s > 0 \<and> i \<le> p \<and> p < i + length ds
     then take (p - i) ds @ 46 # drop (p - i) ds else ds)"
proof (induction ds arbitrary: i)
  case (Cons d ds)
  have "p - i = Suc n \<Longrightarrow> p - Suc i = n" for n by simp
  then show ?case using Cons [of "Suc i"] by (cases "p - i") auto
qed simp

lemma digit_char [simp]:
  assumes "d < 10" shows "digit_of (48 + of_nat d) = d" "is_digit (48 + of_nat d)"
proof -
  show "digit_of (48 + of_nat d) = d" using assms by (simp add: digit_of_def unat_of_nat)
  then show "is_digit (48 + of_nat d)" using assms by (simp add: is_digit_iff)
qed

lemma rev_digits_spec:
  assumes "rest < 10 ^ k" "length ds + k \<le> MAX_TEXT_LEN" "m \<le> MAX_TEXT_LEN"
  shows "\<exists>es. rev_digits m rest ds = Ok (ds @ es) \<and> list_all is_digit es \<and> digits_val (rev es) = rest
    \<and> m \<le> length (ds @ es) \<and> length (ds @ es) \<le> max m (length ds + k)"
  using assms
proof (induction m rest ds arbitrary: k rule: rev_digits.induct)
  case (1 m rest ds)
  show ?case
  proof (cases "rest > 0 \<or> length ds < m")
    case True
    let ?d = "48 + of_nat (rest mod 10) :: byte"
    have room: "length ds < MAX_TEXT_LEN" using True 1 by (cases k) auto
    have "rest div 10 < 10 ^ (k - 1)" "length (ds @ [?d]) + (k - 1) \<le> MAX_TEXT_LEN"
      using 1 room True by (cases k; auto)+
    from "1.IH" [OF True room this "1.prems"(3)] obtain es where es:
      "rev_digits m (rest div 10) (ds @ [?d]) = Ok ((ds @ [?d]) @ es)" "list_all is_digit es"
      "digits_val (rev es) = rest div 10" "m \<le> length ((ds @ [?d]) @ es)"
      "length ((ds @ [?d]) @ es) \<le> max m (length (ds @ [?d]) + (k - 1))" by blast
    have "max m (length (ds @ [?d]) + (k - 1)) \<le> max m (length ds + k)"
      using True 1 by (cases k) auto
    then have "length (ds @ ?d # es) \<le> max m (length ds + k)" using es(5) by simp
    moreover have "rev_digits m rest ds = Ok (ds @ ?d # es)"
      using es(1) True room by (subst rev_digits.simps) simp
    moreover have "digits_val (rev (?d # es)) = rest" using es(3) by simp
    ultimately show ?thesis using es by (intro exI [of _ "?d # es"]) simp
  next
    case False
    then show ?thesis using 1 by (subst rev_digits.simps) simp
  qed
qed

text \<open>The text of a decimal.\<close>

definition dec_digits :: "dec \<Rightarrow> byte list" where
  "dec_digits d = (case rev_digits (scale d + 1) (nat \<bar>mantissa d\<bar>) [] of Ok ds \<Rightarrow> rev ds | Err _ \<Rightarrow> [])"

definition dec_chars :: "dec \<Rightarrow> byte list" where
  "dec_chars d = dec_text (mantissa d < 0) (take (length (dec_digits d) - scale d) (dec_digits d))
     (drop (length (dec_digits d) - scale d) (dec_digits d))"

lemma dec_digits_spec:
  assumes "dec_wf d"
  shows "rev_digits (scale d + 1) (nat \<bar>mantissa d\<bar>) [] = Ok (rev (dec_digits d))"
    and "list_all is_digit (dec_digits d)" and "digits_val (dec_digits d) = nat \<bar>mantissa d\<bar>"
    and "scale d < length (dec_digits d)" and "length (dec_digits d) \<le> 39"
proof -
  have "nat \<bar>mantissa d\<bar> < 10 ^ 39" "scale d \<le> 36"
    using assms by (auto simp: dec_wf_def range_defs fixed_consts)
  then obtain es where es: "rev_digits (scale d + 1) (nat \<bar>mantissa d\<bar>) [] = Ok es" "list_all is_digit es"
    "digits_val (rev es) = nat \<bar>mantissa d\<bar>" "scale d < length es" "length es \<le> 39"
    using rev_digits_spec [of "nat \<bar>mantissa d\<bar>" 39 "[]" "scale d + 1"] by (auto simp: fixed_consts)
  then show "rev_digits (scale d + 1) (nat \<bar>mantissa d\<bar>) [] = Ok (rev (dec_digits d))"
    "list_all is_digit (dec_digits d)" "digits_val (dec_digits d) = nat \<bar>mantissa d\<bar>"
    "scale d < length (dec_digits d)" "length (dec_digits d) \<le> 39"
    by (auto simp: dec_digits_def list_all_iff)
qed

lemma dec_chars_pushed:
  assumes "dec_wf d"
  shows "dec_chars d = (if mantissa d < 0 then [45] else [])
     @ pointed (scale d) (length (dec_digits d) - scale d) 0 (dec_digits d)"
  using dec_digits_spec [OF assms] by (auto simp: dec_chars_def dec_text_def pointed_eq)

lemma length_dec_chars: "dec_wf d \<Longrightarrow> length (dec_chars d) \<le> MAX_TEXT_LEN - 1"
  using dec_digits_spec [of d] by (auto simp: dec_chars_def dec_text_def fixed_consts)

lemma write_to_push_all:
  assumes "dec_wf d"
  shows "write_to d buf = (case push_all (dec_chars d) \<lparr>w_buf = buf, w_pos = 0\<rparr> of
      (Err e, w) \<Rightarrow> (Err e, w_buf w) | (Ok _, w) \<Rightarrow> (Ok (w_pos w), w_buf w))"
  using dec_digits_spec(1) [OF assms] dec_chars_pushed [OF assms]
  by (auto simp: write_to_def write_digits_push_all push_all_append split: prod.split result.split)

lemma write_to_Ok:
  assumes "dec_wf d" "length (dec_chars d) \<le> length buf" "fits_u64 (length buf)"
  shows "write_to d buf = (Ok (length (dec_chars d)), dec_chars d @ drop (length (dec_chars d)) buf)"
  using push_all_Ok [of "\<lparr>w_buf = buf, w_pos = 0\<rparr>" "dec_chars d"] assms
  by (simp add: write_to_push_all)

lemma write_to_Err:
  assumes "dec_wf d" "\<not> length (dec_chars d) \<le> length buf" "fits_u64 (length buf)"
  shows "fst (write_to d buf) = Err BufferTooSmall"
  using push_all_Err [of "\<lparr>w_buf = buf, w_pos = 0\<rparr>" "dec_chars d"] assms
  by (auto simp: write_to_push_all split: prod.split result.split)

lemma parse_dec_chars:
  assumes "dec_wf d" "scale d \<le> MAX_PARSE_SCALE" "mantissa d \<noteq> - (2 ^ 127)"
  shows "parse_bytes (dec_chars d) = Ok d"
proof -
  note ds = dec_digits_spec [OF assms(1)]
  let ?n = "length (dec_digits d) - scale d"
  let ?ip = "take ?n (dec_digits d)" and ?fp = "drop ?n (dec_digits d)"
  have lt: "nat \<bar>mantissa d\<bar> < 2 ^ 127" using assms by (auto simp: dec_wf_def range_defs)
  have val: "digits_val (?ip @ ?fp) = nat \<bar>mantissa d\<bar>" unfolding append_take_drop_id by (rule ds(3))
  have "text_ok ?ip ?fp"
    unfolding text_ok_def val using ds lt assms(2)
    by (auto simp: list_all_iff dest: in_set_takeD in_set_dropD)
  moreover have "dec_of (mantissa d < 0) ?ip ?fp = d"
    unfolding dec_of_def val using ds by (cases d) auto
  ultimately show ?thesis unfolding parse_bytes_Ok_iff dec_chars_def by metis
qed


section \<open>Order\<close>

lemma dec_val_pos [simp]: "(0::rat) < 10 ^ n" by simp

lemma cmp_mult_pos:
  fixes c :: "'a::linordered_field"
  assumes "0 < c" shows "cmp (a * c) (b * c) = cmp a b"
  using assms by (simp add: cmp_def)

lemma cmp_of_int: "cmp (of_int a :: rat) (of_int b) = cmp a b"
  by (simp add: cmp_def)

lemma lexicographic_cmp:
  fixes f g :: rat
  assumes "0 \<le> f" "f < 1" "0 \<le> g" "g < 1"
  shows "cmp (of_int i + f) (of_int j + g) = then_with (cmp i j) (cmp f g)"
proof -
  consider "i < j" | "i = j" | "j < i" by linarith
  then show ?thesis
  proof cases
    case 1
    then have "of_int i + 1 \<le> (of_int j :: rat)" by linarith
    then show ?thesis using 1 assms by (simp add: cmp_def)
  next
    case 3
    then have "of_int j + 1 \<le> (of_int i :: rat)" by linarith
    then show ?thesis using 3 assms by (simp add: cmp_def)
  qed (simp add: cmp_def)
qed

lemma dec_val_split:
  assumes "dec_split d = (i, f)" "dec_wf d"
  shows "dec_val d = of_int i + of_int f / 10 ^ scale d" "0 \<le> f" "f < 10 ^ scale d"
proof -
  have "scale d < 39" using assms by (simp add: dec_wf_def fixed_consts)
  then have i: "i = mantissa d div 10 ^ scale d" and f: "f = mantissa d mod 10 ^ scale d"
    using assms by (auto simp: dec_split_def nth_opt_POW10 unwrap_or_def Let_def)
  have "mantissa d = i * 10 ^ scale d + f" unfolding i f by (rule div_mult_mod_eq [symmetric])
  then show "dec_val d = of_int i + of_int f / 10 ^ scale d" by (simp add: dec_val_def add_divide_distrib)
  show "0 \<le> f" "f < 10 ^ scale d" unfolding f by simp_all
qed

lemma rescale_frac:
  assumes "s \<le> c" "c \<le> MAX_SCALE" "0 \<le> f" "f < 10 ^ s"
  shows "sat_i128 (f * unwrap_or (nth_opt POW10 (c - s)) 1) = f * 10 ^ (c - s)"
proof -
  have "f * 10 ^ (c - s) < 10 ^ s * 10 ^ (c - s)" using assms by simp
  also have "\<dots> = 10 ^ c" using assms by (simp flip: power_add)
  also have "\<dots> \<le> (10 :: int) ^ 38" using assms by (intro pow10_mono_int) (simp add: fixed_consts)
  finally have "f * 10 ^ (c - s) < 10 ^ 38" .
  moreover have "0 \<le> f * 10 ^ (c - s)" using assms by simp
  ultimately have "fits_i128 (f * 10 ^ (c - s))" unfolding range_defs by simp
  then show ?thesis using assms by (simp add: nth_opt_POW10 unwrap_or_def sat_i128_id fixed_consts)
qed

lemma dec_cmp_val:
  assumes "dec_wf a" "dec_wf b"
  shows "dec_cmp a b = cmp (dec_val a) (dec_val b)"
proof (cases "scale a = scale b")
  case True
  then show ?thesis
    by (simp add: dec_cmp_def dec_val_def divide_inverse cmp_mult_pos cmp_of_int del: of_int_power)
next
  case False
  obtain i f where a: "dec_split a = (i, f)" by (cases "dec_split a")
  obtain j g where b: "dec_split b = (j, g)" by (cases "dec_split b")
  note da = dec_val_split [OF a assms(1)] and db = dec_val_split [OF b assms(2)]
  define c where "c = max (scale a) (scale b)"
  have c: "scale a \<le> c" "scale b \<le> c" "c \<le> MAX_SCALE"
    using assms by (auto simp: c_def dec_wf_def)
  have scaled: "of_int (h * 10 ^ (c - s)) / 10 ^ c = (of_int h / 10 ^ s :: rat)" if "s \<le> c" for h s
    using that by (simp add: divide_simps flip: power_add)
  have "cmp (f * 10 ^ (c - scale a)) (g * 10 ^ (c - scale b))
      = cmp (of_int (f * 10 ^ (c - scale a)) / 10 ^ c :: rat) (of_int (g * 10 ^ (c - scale b)) / 10 ^ c)"
    by (simp only: divide_inverse cmp_mult_pos [OF positive_imp_inverse_positive [OF dec_val_pos]] cmp_of_int)
  also have "\<dots> = cmp (of_int f / 10 ^ scale a) (of_int g / 10 ^ scale b :: rat)"
    using c by (simp only: scaled)
  finally have frac: "cmp (f * 10 ^ (c - scale a)) (g * 10 ^ (c - scale b)) = \<dots>" .
  have "of_int f < (of_int (10 ^ scale a) :: rat)" "of_int g < (of_int (10 ^ scale b) :: rat)"
    using da(3) db(3) by (simp_all only: of_int_less_iff)
  then have "of_int f / 10 ^ scale a < (1::rat)" "of_int g / 10 ^ scale b < (1::rat)" by simp_all
  then show ?thesis
    using False a b da db c rescale_frac [of "scale a" c f] rescale_frac [of "scale b" c g]
    by (simp add: dec_cmp_def c_def [symmetric] frac lexicographic_cmp)
qed

section \<open>Whole units\<close>

text \<open>The result of a division by a positive increment, by rounding mode.\<close>

definition ref_units :: "int \<Rightarrow> int \<Rightarrow> rounding \<Rightarrow> (int, fixed_error) result" where
  "ref_units n d r =
     (if n mod d = 0 then ok_or (checked_i64 (n div d)) Overflow
      else case r of
        Down \<Rightarrow> ok_or (checked_i64 (n div d)) Overflow
      | Up \<Rightarrow> ok_or (checked_i64 (n div d + 1)) Overflow
      | Exact \<Rightarrow> Err NotMultiple)"

lemma div_magnitude:
  fixes n d :: int
  assumes "0 < d" "- b \<le> n" "n < b" "0 \<le> b"
  shows "- b \<le> n div d" "n div d < b"
proof -
  have "b * 1 \<le> b * d" using assms by (intro mult_left_mono) auto
  then have "- b * d \<le> - b" by simp
  then have "(- b * d) div d \<le> (- b) div d" using assms by (intro zdiv_mono1) auto
  then have "- b \<le> (- b) div d" using assms by (simp only: nonzero_mult_div_cancel_right)
  also have "\<dots> \<le> n div d" using assms by (intro zdiv_mono1) auto
  finally show "- b \<le> n div d" .
  show "n div d < b"
  proof (cases "0 \<le> n")
    case True
    then have "n div d \<le> n" using assms zdiv_mono2 [of n 1 d] by simp
    then show ?thesis using assms by simp
  next
    case False
    then have "n div d < 0" using assms by (intro div_neg_pos_less0) auto
    then show ?thesis using assms by simp
  qed
qed


lemma euclid_pos: "0 < d \<Longrightarrow> euclid_div n d = n div d" "0 < d \<Longrightarrow> euclid_mod n d = n mod d"
  by (simp_all add: euclid_div_def euclid_mod_def)

lemma units_of_quotient_i128:
  assumes "0 < d" "fits_i128 n"
  shows "units_of_quotient checked_i128 n d r = ref_units n d r"
proof -
  have q: "fits_i128 (n div d)"
    using div_magnitude [of d "2 ^ 127" n] assms by (simp add: range_defs)
  have up: "\<not> fits_i128 (n div d + 1) \<Longrightarrow> \<not> fits_i64 (n div d + 1)" by (auto simp: range_defs)
  show ?thesis using assms q up
    by (cases r) (auto simp: units_of_quotient_def ref_units_def checked_div_euclid_def
        checked_rem_euclid_def euclid_pos checked_i128_def checked_i64_def)
qed

lemma units_of_quotient_i64:
  assumes "0 < d" "fits_i64 n"
  shows "units_of_quotient checked_i64 n d r = ref_units n d r"
proof -
  have q: "fits_i64 (n div d)"
    using div_magnitude [of d "2 ^ 63" n] assms by (simp add: range_defs)
  then have up: "fits_i128 (n div d + 1)" by (auto simp: range_defs)
  show ?thesis using assms q up
    by (cases r) (auto simp: units_of_quotient_def ref_units_def checked_div_euclid_def
        checked_rem_euclid_def euclid_pos checked_i128_def checked_i64_def)
qed

lemma mantissa_at_Ok_iff:
  "mantissa_at d s = Ok m \<longleftrightarrow> scale d \<le> s \<and> s - scale d < 39 \<and> m = mantissa d * 10 ^ (s - scale d) \<and> fits_i128 m"
  by (auto simp: mantissa_at_def result_simps split: if_splits)

lemma rescaled_i64_Some:
  assumes "rescaled_i64 inc v c = Some (n, d)"
  shows "fits_i64 n" "fits_i64 d" "mantissa_at v c = Ok n" "mantissa_at (as_dec inc) c = Ok d"
  using assms fits_i64_i128 unfolding mantissa_at_Ok_iff
  by (auto simp: rescaled_i64_def i64_factor_def bind_eq_Some_conv nth_opt_POW10_I64 as_dec_def split: if_splits)

lemma denominator_pos: "increment_wf inc \<Longrightarrow> mantissa_at (as_dec inc) c = Ok d \<Longrightarrow> 0 < d"
  by (auto simp: mantissa_at_Ok_iff increment_wf_def as_dec_def)

lemma to_units_general_eq:
  assumes "increment_wf inc" "mantissa_at v (max (scale v) (inc_scale inc)) = Ok n"
    "mantissa_at (as_dec inc) (max (scale v) (inc_scale inc)) = Ok d"
  shows "to_units_general inc v r = ref_units n d r"
proof -
  have "0 < d" "fits_i128 n" using denominator_pos [OF assms(1,3)] assms(2) by (auto simp: mantissa_at_Ok_iff)
  then show ?thesis by (simp add: to_units_general_def assms units_of_quotient_i128)
qed

text \<open>The 64-bit fast path computes what the 128-bit path computes.\<close>

lemma to_units_fast_path:
  assumes "increment_wf inc"
  shows "to_units inc v r = to_units_general inc v r"
proof (cases "rescaled_i64 inc v (max (scale v) (inc_scale inc))")
  case (Some nd)
  obtain n d where nd: "nd = (n, d)" by (cases nd)
  note f = rescaled_i64_Some [OF Some [unfolded nd]]
  have "units_of_quotient checked_i64 n d r = ref_units n d r"
    using denominator_pos [OF assms f(4)] f(1) by (rule units_of_quotient_i64)
  then show ?thesis using Some nd to_units_general_eq [OF assms f(3,4)] by (simp add: to_units_def)
qed (simp add: to_units_def)

lemma ref_units_Ok:
  assumes "ref_units n d r = Ok u" "0 < d"
  shows "fits_i64 u"
    and "r = Down \<Longrightarrow> u * d \<le> n \<and> n < (u + 1) * d"
    and "r = Up \<Longrightarrow> (u - 1) * d < n \<and> n \<le> u * d"
    and "r = Exact \<Longrightarrow> n = u * d"
proof -
  define q m where "q = n div d" and "m = n mod d"
  have n: "n = q * d + m" "0 \<le> m" "m < d" using assms(2) by (simp_all add: q_def m_def)
  note ref = assms(1) [unfolded ref_units_def, folded q_def m_def]
  show "fits_i64 u" using ref by (auto simp: result_simps split: if_splits rounding.splits)
  show "r = Exact \<Longrightarrow> n = u * d" using ref n by (auto simp: result_simps split: if_splits)
  show "r = Down \<Longrightarrow> u * d \<le> n \<and> n < (u + 1) * d"
    using ref n by (auto simp: result_simps algebra_simps split: if_splits)
  assume "r = Up"
  then have "u = (if m = 0 then q else q + 1)" using ref by (auto simp: result_simps split: if_splits)
  then show "(u - 1) * d < n \<and> n \<le> u * d" using n by (auto simp: algebra_simps)
qed

text \<open>The bracket \<open>to_units\<close> gives, in the numbers the decimals denote.\<close>

lemma mantissa_at_val:
  assumes "mantissa_at d s = Ok m" shows "dec_val d = of_int m / 10 ^ s"
proof -
  have m: "m = mantissa d * 10 ^ (s - scale d)" "scale d \<le> s" using assms by (auto simp: mantissa_at_Ok_iff)
  then have "(10::rat) ^ s = 10 ^ scale d * 10 ^ (s - scale d)" by (simp flip: power_add)
  then show ?thesis by (simp add: dec_val_def m)
qed

lemma to_units_Ok_general:
  assumes "increment_wf inc" "to_units inc v r = Ok u"
  obtains n d where "0 < d" "ref_units n d r = Ok u"
    "dec_val v = of_int n / 10 ^ max (scale v) (inc_scale inc)"
    "dec_val (as_dec inc) = of_int d / 10 ^ max (scale v) (inc_scale inc)"
proof -
  let ?c = "max (scale v) (inc_scale inc)"
  have gen: "to_units_general inc v r = Ok u" using assms to_units_fast_path by simp
  then obtain n d where nd: "mantissa_at v ?c = Ok n" "mantissa_at (as_dec inc) ?c = Ok d"
    by (auto simp: to_units_general_def Let_def result_simps)
  show ?thesis
    using that [OF denominator_pos [OF assms(1) nd(2)]] to_units_general_eq [OF assms(1) nd] gen
      mantissa_at_val [OF nd(1)] mantissa_at_val [OF nd(2)] by simp
qed

lemma scaled_less: "of_int a / 10 ^ c < (of_int b / 10 ^ c :: rat) \<longleftrightarrow> a < b"
  "of_int a / 10 ^ c \<le> (of_int b / 10 ^ c :: rat) \<longleftrightarrow> a \<le> b"
  by (simp_all add: divide_simps)

lemma scaled_mult: "of_int a * (of_int b / 10 ^ c) = (of_int (a * b) / 10 ^ c :: rat)"
  by simp

lemma to_units_bracket:
  assumes "increment_wf inc" "to_units inc v r = Ok u"
  shows "fits_i64 u"
    and "r = Down \<Longrightarrow> of_int u * dec_val (as_dec inc) \<le> dec_val v \<and> dec_val v < of_int (u + 1) * dec_val (as_dec inc)"
    and "r = Up \<Longrightarrow> of_int (u - 1) * dec_val (as_dec inc) < dec_val v \<and> dec_val v \<le> of_int u * dec_val (as_dec inc)"
    and "r = Exact \<Longrightarrow> dec_val v = of_int u * dec_val (as_dec inc)"
proof -
  obtain n d where nd: "0 < d" "ref_units n d r = Ok u"
    "dec_val v = of_int n / 10 ^ max (scale v) (inc_scale inc)"
    "dec_val (as_dec inc) = of_int d / 10 ^ max (scale v) (inc_scale inc)"
    using to_units_Ok_general [OF assms] by blast
  note ref = ref_units_Ok [OF nd(2,1)]
  show "fits_i64 u" by (rule ref(1))
  show "of_int u * dec_val (as_dec inc) \<le> dec_val v \<and> dec_val v < of_int (u + 1) * dec_val (as_dec inc)"
    if "r = Down" using ref(2) [OF that] unfolding nd(3,4) scaled_mult scaled_less .
  show "of_int (u - 1) * dec_val (as_dec inc) < dec_val v \<and> dec_val v \<le> of_int u * dec_val (as_dec inc)"
    if "r = Up" using ref(3) [OF that] unfolding nd(3,4) scaled_mult scaled_less .
  show "dec_val v = of_int u * dec_val (as_dec inc)" if "r = Exact"
    using ref(4) [OF that] unfolding nd(3,4) scaled_mult by simp
qed

lemma to_units_multiple:
  assumes "increment_wf inc" "fits_i64 u"
    "mantissa_at v (max (scale v) (inc_scale inc)) = Ok (u * d)"
    "mantissa_at (as_dec inc) (max (scale v) (inc_scale inc)) = Ok d"
  shows "to_units inc v r = Ok u"
  using denominator_pos [OF assms(1,4)] assms(2)
  by (simp add: to_units_fast_path [OF assms(1)] to_units_general_eq [OF assms(1,3,4)]
      ref_units_def checked_i64_def)

lemma from_units_fits:
  assumes "increment_wf inc" "fits_i64 u" shows "fits_i128 (u * inc_mantissa inc)"
proof -
  have m: "0 < inc_mantissa inc" "inc_mantissa inc \<le> 2 ^ 63" and u: "- (2 ^ 63) \<le> u" "u \<le> 2 ^ 63"
    using assms by (auto simp: increment_wf_def range_defs)
  have "\<bar>u * inc_mantissa inc\<bar> \<le> 2 ^ 63 * 2 ^ 63"
    unfolding abs_mult using m u by (intro mult_mono) auto
  then show ?thesis unfolding range_defs by (simp add: abs_le_iff)
qed

lemma to_units_from_units:
  assumes "increment_wf inc" "fits_i64 u"
  shows "to_units inc (from_units inc u) r = Ok u"
proof (rule to_units_multiple [OF assms, where d = "inc_mantissa inc"])
  have "fits_i128 (inc_mantissa inc)" using assms(1) by (simp add: increment_wf_def fits_i64_i128)
  then show "mantissa_at (as_dec inc) (max (scale (from_units inc u)) (inc_scale inc)) = Ok (inc_mantissa inc)"
    by (simp add: mantissa_at_Ok_iff as_dec_def from_units_def)
  show "mantissa_at (from_units inc u) (max (scale (from_units inc u)) (inc_scale inc)) = Ok (u * inc_mantissa inc)"
    using from_units_fits [OF assms] by (simp add: mantissa_at_Ok_iff from_units_def sat_i128_id)
qed

lemma from_units_val:
  assumes "increment_wf inc" "fits_i64 u"
  shows "dec_val (from_units inc u) = of_int u * dec_val (as_dec inc)"
  using from_units_fits [OF assms] by (simp add: dec_val_def from_units_def as_dec_def sat_i128_id)


section \<open>The division-free fast path\<close>

lemma position_Some: "position P xs = Some i \<Longrightarrow> i < length xs \<and> P (xs ! i) \<and> list_all (\<lambda>x. \<not> P x) (take i xs)"
  by (induction xs arbitrary: i) (auto split: if_splits)

lemma position_None: "position P xs = None \<Longrightarrow> list_all (\<lambda>x. \<not> P x) xs"
  by (induction xs) (auto split: if_splits)

lemma split_point_text:
  assumes "split_point bs = Some (ip, fp)" shows "bs = dec_text False ip fp"
proof (cases "position (\<lambda>b. b = 46) bs")
  case (Some i)
  then show ?thesis using assms position_Some [OF Some] list_split3 [of i bs]
    by (auto simp: split_point_def dec_text_def Let_def split: if_splits)
qed (use assms in \<open>simp add: split_point_def dec_text_def\<close>)

lemma fast_digits_Some:
  assumes "fast_digits bs u = Some v" "digits_from u bs < 2 ^ 64"
  shows "list_all is_digit bs \<and> v = digits_from u bs"
  using assms
proof (induction bs arbitrary: u)
  case (Cons b bs)
  have "u * 10 + digit_of b < 2 ^ 64"
    using Cons.prems(2) digits_from_ge [of "u * 10 + digit_of b" bs] by simp
  then show ?case using Cons by (auto simp: is_digit_iff split: if_splits)
qed simp

lemma fast_digits_digits: "fast_digits bs u = Some v \<Longrightarrow> list_all is_digit bs"
  by (induction bs u rule: fast_digits.induct) (auto simp: is_digit_iff split: if_splits)

lemma fast_digits_val:
  assumes "fast_digits bs 0 = Some v" "length bs \<le> FAST_DIGITS"
  shows "list_all is_digit bs" "v = digits_val bs" "digits_val bs < 10 ^ length bs"
proof -
  show d: "list_all is_digit bs" using assms(1) by (rule fast_digits_digits)
  then show lt: "digits_val bs < 10 ^ length bs" by (rule digits_val_lt)
  also have "\<dots> \<le> 10 ^ 18" using assms(2) by (intro power_increasing) (auto simp: fixed_consts)
  finally have "digits_val bs < 2 ^ 64" by simp
  then show "v = digits_val bs" using fast_digits_Some [OF assms(1)] by simp
qed

lemma digits_from_zeros: "list_all (\<lambda>b. b = 48) bs \<Longrightarrow> digits_from v bs = v * 10 ^ length bs"
  by (induction bs arbitrary: v) (auto simp: digit_of_def)

lemma parse_exact_Some:
  assumes "parse_exact_power_of_ten inc bs = Some u" "inc_scale inc \<le> MAX_PARSE_SCALE"
  obtains ip fp where "inc_mantissa inc = 1" "bs = dec_text False ip fp" "text_ok ip fp" "fits_i64 u"
    "int (digits_val (ip @ fp)) * 10 ^ (max (length fp) (inc_scale inc) - length fp)
       = u * 10 ^ (max (length fp) (inc_scale inc) - inc_scale inc)"
    "digits_val (ip @ fp) < 10 ^ 36"
proof -
  obtain ip fp where sp: "split_point bs = Some (ip, fp)" and m: "inc_mantissa inc = 1"
    using assms by (auto simp: parse_exact_power_of_ten_def bind_eq_Some_conv split: if_splits)
  let ?w = "inc_scale inc"
  define kept where "kept = take (min (length fp) ?w) fp"
  define dropped where "dropped = drop (min (length fp) ?w) fp"
  have fp: "fp = kept @ dropped" "length kept = min (length fp) ?w" by (simp_all add: kept_def dropped_def)
  have dl: "length dropped = length fp - ?w" by (auto simp: dropped_def)
  from assms(1) obtain v where ok: "ip \<noteq> []" "length fp \<le> MAX_PARSE_SCALE" "list_all (\<lambda>b. b = 48) dropped"
    "length (ip @ kept) \<le> FAST_DIGITS" "fast_digits (ip @ kept) 0 = Some v"
    "u = int v * 10 ^ (?w - length kept)" "fits_i64 u"
    by (auto simp: parse_exact_power_of_ten_def m sp Let_def bind_eq_Some_conv nth_opt_POW10_I64
        kept_def [symmetric] dropped_def [symmetric] split: if_splits)
  note fd = fast_digits_val [OF ok(5,4)]
  have val: "digits_val (ip @ fp) = v * 10 ^ length dropped"
    using digits_from_zeros [OF ok(3), of "digits_val (ip @ kept)"] fd(2) by (simp add: fp(1))
  have dig: "list_all is_digit ip" "list_all is_digit fp"
    using fd(1) ok(3) by (auto simp: fp(1) list_all_iff is_digit_def)
  have "v * 10 ^ length dropped < 10 ^ length (ip @ kept) * 10 ^ length dropped" using fd by simp
  also have "\<dots> = 10 ^ (length (ip @ kept) + length dropped)" by (simp add: power_add)
  also have "\<dots> \<le> (10::nat) ^ 36"
  proof (rule power_increasing)
    show "length (ip @ kept) + length dropped \<le> 36" using ok(2,4) by (simp add: fixed_consts dropped_def)
  qed simp
  finally have lt: "digits_val (ip @ fp) < 10 ^ 36" unfolding val .
  then have "digits_val (ip @ fp) < 2 ^ 127" by (rule less_trans) simp
  then have "text_ok ip fp" unfolding text_ok_def using dig ok by blast
  moreover have "int (digits_val (ip @ fp)) * 10 ^ (max (length fp) ?w - length fp) = u * 10 ^ (max (length fp) ?w - ?w)"
    unfolding val using ok(6) fp(2) dl by (cases "?w \<le> length fp") (simp_all add: max_def)
  ultimately show ?thesis using that m split_point_text [OF sp] lt ok(7) by blast
qed

lemma parse_units_fast_path:
  assumes "increment_wf inc"
  shows "parse_units_bytes inc bs r = rbind (parse_bytes bs) (\<lambda>d. to_units inc d r)"
proof (cases "parse_exact_power_of_ten inc bs")
  case (Some u)
  have sc: "inc_scale inc \<le> MAX_PARSE_SCALE" using assms by (simp add: increment_wf_def)
  obtain ip fp where t: "inc_mantissa inc = 1" "bs = dec_text False ip fp" "text_ok ip fp" "fits_i64 u"
    "int (digits_val (ip @ fp)) * 10 ^ (max (length fp) (inc_scale inc) - length fp)
       = u * 10 ^ (max (length fp) (inc_scale inc) - inc_scale inc)"
    "digits_val (ip @ fp) < 10 ^ 36"
    using parse_exact_Some [OF Some sc] by blast
  let ?d = "dec_of False ip fp" and ?c = "max (length fp) (inc_scale inc)"
  have p: "parse_bytes bs = Ok ?d" using t(2,3) parse_bytes_Ok_iff by blast
  have c: "?c - length fp < 39" "?c - inc_scale inc < 39"
    using sc t(3) by (auto simp: text_ok_def fixed_consts)
  have num: "fits_i128 (int (digits_val (ip @ fp)) * 10 ^ (?c - length fp))"
  proof (cases "inc_scale inc \<le> length fp")
    case True
    have "int (digits_val (ip @ fp)) < int (10 ^ 36)" using t(6) by (simp only: of_nat_less_iff)
    then show ?thesis using True by (simp add: range_defs)
  next
    case False
    then show ?thesis using t(4,5) by (simp add: fits_i64_i128)
  qed
  have "to_units inc ?d r = Ok u"
    using assms t(4)
  proof (rule to_units_multiple)
    show "mantissa_at ?d (max (scale ?d) (inc_scale inc)) = Ok (u * 10 ^ (?c - inc_scale inc))"
      using num c t(5) unfolding mantissa_at_Ok_iff by (simp add: dec_of_def)
    show "mantissa_at (as_dec inc) (max (scale ?d) (inc_scale inc)) = Ok (10 ^ (?c - inc_scale inc))"
      using c pow10_fits_i128 unfolding mantissa_at_Ok_iff by (simp add: dec_of_def as_dec_def t(1))
  qed
  then show ?thesis by (simp add: parse_units_bytes_def Some p)
qed (simp add: parse_units_bytes_def)

section \<open>Normalisation of increments\<close>

lemma strip_zeros_spec:
  assumes "strip_zeros m s = (m', s')" "0 < m"
  shows "0 < m' \<and> s' \<le> s \<and> m = m' * 10 ^ (s - s') \<and> (s' > 0 \<longrightarrow> m' mod 10 \<noteq> 0)"
  using assms
proof (induction m s rule: strip_zeros.induct)
  case (1 m s)
  show ?case
  proof (cases "s > 0 \<and> m mod 10 = 0")
    case True
    then obtain k where m: "m = 10 * k" by (auto elim: dvdE simp: mod_eq_0_iff_dvd)
    have "strip_zeros k (s - 1) = (m', s')" using 1(2) True m by (subst (asm) strip_zeros.simps) simp
    then have "0 < m' \<and> s' \<le> s - 1 \<and> k = m' * 10 ^ (s - 1 - s') \<and> (s' > 0 \<longrightarrow> m' mod 10 \<noteq> 0)"
      using 1(1) [OF True] 1(3) m by simp
    moreover from this True have "s - s' = Suc (s - 1 - s')" by arith
    ultimately show ?thesis using m by auto
  next
    case False
    then show ?thesis using 1 by (subst (asm) (2) strip_zeros.simps) auto
  qed
qed

lemma increment_new_spec:
  assumes "increment_new m s = Ok inc" "fits_i64 m"
  shows "increment_wf inc" "dec_val (as_dec inc) = of_int m / 10 ^ s"
proof -
  obtain m' s' where st: "strip_zeros m s = (m', s')" by (cases "strip_zeros m s")
  have inc: "inc = \<lparr>inc_mantissa = m', inc_scale = s'\<rparr>" "0 < m" "s \<le> MAX_PARSE_SCALE"
    using assms st by (auto simp: increment_new_def split: if_splits)
  note z = strip_zeros_spec [OF st inc(2)]
  then have "m' * 1 \<le> m" by (simp only:) (intro mult_left_mono, auto)
  then have "0 < m' \<and> m' \<le> m" using z by simp
  then have "fits_i64 m'" using assms(2) unfolding range_defs by linarith
  then show "increment_wf inc" using z inc by (auto simp: increment_wf_def)
  have "(10::rat) ^ s = 10 ^ s' * 10 ^ (s - s')" using z by (simp flip: power_add)
  then show "dec_val (as_dec inc) = of_int m / 10 ^ s" using z
    by (simp add: inc(1) dec_val_def as_dec_def)
qed

section \<open>Properties\<close>

lemmas parse_eval = parse_bytes_def parse_init_def parse_step_def push_digit_def parse_finish_def is_digit_def
  digit_of_def checked_u64_def checked_i128_def range_defs sat_u8_def sat_u64_def fixed_consts

text \<open>C9: \<open>Dec::parse_bytes\<close> accepts exactly the plain decimal numbers with at most eighteen
  decimal places whose digits fit an i128, and returns the number the text denotes.\<close>

theorem parse_bytes_accepts:
  "parse_bytes bs = Ok d \<longleftrightarrow>
     (\<exists>neg ip fp. bs = dec_text neg ip fp \<and> text_ok ip fp \<and> d = dec_of neg ip fp)"
  by (rule parse_bytes_Ok_iff)

text \<open>C11: A decimal of at most eighteen places is written into a buffer of \<open>MAX_TEXT_LEN\<close> bytes and parses back to the same mantissa and
  scale, the least i128 excepted: it is written too, but its text does not parse back to it.\<close>

theorem dec_text_round_trip:
  assumes "dec_wf d" "scale d \<le> MAX_PARSE_SCALE" "MAX_TEXT_LEN \<le> length buf" "fits_u64 (length buf)"
  shows "\<exists>n buf'. write_to d buf = (Ok n, buf') \<and> n \<le> MAX_TEXT_LEN \<and> (parse_bytes (take n buf') = Ok d \<longleftrightarrow> mantissa d \<noteq> - (2 ^ 127))"
proof -
  have "length (dec_chars d) \<le> length buf" "length (dec_chars d) \<le> MAX_TEXT_LEN"
    using length_dec_chars [OF assms(1)] assms(3) by auto
  moreover have "mantissa d \<noteq> - (2 ^ 127)" if p: "parse_bytes bs = Ok d" for bs
  proof -
    obtain neg ip fp where d: "digits_val (ip @ fp) < 2 ^ 127" "d = dec_of neg ip fp"
      using p unfolding parse_bytes_Ok_iff text_ok_def by blast
    then have "int (digits_val (ip @ fp)) < 2 ^ 127" by simp
    then show ?thesis unfolding d(2) dec_of_def by (simp only: dec.select_convs split: if_split) linarith
  qed
  ultimately show ?thesis
    using write_to_Ok [OF assms(1) _ assms(4)] parse_dec_chars [OF assms(1,2)] by auto
qed

theorem dec_text_round_trip_witness:
  "\<exists>n buf'. write_to \<lparr>mantissa = -12345, scale = 3\<rparr> (replicate 42 0) = (Ok n, buf') \<and> n \<le> MAX_TEXT_LEN
     \<and> parse_bytes (take n buf') = Ok \<lparr>mantissa = -12345, scale = 3\<rparr>"
  using dec_text_round_trip [of "\<lparr>mantissa = -12345, scale = 3\<rparr>" "replicate 42 0"] by (simp add: dec_wf_def fixed_consts range_defs)

text \<open>The order and the equality of decimals are those of the numbers they denote, whatever
  their scales.\<close>

lemma dec_order_numeric:
  assumes "dec_wf a" "dec_wf b"
  shows "dec_cmp a b = cmp (dec_val a) (dec_val b) \<and> (dec_eq a b \<longleftrightarrow> dec_val a = dec_val b)"
  by (simp add: dec_cmp_val [OF assms] dec_eq_def)

text \<open>Converting a decimal to whole increments rounds as asked: down and up give the
  nearest multiple at or below and at or above the value, exact gives the value itself; the
  result fits an i64.\<close>

lemma to_units_rounds:
  assumes "increment_wf inc" "to_units inc v r = Ok u"
  shows "fits_i64 u \<and>
    (case r of
       Down \<Rightarrow> of_int u * dec_val (as_dec inc) \<le> dec_val v \<and> dec_val v < of_int (u + 1) * dec_val (as_dec inc)
     | Up \<Rightarrow> of_int (u - 1) * dec_val (as_dec inc) < dec_val v \<and> dec_val v \<le> of_int u * dec_val (as_dec inc)
     | Exact \<Rightarrow> dec_val v = of_int u * dec_val (as_dec inc))"
  using to_units_bracket [OF assms] by (cases r) auto

text \<open>C5: Parsing text straight into units gives the same result, and the same error, as
  parsing the decimal and converting it.\<close>

theorem parse_units_same:
  assumes "increment_wf inc"
  shows "parse_units_bytes inc bs r = rbind (parse_bytes bs) (\<lambda>d. to_units_general inc d r)"
  using parse_units_fast_path [OF assms] to_units_fast_path [OF assms] by simp

theorem parse_units_same_witness:
  "parse_units_bytes \<lparr>inc_mantissa = 1, inc_scale = 2\<rparr> [49, 46, 53, 48, 48] Exact
     = rbind (parse_bytes [49, 46, 53, 48, 48]) (\<lambda>d. to_units_general \<lparr>inc_mantissa = 1, inc_scale = 2\<rparr> d Exact)"
  by (rule parse_units_same) (simp add: increment_wf_def range_defs fixed_consts)

text \<open>Every number of units converts to a decimal and back, and the decimal is that many
  increments.\<close>

lemma units_round_trip:
  assumes "increment_wf inc" "fits_i64 u"
  shows "to_units inc (from_units inc u) r = Ok u \<and> dec_val (from_units inc u) = of_int u * dec_val (as_dec inc)"
  using to_units_from_units [OF assms] from_units_val [OF assms] by simp

text \<open>A parsed increment is positive, carries no trailing zero and has the value of its
  text.\<close>

lemma increment_parse_normal:
  assumes "increment_parse bs = Ok inc"
  shows "increment_wf inc \<and> (\<exists>d. parse_bytes bs = Ok d \<and> dec_val (as_dec inc) = dec_val d)"
proof -
  obtain d where "parse_bytes bs = Ok d" "fits_i64 (mantissa d)" "increment_new (mantissa d) (scale d) = Ok inc"
    using assms by (auto simp: increment_parse_def result_simps)
  then show ?thesis using increment_new_spec [of "mantissa d" "scale d" inc] by (simp add: dec_val_def)
qed

end
