(* ===== verification/Core_Types.thy ===== *)
theory Core_Types
  imports Fixed
begin

unbundle bit_operations_syntax

text \<open>
  The small types of \<open>crates/bowst-core/src\<close> that every other component speaks:
  prices, quantities and sides (\<open>units.rs\<close>), identifiers (\<open>ids.rs\<close>), symbols and the instrument
  table (\<open>instrument.rs\<close>), timestamps and the manual clock (\<open>time.rs\<close>).

  Text is a list of bytes.  A u32 is a \<open>32 word\<close>; a timestamp is its number of nanoseconds.
\<close>

section \<open>Units\<close>

type_synonym price = int
type_synonym qty = int

datatype side = Buy | Sell

definition units_from_dec :: "dec \<Rightarrow> increment \<Rightarrow> rounding \<Rightarrow> (int, fixed_error) result" where
  "units_from_dec v inc r = to_units inc v r"

definition units_to_dec :: "int \<Rightarrow> increment \<Rightarrow> dec" where
  "units_to_dec u inc = from_units inc u"

definition units_checked_add :: "int \<Rightarrow> int \<Rightarrow> int option" where
  "units_checked_add a b = checked_i64 (a + b)"

definition units_checked_sub :: "int \<Rightarrow> int \<Rightarrow> int option" where
  "units_checked_sub a b = checked_i64 (a - b)"

fun opposite :: "side \<Rightarrow> side" where
  "opposite Buy = Sell"
| "opposite Sell = Buy"

fun sign :: "side \<Rightarrow> int" where
  "sign Buy = 1"
| "sign Sell = -1"

fun passive_rounding :: "side \<Rightarrow> rounding" where
  "passive_rounding Buy = Down"
| "passive_rounding Sell = Up"

fun is_more_aggressive :: "side \<Rightarrow> price \<Rightarrow> price \<Rightarrow> bool" where
  "is_more_aggressive Buy a b \<longleftrightarrow> b < a"
| "is_more_aggressive Sell a b \<longleftrightarrow> a < b"

definition notional :: "price \<Rightarrow> increment \<Rightarrow> qty \<Rightarrow> increment \<Rightarrow> (dec, fixed_error) result" where
  "notional p tick q lot = checked_mul (units_to_dec p tick) (units_to_dec q lot)"

section \<open>Identifiers\<close>

datatype venue_id = Binance | Bybit

definition venue_ALL :: "venue_id list" where
  "venue_ALL = [Binance, Bybit]"

definition ascii :: "string \<Rightarrow> byte list" where
  "ascii s = map (\<lambda>c. of_char c) s"

fun venue_as_str :: "venue_id \<Rightarrow> byte list" where
  "venue_as_str Binance = ascii ''binance''"
| "venue_as_str Bybit = ascii ''bybit''"

fun venue_code :: "venue_id \<Rightarrow> nat" where
  "venue_code Binance = 1"
| "venue_code Bybit = 2"

definition venue_from_name :: "byte list \<Rightarrow> venue_id option" where
  "venue_from_name name = List.find (\<lambda>v. venue_as_str v = name) venue_ALL"

type_synonym instrument_id = "32 word"

definition PREFIX :: "byte list" where "PREFIX = ascii ''bw''"
definition HEX :: "byte list" where "HEX = ascii ''0123456789abcdef''"
definition HEX_DIGITS :: nat where "HEX_DIGITS = 16"
definition CLIENT_ORDER_ID_LEN :: nat where "CLIENT_ORDER_ID_LEN = length PREFIX + HEX_DIGITS"

record client_order_id =
  session :: "32 word"
  sequence :: "32 word"

text \<open>
  \<open>write_hex v n\<close> is what the loop leaves in an output slice of length \<open>n\<close>: it fills the
  slice from its end, one nibble a step.
\<close>

fun write_hex :: "32 word \<Rightarrow> nat \<Rightarrow> byte list" where
  "write_hex rest 0 = []"
| "write_hex rest (Suc n) =
     write_hex (drop_bit 4 rest) n @ [unwrap_or (nth_opt HEX (unat (rest AND 15))) 48]"

definition client_encode :: "client_order_id \<Rightarrow> byte list" where
  "client_encode c = PREFIX @ write_hex (session c) (HEX_DIGITS div 2) @ write_hex (sequence c) (HEX_DIGITS div 2)"

text \<open>\<open>u32::from_str_radix\<close> with radix 16 on an unsigned, non-empty digit string.\<close>

definition hex_digit :: "byte \<Rightarrow> nat option" where
  "hex_digit b =
     (if 48 \<le> b \<and> b \<le> 57 then Some (unat (b - 48))
      else if 97 \<le> b \<and> b \<le> 102 then Some (unat (b - 97) + 10)
      else if 65 \<le> b \<and> b \<le> 70 then Some (unat (b - 65) + 10)
      else None)"

fun radix16 :: "nat \<Rightarrow> byte list \<Rightarrow> nat option" where
  "radix16 v [] = Some v"
| "radix16 v (b # bs) =
     Option.bind (hex_digit b) (\<lambda>d. if v * 16 + d < 2 ^ 32 then radix16 (v * 16 + d) bs else None)"

definition from_str_radix16 :: "byte list \<Rightarrow> 32 word option" where
  "from_str_radix16 bs = (if bs = [] then None else map_option of_nat (radix16 0 bs))"

definition strip_prefix :: "'a list \<Rightarrow> 'a list \<Rightarrow> 'a list option" where
  "strip_prefix p xs = (if take (length p) xs = p then Some (drop (length p) xs) else None)"

definition client_decode :: "byte list \<Rightarrow> client_order_id option" where
  "client_decode txt =
     Option.bind (strip_prefix PREFIX txt) (\<lambda>digits.
       if length digits \<noteq> HEX_DIGITS \<or> \<not> list_all (\<lambda>b. b \<in> set HEX) digits then None
       else
         Option.bind (from_str_radix16 (take (HEX_DIGITS div 2) digits)) (\<lambda>s.
         Option.bind (from_str_radix16 (drop (HEX_DIGITS div 2) digits)) (\<lambda>q.
         Some \<lparr>session = s, sequence = q\<rparr>)))"

record client_order_id_gen =
  gen_session :: "32 word"
  gen_next_seq :: "32 word option"

definition gen_new :: "32 word \<Rightarrow> client_order_id_gen" where
  "gen_new s = \<lparr>gen_session = s, gen_next_seq = Some 0\<rparr>"

definition gen_next :: "client_order_id_gen \<Rightarrow> client_order_id option \<times> client_order_id_gen" where
  "gen_next g =
     (case gen_next_seq g of
        None \<Rightarrow> (None, g)
      | Some q \<Rightarrow>
          (Some \<lparr>session = gen_session g, sequence = q\<rparr>,
           g\<lparr>gen_next_seq := (if unat q + 1 < 2 ^ 32 then Some (q + 1) else None)\<rparr>))"

section \<open>Instruments\<close>

definition MAX_SYMBOL_LEN :: nat where "MAX_SYMBOL_LEN = 24"

record symbol =
  sym_bytes :: "byte list"
  sym_len :: nat

definition is_ascii_graphic :: "byte \<Rightarrow> bool" where
  "is_ascii_graphic b \<longleftrightarrow> 33 \<le> b \<and> b \<le> 126"

definition symbol_new :: "byte list \<Rightarrow> symbol option" where
  "symbol_new txt =
     (if txt = [] \<or> length txt > MAX_SYMBOL_LEN \<or> \<not> list_all is_ascii_graphic txt then None
      else Some \<lparr>sym_bytes = txt @ replicate (MAX_SYMBOL_LEN - length txt) 0, sym_len = length txt\<rparr>)"

text \<open>The stored bytes are ASCII by construction; anything else reads as the empty text.\<close>

definition symbol_as_str :: "symbol \<Rightarrow> byte list" where
  "symbol_as_str s =
     (if sym_len s \<le> length (sym_bytes s) \<and> list_all (\<lambda>b. b < 128) (take (sym_len s) (sym_bytes s))
      then take (sym_len s) (sym_bytes s) else [])"

record instrument =
  inst_id :: instrument_id
  inst_venue :: venue_id
  inst_symbol :: symbol
  inst_tick :: increment
  inst_lot :: increment
  inst_min_notional :: dec

datatype instrument_table_error =
    NonSequentialId instrument_id
  | DuplicateSymbol venue_id symbol

type_synonym instrument_table = "instrument list"

fun table_check :: "instrument list \<Rightarrow> instrument list \<Rightarrow> instrument_table_error option" where
  "table_check seen [] = None"
| "table_check seen (i # rest) =
     (if unat (inst_id i) \<noteq> length seen then Some (NonSequentialId (inst_id i))
      else if list_ex (\<lambda>other. inst_venue other = inst_venue i \<and> inst_symbol other = inst_symbol i) seen
      then Some (DuplicateSymbol (inst_venue i) (inst_symbol i))
      else table_check (seen @ [i]) rest)"

definition table_new :: "instrument list \<Rightarrow> (instrument_table, instrument_table_error) result" where
  "table_new is = (case table_check [] is of Some e \<Rightarrow> Err e | None \<Rightarrow> Ok is)"

definition table_get :: "instrument_table \<Rightarrow> instrument_id \<Rightarrow> instrument option" where
  "table_get t i = nth_opt t (unat i)"

definition table_find :: "instrument_table \<Rightarrow> venue_id \<Rightarrow> byte list \<Rightarrow> instrument option" where
  "table_find t v name = List.find (\<lambda>i. inst_venue i = v \<and> symbol_as_str (inst_symbol i) = name) t"

section \<open>Time\<close>

text \<open>A timestamp and a duration are numbers of nanoseconds; timestamps are u64.\<close>

type_synonym nanos = nat

definition saturating_since :: "nanos \<Rightarrow> nanos \<Rightarrow> nanos" where
  "saturating_since t earlier = t - earlier"

definition time_checked_add :: "nanos \<Rightarrow> nanos \<Rightarrow> nanos option" where
  "time_checked_add t dur = Option.bind (checked_u64 dur) (\<lambda>n. checked_u64 (t + n))"

definition from_unix_millis :: "nat \<Rightarrow> nanos option" where
  "from_unix_millis ms = checked_u64 (ms * 1000000)"

record manual_clock =
  clock_mono :: nanos
  clock_wall :: nanos

definition clock_advance :: "manual_clock \<Rightarrow> nanos \<Rightarrow> manual_clock" where
  "clock_advance c dur =
     (let n = unwrap_or (checked_u64 dur) u64_max in
      c\<lparr>clock_mono := sat_u64 (clock_mono c + n), clock_wall := sat_u64 (clock_wall c + n)\<rparr>)"

definition clock_set_wall :: "manual_clock \<Rightarrow> nanos \<Rightarrow> manual_clock" where
  "clock_set_wall c w = c\<lparr>clock_wall := w\<rparr>"

section \<open>Facts\<close>

lemma opposite_involutive [simp]: "opposite (opposite s) = s"
  by (cases s) auto

lemma more_aggressive_opposite: "is_more_aggressive (opposite s) a b = is_more_aggressive s b a"
  by (cases s) auto

lemma notional_val:
  assumes "increment_wf tick" "increment_wf lot" "fits_i64 p" "fits_i64 q" "notional p tick q lot = Ok d"
  shows "dec_wf d" "dec_val d = (of_int p * dec_val (as_dec tick)) * (of_int q * dec_val (as_dec lot))"
proof -
  have "d = \<lparr>mantissa = mantissa (from_units tick p) * mantissa (from_units lot q), scale = inc_scale tick + inc_scale lot\<rparr>"
    "dec_wf d"
    using assms(5) by (auto simp: notional_def units_to_dec_def checked_mul_def dec_new_def result_simps
        from_units_def dec_wf_def split: if_splits)
  then show "dec_wf d" "dec_val d = (of_int p * dec_val (as_dec tick)) * (of_int q * dec_val (as_dec lot))"
    unfolding from_units_val [OF assms(1,3), symmetric] from_units_val [OF assms(2,4), symmetric]
    by (simp_all add: dec_val_def from_units_def power_add)
qed

subsection \<open>Client order ids\<close>

lemma hex_nth: "k < 16 \<Longrightarrow> HEX ! k \<in> set HEX \<and> hex_digit (HEX ! k) = Some k"
proof -
  assume "k < 16"
  then have "k \<in> set [0..<16]" by simp
  moreover have "list_all (\<lambda>k. HEX ! k \<in> set HEX \<and> hex_digit (HEX ! k) = Some k) [0..<16]"
    by code_simp
  ultimately show ?thesis by (auto simp: list_all_iff)
qed

lemma nibble: "unat (v AND 15 :: 32 word) = unat v mod 16" "unat (drop_bit 4 v :: 32 word) = unat v div 16"
proof -
  have "(15 :: 32 word) = mask 4" by (simp add: mask_eq_exp_minus_1)
  then have "v AND 15 = take_bit 4 v" by (simp add: take_bit_eq_mask)
  then show "unat (v AND 15) = unat v mod 16"
    by (simp only: unsigned_take_bit_eq) (simp add: take_bit_eq_mod)
  show "unat (drop_bit 4 v) = unat v div 16"
    by (simp only: unat_drop_bit_eq) (simp add: drop_bit_eq_div)
qed

lemma write_hex_digits:
  "length (write_hex v n) = n" "list_all (\<lambda>b. b \<in> set HEX) (write_hex v n)"
proof -
  have "length HEX = 16" by code_simp
  then show "length (write_hex v n) = n" "list_all (\<lambda>b. b \<in> set HEX) (write_hex v n)"
    using hex_nth by (induction v n rule: write_hex.induct) (auto simp: nibble unwrap_or_def nth_opt_def)
qed

lemma radix16_append: "radix16 v (as @ bs) = Option.bind (radix16 v as) (\<lambda>w. radix16 w bs)"
  by (induction v as rule: radix16.induct) (auto simp: Option.bind_assoc split: bind_split)

lemma radix16_write_hex: "n \<le> 8 \<Longrightarrow> radix16 0 (write_hex v n) = Some (unat v mod 16 ^ n)"
proof (induction v n rule: write_hex.induct)
  case (2 v n)
  have len: "length HEX = 16" by code_simp
  have "unat v div 16 mod 16 ^ n * 16 + unat v mod 16 = unat v mod 16 ^ Suc n"
    by (simp add: mod_mult2_eq)
  moreover have "unat v mod 16 ^ Suc n < 2 ^ 32"
    by (rule le_less_trans [OF mod_less_eq_dividend]) (use unsigned_less [of v, where 'a = nat] in simp)
  ultimately show ?case using 2 len hex_nth [of "unat v mod 16"]
    by (simp add: radix16_append nibble unwrap_or_def nth_opt_def)
qed simp

lemma from_radix_write_hex: "from_str_radix16 (write_hex v 8) = Some v"
proof -
  have "write_hex v 8 \<noteq> []" using write_hex_digits(1) [of v 8] by auto
  moreover have "unat v mod 16 ^ 8 = unat v" using unsigned_less [of v, where 'a = nat] by simp
  ultimately show ?thesis by (simp add: from_str_radix16_def radix16_write_hex)
qed

lemma client_round_trip: "client_decode (client_encode c) = Some c"
  using write_hex_digits [of "session c" 8] write_hex_digits [of "sequence c" 8]
  by (simp add: client_decode_def client_encode_def strip_prefix_def HEX_DIGITS_def from_radix_write_hex)

lemma client_encode_length: "length (client_encode c) = CLIENT_ORDER_ID_LEN"
  by (simp add: client_encode_def write_hex_digits CLIENT_ORDER_ID_LEN_def HEX_DIGITS_def)

text \<open>A run of \<open>n\<close> requests to one generator: the ids handed out, exhaustion dropped.\<close>

fun gen_run :: "nat \<Rightarrow> client_order_id_gen \<Rightarrow> client_order_id list \<times> client_order_id_gen" where
  "gen_run 0 g = ([], g)"
| "gen_run (Suc n) g =
     (case gen_next g of
        (None, g1) \<Rightarrow> gen_run n g1
      | (Some c, g1) \<Rightarrow> (let (cs, g2) = gen_run n g1 in (c # cs, g2)))"

lemma gen_run_exhausted: "gen_next_seq g = None \<Longrightarrow> gen_run n g = ([], g)"
  by (induction n) (auto simp: gen_next_def)

lemma gen_run_from:
  assumes "k < 2 ^ 32"
  shows "fst (gen_run n \<lparr>gen_session = s, gen_next_seq = Some (of_nat k)\<rparr>)
    = map (\<lambda>i. \<lparr>session = s, sequence = of_nat i\<rparr>) [k..<min (k + n) (2 ^ 32)]"
  using assms
proof (induction n arbitrary: k)
  case (Suc n)
  have un: "unat (of_nat k :: 32 word) = k" using Suc.prems by (simp add: unat_of_nat)
  show ?case
  proof (cases "k + 1 < 2 ^ 32")
    case True
    have "k < min (k + Suc n) (2 ^ 32)" using Suc.prems by simp
    then have upt: "[k..<min (k + Suc n) (2 ^ 32)] = k # [Suc k..<min (Suc k + n) (2 ^ 32)]"
      by (simp only: upt_conv_Cons add_Suc add_Suc_right)
    have eq: "of_nat (Suc k) = (of_nat k + 1 :: 32 word)" by simp
    obtain cs g where run: "gen_run n \<lparr>gen_session = s, gen_next_seq = Some (of_nat k + 1)\<rparr> = (cs, g)"
      by (cases "gen_run n \<lparr>gen_session = s, gen_next_seq = Some (of_nat k + 1)\<rparr>")
    then have "fst (gen_run (Suc n) \<lparr>gen_session = s, gen_next_seq = Some (of_nat k)\<rparr>)
        = \<lparr>session = s, sequence = of_nat k\<rparr> # cs"
      using True un by (simp add: gen_next_def)
    moreover have "Suc k < 2 ^ 32" using True by simp
    ultimately show ?thesis using Suc.IH [of "Suc k"] run unfolding upt eq by (simp only: list.map fst_conv)
  next
    case False
    then have k: "k = 2 ^ 32 - 1" using Suc.prems by simp
    have "min (k + Suc n) (2 ^ 32) = Suc k" using k by simp
    then have upt: "[k..<min (k + Suc n) (2 ^ 32)] = [k]" by (simp only: upt_Suc) simp
    show ?thesis unfolding upt using False un
      by (simp add: gen_next_def gen_run_exhausted split: prod.split)
  qed
qed simp

lemma gen_run_ids:
  "fst (gen_run n (gen_new s)) = map (\<lambda>i. \<lparr>session = s, sequence = of_nat i\<rparr>) [0..<min n (2 ^ 32)]"
  using gen_run_from [of 0 n s] by (simp add: gen_new_def)

lemma gen_run_distinct: "distinct (fst (gen_run n (gen_new s)))"
proof -
  have "inj_on (\<lambda>i. \<lparr>session = s, sequence = of_nat i\<rparr>) {0..<min n (2 ^ 32)}"
  proof (rule inj_onI)
    fix i j
    assume "i \<in> {0..<min n (2 ^ 32)}" "j \<in> {0..<min n (2 ^ 32)}"
      "\<lparr>session = s, sequence = of_nat i\<rparr> = \<lparr>session = s, sequence = (of_nat j :: 32 word)\<rparr>"
    then have "i < 2 ^ 32" "j < 2 ^ 32" "unat (of_nat i :: 32 word) = unat (of_nat j :: 32 word)" by auto
    then show "i = j" by (simp add: unat_of_nat)
  qed
  then show ?thesis by (simp add: gen_run_ids distinct_map)
qed

subsection \<open>The instrument table\<close>

lemma ascii_graphic_128: "is_ascii_graphic b \<Longrightarrow> b < 128"
  by (simp add: is_ascii_graphic_def word_le_nat_alt word_less_nat_alt)

lemma symbol_round_trip: "symbol_new txt = Some s \<Longrightarrow> symbol_as_str s = txt"
  using ascii_graphic_128 by (auto simp: symbol_new_def symbol_as_str_def list_all_iff split: if_splits)

lemma table_check_None:
  assumes "table_check seen rest = None"
  shows "\<forall>k < length rest. unat (inst_id (rest ! k)) = length seen + k \<and>
    (\<forall>other \<in> set seen \<union> set (take k rest). \<not> (inst_venue other = inst_venue (rest ! k) \<and> inst_symbol other = inst_symbol (rest ! k)))"
  using assms
proof (induction seen rest rule: table_check.induct)
  case (2 seen i rest)
  then have IH: "k < length rest \<Longrightarrow> unat (inst_id (rest ! k)) = length (seen @ [i]) + k \<and>
    (\<forall>other \<in> set (seen @ [i]) \<union> set (take k rest).
       \<not> (inst_venue other = inst_venue (rest ! k) \<and> inst_symbol other = inst_symbol (rest ! k)))" for k
    by (auto split: if_splits)
  show ?case
  proof (intro allI impI)
    fix k assume "k < length (i # rest)"
    then show "unat (inst_id ((i # rest) ! k)) = length seen + k \<and>
      (\<forall>other \<in> set seen \<union> set (take k (i # rest)).
         \<not> (inst_venue other = inst_venue ((i # rest) ! k) \<and> inst_symbol other = inst_symbol ((i # rest) ! k)))"
      using 2(2) IH [of "k - 1"] by (cases k) (auto simp: list_ex_iff split: if_splits)
  qed
qed simp

lemma table_new_get:
  assumes "table_new is = Ok t" "i \<in> set t"
  shows "table_get t (inst_id i) = Some i"
proof -
  have t: "t = is" "table_check [] is = None" using assms(1) by (auto simp: table_new_def split: option.splits)
  obtain k where "k < length t" "t ! k = i" using assms(2) by (auto simp: in_set_conv_nth)
  then show ?thesis using table_check_None [OF t(2)] t(1) by (auto simp: table_get_def)
qed

lemma find_unique:
  "x \<in> set xs \<Longrightarrow> P x \<Longrightarrow> (\<And>y. y \<in> set xs \<Longrightarrow> P y \<Longrightarrow> y = x) \<Longrightarrow> List.find P xs = Some x"
proof (induction xs)
  case (Cons z zs)
  show ?case
  proof (cases "P z")
    case True
    then have "z = x" using Cons.prems(3) [of z] by simp
    then show ?thesis using True by simp
  next
    case False
    then have "x \<in> set zs" using Cons.prems(1,2) by auto
    moreover have "\<And>y. y \<in> set zs \<Longrightarrow> P y \<Longrightarrow> y = x" by (rule Cons.prems(3)) auto
    ultimately have "List.find P zs = Some x" using Cons.IH Cons.prems(2) by blast
    then show ?thesis using False by simp
  qed
qed simp

lemma symbol_as_str_inj:
  assumes "symbol_new a = Some s" "symbol_new b = Some u" "symbol_as_str s = symbol_as_str u"
  shows "s = u"
proof -
  have "a = b" using symbol_round_trip [OF assms(1)] symbol_round_trip [OF assms(2)] assms(3) by simp
  then show ?thesis using assms by simp
qed

lemma table_new_find:
  assumes "table_new is = Ok t" "i \<in> set t"
    "\<forall>j \<in> set t. \<exists>txt. symbol_new txt = Some (inst_symbol j)"
  shows "table_find t (inst_venue i) (symbol_as_str (inst_symbol i)) = Some i"
proof -
  have t: "t = is" "table_check [] is = None" using assms(1) by (auto simp: table_new_def split: option.splits)
  note chk = table_check_None [OF t(2), folded t(1), simplified]
  have uniq: "y = i" if y: "y \<in> set t" "inst_venue y = inst_venue i" "inst_symbol y = inst_symbol i" for y
  proof -
    obtain k l where kl: "k < length t" "t ! k = i" "l < length t" "t ! l = y"
      using assms(2) y(1) by (auto simp: in_set_conv_nth)
    have nth_take: "m < n \<Longrightarrow> n < length t \<Longrightarrow> t ! m \<in> set (take n t)" for m n
      using nth_mem [of m "take n t"] by simp
    have "\<not> l < k" using chk [rule_format, of k] nth_take [of l k] kl y by blast
    moreover have "\<not> k < l" using chk [rule_format, of l] nth_take [of k l] kl y by metis
    ultimately show ?thesis using kl by (metis linorder_neqE_nat)
  qed
  show ?thesis unfolding table_find_def
  proof (rule find_unique [OF assms(2)])
    fix y assume "y \<in> set t" "inst_venue y = inst_venue i \<and> symbol_as_str (inst_symbol y) = symbol_as_str (inst_symbol i)"
    then show "y = i" using uniq assms(2,3) symbol_as_str_inj by metis
  qed simp
qed

lemma clock_advance_mono:
  assumes "fits_u64 (clock_mono c)"
  shows "clock_mono c \<le> clock_mono (clock_advance c dur)" "fits_u64 (clock_mono (clock_advance c dur))"
  using assms by (auto simp: clock_advance_def sat_u64_def Let_def range_defs)

section \<open>Properties\<close>

text \<open>C23: A client order id is encoded in eighteen bytes and decodes to itself, and any run of
  requests to one generator hands out the sequence numbers in order, each at most once.\<close>

theorem client_order_ids:
  "client_decode (client_encode c) = Some c \<and> length (client_encode c) = CLIENT_ORDER_ID_LEN
     \<and> fst (gen_run n (gen_new s)) = map (\<lambda>i. \<lparr>session = s, sequence = of_nat i\<rparr>) [0..<min n (2 ^ 32)]
     \<and> distinct (fst (gen_run n (gen_new s)))"
  using client_round_trip client_encode_length gen_run_ids gen_run_distinct by blast

text \<open>In a table that was accepted, every instrument is found by its id and by its venue
  symbol.\<close>

lemma instrument_table_lookup:
  assumes "table_new is = Ok t" "i \<in> set t" "\<forall>j \<in> set t. \<exists>txt. symbol_new txt = Some (inst_symbol j)"
  shows "table_get t (inst_id i) = Some i \<and> table_find t (inst_venue i) (symbol_as_str (inst_symbol i)) = Some i"
  using table_new_get [OF assms(1,2)] table_new_find [OF assms] by simp

end
