(* ===== verification/Ladder.thy ===== *)
theory Ladder
  imports Core_Types
begin

text \<open>
  \<open>crates/bowst-book/src/ladder.rs\<close>: one side of a level-2 book, a bounded array of levels
  sorted from worst to best, with the horizon beyond which it knows nothing.

  The reference is the unbounded map from price to quantity that a venue keeps.  \<open>exact\<close>
  relates a ladder to such a map: they agree on every price at or better than the horizon.
  Every operation preserves the representation invariant \<open>ladder_inv\<close> and \<open>exact\<close>.
\<close>

section \<open>Types\<close>

datatype book_error =
    ZeroCapacity
  | InvalidPrice side price
  | InvalidQty side price qty
  | DuplicateLevel side price

record level =
  lv_price :: price
  lv_qty :: qty

datatype applied = Inserted | Updated | Removed | Unchanged | BeyondHorizon

record ladder =
  lad_side :: side
  lad_levels :: "level list"
  lad_capacity :: nat
  lad_horizon :: "price option"

definition TOP_SCAN :: nat where "TOP_SCAN = 16"

section \<open>Operations\<close>

definition ladder_new :: "side \<Rightarrow> nat \<Rightarrow> (ladder, book_error) result" where
  "ladder_new s cap =
     (if cap = 0 then Err ZeroCapacity
      else Ok \<lparr>lad_side = s, lad_levels = [], lad_capacity = cap, lad_horizon = None\<rparr>)"

definition last_opt :: "'a list \<Rightarrow> 'a option" where
  "last_opt xs = (if xs = [] then None else Some (last xs))"

definition first_opt :: "'a list \<Rightarrow> 'a option" where
  "first_opt xs = (if xs = [] then None else Some (hd xs))"

definition best :: "ladder \<Rightarrow> level option" where
  "best lad = last_opt (lad_levels lad)"

definition nth_best :: "ladder \<Rightarrow> nat \<Rightarrow> level option" where
  "nth_best lad n =
     Option.bind (checked_nsub (length (lad_levels lad)) n) (\<lambda>i.
     Option.bind (checked_nsub i 1) (\<lambda>i. nth_opt (lad_levels lad) i))"

definition ladder_iter :: "ladder \<Rightarrow> level list" where
  "ladder_iter lad = rev (lad_levels lad)"

fun rank :: "side \<Rightarrow> price \<Rightarrow> price \<Rightarrow> ordering" where
  "rank Buy lp p = cmp lp p"
| "rank Sell lp p = cmp p lp"

text \<open>The scan of the best levels, given best first: the result, or none to search deeper.\<close>

fun top_scan :: "side \<Rightarrow> price \<Rightarrow> nat \<Rightarrow> nat \<Rightarrow> level list \<Rightarrow> (nat, nat) result option" where
  "top_scan s p len offset [] = None"
| "top_scan s p len offset (l # ls) =
     (let index = len - offset - 1 in
      case rank s (lv_price l) p of
        Equal \<Rightarrow> Some (Ok index)
      | Less \<Rightarrow> Some (Err (index + 1))
      | Greater \<Rightarrow> top_scan s p len (Suc offset) ls)"

text \<open>\<open>slice::binary_search_by\<close>: halve \<open>n\<close> candidates from \<open>base\<close>, then compare once.\<close>

function bsearch :: "('a \<Rightarrow> ordering) \<Rightarrow> 'a list \<Rightarrow> nat \<Rightarrow> nat \<Rightarrow> nat" where
  "bsearch f xs base n =
     (if n > 1 then
        let half = n div 2; mid = base + half in
        bsearch f xs (if f (xs ! mid) = Greater then base else mid) (n - half)
      else base)"
  by pat_completeness auto
termination
  by (relation "measure (\<lambda>(_, _, _, n). n)") auto

declare bsearch.simps [simp del]

definition binary_search_by :: "('a \<Rightarrow> ordering) \<Rightarrow> 'a list \<Rightarrow> (nat, nat) result" where
  "binary_search_by f xs =
     (if xs = [] then Err 0
      else
        let base = bsearch f xs 0 (length xs) in
        case f (xs ! base) of Equal \<Rightarrow> Ok base | Less \<Rightarrow> Err (base + 1) | Greater \<Rightarrow> Err base)"

definition search_levels :: "side \<Rightarrow> level list \<Rightarrow> price \<Rightarrow> (nat, nat) result" where
  "search_levels s levels p =
     (let len = length levels; scanned = min len TOP_SCAN in
      case top_scan s p len 0 (take scanned (rev levels)) of
        Some r \<Rightarrow> r
      | None \<Rightarrow> binary_search_by (\<lambda>l. rank s (lv_price l) p) (take (len - scanned) levels))"

definition search :: "ladder \<Rightarrow> price \<Rightarrow> (nat, nat) result" where
  "search lad p = search_levels (lad_side lad) (lad_levels lad) p"

definition beyond_horizon :: "ladder \<Rightarrow> price \<Rightarrow> bool" where
  "beyond_horizon lad p =
     (case lad_horizon lad of None \<Rightarrow> False | Some h \<Rightarrow> is_more_aggressive (lad_side lad) h p)"

definition validate :: "side \<Rightarrow> price \<Rightarrow> qty \<Rightarrow> (unit, book_error) result" where
  "validate s p q =
     (if p \<le> 0 then Err (InvalidPrice s p) else if q < 0 then Err (InvalidQty s p q) else Ok ())"

definition ladder_insert :: "nat \<Rightarrow> level \<Rightarrow> ladder \<Rightarrow> applied \<times> ladder" where
  "ladder_insert index l lad =
     (if length (lad_levels lad) < lad_capacity lad
      then (Inserted, lad\<lparr>lad_levels := insert_at index l (lad_levels lad)\<rparr>)
      else if index = 0
      then (BeyondHorizon, lad\<lparr>lad_horizon := map_option lv_price (first_opt (lad_levels lad))\<rparr>)
      else
        let levels = insert_at (index - 1) l (remove_at 0 (lad_levels lad)) in
        (Inserted, lad\<lparr>lad_levels := levels, lad_horizon := map_option lv_price (first_opt levels)\<rparr>))"

definition ladder_apply :: "price \<Rightarrow> qty \<Rightarrow> ladder \<Rightarrow> (applied, book_error) result \<times> ladder" where
  "ladder_apply p q lad =
     (case validate (lad_side lad) p q of
        Err e \<Rightarrow> (Err e, lad)
      | Ok _ \<Rightarrow>
          if beyond_horizon lad p then (Ok BeyondHorizon, lad)
          else
            case (search lad p, q = 0) of
              (Ok i, True) \<Rightarrow> (Ok Removed, lad\<lparr>lad_levels := remove_at i (lad_levels lad)\<rparr>)
            | (Ok i, False) \<Rightarrow>
                (Ok Updated, if i < length (lad_levels lad)
                  then lad\<lparr>lad_levels := (lad_levels lad)[i := (lad_levels lad ! i)\<lparr>lv_qty := q\<rparr>]\<rparr>
                  else lad)
            | (Err _, True) \<Rightarrow> (Ok Unchanged, lad)
            | (Err i, False) \<Rightarrow>
                (let (a, lad1) = ladder_insert i \<lparr>lv_price = p, lv_qty = q\<rparr> lad in (Ok a, lad1)))"

definition ladder_clear :: "ladder \<Rightarrow> ladder" where
  "ladder_clear lad = lad\<lparr>lad_levels := [], lad_horizon := None\<rparr>"

text \<open>The sort key: worst first.  \<open>sort_unstable_by\<close> compares prices in this direction.\<close>

fun key :: "side \<Rightarrow> price \<Rightarrow> int" where
  "key Buy p = p"
| "key Sell p = - p"

abbreviation lkey :: "side \<Rightarrow> level \<Rightarrow> int" where
  "lkey s l \<equiv> key s (lv_price l)"

fun find_duplicate :: "level list \<Rightarrow> price option" where
  "find_duplicate (a # b # ls) = (if lv_price a = lv_price b then Some (lv_price a) else find_duplicate (b # ls))"
| "find_duplicate _ = None"

definition sort_and_check :: "ladder \<Rightarrow> (unit, book_error) result \<times> ladder" where
  "sort_and_check lad =
     (let levels = sort_key (lkey (lad_side lad)) (lad_levels lad);
          lad1 = lad\<lparr>lad_levels := levels\<rparr> in
      case find_duplicate levels of
        Some p \<Rightarrow> (Err (DuplicateLevel (lad_side lad) p), lad1)
      | None \<Rightarrow> (Ok (), lad1))"

definition load_full :: "level \<Rightarrow> ladder \<Rightarrow> (unit, book_error) result \<times> ladder" where
  "load_full l lad =
     (case search lad (lv_price l) of
        Ok _ \<Rightarrow> (Err (DuplicateLevel (lad_side lad) (lv_price l)), lad)
      | Err index \<Rightarrow> (Ok (), snd (ladder_insert index l lad)))"

fun load_loop :: "level list \<Rightarrow> bool \<Rightarrow> ladder \<Rightarrow> (unit, book_error) result \<times> ladder" where
  "load_loop [] srt lad = (if srt then (Ok (), lad) else sort_and_check lad)"
| "load_loop (l # ls) srt lad =
     (case validate (lad_side lad) (lv_price l) (lv_qty l) of
        Err e \<Rightarrow> (Err e, lad)
      | Ok _ \<Rightarrow>
          if lv_qty l = 0 then (Err (InvalidQty (lad_side lad) (lv_price l) (lv_qty l)), lad)
          else if length (lad_levels lad) < lad_capacity lad
          then load_loop ls srt (lad\<lparr>lad_levels := lad_levels lad @ [l]\<rparr>)
          else
            case (if srt then (Ok (), lad) else sort_and_check lad) of
              (Err e, lad1) \<Rightarrow> (Err e, lad1)
            | (Ok _, lad1) \<Rightarrow>
                (case load_full l lad1 of
                   (Err e, lad2) \<Rightarrow> (Err e, lad2)
                 | (Ok _, lad2) \<Rightarrow> load_loop ls True lad2))"

definition load_inner :: "level list \<Rightarrow> ladder \<Rightarrow> (unit, book_error) result \<times> ladder" where
  "load_inner levels lad = load_loop levels False lad"

definition ladder_load :: "level list \<Rightarrow> ladder \<Rightarrow> (unit, book_error) result \<times> ladder" where
  "ladder_load levels lad =
     (case load_inner levels (ladder_clear lad) of
        (Err e, lad1) \<Rightarrow> (Err e, ladder_clear lad1)
      | (Ok _, lad1) \<Rightarrow> (Ok (), lad1))"

section \<open>Invariant and reference\<close>

abbreviation by_key :: "side \<Rightarrow> level list \<Rightarrow> bool" where
  "by_key s \<equiv> sorted_wrt (\<lambda>a b. lkey s a < lkey s b)"

definition level_ok :: "level \<Rightarrow> bool" where
  "level_ok l \<longleftrightarrow> 0 < lv_price l \<and> 0 < lv_qty l"

definition ladder_inv :: "ladder \<Rightarrow> bool" where
  "ladder_inv lad \<longleftrightarrow>
     0 < lad_capacity lad \<and> length (lad_levels lad) \<le> lad_capacity lad
     \<and> by_key (lad_side lad) (lad_levels lad) \<and> list_all level_ok (lad_levels lad)
     \<and> list_all (\<lambda>l. \<not> beyond_horizon lad (lv_price l)) (lad_levels lad)"

type_synonym depth = "price \<Rightarrow> qty option"

definition level_map :: "level list \<Rightarrow> depth" where
  "level_map ls = map_of (map (\<lambda>l. (lv_price l, lv_qty l)) ls)"

definition set_level :: "price \<Rightarrow> qty \<Rightarrow> depth \<Rightarrow> depth" where
  "set_level p q m = m(p := if q = 0 then None else Some q)"

definition exact :: "ladder \<Rightarrow> depth \<Rightarrow> bool" where
  "exact lad m \<longleftrightarrow> (\<forall>p. \<not> beyond_horizon lad p \<longrightarrow> level_map (lad_levels lad) p = m p)"


section \<open>Searching\<close>

lemma key_inj [simp]: "key s a = key s b \<longleftrightarrow> a = b"
  by (cases s) auto

lemma rank_key: "rank s lp p = cmp (key s lp) (key s p)"
  by (cases s) (auto simp: cmp_def)

lemma aggressive_key: "is_more_aggressive s a b \<longleftrightarrow> key s b < key s a"
  by (cases s) auto

lemma beyond_horizon_key:
  "beyond_horizon lad p \<longleftrightarrow> (\<exists>h. lad_horizon lad = Some h \<and> key (lad_side lad) p < key (lad_side lad) h)"
  by (auto simp: beyond_horizon_def aggressive_key split: option.splits)

text \<open>The number of levels worse than a price, and what a search must return.\<close>

definition worse :: "side \<Rightarrow> level list \<Rightarrow> price \<Rightarrow> nat" where
  "worse s ls p = length (takeWhile (\<lambda>l. lkey s l < key s p) ls)"

definition ref_search :: "side \<Rightarrow> level list \<Rightarrow> price \<Rightarrow> (nat, nat) result" where
  "ref_search s ls p =
     (let n = worse s ls p in if n < length ls \<and> lv_price (ls ! n) = p then Ok n else Err n)"

lemma by_key_nth: "by_key s ls \<Longrightarrow> i < j \<Longrightarrow> j < length ls \<Longrightarrow> lkey s (ls ! i) < lkey s (ls ! j)"
  by (simp add: sorted_wrt_iff_nth_less)

lemma worse_split:
  assumes "by_key s ls"
  shows "worse s ls p \<le> length ls"
    and "i < worse s ls p \<Longrightarrow> lkey s (ls ! i) < key s p"
    and "worse s ls p \<le> i \<Longrightarrow> i < length ls \<Longrightarrow> key s p \<le> lkey s (ls ! i)"
proof -
  let ?P = "\<lambda>l. lkey s l < key s p"
  show "worse s ls p \<le> length ls" unfolding worse_def by (rule length_takeWhile_le)
  show "lkey s (ls ! i) < key s p" if "i < worse s ls p"
    using that nth_mem [of i "takeWhile ?P ls"] set_takeWhileD [of _ ?P ls]
    unfolding worse_def by (metis takeWhile_nth)
  show "key s p \<le> lkey s (ls ! i)" if i: "worse s ls p \<le> i" "i < length ls"
  proof -
    have "\<not> lkey s (ls ! worse s ls p) < key s p"
      using i nth_length_takeWhile [of ?P ls] unfolding worse_def by simp
    then show ?thesis using by_key_nth [OF assms, of "worse s ls p" i] i
      by (cases "worse s ls p = i") auto
  qed
qed

lemma worse_unique:
  assumes "by_key s ls" "n \<le> length ls" "\<And>i. i < n \<Longrightarrow> lkey s (ls ! i) < key s p"
    "\<And>i. n \<le> i \<Longrightarrow> i < length ls \<Longrightarrow> key s p \<le> lkey s (ls ! i)"
  shows "worse s ls p = n"
proof -
  note w = worse_split [OF assms(1), where p = p]
  have "\<not> worse s ls p < n" using w(3) [of "worse s ls p"] assms(2,3) by fastforce
  moreover have "\<not> n < worse s ls p" using w(1) w(2) [of n] assms(4) [of n] by fastforce
  ultimately show ?thesis by simp
qed

lemma ref_search_Ok:
  assumes "by_key s ls" "i < length ls" "lv_price (ls ! i) = p"
  shows "ref_search s ls p = Ok i"
proof -
  have "worse s ls p = i"
    using assms by_key_nth [OF assms(1)]
    by (intro worse_unique) (auto simp: order_le_less)
  then show ?thesis using assms by (simp add: ref_search_def)
qed

lemma ref_search_Err:
  assumes "by_key s ls" "n \<le> length ls" "\<And>i. i < n \<Longrightarrow> lkey s (ls ! i) < key s p"
    "\<And>i. n \<le> i \<Longrightarrow> i < length ls \<Longrightarrow> key s p < lkey s (ls ! i)"
  shows "ref_search s ls p = Err n"
proof -
  have "worse s ls p = n" using assms by (intro worse_unique) (auto intro: less_imp_le)
  moreover have "n < length ls \<Longrightarrow> lv_price (ls ! n) \<noteq> p" using assms(4) [of n] by auto
  ultimately show ?thesis by (auto simp: ref_search_def)
qed

lemma top_scan_ref:
  assumes "by_key s ls" "xs = drop offset (take k (rev ls))" "k \<le> length ls" "offset \<le> k"
    "\<And>i. length ls - offset \<le> i \<Longrightarrow> i < length ls \<Longrightarrow> key s p < lkey s (ls ! i)"
  shows "case top_scan s p (length ls) offset xs of
       Some r \<Rightarrow> r = ref_search s ls p
     | None \<Rightarrow> (\<forall>i. length ls - k \<le> i \<and> i < length ls \<longrightarrow> key s p < lkey s (ls ! i))"
  using assms(2-)
proof (induction xs arbitrary: offset)
  case Nil
  then have "offset = k" by simp
  then show ?case using Nil by simp
next
  case (Cons l xs)
  let ?n = "length ls"
  have off: "offset < k" using Cons.prems(1) by (metis drop_all length_take linorder_not_less list.distinct(1) min.cobounded2 order_trans)
  let ?i = "?n - offset - 1"
  have l: "l = ls ! ?i" "xs = drop (Suc offset) (take k (rev ls))"
    using Cons.prems(1,2) off Cons_nth_drop_Suc [of offset "take k (rev ls)", symmetric] by (auto simp: rev_nth)
  have i: "?i < ?n" "Suc ?i = ?n - offset" using off Cons.prems(2) by auto
  consider "lkey s l = key s p" | "lkey s l < key s p" | "key s p < lkey s l" by linarith
  then show ?case
  proof cases
    case 1
    then have "ref_search s ls p = Ok ?i" using i l(1) by (intro ref_search_Ok [OF assms(1)]) auto
    then show ?thesis using 1 by (simp add: rank_key cmp_def)
  next
    case 2
    have "ref_search s ls p = Err (Suc ?i)"
    proof (rule ref_search_Err [OF assms(1)])
      fix j assume "j < Suc ?i"
      then show "lkey s (ls ! j) < key s p"
        using by_key_nth [OF assms(1), of j ?i] i 2 l(1) by (cases "j = ?i") auto
    qed (use i Cons.prems(4) in auto)
    then show ?thesis using 2 by (simp add: rank_key cmp_def)
  next
    case 3
    have "key s p < lkey s (ls ! j)" if "?n - Suc offset \<le> j" "j < ?n" for j
      using Cons.prems(4) [of j] that 3 l(1) i by (cases "j = ?i") auto
    then have "case top_scan s p ?n (Suc offset) xs of Some r \<Rightarrow> r = ref_search s ls p
        | None \<Rightarrow> (\<forall>i. ?n - k \<le> i \<and> i < ?n \<longrightarrow> key s p < lkey s (ls ! i))"
      using off Cons.prems(2) by (intro Cons.IH l(2)) auto
    then show ?thesis using 3 by (auto simp: rank_key cmp_def)
  qed
qed

abbreviation ranked :: "side \<Rightarrow> price \<Rightarrow> level \<Rightarrow> ordering" where
  "ranked s p \<equiv> \<lambda>l. rank s (lv_price l) p"

lemma bsearch_spec:
  assumes "by_key s ls" "0 < n" "base + n \<le> length ls" "base = 0 \<or> lkey s (ls ! base) \<le> key s p"
    "\<And>i. base + n \<le> i \<Longrightarrow> i < length ls \<Longrightarrow> key s p < lkey s (ls ! i)"
  shows "\<exists>b. bsearch (ranked s p) ls base n = b \<and> b < length ls \<and> (b = 0 \<or> lkey s (ls ! b) \<le> key s p)
    \<and> (\<forall>i. b < i \<and> i < length ls \<longrightarrow> key s p < lkey s (ls ! i))"
  using assms(2-)
proof (induction n arbitrary: base rule: less_induct)
  case (less n)
  show ?case
  proof (cases "n > 1")
    case True
    let ?mid = "base + n div 2"
    have mid: "?mid < length ls" "n - n div 2 < n" "0 < n - n div 2" "?mid \<le> base + n"
      using True less.prems(2) by auto
    have step: "bsearch (ranked s p) ls base n
        = bsearch (ranked s p) ls (if key s p < lkey s (ls ! ?mid) then base else ?mid) (n - n div 2)"
      using True by (subst bsearch.simps) (simp add: Let_def rank_key)
    show ?thesis
    proof (cases "key s p < lkey s (ls ! ?mid)")
      case above: True
      have "key s p < lkey s (ls ! i)" if i: "base + (n - n div 2) \<le> i" "i < length ls" for i
      proof (cases "?mid < i")
        case True
        then show ?thesis using above by_key_nth [OF assms(1) True i(2)] by simp
      next
        case False
        then have "i = ?mid" using i by simp
        then show ?thesis using above by simp
      qed
      note IH = less.IH [OF mid(2,3) _ less.prems(3) this]
      have "bsearch (ranked s p) ls base n = bsearch (ranked s p) ls base (n - n div 2)"
        using step above by simp
      then show ?thesis using IH less.prems(2) by auto
    next
      case False
      have "key s p < lkey s (ls ! i)" if "?mid + (n - n div 2) \<le> i" "i < length ls" for i
        using less.prems(4) [of i] that by simp
      note IH = less.IH [of _ ?mid, OF mid(2,3) _ _ this]
      have "bsearch (ranked s p) ls base n = bsearch (ranked s p) ls ?mid (n - n div 2)"
        using step False by simp
      then show ?thesis using IH less.prems(2) False by auto
    qed
  next
    case False
    then have "n = 1" using less.prems(1) by simp
    then show ?thesis using less.prems by (subst bsearch.simps) (auto simp: Suc_le_eq)
  qed
qed

lemma binary_search_ref:
  assumes "by_key s ls"
  shows "binary_search_by (ranked s p) ls = ref_search s ls p"
proof (cases "ls = []")
  case True
  then show ?thesis by (simp add: binary_search_by_def ref_search_def worse_def)
next
  case False
  then obtain b where b: "bsearch (ranked s p) ls 0 (length ls) = b" "b < length ls"
    "b = 0 \<or> lkey s (ls ! b) \<le> key s p" "\<And>i. b < i \<Longrightarrow> i < length ls \<Longrightarrow> key s p < lkey s (ls ! i)"
    using bsearch_spec [OF assms, of "length ls" 0 p] by auto
  have below: "lkey s (ls ! i) < lkey s (ls ! b)" if "i < b" for i
    using that b(2) by (intro by_key_nth [OF assms])
  consider "lkey s (ls ! b) = key s p" | "lkey s (ls ! b) < key s p" | "key s p < lkey s (ls ! b)" by linarith
  then show ?thesis
  proof cases
    case 1
    then show ?thesis using ref_search_Ok [OF assms b(2)] b False
      by (simp add: binary_search_by_def rank_key cmp_def)
  next
    case 2
    have "ref_search s ls p = Err (Suc b)"
    proof (rule ref_search_Err [OF assms])
      fix i assume "i < Suc b"
      then show "lkey s (ls ! i) < key s p" using below [of i] 2 by (cases "i = b") auto
    qed (use b in auto)
    then show ?thesis using 2 b False by (simp add: binary_search_by_def rank_key cmp_def)
  next
    case 3
    then have "b = 0" using b(3) by simp
    have "ref_search s ls p = Err 0"
    proof (rule ref_search_Err [OF assms])
      fix i assume "i < length ls"
      then show "key s p < lkey s (ls ! i)" using b(4) [of i] 3 \<open>b = 0\<close> by (cases "i = 0") auto
    qed auto
    then show ?thesis using 3 b False \<open>b = 0\<close> by (auto simp: binary_search_by_def rank_key cmp_def)
  qed
qed

lemma ref_search_take:
  assumes "by_key s ls" "\<And>i. k \<le> i \<Longrightarrow> i < length ls \<Longrightarrow> key s p < lkey s (ls ! i)" "k \<le> length ls"
  shows "ref_search s (take k ls) p = ref_search s ls p"
proof -
  have srt: "by_key s (take k ls)" using assms(1) by (rule sorted_wrt_take)
  note w = worse_split [OF srt, where p = p]
  have "worse s ls p = worse s (take k ls) p"
  proof (rule worse_unique [OF assms(1)])
    show "worse s (take k ls) p \<le> length ls" using w(1) by simp
    show "lkey s (ls ! i) < key s p" if "i < worse s (take k ls) p" for i
      using w(1) w(2) [of i] that assms(3) by simp
    show "key s p \<le> lkey s (ls ! i)" if "worse s (take k ls) p \<le> i" "i < length ls" for i
      using w(3) [of i] assms(2) [of i] that by (cases "i < k") auto
  qed
  then show ?thesis
    using assms(2) [of "worse s ls p"] w(1) assms(3) by (cases "worse s ls p < k") (auto simp: ref_search_def Let_def)
qed

text \<open>The top-of-book scan followed by binary search finds what a linear count finds.\<close>

lemma search_ref:
  assumes "by_key s ls" shows "search_levels s ls p = ref_search s ls p"
proof -
  let ?k = "min (length ls) TOP_SCAN"
  have "case top_scan s p (length ls) 0 (take ?k (rev ls)) of
       Some r \<Rightarrow> r = ref_search s ls p
     | None \<Rightarrow> (\<forall>i. length ls - ?k \<le> i \<and> i < length ls \<longrightarrow> key s p < lkey s (ls ! i))"
    by (rule top_scan_ref [OF assms]) auto
  then show ?thesis
    using ref_search_take [OF assms, where k = "length ls - ?k" and p = p]
      binary_search_ref [OF sorted_wrt_take [OF assms], where n1 = "length ls - ?k" and p = p]
    by (auto simp: search_levels_def Let_def split: option.splits)
qed


section \<open>Sorted levels as a map\<close>

lemma search_Ok_split:
  assumes "by_key s ls" "search_levels s ls p = Ok i"
  obtains as l bs where "ls = as @ l # bs" "i = length as" "lv_price l = p"
proof -
  have "i < length ls" "lv_price (ls ! i) = p"
    using assms by (auto simp: search_ref ref_search_def Let_def split: if_splits)
  then show ?thesis using that [OF id_take_nth_drop [of i ls]] by simp
qed

lemma search_Err_split:
  assumes "by_key s ls" "search_levels s ls p = Err i"
  obtains as bs where "ls = as @ bs" "i = length as"
    "\<And>l. l \<in> set as \<Longrightarrow> lkey s l < key s p" "\<And>l. l \<in> set bs \<Longrightarrow> key s p < lkey s l"
proof -
  have i: "i = worse s ls p" and ne: "i < length ls \<Longrightarrow> lv_price (ls ! i) \<noteq> p"
    using assms by (auto simp: search_ref ref_search_def Let_def split: if_splits)
  note w = worse_split [OF assms(1), where p = p, folded i]
  have above: "key s p < lkey s (ls ! j)" if "i \<le> j" "j < length ls" for j
  proof (cases "j = i")
    case True
    then show ?thesis using w(3) [of j] ne that key_inj by (metis order_le_less)
  next
    case False
    have "key s p \<le> lkey s (ls ! i)" using w(3) [of i] that by simp
    also have "\<dots> < lkey s (ls ! j)" using by_key_nth [OF assms(1), of i j] False that by simp
    finally show ?thesis .
  qed
  show ?thesis
  proof (rule that [of "take i ls" "drop i ls"])
    show "i = length (take i ls)" using w(1) by simp
    show "lkey s l < key s p" if "l \<in> set (take i ls)" for l using that w(2) by (auto simp: in_set_conv_nth)
    show "key s p < lkey s l" if "l \<in> set (drop i ls)" for l using that above by (auto simp: in_set_conv_nth)
  qed simp
qed

lemma level_map_simps [simp]:
  "level_map [] = Map.empty"
  "level_map (l # ls) = (level_map ls)(lv_price l \<mapsto> lv_qty l)"
  "level_map (as @ bs) = level_map bs ++ level_map as"
  by (simp_all add: level_map_def)

lemma level_map_None: "level_map ls p = None \<longleftrightarrow> (\<forall>l \<in> set ls. lv_price l \<noteq> p)"
  by (induction ls) auto

lemma level_map_Some:
  assumes "by_key s ls" "l \<in> set ls" shows "level_map ls (lv_price l) = Some (lv_qty l)"
  using assms by (induction ls) auto

lemma level_map_SomeD: "level_map ls p = Some q \<Longrightarrow> \<exists>l \<in> set ls. lv_price l = p \<and> lv_qty l = q"
  by (induction ls) (auto split: if_splits)

lemma by_key_not_in:
  assumes "by_key s (as @ l # bs)" shows "level_map as (lv_price l) = None" "level_map bs (lv_price l) = None"
  using assms by (auto simp: level_map_None sorted_wrt_append)

lemma map_add_upd_None: "m a = None \<Longrightarrow> (n(a := x)) ++ m = (n ++ m)(a := x)"
  by (auto simp: map_add_def fun_eq_iff split: option.splits)

lemma level_map_middle:
  "by_key s (as @ l # bs) \<Longrightarrow> level_map (as @ l # bs) = (level_map (as @ bs))(lv_price l \<mapsto> lv_qty l)"
  using by_key_not_in [of s as l bs] by (simp add: map_add_upd_None)

lemma level_map_without:
  "by_key s (as @ l # bs) \<Longrightarrow> level_map (as @ bs) = (level_map (as @ l # bs))(lv_price l := None)"
  using by_key_not_in [of s as l bs] by (auto simp: map_add_def fun_eq_iff split: option.splits)

section \<open>The operations keep the invariant and refine the map\<close>

lemma insert_at_append [simp]: "insert_at (length as) x (as @ bs) = as @ x # bs"
  by (simp add: insert_at_def)

lemma remove_at_append [simp]: "remove_at (length as) (as @ x # bs) = as @ bs"
  by (simp add: remove_at_def)

lemma remove_at_0 [simp]: "remove_at 0 (x # xs) = xs"
  by (simp add: remove_at_def)

lemma first_opt_Cons [simp]: "first_opt (x # xs) = Some x"
  by (simp add: first_opt_def)

lemma beyond_horizon_upd [simp]:
  "beyond_horizon (lad\<lparr>lad_levels := ls\<rparr>) p = beyond_horizon lad p"
  "beyond_horizon (lad\<lparr>lad_levels := ls, lad_horizon := h\<rparr>) p = beyond_horizon (lad\<lparr>lad_horizon := h\<rparr>) p"
  by (simp_all add: beyond_horizon_key)

lemma ladder_invI:
  assumes "0 < lad_capacity lad" "length (lad_levels lad) \<le> lad_capacity lad"
    "by_key (lad_side lad) (lad_levels lad)" "\<And>l. l \<in> set (lad_levels lad) \<Longrightarrow> level_ok l"
    "\<And>l. l \<in> set (lad_levels lad) \<Longrightarrow> \<not> beyond_horizon lad (lv_price l)"
  shows "ladder_inv lad"
  using assms by (simp add: ladder_inv_def list_all_iff)

lemma ladder_invD:
  assumes "ladder_inv lad"
  shows "0 < lad_capacity lad" "length (lad_levels lad) \<le> lad_capacity lad"
    "by_key (lad_side lad) (lad_levels lad)" "l \<in> set (lad_levels lad) \<Longrightarrow> level_ok l"
    "l \<in> set (lad_levels lad) \<Longrightarrow> \<not> beyond_horizon lad (lv_price l)"
  using assms by (auto simp: ladder_inv_def list_all_iff)

text \<open>
  What inserting a level promises: by \<open>lad'\<close> the map has gained it, within the (possibly
  nearer) horizon, and the ladder is fuller by one or stays full.
\<close>

definition gained :: "level \<Rightarrow> ladder \<Rightarrow> ladder \<Rightarrow> bool" where
  "gained l lad lad' \<longleftrightarrow>
     ladder_inv lad' \<and> lad_side lad' = lad_side lad \<and> lad_capacity lad' = lad_capacity lad
     \<and> (\<forall>m. exact lad m \<longrightarrow> exact lad' (m(lv_price l \<mapsto> lv_qty l)))
     \<and> length (lad_levels lad') = min (lad_capacity lad) (Suc (length (lad_levels lad)))
     \<and> (length (lad_levels lad) < lad_capacity lad \<longrightarrow> lad_horizon lad' = lad_horizon lad)"

lemma gained_room:
  assumes inv: "ladder_inv lad" and ls: "lad_levels lad = as @ bs" and ok: "level_ok l"
    and srt: "by_key (lad_side lad) (as @ l # bs)"
    and room: "length (lad_levels lad) < lad_capacity lad" and near: "\<not> beyond_horizon lad (lv_price l)"
  shows "gained l lad (lad\<lparr>lad_levels := as @ l # bs\<rparr>)"
proof -
  note I = ladder_invD [OF inv]
  have "ladder_inv (lad\<lparr>lad_levels := as @ l # bs\<rparr>)"
    using I ok near room srt by (intro ladder_invI) (auto simp: ls)
  then show ?thesis using room level_map_middle [OF srt]
    by (auto simp: gained_def exact_def ls simp del: level_map_simps)
qed

lemma gained_worst:
  assumes inv: "ladder_inv lad" and ls: "lad_levels lad = w # ws"
    and srt: "by_key (lad_side lad) (l # w # ws)" and full: "length (lad_levels lad) = lad_capacity lad"
  shows "gained l lad (lad\<lparr>lad_horizon := Some (lv_price w)\<rparr>)" (is "gained l lad ?lad'")
proof -
  note I = ladder_invD [OF inv]
  have "\<not> beyond_horizon lad (lv_price w)" using I(5) [of w] ls by simp
  then have "\<not> beyond_horizon ?lad' x \<Longrightarrow> \<not> beyond_horizon lad x \<and> x \<noteq> lv_price l" for x
    using srt by (auto simp: beyond_horizon_key)
  moreover have "ladder_inv ?lad'" using I srt
    by (intro ladder_invI) (auto simp: ls beyond_horizon_key)
  ultimately show ?thesis using full by (auto simp: gained_def exact_def)
qed

lemma gained_drop:
  assumes inv: "ladder_inv lad" and ls: "lad_levels lad = w # as @ bs" and ok: "level_ok l"
    and srt: "by_key (lad_side lad) (w # as @ l # bs)" and full: "length (lad_levels lad) = lad_capacity lad"
    and x: "as @ l # bs = x # xs"
  shows "gained l lad (lad\<lparr>lad_levels := as @ l # bs, lad_horizon := Some (lv_price x)\<rparr>)" (is "gained l lad ?lad'")
proof -
  note I = ladder_invD [OF inv]
  have srt': "by_key (lad_side lad) (w # x # xs)" using srt x by simp
  have "\<not> beyond_horizon lad (lv_price w)" using I(5) [of w] ls by simp
  then have nearer: "\<not> beyond_horizon ?lad' y \<Longrightarrow> \<not> beyond_horizon lad y \<and> y \<noteq> lv_price w" for y
    using srt' by (auto simp: beyond_horizon_key)
  have "ladder_inv ?lad'"
  proof (rule ladder_invI)
    show "level_ok y" if "y \<in> set (lad_levels ?lad')" for y using that I(4) ok by (auto simp: ls)
    show "\<not> beyond_horizon ?lad' (lv_price y)" if "y \<in> set (lad_levels ?lad')" for y
      using that srt' by (auto simp: x beyond_horizon_key)
  qed (use I(1,2) ls srt in auto)
  moreover have "exact ?lad' (m(lv_price l \<mapsto> lv_qty l))" if "exact lad m" for m
    unfolding exact_def
  proof (intro allI impI)
    fix y assume y: "\<not> beyond_horizon ?lad' y"
    have mid: "level_map ((w # as) @ l # bs) = (level_map ((w # as) @ bs))(lv_price l \<mapsto> lv_qty l)"
      using srt by (intro level_map_middle) simp
    have "level_map (lad_levels ?lad') y = level_map ((w # as) @ l # bs) y"
      using nearer [OF y] by (simp add: map_add_def)
    also have "\<dots> = (m(lv_price l \<mapsto> lv_qty l)) y"
      unfolding mid using that nearer [OF y] by (auto simp: exact_def ls)
    finally show "level_map (lad_levels ?lad') y = (m(lv_price l \<mapsto> lv_qty l)) y" .
  qed
  ultimately show ?thesis using full ls by (auto simp: gained_def)
qed

text \<open>Inserting a level at the place the search found.\<close>

lemma ladder_insert_gained:
  assumes inv: "ladder_inv lad" and ls: "lad_levels lad = as @ bs" and ok: "level_ok l"
    and below: "\<And>x. x \<in> set as \<Longrightarrow> lkey (lad_side lad) x < lkey (lad_side lad) l"
    and above: "\<And>x. x \<in> set bs \<Longrightarrow> lkey (lad_side lad) l < lkey (lad_side lad) x"
    and near: "length (lad_levels lad) < lad_capacity lad \<Longrightarrow> \<not> beyond_horizon lad (lv_price l)"
  shows "gained l lad (snd (ladder_insert (length as) l lad))"
proof -
  note I = ladder_invD [OF inv]
  have srt: "by_key (lad_side lad) (as @ l # bs)" using I(3) below above by (auto simp: ls sorted_wrt_append)
  show ?thesis
  proof (cases "length (lad_levels lad) < lad_capacity lad")
    case True
    then show ?thesis using gained_room [OF inv ls ok srt] near by (simp add: ladder_insert_def ls)
  next
    case full: False
    then have len: "length (lad_levels lad) = lad_capacity lad" using I(2) by simp
    show ?thesis
    proof (cases as)
      case Nil
      then obtain w ws where bs: "bs = w # ws" using len I(1) ls by (cases bs) auto
      show ?thesis using gained_worst [OF inv _ _ len, of w ws l] ls srt full
        by (simp add: ladder_insert_def Nil bs)
    next
      case (Cons w as')
      obtain x xs where x: "as' @ l # bs = x # xs" by (cases as') auto
      show ?thesis using gained_drop [OF inv _ ok _ len x, of w] ls srt full x
        by (simp add: ladder_insert_def Cons Let_def)
    qed
  qed
qed

text \<open>What applying an update promises, branch by branch.\<close>

definition follows :: "price \<Rightarrow> qty \<Rightarrow> ladder \<Rightarrow> ladder \<Rightarrow> bool" where
  "follows p q lad lad' \<longleftrightarrow>
     ladder_inv lad' \<and> lad_side lad' = lad_side lad \<and> lad_capacity lad' = lad_capacity lad
     \<and> (\<forall>m. exact lad m \<longrightarrow> exact lad' (set_level p q m))"

lemma follows_removed:
  assumes inv: "ladder_inv lad" and ls: "lad_levels lad = as @ l # bs"
  shows "follows (lv_price l) 0 lad (lad\<lparr>lad_levels := as @ bs\<rparr>)"
proof -
  note I = ladder_invD [OF inv] and srt = ladder_invD(3) [OF inv, unfolded ls]
  have "ladder_inv (lad\<lparr>lad_levels := as @ bs\<rparr>)" using I srt
    by (intro ladder_invI) (auto simp: ls sorted_wrt_append)
  then show ?thesis using level_map_without [OF srt]
    by (auto simp: ls follows_def exact_def set_level_def simp del: level_map_simps)
qed

lemma follows_updated:
  assumes inv: "ladder_inv lad" and ls: "lad_levels lad = as @ l # bs" and q: "0 < q"
  shows "follows (lv_price l) q lad (lad\<lparr>lad_levels := as @ l\<lparr>lv_qty := q\<rparr> # bs\<rparr>)" (is "follows _ _ _ ?lad'")
proof -
  note I = ladder_invD [OF inv] and srt = ladder_invD(3) [OF inv, unfolded ls]
  have srt': "by_key (lad_side lad) (as @ l\<lparr>lv_qty := q\<rparr> # bs)" using srt by (auto simp: sorted_wrt_append)
  have "level_ok l" "\<not> beyond_horizon lad (lv_price l)" using I(4,5) [of l] by (auto simp: ls)
  then have "ladder_inv ?lad'" using I srt' q by (intro ladder_invI) (auto simp: ls level_ok_def)
  then show ?thesis using level_map_middle [OF srt] level_map_middle [OF srt'] q
    by (auto simp: ls follows_def exact_def set_level_def simp del: level_map_simps)
qed

lemma follows_found:
  assumes inv: "ladder_inv lad" and v: "validate (lad_side lad) p q = Ok u"
    and s: "\<not> beyond_horizon lad p" "search lad p = Ok i" and app: "ladder_apply p q lad = (r, lad')"
  shows "follows p q lad lad' \<and> r = Ok (if q = 0 then Removed else Updated)"
proof -
  obtain as l bs where ls: "lad_levels lad = as @ l # bs" "i = length as" "lv_price l = p"
    using s(2) search_Ok_split [OF ladder_invD(3) [OF inv]] unfolding search_def by blast
  have "0 \<le> q" using v by (auto simp: validate_def split: if_splits)
  then show ?thesis
    using follows_removed [OF inv ls(1)] follows_updated [OF inv ls(1)] app v s ls
    by (auto simp: ladder_apply_def list_update_append order_le_less split: if_splits)
qed

lemma follows_new:
  assumes inv: "ladder_inv lad" and v: "validate (lad_side lad) p q = Ok u"
    and s: "\<not> beyond_horizon lad p" "search lad p = Err i" and app: "ladder_apply p q lad = (r, lad')"
  shows "follows p q lad lad' \<and> (\<exists>a. r = Ok a)"
proof -
  let ?l = "\<lparr>lv_price = p, lv_qty = q\<rparr>" and ?s = "lad_side lad"
  obtain as bs where ls: "lad_levels lad = as @ bs" "i = length as"
    "\<And>x. x \<in> set as \<Longrightarrow> lkey ?s x < key ?s p" "\<And>x. x \<in> set bs \<Longrightarrow> key ?s p < lkey ?s x"
    using s(2) search_Err_split [OF ladder_invD(3) [OF inv]] unfolding search_def by blast
  have pos: "0 < p" "0 \<le> q" using v by (auto simp: validate_def split: if_splits)
  show ?thesis
  proof (cases "q = 0")
    case True
    have "level_map (lad_levels lad) p = None" using ls by (auto simp: level_map_None)
    then show ?thesis using app v s True inv
      by (auto simp: ladder_apply_def follows_def exact_def set_level_def)
  next
    case False
    have "gained ?l lad (snd (ladder_insert i ?l lad))"
      unfolding ls(2) using ls pos False s(1)
      by (intro ladder_insert_gained [OF inv ls(1)]) (auto simp: level_ok_def)
    moreover have "lad' = snd (ladder_insert i ?l lad)" "r = Ok (fst (ladder_insert i ?l lad))"
      using app v s False by (auto simp: ladder_apply_def split: prod.splits)
    ultimately show ?thesis using False by (auto simp: gained_def follows_def set_level_def)
  qed
qed

lemma follows_far:
  assumes "ladder_inv lad" "beyond_horizon lad p" shows "follows p q lad lad"
  using assms by (auto simp: follows_def exact_def set_level_def)

lemma ladder_apply_follows:
  assumes inv: "ladder_inv lad" and app: "ladder_apply p q lad = (Ok a, lad')"
  shows "follows p q lad lad'"
proof -
  obtain u where v: "validate (lad_side lad) p q = Ok u"
    using app by (auto simp: ladder_apply_def split: result.splits)
  consider "beyond_horizon lad p" | i where "\<not> beyond_horizon lad p" "search lad p = Ok i"
    | i where "\<not> beyond_horizon lad p" "search lad p = Err i" by (cases "search lad p") auto
  then show ?thesis
  proof cases
    case 1
    then show ?thesis using app v follows_far [OF inv] by (auto simp: ladder_apply_def)
  next
    case 2
    then show ?thesis using follows_found [OF inv v _ _ app] by blast
  next
    case 3
    then show ?thesis using follows_new [OF inv v _ _ app] by blast
  qed
qed

lemma ladder_apply_Err: "ladder_apply p q lad = (Err e, lad') \<Longrightarrow> lad' = lad \<and> validate (lad_side lad) p q = Err e"
  by (auto simp: ladder_apply_def Let_def split: result.splits if_splits prod.splits bool.splits)

lemma ladder_apply_total: "validate (lad_side lad) p q = Ok u \<Longrightarrow> \<exists>a lad'. ladder_apply p q lad = (Ok a, lad')"
  by (cases "search lad p") (auto simp: ladder_apply_def split: prod.splits bool.splits)

lemma ladder_apply_inv:
  assumes "ladder_inv lad" "ladder_apply p q lad = (r, lad')"
  shows "ladder_inv lad' \<and> lad_side lad' = lad_side lad \<and> lad_capacity lad' = lad_capacity lad"
  using assms ladder_apply_follows [OF assms(1)] by (cases r) (auto simp: follows_def dest: ladder_apply_Err)


section \<open>Loading a snapshot\<close>

lemma ladder_clear_inv:
  "0 < lad_capacity lad \<Longrightarrow> ladder_inv (ladder_clear lad)"
  "exact (ladder_clear lad) Map.empty"
  by (simp_all add: ladder_inv_def ladder_clear_def exact_def)

lemma find_duplicate_None:
  assumes "sorted (map (lkey s) ls)" "find_duplicate ls = None" shows "by_key s ls"
  using assms
proof (induction ls rule: find_duplicate.induct)
  case (1 a b ls)
  then have IH: "by_key s (b # ls)" and ab: "lkey s a < lkey s b"
    by (auto split: if_splits simp: order_le_less)
  then show ?case by (auto intro: less_trans)
qed auto

lemma find_duplicate_distinct: "by_key s ls \<Longrightarrow> find_duplicate ls = None"
  by (induction ls rule: find_duplicate.induct) auto

lemma by_key_distinct: "by_key s ls \<Longrightarrow> distinct (map lv_price ls)"
  by (induction ls) auto

lemma distinct_by_key:
  assumes "distinct (map lv_price ls)" shows "by_key s (sort_key (lkey s) ls)"
proof -
  let ?ls = "sort_key (lkey s) ls"
  have "distinct (map lv_price ?ls)" using assms by (simp add: distinct_map)
  then have "distinct (map (lkey s) ?ls)" by (auto simp: distinct_map inj_on_def)
  then have "sorted_wrt (<) (map (lkey s) ?ls)" by (simp add: strict_sorted_iff)
  then show ?thesis by (simp add: sorted_wrt_map)
qed

lemma level_map_sort:
  assumes "by_key s (sort_key (lkey s) ls)" shows "level_map (sort_key (lkey s) ls) = level_map ls"
proof -
  let ?f = "\<lambda>l. (lv_price l, lv_qty l)" and ?srt = "sort_key (lkey s) ls"
  have d: "distinct (map (fst \<circ> ?f) ?srt)" using by_key_distinct [OF assms] by (simp add: comp_def)
  then have "distinct (map (fst \<circ> ?f) ls)" by (simp add: distinct_map)
  then show ?thesis using d unfolding level_map_def by (intro map_of_inject_set [THEN iffD2]) (auto simp: comp_def)
qed

text \<open>Levels still in arrival order, nothing dropped yet.\<close>

definition loading :: "ladder \<Rightarrow> level list \<Rightarrow> bool" where
  "loading lad ls \<longleftrightarrow> 0 < lad_capacity lad \<and> length ls \<le> lad_capacity lad \<and> lad_levels lad = ls
     \<and> lad_horizon lad = None \<and> list_all level_ok ls"

lemma sort_and_check_Ok:
  assumes "loading lad ls" "sort_and_check lad = (Ok (), lad')"
  shows "ladder_inv lad'" "exact lad' (level_map ls)" "lad_side lad' = lad_side lad"
    "lad_capacity lad' = lad_capacity lad" "length (lad_levels lad') = length ls" "lad_horizon lad' = None"
proof -
  let ?srt = "sort_key (lkey (lad_side lad)) ls"
  have lad': "lad' = lad\<lparr>lad_levels := ?srt\<rparr>" "find_duplicate ?srt = None"
    using assms by (auto simp: sort_and_check_def loading_def Let_def split: option.splits)
  have srt: "by_key (lad_side lad) ?srt" by (rule find_duplicate_None) (simp_all add: lad')
  then show "ladder_inv lad'" using assms(1)
    by (intro ladder_invI) (auto simp: lad' loading_def list_all_iff beyond_horizon_key)
  show "exact lad' (level_map ls)" using level_map_sort [OF srt] by (simp add: lad' exact_def)
qed (use assms in \<open>auto simp: sort_and_check_def loading_def Let_def split: option.splits\<close>)

lemma load_full_gained:
  assumes inv: "ladder_inv lad" and full: "length (lad_levels lad) = lad_capacity lad" and ok: "level_ok l"
    and load: "load_full l lad = (Ok (), lad')"
  shows "gained l lad lad'"
proof -
  obtain i where i: "search lad (lv_price l) = Err i" "lad' = snd (ladder_insert i l lad)"
    using load by (auto simp: load_full_def split: result.splits)
  obtain as bs where ls: "lad_levels lad = as @ bs" "i = length as"
    "\<And>x. x \<in> set as \<Longrightarrow> lkey (lad_side lad) x < lkey (lad_side lad) l"
    "\<And>x. x \<in> set bs \<Longrightarrow> lkey (lad_side lad) l < lkey (lad_side lad) x"
    using i(1) search_Err_split [OF ladder_invD(3) [OF inv]] unfolding search_def by blast
  show ?thesis unfolding i(2) ls(2) using full ok ls
    by (intro ladder_insert_gained [OF inv ls(1)]) auto
qed

lemma load_loop_sorted:
  assumes "ladder_inv lad" "length (lad_levels lad) = lad_capacity lad" "exact lad m"
    "load_loop ls True lad = (Ok (), lad')"
  shows "ladder_inv lad' \<and> lad_side lad' = lad_side lad \<and> lad_capacity lad' = lad_capacity lad
    \<and> length (lad_levels lad') = lad_capacity lad
    \<and> exact lad' (fold (\<lambda>l m. m(lv_price l \<mapsto> lv_qty l)) ls m) \<and> list_all level_ok ls"
  using assms
proof (induction ls arbitrary: lad m)
  case (Cons l ls)
  from Cons.prems(2,4) obtain lad1 where l: "load_full l lad = (Ok (), lad1)" "load_loop ls True lad1 = (Ok (), lad')"
    and ok: "level_ok l"
    by (auto simp: validate_def level_ok_def split: result.splits if_splits prod.splits)
  have g: "gained l lad lad1" using Cons.prems(1,2) ok l(1) by (rule load_full_gained)
  then have "ladder_inv lad1" "length (lad_levels lad1) = lad_capacity lad1" "exact lad1 (m(lv_price l \<mapsto> lv_qty l))"
    using Cons.prems(2,3) by (auto simp: gained_def)
  from Cons.IH [OF this l(2)] g ok show ?case by (auto simp: gained_def)
qed simp

text \<open>The map a snapshot denotes.\<close>

definition snapshot_map :: "level list \<Rightarrow> depth" where
  "snapshot_map ls = fold (\<lambda>l m. m(lv_price l \<mapsto> lv_qty l)) ls Map.empty"

lemma fold_level_map:
  assumes "\<And>p. p \<in> dom m \<Longrightarrow> p \<notin> lv_price ` set ls" "distinct (map lv_price ls)"
  shows "fold (\<lambda>l m. m(lv_price l \<mapsto> lv_qty l)) ls m = level_map ls ++ m"
  using assms
proof (induction ls arbitrary: m)
  case (Cons l ls)
  then have "m (lv_price l) = None" by auto
  moreover have "level_map ls (lv_price l) = None" using Cons.prems(2) imageI [of _ "set ls" lv_price]
    unfolding level_map_None by (metis distinct.simps(2) list.simps(9) set_map)
  moreover have "fold (\<lambda>l m. m(lv_price l \<mapsto> lv_qty l)) ls (m(lv_price l \<mapsto> lv_qty l))
      = level_map ls ++ m(lv_price l \<mapsto> lv_qty l)"
  proof (rule Cons.IH)
    show "p \<notin> lv_price ` set ls" if "p \<in> dom (m(lv_price l \<mapsto> lv_qty l))" for p
      using that Cons.prems(1) [of p] Cons.prems(2) by (cases "p = lv_price l") auto
  qed (use Cons.prems(2) in simp)
  ultimately show ?case
    unfolding fold.simps comp_apply level_map_simps by (metis map_add_upd map_add_upd_None)
qed simp

lemma snapshot_map_distinct: "distinct (map lv_price ls) \<Longrightarrow> snapshot_map ls = level_map ls"
  using fold_level_map [of Map.empty ls] by (simp add: snapshot_map_def)

lemma sort_and_check_distinct:
  assumes "loading lad ls" "sort_and_check lad = (Ok (), lad')" shows "distinct (map lv_price ls)"
proof -
  let ?srt = "sort_key (lkey (lad_side lad)) ls"
  have "find_duplicate ?srt = None"
    using assms by (auto simp: sort_and_check_def loading_def Let_def split: option.splits)
  then have "by_key (lad_side lad) ?srt" by (intro find_duplicate_None) simp_all
  then have "distinct (map lv_price ?srt)" by (rule by_key_distinct)
  then show ?thesis by (simp add: distinct_map)
qed

lemma load_loop_loading:
  assumes "loading lad ls0" "load_loop ls False lad = (Ok (), lad')"
  shows "ladder_inv lad' \<and> lad_side lad' = lad_side lad \<and> lad_capacity lad' = lad_capacity lad
    \<and> length (lad_levels lad') = min (lad_capacity lad) (length (ls0 @ ls))
    \<and> exact lad' (snapshot_map (ls0 @ ls)) \<and> list_all level_ok ls
    \<and> (length (ls0 @ ls) \<le> lad_capacity lad \<longrightarrow> lad_horizon lad' = None)"
  using assms
proof (induction ls arbitrary: lad ls0)
  case Nil
  then have srt: "sort_and_check lad = (Ok (), lad')" by simp
  show ?case using sort_and_check_Ok [OF Nil(1) srt] snapshot_map_distinct [OF sort_and_check_distinct [OF Nil(1) srt]]
      Nil(1) by (simp add: loading_def)
next
  case (Cons l ls)
  have ok: "level_ok l" using Cons.prems(2)
    by (auto simp: validate_def level_ok_def split: result.splits if_splits)
  show ?case
  proof (cases "length ls0 < lad_capacity lad")
    case True
    let ?lad1 = "lad\<lparr>lad_levels := lad_levels lad @ [l]\<rparr>"
    have "loading ?lad1 (ls0 @ [l])" using Cons.prems(1) True ok by (auto simp: loading_def)
    moreover have "load_loop ls False ?lad1 = (Ok (), lad')"
      using Cons.prems True by (auto simp: loading_def split: result.splits if_splits)
    ultimately show ?thesis using Cons.IH [of ?lad1 "ls0 @ [l]"] ok by simp
  next
    case False
    then have full: "length ls0 = lad_capacity lad" using Cons.prems(1) by (simp add: loading_def)
    from Cons.prems False obtain lad1 lad2 where st: "sort_and_check lad = (Ok (), lad1)"
      "load_full l lad1 = (Ok (), lad2)" "load_loop ls True lad2 = (Ok (), lad')"
      by (auto simp: loading_def split: result.splits if_splits prod.splits)
    note sc = sort_and_check_Ok [OF Cons.prems(1) st(1)]
    have g: "gained l lad1 lad2" using sc full ok st(2) by (intro load_full_gained) auto
    have m: "snapshot_map ls0 = level_map ls0"
      by (rule snapshot_map_distinct [OF sort_and_check_distinct [OF Cons.prems(1) st(1)]])
    have "ladder_inv lad2" "length (lad_levels lad2) = lad_capacity lad2"
      "exact lad2 ((snapshot_map ls0)(lv_price l \<mapsto> lv_qty l))"
      using g sc full unfolding m by (auto simp: gained_def)
    from load_loop_sorted [OF this st(3)] g sc full ok show ?thesis
      by (auto simp: gained_def snapshot_map_def)
  qed
qed

lemma loading_clear: "0 < lad_capacity lad \<Longrightarrow> loading (ladder_clear lad) []"
  by (simp add: loading_def ladder_clear_def)

lemma ladder_load_Ok:
  assumes "0 < lad_capacity lad" "ladder_load ls lad = (Ok (), lad')"
  shows "ladder_inv lad'" "lad_side lad' = lad_side lad" "lad_capacity lad' = lad_capacity lad"
    "length (lad_levels lad') = min (lad_capacity lad) (length ls)" "exact lad' (snapshot_map ls)"
    "list_all level_ok ls" "length ls \<le> lad_capacity lad \<Longrightarrow> lad_horizon lad' = None"
proof -
  have "load_loop ls False (ladder_clear lad) = (Ok (), lad')"
    using assms(2) by (auto simp: ladder_load_def load_inner_def split: result.splits prod.splits)
  note L = load_loop_loading [OF loading_clear [OF assms(1)] this]
  then show "ladder_inv lad'" "lad_side lad' = lad_side lad" "lad_capacity lad' = lad_capacity lad"
    "length (lad_levels lad') = min (lad_capacity lad) (length ls)" "exact lad' (snapshot_map ls)"
    "list_all level_ok ls" "length ls \<le> lad_capacity lad \<Longrightarrow> lad_horizon lad' = None"
    by (simp_all add: ladder_clear_def)
qed

lemma load_full_side: "load_full l lad = (r, lad') \<Longrightarrow> lad_side lad' = lad_side lad \<and> lad_capacity lad' = lad_capacity lad"
  by (auto simp: load_full_def ladder_insert_def Let_def split: result.splits if_splits)

lemma sort_and_check_side: "sort_and_check lad = (r, lad') \<Longrightarrow> lad_side lad' = lad_side lad \<and> lad_capacity lad' = lad_capacity lad"
  by (auto simp: sort_and_check_def Let_def split: option.splits)

lemma load_loop_side:
  "load_loop ls srt lad = (r, lad') \<Longrightarrow> lad_side lad' = lad_side lad \<and> lad_capacity lad' = lad_capacity lad"
proof (induction ls arbitrary: srt lad)
  case Nil
  then show ?case by (auto split: if_splits dest: sort_and_check_side)
next
  case (Cons l ls)
  obtain r1 lad1 where one: "(if srt then (Ok (), lad) else sort_and_check lad) = (r1, lad1)"
    by (cases "if srt then (Ok (), lad) else sort_and_check lad")
  obtain r2 lad2 where two: "load_full l lad1 = (r2, lad2)" by (cases "load_full l lad1")
  have s1: "lad_side lad1 = lad_side lad \<and> lad_capacity lad1 = lad_capacity lad"
    using one by (auto split: if_splits dest: sort_and_check_side)
  note s2 = load_full_side [OF two]
  have "lad' = lad \<or> load_loop ls srt (lad\<lparr>lad_levels := lad_levels lad @ [l]\<rparr>) = (r, lad')
      \<or> lad' = lad1 \<or> lad' = lad2 \<or> load_loop ls True lad2 = (r, lad')"
    using Cons.prems unfolding load_loop.simps one prod.case two
    by (cases "validate (lad_side lad) (lv_price l) (lv_qty l)"; cases r1; cases r2) (auto split: if_splits)
  then show ?case
    using Cons.IH [of srt "lad\<lparr>lad_levels := lad_levels lad @ [l]\<rparr>"] Cons.IH [of True lad2] s1 s2
    by (elim disjE) simp_all
qed

lemma ladder_load_Err:
  assumes "ladder_load ls lad = (Err e, lad')" shows "lad' = ladder_clear lad"
proof -
  obtain lad1 where "load_loop ls False (ladder_clear lad) = (Err e, lad1)" "lad' = ladder_clear lad1"
    using assms by (auto simp: ladder_load_def load_inner_def split: result.splits prod.splits)
  then show ?thesis using load_loop_side [of ls False "ladder_clear lad"]
    by (cases lad1, cases lad) (auto simp: ladder_clear_def)
qed

lemma ladder_load_inv:
  assumes "0 < lad_capacity lad" "ladder_load ls lad = (r, lad')"
  shows "ladder_inv lad' \<and> lad_side lad' = lad_side lad \<and> lad_capacity lad' = lad_capacity lad"
proof (cases r)
  case (Ok u)
  then show ?thesis using ladder_load_Ok [OF assms(1), of ls lad'] assms(2) by simp
next
  case (Err e)
  then show ?thesis using ladder_load_Err [of ls lad e lad'] ladder_clear_inv assms
    by (auto simp: ladder_clear_def)
qed


text \<open>A snapshot of valid levels at distinct prices always loads.\<close>

lemma ladder_insert_levels: "set (lad_levels (snd (ladder_insert i l lad))) \<subseteq> insert l (set (lad_levels lad))"
  using set_remove_at_subset [of 0 "lad_levels lad"] by (auto simp: ladder_insert_def Let_def)

lemma search_fresh:
  assumes "ladder_inv lad" "p \<notin> lv_price ` set (lad_levels lad)" shows "\<exists>i. search lad p = Err i"
proof (cases "search lad p")
  case (Ok i)
  then obtain as l bs where "lad_levels lad = as @ l # bs" "lv_price l = p"
    using search_Ok_split [OF ladder_invD(3) [OF assms(1)]] unfolding search_def by blast
  then show ?thesis using assms(2) by auto
qed simp

lemma disjoint_insert_subset: "A \<subseteq> insert x C \<Longrightarrow> x \<notin> B \<Longrightarrow> C \<inter> B = {} \<Longrightarrow> A \<inter> B = {}"
  by blast

lemma load_loop_sorted_total:
  assumes "ladder_inv lad" "length (lad_levels lad) = lad_capacity lad" "list_all level_ok ls"
    "distinct (map lv_price ls)" "lv_price ` set (lad_levels lad) \<inter> lv_price ` set ls = {}"
  shows "\<exists>lad'. load_loop ls True lad = (Ok (), lad')"
  using assms
proof (induction ls arbitrary: lad)
  case (Cons l ls)
  have ok: "level_ok l" "validate (lad_side lad) (lv_price l) (lv_qty l) = Ok ()"
    using Cons.prems(3) by (auto simp: level_ok_def validate_def)
  have "lv_price l \<notin> lv_price ` set (lad_levels lad)" using Cons.prems(5) by auto
  then obtain i where i: "search lad (lv_price l) = Err i" using search_fresh [OF Cons.prems(1)] by blast
  let ?lad1 = "snd (ladder_insert i l lad)"
  have full: "load_full l lad = (Ok (), ?lad1)" using i by (simp add: load_full_def)
  note g = load_full_gained [OF Cons.prems(1,2) ok(1) full]
  have "lv_price ` set (lad_levels ?lad1) \<subseteq> insert (lv_price l) (lv_price ` set (lad_levels lad))"
    using ladder_insert_levels [of i l lad] by blast
  moreover have "lv_price l \<notin> lv_price ` set ls" "lv_price ` set (lad_levels lad) \<inter> lv_price ` set ls = {}"
    using Cons.prems(4,5) by (auto simp del: image_iff)
  ultimately have "lv_price ` set (lad_levels ?lad1) \<inter> lv_price ` set ls = {}"
    by (rule disjoint_insert_subset)
  then have "\<exists>lad'. load_loop ls True ?lad1 = (Ok (), lad')"
    using g Cons.prems(2-4) by (intro Cons.IH) (auto simp: gained_def)
  then show ?case using ok full Cons.prems(2) by (auto simp: level_ok_def)
qed simp

lemma sort_and_check_total:
  assumes "distinct (map lv_price (lad_levels lad))"
  shows "sort_and_check lad = (Ok (), lad\<lparr>lad_levels := sort_key (lkey (lad_side lad)) (lad_levels lad)\<rparr>)"
  using find_duplicate_distinct [OF distinct_by_key [OF assms]] by (simp add: sort_and_check_def Let_def)

lemma load_loop_total:
  assumes "loading lad ls0" "list_all level_ok ls" "distinct (map lv_price (ls0 @ ls))"
  shows "\<exists>lad'. load_loop ls False lad = (Ok (), lad')"
  using assms
proof (induction ls arbitrary: lad ls0)
  case Nil
  then show ?case using sort_and_check_total [of lad] by (simp add: loading_def)
next
  case (Cons l ls)
  have ok: "level_ok l" "validate (lad_side lad) (lv_price l) (lv_qty l) = Ok ()" "lv_qty l \<noteq> 0"
    using Cons.prems(2) by (auto simp: level_ok_def validate_def)
  have ls0: "lad_levels lad = ls0" using Cons.prems(1) by (simp add: loading_def)
  show ?case
  proof (cases "length ls0 < lad_capacity lad")
    case True
    let ?lad1 = "lad\<lparr>lad_levels := lad_levels lad @ [l]\<rparr>"
    have "loading ?lad1 (ls0 @ [l])" using Cons.prems(1) True ok by (auto simp: loading_def)
    then show ?thesis using Cons.IH [of ?lad1 "ls0 @ [l]"] Cons.prems True ok ls0 by simp
  next
    case False
    let ?lad1 = "lad\<lparr>lad_levels := sort_key (lkey (lad_side lad)) ls0\<rparr>"
    have sc: "sort_and_check lad = (Ok (), ?lad1)" using sort_and_check_total [of lad] Cons.prems(3) ls0 by simp
    note S = sort_and_check_Ok [OF Cons.prems(1) sc]
    have "\<exists>lad'. load_loop (l # ls) True ?lad1 = (Ok (), lad')"
      using S Cons.prems False by (intro load_loop_sorted_total) (auto simp: loading_def)
    then show ?thesis using ok False ls0 sc by (auto split: result.splits prod.splits)
  qed
qed

lemma ladder_load_total:
  assumes "0 < lad_capacity lad" "list_all level_ok ls" "distinct (map lv_price ls)"
  shows "\<exists>lad'. ladder_load ls lad = (Ok (), lad')"
  using load_loop_total [OF loading_clear [OF assms(1)] assms(2)] assms(3)
  by (auto simp: ladder_load_def load_inner_def split: result.splits prod.splits)

section \<open>Reading\<close>

lemma last_opt_append [simp]: "last_opt (xs @ [x]) = Some x"
  by (simp add: last_opt_def)

text \<open>The best level of the ladder is the best level of the map it follows.\<close>

lemma best_exact:
  assumes inv: "ladder_inv lad" and ex: "exact lad m" and b: "best lad = Some l"
  shows "m (lv_price l) = Some (lv_qty l)" "is_more_aggressive (lad_side lad) p (lv_price l) \<Longrightarrow> m p = None"
proof -
  note I = ladder_invD [OF inv]
  obtain ls where ls: "lad_levels lad = ls @ [l]"
    using b by (cases "lad_levels lad" rule: rev_cases) (auto simp: best_def last_opt_def)
  have near: "\<not> beyond_horizon lad (lv_price l)" using I(5) [of l] ls by simp
  have "level_map (lad_levels lad) (lv_price l) = Some (lv_qty l)"
    using level_map_Some [OF I(3)] ls by (metis in_set_conv_decomp)
  then show "m (lv_price l) = Some (lv_qty l)" using ex near by (simp add: exact_def)
  assume "is_more_aggressive (lad_side lad) p (lv_price l)"
  then have gt: "lkey (lad_side lad) l < key (lad_side lad) p" by (simp add: aggressive_key)
  then have "\<not> beyond_horizon lad p" using near by (auto simp: beyond_horizon_key)
  moreover have "level_map (lad_levels lad) p = None"
    using I(3) gt by (force simp: level_map_None ls sorted_wrt_append)
  ultimately show "m p = None" using ex by (simp add: exact_def)
qed

lemma best_None: "ladder_inv lad \<Longrightarrow> exact lad m \<Longrightarrow> best lad = None \<Longrightarrow> \<not> beyond_horizon lad p \<Longrightarrow> m p = None"
  by (auto simp: best_def last_opt_def exact_def split: if_splits)

lemma nth_best_iter: "nth_best lad n = nth_opt (ladder_iter lad) n"
  by (auto simp: nth_best_def ladder_iter_def nth_opt_def checked_nsub_def rev_nth)


section \<open>The ladder as a store\<close>

definition ladder_step :: "price \<times> qty \<Rightarrow> ladder \<Rightarrow> (applied, book_error) result \<times> ladder" where
  "ladder_step u = ladder_apply (fst u) (snd u)"

interpretation side_store: delta_store ladder_inv exact ladder_step "\<lambda>u. set_level (fst u) (snd u)"
proof unfold_locales
  show "ladder_inv s'" if "ladder_inv s" "ladder_step u s = (r, s')" for s u r s'
    using that ladder_apply_inv by (simp add: ladder_step_def)
  show "exact s' (set_level (fst u) (snd u) m)" if "ladder_inv s" "exact s m" "ladder_step u s = (Ok x, s')" for s u m x s'
    using that ladder_apply_follows by (auto simp: ladder_step_def follows_def)
  show "s' = s" if "ladder_step u s = (Err e, s')" for s u e s'
    using that ladder_apply_Err by (simp add: ladder_step_def)
qed

section \<open>Properties\<close>

text \<open>C3: Applying an update keeps the ladder sorted, positive, within capacity and within its
  horizon, and keeps it exact: every price at or better than the horizon carries the quantity
  of the unbounded map after the same update.  A rejected update changes nothing.\<close>

theorem ladder_apply_exact:
  assumes "ladder_inv lad" "exact lad m" "ladder_apply p q lad = (r, lad')"
  shows "ladder_inv lad' \<and> (case r of Ok _ \<Rightarrow> exact lad' (set_level p q m) | Err _ \<Rightarrow> lad' = lad)"
  using ladder_apply_inv [OF assms(1,3)] ladder_apply_follows [OF assms(1)] ladder_apply_Err [of p q lad] assms(2,3)
  by (cases r) (auto simp: follows_def)

text \<open>A full ladder of two bids that receives a better one.\<close>

definition demo_ladder :: ladder where
  "demo_ladder = \<lparr>lad_side = Buy, lad_levels = [\<lparr>lv_price = 98, lv_qty = 5\<rparr>, \<lparr>lv_price = 99, lv_qty = 4\<rparr>],
     lad_capacity = 2, lad_horizon = None\<rparr>"

lemmas ladder_eval = ladder_apply_def validate_def beyond_horizon_def search_def search_levels_def TOP_SCAN_def
  cmp_def ladder_insert_def insert_at_def remove_at_def first_opt_def Let_def

theorem ladder_apply_exact_witness:
  "ladder_apply 100 7 demo_ladder = (Ok Inserted, \<lparr>lad_side = Buy,
      lad_levels = [\<lparr>lv_price = 99, lv_qty = 4\<rparr>, \<lparr>lv_price = 100, lv_qty = 7\<rparr>], lad_capacity = 2, lad_horizon = Some 99\<rparr>)
   \<and> exact (snd (ladder_apply 100 7 demo_ladder)) (set_level 100 7 (level_map (lad_levels demo_ladder)))"
proof -
  have eval: "ladder_apply 100 7 demo_ladder = (Ok Inserted, \<lparr>lad_side = Buy,
      lad_levels = [\<lparr>lv_price = 99, lv_qty = 4\<rparr>, \<lparr>lv_price = 100, lv_qty = 7\<rparr>], lad_capacity = 2, lad_horizon = Some 99\<rparr>)"
    by (simp add: ladder_eval demo_ladder_def)
  have "ladder_inv demo_ladder" "exact demo_ladder (level_map (lad_levels demo_ladder))"
    by (simp_all add: ladder_inv_def exact_def demo_ladder_def level_ok_def beyond_horizon_def)
  from ladder_apply_exact [OF this eval] eval show ?thesis by simp
qed

text \<open>The scan of the best sixteen levels followed by binary search returns what a linear
  count returns, on every sorted ladder: the index of the price, or the number of worse levels.\<close>

lemma ladder_search_correct:
  assumes "ladder_inv lad"
  shows "search lad p = ref_search (lad_side lad) (lad_levels lad) p"
  using search_ref [OF ladder_invD(3) [OF assms]] by (simp add: search_def)

text \<open>Loading valid levels at distinct prices, in any order, succeeds, fills the ladder with
  as many levels as fit, and leaves it exact for the snapshot.\<close>

lemma ladder_load_exact:
  assumes "0 < lad_capacity lad" "list_all level_ok ls" "distinct (map lv_price ls)"
  shows "\<exists>lad'. ladder_load ls lad = (Ok (), lad') \<and> ladder_inv lad' \<and> exact lad' (snapshot_map ls)
    \<and> length (lad_levels lad') = min (lad_capacity lad) (length ls)
    \<and> (length ls \<le> lad_capacity lad \<longrightarrow> lad_horizon lad' = None)"
proof -
  obtain lad' where load: "ladder_load ls lad = (Ok (), lad')" using ladder_load_total [OF assms] by blast
  then show ?thesis using ladder_load_Ok [OF assms(1) load] by blast
qed

end
