(* ===== verification/Book.thy ===== *)
theory Book
  imports Ladder
begin

text \<open>
  \<open>crates/bowst-book/src/book.rs\<close>: bids and asks for one instrument.  The reference of a book
  is one depth map per side; the book follows it as each of its ladders does.
\<close>

record level_update =
  lu_side :: side
  lu_price :: price
  lu_qty :: qty

record book =
  bk_bids :: ladder
  bk_asks :: ladder

definition book_new :: "nat \<Rightarrow> (book, book_error) result" where
  "book_new n = rbind (ladder_new Buy n) (\<lambda>bids. rbind (ladder_new Sell n) (\<lambda>asks.
     Ok \<lparr>bk_bids = bids, bk_asks = asks\<rparr>))"

fun book_side :: "side \<Rightarrow> book \<Rightarrow> ladder" where
  "book_side Buy b = bk_bids b"
| "book_side Sell b = bk_asks b"

fun set_book_side :: "side \<Rightarrow> ladder \<Rightarrow> book \<Rightarrow> book" where
  "set_book_side Buy lad b = b\<lparr>bk_bids := lad\<rparr>"
| "set_book_side Sell lad b = b\<lparr>bk_asks := lad\<rparr>"

definition best_bid :: "book \<Rightarrow> level option" where
  "best_bid b = best (bk_bids b)"

definition best_ask :: "book \<Rightarrow> level option" where
  "best_ask b = best (bk_asks b)"

definition is_crossed :: "book \<Rightarrow> bool" where
  "is_crossed b =
     (case (best_bid b, best_ask b) of
        (Some bid, Some ask) \<Rightarrow> lv_price bid \<ge> lv_price ask
      | _ \<Rightarrow> False)"

definition book_apply :: "level_update \<Rightarrow> book \<Rightarrow> (applied, book_error) result \<times> book" where
  "book_apply u b =
     (let (r, lad) = ladder_apply (lu_price u) (lu_qty u) (book_side (lu_side u) b) in
      (r, set_book_side (lu_side u) lad b))"

definition book_clear :: "book \<Rightarrow> book" where
  "book_clear b = b\<lparr>bk_bids := ladder_clear (bk_bids b), bk_asks := ladder_clear (bk_asks b)\<rparr>"

definition book_load :: "level list \<Rightarrow> level list \<Rightarrow> book \<Rightarrow> (unit, book_error) result \<times> book" where
  "book_load bids asks b =
     (case ladder_load bids (bk_bids b) of
        (Err e, lad) \<Rightarrow> (Err e, book_clear (b\<lparr>bk_bids := lad\<rparr>))
      | (Ok _, lad) \<Rightarrow>
          (case ladder_load asks (bk_asks b) of
             (Err e, lad2) \<Rightarrow> (Err e, book_clear (b\<lparr>bk_bids := lad, bk_asks := lad2\<rparr>))
           | (Ok _, lad2) \<Rightarrow> (Ok (), b\<lparr>bk_bids := lad, bk_asks := lad2\<rparr>)))"

section \<open>Invariant and reference\<close>

type_synonym depths = "side \<Rightarrow> depth"

definition book_inv :: "book \<Rightarrow> bool" where
  "book_inv b \<longleftrightarrow> ladder_inv (bk_bids b) \<and> ladder_inv (bk_asks b)
     \<and> lad_side (bk_bids b) = Buy \<and> lad_side (bk_asks b) = Sell"

definition book_exact :: "book \<Rightarrow> depths \<Rightarrow> bool" where
  "book_exact b m \<longleftrightarrow> exact (bk_bids b) (m Buy) \<and> exact (bk_asks b) (m Sell)"

definition update_depths :: "level_update \<Rightarrow> depths \<Rightarrow> depths" where
  "update_depths u m = m(lu_side u := set_level (lu_price u) (lu_qty u) (m (lu_side u)))"

definition snapshot_depths :: "level list \<Rightarrow> level list \<Rightarrow> depths" where
  "snapshot_depths bids asks s = (case s of Buy \<Rightarrow> snapshot_map bids | Sell \<Rightarrow> snapshot_map asks)"

lemma book_side_set [simp]:
  "book_side s (set_book_side s lad b) = lad"
  "s \<noteq> s' \<Longrightarrow> book_side s (set_book_side s' lad b) = book_side s b"
  by (cases s; cases s'; simp)+

lemma set_book_side_id [simp]: "set_book_side s (book_side s b) b = b"
  by (cases s) auto

lemma book_inv_side: "book_inv b \<longleftrightarrow> (\<forall>s. ladder_inv (book_side s b) \<and> lad_side (book_side s b) = s)"
proof -
  have "(\<forall>s. P s) \<longleftrightarrow> P Buy \<and> P Sell" for P by (metis side.exhaust)
  then show ?thesis by (auto simp: book_inv_def)
qed

lemma book_exact_side: "book_exact b m \<longleftrightarrow> (\<forall>s. exact (book_side s b) (m s))"
proof -
  have "(\<forall>s. P s) \<longleftrightarrow> P Buy \<and> P Sell" for P by (metis side.exhaust)
  then show ?thesis by (auto simp: book_exact_def)
qed

lemma book_new_inv: "book_new n = Ok b \<Longrightarrow> book_inv b \<and> book_exact b (\<lambda>_. Map.empty)"
  by (auto simp: book_new_def ladder_new_def result_simps book_inv_def ladder_inv_def book_exact_def exact_def
      split: if_splits)

lemma book_apply_cases:
  assumes "book_apply u b = (r, b')"
  obtains lad where "ladder_apply (lu_price u) (lu_qty u) (book_side (lu_side u) b) = (r, lad)"
    "b' = set_book_side (lu_side u) lad b"
  using assms by (auto simp: book_apply_def split: prod.splits)

interpretation book_store: delta_store book_inv book_exact book_apply update_depths
proof unfold_locales
  fix b u r b'
  assume inv: "book_inv b" and app: "book_apply u b = (r, b')"
  from app obtain lad where lad: "ladder_apply (lu_price u) (lu_qty u) (book_side (lu_side u) b) = (r, lad)"
    "b' = set_book_side (lu_side u) lad b" by (rule book_apply_cases)
  have "ladder_inv lad \<and> lad_side lad = lu_side u"
    using ladder_apply_inv [OF _ lad(1)] inv by (auto simp: book_inv_side)
  then show "book_inv b'" using inv unfolding book_inv_side lad(2) by (metis book_side_set)
next
  fix b m u x b'
  assume inv: "book_inv b" and ex: "book_exact b m" and app: "book_apply u b = (Ok x, b')"
  from app obtain lad where lad: "ladder_apply (lu_price u) (lu_qty u) (book_side (lu_side u) b) = (Ok x, lad)"
    "b' = set_book_side (lu_side u) lad b" by (rule book_apply_cases)
  have "exact lad (set_level (lu_price u) (lu_qty u) (m (lu_side u)))"
    using ladder_apply_follows [OF _ lad(1)] inv ex by (auto simp: book_inv_side book_exact_side follows_def)
  then show "book_exact b' (update_depths u m)"
    using ex unfolding book_exact_side lad(2) update_depths_def by (metis book_side_set fun_upd_apply)
next
  fix u b e b'
  assume "book_apply u b = (Err e, b')"
  then show "b' = b" by (elim book_apply_cases) (auto dest: ladder_apply_Err)
qed

lemma book_clear_inv: "book_inv b \<Longrightarrow> book_inv (book_clear b)"
  using ladder_clear_inv(1) by (auto simp: book_inv_def book_clear_def ladder_clear_def ladder_inv_def)

lemma book_clear_clear [simp]: "book_clear (book_clear b) = book_clear b"
  by (simp add: book_clear_def ladder_clear_def)

lemma book_clear_not_crossed [simp]: "\<not> is_crossed (book_clear b)"
  by (simp add: is_crossed_def best_bid_def best_def last_opt_def book_clear_def ladder_clear_def)

lemma book_load_Ok:
  assumes "book_inv b" "book_load bids asks b = (Ok (), b')"
  shows "book_inv b'" "book_exact b' (snapshot_depths bids asks)"
proof -
  obtain l1 l2 where L: "ladder_load bids (bk_bids b) = (Ok (), l1)" "ladder_load asks (bk_asks b) = (Ok (), l2)"
    "b' = b\<lparr>bk_bids := l1, bk_asks := l2\<rparr>"
    using assms(2) by (auto simp: book_load_def split: prod.splits result.splits)
  have cap: "0 < lad_capacity (bk_bids b)" "0 < lad_capacity (bk_asks b)"
    using assms(1) by (auto simp: book_inv_def ladder_inv_def)
  note A = ladder_load_Ok [OF cap(1) L(1)] and B = ladder_load_Ok [OF cap(2) L(2)]
  show "book_inv b'" using assms(1) A(1,2) B(1,2) by (simp add: book_inv_def L(3))
  show "book_exact b' (snapshot_depths bids asks)" using A(5) B(5)
    by (simp add: book_exact_def L(3) snapshot_depths_def)
qed

lemma book_load_Err:
  assumes "book_load bids asks b = (Err e, b')" shows "b' = book_clear b"
proof -
  have clear: "ladder_load ls lad = (Ok (), lad') \<Longrightarrow> ladder_clear lad' = ladder_clear lad" for ls lad lad'
    using load_loop_side [of ls False "ladder_clear lad"]
    by (cases lad, cases lad') (auto simp: ladder_load_def load_inner_def ladder_clear_def split: prod.splits result.splits)
  show ?thesis using assms
    by (auto simp: book_load_def book_clear_def ladder_clear_def dest!: ladder_load_Err clear
        split: prod.splits result.splits)
qed

lemma book_load_inv:
  assumes "book_inv b" "book_load bids asks b = (r, b')" shows "book_inv b'"
  using assms book_load_Ok(1) [OF assms(1)] book_clear_inv by (cases r) (auto dest: book_load_Err)

end
