(* ===== verification/Book_Sync.thy ===== *)
theory Book_Sync
  imports Book
begin

text \<open>
  \<open>crates/bowst-book/src/sync.rs\<close>: keeping a book in step with a venue's snapshot-plus-delta
  feed.  \<open>on_delta\<close>, \<open>on_snapshot\<close> and \<open>reset\<close> are the handlers; every call they make to a
  private helper (\<open>buffer\<close>, \<open>restart_buffer\<close>, \<open>invalidate\<close>, \<open>check_crossed\<close>, \<open>apply_all\<close>) is
  a definition of its own, in state-passing style.

  Sequence numbers are u64, here \<open>nat\<close> with saturating successors where the code saturates.
\<close>

section \<open>Types\<close>

record seq_range =
  sr_first :: nat
  sr_last :: nat

definition seq_range_new :: "nat \<Rightarrow> nat \<Rightarrow> seq_range option" where
  "seq_range_new a b = (if a > b then None else Some \<lparr>sr_first = a, sr_last = b\<rparr>)"

definition seq_range_single :: "nat \<Rightarrow> seq_range" where
  "seq_range_single a = \<lparr>sr_first = a, sr_last = a\<rparr>"

definition continues :: "seq_range \<Rightarrow> nat \<Rightarrow> bool" where
  "continues r prev \<longleftrightarrow> sr_first r \<le> sat_u64 (prev + 1)"

record sync_config =
  levels_per_side :: nat
  buffered_messages :: nat
  buffered_updates :: nat

datatype sync_error =
    Gap nat seq_range
  | SnapshotTooOld nat nat
  | Crossed price price
  | BookErr book_error

datatype delta_outcome = Applied | Buffered | Stale

record sync_stats =
  invalidations :: nat
  buffer_resets :: nat
  stale_deltas :: nat

record pending_msg =
  pd_range :: seq_range
  pd_start :: nat
  pd_len :: nat

datatype sync_state = AwaitingSnapshot | Live nat

record book_sync =
  sy_book :: book
  sy_state :: sync_state
  sy_pending :: "pending_msg list"
  sy_updates :: "level_update list"
  sy_config :: sync_config
  sy_stats :: sync_stats

section \<open>Operations\<close>

definition sync_new :: "sync_config \<Rightarrow> (book_sync, book_error) result" where
  "sync_new cfg =
     (if buffered_messages cfg = 0 \<or> buffered_updates cfg = 0 then Err ZeroCapacity
      else rbind (book_new (levels_per_side cfg)) (\<lambda>b.
        Ok \<lparr>sy_book = b, sy_state = AwaitingSnapshot, sy_pending = [], sy_updates = [],
            sy_config = cfg, sy_stats = \<lparr>invalidations = 0, buffer_resets = 0, stale_deltas = 0\<rparr>\<rparr>))"

definition sync_book :: "book_sync \<Rightarrow> book option" where
  "sync_book s = (case sy_state s of Live _ \<Rightarrow> Some (sy_book s) | AwaitingSnapshot \<Rightarrow> None)"

definition is_live :: "book_sync \<Rightarrow> bool" where
  "is_live s = (case sy_state s of Live _ \<Rightarrow> True | AwaitingSnapshot \<Rightarrow> False)"

definition last_seq :: "book_sync \<Rightarrow> nat option" where
  "last_seq s = (case sy_state s of Live l \<Rightarrow> Some l | AwaitingSnapshot \<Rightarrow> None)"

definition bump_stale :: "book_sync \<Rightarrow> book_sync" where
  "bump_stale s = s\<lparr>sy_stats := (sy_stats s)\<lparr>stale_deltas := sat_u64 (stale_deltas (sy_stats s) + 1)\<rparr>\<rparr>"

definition invalidate :: "book_sync \<Rightarrow> book_sync" where
  "invalidate s =
     s\<lparr>sy_book := book_clear (sy_book s), sy_state := AwaitingSnapshot, sy_pending := [], sy_updates := [],
       sy_stats := (sy_stats s)\<lparr>invalidations := sat_u64 (invalidations (sy_stats s) + 1)\<rparr>\<rparr>"

definition restart_buffer :: "book_sync \<Rightarrow> book_sync" where
  "restart_buffer s =
     s\<lparr>sy_pending := [], sy_updates := [],
       sy_stats := (sy_stats s)\<lparr>buffer_resets := sat_u64 (buffer_resets (sy_stats s) + 1)\<rparr>\<rparr>"

text \<open>Storing the updates of one message: \<open>False\<close> when they ran out of room.\<close>

fun buffer_updates :: "level_update list \<Rightarrow> book_sync \<Rightarrow> bool \<times> book_sync" where
  "buffer_updates [] s = (True, s)"
| "buffer_updates (u # us) s =
     (if length (sy_updates s) \<ge> buffered_updates (sy_config s) then (False, restart_buffer s)
      else buffer_updates us (s\<lparr>sy_updates := sy_updates s @ [u]\<rparr>))"

definition buffer_store :: "seq_range \<Rightarrow> level_update list \<Rightarrow> book_sync \<Rightarrow> delta_outcome \<times> book_sync" where
  "buffer_store r us s =
     (let s1 = (if length (sy_pending s) \<ge> buffered_messages (sy_config s) then restart_buffer s else s);
          start = length (sy_updates s1)
      in case buffer_updates us s1 of
           (False, s2) \<Rightarrow> (Buffered, s2)
         | (True, s2) \<Rightarrow>
             (Buffered, s2\<lparr>sy_pending := sy_pending s2 @
                [\<lparr>pd_range = r, pd_start = start, pd_len = length (sy_updates s2) - start\<rparr>]\<rparr>))"

definition buffer :: "seq_range \<Rightarrow> level_update list \<Rightarrow> book_sync \<Rightarrow> delta_outcome \<times> book_sync" where
  "buffer r us s =
     (case last_opt (sy_pending s) of
        Some prev \<Rightarrow>
          if sr_last r \<le> sr_last (pd_range prev) then (Stale, bump_stale s)
          else if \<not> continues r (sr_last (pd_range prev)) then buffer_store r us (restart_buffer s)
          else buffer_store r us s
      | None \<Rightarrow> buffer_store r us s)"

definition apply_all :: "level_update list \<Rightarrow> book_sync \<Rightarrow> (unit, book_error) result \<times> book_sync" where
  "apply_all us s = (let (r, b) = run_steps book_apply us (sy_book s) in (r, s\<lparr>sy_book := b\<rparr>))"

definition check_crossed :: "book_sync \<Rightarrow> (unit, sync_error) result \<times> book_sync" where
  "check_crossed s =
     (case (best_bid (sy_book s), best_ask (sy_book s)) of
        (Some bid, Some ask) \<Rightarrow>
          if lv_price bid \<ge> lv_price ask then (Err (Crossed (lv_price bid) (lv_price ask)), invalidate s)
          else (Ok (), s)
      | _ \<Rightarrow> (Ok (), s))"

definition reset :: "book_sync \<Rightarrow> book_sync" where
  "reset s = invalidate s"

definition on_delta :: "seq_range \<Rightarrow> level_update list \<Rightarrow> book_sync \<Rightarrow> (delta_outcome, sync_error) result \<times> book_sync" where
  "on_delta r us s =
     (case sy_state s of
        AwaitingSnapshot \<Rightarrow> (let (out, s1) = buffer r us s in (Ok out, s1))
      | Live lst \<Rightarrow>
          if sr_last r \<le> lst then (Ok Stale, bump_stale s)
          else if \<not> continues r lst
          then (Err (Gap (sat_u64 (lst + 1)) r), snd (buffer r us (invalidate s)))
          else
            case apply_all us s of
              (Err e, s1) \<Rightarrow> (Err (BookErr e), invalidate s1)
            | (Ok _, s1) \<Rightarrow>
                (case check_crossed (s1\<lparr>sy_state := Live (sr_last r)\<rparr>) of
                   (Err e, s2) \<Rightarrow> (Err e, s2)
                 | (Ok _, s2) \<Rightarrow> (Ok Applied, s2)))"

text \<open>The updates of a buffered message: those present from its start, at most its length.\<close>

definition message_updates :: "pending_msg \<Rightarrow> level_update list \<Rightarrow> level_update list" where
  "message_updates m ups = take (sat_u64 (pd_start m + pd_len m) - pd_start m) (drop (pd_start m) ups)"

text \<open>The replay loop of \<open>on_snapshot\<close>, from one buffered message on: the final cursor.\<close>

fun replay_pending :: "nat \<Rightarrow> pending_msg list \<Rightarrow> nat \<Rightarrow> book_sync \<Rightarrow> (nat, sync_error) result \<times> book_sync" where
  "replay_pending seq [] cursor s = (Ok cursor, s)"
| "replay_pending seq (m # ms) cursor s =
     (if sr_last (pd_range m) \<le> cursor then replay_pending seq ms cursor s
      else if \<not> continues (pd_range m) cursor
      then (Err (SnapshotTooOld seq (sr_first (pd_range m))),
            s\<lparr>sy_book := book_clear (sy_book s), sy_state := AwaitingSnapshot\<rparr>)
      else
        case run_steps book_apply (message_updates m (sy_updates s)) (sy_book s) of
          (Err e, b) \<Rightarrow> (Err (BookErr e), invalidate (s\<lparr>sy_book := b\<rparr>))
        | (Ok _, b) \<Rightarrow> replay_pending seq ms (sr_last (pd_range m)) (s\<lparr>sy_book := b\<rparr>))"

definition on_snapshot :: "nat \<Rightarrow> level list \<Rightarrow> level list \<Rightarrow> book_sync \<Rightarrow> (bool, sync_error) result \<times> book_sync" where
  "on_snapshot seq bids asks s =
     (if (case sy_state s of Live lst \<Rightarrow> seq < lst | AwaitingSnapshot \<Rightarrow> False) then (Ok False, s)
      else
        case book_load bids asks (sy_book s) of
          (Err e, b) \<Rightarrow> (Err (BookErr e), invalidate (s\<lparr>sy_book := b\<rparr>))
        | (Ok _, b) \<Rightarrow>
            (case replay_pending seq (sy_pending s) seq (s\<lparr>sy_book := b\<rparr>) of
               (Err e, s1) \<Rightarrow> (Err e, s1)
             | (Ok cursor, s1) \<Rightarrow>
                 (case check_crossed (s1\<lparr>sy_pending := [], sy_updates := [], sy_state := Live cursor\<rparr>) of
                    (Err e, s2) \<Rightarrow> (Err e, s2)
                  | (Ok _, s2) \<Rightarrow> (Ok True, s2))))"

section \<open>Invariant\<close>

text \<open>
  The buffered messages lie back to back in the update storage, each continuing from the
  one before with a larger last number.
\<close>

fun spans :: "nat \<Rightarrow> pending_msg list \<Rightarrow> nat \<Rightarrow> bool" where
  "spans start [] stop \<longleftrightarrow> start = stop"
| "spans start (m # ms) stop \<longleftrightarrow> pd_start m = start \<and> spans (start + pd_len m) ms stop"

fun chained :: "pending_msg list \<Rightarrow> bool" where
  "chained (a # b # ms) \<longleftrightarrow>
     sr_last (pd_range a) < sr_last (pd_range b) \<and> continues (pd_range b) (sr_last (pd_range a)) \<and> chained (b # ms)"
| "chained _ \<longleftrightarrow> True"

definition sync_inv :: "book_sync \<Rightarrow> bool" where
  "sync_inv s \<longleftrightarrow>
     book_inv (sy_book s)
     \<and> (case sy_state s of
          Live _ \<Rightarrow> sy_pending s = [] \<and> sy_updates s = [] \<and> \<not> is_crossed (sy_book s)
        | AwaitingSnapshot \<Rightarrow> sy_book s = book_clear (sy_book s))
     \<and> spans 0 (sy_pending s) (length (sy_updates s)) \<and> chained (sy_pending s)
     \<and> length (sy_pending s) \<le> buffered_messages (sy_config s)
     \<and> length (sy_updates s) \<le> buffered_updates (sy_config s)
     \<and> 0 < buffered_messages (sy_config s) \<and> fits_u64 (buffered_updates (sy_config s))"


lemma spans_append: "spans a (ms @ [m]) e \<longleftrightarrow> spans a ms (pd_start m) \<and> e = pd_start m + pd_len m"
  by (induction ms arbitrary: a) auto

lemma chained_append:
  "chained (ms @ [m]) \<longleftrightarrow> chained ms \<and> (\<forall>p. last_opt ms = Some p \<longrightarrow>
     sr_last (pd_range p) < sr_last (pd_range m) \<and> continues (pd_range m) (sr_last (pd_range p)))"
  by (induction ms rule: chained.induct) (auto simp: last_opt_def)

lemma spans_bound: "spans a ms e \<Longrightarrow> m \<in> set ms \<Longrightarrow> pd_start m + pd_len m \<le> e"
proof (induction ms arbitrary: a)
  case (Cons n ms)
  have "spans b ks e \<Longrightarrow> b \<le> e" for b ks by (induction ks arbitrary: b) force+
  then show ?case using Cons by auto
qed simp

lemma restart_buffer_sel [simp]:
  "sy_book (restart_buffer s) = sy_book s" "sy_state (restart_buffer s) = sy_state s"
  "sy_pending (restart_buffer s) = []" "sy_updates (restart_buffer s) = []"
  "sy_config (restart_buffer s) = sy_config s"
  by (simp_all add: restart_buffer_def)

lemma invalidate_sel [simp]:
  "sy_book (invalidate s) = book_clear (sy_book s)" "sy_state (invalidate s) = AwaitingSnapshot"
  "sy_pending (invalidate s) = []" "sy_updates (invalidate s) = []" "sy_config (invalidate s) = sy_config s"
  by (simp_all add: invalidate_def)

lemma bump_stale_sel [simp]:
  "sy_book (bump_stale s) = sy_book s" "sy_state (bump_stale s) = sy_state s"
  "sy_pending (bump_stale s) = sy_pending s" "sy_updates (bump_stale s) = sy_updates s"
  "sy_config (bump_stale s) = sy_config s"
  by (simp_all add: bump_stale_def)

definition config_ok :: "sync_config \<Rightarrow> bool" where
  "config_ok c \<longleftrightarrow> 0 < buffered_messages c \<and> fits_u64 (buffered_updates c)"

lemma sync_inv_config: "sync_inv s \<Longrightarrow> config_ok (sy_config s)"
  by (simp add: sync_inv_def config_ok_def)

lemma invalidate_inv: "book_inv (sy_book s) \<Longrightarrow> config_ok (sy_config s) \<Longrightarrow> sync_inv (invalidate s)"
  by (simp add: sync_inv_def book_clear_inv config_ok_def)

lemma restart_inv: "sync_inv s \<Longrightarrow> sy_state s = AwaitingSnapshot \<Longrightarrow> sync_inv (restart_buffer s)"
  by (simp add: sync_inv_def)

lemma sync_new_inv:
  "sync_new cfg = Ok s \<Longrightarrow> fits_u64 (buffered_updates cfg) \<Longrightarrow> sync_inv s \<and> sy_state s = AwaitingSnapshot"
  using book_new_inv [of "levels_per_side cfg"]
  by (auto simp: sync_new_def sync_inv_def result_simps book_new_def ladder_new_def book_clear_def ladder_clear_def
      split: if_splits)

subsection \<open>Buffering\<close>

lemma buffer_updates_eq:
  "buffer_updates us s =
     (if length (sy_updates s @ us) \<le> buffered_updates (sy_config s) \<or> us = []
      then (True, s\<lparr>sy_updates := sy_updates s @ us\<rparr>) else (False, restart_buffer s))"
proof (induction us arbitrary: s)
  case (Cons u us)
  show ?case using Cons [of "s\<lparr>sy_updates := sy_updates s @ [u]\<rparr>"]
    by (cases us) (auto simp: restart_buffer_def)
qed simp

definition make_room :: "book_sync \<Rightarrow> book_sync" where
  "make_room s = (if length (sy_pending s) \<ge> buffered_messages (sy_config s) then restart_buffer s else s)"

lemma buffer_store_eq:
  "buffer_store r us s =
     (let s1 = make_room s in
      (Buffered,
       if length (sy_updates s1 @ us) \<le> buffered_updates (sy_config s1) \<or> us = []
       then s1\<lparr>sy_updates := sy_updates s1 @ us,
               sy_pending := sy_pending s1 @ [\<lparr>pd_range = r, pd_start = length (sy_updates s1), pd_len = length us\<rparr>]\<rparr>
       else restart_buffer s1))"
  by (simp add: buffer_store_def make_room_def buffer_updates_eq Let_def)

lemma make_room_props:
  assumes "sync_inv s" "sy_state s = AwaitingSnapshot"
  shows "sync_inv (make_room s)" "sy_state (make_room s) = AwaitingSnapshot"
    "length (sy_pending (make_room s)) < buffered_messages (sy_config s)" "sy_config (make_room s) = sy_config s"
    "sy_book (make_room s) = sy_book s"
    "sy_pending (make_room s) = sy_pending s \<and> sy_updates (make_room s) = sy_updates s \<or>
     sy_pending (make_room s) = [] \<and> sy_updates (make_room s) = []"
  using assms restart_inv [OF assms] by (auto simp: make_room_def sync_inv_def)

definition linkable :: "seq_range \<Rightarrow> pending_msg list \<Rightarrow> bool" where
  "linkable r ms \<longleftrightarrow> (\<forall>p. last_opt ms = Some p \<longrightarrow> sr_last (pd_range p) < sr_last r \<and> continues r (sr_last (pd_range p)))"

lemma linkable_Nil [simp]: "linkable r []"
  by (simp add: linkable_def last_opt_def)

lemma buffer_store_inv:
  assumes "sync_inv s" "sy_state s = AwaitingSnapshot" "linkable r (sy_pending s)"
  shows "sync_inv (snd (buffer_store r us s)) \<and> sy_state (snd (buffer_store r us s)) = AwaitingSnapshot"
proof -
  let ?s1 = "make_room s"
  note M = make_room_props [OF assms(1,2)]
  have link: "linkable r (sy_pending ?s1)" using M(6) assms(3) by auto
  show ?thesis
  proof (cases "length (sy_updates ?s1 @ us) \<le> buffered_updates (sy_config ?s1) \<or> us = []")
    case True
    then show ?thesis using M link
      by (auto simp: buffer_store_eq Let_def sync_inv_def spans_append chained_append linkable_def)
  next
    case False
    then show ?thesis using M restart_inv [OF M(1,2)] by (simp add: buffer_store_eq Let_def)
  qed
qed

lemma buffer_cases:
  assumes "buffer r us s = (out, s')"
  obtains (stale) "out = Stale" "s' = bump_stale s"
    | (store) s0 where "(out, s') = buffer_store r us s0" "linkable r (sy_pending s0)"
        "s0 = s \<or> s0 = restart_buffer s"
proof (cases "last_opt (sy_pending s)")
  case None
  then show ?thesis using assms by (intro store [of s]) (auto simp: buffer_def linkable_def)
next
  case (Some p)
  consider "sr_last r \<le> sr_last (pd_range p)" | "\<not> sr_last r \<le> sr_last (pd_range p)" "continues r (sr_last (pd_range p))"
    | "\<not> sr_last r \<le> sr_last (pd_range p)" "\<not> continues r (sr_last (pd_range p))" by blast
  then show ?thesis
  proof cases
    case 1
    then show ?thesis using assms Some by (intro stale) (auto simp: buffer_def)
  next
    case 2
    then show ?thesis using assms Some by (intro store [of s]) (auto simp: buffer_def linkable_def)
  next
    case 3
    then show ?thesis using assms Some by (intro store [of "restart_buffer s"]) (auto simp: buffer_def)
  qed
qed

lemma bump_stale_inv: "sync_inv s \<Longrightarrow> sync_inv (bump_stale s)"
  by (auto simp: sync_inv_def split: sync_state.splits)

lemma buffer_inv:
  assumes "sync_inv s" "sy_state s = AwaitingSnapshot" "buffer r us s = (out, s')"
  shows "sync_inv s' \<and> sy_state s' = AwaitingSnapshot"
  using assms(3)
proof (cases rule: buffer_cases)
  case stale
  then show ?thesis using assms bump_stale_inv by simp
next
  case (store s0)
  have "sync_inv s0" "sy_state s0 = AwaitingSnapshot" using store(3) assms restart_inv by auto
  then show ?thesis using buffer_store_inv [of s0 r us] store(1,2) by (metis snd_conv)
qed


subsection \<open>The handlers keep the invariant\<close>

lemma check_crossed_eq:
  "check_crossed s = (if is_crossed (sy_book s) then
     (Err (Crossed (lv_price (the (best_bid (sy_book s)))) (lv_price (the (best_ask (sy_book s))))), invalidate s)
     else (Ok (), s))"
  by (auto simp: check_crossed_def is_crossed_def split: option.splits)

lemma apply_all_eq: "apply_all us s = (fst (run_steps book_apply us (sy_book s)), s\<lparr>sy_book := snd (run_steps book_apply us (sy_book s))\<rparr>)"
  by (simp add: apply_all_def split: prod.split)

text \<open>The outcomes of a delta on a live book.\<close>

lemma on_delta_Live_cases:
  assumes "sy_state s = Live n" "on_delta r us s = (res, s')"
  obtains (stale) "sr_last r \<le> n" "res = Ok Stale" "s' = bump_stale s"
    | (gap) "n < sr_last r" "\<not> continues r n" "res = Err (Gap (sat_u64 (n + 1)) r)" "s' = snd (buffer r us (invalidate s))"
    | (bad) e b where "n < sr_last r" "continues r n" "run_steps book_apply us (sy_book s) = (Err e, b)"
        "res = Err (BookErr e)" "s' = invalidate (s\<lparr>sy_book := b\<rparr>)"
    | (crossed) b bid ask where "n < sr_last r" "continues r n" "run_steps book_apply us (sy_book s) = (Ok (), b)"
        "is_crossed b" "res = Err (Crossed bid ask)" "s' = invalidate (s\<lparr>sy_book := b, sy_state := Live (sr_last r)\<rparr>)"
    | (applied) b where "n < sr_last r" "continues r n" "run_steps book_apply us (sy_book s) = (Ok (), b)"
        "\<not> is_crossed b" "res = Ok Applied" "s' = s\<lparr>sy_book := b, sy_state := Live (sr_last r)\<rparr>"
proof -
  obtain r1 b where run: "run_steps book_apply us (sy_book s) = (r1, b)"
    by (cases "run_steps book_apply us (sy_book s)")
  show ?thesis
  proof (cases "sr_last r \<le> n \<or> \<not> continues r n")
    case True
    then show ?thesis using assms stale gap by (cases "sr_last r \<le> n") (auto simp: on_delta_def)
  next
    case live: False
    show ?thesis
    proof (cases r1)
      case (Err e)
      then show ?thesis using assms live run bad [of e b] by (simp add: on_delta_def apply_all_eq)
    next
      case (Ok u)
      then show ?thesis using assms live run crossed [of b] applied [of b]
        by (cases "is_crossed b") (auto simp: on_delta_def apply_all_eq check_crossed_eq)
    qed
  qed
qed

lemma on_delta_inv:
  assumes inv: "sync_inv s" and step: "on_delta r us s = (res, s')"
  shows "sync_inv s'"
proof (cases "sy_state s")
  case AwaitingSnapshot
  then show ?thesis using buffer_inv [OF inv] step by (auto simp: on_delta_def split: prod.splits)
next
  case (Live n)
  note c = sync_inv_config [OF inv]
  have b: "book_inv (sy_book s)" "sy_pending s = []" "sy_updates s = []" using inv Live by (auto simp: sync_inv_def)
  from Live step show ?thesis
  proof (cases rule: on_delta_Live_cases)
    case stale
    then show ?thesis using inv bump_stale_inv by simp
  next
    case gap
    then show ?thesis using buffer_inv [OF invalidate_inv [OF b(1) c]] by (metis invalidate_sel(2) prod.collapse)
  next
    case (bad e b')
    then show ?thesis using book_store.run_inv [OF b(1) bad(3)] c by (simp add: invalidate_inv)
  next
    case (crossed b')
    then show ?thesis using book_store.run_inv [OF b(1) crossed(3)] c by (simp add: invalidate_inv)
  next
    case (applied b')
    then show ?thesis using book_store.run_inv [OF b(1) applied(3)] inv b by (simp add: sync_inv_def)
  qed
qed

text \<open>What the replay leaves: on success only the book has changed.\<close>

lemma replay_pending_frame:
  assumes "book_inv (sy_book s)" "replay_pending seq ms cursor s = (res, s')"
  shows "(\<forall>c. res = Ok c \<longrightarrow> s' = s\<lparr>sy_book := sy_book s'\<rparr> \<and> book_inv (sy_book s') \<and> cursor \<le> c)
    \<and> (\<forall>e. res = Err e \<longrightarrow> (\<exists>b. book_inv b \<and>
         (s' = invalidate (s\<lparr>sy_book := b\<rparr>) \<or> s' = s\<lparr>sy_book := book_clear b, sy_state := AwaitingSnapshot\<rparr>)))"
  using assms
proof (induction ms arbitrary: cursor s)
  case (Cons m ms)
  obtain r1 b where run: "run_steps book_apply (message_updates m (sy_updates s)) (sy_book s) = (r1, b)"
    by (cases "run_steps book_apply (message_updates m (sy_updates s)) (sy_book s)")
  have b: "book_inv b" using book_store.run_inv [OF Cons.prems(1) run] .
  consider (skip) "sr_last (pd_range m) \<le> cursor"
    | (old) "cursor < sr_last (pd_range m)" "\<not> continues (pd_range m) cursor"
    | (bad) e where "cursor < sr_last (pd_range m)" "continues (pd_range m) cursor" "r1 = Err e"
    | (ok) "cursor < sr_last (pd_range m)" "continues (pd_range m) cursor" "r1 = Ok ()"
    by (cases r1) force+
  then show ?case
  proof cases
    case skip
    then have "replay_pending seq ms cursor s = (res, s')" using Cons.prems(2) by simp
    from Cons.IH [OF Cons.prems(1) this] show ?thesis .
  next
    case old
    then show ?thesis using Cons.prems by (auto intro!: exI [of _ "sy_book s"])
  next
    case bad
    then show ?thesis using Cons.prems(2) run b by auto
  next
    case ok
    then have "replay_pending seq ms (sr_last (pd_range m)) (s\<lparr>sy_book := b\<rparr>) = (res, s')"
      using Cons.prems(2) run by simp
    with Cons.IH [of "s\<lparr>sy_book := b\<rparr>" "sr_last (pd_range m)"] b ok show ?thesis by fastforce
  qed
qed auto


text \<open>The outcomes of a snapshot.\<close>

lemma on_snapshot_cases:
  assumes inv: "sync_inv s" and step: "on_snapshot seq bids asks s = (res, s')"
  obtains (older) n where "sy_state s = Live n" "seq < n" "res = Ok False" "s' = s"
    | (bad_load) e where "res = Err (BookErr e)" "s' = invalidate s"
    | (bad_replay) e b where "res = Err e" "book_inv b" "s' = invalidate (s\<lparr>sy_book := b\<rparr>)"
    | (too_old) e b where "res = Err e" "book_inv b" "s' = s\<lparr>sy_book := book_clear b, sy_state := AwaitingSnapshot\<rparr>"
    | (crossed) e b where "res = Err e" "book_inv b" "s' = invalidate (s\<lparr>sy_book := b\<rparr>)"
    | (used) b0 c b where "res = Ok True" "book_load bids asks (sy_book s) = (Ok (), b0)"
        "replay_pending seq (sy_pending s) seq (s\<lparr>sy_book := b0\<rparr>) = (Ok c, s\<lparr>sy_book := b\<rparr>)"
        "book_inv b" "\<not> is_crossed b" "seq \<le> c"
        "s' = s\<lparr>sy_book := b, sy_pending := [], sy_updates := [], sy_state := Live c\<rparr>"
        "\<forall>n. sy_state s = Live n \<longrightarrow> n \<le> seq"
proof (cases "case sy_state s of Live n \<Rightarrow> seq < n | AwaitingSnapshot \<Rightarrow> False")
  case True
  then obtain n where n: "sy_state s = Live n" "seq < n" by (cases "sy_state s") auto
  have "(res, s') = (Ok False, s)" using True step by (simp only: on_snapshot_def if_True)
  then show ?thesis using older [OF n] by simp
next
  case go: False
  have binv: "book_inv (sy_book s)" using inv by (simp add: sync_inv_def)
  obtain r0 b0 where load: "book_load bids asks (sy_book s) = (r0, b0)" by (cases "book_load bids asks (sy_book s)")
  show ?thesis
  proof (cases r0)
    case (Err e)
    have "invalidate (s\<lparr>sy_book := b0\<rparr>) = invalidate s"
      using book_load_Err [OF load [unfolded Err]] by (simp add: invalidate_def)
    then show ?thesis using step go load Err bad_load [of e] by (simp add: on_snapshot_def)
  next
    case (Ok u)
    obtain r1 s1 where rep: "replay_pending seq (sy_pending s) seq (s\<lparr>sy_book := b0\<rparr>) = (r1, s1)"
      by (cases "replay_pending seq (sy_pending s) seq (s\<lparr>sy_book := b0\<rparr>)")
    have "book_inv (sy_book (s\<lparr>sy_book := b0\<rparr>))" using book_load_inv [OF binv load] by simp
    note frame = replay_pending_frame [OF this rep]
    show ?thesis
    proof (cases r1)
      case (Err e)
      then have res: "res = Err e" "s' = s1" using step go load Ok rep by (auto simp: on_snapshot_def)
      obtain b where "book_inv b" "s1 = invalidate (s\<lparr>sy_book := b\<rparr>) \<or> s1 = s\<lparr>sy_book := book_clear b, sy_state := AwaitingSnapshot\<rparr>"
        using frame Err by (fastforce simp: invalidate_def)
      then show ?thesis using bad_replay [OF res(1)] too_old [OF res(1)] res(2) by blast
    next
      case r1: (Ok c)
      then have "s1 = s\<lparr>sy_book := sy_book s1\<rparr> \<and> book_inv (sy_book s1) \<and> seq \<le> c" using frame by simp
      then obtain b where s1: "s1 = s\<lparr>sy_book := b\<rparr>" "book_inv b" "seq \<le> c" by blast
      let ?live = "s\<lparr>sy_book := b, sy_pending := [], sy_updates := [], sy_state := Live c\<rparr>"
      have fin: "(res, s') = (case check_crossed ?live of (Err e, s2) \<Rightarrow> (Err e, s2) | (Ok _, s2) \<Rightarrow> (Ok True, s2))"
        using step go load Ok rep r1 s1(1) by (simp add: on_snapshot_def)
      show ?thesis
      proof (cases "is_crossed b")
        case True
        then obtain e where "res = Err e" "s' = invalidate ?live" using fin by (auto simp: check_crossed_eq)
        moreover have "invalidate ?live = invalidate (s\<lparr>sy_book := b\<rparr>)" by (simp add: invalidate_def)
        ultimately show ?thesis using crossed [OF _ s1(2)] by simp
      next
        case False
        then have "res = Ok True" "s' = ?live" using fin by (auto simp: check_crossed_eq)
        moreover have "\<forall>n. sy_state s = Live n \<longrightarrow> n \<le> seq" using go by (auto split: sync_state.splits)
        ultimately show ?thesis using used [of b0 c b] load Ok rep [unfolded r1 s1(1)] s1(2,3) False by simp
      qed
    qed
  qed
qed

lemma on_snapshot_inv:
  assumes inv: "sync_inv s" and step: "on_snapshot seq bids asks s = (res, s')"
  shows "sync_inv s'"
  using inv step
proof (cases rule: on_snapshot_cases)
  case (bad_load e)
  moreover have "book_inv (sy_book s)" using inv by (simp add: sync_inv_def)
  ultimately show ?thesis using sync_inv_config [OF inv] by (simp add: invalidate_inv)
next
  case (bad_replay e b)
  then show ?thesis using sync_inv_config [OF inv] by (simp add: invalidate_inv)
next
  case (too_old e b)
  then show ?thesis using inv by (simp add: sync_inv_def book_clear_inv)
next
  case (crossed e b)
  then show ?thesis using sync_inv_config [OF inv] by (simp add: invalidate_inv)
next
  case (used b0 c b)
  then show ?thesis using inv by (simp add: sync_inv_def)
qed (use inv in simp)

section \<open>The feed and the book agree\<close>

text \<open>
  A venue is its book after every sequence number, and the prices its snapshots reach: a venue
  sends a snapshot of so many levels, and what lies beyond them it does not tell.  A delta tells
  the truth when, applied to the venue's book at any number it continues from, it gives the book
  at its last number: levels carry absolute quantities, so overlap is harmless.  A snapshot
  tells the truth when it is the venue's book at its number, at the prices it reaches.
\<close>

record venue =
  ve_reach :: "side \<Rightarrow> price \<Rightarrow> bool"
  ve_depths :: "nat \<Rightarrow> depths"

definition same_on :: "(side \<Rightarrow> price \<Rightarrow> bool) \<Rightarrow> depths \<Rightarrow> depths \<Rightarrow> bool" where
  "same_on R m m' \<longleftrightarrow> (\<forall>sd p. R sd p \<longrightarrow> m sd p = m' sd p)"

definition true_delta :: "venue \<Rightarrow> seq_range \<Rightarrow> level_update list \<Rightarrow> bool" where
  "true_delta V r us \<longleftrightarrow> fits_u64 (sr_last r) \<and>
     (\<forall>n. sr_first r \<le> n + 1 \<and> n \<le> sr_last r \<longrightarrow> fold update_depths us (ve_depths V n) = ve_depths V (sr_last r))"

definition true_snapshot :: "venue \<Rightarrow> nat \<Rightarrow> level list \<Rightarrow> level list \<Rightarrow> bool" where
  "true_snapshot V seq bids asks \<longleftrightarrow> same_on (ve_reach V) (snapshot_depths bids asks) (ve_depths V seq)"

text \<open>
  A book shows the venue's book at a number when, at every price that the snapshots reach and
  that the book has not given up, it holds the venue's quantity, or none where the venue has
  none.
\<close>

definition shows_venue :: "venue \<Rightarrow> nat \<Rightarrow> book \<Rightarrow> bool" where
  "shows_venue V n b \<longleftrightarrow> (\<forall>sd p. ve_reach V sd p \<and> \<not> beyond_horizon (book_side sd b) p \<longrightarrow>
     level_map (lad_levels (book_side sd b)) p = ve_depths V n sd p)"

definition agrees :: "venue \<Rightarrow> book_sync \<Rightarrow> bool" where
  "agrees V s \<longleftrightarrow>
     (\<forall>n. sy_state s = Live n \<longrightarrow> shows_venue V n (sy_book s))
     \<and> (\<forall>m \<in> set (sy_pending s). true_delta V (pd_range m) (message_updates m (sy_updates s)))"

lemma shows_venue_exact: "shows_venue V n b \<longleftrightarrow> (\<exists>m. book_exact b m \<and> same_on (ve_reach V) m (ve_depths V n))"
proof
  assume "shows_venue V n b"
  then show "\<exists>m. book_exact b m \<and> same_on (ve_reach V) m (ve_depths V n)"
    by (intro exI [of _ "\<lambda>sd p. if ve_reach V sd p then ve_depths V n sd p else level_map (lad_levels (book_side sd b)) p"])
      (auto simp: shows_venue_def book_exact_side exact_def same_on_def)
qed (auto simp: shows_venue_def book_exact_side exact_def same_on_def)

lemma same_on_update: "same_on R m m' \<Longrightarrow> same_on R (update_depths u m) (update_depths u m')"
  by (auto simp: same_on_def update_depths_def set_level_def)

lemma same_on_updates: "same_on R m m' \<Longrightarrow> same_on R (fold update_depths us m) (fold update_depths us m')"
  by (induction us arbitrary: m m') (simp_all add: same_on_update)

lemma shows_venue_updates:
  assumes "book_inv b" "shows_venue V n b" "run_steps book_apply us b = (Ok (), b')"
    and next_book: "fold update_depths us (ve_depths V n) = ve_depths V n'"
  shows "shows_venue V n' b'"
proof -
  obtain m where m: "book_exact b m" "same_on (ve_reach V) m (ve_depths V n)" using assms(2) shows_venue_exact by blast
  show ?thesis unfolding shows_venue_exact
    using book_store.run_follows [OF assms(1) m(1) assms(3)] same_on_updates [OF m(2), of us] next_book by auto
qed

lemma continues_next: "continues r n \<Longrightarrow> sr_first r \<le> n + 1"
  by (rule order_trans [OF _ sat_u64_le]) (simp add: continues_def)

lemma true_delta_apply:
  "true_delta V r us \<Longrightarrow> n < sr_last r \<Longrightarrow> continues r n \<Longrightarrow> fold update_depths us (ve_depths V n) = ve_depths V (sr_last r)"
  using continues_next [of r n] by (simp add: true_delta_def)

lemma replay_pending_shows:
  assumes "book_inv (sy_book s)" "shows_venue V cursor (sy_book s)"
    "\<forall>m \<in> set ms. true_delta V (pd_range m) (message_updates m (sy_updates s))"
    "replay_pending seq ms cursor s = (Ok c, s')"
  shows "shows_venue V c (sy_book s')"
  using assms
proof (induction ms arbitrary: cursor s)
  case (Cons m ms)
  show ?case
  proof (cases "sr_last (pd_range m) \<le> cursor")
    case True
    then show ?thesis using Cons by simp
  next
    case False
    from Cons.prems(4) False obtain b where b:
      "run_steps book_apply (message_updates m (sy_updates s)) (sy_book s) = (Ok (), b)" "continues (pd_range m) cursor"
      "replay_pending seq ms (sr_last (pd_range m)) (s\<lparr>sy_book := b\<rparr>) = (Ok c, s')"
      by (auto split: if_splits prod.splits result.splits)
    have "fold update_depths (message_updates m (sy_updates s)) (ve_depths V cursor) = ve_depths V (sr_last (pd_range m))"
      using Cons.prems(3) False b(2) by (intro true_delta_apply) auto
    then have "shows_venue V (sr_last (pd_range m)) b" by (rule shows_venue_updates [OF Cons.prems(1,2) b(1)])
    moreover have "book_inv b" using book_store.run_inv [OF Cons.prems(1) b(1)] .
    ultimately show ?thesis
      using Cons.IH [of "s\<lparr>sy_book := b\<rparr>" "sr_last (pd_range m)"] Cons.prems(3) b(3) by simp
  qed
qed simp


lemma message_updates_fits:
  "fits_u64 (pd_start m + pd_len m) \<Longrightarrow> message_updates m ups = take (pd_len m) (drop (pd_start m) ups)"
  by (simp add: message_updates_def sat_u64_id)

lemma fits_u64_le: "fits_u64 b \<Longrightarrow> a \<le> b \<Longrightarrow> fits_u64 a"
  by (simp add: range_defs)

lemma message_updates_old:
  assumes "pd_start m + pd_len m \<le> length ups" "fits_u64 (length ups)"
  shows "message_updates m (ups @ us) = message_updates m ups"
  using assms message_updates_fits [OF fits_u64_le [OF assms(2,1)]] by simp

lemma buffer_store_agrees:
  assumes inv: "sync_inv s" and wait: "sy_state s = AwaitingSnapshot" and ag: "agrees V s" and true: "true_delta V r us"
  shows "agrees V (snd (buffer_store r us s))"
proof -
  let ?s1 = "make_room s"
  note M = make_room_props [OF inv wait]
  let ?ups = "sy_updates ?s1"
  have ag1: "\<forall>m \<in> set (sy_pending ?s1). true_delta V (pd_range m) (message_updates m ?ups)"
    using M(6) ag by (auto simp: agrees_def)
  have room: "length ?ups \<le> buffered_updates (sy_config ?s1)" "fits_u64 (buffered_updates (sy_config ?s1))"
    "spans 0 (sy_pending ?s1) (length ?ups)" using M(1) by (auto simp: sync_inv_def)
  show ?thesis
  proof (cases "length (?ups @ us) \<le> buffered_updates (sy_config ?s1) \<or> us = []")
    case True
    let ?new = "\<lparr>pd_range = r, pd_start = length ?ups, pd_len = length us\<rparr>"
    have "fits_u64 (length ?ups + length us)"
      using True room by (intro fits_u64_le [OF room(2)]) auto
    then have "message_updates ?new (?ups @ us) = us" by (simp add: message_updates_fits)
    moreover have "message_updates m (?ups @ us) = message_updates m ?ups" if "m \<in> set (sy_pending ?s1)" for m
      using spans_bound [OF room(3) that] fits_u64_le [OF room(2,1)] by (rule message_updates_old)
    ultimately have "\<forall>m \<in> set (sy_pending ?s1 @ [?new]). true_delta V (pd_range m) (message_updates m (?ups @ us))"
      using ag1 true by auto
    then show ?thesis using True M(2) by (simp add: buffer_store_eq Let_def agrees_def)
  next
    case False
    then show ?thesis using M(2) by (auto simp: buffer_store_eq Let_def agrees_def)
  qed
qed

lemma buffer_agrees:
  assumes inv: "sync_inv s" and wait: "sy_state s = AwaitingSnapshot" and ag: "agrees V s" and true: "true_delta V r us"
    and buf: "buffer r us s = (out, s')"
  shows "agrees V s'"
  using buf
proof (cases rule: buffer_cases)
  case stale
  then show ?thesis using ag by (simp add: agrees_def)
next
  case (store s0)
  have "agrees V (restart_buffer s)" using wait by (simp add: agrees_def)
  then have "agrees V (snd (buffer_store r us s0))"
    using store(3) inv wait ag restart_inv [OF inv wait] true by (auto intro!: buffer_store_agrees)
  then show ?thesis using store(1) by (metis snd_conv)
qed

lemma invalidate_agrees [simp]: "agrees V (invalidate s)"
  by (simp add: agrees_def)

lemma on_delta_agrees:
  assumes inv: "sync_inv s" and ag: "agrees V s" and true: "true_delta V r us" and step: "on_delta r us s = (res, s')"
  shows "agrees V s'"
proof (cases "sy_state s")
  case AwaitingSnapshot
  then show ?thesis using buffer_agrees [OF inv _ ag true] step by (auto simp: on_delta_def split: prod.splits)
next
  case (Live n)
  have b: "book_inv (sy_book s)" "sy_pending s = []" using inv Live by (auto simp: sync_inv_def)
  from Live step show ?thesis
  proof (cases rule: on_delta_Live_cases)
    case stale
    then show ?thesis using ag by (simp add: agrees_def)
  next
    case gap
    obtain out s1 where buf: "buffer r us (invalidate s) = (out, s1)" by (cases "buffer r us (invalidate s)")
    then show ?thesis
      using buffer_agrees [OF invalidate_inv [OF b(1) sync_inv_config [OF inv]] _ _ true buf] gap(4) by simp
  next
    case (applied b')
    have "shows_venue V n (sy_book s)" using ag Live by (simp add: agrees_def)
    from shows_venue_updates [OF b(1) this applied(3) true_delta_apply [OF true applied(1,2)]]
    show ?thesis using applied(6) b(2) by (simp add: agrees_def)
  qed simp_all
qed

lemma on_snapshot_agrees:
  assumes inv: "sync_inv s" and ag: "agrees V s" and true: "true_snapshot V seq bids asks"
    and step: "on_snapshot seq bids asks s = (res, s')"
  shows "agrees V s'"
  using inv step
proof (cases rule: on_snapshot_cases)
  case (used b0 c b)
  have "book_inv (sy_book s)" using inv by (simp add: sync_inv_def)
  note L = book_load_Ok [OF this used(2)]
  have "shows_venue V c (sy_book (s\<lparr>sy_book := b\<rparr>))"
    using L ag true by (intro replay_pending_shows [OF _ _ _ used(3)]) (auto simp: agrees_def true_snapshot_def shows_venue_exact)
  then show ?thesis using used(7) by (simp add: agrees_def)
qed (use ag in \<open>simp_all add: agrees_def\<close>)

subsection \<open>Reachable states\<close>

datatype sync_input =
    Delta seq_range "level_update list"
  | Snapshot nat "level list" "level list"
  | Reset

fun sync_step :: "sync_input \<Rightarrow> book_sync \<Rightarrow> book_sync" where
  "sync_step (Delta r us) s = snd (on_delta r us s)"
| "sync_step (Snapshot seq bids asks) s = snd (on_snapshot seq bids asks s)"
| "sync_step Reset s = reset s"

fun true_input :: "venue \<Rightarrow> sync_input \<Rightarrow> bool" where
  "true_input V (Delta r us) \<longleftrightarrow> true_delta V r us"
| "true_input V (Snapshot seq bids asks) \<longleftrightarrow> true_snapshot V seq bids asks"
| "true_input V Reset \<longleftrightarrow> True"

text \<open>States reached from a new sync by any inputs, and by inputs that tell the truth.\<close>

inductive sync_reach :: "(sync_input \<Rightarrow> bool) \<Rightarrow> book_sync \<Rightarrow> bool" for P where
  start: "sync_new cfg = Ok s \<Longrightarrow> fits_u64 (buffered_updates cfg) \<Longrightarrow> sync_reach P s"
| step: "sync_reach P s \<Longrightarrow> P i \<Longrightarrow> sync_reach P (sync_step i s)"

inductive_cases sync_reachE: "sync_reach P s"

lemma sync_step_inv: "sync_inv s \<Longrightarrow> sync_inv (sync_step i s)"
proof (cases i)
  case (Delta r us)
  assume "sync_inv s"
  then show ?thesis using Delta on_delta_inv [of s r us] by (cases "on_delta r us s") auto
next
  case (Snapshot seq bids asks)
  assume "sync_inv s"
  then show ?thesis using Snapshot on_snapshot_inv [of s seq bids asks] by (cases "on_snapshot seq bids asks s") auto
next
  case Reset
  assume inv: "sync_inv s"
  then have "book_inv (sy_book s)" by (simp add: sync_inv_def)
  then show ?thesis using Reset sync_inv_config [OF inv] by (simp add: reset_def invalidate_inv)
qed

lemma sync_reach_inv: "sync_reach P s \<Longrightarrow> sync_inv s"
  by (induction rule: sync_reach.induct) (auto dest: sync_new_inv intro: sync_step_inv)

lemma sync_step_agrees: "sync_inv s \<Longrightarrow> agrees V s \<Longrightarrow> true_input V i \<Longrightarrow> agrees V (sync_step i s)"
proof (cases i)
  case (Delta r us)
  assume "sync_inv s" "agrees V s" "true_input V i"
  then show ?thesis using Delta on_delta_agrees [of s V r us] by (cases "on_delta r us s") auto
next
  case (Snapshot seq bids asks)
  assume "sync_inv s" "agrees V s" "true_input V i"
  then show ?thesis using Snapshot on_snapshot_agrees [of s V seq bids asks]
    by (cases "on_snapshot seq bids asks s") auto
qed (simp add: reset_def)

lemma sync_reach_agrees: "sync_reach (true_input V) s \<Longrightarrow> agrees V s"
proof (induction rule: sync_reach.induct)
  case (start cfg s)
  then have "sy_state s = AwaitingSnapshot" "sy_pending s = []"
    by (auto simp: sync_new_def result_simps split: if_splits)
  then show ?case by (simp add: agrees_def)
next
  case (step s i)
  then show ?case using sync_step_agrees sync_reach_inv by blast
qed

section \<open>Properties\<close>

text \<open>C1: Fed any deltas and snapshots that tell the truth about a venue, in any order and with any
  losses, duplicates and resets, a readable book shows the venue's book at the sequence number
  the sync reports: at every price that the snapshots reach and the book has not given up for
  lack of room, it holds exactly the venue's quantity.\<close>

theorem live_book_is_true:
  assumes "sync_reach (true_input V) s" "sync_book s = Some b" "last_seq s = Some n"
  shows "book_inv b \<and> shows_venue V n b"
  using sync_reach_inv [OF assms(1)] sync_reach_agrees [OF assms(1)] assms(2,3)
  by (auto simp: sync_book_def last_seq_def agrees_def sync_inv_def split: sync_state.splits)

text \<open>A session on a small book: a delta arrives first and is buffered, then the snapshot, then
  a delta that overlaps what is known.  The snapshot leaves out a bid of the venue at 90.\<close>

definition demo_config :: sync_config where
  "demo_config = \<lparr>levels_per_side = 4, buffered_messages = 2, buffered_updates = 4\<rparr>"

definition demo_start :: book_sync where
  "demo_start = \<lparr>sy_book = \<lparr>bk_bids = \<lparr>lad_side = Buy, lad_levels = [], lad_capacity = 4, lad_horizon = None\<rparr>,
       bk_asks = \<lparr>lad_side = Sell, lad_levels = [], lad_capacity = 4, lad_horizon = None\<rparr>\<rparr>,
     sy_state = AwaitingSnapshot, sy_pending = [], sy_updates = [], sy_config = demo_config,
     sy_stats = \<lparr>invalidations = 0, buffer_resets = 0, stale_deltas = 0\<rparr>\<rparr>"

definition demo_depths :: "nat \<Rightarrow> depths" where
  "demo_depths n s = (case s of
       Buy \<Rightarrow> (if n < 6 then [90 \<mapsto> 1, 99 \<mapsto> 5] else [90 \<mapsto> 1, 99 \<mapsto> 7])
     | Sell \<Rightarrow> (if n < 7 then [101 \<mapsto> 3] else Map.empty))"

definition demo_venue :: venue where
  "demo_venue = \<lparr>ve_reach = (\<lambda>sd p. sd = Sell \<or> 95 \<le> p), ve_depths = demo_depths\<rparr>"

definition demo_inputs :: "sync_input list" where
  "demo_inputs =
     [Delta \<lparr>sr_first = 6, sr_last = 6\<rparr> [\<lparr>lu_side = Buy, lu_price = 99, lu_qty = 7\<rparr>],
      Snapshot 5 [\<lparr>lv_price = 99, lv_qty = 5\<rparr>] [\<lparr>lv_price = 101, lv_qty = 3\<rparr>],
      Delta \<lparr>sr_first = 6, sr_last = 7\<rparr>
        [\<lparr>lu_side = Buy, lu_price = 99, lu_qty = 7\<rparr>, \<lparr>lu_side = Sell, lu_price = 101, lu_qty = 0\<rparr>]]"

definition demo_final :: book_sync where
  "demo_final = fold sync_step demo_inputs demo_start"

lemma demo_true: "list_all (true_input demo_venue) demo_inputs"
proof -
  have upd: "fold update_depths [\<lparr>lu_side = Buy, lu_price = 99, lu_qty = 7\<rparr>] (demo_depths n) = demo_depths 6"
    if "6 \<le> n + 1" "n \<le> 6" for n
    using that by (auto simp: update_depths_def set_level_def demo_depths_def fun_eq_iff split: side.split)
  have upd2: "fold update_depths [\<lparr>lu_side = Buy, lu_price = 99, lu_qty = 7\<rparr>, \<lparr>lu_side = Sell, lu_price = 101, lu_qty = 0\<rparr>]
      (demo_depths n) = demo_depths 7" if "6 \<le> n + 1" "n \<le> 7" for n
    using that by (auto simp: update_depths_def set_level_def demo_depths_def fun_eq_iff split: side.split)
  have "true_snapshot demo_venue 5 [\<lparr>lv_price = 99, lv_qty = 5\<rparr>] [\<lparr>lv_price = 101, lv_qty = 3\<rparr>]"
    by (auto simp: true_snapshot_def same_on_def snapshot_depths_def snapshot_map_def demo_venue_def demo_depths_def split: side.split)
  then show ?thesis using upd upd2
    by (simp add: demo_inputs_def true_delta_def demo_venue_def range_defs del: fold_simps)
qed

lemma sync_reach_fold: "sync_reach P s \<Longrightarrow> list_all P is \<Longrightarrow> sync_reach P (fold sync_step is s)"
  by (induction "is" arbitrary: s) (auto intro: sync_reach.step)

lemma demo_reach: "sync_reach (true_input demo_venue) demo_final"
  unfolding demo_final_def
proof (rule sync_reach_fold [OF sync_reach.start demo_true])
  show "sync_new demo_config = Ok demo_start"
    by (simp add: sync_new_def demo_config_def book_new_def ladder_new_def demo_start_def)
qed (simp add: demo_config_def range_defs)

lemmas sync_eval = on_delta_def on_snapshot_def buffer_def buffer_store_def last_opt_def continues_def
  sat_u64_def range_defs book_load_def ladder_load_def load_inner_def ladder_clear_def sort_and_check_def
  message_updates_def book_apply_def ladder_eval check_crossed_def best_bid_def best_ask_def best_def
  apply_all_def last_seq_def sync_book_def

lemma demo_live: "last_seq demo_final = Some 7" "map_option (\<lambda>b. best_bid b) (sync_book demo_final) = Some (Some \<lparr>lv_price = 99, lv_qty = 7\<rparr>)"
  by (simp_all add: demo_final_def demo_inputs_def demo_start_def demo_config_def sync_eval)

theorem live_book_is_true_witness:
  "\<exists>b. sync_book demo_final = Some b \<and> last_seq demo_final = Some 7 \<and> shows_venue demo_venue 7 b"
proof -
  obtain b where b: "sync_book demo_final = Some b" using demo_live(2) by (cases "sync_book demo_final") auto
  from live_book_is_true [OF demo_reach b demo_live(1)] b demo_live(1) show ?thesis by blast
qed

text \<open>C6: The best bid and the best ask of a readable book are the venue's, as long as the snapshots reach
  them and every better price: the venue holds that quantity at that price and nothing better.\<close>

theorem quoted_top_is_true:
  assumes "sync_reach (true_input V) s" "sync_book s = Some b" "last_seq s = Some n"
  shows "(\<forall>l. best_bid b = Some l \<and> (\<forall>p \<ge> lv_price l. ve_reach V Buy p) \<longrightarrow>
      ve_depths V n Buy (lv_price l) = Some (lv_qty l) \<and> (\<forall>p > lv_price l. ve_depths V n Buy p = None))
    \<and> (\<forall>l. best_ask b = Some l \<and> (\<forall>p \<le> lv_price l. ve_reach V Sell p) \<longrightarrow>
      ve_depths V n Sell (lv_price l) = Some (lv_qty l) \<and> (\<forall>p < lv_price l. ve_depths V n Sell p = None))"
proof -
  obtain m where b: "book_inv b" "book_exact b m" "same_on (ve_reach V) m (ve_depths V n)"
    using sync_reach_inv [OF assms(1)] sync_reach_agrees [OF assms(1)] assms(2,3)
    by (auto simp: sync_book_def last_seq_def agrees_def sync_inv_def shows_venue_exact split: sync_state.splits)
  then show ?thesis using best_exact [of "bk_bids b" "m Buy"] best_exact [of "bk_asks b" "m Sell"]
    by (auto simp: book_inv_def book_exact_def best_bid_def best_ask_def same_on_def)
qed

theorem quoted_top_is_true_witness:
  "ve_depths demo_venue 7 Buy 99 = Some 7 \<and> ve_depths demo_venue 7 Buy 100 = None"
proof -
  obtain b where b: "sync_book demo_final = Some b" "best_bid b = Some \<lparr>lv_price = 99, lv_qty = 7\<rparr>"
    using demo_live(2) by (cases "sync_book demo_final") auto
  have "\<forall>p \<ge> 99. ve_reach demo_venue Buy p" by (simp add: demo_venue_def)
  with quoted_top_is_true [OF demo_reach b(1) demo_live(1)] b(2) show ?thesis by simp
qed

text \<open>C7: Whatever the inputs, a readable book is never crossed, a book that is not readable is
  empty, and the buffers stay within their configured sizes.\<close>

theorem sync_always_safe:
  assumes "sync_reach P s"
  shows "(\<forall>b. sync_book s = Some b \<longrightarrow> book_inv b \<and> \<not> is_crossed b)
    \<and> (sync_book s = None \<longrightarrow> sy_book s = book_clear (sy_book s))
    \<and> length (sy_pending s) \<le> buffered_messages (sy_config s)
    \<and> length (sy_updates s) \<le> buffered_updates (sy_config s)
    \<and> (is_live s \<longrightarrow> sy_pending s = [] \<and> sy_updates s = [])"
  using sync_reach_inv [OF assms]
  by (auto simp: sync_inv_def sync_book_def is_live_def split: sync_state.splits)

theorem sync_always_safe_witness:
  "\<exists>b. sync_book demo_final = Some b \<and> book_inv b \<and> \<not> is_crossed b"
proof -
  obtain b where "sync_book demo_final = Some b" using demo_live(2) by (cases "sync_book demo_final") auto
  then show ?thesis using sync_always_safe [OF demo_reach] by blast
qed

text \<open>C8: Every error takes the book down: after a failed delta or snapshot there is no readable
  book, and a delta that leaves a hole after the last applied number always fails with the
  number that was expected.\<close>

theorem sync_errors_take_down:
  assumes "sync_inv s"
  shows "(\<forall>r us e s'. on_delta r us s = (Err e, s') \<longrightarrow> sync_book s' = None)
    \<and> (\<forall>seq bids asks e s'. on_snapshot seq bids asks s = (Err e, s') \<longrightarrow> sync_book s' = None)
    \<and> (\<forall>r us n. sy_state s = Live n \<and> n < sr_last r \<and> n + 1 < sr_first r \<longrightarrow>
         fst (on_delta r us s) = Err (Gap (sat_u64 (n + 1)) r))"
proof (intro conjI allI impI)
  fix r us e s'
  assume step: "on_delta r us s = (Err e, s')"
  show "sync_book s' = None"
  proof (cases "sy_state s")
    case AwaitingSnapshot
    then show ?thesis using step by (auto simp: on_delta_def split: prod.splits)
  next
    case (Live n)
    have b: "book_inv (sy_book s)" using assms by (simp add: sync_inv_def)
    from Live step show ?thesis
    proof (cases rule: on_delta_Live_cases)
      case gap
      have "sy_state (snd (buffer r us (invalidate s))) = AwaitingSnapshot"
        using buffer_inv [OF invalidate_inv [OF b sync_inv_config [OF assms]]] by (metis invalidate_sel(2) prod.collapse)
      then show ?thesis using gap by (simp add: sync_book_def)
    qed (auto simp: sync_book_def)
  qed
next
  fix seq bids asks e s'
  assume "on_snapshot seq bids asks s = (Err e, s')"
  with assms show "sync_book s' = None"
    by (cases rule: on_snapshot_cases) (auto simp: sync_book_def)
next
  fix r :: seq_range and us n
  assume a: "sy_state s = Live n \<and> n < sr_last r \<and> n + 1 < sr_first r"
  then have "\<not> continues r n" using continues_next [of r n] by auto
  then show "fst (on_delta r us s) = Err (Gap (sat_u64 (n + 1)) r)" using a by (simp add: on_delta_def)
qed

theorem sync_errors_take_down_witness:
  "fst (on_delta \<lparr>sr_first = 10, sr_last = 11\<rparr> [] demo_final) = Err (Gap 8 \<lparr>sr_first = 10, sr_last = 11\<rparr>)
   \<and> sync_book (snd (on_delta \<lparr>sr_first = 10, sr_last = 11\<rparr> [] demo_final)) = None"
proof -
  have st: "sy_state demo_final = Live 7" using demo_live(1) by (auto simp: last_seq_def split: sync_state.splits)
  note T = sync_errors_take_down [OF sync_reach_inv [OF demo_reach]]
  have "fst (on_delta \<lparr>sr_first = 10, sr_last = 11\<rparr> [] demo_final) = Err (Gap (sat_u64 (7 + 1)) \<lparr>sr_first = 10, sr_last = 11\<rparr>)"
    using T st by simp
  then show ?thesis using T by (cases "on_delta \<lparr>sr_first = 10, sr_last = 11\<rparr> [] demo_final") (simp add: sat_u64_def range_defs)
qed

text \<open>While the book stays live its sequence number never goes back: a delta it applies moves
  it to the end of the delta's range, a delta it ignores leaves book and number alone, and a
  snapshot never takes it to an older number.\<close>

lemma live_sequence_monotone:
  assumes "sync_inv s" "sy_state s = Live n"
  shows "(on_delta r us s = (Ok Applied, s') \<longrightarrow> last_seq s' = Some (sr_last r) \<and> n < sr_last r \<and> sr_first r \<le> n + 1)
    \<and> (on_delta r us s = (Ok Stale, s') \<longrightarrow> sync_book s' = sync_book s \<and> last_seq s' = Some n)
    \<and> (on_snapshot seq bids asks s = (Ok used, s') \<longrightarrow> (\<exists>m. last_seq s' = Some m \<and> n \<le> m \<and> (\<not> used \<longrightarrow> s' = s)))"
proof (intro conjI; rule impI)
  assume "on_delta r us s = (Ok Applied, s')"
  with assms(2) show "last_seq s' = Some (sr_last r) \<and> n < sr_last r \<and> sr_first r \<le> n + 1"
    by (cases rule: on_delta_Live_cases) (auto simp: last_seq_def dest: continues_next)
next
  assume "on_delta r us s = (Ok Stale, s')"
  with assms(2) show "sync_book s' = sync_book s \<and> last_seq s' = Some n"
    by (cases rule: on_delta_Live_cases) (auto simp: last_seq_def sync_book_def assms(2))
next
  assume "on_snapshot seq bids asks s = (Ok used, s')"
  with assms(1) show "\<exists>m. last_seq s' = Some m \<and> n \<le> m \<and> (\<not> used \<longrightarrow> s' = s)"
    by (cases rule: on_snapshot_cases) (auto simp: last_seq_def assms(2))
qed

end
