(* ===== verification/Ring.thy ===== *)
theory Ring
  imports Core_Types
begin

unbundle bit_operations_syntax

text \<open>
  \<open>crates/bowst-core/src/ring.rs\<close>: the bounded single-producer single-consumer ring.

  Positions and sequence numbers are usize counters that wrap (\<open>64 word\<close>); a slot is its
  sequence number and its value, \<open>None\<close> while uninitialised.  \<open>push\<close> and \<open>pop\<close> are composed of
  the memory accesses the code makes (load of \<open>head\<close>, write of the value, store of \<open>seq\<close>, load
  of \<open>seq\<close>, read of the value, store of \<open>head\<close>).  The same accesses are the steps of an
  interleaving of the two threads, whose release stores and acquire loads are taken to be
  sequentially consistent.
\<close>

section \<open>The ring\<close>

type_synonym usize = "64 word"

record 'a ring =
  rg_slots :: "(usize \<times> 'a option) list"
  rg_mask :: usize
  rg_head :: usize
  rg_ppos :: usize
  rg_cached_head :: usize
  rg_cpos :: usize

datatype ring_error = InvalidCapacity nat
datatype 'a full = Full 'a

fun is_power_of_two :: "nat \<Rightarrow> bool" where
  "is_power_of_two n = (if n \<le> 1 then n = 1 else even n \<and> is_power_of_two (n div 2))"

declare is_power_of_two.simps [simp del]

definition ring_capacity :: "'a ring \<Rightarrow> nat" where
  "ring_capacity r = length (rg_slots r)"

definition ring_channel :: "nat \<Rightarrow> ('a ring, ring_error) result" where
  "ring_channel cap =
     (if cap < 2 \<or> \<not> is_power_of_two cap then Err (InvalidCapacity cap)
      else Ok \<lparr>rg_slots = map (\<lambda>i. (of_nat i - 1, None)) [0..<cap], rg_mask = of_nat cap - 1,
               rg_head = 0, rg_ppos = 0, rg_cached_head = 0, rg_cpos = 0\<rparr>)"

definition slot_index :: "'a ring \<Rightarrow> usize \<Rightarrow> nat" where
  "slot_index r p = unat (p AND rg_mask r)"

definition slot :: "'a ring \<Rightarrow> usize \<Rightarrow> usize \<times> 'a option" where
  "slot r p = rg_slots r ! slot_index r p"

definition set_slot :: "usize \<Rightarrow> usize \<times> 'a option \<Rightarrow> 'a ring \<Rightarrow> 'a ring" where
  "set_slot p sl r = r\<lparr>rg_slots := (rg_slots r)[slot_index r p := sl]\<rparr>"

text \<open>The accesses of the producer.\<close>

definition looks_full :: "'a ring \<Rightarrow> bool" where
  "looks_full r \<longleftrightarrow> unat (rg_ppos r - rg_cached_head r) \<ge> ring_capacity r"

definition refresh_head :: "'a ring \<Rightarrow> 'a ring" where
  "refresh_head r = r\<lparr>rg_cached_head := rg_head r\<rparr>"

definition write_value :: "'a \<Rightarrow> 'a ring \<Rightarrow> 'a ring" where
  "write_value v r = set_slot (rg_ppos r) (fst (slot r (rg_ppos r)), Some v) r"

definition publish :: "'a ring \<Rightarrow> 'a ring" where
  "publish r = (set_slot (rg_ppos r) (rg_ppos r + 1, snd (slot r (rg_ppos r))) r)\<lparr>rg_ppos := rg_ppos r + 1\<rparr>"

definition ring_push :: "'a \<Rightarrow> 'a ring \<Rightarrow> (unit, 'a full) result \<times> 'a ring" where
  "ring_push v r =
     (if looks_full r then
        let r1 = refresh_head r in
        if looks_full r1 then (Err (Full v), r1) else (Ok (), publish (write_value v r1))
      else (Ok (), publish (write_value v r)))"

text \<open>The accesses of the consumer.\<close>

definition ready :: "'a ring \<Rightarrow> bool" where
  "ready r \<longleftrightarrow> fst (slot r (rg_cpos r)) = rg_cpos r + 1"

definition release_slot :: "'a ring \<Rightarrow> 'a ring" where
  "release_slot r = r\<lparr>rg_head := rg_cpos r + 1, rg_cpos := rg_cpos r + 1\<rparr>"

definition ring_pop :: "'a ring \<Rightarrow> 'a option \<times> 'a ring" where
  "ring_pop r = (if \<not> ready r then (None, r) else (snd (slot r (rg_cpos r)), release_slot r))"

definition ring_is_empty :: "'a ring \<Rightarrow> bool" where
  "ring_is_empty r \<longleftrightarrow> fst (slot r (rg_cpos r)) \<noteq> rg_cpos r + 1"

section \<open>Positions and slots\<close>

lemma is_power_of_two_exp: "is_power_of_two n \<Longrightarrow> \<exists>k. n = 2 ^ k"
proof (induction n rule: is_power_of_two.induct)
  case (1 n)
  show ?case
  proof (cases "n = 1")
    case True
    then show ?thesis by (intro exI [of _ 0]) simp
  next
    case False
    then have n: "\<not> n \<le> 1" "even n" "is_power_of_two (n div 2)"
      using 1(2) is_power_of_two.simps [of n] by (auto split: if_splits)
    then obtain k where "n div 2 = 2 ^ k" using 1(1) by blast
    then have "n = 2 ^ Suc k" using n(2) by auto
    then show ?thesis by blast
  qed
qed

lemma is_power_of_two_iff: "is_power_of_two n \<longleftrightarrow> (\<exists>k. n = 2 ^ k)"
proof
  have "is_power_of_two (2 ^ k)" for k
  proof (induction k)
    case (Suc k)
    have "\<not> (2::nat) ^ Suc k \<le> 1" using one_less_power [of "2::nat" "Suc k"] by simp
    then show ?case using Suc by (subst is_power_of_two.simps) simp
  qed (subst is_power_of_two.simps, simp)
  then show "\<exists>k. n = 2 ^ k \<Longrightarrow> is_power_of_two n" by blast
qed (rule is_power_of_two_exp)

definition ring_shape :: "'a ring \<Rightarrow> bool" where
  "ring_shape r \<longleftrightarrow> (\<exists>k. 1 \<le> k \<and> k < 64 \<and> ring_capacity r = 2 ^ k) \<and> rg_mask r = of_nat (ring_capacity r) - 1"

lemma capacity_bounds: "ring_shape r \<Longrightarrow> 2 \<le> ring_capacity r \<and> ring_capacity r \<le> 2 ^ 63"
proof -
  assume "ring_shape r"
  then obtain k where k: "1 \<le> k" "k < 64" "ring_capacity r = 2 ^ k" by (auto simp: ring_shape_def)
  have "(2::nat) ^ 1 \<le> 2 ^ k" using k(1) by (rule power_increasing) simp
  moreover have "(2::nat) ^ k \<le> 2 ^ 63" using k(2) by (intro power_increasing) auto
  ultimately show ?thesis using k(3) by simp
qed

lemma slot_index_mod:
  assumes "ring_shape r" shows "slot_index r p = unat p mod ring_capacity r"
proof -
  obtain k where k: "k < 64" "ring_capacity r = 2 ^ k" using assms by (auto simp: ring_shape_def)
  have "rg_mask r = mask k" using assms k by (simp add: ring_shape_def mask_eq_exp_minus_1)
  then have "slot_index r p = unat (take_bit k p)" by (simp add: slot_index_def take_bit_eq_mask)
  then show ?thesis using k by (simp only: unsigned_take_bit_eq) (simp add: take_bit_eq_mod)
qed

lemma slot_index_offset:
  assumes "ring_shape r" shows "slot_index r (p + of_nat i) = (unat p + i) mod ring_capacity r"
proof -
  obtain k where k: "k < 64" "ring_capacity r = 2 ^ k" using assms by (auto simp: ring_shape_def)
  have "(2::nat) ^ k dvd 2 ^ 64" using k by (intro le_imp_power_dvd) simp
  moreover have "unat (p + of_nat i) = (unat p + i) mod 2 ^ 64"
    by (simp add: unat_word_ariths unat_of_nat mod_add_right_eq)
  ultimately show ?thesis unfolding slot_index_mod [OF assms] k(2) by (simp only: mod_mod_cancel)
qed

lemma slot_index_less: "ring_shape r \<Longrightarrow> slot_index r p < length (rg_slots r)"
proof -
  assume r: "ring_shape r"
  have "0 < ring_capacity r" using capacity_bounds [OF r] by simp
  then have "slot_index r p < ring_capacity r" by (simp add: slot_index_mod [OF r])
  then show ?thesis by (simp add: ring_capacity_def)
qed

lemma slot_index_inj:
  assumes "ring_shape r" "i < ring_capacity r" "j < ring_capacity r"
  shows "slot_index r (p + of_nat i) = slot_index r (p + of_nat j) \<longleftrightarrow> i = j"
proof
  assume "slot_index r (p + of_nat i) = slot_index r (p + of_nat j)"
  then have "(unat p + i) mod ring_capacity r = (unat p + j) mod ring_capacity r"
    by (simp add: slot_index_offset [OF assms(1)])
  then show "i = j" using assms(2,3) by (rule mod_offset_inj)
qed simp


lemma ring_shape_set_slot [simp]: "ring_shape (set_slot p sl r) = ring_shape r"
  by (simp add: ring_shape_def set_slot_def ring_capacity_def)

lemma slot_set_slot:
  "ring_shape r \<Longrightarrow> slot (set_slot p sl r) q = (if slot_index r q = slot_index r p then sl else slot r q)"
  using slot_index_less [of r p] by (auto simp: slot_def set_slot_def slot_index_def nth_list_update)

lemma slot_capacity: "ring_shape r \<Longrightarrow> slot_index r (p + of_nat (ring_capacity r)) = slot_index r p"
  using slot_index_offset [of r p "ring_capacity r"] by (simp add: slot_index_mod)

section \<open>What a ring holds\<close>

text \<open>
  \<open>holds r xs\<close>: the ring is well formed and the values published and not yet freed are \<open>xs\<close>.
  The slots of those positions carry their position plus one; the other slots do not, so
  none looks published.  The producer's copy of \<open>head\<close> may lag by up to a full lap.
\<close>

definition holds :: "'a ring \<Rightarrow> 'a list \<Rightarrow> bool" where
  "holds r xs \<longleftrightarrow>
     ring_shape r \<and> rg_head r = rg_cpos r \<and> rg_ppos r = rg_cpos r + of_nat (length xs)
     \<and> length xs \<le> unat (rg_ppos r - rg_cached_head r) \<and> unat (rg_ppos r - rg_cached_head r) \<le> ring_capacity r
     \<and> (\<forall>i < length xs. slot r (rg_cpos r + of_nat i) = (rg_cpos r + of_nat i + 1, Some (xs ! i)))
     \<and> (\<forall>i. length xs \<le> i \<and> i < ring_capacity r \<longrightarrow> fst (slot r (rg_cpos r + of_nat i)) \<noteq> rg_cpos r + of_nat i + 1)"

lemma holdsD:
  assumes "holds r xs"
  shows "ring_shape r" "rg_head r = rg_cpos r" "rg_ppos r = rg_cpos r + of_nat (length xs)"
    "length xs \<le> unat (rg_ppos r - rg_cached_head r)" "unat (rg_ppos r - rg_cached_head r) \<le> ring_capacity r"
    "i < length xs \<Longrightarrow> slot r (rg_cpos r + of_nat i) = (rg_cpos r + of_nat i + 1, Some (xs ! i))"
    "length xs \<le> i \<Longrightarrow> i < ring_capacity r \<Longrightarrow> fst (slot r (rg_cpos r + of_nat i)) \<noteq> rg_cpos r + of_nat i + 1"
    "length xs \<le> ring_capacity r"
  using assms unfolding holds_def by auto

lemma not_full_length: "holds r xs \<Longrightarrow> \<not> looks_full r \<Longrightarrow> length xs < ring_capacity r"
  using holdsD(4) [of r xs] by (auto simp: looks_full_def)

lemma refresh_head_sel [simp]:
  "rg_head (refresh_head r) = rg_head r" "rg_ppos (refresh_head r) = rg_ppos r" "rg_cpos (refresh_head r) = rg_cpos r"
  "rg_cached_head (refresh_head r) = rg_head r" "ring_shape (refresh_head r) = ring_shape r"
  "ring_capacity (refresh_head r) = ring_capacity r" "slot (refresh_head r) q = slot r q"
  by (simp_all add: refresh_head_def ring_shape_def ring_capacity_def slot_def slot_index_def)

lemma looks_full_refresh:
  assumes "holds r xs" shows "looks_full (refresh_head r) \<longleftrightarrow> length xs = ring_capacity r"
proof -
  note H = holdsD [OF assms]
  have "length xs < 2 ^ 64" using H(8) capacity_bounds [OF H(1)] by simp
  then have "unat (rg_ppos r - rg_head r) = length xs" using H(2,3) by (simp add: unat_of_nat)
  then show ?thesis using H(8) by (auto simp: looks_full_def)
qed

lemma holds_refresh:
  assumes "holds r xs" shows "holds (refresh_head r) xs"
proof -
  note H = holdsD [OF assms]
  have "length xs < 2 ^ 64" using H(8) capacity_bounds [OF H(1)] by simp
  then have "unat (rg_ppos r - rg_head r) = length xs" using H(2,3) by (simp add: unat_of_nat)
  then show ?thesis using assms H(8) by (simp add: holds_def)
qed

lemma write_value_sel [simp]:
  "rg_head (write_value v r) = rg_head r" "rg_ppos (write_value v r) = rg_ppos r" "rg_cpos (write_value v r) = rg_cpos r"
  "rg_cached_head (write_value v r) = rg_cached_head r" "ring_shape (write_value v r) = ring_shape r"
  "ring_capacity (write_value v r) = ring_capacity r"
  by (simp_all add: write_value_def set_slot_def ring_shape_def ring_capacity_def)

lemma slot_write_value:
  "ring_shape r \<Longrightarrow> slot (write_value v r) q =
     (if slot_index r q = slot_index r (rg_ppos r) then (fst (slot r q), Some v) else slot r q)"
  by (simp only: write_value_def slot_set_slot) (auto simp: slot_def)

lemma ppos_slot:
  assumes "holds r xs" "length xs < ring_capacity r" "i < ring_capacity r"
  shows "slot_index r (rg_cpos r + of_nat i) = slot_index r (rg_ppos r) \<longleftrightarrow> i = length xs"
  using slot_index_inj [OF holdsD(1) [OF assms(1)] assms(3,2)] holdsD(3) [OF assms(1)] by simp

lemma holds_write_value:
  assumes h: "holds r xs" and room: "length xs < ring_capacity r"
  shows "holds (write_value v r) xs" "snd (slot (write_value v r) (rg_ppos r)) = Some v"
proof -
  note H = holdsD [OF h]
  note sl = slot_write_value [OF H(1)]
  have "slot (write_value v r) (rg_cpos r + of_nat i) = slot r (rg_cpos r + of_nat i)" if "i < length xs" for i
    using ppos_slot [OF h room, of i] that room by (simp add: sl)
  moreover have "fst (slot (write_value v r) q) = fst (slot r q)" for q by (simp add: sl)
  ultimately show "holds (write_value v r) xs" using H unfolding holds_def by simp
  show "snd (slot (write_value v r) (rg_ppos r)) = Some v" by (simp add: sl)
qed

lemma looks_full_write_value [simp]: "looks_full (write_value v r) = looks_full r"
  by (simp add: looks_full_def)

lemma publish_sel [simp]:
  "rg_head (publish r) = rg_head r" "rg_ppos (publish r) = rg_ppos r + 1" "rg_cpos (publish r) = rg_cpos r"
  "rg_cached_head (publish r) = rg_cached_head r" "ring_shape (publish r) = ring_shape r"
  "ring_capacity (publish r) = ring_capacity r"
  by (simp_all add: publish_def set_slot_def ring_shape_def ring_capacity_def)

lemma slot_publish:
  "ring_shape r \<Longrightarrow> slot (publish r) q =
     (if slot_index r q = slot_index r (rg_ppos r) then (rg_ppos r + 1, snd (slot r q)) else slot r q)"
  using slot_set_slot [of r "rg_ppos r" "(rg_ppos r + 1, snd (slot r (rg_ppos r)))" q]
  by (auto simp: publish_def slot_def slot_index_def set_slot_def)

lemma holds_publish:
  assumes h: "holds r xs" and nf: "\<not> looks_full r" and v: "snd (slot r (rg_ppos r)) = Some v"
  shows "holds (publish r) (xs @ [v])"
proof -
  note H = holdsD [OF h]
  note room = not_full_length [OF h nf]
  note cap = capacity_bounds [OF H(1)]
  note sl = slot_publish [OF H(1)]
  let ?lag = "unat (rg_ppos r - rg_cached_head r)"
  have lag: "unat (rg_ppos r + 1 - rg_cached_head r) = Suc ?lag"
  proof -
    have "Suc ?lag < 2 ^ 64" using nf cap by (simp add: looks_full_def)
    then have "unat (rg_ppos r - rg_cached_head r + 1) = Suc ?lag" by (simp add: unat_word_ariths)
    moreover have "rg_ppos r + 1 - rg_cached_head r = rg_ppos r - rg_cached_head r + 1" by simp
    ultimately show ?thesis by metis
  qed
  have old: "slot (publish r) (rg_cpos r + of_nat i) = slot r (rg_cpos r + of_nat i)"
    if "i < ring_capacity r" "i \<noteq> length xs" for i
    using ppos_slot [OF h room, of i] that by (simp add: sl)
  have new: "slot (publish r) (rg_ppos r) = (rg_ppos r + 1, Some v)" using v by (simp add: sl)
  have "slot (publish r) (rg_cpos r + of_nat i) = (rg_cpos r + of_nat i + 1, Some ((xs @ [v]) ! i))"
    if "i < length (xs @ [v])" for i
    using that old [of i] new H(3) H(6) [of i] room by (cases "i = length xs") (auto simp: nth_append)
  moreover have "fst (slot (publish r) (rg_cpos r + of_nat i)) \<noteq> rg_cpos r + of_nat i + 1"
    if "length (xs @ [v]) \<le> i" "i < ring_capacity r" for i
    using that old [of i] H(7) [of i] by simp
  moreover have "rg_ppos r + 1 = rg_cpos r + of_nat (length (xs @ [v]))" using H(3) by simp
  ultimately show ?thesis using H(1,2,4) nf lag room unfolding holds_def looks_full_def by simp
qed

lemma ready_iff:
  assumes "holds r xs" shows "ready r \<longleftrightarrow> xs \<noteq> []"
proof (cases xs)
  case Nil
  then show ?thesis using holdsD(7) [OF assms, of 0] capacity_bounds [OF holdsD(1) [OF assms]] by (simp add: ready_def)
next
  case (Cons x ys)
  then show ?thesis using holdsD(6) [OF assms, of 0] by (simp add: ready_def)
qed

lemma holds_front: "holds r (x # xs) \<Longrightarrow> snd (slot r (rg_cpos r)) = Some x"
  using holdsD(6) [of r "x # xs" 0] by simp


lemma release_sel [simp]:
  "rg_head (release_slot r) = rg_cpos r + 1" "rg_ppos (release_slot r) = rg_ppos r" "rg_cpos (release_slot r) = rg_cpos r + 1"
  "rg_cached_head (release_slot r) = rg_cached_head r" "ring_shape (release_slot r) = ring_shape r"
  "ring_capacity (release_slot r) = ring_capacity r" "slot (release_slot r) q = slot r q"
  by (simp_all add: release_slot_def ring_shape_def ring_capacity_def slot_def slot_index_def)

lemma holds_release:
  assumes h: "holds r (x # xs)" shows "holds (release_slot r) xs"
proof -
  note H = holdsD [OF h]
  note cap = capacity_bounds [OF H(1)]
  have shift: "rg_cpos r + 1 + of_nat i = rg_cpos r + of_nat (Suc i)" for i by simp
  have used: "slot r (rg_cpos r + 1 + of_nat i) = (rg_cpos r + 1 + of_nat i + 1, Some (xs ! i))" if "i < length xs" for i
    unfolding shift using H(6) [of "Suc i"] that by simp
  have unused: "fst (slot r (rg_cpos r + 1 + of_nat i)) \<noteq> rg_cpos r + 1 + of_nat i + 1"
    if i: "length xs \<le> i" "i < ring_capacity r" for i
  proof (cases "Suc i < ring_capacity r")
    case True
    then show ?thesis unfolding shift using H(7) [of "Suc i"] i by simp
  next
    case False
    then have "Suc i = ring_capacity r" using i by simp
    then have "slot r (rg_cpos r + of_nat (Suc i)) = slot r (rg_cpos r)"
      using slot_capacity [OF H(1), of "rg_cpos r"] by (simp add: slot_def)
    then have "fst (slot r (rg_cpos r + of_nat (Suc i))) = rg_cpos r + 1" using H(6) [of 0] by simp
    moreover have "(of_nat (Suc i) :: usize) \<noteq> 0"
    proof
      assume "(of_nat (Suc i) :: usize) = 0"
      then have "unat (of_nat (Suc i) :: usize) = 0" by simp
      then show False using \<open>Suc i = ring_capacity r\<close> cap by (simp add: unat_of_nat del: of_nat_Suc)
    qed
    ultimately show ?thesis unfolding shift by (simp del: of_nat_Suc)
  qed
  show ?thesis using H(1,3,4,5) used unused unfolding holds_def by simp
qed

text \<open>A new ring holds nothing.\<close>

lemma holds_channel:
  assumes "ring_channel cap = Ok r" "cap \<le> 2 ^ 63"
  shows "holds r []" "ring_capacity r = cap"
proof -
  have cap: "2 \<le> cap" "is_power_of_two cap" and
    r: "r = \<lparr>rg_slots = map (\<lambda>i. (of_nat i - 1, None)) [0..<cap], rg_mask = of_nat cap - 1,
         rg_head = 0, rg_ppos = 0, rg_cached_head = 0, rg_cpos = 0\<rparr>"
    using assms(1) by (auto simp: ring_channel_def split: if_splits)
  show c: "ring_capacity r = cap" by (simp add: r ring_capacity_def)
  obtain k where k: "cap = 2 ^ k" using cap(2) is_power_of_two_exp by blast
  have "1 \<le> k" using cap(1) k by (cases k) auto
  moreover have "k < 64"
  proof (rule ccontr)
    assume "\<not> k < 64"
    then have "(2::nat) ^ 64 \<le> 2 ^ k" by (intro power_increasing) auto
    then show False using assms(2) k by simp
  qed
  ultimately have shape: "ring_shape r" using c k by (auto simp: ring_shape_def r)
  have "fst (slot r (of_nat i)) \<noteq> of_nat i + 1" if "i < cap" for i
  proof -
    have "slot_index r (of_nat i) = i" using slot_index_offset [OF shape, of 0 i] that c by simp
    then have "slot r (of_nat i) = (of_nat i - 1, None)" using that by (simp add: slot_def r)
    moreover have "(of_nat i - 1 :: usize) \<noteq> of_nat i + 1"
    proof
      assume "(of_nat i - 1 :: usize) = of_nat i + 1"
      then have "(2 :: usize) = 0" by (simp add: algebra_simps)
      then show False by simp
    qed
    ultimately show ?thesis by simp
  qed
  then show "holds r []" using shape c unfolding holds_def by (simp add: r ring_capacity_def)
qed

section \<open>The operations\<close>

lemma ring_push_holds:
  assumes h: "holds r xs" and p: "ring_push v r = (res, r')"
  shows "(length xs < ring_capacity r \<and> res = Ok () \<and> holds r' (xs @ [v])
      \<or> length xs = ring_capacity r \<and> res = Err (Full v) \<and> holds r' xs) \<and> ring_capacity r' = ring_capacity r"
proof -
  have go: "holds (publish (write_value v q)) (xs @ [v]) \<and> length xs < ring_capacity q" if "holds q xs" "\<not> looks_full q" for q
    using holds_publish [OF holds_write_value(1) [OF that(1)]] holds_write_value(2) [OF that(1), of v]
      not_full_length [OF that] that(2) by simp
  show ?thesis
  proof (cases "looks_full r")
    case True
    then show ?thesis
      using p go [OF holds_refresh [OF h]] looks_full_refresh [OF h] holds_refresh [OF h]
      by (auto simp: ring_push_def Let_def split: if_splits)
  next
    case False
    then show ?thesis using p go [OF h] by (auto simp: ring_push_def)
  qed
qed

lemma ring_pop_holds:
  assumes "holds r xs" "ring_pop r = (y, r')"
  shows "(case xs of [] \<Rightarrow> y = None \<and> r' = r | x # ys \<Rightarrow> y = Some x \<and> holds r' ys) \<and> ring_capacity r' = ring_capacity r"
  using assms ready_iff [OF assms(1)] holds_front holds_release
  by (cases xs) (auto simp: ring_pop_def)

definition push_ok :: "'a \<Rightarrow> 'a ring \<Rightarrow> bool \<times> 'a ring" where
  "push_ok v r = (let (res, r') = ring_push v r in (is_ok res, r'))"

interpretation slot_ring: bounded_fifo holds push_ok ring_pop ring_capacity
proof unfold_locales
  fix r r' :: "'a ring" and xs v ok
  assume h: "holds r xs" and "push_ok v r = (ok, r')"
  then obtain res where p: "ring_push v r = (res, r')" "ok = is_ok res" by (auto simp: push_ok_def split: prod.splits)
  note R = ring_push_holds [OF h p(1)]
  show "holds r' (if ok then xs @ [v] else xs)" "ok \<longleftrightarrow> length xs < ring_capacity r" using R p(2) by auto
next
  fix r r' :: "'a ring" and y
  assume "holds r []" "ring_pop r = (y, r')"
  then show "y = None \<and> holds r' []" using ring_pop_holds [of r "[]" y r'] by auto
next
  fix r r' :: "'a ring" and x xs y
  assume "holds r (x # xs)" "ring_pop r = (y, r')"
  then show "y = Some x \<and> holds r' xs" using ring_pop_holds [of r "x # xs" y r'] by auto
next
  fix r r' :: "'a ring" and v ok
  assume "push_ok v r = (ok, r')"
  then show "ring_capacity r' = ring_capacity r"
    by (auto simp: push_ok_def ring_push_def Let_def split: prod.splits if_splits)
next
  fix r r' :: "'a ring" and y
  assume "ring_pop r = (y, r')"
  then show "ring_capacity r' = ring_capacity r" by (auto simp: ring_pop_def split: if_splits)
next
  fix r :: "'a ring" and xs
  assume "holds r xs"
  then show "length xs \<le> ring_capacity r" using holdsD(8) by blast
qed

section \<open>The two threads\<close>

text \<open>
  Each side is at one of its memory accesses.  \<open>sent\<close> and \<open>received\<close> record the values whose
  \<open>push\<close> returned and whose \<open>pop\<close> returned.
\<close>

datatype 'a producer_pc = PIdle | PLoadHead 'a | PWrite 'a | PPublish 'a
datatype 'a consumer_pc = CIdle | CRead | CRelease 'a

record 'a ring_system =
  rs_ring :: "'a ring"
  rs_ppc :: "'a producer_pc"
  rs_cpc :: "'a consumer_pc"
  rs_sent :: "'a list"
  rs_received :: "'a list"

inductive ring_step :: "'a ring_system \<Rightarrow> 'a ring_system \<Rightarrow> bool" where
  push_fast: "rs_ppc s = PIdle \<Longrightarrow> \<not> looks_full (rs_ring s) \<Longrightarrow> ring_step s (s\<lparr>rs_ppc := PWrite v\<rparr>)"
| push_slow: "rs_ppc s = PIdle \<Longrightarrow> looks_full (rs_ring s) \<Longrightarrow> ring_step s (s\<lparr>rs_ppc := PLoadHead v\<rparr>)"
| load_head: "rs_ppc s = PLoadHead v \<Longrightarrow>
    ring_step s (s\<lparr>rs_ring := refresh_head (rs_ring s),
                   rs_ppc := (if looks_full (refresh_head (rs_ring s)) then PIdle else PWrite v)\<rparr>)"
| write_slot: "rs_ppc s = PWrite v \<Longrightarrow>
    ring_step s (s\<lparr>rs_ring := write_value v (rs_ring s), rs_ppc := PPublish v\<rparr>)"
| store_seq: "rs_ppc s = PPublish v \<Longrightarrow>
    ring_step s (s\<lparr>rs_ring := publish (rs_ring s), rs_ppc := PIdle, rs_sent := rs_sent s @ [v]\<rparr>)"
| load_seq: "rs_cpc s = CIdle \<Longrightarrow> ring_step s (s\<lparr>rs_cpc := (if ready (rs_ring s) then CRead else CIdle)\<rparr>)"
| read_slot: "rs_cpc s = CRead \<Longrightarrow> snd (slot (rs_ring s) (rg_cpos (rs_ring s))) = Some v \<Longrightarrow>
    ring_step s (s\<lparr>rs_cpc := CRelease v\<rparr>)"
| store_head: "rs_cpc s = CRelease v \<Longrightarrow>
    ring_step s (s\<lparr>rs_ring := release_slot (rs_ring s), rs_cpc := CIdle, rs_received := rs_received s @ [v]\<rparr>)"

inductive ring_reach :: "'a ring_system \<Rightarrow> bool" where
  init: "ring_channel cap = Ok r \<Longrightarrow> cap \<le> 2 ^ 63 \<Longrightarrow>
    ring_reach \<lparr>rs_ring = r, rs_ppc = PIdle, rs_cpc = CIdle, rs_sent = [], rs_received = []\<rparr>"
| step: "ring_reach s \<Longrightarrow> ring_step s s' \<Longrightarrow> ring_reach s'"

inductive_cases ring_stepE: "ring_step s s'"

definition producer_in_slot :: "'a ring_system \<Rightarrow> bool" where
  "producer_in_slot s \<longleftrightarrow> (\<exists>v. rs_ppc s = PWrite v \<or> rs_ppc s = PPublish v)"

definition consumer_in_slot :: "'a ring_system \<Rightarrow> bool" where
  "consumer_in_slot s \<longleftrightarrow> rs_cpc s = CRead \<or> (\<exists>v. rs_cpc s = CRelease v)"

definition ring_system_inv :: "'a ring_system \<Rightarrow> bool" where
  "ring_system_inv s \<longleftrightarrow>
     (\<exists>xs. holds (rs_ring s) xs \<and> rs_sent s = rs_received s @ xs
        \<and> (producer_in_slot s \<longrightarrow> \<not> looks_full (rs_ring s))
        \<and> (\<forall>v. rs_ppc s = PPublish v \<longrightarrow> snd (slot (rs_ring s) (rg_ppos (rs_ring s))) = Some v)
        \<and> (consumer_in_slot s \<longrightarrow> xs \<noteq> []) \<and> (\<forall>v. rs_cpc s = CRelease v \<longrightarrow> v = hd xs))"

lemma looks_full_release [simp]: "looks_full (release_slot r) = looks_full r"
  by (simp add: looks_full_def)

lemma hd_snoc: "xs \<noteq> [] \<Longrightarrow> hd (xs @ [v]) = hd xs"
  by simp

lemma ring_step_inv:
  assumes "ring_system_inv s" "ring_step s s'" shows "ring_system_inv s'"
proof -
  obtain xs where h: "holds (rs_ring s) xs" "rs_sent s = rs_received s @ xs"
    "producer_in_slot s \<Longrightarrow> \<not> looks_full (rs_ring s)"
    "\<And>v. rs_ppc s = PPublish v \<Longrightarrow> snd (slot (rs_ring s) (rg_ppos (rs_ring s))) = Some v"
    "consumer_in_slot s \<Longrightarrow> xs \<noteq> []" "\<And>v. rs_cpc s = CRelease v \<Longrightarrow> v = hd xs"
    using assms(1) by (auto simp: ring_system_inv_def)
  note defs = ring_system_inv_def producer_in_slot_def consumer_in_slot_def
  from assms(2) show ?thesis
  proof cases
    case (load_head v)
    then show ?thesis using h holds_refresh [OF h(1)]
      by (auto simp: defs intro!: exI [of _ xs] split: if_splits)
  next
    case (write_slot v)
    have nf: "\<not> looks_full (rs_ring s)" using h(3) write_slot by (auto simp: producer_in_slot_def)
    note room = not_full_length [OF h(1) nf]
    show ?thesis using write_slot h nf holds_write_value [OF h(1) room, of v]
      by (auto simp: defs intro!: exI [of _ xs])
  next
    case (store_seq v)
    have nf: "\<not> looks_full (rs_ring s)" using h(3) store_seq by (auto simp: producer_in_slot_def)
    show ?thesis using store_seq h holds_publish [OF h(1) nf h(4) [OF store_seq(2)]]
      by (auto simp: defs hd_append intro!: exI [of _ "xs @ [v]"])
  next
    case load_seq
    then show ?thesis using h ready_iff [OF h(1)] by (auto simp: defs intro!: exI [of _ xs])
  next
    case (read_slot v)
    then obtain x ys where xs: "xs = x # ys" using h(5) by (cases xs) (auto simp: consumer_in_slot_def)
    then show ?thesis using read_slot h holds_front [OF h(1) [unfolded xs]]
      by (auto simp: defs intro!: exI [of _ xs])
  next
    case (store_head v)
    then obtain x ys where xs: "xs = x # ys" using h(5) by (cases xs) (auto simp: consumer_in_slot_def)
    then show ?thesis using store_head h holds_release [OF h(1) [unfolded xs]]
      by (auto simp: defs intro!: exI [of _ ys])
  qed (use h in \<open>auto simp: defs intro!: exI [of _ xs]\<close>)
qed

lemma ring_reach_inv: "ring_reach s \<Longrightarrow> ring_system_inv s"
proof (induction rule: ring_reach.induct)
  case (init cap r)
  then show ?case using holds_channel(1) [of cap r]
    by (auto simp: ring_system_inv_def producer_in_slot_def consumer_in_slot_def)
qed (rule ring_step_inv)

section \<open>Properties\<close>

text \<open>C10: The ring is a bounded first-in first-out queue across any wrap of its counters: whatever sequence of pushes and pops runs, each
  operation answers as a list of at most the capacity does.  A push is taken exactly while there is room, a pop hands out the oldest
  value exactly while there is one, and what is held at the end is what the list holds.\<close>

theorem ring_is_fifo:
  assumes "holds r xs" "queue_answers push_ok ring_pop ops r = (as, r')"
  shows "\<exists>ys. queue_answers (list_push (ring_capacity r)) list_pop ops xs = (as, ys) \<and> holds r' ys \<and> ring_capacity r' = ring_capacity r"
  using slot_ring.answers_like_list [OF assms] .

text \<open>A ring of two slots whose counters are about to wrap.\<close>

definition demo_ring :: "nat ring" where
  "demo_ring = \<lparr>rg_slots = [(- 1, Some 3), (0, Some 4)], rg_mask = 1, rg_head = - 1, rg_ppos = 0,
     rg_cached_head = - 2, rg_cpos = - 1\<rparr>"

lemma demo_ring_holds: "holds demo_ring [4]"
proof -
  have "ring_shape demo_ring" by (auto simp: ring_shape_def ring_capacity_def demo_ring_def intro!: exI [of _ 1])
  moreover have "fst (slot demo_ring (rg_cpos demo_ring + of_nat i)) \<noteq> rg_cpos demo_ring + of_nat i + 1"
    if "1 \<le> i" "i < 2" for i
  proof -
    have "i = 1" using that by linarith
    then show ?thesis by (simp add: slot_def slot_index_def demo_ring_def)
  qed
  ultimately show ?thesis
    by (auto simp: holds_def ring_capacity_def slot_def slot_index_def demo_ring_def)
qed

theorem ring_is_fifo_witness:
  "\<exists>r' ys. queue_answers push_ok ring_pop [Push 5, Push 6, Pop, Push 7, Pop, Pop, Pop] demo_ring
      = ([Taken True, Taken False, Given (Some 4), Taken True, Given (Some 5), Given (Some 7), Given None], r') \<and> holds r' ys \<and> ys = []"
proof -
  let ?ops = "[Push 5, Push 6, Pop, Push 7, Pop, Pop, Pop] :: nat queue_op list"
  obtain as r' where run: "queue_answers push_ok ring_pop ?ops demo_ring = (as, r')" by (cases "queue_answers push_ok ring_pop ?ops demo_ring")
  have "ring_capacity demo_ring = 2" by (simp add: ring_capacity_def demo_ring_def)
  then have "queue_answers (list_push (ring_capacity demo_ring)) list_pop ?ops [4]
      = ([Taken True, Taken False, Given (Some 4), Taken True, Given (Some 5), Given (Some 7), Given None], [])" by (simp add: list_push_def)
  then show ?thesis using ring_is_fifo [OF demo_ring_holds run] run by (auto simp del: queue_answers.simps)
qed

text \<open>C4: In every interleaving of the two threads, what has been received is a prefix of what has
  been sent, at most the capacity is in flight, the consumer only reads initialised values, and
  the two threads are never in the same slot.\<close>

theorem ring_threads_safe:
  assumes "ring_reach s"
  shows "(\<exists>xs. rs_sent s = rs_received s @ xs \<and> length xs \<le> ring_capacity (rs_ring s))
    \<and> (rs_cpc s = CRead \<longrightarrow> snd (slot (rs_ring s) (rg_cpos (rs_ring s))) = Some (rs_sent s ! length (rs_received s)))
    \<and> (producer_in_slot s \<and> consumer_in_slot s \<longrightarrow>
         slot_index (rs_ring s) (rg_ppos (rs_ring s)) \<noteq> slot_index (rs_ring s) (rg_cpos (rs_ring s)))"
proof -
  obtain xs where h: "holds (rs_ring s) xs" "rs_sent s = rs_received s @ xs"
    "producer_in_slot s \<longrightarrow> \<not> looks_full (rs_ring s)" "consumer_in_slot s \<longrightarrow> xs \<noteq> []"
    using ring_reach_inv [OF assms] by (auto simp: ring_system_inv_def)
  have "snd (slot (rs_ring s) (rg_cpos (rs_ring s))) = Some (rs_sent s ! length (rs_received s))" if "rs_cpc s = CRead"
    using that h holds_front [of "rs_ring s" "hd xs" "tl xs"] by (cases xs) (auto simp: consumer_in_slot_def)
  moreover have "slot_index (rs_ring s) (rg_ppos (rs_ring s)) \<noteq> slot_index (rs_ring s) (rg_cpos (rs_ring s))"
    if "producer_in_slot s \<and> consumer_in_slot s"
    using ppos_slot [OF h(1), of 0] not_full_length [OF h(1)] h(3,4) that by auto
  ultimately show ?thesis using h(2) holdsD(8) [OF h(1)] by blast
qed

definition demo_system :: "nat ring_system" where
  "demo_system = \<lparr>rs_ring = \<lparr>rg_slots = [(- 1, None), (0, None)], rg_mask = 1, rg_head = 0, rg_ppos = 0,
      rg_cached_head = 0, rg_cpos = 0\<rparr>, rs_ppc = PIdle, rs_cpc = CIdle, rs_sent = [], rs_received = []\<rparr>"

theorem ring_threads_safe_witness:
  "\<exists>s. ring_reach s \<and> rs_ppc s = PPublish (8::nat) \<and> rs_cpc s = CRead \<and>
     slot_index (rs_ring s) (rg_ppos (rs_ring s)) \<noteq> slot_index (rs_ring s) (rg_cpos (rs_ring s))"
proof -
  let ?s0 = demo_system
  let ?s1 = "?s0\<lparr>rs_ppc := PWrite 7\<rparr>"
  let ?s2 = "?s1\<lparr>rs_ring := write_value 7 (rs_ring ?s1), rs_ppc := PPublish 7\<rparr>"
  let ?s3 = "?s2\<lparr>rs_ring := publish (rs_ring ?s2), rs_ppc := PIdle, rs_sent := rs_sent ?s2 @ [7]\<rparr>"
  let ?s4 = "?s3\<lparr>rs_cpc := (if ready (rs_ring ?s3) then CRead else CIdle)\<rparr>"
  let ?s5 = "?s4\<lparr>rs_ppc := PWrite 8\<rparr>"
  let ?s6 = "?s5\<lparr>rs_ring := write_value 8 (rs_ring ?s5), rs_ppc := PPublish 8\<rparr>"
  note eval = demo_system_def looks_full_def ring_capacity_def write_value_def publish_def set_slot_def slot_def
    slot_index_def ready_def
  have "ring_channel 2 = Ok (rs_ring ?s0)"
    by (simp add: ring_channel_def demo_system_def is_power_of_two.simps upt_rec)
  then have "ring_reach \<lparr>rs_ring = rs_ring ?s0, rs_ppc = PIdle, rs_cpc = CIdle, rs_sent = [], rs_received = []\<rparr>"
    by (rule ring_reach.init) simp
  then have r0: "ring_reach ?s0" by (simp add: demo_system_def)
  have r1: "ring_reach ?s1" by (rule ring_reach.step [OF r0 ring_step.push_fast]) (simp_all add: eval)
  have r2: "ring_reach ?s2" by (rule ring_reach.step [OF r1 ring_step.write_slot]) simp
  have r3: "ring_reach ?s3" by (rule ring_reach.step [OF r2 ring_step.store_seq]) simp
  have r4: "ring_reach ?s4" by (rule ring_reach.step [OF r3 ring_step.load_seq]) (simp add: demo_system_def)
  have r5: "ring_reach ?s5" by (rule ring_reach.step [OF r4 ring_step.push_fast]) (simp_all add: eval)
  have r6: "ring_reach ?s6" by (rule ring_reach.step [OF r5 ring_step.write_slot]) simp
  have "rs_ppc ?s6 = PPublish 8" "rs_cpc ?s6 = CRead" by (simp_all add: eval)
  with ring_threads_safe [OF r6] r6 show ?thesis unfolding producer_in_slot_def consumer_in_slot_def by blast
qed

end
