(* ===== verification/Bytes_Ring.thy ===== *)
theory Bytes_Ring
  imports Ring
begin

unbundle bit_operations_syntax

text \<open>
  \<open>crates/bowst-core/src/bytes_ring.rs\<close>: the single-producer single-consumer ring of
  variable-length records.  The buffer is a list of bytes, positions are wrapping usize
  counters.  Reading is a loop (a wrap marker sends the reader back to the start), so
  \<open>read_with\<close> is a partial function into \<open>option\<close>; it is shown to return.
\<close>

section \<open>The ring\<close>

definition HEADER :: nat where "HEADER = 8"
definition ALIGN :: nat where "ALIGN = 8"
definition WRAP :: nat where "WRAP = 2 ^ 32 - 1"
definition MIN_CAPACITY :: nat where "MIN_CAPACITY = 64"

lemmas bytes_consts = HEADER_def ALIGN_def WRAP_def MIN_CAPACITY_def

datatype bytes_ring_error = InvalidCapacity nat

datatype write_error = Full | TooLarge nat nat

record bytes_ring =
  br_buf :: "byte list"
  br_mask :: usize
  br_head :: usize
  br_tail :: usize
  br_ptail :: usize
  br_cached_head :: usize
  br_chead :: usize
  br_cached_tail :: usize

definition br_capacity :: "bytes_ring \<Rightarrow> nat" where
  "br_capacity r = length (br_buf r)"

definition bytes_channel :: "nat \<Rightarrow> (bytes_ring, bytes_ring_error) result" where
  "bytes_channel cap =
     (if \<not> is_power_of_two cap \<or> \<not> (MIN_CAPACITY \<le> cap \<and> cap \<le> 2 ^ 31) then Err (InvalidCapacity cap)
      else Ok \<lparr>br_buf = replicate cap 0, br_mask = of_nat cap - 1, br_head = 0, br_tail = 0,
               br_ptail = 0, br_cached_head = 0, br_chead = 0, br_cached_tail = 0\<rparr>)"

text \<open>Clearing the low three bits rounds down to a multiple of eight.\<close>

definition padded :: "nat \<Rightarrow> nat" where
  "padded len = sat_u64 (len + (ALIGN - 1)) div ALIGN * ALIGN"

definition max_record :: "bytes_ring \<Rightarrow> nat" where
  "max_record r = br_capacity r div 2 - HEADER"

definition free_space :: "bytes_ring \<Rightarrow> nat" where
  "free_space r = br_capacity r - unat (br_ptail r - br_cached_head r)"

text \<open>
  The stores once room is certain: the wrap marker if the record starts over, the payload
  through \<open>fill\<close>, the length, and the new tail.
\<close>

definition write_record :: "nat \<Rightarrow> nat \<Rightarrow> nat \<Rightarrow> nat \<Rightarrow> nat \<Rightarrow> (byte list \<Rightarrow> byte list) \<Rightarrow> bytes_ring \<Rightarrow> bytes_ring" where
  "write_record index skip start len needed fill r =
     (let buf1 = (if skip > 0 then write_at index (le_bytes 4 WRAP) (br_buf r) else br_buf r);
          buf2 = write_at (start + HEADER) (fill (take len (drop (start + HEADER) buf1))) buf1;
          header = le_bytes 4 (if len < 2 ^ 32 then len else WRAP - 1);
          buf3 = write_at start header buf2;
          tail = br_ptail r + of_nat needed
      in r\<lparr>br_buf := buf3, br_ptail := tail, br_tail := tail\<rparr>)"

definition write_with :: "nat \<Rightarrow> (byte list \<Rightarrow> byte list) \<Rightarrow> bytes_ring \<Rightarrow> (unit, write_error) result \<times> bytes_ring" where
  "write_with len fill r =
     (if len > max_record r then (Err (TooLarge len (max_record r)), r)
      else
        let capacity = br_capacity r;
            rec_size = sat_u64 (HEADER + padded len);
            index = unat (br_ptail r AND br_mask r);
            to_end = capacity - index;
            (skip, start) = (if rec_size > to_end then (to_end, 0) else (0, index));
            needed = sat_u64 (skip + rec_size)
        in
        if free_space r < needed then
          let r1 = r\<lparr>br_cached_head := br_head r\<rparr> in
          if free_space r1 < needed then (Err Full, r1)
          else (Ok (), write_record index skip start len needed fill r1)
        else (Ok (), write_record index skip start len needed fill r))"

definition bytes_push :: "byte list \<Rightarrow> bytes_ring \<Rightarrow> (unit, write_error) result \<times> bytes_ring" where
  "bytes_push bs r = write_with (length bs) (\<lambda>_. bs) r"

text \<open>The record at the reader's position; \<open>skip_marker\<close> and \<open>take_record\<close> move it on.\<close>

definition read_index :: "bytes_ring \<Rightarrow> nat" where
  "read_index r = unat (br_chead r AND br_mask r)"

definition read_len :: "bytes_ring \<Rightarrow> nat" where
  "read_len r = from_le (take 4 (drop (read_index r) (br_buf r)))"

definition move_head :: "nat \<Rightarrow> bytes_ring \<Rightarrow> bytes_ring" where
  "move_head n r = (let h = br_chead r + of_nat n in r\<lparr>br_chead := h, br_head := h\<rparr>)"

definition see_tail :: "bytes_ring \<Rightarrow> bytes_ring" where
  "see_tail r = (if br_chead r = br_cached_tail r then r\<lparr>br_cached_tail := br_tail r\<rparr> else r)"

partial_function (option) read_with :: "bytes_ring \<Rightarrow> (byte list option \<times> bytes_ring) option" where
  "read_with r =
     (let r1 = see_tail r in
      if br_chead r1 = br_cached_tail r1 then Some (None, r1)
      else if read_len r1 = WRAP then read_with (move_head (br_capacity r1 - read_index r1) r1)
      else
        Some (Some (take (read_len r1) (drop (read_index r1 + HEADER) (br_buf r1))),
              move_head (HEADER + padded (read_len r1)) r1))"

section \<open>The layout of the published bytes\<close>

text \<open>
  From index \<open>i\<close>, \<open>n\<close> bytes hold the records \<open>xs\<close>: each an optional run to the end of the
  buffer behind a wrap marker, then the length, then the payload, all inside the buffer.
\<close>

definition length_at :: "byte list \<Rightarrow> nat \<Rightarrow> nat" where
  "length_at buf i = from_le (take 4 (drop i buf))"

definition skip_at :: "byte list \<Rightarrow> nat \<Rightarrow> nat" where
  "skip_at buf i = (if length_at buf i = WRAP then length buf - i else 0)"

definition advance :: "byte list \<Rightarrow> nat \<Rightarrow> byte list \<Rightarrow> nat" where
  "advance buf i x = skip_at buf i + HEADER + padded (length x)"

definition record_at :: "byte list \<Rightarrow> nat \<Rightarrow> byte list \<Rightarrow> bool" where
  "record_at buf j x \<longleftrightarrow> j + HEADER + padded (length x) \<le> length buf \<and> length x < WRAP \<and> length_at buf j = length x
     \<and> take (length x) (drop (j + HEADER) buf) = x"

fun layout :: "byte list \<Rightarrow> nat \<Rightarrow> nat \<Rightarrow> byte list list \<Rightarrow> bool" where
  "layout buf i n [] \<longleftrightarrow> n = 0"
| "layout buf i n (x # xs) \<longleftrightarrow>
     advance buf i x \<le> n \<and> record_at buf ((i + skip_at buf i) mod length buf) x
     \<and> layout buf ((i + advance buf i x) mod length buf) (n - advance buf i x) xs"

text \<open>\<open>boundary k\<close>: the first \<open>k\<close> of those bytes are whole records.\<close>

fun boundary :: "byte list \<Rightarrow> nat \<Rightarrow> byte list list \<Rightarrow> nat \<Rightarrow> bool" where
  "boundary buf i [] k \<longleftrightarrow> k = 0"
| "boundary buf i (x # xs) k \<longleftrightarrow>
     k = 0 \<or> (advance buf i x \<le> k \<and> boundary buf ((i + advance buf i x) mod length buf) xs (k - advance buf i x))"

definition br_shape :: "bytes_ring \<Rightarrow> bool" where
  "br_shape r \<longleftrightarrow> (\<exists>k. 6 \<le> k \<and> k \<le> 31 \<and> br_capacity r = 2 ^ k) \<and> br_mask r = of_nat (br_capacity r) - 1"

definition bytes_hold :: "bytes_ring \<Rightarrow> byte list list \<Rightarrow> bool" where
  "bytes_hold r xs \<longleftrightarrow>
     br_shape r \<and> br_head r = br_chead r \<and> br_tail r = br_ptail r
     \<and> 8 dvd unat (br_chead r) \<and> 8 dvd unat (br_ptail r)
     \<and> (let n = unat (br_ptail r - br_chead r); i = unat (br_chead r) mod br_capacity r in
        n \<le> unat (br_ptail r - br_cached_head r) \<and> unat (br_ptail r - br_cached_head r) \<le> br_capacity r
        \<and> layout (br_buf r) i n xs
        \<and> boundary (br_buf r) i xs (unat (br_cached_tail r - br_chead r)))"


section \<open>Arithmetic of positions\<close>

lemma padded_eq: "len \<le> 2 ^ 32 \<Longrightarrow> padded len = (len + 7) div 8 * 8"
  by (simp add: padded_def bytes_consts sat_u64_id range_defs)

lemma padded_ge: "len \<le> 2 ^ 32 \<Longrightarrow> len \<le> padded len"
  unfolding padded_eq by presburger

lemma padded_dvd [simp]: "8 dvd padded len"
  by (simp add: padded_def bytes_consts)

lemma padded_le: "len \<le> b \<Longrightarrow> 8 dvd b \<Longrightarrow> b \<le> 2 ^ 32 \<Longrightarrow> padded len \<le> b"
proof -
  assume a: "len \<le> b" "8 dvd b" "b \<le> 2 ^ 32"
  then obtain q where "b = 8 * q" by (auto elim: dvdE)
  then show ?thesis using a padded_eq [of len] by simp
qed

lemma mask_mod:
  assumes "k < 64" shows "unat (p AND (of_nat (2 ^ k) - 1) :: usize) = unat p mod 2 ^ k"
proof -
  have "(of_nat (2 ^ k) - 1 :: usize) = mask k" by (simp add: mask_eq_exp_minus_1)
  then have "unat (p AND (of_nat (2 ^ k) - 1)) = unat (take_bit k p)" by (simp add: take_bit_eq_mask)
  then show ?thesis using assms by (simp only: unsigned_take_bit_eq) (simp add: take_bit_eq_mod)
qed

lemma unat_offset: "unat ((p :: usize) + of_nat s) = (unat p + s) mod 2 ^ 64"
  by (simp add: unat_word_ariths unat_of_nat mod_add_right_eq)

lemma shape_facts:
  assumes "br_shape r"
  shows "64 \<le> br_capacity r" "br_capacity r \<le> 2 ^ 31" "8 dvd br_capacity r"
    "unat (p AND br_mask r) = unat p mod br_capacity r"
    "unat ((q :: usize) + of_nat s) mod br_capacity r = (unat q + s) mod br_capacity r"
proof -
  obtain k where k: "6 \<le> k" "k \<le> 31" "br_capacity r = 2 ^ k" "br_mask r = of_nat (br_capacity r) - 1"
    using assms by (auto simp: br_shape_def)
  have "(2::nat) ^ 6 \<le> 2 ^ k" "(2::nat) ^ k \<le> 2 ^ 31" using k by (intro power_increasing; simp)+
  then show "64 \<le> br_capacity r" "br_capacity r \<le> 2 ^ 31" using k(3) by simp_all
  have "(2::nat) ^ 3 dvd 2 ^ k" using k by (intro le_imp_power_dvd) simp
  then show "8 dvd br_capacity r" using k(3) by simp
  show "unat (p AND br_mask r) = unat p mod br_capacity r" using mask_mod [of k p] k by simp
  have "(2::nat) ^ k dvd 2 ^ 64" using k by (intro le_imp_power_dvd) simp
  then show "unat (q + of_nat s) mod br_capacity r = (unat q + s) mod br_capacity r"
    unfolding unat_offset k(3) by (rule mod_mod_cancel)
qed

lemma unat_minus_of_nat:
  assumes "a \<le> unat (w :: usize)" shows "unat (w - of_nat a) = unat w - a"
proof -
  have lt: "a < 2 ^ 64" using assms unsigned_less [of w, where 'a = nat] by simp
  then have "unat (of_nat a :: usize) = a" by (simp add: unat_of_nat)
  then show ?thesis using assms by (simp add: unat_sub word_le_nat_alt)
qed

lemma unat_plus_of_nat: "unat (w :: usize) + a < 2 ^ 64 \<Longrightarrow> unat (w + of_nat a) = unat w + a"
  by (simp add: unat_offset)

lemma aligned_room: "8 dvd i \<Longrightarrow> 8 dvd c \<Longrightarrow> i < c \<Longrightarrow> i + 8 \<le> (c :: nat)"
  by presburger

section \<open>Facts on the layout\<close>

lemma skip_dvd: "8 dvd i \<Longrightarrow> 8 dvd length buf \<Longrightarrow> 8 dvd skip_at buf i"
  by (simp add: skip_at_def dvd_diff_nat)

lemma advance_dvd: "8 dvd i \<Longrightarrow> 8 dvd length buf \<Longrightarrow> 8 dvd advance buf i x"
  by (simp add: advance_def skip_dvd HEADER_def)

lemma next_index_dvd: "8 dvd i \<Longrightarrow> 8 dvd length buf \<Longrightarrow> 8 dvd (i + advance buf i x) mod length buf"
  by (simp add: advance_dvd dvd_mod)

lemma record_start:
  "i < length buf \<Longrightarrow> (i + skip_at buf i) mod length buf = (if length_at buf i = WRAP then 0 else i)"
  by (simp add: skip_at_def)

text \<open>The bytes of the record lie at consecutive offsets from \<open>i\<close>.\<close>

lemma record_offset:
  assumes "i < length buf" "t < HEADER + padded (length x)" "record_at buf ((i + skip_at buf i) mod length buf) x"
  shows "(i + (skip_at buf i + t)) mod length buf = (i + skip_at buf i) mod length buf + t"
proof -
  let ?c = "length buf" and ?j = "(i + skip_at buf i) mod length buf"
  have "?j + t < ?c" using assms by (simp add: record_at_def)
  moreover have "(i + (skip_at buf i + t)) mod ?c = (?j + t) mod ?c" by (simp add: mod_add_left_eq add.assoc [symmetric])
  ultimately show ?thesis by simp
qed

lemma layout_cong:
  assumes "layout buf i n xs" "length buf' = length buf" "8 dvd i" "i < length buf" "8 dvd length buf"
    "\<And>j. j < n \<Longrightarrow> buf' ! ((i + j) mod length buf) = buf ! ((i + j) mod length buf)"
  shows "layout buf' i n xs \<and> (boundary buf' i xs k \<longleftrightarrow> boundary buf i xs k)"
  using assms
proof (induction xs arbitrary: i n k)
  case (Cons x xs)
  let ?c = "length buf" and ?a = "advance buf i x" and ?s = "skip_at buf i"
  let ?j = "(i + ?s) mod ?c"
  have L: "?a \<le> n" "record_at buf ?j x" "layout buf ((i + ?a) mod ?c) (n - ?a) xs" using Cons.prems(1) by auto
  have room: "i + 8 \<le> ?c" using Cons.prems(3-5) by (intro aligned_room)
  have n8: "8 \<le> n" using L(1) by (simp add: advance_def HEADER_def)
  have "length_at buf' i = length_at buf i"
    unfolding length_at_def
  proof (intro arg_cong [of _ _ from_le] slice_cong)
    show "buf' ! (i + t) = buf ! (i + t)" if "t < 4" for t using Cons.prems(6) [of t] that n8 room by simp
  qed (use room Cons.prems(2) in auto)
  then have sk: "skip_at buf' i = ?s" and ad: "advance buf' i x = ?a"
    using Cons.prems(2) by (simp_all add: skip_at_def advance_def)
  have same: "buf' ! (?j + t) = buf ! (?j + t)" if "t < HEADER + padded (length x)" for t
    using Cons.prems(6) [of "?s + t"] record_offset [OF Cons.prems(4) that L(2)] that L(1) by (simp add: advance_def)
  have fit: "?j + HEADER + padded (length x) \<le> ?c" "length x < WRAP" using L(2) by (auto simp: record_at_def)
  then have le: "length x \<le> padded (length x)" by (intro padded_ge) (simp add: WRAP_def)
  have "length_at buf' ?j = length_at buf ?j"
    unfolding length_at_def
    by (intro arg_cong [of _ _ from_le] slice_cong) (use same fit Cons.prems(2) in \<open>auto simp: HEADER_def\<close>)
  moreover have "take (length x) (drop (?j + HEADER) buf') = take (length x) (drop (?j + HEADER) buf)"
    by (intro slice_cong) (use same [of "HEADER + _"] fit le Cons.prems(2) in \<open>auto simp: add.assoc\<close>)
  ultimately have rec: "record_at buf' ?j x" using L(2) Cons.prems(2) by (simp add: record_at_def)
  have "layout buf' ((i + ?a) mod ?c) (n - ?a) xs \<and>
      (boundary buf' ((i + ?a) mod ?c) xs m \<longleftrightarrow> boundary buf ((i + ?a) mod ?c) xs m)" for m
  proof (rule Cons.IH [OF L(3) Cons.prems(2)])
    show "8 dvd (i + ?a) mod ?c" using Cons.prems(3,5) by (rule next_index_dvd)
    show "buf' ! (((i + ?a) mod ?c + j) mod ?c) = buf ! (((i + ?a) mod ?c + j) mod ?c)" if "j < n - ?a" for j
      using Cons.prems(6) [of "?a + j"] that by (simp add: mod_add_left_eq add.assoc)
  qed (use Cons.prems in auto)
  then show ?case using L(1) rec sk ad Cons.prems(2) by simp
qed simp

lemma layout_append:
  assumes "layout buf i n xs" "i < length buf" "record_at buf (((i + n) mod length buf + skip_at buf ((i + n) mod length buf)) mod length buf) x"
  shows "layout buf i (n + advance buf ((i + n) mod length buf) x) (xs @ [x])"
  using assms
proof (induction xs arbitrary: i n)
  case (Cons y ys)
  let ?c = "length buf" and ?a = "advance buf i y"
  have L: "?a \<le> n" "layout buf ((i + ?a) mod ?c) (n - ?a) ys" using Cons.prems(1) by auto
  have idx: "((i + ?a) mod ?c + (n - ?a)) mod ?c = (i + n) mod ?c"
    using mod_add_left_eq [of "i + ?a" ?c "n - ?a"] L(1) by (simp only: add.assoc le_add_diff_inverse)
  have "layout buf ((i + ?a) mod ?c) (n - ?a + advance buf ((i + n) mod ?c) x) (ys @ [x])"
    using Cons.IH [OF L(2) mod_less_divisor] Cons.prems(2,3) unfolding idx by linarith
  then show ?case using Cons.prems(1) by simp
qed simp

lemma boundary_append: "boundary buf i xs k \<Longrightarrow> boundary buf i (xs @ [x]) k"
  by (induction xs arbitrary: i k) auto

lemma boundary_all: "layout buf i n xs \<Longrightarrow> boundary buf i xs n"
  by (induction xs arbitrary: i n) auto


section \<open>Writing a record\<close>

definition placed :: "byte list \<Rightarrow> nat \<Rightarrow> nat \<Rightarrow> nat \<Rightarrow> byte list \<Rightarrow> byte list" where
  "placed buf index skip start x =
     (let buf1 = (if skip > 0 then write_at index (le_bytes 4 WRAP) buf else buf);
          buf2 = write_at (start + HEADER) x buf1
      in write_at start (le_bytes 4 (length x)) buf2)"

text \<open>Where a record of \<open>len\<close> bytes goes from an index: a run to skip, and its start.\<close>

definition goes :: "nat \<Rightarrow> nat \<Rightarrow> nat \<Rightarrow> nat \<Rightarrow> nat \<Rightarrow> bool" where
  "goes c index len skip start \<longleftrightarrow>
     (skip = 0 \<and> start = index \<and> index + HEADER + padded len \<le> c)
     \<or> (0 < skip \<and> skip = c - index \<and> start = 0 \<and> skip + HEADER + padded len \<le> c)"

lemma placed_bytes:
  assumes c: "c = length buf" and i: "8 dvd index" "8 dvd c" "index < c" and len: "length x < WRAP"
    and g: "goes c index (length x) skip start"
  shows "length (placed buf index skip start x) = c" "skip_at (placed buf index skip start x) index = skip"
    "record_at (placed buf index skip start x) start x"
    "\<And>p. p < c \<Longrightarrow> \<not> (0 < skip \<and> index \<le> p \<and> p < index + 4) \<Longrightarrow>
       \<not> (start \<le> p \<and> p < start + HEADER + padded (length x)) \<Longrightarrow> placed buf index skip start x ! p = buf ! p"
proof -
  let ?buf1 = "if skip > 0 then write_at index (le_bytes 4 WRAP) buf else buf"
  let ?buf2 = "write_at (start + HEADER) x ?buf1"
  let ?new = "placed buf index skip start x"
  have new: "?new = write_at start (le_bytes 4 (length x)) ?buf2" by (simp add: placed_def)
  have room: "index + 8 \<le> c" using i by (intro aligned_room)
  have pad: "length x \<le> padded (length x)" using len by (intro padded_ge) (simp add: WRAP_def)
  have fit: "start + HEADER + padded (length x) \<le> c" using g by (auto simp: goes_def)
  have l1: "length ?buf1 = c" using c room by simp
  have l2: "length ?buf2 = c" using l1 fit pad by simp
  show l3: "length ?new = c" unfolding new using l2 fit by (simp add: HEADER_def)
  have nth: "?new ! p = (if start \<le> p \<and> p < start + 4 then le_bytes 4 (length x) ! (p - start)
      else if start + HEADER \<le> p \<and> p < start + HEADER + length x then x ! (p - (start + HEADER))
      else if 0 < skip \<and> index \<le> p \<and> p < index + 4 then le_bytes 4 WRAP ! (p - index) else buf ! p)"
    if "p < c" for p
    unfolding new using that l1 l2 fit pad room c by (auto simp: nth_write_at HEADER_def)
  show "?new ! p = buf ! p" if "p < c" "\<not> (0 < skip \<and> index \<le> p \<and> p < index + 4)"
    "\<not> (start \<le> p \<and> p < start + HEADER + padded (length x))" for p
    unfolding nth [OF that(1)] using that pad by (auto simp: HEADER_def)
  have "take 4 (drop start ?new) = le_bytes 4 (length x)"
    using slice_write_at [of start "le_bytes 4 (length x)" ?buf2] l2 fit new by (simp add: HEADER_def)
  then have la: "length_at ?new start = length x" using len by (simp add: length_at_def WRAP_def)
  have "take (length x) (drop (start + HEADER) ?new) = x"
    using nth fit pad l3 by (intro nth_equalityI) (auto simp: HEADER_def)
  then show "record_at ?new start x" using la fit l3 len by (simp add: record_at_def)
  have "length_at ?new index = WRAP" if "0 < skip"
  proof -
    have "start + HEADER + padded (length x) \<le> index" using g that room by (auto simp: goes_def)
    then have "take 4 (drop index ?new) = le_bytes 4 WRAP"
      using nth room l3 that pad by (intro nth_equalityI) (auto simp: HEADER_def)
    then show ?thesis by (simp add: length_at_def WRAP_def)
  qed
  then show "skip_at ?new index = skip" using la len g l3 by (auto simp: skip_at_def goes_def)
qed

lemma layout_placed:
  assumes lay: "layout buf i n xs" and c: "c = length buf" "8 dvd c" and i: "8 dvd i" "i < c" "8 dvd n"
    and len: "length x < WRAP" and g: "goes c ((i + n) mod c) (length x) skip start"
    and room: "n + skip + HEADER + padded (length x) \<le> c"
  shows "layout (placed buf ((i + n) mod c) skip start x) i (n + (skip + HEADER + padded (length x))) (xs @ [x])"
    and "boundary buf i xs k \<Longrightarrow> boundary (placed buf ((i + n) mod c) skip start x) i (xs @ [x]) k"
proof -
  let ?t = "(i + n) mod c"
  let ?new = "placed buf ?t skip start x"
  have t: "8 dvd ?t" "?t < c" using i c by (auto simp: dvd_mod)
  note P = placed_bytes [OF c(1) t(1) c(2) t(2) len g]
  have st: "start = (?t + skip) mod c" using g t(2) by (auto simp: goes_def)
  have same: "?new ! ((i + j) mod c) = buf ! ((i + j) mod c)" if j: "j < n" for j
  proof (rule P(4))
    have off: "(i + j) mod c \<noteq> (i + (n + s)) mod c" if "s < skip + HEADER + padded (length x)" for s
      using mod_offset_inj [of i j c "n + s"] j that room by auto
    show "(i + j) mod c < c" using i(2) by simp
    show "\<not> (0 < skip \<and> ?t \<le> (i + j) mod c \<and> (i + j) mod c < ?t + 4)"
    proof
      assume a: "0 < skip \<and> ?t \<le> (i + j) mod c \<and> (i + j) mod c < ?t + 4"
      let ?s = "(i + j) mod c - ?t"
      have "(i + (n + ?s)) mod c = (?t + ?s) mod c" by (simp add: mod_add_left_eq add.assoc [symmetric])
      also have "\<dots> = (i + j) mod c" using a i(2) by simp
      finally have "(i + (n + ?s)) mod c = (i + j) mod c" .
      moreover have "?s < skip + HEADER + padded (length x)"
        using a unfolding HEADER_def by arith
      ultimately show False using off [of ?s] by simp
    qed
    show "\<not> (start \<le> (i + j) mod c \<and> (i + j) mod c < start + HEADER + padded (length x))"
    proof
      assume a: "start \<le> (i + j) mod c \<and> (i + j) mod c < start + HEADER + padded (length x)"
      let ?s = "(i + j) mod c - start"
      have "(i + (n + (skip + ?s))) mod c = ((i + n + skip) + ?s) mod c" by (simp only: add.assoc)
      also have "\<dots> = (start + ?s) mod c" unfolding st by (metis mod_add_left_eq)
      also have "\<dots> = (i + j) mod c" using a i(2) by simp
      finally have "(i + (n + (skip + ?s))) mod c = (i + j) mod c" .
      moreover have "skip + ?s < skip + HEADER + padded (length x)" using a by arith
      ultimately show False using off [of "skip + ?s"] by simp
    qed
  qed
  note cong = layout_cong [OF lay P(1) [unfolded c(1)] i(1) i(2) [unfolded c(1)] c(2) [unfolded c(1)] same [unfolded c(1)], folded c(1)]
  have "record_at ?new ((?t + skip_at ?new ?t) mod c) x" using P(2,3) st by simp
  then show "layout ?new i (n + (skip + HEADER + padded (length x))) (xs @ [x])"
    using layout_append [of ?new i n xs x] cong P(1,2) i(2) by (simp add: advance_def add.assoc)
  show "boundary ?new i (xs @ [x]) k" if "boundary buf i xs k"
    using cong that boundary_append by blast
qed


lemma bytes_holdD:
  assumes "bytes_hold r xs"
  shows "br_shape r" "br_head r = br_chead r" "br_tail r = br_ptail r" "8 dvd unat (br_chead r)" "8 dvd unat (br_ptail r)"
    "unat (br_ptail r - br_chead r) \<le> unat (br_ptail r - br_cached_head r)"
    "unat (br_ptail r - br_cached_head r) \<le> br_capacity r"
    "layout (br_buf r) (unat (br_chead r) mod br_capacity r) (unat (br_ptail r - br_chead r)) xs"
    "boundary (br_buf r) (unat (br_chead r) mod br_capacity r) xs (unat (br_cached_tail r - br_chead r))"
  using assms by (auto simp: bytes_hold_def Let_def)

lemma bytes_hold_index:
  assumes "bytes_hold r xs"
  shows "(unat (br_chead r) mod br_capacity r + unat (br_ptail r - br_chead r)) mod br_capacity r = unat (br_ptail r) mod br_capacity r"
    and "8 dvd unat (br_ptail r - br_chead r)"
proof -
  note H = bytes_holdD [OF assms]
  have "unat (br_ptail r) = unat (br_chead r + of_nat (unat (br_ptail r - br_chead r)))" by simp
  then show "(unat (br_chead r) mod br_capacity r + unat (br_ptail r - br_chead r)) mod br_capacity r = unat (br_ptail r) mod br_capacity r"
    using shape_facts(5) [OF H(1), of "br_chead r" "unat (br_ptail r - br_chead r)"] by (simp add: mod_add_left_eq)
  have "8 dvd (2::nat) ^ 64" by simp
  have "unat (br_ptail r) = (unat (br_chead r) + unat (br_ptail r - br_chead r)) mod 2 ^ 64"
    using unat_offset [of "br_chead r" "unat (br_ptail r - br_chead r)"] by simp
  then have "8 dvd (unat (br_chead r) + unat (br_ptail r - br_chead r))"
    using H(5) dvd_mod_iff [OF \<open>8 dvd (2::nat) ^ 64\<close>] by metis
  then show "8 dvd unat (br_ptail r - br_chead r)" using H(4) by (simp add: dvd_add_right_iff)
qed

lemma bytes_hold_refresh: "bytes_hold r xs \<Longrightarrow> bytes_hold (r\<lparr>br_cached_head := br_head r\<rparr>) xs"
  using order_trans [OF bytes_holdD(6,7) [of r xs]]
  by (auto simp: bytes_hold_def Let_def br_shape_def br_capacity_def)

text \<open>Where \<open>write_with\<close> puts a record, and that it then fits.\<close>

definition record_size :: "nat \<Rightarrow> nat" where
  "record_size len = HEADER + padded len"

definition run_to_skip :: "nat \<Rightarrow> nat \<Rightarrow> nat \<Rightarrow> nat" where
  "run_to_skip c index len = (if record_size len > c - index then c - index else 0)"

lemma half_capacity:
  assumes "br_shape r" "len \<le> max_record r"
  shows "record_size len \<le> br_capacity r div 2" "len < WRAP" "8 dvd record_size len"
proof -
  note S = shape_facts [OF assms(1)]
  obtain k where k: "6 \<le> k" "br_capacity r = 2 ^ k" using assms(1) by (auto simp: br_shape_def)
  have half: "br_capacity r div 2 = 2 ^ (k - 1)" using k by (cases k) auto
  have "(2::nat) ^ 3 dvd 2 ^ (k - 1)" using k by (intro le_imp_power_dvd) simp
  then have d: "8 dvd br_capacity r div 2" using half by simp
  have m: "len \<le> br_capacity r div 2 - 8" using assms(2) by (simp add: max_record_def HEADER_def)
  have "padded len \<le> br_capacity r div 2 - 8" using m d S(2) by (intro padded_le) (auto simp: dvd_diff_nat)
  moreover have "8 \<le> br_capacity r div 2" using S(1) by simp
  ultimately show "record_size len \<le> br_capacity r div 2" unfolding record_size_def HEADER_def by linarith
  show "len < WRAP" using m S(2) by (simp add: WRAP_def)
  show "8 dvd record_size len" by (simp add: record_size_def HEADER_def)
qed

lemma write_with_eq:
  assumes "br_shape r" "len \<le> max_record r"
  defines "index \<equiv> unat (br_ptail r) mod br_capacity r"
  defines "skip \<equiv> run_to_skip (br_capacity r) index len"
  defines "start \<equiv> (if skip = 0 then index else 0)"
  defines "needed \<equiv> skip + record_size len"
  shows "write_with len fill r =
    (if free_space r < needed then
       let r1 = r\<lparr>br_cached_head := br_head r\<rparr> in
       if free_space r1 < needed then (Err Full, r1) else (Ok (), write_record index skip start len needed fill r1)
     else (Ok (), write_record index skip start len needed fill r))"
proof -
  note S = shape_facts [OF assms(1)] and H = half_capacity [OF assms(1,2)]
  have "record_size len < 2 ^ 63" using H(1) S(2) by simp
  moreover have "skip \<le> br_capacity r" by (simp add: skip_def run_to_skip_def)
  ultimately have sat: "sat_u64 (record_size len) = record_size len" "sat_u64 (skip + record_size len) = skip + record_size len"
    using S(2) by (auto intro!: sat_u64_id simp: range_defs)
  have idx: "index < br_capacity r" using S(1) by (simp add: index_def)
  have pair: "(if record_size len > br_capacity r - index then (br_capacity r - index, 0) else (0, index)) = (skip, start)"
    using idx by (auto simp: skip_def start_def run_to_skip_def)
  show ?thesis
    using assms(2) sat pair by (simp add: write_with_def S(4) Let_def index_def [symmetric] record_size_def [symmetric] needed_def)
qed

lemma write_record_placed:
  assumes "length (fill (take len (drop (start + HEADER) (if skip > 0 then write_at index (le_bytes 4 WRAP) (br_buf r) else br_buf r)))) = len"
    "len < WRAP"
  shows "write_record index skip start len needed fill r =
     r\<lparr>br_buf := placed (br_buf r) index skip start
         (fill (take len (drop (start + HEADER) (if skip > 0 then write_at index (le_bytes 4 WRAP) (br_buf r) else br_buf r)))),
       br_ptail := br_ptail r + of_nat needed, br_tail := br_ptail r + of_nat needed\<rparr>"
  using assms by (simp add: write_record_def placed_def Let_def WRAP_def)


lemma goes_run:
  assumes "br_shape r" "len \<le> max_record r" "index < br_capacity r"
    "run_to_skip (br_capacity r) index len + record_size len \<le> br_capacity r"
  shows "goes (br_capacity r) index len (run_to_skip (br_capacity r) index len)
     (if run_to_skip (br_capacity r) index len = 0 then index else 0)"
  using assms by (auto simp: goes_def run_to_skip_def record_size_def)

lemma bytes_hold_stored:
  assumes h: "bytes_hold r xs" and len: "length x \<le> max_record r"
  defines "index \<equiv> unat (br_ptail r) mod br_capacity r"
  defines "skip \<equiv> run_to_skip (br_capacity r) index (length x)"
  defines "start \<equiv> (if skip = 0 then index else 0)"
  defines "needed \<equiv> skip + record_size (length x)"
  assumes room: "\<not> free_space r < needed"
  shows "bytes_hold (write_record index skip start (length x) needed (\<lambda>_. x) r) (xs @ [x])"
proof -
  note H = bytes_holdD [OF h] and X = bytes_hold_index [OF h]
  note S = shape_facts [OF H(1)] and R = half_capacity [OF H(1) len]
  let ?c = "br_capacity r" and ?n = "unat (br_ptail r - br_chead r)" and ?i = "unat (br_chead r) mod br_capacity r"
  let ?lag = "unat (br_ptail r - br_cached_head r)"
  let ?r' = "write_record index skip start (length x) needed (\<lambda>_. x) r"
  have r': "?r' = r\<lparr>br_buf := placed (br_buf r) index skip start x,
      br_ptail := br_ptail r + of_nat needed, br_tail := br_ptail r + of_nat needed\<rparr>"
    using R(2) by (subst write_record_placed) auto
  have pos: "8 \<le> needed" by (simp add: needed_def record_size_def HEADER_def)
  have fit: "?lag + needed \<le> ?c" using room H(7) pos by (simp add: free_space_def)
  have idx: "index < ?c" "?i < ?c" using S(1) by (auto simp: index_def)
  have g: "goes ?c index (length x) skip start"
    unfolding skip_def start_def using H(1) len idx(1) fit by (intro goes_run) (auto simp: needed_def skip_def)
  have t: "(?i + ?n) mod ?c = index" using X(1) by (simp add: index_def)
  have d: "8 dvd ?i" using H(4) S(3) by (simp add: dvd_mod)
  have fit': "?n + skip + HEADER + padded (length x) \<le> ?c"
    using fit H(6) by (simp add: needed_def record_size_def)
  have cb: "?c = length (br_buf r)" by (simp add: br_capacity_def)
  note L = layout_placed [OF H(8) cb S(3) d idx(2) X(2) R(2), unfolded t, OF g fit']
  have len': "length (placed (br_buf r) index skip start x) = ?c"
    using placed_bytes(1) [OF cb _ S(3) idx(1) R(2) g] H(5) S(3) by (simp add: index_def dvd_mod)
  have big: "?c < 2 ^ 63" using S(2) by simp
  have tail: "unat (br_ptail r + of_nat needed - br_chead r) = ?n + needed"
    "unat (br_ptail r + of_nat needed - br_cached_head r) = ?lag + needed"
    using unat_plus_of_nat [of "br_ptail r - br_chead r" needed] unat_plus_of_nat [of "br_ptail r - br_cached_head r" needed]
      fit H(6) big by (simp_all add: algebra_simps)
  have "8 dvd needed"
    using S(3) H(5) R(3) by (auto simp: needed_def skip_def run_to_skip_def index_def dvd_mod dvd_diff_nat)
  then have dt: "8 dvd unat (br_ptail r + of_nat needed)" using H(5) by (simp add: unat_offset dvd_mod)
  have "br_shape ?r'" "br_capacity ?r' = ?c" using H(1) len' by (auto simp: r' br_shape_def br_capacity_def)
  moreover have nd: "skip + HEADER + padded (length x) = needed" by (simp add: needed_def record_size_def)
  ultimately show ?thesis
    using H(2-6) L(1) [unfolded nd] L(2) [OF H(9)] tail dt fit by (simp add: bytes_hold_def r' Let_def)
qed

lemma bytes_push_holds:
  assumes h: "bytes_hold r xs" and p: "bytes_push x r = (res, r')"
  shows "(if is_ok res then bytes_hold r' (xs @ [x]) else bytes_hold r' xs)
    \<and> (length x \<le> max_record r \<longrightarrow> res = Ok () \<or> res = Err Full)
    \<and> (max_record r < length x \<longrightarrow> res = Err (TooLarge (length x) (max_record r)) \<and> r' = r)"
proof (cases "length x \<le> max_record r")
  case True
  let ?r1 = "r\<lparr>br_cached_head := br_head r\<rparr>"
  have h1: "bytes_hold ?r1 xs" by (rule bytes_hold_refresh [OF h])
  have same: "br_capacity ?r1 = br_capacity r" "max_record ?r1 = max_record r" by (simp_all add: br_capacity_def max_record_def)
  show ?thesis
    using True p write_with_eq [OF bytes_holdD(1) [OF h] True, of "\<lambda>_. x"]
      bytes_hold_stored [OF h True] bytes_hold_stored [OF h1, of x] h1
    by (auto simp: bytes_push_def Let_def same split: if_splits)
next
  case False
  then show ?thesis using h p by (auto simp: bytes_push_def write_with_def)
qed

text \<open>A record within the maximum always fits an empty ring, wherever its position.\<close>

lemma bytes_push_empty:
  assumes h: "bytes_hold r []" and len: "length x \<le> max_record r"
  shows "fst (bytes_push x r) = Ok ()"
proof -
  note H = bytes_holdD [OF h]
  note S = shape_facts [OF H(1)] and R = half_capacity [OF H(1) len]
  let ?c = "br_capacity r" and ?index = "unat (br_ptail r) mod br_capacity r"
  have "unat (br_ptail r - br_head r) = 0" using H(2,8) by simp
  then have free: "free_space (r\<lparr>br_cached_head := br_head r\<rparr>) = ?c" by (simp add: free_space_def br_capacity_def)
  have "run_to_skip ?c ?index (length x) + record_size (length x) \<le> ?c"
    using R(1) by (auto simp: run_to_skip_def)
  then show ?thesis
    using write_with_eq [OF H(1) len, of "\<lambda>_. x"] free by (auto simp: bytes_push_def Let_def)
qed

text \<open>A \<open>fill\<close> that overwrites the whole slot it is given stores the same bytes as a push.\<close>

lemma slot_inside:
  assumes h: "bytes_hold r xs" and len: "len \<le> max_record r"
  defines "index \<equiv> unat (br_ptail r) mod br_capacity r"
  defines "skip \<equiv> run_to_skip (br_capacity r) index len"
  defines "start \<equiv> (if skip = 0 then index else 0)"
  shows "length (take len (drop (start + HEADER) (if skip > 0 then write_at index (le_bytes 4 WRAP) (br_buf r) else br_buf r))) = len"
proof -
  note H = bytes_holdD [OF h]
  note S = shape_facts [OF H(1)] and R = half_capacity [OF H(1) len]
  have idx: "index < br_capacity r" using S(1) by (simp add: index_def)
  have "8 dvd index" using H(5) S(3) by (simp add: index_def dvd_mod)
  then have "index + 8 \<le> br_capacity r" using aligned_room [OF _ S(3) idx] by simp
  then have buf: "length (if skip > 0 then write_at index (le_bytes 4 WRAP) (br_buf r) else br_buf r) = br_capacity r"
    by (auto simp: br_capacity_def)
  have "len \<le> padded len" using R(2) by (intro padded_ge) (simp add: WRAP_def)
  then have "len + HEADER \<le> record_size len" by (simp add: record_size_def)
  then have "start + HEADER + len \<le> br_capacity r"
    using R(1) idx by (auto simp: start_def skip_def run_to_skip_def split: if_splits)
  then show ?thesis using buf by simp
qed

lemma write_with_fill:
  assumes h: "bytes_hold r xs" and fill: "\<And>dst. length dst = length x \<Longrightarrow> fill dst = x"
  shows "write_with (length x) fill r = bytes_push x r"
proof (cases "length x \<le> max_record r")
  case True
  let ?r1 = "r\<lparr>br_cached_head := br_head r\<rparr>"
  let ?index = "unat (br_ptail r) mod br_capacity r"
  let ?skip = "run_to_skip (br_capacity r) ?index (length x)"
  let ?w = "\<lambda>fill q. write_record ?index ?skip (if ?skip = 0 then ?index else 0) (length x) (?skip + record_size (length x)) fill q"
  have a: "?w fill r = ?w (\<lambda>_. x) r" unfolding write_record_def Let_def fill [OF slot_inside [OF h True]] ..
  have sel: "br_buf ?r1 = br_buf r" by simp
  have b: "?w fill ?r1 = ?w (\<lambda>_. x) ?r1" unfolding write_record_def Let_def sel fill [OF slot_inside [OF h True]] ..
  show ?thesis unfolding bytes_push_def write_with_eq [OF bytes_holdD(1) [OF h] True] Let_def a b ..
next
  case False
  then show ?thesis by (simp add: bytes_push_def write_with_def)
qed

section \<open>Reading a record\<close>

lemma see_tail_sel [simp]:
  "br_buf (see_tail r) = br_buf r" "br_mask (see_tail r) = br_mask r" "br_head (see_tail r) = br_head r"
  "br_tail (see_tail r) = br_tail r" "br_ptail (see_tail r) = br_ptail r" "br_chead (see_tail r) = br_chead r"
  "br_cached_head (see_tail r) = br_cached_head r" "br_capacity (see_tail r) = br_capacity r"
  by (auto simp: see_tail_def br_capacity_def)

lemma bytes_hold_see_tail:
  assumes "bytes_hold r xs" shows "bytes_hold (see_tail r) xs"
  using assms boundary_all [OF bytes_holdD(8) [OF assms]]
  by (auto simp: see_tail_def bytes_hold_def Let_def br_shape_def br_capacity_def)

lemma see_tail_empty:
  assumes "bytes_hold r xs" shows "br_chead (see_tail r) = br_cached_tail (see_tail r) \<longleftrightarrow> xs = []"
proof -
  note H = bytes_holdD [OF assms]
  show ?thesis
  proof (cases xs)
    case Nil
    then have "br_cached_tail r = br_chead r" "br_ptail r = br_chead r"
      using H(8,9) by (auto simp: unat_eq_zero)
    then show ?thesis using Nil H(3) by (simp add: see_tail_def)
  next
    case (Cons x ys)
    then have "0 < unat (br_ptail r - br_chead r)" using H(8) by (auto simp: advance_def HEADER_def)
    then have "br_ptail r \<noteq> br_chead r" by auto
    then show ?thesis using Cons H(3) by (auto simp: see_tail_def)
  qed
qed

lemma read_index_eq: "br_shape r \<Longrightarrow> read_index r = unat (br_chead r) mod br_capacity r"
  by (simp add: read_index_def shape_facts)

lemma move_head_sel [simp]:
  "br_buf (move_head n r) = br_buf r" "br_mask (move_head n r) = br_mask r" "br_tail (move_head n r) = br_tail r"
  "br_ptail (move_head n r) = br_ptail r" "br_cached_head (move_head n r) = br_cached_head r"
  "br_cached_tail (move_head n r) = br_cached_tail r" "br_capacity (move_head n r) = br_capacity r"
  "br_chead (move_head n r) = br_chead r + of_nat n" "br_head (move_head n r) = br_chead r + of_nat n"
  "br_shape (move_head n r) = br_shape r"
  by (simp_all add: move_head_def Let_def br_capacity_def br_shape_def)

lemma bytes_hold_taken:
  assumes h: "bytes_hold r (x # xs)" and ne: "br_chead r \<noteq> br_cached_tail r"
  defines "a \<equiv> advance (br_buf r) (unat (br_chead r) mod br_capacity r) x"
  shows "bytes_hold (move_head a r) xs" "a \<le> unat (br_cached_tail r - br_chead r)"
proof -
  note H = bytes_holdD [OF h]
  note S = shape_facts [OF H(1)]
  let ?c = "br_capacity r" and ?n = "unat (br_ptail r - br_chead r)" and ?i = "unat (br_chead r) mod br_capacity r"
  let ?k = "unat (br_cached_tail r - br_chead r)"
  have c: "length (br_buf r) = ?c" by (simp add: br_capacity_def)
  have k: "?k \<noteq> 0" using ne by (auto simp: unat_eq_zero)
  show ak: "a \<le> ?k" using H(9) k by (simp add: a_def)
  have L: "a \<le> ?n" "layout (br_buf r) ((?i + a) mod ?c) (?n - a) xs" "boundary (br_buf r) ((?i + a) mod ?c) xs (?k - a)"
    using H(8,9) k by (auto simp: a_def c)
  have i: "unat (br_chead r + of_nat a) mod ?c = (?i + a) mod ?c"
    using S(5) [of "br_chead r" a] by (simp add: mod_add_left_eq)
  have "8 dvd ?i" using H(4) S(3) by (simp add: dvd_mod)
  then have "8 dvd a" unfolding a_def using S(3) by (intro advance_dvd) (auto simp: c)
  then have d: "8 dvd unat (br_chead r + of_nat a)" using H(4) by (simp add: unat_offset dvd_mod)
  have sub: "br_ptail r - (br_chead r + of_nat a) = br_ptail r - br_chead r - of_nat a"
    "br_cached_tail r - (br_chead r + of_nat a) = br_cached_tail r - br_chead r - of_nat a" by simp_all
  have n: "unat (br_ptail r - (br_chead r + of_nat a)) = ?n - a" "unat (br_cached_tail r - (br_chead r + of_nat a)) = ?k - a"
    unfolding sub using unat_minus_of_nat L(1) ak by auto
  show "bytes_hold (move_head a r) xs"
    using H(1,3,5,6,7) L d n i by (simp add: bytes_hold_def Let_def)
qed


lemma read_with_unfold:
  assumes "br_chead (see_tail r) \<noteq> br_cached_tail (see_tail r)"
  shows "read_with r =
    (if read_len (see_tail r) = WRAP then read_with (move_head (br_capacity r - read_index (see_tail r)) (see_tail r))
     else Some (Some (take (read_len (see_tail r)) (drop (read_index (see_tail r) + HEADER) (br_buf r))),
                move_head (HEADER + padded (read_len (see_tail r))) (see_tail r)))"
  using assms by (subst read_with.simps) (simp add: Let_def)

lemma move_head_move_head: "move_head b (move_head a r) = move_head (a + b) r"
  by (simp add: move_head_def Let_def add.assoc)

lemma read_with_record:
  assumes h: "bytes_hold r (x # xs)" and ne: "br_chead r \<noteq> br_cached_tail r"
  shows "read_with r = Some (Some x, move_head (advance (br_buf r) (unat (br_chead r) mod br_capacity r) x) r)"
proof -
  note H = bytes_holdD [OF h] and T = bytes_hold_taken [OF h ne]
  note S = shape_facts [OF H(1)]
  let ?i = "unat (br_chead r) mod br_capacity r" and ?c = "br_capacity r"
  have i: "?i < ?c" using S(1) by (intro mod_less_divisor) simp
  have c: "length (br_buf r) = ?c" by (simp add: br_capacity_def)
  have st: "see_tail r = r" using ne by (simp add: see_tail_def)
  have rl: "read_len r = length_at (br_buf r) ?i" by (simp add: read_len_def length_at_def read_index_eq [OF H(1)])
  have rec: "record_at (br_buf r) (if length_at (br_buf r) ?i = WRAP then 0 else ?i) x"
    using H(8) record_start [of ?i "br_buf r"] i by (simp add: c)
  show ?thesis
  proof (cases "length_at (br_buf r) ?i = WRAP")
    case False
    then have "skip_at (br_buf r) ?i = 0" by (simp add: skip_at_def)
    then show ?thesis using False rec ne st rl read_with_unfold [of r] read_index_eq [OF H(1)]
      by (simp add: record_at_def advance_def)
  next
    case True
    let ?r2 = "move_head (?c - ?i) r"
    have sk: "skip_at (br_buf r) ?i = ?c - ?i" using True by (simp add: skip_at_def c)
    have one: "read_with r = read_with ?r2"
      using ne st rl True read_with_unfold [of r] read_index_eq [OF H(1)] by simp
    have "unat (br_cached_tail r - br_chead r - of_nat (?c - ?i)) = unat (br_cached_tail r - br_chead r) - (?c - ?i)"
      using T(2) sk by (intro unat_minus_of_nat) (simp add: advance_def)
    then have "0 < unat (br_cached_tail r - (br_chead r + of_nat (?c - ?i)))"
      using T(2) sk by (simp add: advance_def HEADER_def diff_diff_eq)
    then have ne2: "br_chead ?r2 \<noteq> br_cached_tail ?r2" by auto
    then have st2: "see_tail ?r2 = ?r2" by (simp add: see_tail_def)
    have "(unat (br_chead r) + (?c - ?i)) mod ?c = (?i + (?c - ?i)) mod ?c" by (metis mod_add_left_eq)
    then have ix2: "read_index ?r2 = 0" using i H(1) S(5) [of "br_chead r" "?c - ?i"] by (simp add: read_index_eq)
    then have rl2: "read_len ?r2 = length x" "length x \<noteq> WRAP" using rec True by (auto simp: read_len_def record_at_def length_at_def)
    have "read_with ?r2 = Some (Some x, move_head (HEADER + padded (length x)) ?r2)"
      using ne2 st2 rl2 ix2 rec True read_with_unfold [of ?r2] by (simp add: record_at_def)
    then show ?thesis using one sk by (simp add: move_head_move_head advance_def add.assoc)
  qed
qed

lemma read_with_see_tail: "bytes_hold r (x # xs) \<Longrightarrow> read_with r = read_with (see_tail r)"
proof -
  assume h: "bytes_hold r (x # xs)"
  have "see_tail (see_tail r) = see_tail r" using see_tail_empty [OF h] by (simp add: see_tail_def)
  then show ?thesis by (subst (1 2) read_with.simps) simp
qed

lemma read_with_holds:
  assumes "bytes_hold r xs"
  shows "\<exists>y r'. read_with r = Some (y, r') \<and> (case xs of [] \<Rightarrow> y = None \<and> bytes_hold r' [] | x # ys \<Rightarrow> y = Some x \<and> bytes_hold r' ys)"
proof (cases xs)
  case Nil
  then have "read_with r = Some (None, see_tail r)"
    using see_tail_empty [OF assms] by (subst read_with.simps) (simp add: Let_def)
  then show ?thesis using Nil bytes_hold_see_tail [OF assms] by simp
next
  case (Cons x ys)
  have h: "bytes_hold (see_tail r) (x # ys)" using bytes_hold_see_tail [OF assms] Cons by simp
  have ne: "br_chead (see_tail r) \<noteq> br_cached_tail (see_tail r)" using see_tail_empty [OF assms] Cons by simp
  show ?thesis using read_with_record [OF h ne] bytes_hold_taken(1) [OF h ne] read_with_see_tail assms Cons by auto
qed

lemma bytes_channel_holds:
  assumes "bytes_channel cap = Ok r" shows "bytes_hold r []" "br_capacity r = cap"
proof -
  have cap: "is_power_of_two cap" "64 \<le> cap" "cap \<le> 2 ^ 31" and
    r: "r = \<lparr>br_buf = replicate cap 0, br_mask = of_nat cap - 1, br_head = 0, br_tail = 0,
         br_ptail = 0, br_cached_head = 0, br_chead = 0, br_cached_tail = 0\<rparr>"
    using assms by (auto simp: bytes_channel_def MIN_CAPACITY_def split: if_splits)
  show c: "br_capacity r = cap" by (simp add: r br_capacity_def)
  obtain k where k: "cap = 2 ^ k" using cap(1) is_power_of_two_exp by blast
  have "\<not> k < 6"
  proof
    assume "k < 6"
    then have "(2::nat) ^ k \<le> 2 ^ 5" by (intro power_increasing) auto
    then show False using cap(2) k by simp
  qed
  moreover have "\<not> 31 < k"
  proof
    assume "31 < k"
    then have "(2::nat) ^ 32 \<le> 2 ^ k" by (intro power_increasing) auto
    then show False using cap(3) k by simp
  qed
  ultimately have "br_shape r" using c k by (auto simp: br_shape_def r intro!: exI [of _ k])
  then show "bytes_hold r []" by (simp add: bytes_hold_def Let_def r)
qed

definition bytes_push_ok :: "byte list \<Rightarrow> bytes_ring \<Rightarrow> bool \<times> bytes_ring" where
  "bytes_push_ok x r = (let (res, r') = bytes_push x r in (is_ok res, r'))"

definition bytes_pop :: "bytes_ring \<Rightarrow> byte list option \<times> bytes_ring" where
  "bytes_pop r = the (read_with r)"

interpretation byte_ring: fifo bytes_hold bytes_push_ok bytes_pop
proof unfold_locales
  fix r xs x ok r'
  assume "bytes_hold r xs" "bytes_push_ok x r = (ok, r')"
  then show "bytes_hold r' (if ok then xs @ [x] else xs)"
    using bytes_push_holds [of r xs x] by (auto simp: bytes_push_ok_def split: prod.splits if_splits)
next
  fix r y r'
  assume "bytes_hold r []" "bytes_pop r = (y, r')"
  then show "y = None \<and> bytes_hold r' []" using read_with_holds [of r "[]"] by (auto simp: bytes_pop_def)
next
  fix r x xs y r'
  assume "bytes_hold r (x # xs)" "bytes_pop r = (y, r')"
  then show "y = Some x \<and> bytes_hold r' xs" using read_with_holds [of r "x # xs"] by (auto simp: bytes_pop_def)
qed

section \<open>Properties\<close>

text \<open>C12: The byte ring hands out whole records, unchanged and in the order they were accepted,
  across wrap markers and the wrap of its counters, and reading always returns.\<close>

theorem bytes_ring_records:
  assumes "bytes_hold r xs" "queue_run bytes_push_ok bytes_pop ops r = (ins, outs, r')"
  shows "\<exists>ys. bytes_hold r' ys \<and> xs @ ins = outs @ ys \<and> read_with r' \<noteq> None"
  using byte_ring.queue_run_fifo [OF assms] read_with_holds by fastforce

definition demo_bytes_ring :: bytes_ring where
  "demo_bytes_ring = \<lparr>br_buf = replicate 64 0, br_mask = 63, br_head = 48, br_tail = 48,
     br_ptail = 48, br_cached_head = 48, br_chead = 48, br_cached_tail = 48\<rparr>"

lemma demo_bytes_ring_holds: "bytes_hold demo_bytes_ring []"
  by (auto simp: bytes_hold_def Let_def demo_bytes_ring_def br_shape_def br_capacity_def intro!: exI [of _ 6])

theorem bytes_ring_records_witness:
  "\<exists>r' ys. queue_run bytes_push_ok bytes_pop [Push (replicate 16 7), Pop] demo_bytes_ring = ([replicate 16 7], [replicate 16 7], r')
     \<and> bytes_hold r' ys \<and> [] @ [replicate 16 7] = [replicate 16 7] @ ys"
proof -
  let ?x = "replicate 16 7 :: byte list"
  have "fst (bytes_push_ok ?x demo_bytes_ring) = True"
    using bytes_push_empty [OF demo_bytes_ring_holds, of ?x]
    by (auto simp: bytes_push_ok_def max_record_def demo_bytes_ring_def br_capacity_def HEADER_def split: prod.splits)
  then obtain r1 where r1: "bytes_push_ok ?x demo_bytes_ring = (True, r1)" by (metis prod.collapse)
  have "bytes_hold r1 [?x]" using byte_ring.push_holds [OF demo_bytes_ring_holds r1] by simp
  then obtain r2 where "bytes_pop r1 = (Some ?x, r2)" using read_with_holds [of r1 "[?x]"] by (auto simp: bytes_pop_def)
  then have run: "queue_run bytes_push_ok bytes_pop [Push ?x, Pop] demo_bytes_ring = ([?x], [?x], r2)" using r1 by simp
  from bytes_ring_records [OF demo_bytes_ring_holds run] run show ?thesis by blast
qed

text \<open>A record up to the maximum is refused only while the ring is occupied; one above the
  maximum is always refused and changes nothing.\<close>

lemma bytes_ring_accepts:
  assumes "bytes_hold r xs"
  shows "(length x \<le> max_record r \<and> xs = [] \<longrightarrow> fst (bytes_push x r) = Ok ())
    \<and> (length x \<le> max_record r \<longrightarrow> fst (bytes_push x r) = Ok () \<or> fst (bytes_push x r) = Err Full)
    \<and> (max_record r < length x \<longrightarrow> bytes_push x r = (Err (TooLarge (length x) (max_record r)), r))"
  using bytes_push_empty [of r x] bytes_push_holds [OF assms, of x] assms
  by (cases "bytes_push x r") auto

end
