(* ===== verification/Journal_Format.thy ===== *)
theory Journal_Format
  imports Bytes_Ring
begin

text \<open>
  \<open>crates/bowst-journal/src/format.rs\<close>: the on-disk format of the journal.

  The CRC-32 is the crate crc32fast.  It is a parameter \<open>crc\<close> of the definitions that use it, a
  function from the bytes fed to a hasher to a u32; feeding them in several updates hashes their
  concatenation.  Nothing else is assumed of it: the theorems hold for every such function.
\<close>

section \<open>Constants and types\<close>

definition MAGIC :: "byte list" where "MAGIC = ascii ''BOWSTJNL''"
definition VERSION :: nat where "VERSION = 1"
definition FILE_HEADER_LEN :: nat where "FILE_HEADER_LEN = 32"
definition RECORD_HEADER_LEN :: nat where "RECORD_HEADER_LEN = 32"
definition MAX_PAYLOAD :: nat where "MAX_PAYLOAD = 16 * 2 ^ 20"
definition CRC_AT :: nat where "CRC_AT = 24"
definition HEADER_CRC_AT :: nat where "HEADER_CRC_AT = 28"

lemmas format_consts = VERSION_def FILE_HEADER_LEN_def RECORD_HEADER_LEN_def MAX_PAYLOAD_def CRC_AT_def HEADER_CRC_AT_def

type_synonym kind = nat

definition GAP :: kind where "GAP = 1"
definition SESSION_START :: kind where "SESSION_START = 2"
definition MD_MESSAGE :: kind where "MD_MESSAGE = 256"
definition MD_SNAPSHOT :: kind where "MD_SNAPSHOT = 257"
definition MD_STATUS :: kind where "MD_STATUS = 258"
definition MD_RESET :: kind where "MD_RESET = 259"
definition MD_VERIFY_START :: kind where "MD_VERIFY_START = 260"
definition MD_VERIFY_SNAPSHOT :: kind where "MD_VERIFY_SNAPSHOT = 261"

record record_header =
  rh_kind :: kind
  rh_source :: nat
  rh_mono :: nanos
  rh_wall :: nanos

text \<open>The fields are a u16, a u16, a u64 and a u64.\<close>

definition header_ok :: "record_header \<Rightarrow> bool" where
  "header_ok h \<longleftrightarrow> rh_kind h < 2 ^ 16 \<and> rh_source h < 2 ^ 16 \<and> fits_u64 (rh_mono h) \<and> fits_u64 (rh_wall h)"

datatype format_error =
    BadFileHeader
  | Checksum nat
  | RecordTooLarge nat nat
  | HeaderChecksum nat

datatype decoded = Record record_header nat | Incomplete

section \<open>Operations\<close>

text \<open>\<open>u16_at\<close>, \<open>u32_at\<close> and \<open>u64_at\<close>: zero when the bytes are not there.\<close>

definition uint_at :: "nat \<Rightarrow> byte list \<Rightarrow> nat \<Rightarrow> nat" where
  "uint_at k bs p = (if p + k \<le> length bs then from_le (take k (drop p bs)) else 0)"

definition u16_at :: "byte list \<Rightarrow> nat \<Rightarrow> nat" where "u16_at = uint_at 2"
definition u32_at :: "byte list \<Rightarrow> nat \<Rightarrow> nat" where "u32_at = uint_at 4"
definition u64_at :: "byte list \<Rightarrow> nat \<Rightarrow> nat" where "u64_at = uint_at 8"

fun write_fields :: "byte list list \<Rightarrow> nat \<Rightarrow> byte list \<Rightarrow> byte list" where
  "write_fields [] p out = out"
| "write_fields (f # fs) p out =
     write_fields fs (p + length f) (if p + length f \<le> length out then write_at p f out else out)"

definition encode_file_header :: "nat \<Rightarrow> nanos \<Rightarrow> byte list" where
  "encode_file_header segment created =
     write_fields [MAGIC, le_bytes 4 VERSION, le_bytes 4 segment, le_bytes 8 created] 0 (replicate FILE_HEADER_LEN 0)"

definition decode_file_header :: "byte list \<Rightarrow> (nat, format_error) result" where
  "decode_file_header bs =
     (if length bs < FILE_HEADER_LEN \<or> take 8 bs \<noteq> MAGIC \<or> u32_at bs 8 \<noteq> VERSION then Err BadFileHeader
      else Ok (u32_at bs 12))"

definition record_fields :: "record_header \<Rightarrow> nat \<Rightarrow> byte list list" where
  "record_fields h payload_len =
     [le_bytes 2 (rh_kind h), le_bytes 2 (rh_source h), le_bytes 4 payload_len, le_bytes 8 (rh_mono h),
      le_bytes 8 (rh_wall h), le_bytes 4 0, le_bytes 4 0]"

definition encode_record_header :: "record_header \<Rightarrow> nat \<Rightarrow> byte list \<Rightarrow> byte list" where
  "encode_record_header h payload_len out = write_fields (record_fields h payload_len) 0 out"

definition record_checksum :: "(byte list \<Rightarrow> 32 word) \<Rightarrow> byte list \<Rightarrow> nat" where
  "record_checksum crc rc =
     unat (crc ((if CRC_AT \<le> length rc then take CRC_AT rc else []) @ drop RECORD_HEADER_LEN rc))"

definition header_checksum :: "(byte list \<Rightarrow> 32 word) \<Rightarrow> byte list \<Rightarrow> nat \<Rightarrow> nat" where
  "header_checksum crc first_24 record_crc =
     unat (crc ((if CRC_AT \<le> length first_24 then take CRC_AT first_24 else []) @ le_bytes 4 record_crc))"

definition seal :: "(byte list \<Rightarrow> 32 word) \<Rightarrow> byte list \<Rightarrow> byte list" where
  "seal crc rc =
     (let c = record_checksum crc rc;
          hc = header_checksum crc rc c;
          r1 = (if HEADER_CRC_AT \<le> length rc then write_at CRC_AT (le_bytes 4 c) rc else rc)
      in if RECORD_HEADER_LEN \<le> length r1 then write_at HEADER_CRC_AT (le_bytes 4 hc) r1 else r1)"

definition decode_record :: "(byte list \<Rightarrow> 32 word) \<Rightarrow> byte list \<Rightarrow> nat \<Rightarrow> (decoded, format_error) result" where
  "decode_record crc bs offset =
     (if length bs < RECORD_HEADER_LEN then Ok Incomplete
      else if header_checksum crc bs (u32_at bs CRC_AT) \<noteq> u32_at bs HEADER_CRC_AT then Err (HeaderChecksum offset)
      else
        let len = u32_at bs 4 in
        if len > MAX_PAYLOAD then Err (RecordTooLarge offset len)
        else
          let total = RECORD_HEADER_LEN + len in
          if length bs < total then Ok Incomplete
          else
            let rc = take total bs in
            if record_checksum crc rc \<noteq> u32_at rc CRC_AT then Err (Checksum offset)
            else Ok (Record \<lparr>rh_kind = u16_at rc 0, rh_source = u16_at rc 2,
                            rh_mono = u64_at rc 8, rh_wall = u64_at rc 16\<rparr> total))"

section \<open>Encoding then decoding\<close>

lemma write_fields_eq:
  assumes "p + length (concat fs) \<le> length out"
  shows "write_fields fs p out = take p out @ concat fs @ drop (p + length (concat fs)) out"
  using assms
proof (induction fs arbitrary: p out)
  case (Cons f fs)
  have fit: "p + length f \<le> length out" using Cons.prems by simp
  let ?out = "write_at p f out"
  have "write_fields fs (p + length f) ?out
      = take (p + length f) ?out @ concat fs @ drop (p + length f + length (concat fs)) ?out"
    using Cons.prems fit by (intro Cons.IH) simp
  then show ?case using fit Cons.prems by (simp add: write_at_def ac_simps)
qed simp

lemma length_record_fields [simp]: "length (concat (record_fields h n)) = RECORD_HEADER_LEN"
  by (simp add: record_fields_def RECORD_HEADER_LEN_def)

lemma encode_record_header_eq:
  "RECORD_HEADER_LEN \<le> length out \<Longrightarrow> encode_record_header h n out = concat (record_fields h n) @ drop RECORD_HEADER_LEN out"
  unfolding encode_record_header_def by (subst write_fields_eq) auto

lemma length_MAGIC: "length MAGIC = 8"
  by (simp add: MAGIC_def ascii_def)

lemma encode_file_header_eq:
  "encode_file_header segment created = MAGIC @ le_bytes 4 VERSION @ le_bytes 4 segment @ le_bytes 8 created @ replicate 8 0"
  unfolding encode_file_header_def
  by (subst write_fields_eq) (auto simp: length_MAGIC FILE_HEADER_LEN_def)

lemma length_encode_file_header [simp]: "length (encode_file_header segment created) = FILE_HEADER_LEN"
  by (simp add: encode_file_header_eq length_MAGIC FILE_HEADER_LEN_def)

lemma file_header_round_trip:
  "segment < 2 ^ 32 \<Longrightarrow> decode_file_header (encode_file_header segment created @ rest) = Ok segment"
  by (simp add: decode_file_header_def encode_file_header_eq u32_at_def uint_at_def length_MAGIC format_consts)

text \<open>The first 24 bytes of a record's header, and a sealed record as its parts.\<close>

definition front :: "record_header \<Rightarrow> nat \<Rightarrow> byte list" where
  "front h n = le_bytes 2 (rh_kind h) @ le_bytes 2 (rh_source h) @ le_bytes 4 n @ le_bytes 8 (rh_mono h) @ le_bytes 8 (rh_wall h)"

definition raw_record :: "record_header \<Rightarrow> byte list \<Rightarrow> byte list" where
  "raw_record h payload = front h (length payload) @ replicate 8 0 @ payload"

definition sealed :: "(byte list \<Rightarrow> 32 word) \<Rightarrow> record_header \<Rightarrow> byte list \<Rightarrow> byte list" where
  "sealed crc h payload =
     (let f = front h (length payload); c = unat (crc (f @ payload)) in
      f @ le_bytes 4 c @ le_bytes 4 (unat (crc (f @ le_bytes 4 c))) @ payload)"

lemma length_front [simp]: "length (front h n) = 24"
  by (simp add: front_def)

lemma length_sealed [simp]: "length (sealed crc h payload) = RECORD_HEADER_LEN + length payload"
  by (simp add: sealed_def Let_def RECORD_HEADER_LEN_def)

lemma le_bytes_zero: "le_bytes k 0 = replicate k 0"
  by (induction k) simp_all

lemma zero_checksums: "le_bytes 4 0 @ le_bytes 4 0 = (replicate 8 0 :: byte list)"
  by (simp add: le_bytes_zero flip: replicate_add)

lemma raw_record_encoded:
  "length out = RECORD_HEADER_LEN \<Longrightarrow> encode_record_header h (length payload) out @ payload = raw_record h payload"
  using zero_checksums by (simp add: encode_record_header_eq raw_record_def front_def record_fields_def)

lemma seal_raw: "seal crc (raw_record h payload) = sealed crc h payload"
  by (simp add: seal_def sealed_def raw_record_def record_checksum_def header_checksum_def Let_def format_consts write_at_def)

lemma unat_less_32: "unat (w :: 32 word) < 4294967296"
  using unsigned_less [of w, where 'a = nat] by simp

lemma sealed_at:
  fixes crc :: "byte list \<Rightarrow> 32 word"
  assumes "header_ok h" "length payload \<le> MAX_PAYLOAD"
  defines "s \<equiv> sealed crc h payload"
  shows "take 24 (s @ rest) = front h (length payload)" "u32_at (s @ rest) 4 = length payload"
    "u32_at (s @ rest) CRC_AT = unat (crc (front h (length payload) @ payload))"
    "u32_at (s @ rest) HEADER_CRC_AT = unat (crc (front h (length payload) @ le_bytes 4 (unat (crc (front h (length payload) @ payload)))))"
    "u16_at (s @ rest) 0 = rh_kind h" "u16_at (s @ rest) 2 = rh_source h"
    "u64_at (s @ rest) 8 = rh_mono h" "u64_at (s @ rest) 16 = rh_wall h"
  using assms(1,2) unat_less_32
  by (simp_all add: s_def sealed_def Let_def front_def u16_at_def u32_at_def u64_at_def uint_at_def format_consts
      header_ok_def range_defs)

lemma decode_sealed:
  assumes "header_ok h" "length payload \<le> MAX_PAYLOAD"
  shows "decode_record crc (sealed crc h payload @ rest) offset = Ok (Record h (RECORD_HEADER_LEN + length payload))"
proof -
  let ?s = "sealed crc h payload"
  have cut: "take (RECORD_HEADER_LEN + length payload) (?s @ rest) = ?s" by simp
  have body: "drop RECORD_HEADER_LEN ?s = payload" "take 24 ?s = front h (length payload)"
    by (simp_all add: sealed_def Let_def RECORD_HEADER_LEN_def)
  note A = sealed_at [OF assms, of crc rest] and B = sealed_at [OF assms, of crc "[]", simplified]
  show ?thesis
    using assms(2) A(1-4) B(3,5-8) body cut
    by (simp add: decode_record_def Let_def header_checksum_def record_checksum_def CRC_AT_def RECORD_HEADER_LEN_def)
qed

text \<open>A record cut short anywhere is incomplete, never an error.\<close>

lemma decode_torn:
  assumes "header_ok h" "length payload \<le> MAX_PAYLOAD" "n < RECORD_HEADER_LEN + length payload"
  shows "decode_record crc (take n (sealed crc h payload)) offset = Ok Incomplete"
proof (cases "n < RECORD_HEADER_LEN")
  case True
  then show ?thesis by (simp add: decode_record_def)
next
  case False
  let ?s = "sealed crc h payload"
  have at: "u32_at (take n ?s) p = u32_at ?s p" if "p + 4 \<le> 32" for p
    using that False by (simp add: u32_at_def uint_at_def drop_take min_def RECORD_HEADER_LEN_def)
  have tk: "take 24 (take n ?s) = take 24 ?s" using False by (simp add: min_def RECORD_HEADER_LEN_def)
  note A = sealed_at [OF assms(1,2), of crc "[]", simplified]
  show ?thesis
    using False assms(2,3) A(1-4) at [of 4] at [of 24] at [of 28] tk
    by (simp add: decode_record_def Let_def header_checksum_def format_consts)
qed


section \<open>Only sealed records are accepted\<close>

lemma uint_at_bytes: "p + k \<le> length bs \<Longrightarrow> le_bytes k (uint_at k bs p) = take k (drop p bs)"
  using le_bytes_from_le [of "take k (drop p bs)"] by (simp add: uint_at_def)

lemma uint_at_less: "uint_at k bs p < 256 ^ k"
proof (cases "p + k \<le> length bs")
  case True
  then have "length (take k (drop p bs)) = k" by simp
  then show ?thesis using from_le_less [of "take k (drop p bs)"] True by (simp add: uint_at_def)
qed (simp add: uint_at_def)

lemma header_at_ok:
  "header_ok \<lparr>rh_kind = u16_at rc 0, rh_source = u16_at rc 2, rh_mono = u64_at rc 8, rh_wall = u64_at rc 16\<rparr>"
  using uint_at_less [of 2 rc] uint_at_less [of 8 rc] by (simp add: header_ok_def u16_at_def u64_at_def range_defs)

lemma take_slices: "take (a + b) bs = take a bs @ take b (drop a bs)"
  by (simp add: take_add)

lemma front_at:
  assumes "24 \<le> length rc"
  shows "front \<lparr>rh_kind = u16_at rc 0, rh_source = u16_at rc 2, rh_mono = u64_at rc 8, rh_wall = u64_at rc 16\<rparr> (u32_at rc 4) = take 24 rc"
proof -
  have "take 24 rc = take 2 rc @ take 2 (drop 2 rc) @ take 4 (drop 4 rc) @ take 8 (drop 8 rc) @ take 8 (drop 16 rc)"
    using take_slices [of 16 8 rc] take_slices [of 8 8 rc] take_slices [of 4 4 rc] take_slices [of 2 2 rc] by simp
  then show ?thesis
    using assms by (simp add: front_def u16_at_def u32_at_def u64_at_def uint_at_bytes)
qed

lemma decode_record_sealed:
  assumes "decode_record crc bs offset = Ok (Record h n)"
  shows "\<exists>payload rest. bs = sealed crc h payload @ rest \<and> header_ok h \<and> length payload \<le> MAX_PAYLOAD \<and> n = RECORD_HEADER_LEN + length payload"
proof -
  define len where "len = u32_at bs 4"
  define rc where "rc = take (32 + len) bs"
  have D: "32 \<le> length bs" "header_checksum crc bs (u32_at bs 24) = u32_at bs 28" "len \<le> MAX_PAYLOAD" "32 + len \<le> length bs"
    "record_checksum crc rc = u32_at rc 24" "n = 32 + len"
    "h = \<lparr>rh_kind = u16_at rc 0, rh_source = u16_at rc 2, rh_mono = u64_at rc 8, rh_wall = u64_at rc 16\<rparr>"
    using assms
    by (auto simp: decode_record_def Let_def len_def rc_def RECORD_HEADER_LEN_def CRC_AT_def HEADER_CRC_AT_def split: if_splits)
  have L: "length rc = 32 + len" using D(4) by (simp add: rc_def)
  have at: "u32_at rc p = u32_at bs p" if "p + 4 \<le> 32" for p
    using that L D(4) by (simp add: u32_at_def uint_at_def rc_def drop_take min_def)
  let ?p = "drop 32 rc"
  have f: "front h len = take 24 rc" using front_at [of rc] L at [of 4] D(7) by (simp add: len_def)
  have c: "unat (crc (take 24 rc @ ?p)) = u32_at rc 24"
    using D(5) L by (simp add: record_checksum_def CRC_AT_def RECORD_HEADER_LEN_def)
  have tk: "take 24 bs = take 24 rc" using L by (simp add: rc_def min_def)
  have hc: "unat (crc (take 24 rc @ le_bytes 4 (u32_at rc 24))) = u32_at rc 28"
    using D(1,2) at [of 24] at [of 28] tk by (simp add: header_checksum_def CRC_AT_def)
  have "sealed crc h ?p = take 24 rc @ le_bytes 4 (u32_at rc 24) @ le_bytes 4 (u32_at rc 28) @ ?p"
    using f c hc L by (simp add: sealed_def Let_def)
  also have "\<dots> = take 24 rc @ take 4 (drop 24 rc) @ take 4 (drop 28 rc) @ drop 32 rc"
    using L by (simp add: u32_at_def uint_at_bytes)
  also have "\<dots> = rc"
    using take_slices [of 24 4 rc] take_slices [of 28 4 rc] append_take_drop_id [of 32 rc] by simp
  finally have "bs = sealed crc h ?p @ drop (32 + len) bs" by (simp add: rc_def)
  then show ?thesis
    using D(3,6,7) L header_at_ok by (intro exI [of _ ?p] exI [of _ "drop (32 + len) bs"]) (simp add: RECORD_HEADER_LEN_def)
qed

section \<open>Properties\<close>

text \<open>Whatever the checksum function is, a record that is encoded and sealed decodes to its header and
  length whatever follows it, and any proper prefix of it is incomplete, never an error: a torn
  tail is told apart from corruption.\<close>

lemma record_round_trip:
  assumes "header_ok h" "length payload \<le> MAX_PAYLOAD" "length out = RECORD_HEADER_LEN"
    and rc_def: "rc = seal crc (encode_record_header h (length payload) out @ payload)"
  shows "decode_record crc (rc @ rest) offset = Ok (Record h (length rc)) \<and> drop RECORD_HEADER_LEN rc = payload
    \<and> (n < length rc \<longrightarrow> decode_record crc (take n rc) offset = Ok Incomplete)"
proof -
  have rc: "rc = sealed crc h payload" using raw_record_encoded [OF assms(3), of h payload] by (simp add: rc_def seal_raw)
  have "drop RECORD_HEADER_LEN (sealed crc h payload) = payload" by (simp add: sealed_def Let_def RECORD_HEADER_LEN_def)
  then show ?thesis using decode_sealed [OF assms(1,2)] decode_torn [OF assms(1,2)] by (simp add: rc)
qed

definition demo_record_header :: record_header where
  "demo_record_header = \<lparr>rh_kind = MD_MESSAGE, rh_source = 1, rh_mono = 17, rh_wall = 23\<rparr>"

lemma demo_record_header_ok: "header_ok demo_record_header"
  by (simp add: demo_record_header_def header_ok_def range_defs MD_MESSAGE_def)

text \<open>The decoder accepts nothing but sealed records: if it returns a record, the bytes start with
  exactly the sealing of that header and of some payload of the returned length, within the size limit.\<close>

lemma decode_accepts_only_sealed:
  assumes "decode_record crc bs offset = Ok (Record h n)"
  shows "\<exists>payload rest. bs = seal crc (encode_record_header h (length payload) (replicate RECORD_HEADER_LEN 0) @ payload) @ rest
    \<and> header_ok h \<and> length payload \<le> MAX_PAYLOAD \<and> n = RECORD_HEADER_LEN + length payload"
  using decode_record_sealed [OF assms] by (simp add: raw_record_encoded seal_raw)

end
