(* ===== verification/Num_Text.thy ===== *)
theory Num_Text
  imports Core_Types
begin

text \<open>
  The standard library's text form of unsigned integers, as the journal's file names, the
  metrics page, the REST client and the HTTP parser use it: \<open>format!\<close> with \<open>{}\<close> and
  \<open>{:0w}\<close>, and \<open>str::parse\<close> (an optional plus sign, then digits, refused on overflow).
\<close>

function show_nat :: "nat \<Rightarrow> byte list" where
  "show_nat n = (if n < 10 then [48 + of_nat n] else show_nat (n div 10) @ [48 + of_nat (n mod 10)])"
  by auto
termination by (relation "measure id") auto

declare show_nat.simps [simp del]

definition show_padded :: "nat \<Rightarrow> nat \<Rightarrow> byte list" where
  "show_padded w n = replicate (w - length (show_nat n)) 48 @ show_nat n"

fun parse_digits :: "nat \<Rightarrow> nat \<Rightarrow> byte list \<Rightarrow> nat option" where
  "parse_digits limit v [] = Some v"
| "parse_digits limit v (b # bs) =
     (if \<not> is_digit b then None
      else if v * 10 \<ge> limit \<or> v * 10 + digit_of b \<ge> limit then None
      else parse_digits limit (v * 10 + digit_of b) bs)"

text \<open>\<open>limit\<close> is the first value the integer type cannot hold.\<close>

definition parse_uint :: "nat \<Rightarrow> byte list \<Rightarrow> nat option" where
  "parse_uint limit bs =
     (case bs of [] \<Rightarrow> None
      | b # rest \<Rightarrow> if b = 43 then (if rest = [] then None else parse_digits limit 0 rest) else parse_digits limit 0 bs)"

section \<open>Reading back what was written\<close>

lemma digit_of_shown [simp]: "d < 10 \<Longrightarrow> digit_of (48 + of_nat d) = d"
  by (simp add: digit_of_def unat_of_nat)

lemma is_digit_shown [simp]: "d < 10 \<Longrightarrow> is_digit (48 + of_nat d)"
  by (simp add: is_digit_iff)

lemma show_nat_digits: "list_all is_digit (show_nat n)"
proof (induction n rule: show_nat.induct)
  case (1 n)
  then show ?case by (subst show_nat.simps) auto
qed

lemma show_nat_val [simp]: "digits_val (show_nat n) = n"
proof (induction n rule: show_nat.induct)
  case (1 n)
  then show ?case by (subst show_nat.simps) auto
qed

lemma show_nat_nonempty [simp]: "show_nat n \<noteq> []"
  by (subst show_nat.simps) auto

lemma parse_digits_eq:
  "list_all is_digit bs \<Longrightarrow> digits_from v bs < limit \<Longrightarrow> parse_digits limit v bs = Some (digits_from v bs)"
proof (induction bs arbitrary: v)
  case (Cons b bs)
  have "v * 10 + digit_of b < limit" using digits_from_ge [of "v * 10 + digit_of b" bs] Cons.prems by simp
  then show ?case using Cons by simp
qed simp

lemma parse_digits_Some:
  "parse_digits limit v bs = Some n \<Longrightarrow> v < limit \<Longrightarrow> list_all is_digit bs \<and> n = digits_from v bs \<and> n < limit"
  by (induction bs arbitrary: v) (auto split: if_splits)

lemma is_digit_not_plus: "is_digit b \<Longrightarrow> b \<noteq> 43"
  by (auto simp: is_digit_def)

lemma parse_uint_digits:
  "list_all is_digit bs \<Longrightarrow> bs \<noteq> [] \<Longrightarrow> digits_val bs < limit \<Longrightarrow> parse_uint limit bs = Some (digits_val bs)"
  using parse_digits_eq [of bs 0 limit] by (cases bs) (auto simp: parse_uint_def dest: is_digit_not_plus)

lemma parse_uint_less: "parse_uint limit bs = Some n \<Longrightarrow> 0 < limit \<Longrightarrow> n < limit"
  by (auto simp: parse_uint_def dest!: parse_digits_Some split: list.splits if_splits)

lemma digits_val_zeros: "digits_from 0 (replicate k 48 @ bs) = digits_val bs"
  by (induction k) (auto simp: digit_of_def)

lemma zeros_digits: "list_all is_digit (replicate k 48)"
  by (simp add: list_all_iff is_digit_def)

lemma parse_show_padded: "n < limit \<Longrightarrow> parse_uint limit (show_padded w n) = Some n"
  using parse_uint_digits [of "show_padded w n" limit] digits_val_zeros [of "w - length (show_nat n)" "show_nat n"]
  by (simp add: show_padded_def show_nat_digits zeros_digits)

lemma parse_show_nat: "n < limit \<Longrightarrow> parse_uint limit (show_nat n) = Some n"
  using parse_show_padded [of n limit 0] by (simp add: show_padded_def)

lemma show_nat_inj: "show_nat a = show_nat b \<Longrightarrow> a = b"
  by (metis show_nat_val)

end
