(* ===== verification/Journal.thy ===== *)
theory Journal
  imports Journal_Format Num_Text
begin

text \<open>
  \<open>crates/bowst-journal/src/journal.rs\<close>: the hot-path producer, and the writer that drains the
  ring into segment files.

  The file system is a list of named files and a list of outcomes, one per operation that can
  fail: \<open>Done\<close>, or \<open>Broken k\<close> when the operation fails (a write after \<open>k\<close> of its bytes); an
  exhausted list is a disk that works.  A file's contents are the bytes its buffered writer has
  accepted; what a crash leaves of them is a prefix, and the reader is studied on prefixes.
  Times of day and the moments flushes fall due come from the clock and are arguments.  The
  records of one call are the slices \<open>parts\<close>; their total length is a natural number.  The
  directory is the disk itself, so a path is a file name (empty for the directory), and the
  operating system's error is not kept beside the operation it answers.
\<close>

section \<open>Settings, errors and shared state\<close>

record journal_config =
  jc_ring_bytes :: nat
  jc_segment_bytes :: nat
  jc_flush_every :: nanos
  jc_sync_every :: nanos

definition journal_config_new :: journal_config where
  "journal_config_new = \<lparr>jc_ring_bytes = 64 * 2 ^ 20, jc_segment_bytes = 128 * 2 ^ 20,
     jc_flush_every = 100 * 10 ^ 6, jc_sync_every = 10 ^ 9\<rparr>"

datatype journal_error = JournalIo string "byte list" | InvalidRing | JournalThread

datatype journal_health = Healthy | Degraded nat | Failed

record journal_stats =
  js_records :: nat
  js_bytes :: nat
  js_segments :: nat
  js_dropped :: nat
  js_lost_after_failure :: nat

record journal_shared =
  sh_dropped :: "64 word"
  sh_failed :: bool
  sh_stop :: bool

section \<open>The producer\<close>

record journal_producer =
  jp_ring :: bytes_ring
  jp_pending_gap :: nat
  jp_shared :: journal_shared

fun copy_parts :: "byte list list \<Rightarrow> byte list \<Rightarrow> byte list" where
  "copy_parts [] body = body"
| "copy_parts (part # parts) body = part @ copy_parts parts (drop (length part) body)"

definition fill_record :: "record_header \<Rightarrow> nat \<Rightarrow> byte list list \<Rightarrow> byte list \<Rightarrow> byte list" where
  "fill_record header payload_len parts dst =
     encode_record_header header payload_len (take RECORD_HEADER_LEN dst) @ copy_parts parts (drop RECORD_HEADER_LEN dst)"

definition drop_record :: "journal_producer \<Rightarrow> bool \<times> journal_producer" where
  "drop_record j =
     (False, j\<lparr>jp_pending_gap := sat_u64 (jp_pending_gap j + 1),
               jp_shared := (jp_shared j)\<lparr>sh_dropped := sh_dropped (jp_shared j) + 1\<rparr>\<rparr>)"

definition write_gap :: "record_header \<Rightarrow> journal_producer \<Rightarrow> bool \<times> journal_producer" where
  "write_gap near j =
     (let header = near\<lparr>rh_kind := GAP\<rparr>;
          count = le_bytes 8 (jp_pending_gap j);
          (res, r) = write_with (RECORD_HEADER_LEN + length count) (fill_record header 8 [count]) (jp_ring j);
          j1 = j\<lparr>jp_ring := r\<rparr>
      in if is_ok res then (True, j1\<lparr>jp_pending_gap := 0\<rparr>) else (False, j1))"

definition write_part :: "record_header \<Rightarrow> byte list list \<Rightarrow> journal_producer \<Rightarrow> bool \<times> journal_producer" where
  "write_part header parts j =
     (let len = sum_list (map length parts);
          (res, r) = write_with (RECORD_HEADER_LEN + len) (fill_record header len parts) (jp_ring j);
          j1 = j\<lparr>jp_ring := r\<rparr>
      in if is_ok res then (True, j1) else drop_record j1)"

definition append_record :: "record_header \<Rightarrow> byte list list \<Rightarrow> journal_producer \<Rightarrow> bool \<times> journal_producer" where
  "append_record header parts j =
     (let len = sum_list (map length parts);
          total = sat_u64 (RECORD_HEADER_LEN + len)
      in
      if \<not> (len < 2 ^ 32 \<and> len \<le> MAX_PAYLOAD \<and> total \<le> max_record (jp_ring j)) then drop_record j
      else if jp_pending_gap j > 0 then
        (case write_gap header j of
           (False, j1) \<Rightarrow> drop_record j1
         | (True, j1) \<Rightarrow> write_part header parts j1)
      else write_part header parts j)"

definition health :: "journal_shared \<Rightarrow> journal_health" where
  "health sh = (if sh_failed sh then Failed else if sh_dropped sh = 0 then Healthy else Degraded (unat (sh_dropped sh)))"

section \<open>File names\<close>

definition segment_name :: "nat \<Rightarrow> byte list" where
  "segment_name index = ascii ''journal-'' @ show_padded 8 index @ ascii ''.bjl''"

definition strip_suffix :: "'a list \<Rightarrow> 'a list \<Rightarrow> 'a list option" where
  "strip_suffix suf xs = map_option rev (strip_prefix (rev suf) (rev xs))"

definition segment_index :: "byte list \<Rightarrow> nat option" where
  "segment_index name =
     Option.bind (strip_prefix (ascii ''journal-'') name) (\<lambda>rest.
     Option.bind (strip_suffix (ascii ''.bjl'') rest) (\<lambda>digits.
     parse_uint (2 ^ 32) digits))"

definition sat_u32 :: "nat \<Rightarrow> nat" where
  "sat_u32 n = min n (2 ^ 32 - 1)"

definition next_segment_index :: "byte list list \<Rightarrow> nat" where
  "next_segment_index names =
     (case List.map_filter segment_index names of [] \<Rightarrow> 0
      | is \<Rightarrow> sat_u32 (fold max is 0 + 1))"

section \<open>The file system\<close>

datatype io_outcome = Done | Broken nat

record disk =
  dk_files :: "(byte list \<times> byte list) list"
  dk_faults :: "io_outcome list"

definition next_outcome :: "disk \<Rightarrow> io_outcome \<times> disk" where
  "next_outcome d = (case dk_faults d of [] \<Rightarrow> (Done, d) | f # fs \<Rightarrow> (f, d\<lparr>dk_faults := fs\<rparr>))"

definition create_new :: "byte list \<Rightarrow> disk \<Rightarrow> bool \<times> disk" where
  "create_new name d =
     (let (f, d1) = next_outcome d in
      if f \<noteq> Done \<or> name \<in> fst ` set (dk_files d) then (False, d1)
      else (True, d1\<lparr>dk_files := dk_files d1 @ [(name, [])]\<rparr>))"

definition write_all :: "byte list \<Rightarrow> byte list \<Rightarrow> disk \<Rightarrow> bool \<times> disk" where
  "write_all name bs d =
     (let (f, d1) = next_outcome d;
          put = (\<lambda>new. map (\<lambda>(n, c). if n = name then (n, c @ new) else (n, c)) (dk_files d1))
      in case f of Done \<Rightarrow> (True, d1\<lparr>dk_files := put bs\<rparr>) | Broken k \<Rightarrow> (False, d1\<lparr>dk_files := put (take k bs)\<rparr>))"

text \<open>An operation that only succeeds or fails: a flush, a sync, a listing, the start of a thread.\<close>

definition flush_disk :: "disk \<Rightarrow> bool \<times> disk" where
  "flush_disk d = (let (f, d1) = next_outcome d in (f = Done, d1))"

record segment =
  sg_path :: "byte list"
  sg_bytes :: nat

definition segment_create :: "nanos \<Rightarrow> nat \<Rightarrow> disk \<Rightarrow> (segment, journal_error) result \<times> disk" where
  "segment_create created index d =
     (let path = segment_name index in
      case create_new path d of
        (False, d1) \<Rightarrow> (Err (JournalIo ''create'' path), d1)
      | (True, d1) \<Rightarrow>
          (case write_all path (encode_file_header index created) d1 of
             (False, d2) \<Rightarrow> (Err (JournalIo ''write header'' path), d2)
           | (True, d2) \<Rightarrow> (Ok \<lparr>sg_path = path, sg_bytes = FILE_HEADER_LEN\<rparr>, d2)))"

text \<open>Flush the buffer, then ask for the data to be made durable.\<close>

definition segment_sync :: "disk \<Rightarrow> bool \<times> disk" where
  "segment_sync d = (case flush_disk d of (False, d1) \<Rightarrow> (False, d1) | (True, d1) \<Rightarrow> flush_disk d1)"

section \<open>The sink\<close>

record sink =
  sk_config :: journal_config
  sk_shared :: journal_shared
  sk_segment :: segment
  sk_index :: nat
  sk_stats :: journal_stats
  sk_error :: "journal_error option"
  sk_disk :: disk

definition stats_init :: journal_stats where
  "stats_init = \<lparr>js_records = 0, js_bytes = 0, js_segments = 1, js_dropped = 0, js_lost_after_failure = 0\<rparr>"

definition sink_new :: "journal_config \<Rightarrow> journal_shared \<Rightarrow> segment \<Rightarrow> disk \<Rightarrow> sink" where
  "sink_new config shared sg d =
     \<lparr>sk_config = config, sk_shared = shared, sk_segment = sg,
      sk_index = unwrap_or (segment_index (sg_path sg)) 0, sk_stats = stats_init, sk_error = None, sk_disk = d\<rparr>"

definition set_failed :: "journal_error \<Rightarrow> sink \<Rightarrow> sink" where
  "set_failed e s = s\<lparr>sk_shared := (sk_shared s)\<lparr>sh_failed := True\<rparr>, sk_error := Some (unwrap_or (sk_error s) e)\<rparr>"

definition fail :: "string \<Rightarrow> sink \<Rightarrow> sink" where
  "fail oper s = set_failed (JournalIo oper (sg_path (sk_segment s))) s"

definition guard :: "string \<Rightarrow> (disk \<Rightarrow> bool \<times> disk) \<Rightarrow> sink \<Rightarrow> sink" where
  "guard oper action s =
     (if sk_error s \<noteq> None then s
      else case action (sk_disk s) of
             (True, d) \<Rightarrow> s\<lparr>sk_disk := d\<rparr>
           | (False, d) \<Rightarrow> fail oper (s\<lparr>sk_disk := d\<rparr>))"

definition rotate_segment :: "nanos \<Rightarrow> sink \<Rightarrow> sink" where
  "rotate_segment now s =
     (let s1 = guard ''sync'' segment_sync s in
      if sk_error s1 \<noteq> None then s1
      else
        let nxt = sat_u32 (sk_index s1 + 1) in
        case segment_create now nxt (sk_disk s1) of
          (Ok sg, d) \<Rightarrow> s1\<lparr>sk_disk := d, sk_segment := sg, sk_index := nxt,
             sk_stats := (sk_stats s1)\<lparr>js_segments := sat_u32 (js_segments (sk_stats s1) + 1)\<rparr>\<rparr>
        | (Err e, d) \<Rightarrow> set_failed e (s1\<lparr>sk_disk := d\<rparr>))"

definition count_lost :: "sink \<Rightarrow> sink" where
  "count_lost s = s\<lparr>sk_stats := (sk_stats s)\<lparr>js_lost_after_failure := sat_u64 (js_lost_after_failure (sk_stats s) + 1)\<rparr>\<rparr>"

fun write_chain :: "byte list \<Rightarrow> byte list list \<Rightarrow> disk \<Rightarrow> bool \<times> disk" where
  "write_chain name [] d = (True, d)"
| "write_chain name (bs # rest) d =
     (case write_all name bs d of (False, d1) \<Rightarrow> (False, d1) | (True, d1) \<Rightarrow> write_chain name rest d1)"

definition put_record :: "(byte list \<Rightarrow> 32 word) \<Rightarrow> byte list \<Rightarrow> sink \<Rightarrow> sink" where
  "put_record crc rc s =
     (let c = record_checksum crc rc;
          hc = header_checksum crc rc c;
          before = (if CRC_AT \<le> length rc then take CRC_AT rc else []);
          payload = drop RECORD_HEADER_LEN rc
      in case write_chain (sg_path (sk_segment s)) [before, le_bytes 4 c, le_bytes 4 hc, payload] (sk_disk s) of
           (True, d) \<Rightarrow>
             s\<lparr>sk_disk := d,
               sk_segment := (sk_segment s)\<lparr>sg_bytes := sat_u64 (sg_bytes (sk_segment s) + length rc)\<rparr>,
               sk_stats := (sk_stats s)\<lparr>js_bytes := sat_u64 (js_bytes (sk_stats s) + length rc),
                                       js_records := sat_u64 (js_records (sk_stats s) + 1)\<rparr>\<rparr>
         | (False, d) \<Rightarrow> fail ''write'' (s\<lparr>sk_disk := d\<rparr>))"

definition sink_write :: "(byte list \<Rightarrow> 32 word) \<Rightarrow> nanos \<Rightarrow> byte list \<Rightarrow> sink \<Rightarrow> sink" where
  "sink_write crc now rc s =
     (if sk_error s \<noteq> None then count_lost s
      else if sg_bytes (sk_segment s) \<ge> jc_segment_bytes (sk_config s) then
        (let s1 = rotate_segment now s in
         if sk_error s1 \<noteq> None then count_lost s1 else put_record crc rc s1)
      else put_record crc rc s)"

section \<open>The writer\<close>

partial_function (option) drain ::
  "(byte list \<Rightarrow> 32 word) \<Rightarrow> nanos \<Rightarrow> bool \<Rightarrow> bytes_ring \<Rightarrow> sink \<Rightarrow> (bool \<times> bytes_ring \<times> sink) option" where
  "drain crc now wrote_any ring s =
     Option.bind (read_with ring) (\<lambda>(x, ring1).
       case x of None \<Rightarrow> Some (wrote_any, ring1, s)
       | Some rc \<Rightarrow> drain crc now True ring1 (sink_write crc now rc s))"

text \<open>
  What one turn of the loop of \<open>run\<close> meets: the records producers have pushed since the last
  turn, whether the stop flag is up, which deadlines have passed, and the time of day.
\<close>

record turn =
  tn_arrivals :: "byte list list"
  tn_stopping :: bool
  tn_flush_due :: bool
  tn_sync_due :: bool
  tn_now :: nanos

definition take_turn :: "(byte list \<Rightarrow> 32 word) \<Rightarrow> turn \<Rightarrow> bytes_ring \<Rightarrow> sink \<Rightarrow> (bool \<times> bytes_ring \<times> sink) option" where
  "take_turn crc t ring s =
     Option.bind (drain crc (tn_now t) False ring s) (\<lambda>(wrote_any, ring1, s1).
       let s2 = (if tn_flush_due t then guard ''flush'' flush_disk s1 else s1);
           s3 = (if tn_sync_due t then guard ''sync'' segment_sync s2 else s2)
       in Some (tn_stopping t \<and> \<not> wrote_any, ring1, s3))"

definition finish_run :: "sink \<Rightarrow> (journal_stats, journal_error) result \<times> sink" where
  "finish_run s =
     (let s1 = guard ''sync'' segment_sync s;
          s2 = s1\<lparr>sk_stats := (sk_stats s1)\<lparr>js_dropped := unat (sh_dropped (sk_shared s1))\<rparr>\<rparr>
      in case sk_error s2 of Some e \<Rightarrow> (Err e, s2\<lparr>sk_error := None\<rparr>) | None \<Rightarrow> (Ok (sk_stats s2), s2))"

text \<open>\<open>None\<close>: still running after these turns.\<close>

fun writer_run :: "(byte list \<Rightarrow> 32 word) \<Rightarrow> turn list \<Rightarrow> bytes_ring \<Rightarrow> sink \<Rightarrow> ((journal_stats, journal_error) result \<times> sink) option" where
  "writer_run crc [] ring s = None"
| "writer_run crc (t # ts) ring s =
     (let ring0 = fold (\<lambda>x r. snd (bytes_push x r)) (tn_arrivals t) ring in
      Option.bind (take_turn crc t ring0 s) (\<lambda>(stop, ring1, s1).
        if stop then Some (finish_run s1) else writer_run crc ts ring1 s1))"

definition start_journal :: "journal_config \<Rightarrow> nanos \<Rightarrow> disk \<Rightarrow> (journal_producer \<times> sink, journal_error) result" where
  "start_journal config now d =
     rbind (map_err (\<lambda>_. InvalidRing) (bytes_channel (jc_ring_bytes config))) (\<lambda>ring.
       case flush_disk d of (False, _) \<Rightarrow> Err (JournalIo ''create directory'' [])
       | (True, d1) \<Rightarrow>
         (case flush_disk d1 of (False, _) \<Rightarrow> Err (JournalIo ''list'' [])
          | (True, d2) \<Rightarrow>
            let shared = \<lparr>sh_dropped = 0, sh_failed = False, sh_stop = False\<rparr>;
                first = next_segment_index (map fst (dk_files d2))
            in case segment_create now first d2 of
                 (Err e, _) \<Rightarrow> Err e
               | (Ok sg, d3) \<Rightarrow>
                 (case flush_disk d3 of (False, _) \<Rightarrow> Err JournalThread
                  | (True, d4) \<Rightarrow>
                    Ok (\<lparr>jp_ring = ring, jp_pending_gap = 0, jp_shared = shared\<rparr>, sink_new config shared sg d4))))"

section \<open>The producer accounts for every dropped record\<close>

lemma copy_parts_exact: "length body = sum_list (map length parts) \<Longrightarrow> copy_parts parts body = concat parts"
  by (induction parts arbitrary: body) auto

lemma fill_record_raw:
  assumes "length dst = RECORD_HEADER_LEN + sum_list (map length parts)" "n = sum_list (map length parts)"
  shows "fill_record h n parts dst = raw_record h (concat parts)"
proof -
  have "length (take RECORD_HEADER_LEN dst) = RECORD_HEADER_LEN" using assms by simp
  then show ?thesis
    using raw_record_encoded [of "take RECORD_HEADER_LEN dst" h "concat parts"] assms
    by (simp add: fill_record_def copy_parts_exact length_concat)
qed

lemma length_raw_record [simp]: "length (raw_record h payload) = RECORD_HEADER_LEN + length payload"
  by (simp add: raw_record_def RECORD_HEADER_LEN_def)

lemma write_raw:
  assumes "bytes_hold r xs" "n = sum_list (map length parts)"
  shows "write_with (RECORD_HEADER_LEN + n) (fill_record h n parts) r = bytes_push (raw_record h (concat parts)) r"
  using write_with_fill [OF assms(1), of "raw_record h (concat parts)" "fill_record h n parts"] fill_record_raw [of _ parts n h] assms(2)
  by (simp add: length_concat)

text \<open>
  The trace of a producer and a consumer: what each call of \<open>append_record\<close> answered, and the
  records taken from the ring.
\<close>

datatype journal_op = Append record_header "byte list list" | Take

datatype journal_event = Accepted record_header "byte list" | Dropped

fun journal_run :: "journal_op list \<Rightarrow> journal_producer \<Rightarrow> journal_event list \<times> byte list list \<times> journal_producer" where
  "journal_run [] j = ([], [], j)"
| "journal_run (Append h parts # ops) j =
     (let (ok, j1) = append_record h parts j; (evs, taken, j2) = journal_run ops j1 in
      ((if ok then Accepted h (concat parts) else Dropped) # evs, taken, j2))"
| "journal_run (Take # ops) j =
     (let (x, r) = bytes_pop (jp_ring j); (evs, taken, j2) = journal_run ops (j\<lparr>jp_ring := r\<rparr>) in
      (evs, (case x of Some rc \<Rightarrow> rc # taken | None \<Rightarrow> taken), j2))"

text \<open>What the journal holds: records, and markers that say how many were dropped.\<close>

datatype journal_item = Rec record_header "byte list" | Gap record_header nat

fun item_bytes :: "journal_item \<Rightarrow> byte list" where
  "item_bytes (Rec h payload) = raw_record h payload"
| "item_bytes (Gap h n) = raw_record (h\<lparr>rh_kind := GAP\<rparr>) (le_bytes 8 n)"

fun gap_total :: "journal_item list \<Rightarrow> nat" where
  "gap_total [] = 0"
| "gap_total (Rec h p # is) = gap_total is"
| "gap_total (Gap h n # is) = n + gap_total is"

fun drops :: "journal_event list \<Rightarrow> nat" where
  "drops [] = 0"
| "drops (Accepted h p # es) = drops es"
| "drops (Dropped # es) = Suc (drops es)"

text \<open>Each record with the number of records reported, or actually, dropped before it.\<close>

fun stamped :: "nat \<Rightarrow> journal_item list \<Rightarrow> (record_header \<times> byte list \<times> nat) list" where
  "stamped n [] = []"
| "stamped n (Rec h p # is) = (h, p, n) # stamped n is"
| "stamped n (Gap h k # is) = stamped (n + k) is"

fun stamped_events :: "nat \<Rightarrow> journal_event list \<Rightarrow> (record_header \<times> byte list \<times> nat) list" where
  "stamped_events n [] = []"
| "stamped_events n (Accepted h p # es) = (h, p, n) # stamped_events n es"
| "stamped_events n (Dropped # es) = stamped_events (Suc n) es"

lemma stamped_shift: "stamped (n + k) is = map (\<lambda>(h, p, m). (h, p, m + n)) (stamped k is)"
  by (induction k "is" rule: stamped.induct) (auto simp: ac_simps)

lemma stamped_events_shift: "stamped_events (n + k) es = map (\<lambda>(h, p, m). (h, p, m + n)) (stamped_events k es)"
  by (induction k es rule: stamped_events.induct) auto

lemma stamped_append: "stamped n (a @ b) = stamped n a @ stamped (n + gap_total a) b"
  by (induction n a rule: stamped.induct) (auto simp: ac_simps)

lemma gap_total_append [simp]: "gap_total (a @ b) = gap_total a + gap_total b"
  by (induction a rule: gap_total.induct) auto

lemma push_cases:
  assumes "bytes_hold r held" "bytes_push x r = (res, r')"
  shows "bytes_hold r' (held @ (if is_ok res then [x] else []))"
  using bytes_push_holds [OF assms] by (auto split: if_splits)

lemma drop_record_sel [simp]:
  "fst (drop_record j) = False" "jp_ring (snd (drop_record j)) = jp_ring j"
  "jp_pending_gap j < 2 ^ 64 - 1 \<Longrightarrow> jp_pending_gap (snd (drop_record j)) = jp_pending_gap j + 1"
  "sh_dropped (jp_shared (snd (drop_record j))) = sh_dropped (jp_shared j) + 1"
  by (simp_all add: drop_record_def sat_u64_id range_defs)

definition producer_step :: "journal_producer \<Rightarrow> byte list list \<Rightarrow> journal_item list \<Rightarrow> journal_event \<Rightarrow> journal_producer \<Rightarrow> bool" where
  "producer_step j held news ev j' \<longleftrightarrow>
     bytes_hold (jp_ring j') (held @ map item_bytes news)
     \<and> (case ev of
          Accepted h p \<Rightarrow> stamped 0 news = [(h, p, jp_pending_gap j)] \<and> gap_total news = jp_pending_gap j
            \<and> jp_pending_gap j' = 0 \<and> sh_dropped (jp_shared j') = sh_dropped (jp_shared j)
        | Dropped \<Rightarrow> stamped 0 news = [] \<and> gap_total news + jp_pending_gap j' = Suc (jp_pending_gap j)
            \<and> sh_dropped (jp_shared j') = sh_dropped (jp_shared j) + 1)"

lemma write_part_step:
  assumes "bytes_hold (jp_ring j) held" "jp_pending_gap j = 0"
    "write_part h parts j = (ok, j')"
  shows "\<exists>news. producer_step j held news (if ok then Accepted h (concat parts) else Dropped) j'"
proof -
  obtain res r where p: "bytes_push (raw_record h (concat parts)) (jp_ring j) = (res, r)" by (cases "bytes_push (raw_record h (concat parts)) (jp_ring j)")
  let ?j1 = "j\<lparr>jp_ring := r\<rparr>"
  have w: "write_part h parts j = (if is_ok res then (True, ?j1) else drop_record ?j1)"
    using write_raw [OF assms(1) refl, where h = h and parts = parts] p by (simp add: write_part_def Let_def)
  have hold: "bytes_hold r (held @ (if is_ok res then [raw_record h (concat parts)] else []))" by (rule push_cases [OF assms(1) p])
  show ?thesis
  proof (cases "is_ok res")
    case True
    then show ?thesis using hold w assms(2,3) by (intro exI [of _ "[Rec h (concat parts)]"]) (simp add: producer_step_def)
  next
    case False
    then have "j' = snd (drop_record ?j1)" "\<not> ok" using w assms(3) by (auto simp: drop_record_def)
    then show ?thesis using False hold assms(2) by (intro exI [of _ "[]"]) (simp add: producer_step_def)
  qed
qed

lemma write_gap_eq:
  assumes "bytes_hold (jp_ring j) held"
  obtains r where "bytes_hold r (held @ [item_bytes (Gap h (jp_pending_gap j))])" "write_gap h j = (True, j\<lparr>jp_ring := r, jp_pending_gap := 0\<rparr>)"
    | r where "bytes_hold r held" "write_gap h j = (False, j\<lparr>jp_ring := r\<rparr>)"
proof -
  let ?x = "item_bytes (Gap h (jp_pending_gap j))"
  obtain res r where p: "bytes_push ?x (jp_ring j) = (res, r)" by (cases "bytes_push ?x (jp_ring j)")
  have "write_gap h j = (if is_ok res then (True, j\<lparr>jp_ring := r, jp_pending_gap := 0\<rparr>) else (False, j\<lparr>jp_ring := r\<rparr>))"
    using write_raw [OF assms, of 8 "[le_bytes 8 (jp_pending_gap j)]" "h\<lparr>rh_kind := GAP\<rparr>"] p
    by (simp add: write_gap_def Let_def)
  then show ?thesis using push_cases [OF assms p] that by (cases "is_ok res") simp_all
qed

lemma drop_step:
  assumes "bytes_hold (jp_ring j) held" "jp_pending_gap j < 2 ^ 64 - 1" "jp_pending_gap j = jp_pending_gap i" "jp_shared j = jp_shared i"
  shows "\<exists>news. producer_step i held news Dropped (snd (drop_record j))"
  using assms by (intro exI [of _ "[]"]) (simp add: producer_step_def)

lemma append_record_step:
  assumes hold: "bytes_hold (jp_ring j) held" and gap: "jp_pending_gap j < 2 ^ 64 - 1"
    and app: "append_record h parts j = (ok, j')"
  shows "\<exists>news. producer_step j held news (if ok then Accepted h (concat parts) else Dropped) j'"
proof -
  consider "(ok, j') = drop_record j"
    | "jp_pending_gap j = 0" "(ok, j') = write_part h parts j"
    | j1 where "write_gap h j = (False, j1)" "(ok, j') = drop_record j1"
    | j1 where "jp_pending_gap j > 0" "write_gap h j = (True, j1)" "(ok, j') = write_part h parts j1"
    using app by (auto simp: append_record_def Let_def split: if_splits prod.splits bool.splits)
  then show ?thesis
  proof cases
    case 1
    then show ?thesis using drop_step [OF hold gap refl refl] by (auto simp: drop_record_def)
  next
    case 2
    then show ?thesis using write_part_step [OF hold] by metis
  next
    case (3 j1)
    obtain r where "bytes_hold r held" "j1 = j\<lparr>jp_ring := r\<rparr>"
      by (rule write_gap_eq [OF hold, of h]) (simp_all add: 3(1))
    then show ?thesis using drop_step [of j1 held j] gap 3(2) by (auto simp: drop_record_def)
  next
    case (4 j1)
    let ?gap = "Gap h (jp_pending_gap j)"
    obtain r where r: "bytes_hold r (held @ [item_bytes ?gap])" "j1 = j\<lparr>jp_ring := r, jp_pending_gap := 0\<rparr>"
      by (rule write_gap_eq [OF hold, of h]) (simp_all add: 4(2))
    then obtain news where "producer_step j1 (held @ [item_bytes ?gap]) news (if ok then Accepted h (concat parts) else Dropped) j'"
      using write_part_step [of j1 "held @ [item_bytes ?gap]"] 4(3) by fastforce
    then have "producer_step j held (?gap # news) (if ok then Accepted h (concat parts) else Dropped) j'"
      using r(2) stamped_shift [of "jp_pending_gap j" 0 news] by (auto simp: producer_step_def)
    then show ?thesis ..
  qed
qed

lemma journal_run_accounts:
  assumes "bytes_hold (jp_ring j) held" "jp_pending_gap j + length ops < 2 ^ 64" "journal_run ops j = (evs, taken, j')"
  shows "\<exists>items held'. bytes_hold (jp_ring j') held' \<and> held @ map item_bytes items = taken @ held'
    \<and> stamped 0 items = stamped_events (jp_pending_gap j) evs
    \<and> gap_total items + jp_pending_gap j' = jp_pending_gap j + drops evs
    \<and> sh_dropped (jp_shared j') = sh_dropped (jp_shared j) + of_nat (drops evs)"
  using assms
proof (induction ops j arbitrary: held evs taken j' rule: journal_run.induct)
  case (1 j)
  then show ?case by (intro exI [of _ "[]"] exI [of _ held]) auto
next
  case (2 h parts ops j)
  obtain ok j1 where one: "append_record h parts j = (ok, j1)" by (cases "append_record h parts j")
  obtain evs' taken' j2 where rest: "journal_run ops j1 = (evs', taken', j2)" by (cases "journal_run ops j1")
  let ?ev = "if ok then Accepted h (concat parts) else Dropped"
  obtain news where n: "producer_step j held news ?ev j1"
    using append_record_step [OF 2(2) _ one] 2(3) by auto
  have bound: "jp_pending_gap j1 + length ops < 2 ^ 64" using n 2(3) by (auto simp: producer_step_def split: if_splits)
  have hold1: "bytes_hold (jp_ring j1) (held @ map item_bytes news)" using n by (simp add: producer_step_def)
  obtain items held' where I: "bytes_hold (jp_ring j2) held'" "(held @ map item_bytes news) @ map item_bytes items = taken' @ held'"
    "stamped 0 items = stamped_events (jp_pending_gap j1) evs'" "gap_total items + jp_pending_gap j2 = jp_pending_gap j1 + drops evs'"
    "sh_dropped (jp_shared j2) = sh_dropped (jp_shared j1) + of_nat (drops evs')"
    using 2(1) [OF one [symmetric] refl hold1 bound rest] by blast
  have out: "evs = ?ev # evs'" "taken = taken'" "j' = j2" using 2(4) one rest by auto
  have "stamped (gap_total news) items = stamped_events (gap_total news + jp_pending_gap j1) evs'"
    using stamped_shift [of "gap_total news" 0 items] stamped_events_shift [of "gap_total news" "jp_pending_gap j1" evs'] I(3) by simp
  then show ?case
    using n I(1,2,4,5) out
    by (intro exI [of _ "news @ items"] exI [of _ held']) (auto simp: producer_step_def stamped_append split: if_splits)
next
  case (3 ops j)
  obtain x r where one: "bytes_pop (jp_ring j) = (x, r)" by (cases "bytes_pop (jp_ring j)")
  let ?j1 = "j\<lparr>jp_ring := r\<rparr>"
  obtain evs' taken' j2 where rest: "journal_run ops ?j1 = (evs', taken', j2)" by (cases "journal_run ops ?j1")
  have hold1: "bytes_hold r (tl held)" "x = (if held = [] then None else Some (hd held))"
    using byte_ring.pop_empty [of "jp_ring j" x r] byte_ring.pop_front [of "jp_ring j" "hd held" "tl held" x r] 3(2) one
    by (cases held; simp)+
  have "jp_pending_gap ?j1 + length ops < 2 ^ 64" "bytes_hold (jp_ring ?j1) (tl held)" using 3(3) hold1 by auto
  from 3(1) [OF one [symmetric] refl this(2,1) rest]
  obtain items held' where I: "bytes_hold (jp_ring j2) held'" "tl held @ map item_bytes items = taken' @ held'"
    "stamped 0 items = stamped_events (jp_pending_gap j) evs'" "gap_total items + jp_pending_gap j2 = jp_pending_gap j + drops evs'"
    "sh_dropped (jp_shared j2) = sh_dropped (jp_shared j) + of_nat (drops evs')"
    by auto
  have out: "evs = evs'" "taken = (if held = [] then taken' else hd held # taken')" "j' = j2" using 3(4) one rest hold1(2) by auto
  have "held @ map item_bytes items = taken @ held'" using I(2) out(2) by (cases held) auto
  then show ?case using I(1,3-5) out by blast
qed


section \<open>File names\<close>

lemma strip_prefix_append [simp]: "strip_prefix p (p @ xs) = Some xs"
  by (simp add: strip_prefix_def)

lemma strip_suffix_append [simp]: "strip_suffix q (xs @ q) = Some xs"
  by (simp add: strip_suffix_def)

lemma segment_index_name [simp]: "i < 2 ^ 32 \<Longrightarrow> segment_index (segment_name i) = Some i"
proof -
  assume i: "i < 2 ^ 32"
  have "strip_suffix (ascii ''.bjl'') (show_padded 8 i @ ascii ''.bjl'') = Some (show_padded 8 i)" by (rule strip_suffix_append)
  then show ?thesis using i parse_show_padded [of i "2 ^ 32" 8] by (simp add: segment_index_def segment_name_def)
qed

text \<open>Every segment on the disk has an index of at most \<open>i\<close>; so the next name is new.\<close>

definition indices_le :: "nat \<Rightarrow> (byte list \<times> byte list) list \<Rightarrow> bool" where
  "indices_le i files \<longleftrightarrow> list_all (\<lambda>(name, _). case segment_index name of None \<Rightarrow> True | Some k \<Rightarrow> k \<le> i) files"

lemma indices_le_append [simp]: "indices_le i (a @ b) \<longleftrightarrow> indices_le i a \<and> indices_le i b"
  by (simp add: indices_le_def)

lemma indices_le_Cons2 [simp]: "indices_le i (x # y # xs) \<longleftrightarrow> indices_le i [x] \<and> indices_le i (y # xs)"
  by (auto simp: indices_le_def)

lemma indices_le_name: "indices_le i [(name, c)] \<Longrightarrow> indices_le i [(name, d)]"
  by (simp add: indices_le_def)

lemma next_name_new: "indices_le i files \<Longrightarrow> i < j \<Longrightarrow> j < 2 ^ 32 \<Longrightarrow> segment_name j \<notin> fst ` set files"
  by (auto simp: indices_le_def list_all_iff dest!: bspec)

lemma segment_index_less: "segment_index name = Some k \<Longrightarrow> k < 2 ^ 32"
  by (auto simp: segment_index_def bind_eq_Some_conv dest!: parse_uint_less)

lemma next_segment_index_new:
  assumes "next_segment_index (map fst files) < 2 ^ 32 - 1"
  shows "list_all (\<lambda>(name, _). case segment_index name of None \<Rightarrow> True | Some k \<Rightarrow> k < next_segment_index (map fst files)) files"
proof -
  let ?is = "List.map_filter segment_index (map fst files)"
  have "k < next_segment_index (map fst files)" if "(name, c) \<in> set files" "segment_index name = Some k" for name c k
  proof -
    have k: "k \<in> set ?is" using that by (force simp: List.map_filter_def)
    then have "next_segment_index (map fst files) = sat_u32 (fold max ?is 0 + 1)"
      by (cases ?is) (simp_all add: next_segment_index_def)
    then show ?thesis using fold_max_ge(2) [OF k, of 0] assms by (simp add: sat_u32_def min_def split: if_splits)
  qed
  then show ?thesis by (auto simp: list_all_iff split: option.split)
qed

section \<open>What the sink leaves on a working disk\<close>

type_synonym seg = "nat \<times> nanos \<times> byte list list"

text \<open>A segment by its index, its creation time and the records sealed into it.\<close>

fun seg_content :: "(byte list \<Rightarrow> 32 word) \<Rightarrow> seg \<Rightarrow> byte list" where
  "seg_content crc (i, c, rcs) = encode_file_header i c @ concat (map (seal crc) rcs)"

definition seg_file :: "(byte list \<Rightarrow> 32 word) \<Rightarrow> seg \<Rightarrow> byte list \<times> byte list" where
  "seg_file crc sg = (segment_name (fst sg), seg_content crc sg)"

fun seg_size :: "seg \<Rightarrow> nat" where
  "seg_size (i, c, rcs) = FILE_HEADER_LEN + sum_list (map length rcs)"

definition recs_of :: "seg list \<Rightarrow> byte list list" where
  "recs_of sgs = concat (map (snd \<circ> snd) sgs)"

text \<open>The segments after one more record: a full last segment starts a new one.\<close>

fun add_record :: "nat \<Rightarrow> nanos \<Rightarrow> byte list \<Rightarrow> seg list \<Rightarrow> seg list" where
  "add_record limit now rc [] = []"
| "add_record limit now rc [(i, c, rcs)] =
     (if limit \<le> seg_size (i, c, rcs) then [(i, c, rcs), (i + 1, now, [rc])] else [(i, c, rcs @ [rc])])"
| "add_record limit now rc (sg # sgs) = sg # add_record limit now rc sgs"

definition sink_ok :: "(byte list \<Rightarrow> 32 word) \<Rightarrow> (byte list \<times> byte list) list \<Rightarrow> seg list \<Rightarrow> sink \<Rightarrow> bool" where
  "sink_ok crc old sgs s \<longleftrightarrow>
     sgs \<noteq> [] \<and> sk_error s = None \<and> dk_faults (sk_disk s) = [] \<and> \<not> sh_failed (sk_shared s)
     \<and> dk_files (sk_disk s) = old @ map (seg_file crc) sgs
     \<and> sk_index s = fst (last sgs) \<and> sk_segment s = \<lparr>sg_path = segment_name (sk_index s), sg_bytes = seg_size (last sgs)\<rparr>
     \<and> indices_le (sk_index s) (dk_files (sk_disk s)) \<and> segment_name (sk_index s) \<notin> fst ` set (old @ map (seg_file crc) (butlast sgs))
     \<and> js_records (sk_stats s) = length (recs_of sgs) \<and> js_bytes (sk_stats s) = sum_list (map length (recs_of sgs))
     \<and> js_lost_after_failure (sk_stats s) = 0"

lemma sink_okD:
  assumes "sink_ok crc old (sgs @ [(i, c, rcs)]) s"
  shows "sk_error s = None" "dk_faults (sk_disk s) = []" "\<not> sh_failed (sk_shared s)"
    "dk_files (sk_disk s) = (old @ map (seg_file crc) sgs) @ [seg_file crc (i, c, rcs)]" "sk_index s = i"
    "sk_segment s = \<lparr>sg_path = segment_name i, sg_bytes = seg_size (i, c, rcs)\<rparr>"
    "indices_le i old" "indices_le i (map (seg_file crc) sgs)" "indices_le i [seg_file crc (i, c, rcs)]"
    "segment_name i \<notin> fst ` set (old @ map (seg_file crc) sgs)"
    "js_records (sk_stats s) = length (recs_of (sgs @ [(i, c, rcs)]))"
    "js_bytes (sk_stats s) = sum_list (map length (recs_of (sgs @ [(i, c, rcs)])))"
    "js_lost_after_failure (sk_stats s) = 0"
  using assms by (auto simp: sink_ok_def)

lemma length_seal [simp]: "length (seal crc rc) = length rc"
  by (simp add: seal_def Let_def format_consts)

lemma seal_parts:
  assumes "RECORD_HEADER_LEN \<le> length rc"
  shows "seal crc rc = take CRC_AT rc @ le_bytes 4 (record_checksum crc rc)
    @ le_bytes 4 (header_checksum crc rc (record_checksum crc rc)) @ drop RECORD_HEADER_LEN rc"
  using assms by (simp add: seal_def Let_def format_consts write_at_def)

lemma next_outcome_working [simp]: "dk_faults d = [] \<Longrightarrow> next_outcome d = (Done, d)"
  by (simp add: next_outcome_def)

lemma write_all_working:
  assumes "dk_faults d = []" "dk_files d = fs @ [(name, c)]" "name \<notin> fst ` set fs"
  shows "write_all name bs d = (True, d\<lparr>dk_files := fs @ [(name, c @ bs)]\<rparr>)"
proof -
  have "map (\<lambda>(n, c). if n = name then (n, c @ bs) else (n, c)) fs = fs"
    using assms(3) by (intro map_idI) force
  then show ?thesis using assms by (simp add: write_all_def)
qed

lemma write_chain_working:
  assumes "dk_faults d = []" "dk_files d = fs @ [(name, c)]" "name \<notin> fst ` set fs"
  shows "write_chain name chunks d = (True, d\<lparr>dk_files := fs @ [(name, c @ concat chunks)]\<rparr>)"
  using assms
proof (induction chunks arbitrary: d c)
  case (Cons bs chunks)
  show ?case using Cons.IH [of "d\<lparr>dk_files := fs @ [(name, c @ bs)]\<rparr>" "c @ bs"] Cons.prems write_all_working [OF Cons.prems] by simp
qed simp

declare write_chain.simps [simp del]

text \<open>The byte and record counters are u64; \<open>room_for\<close>: they do not overflow.\<close>

definition room_for :: "byte list \<Rightarrow> seg list \<Rightarrow> bool" where
  "room_for rc sgs \<longleftrightarrow> FILE_HEADER_LEN + sum_list (map length (recs_of sgs)) + length rc < 2 ^ 64 \<and> length (recs_of sgs) + 1 < 2 ^ 64"

lemma put_record_working:
  assumes "sink_ok crc old (sgs @ [(i, c, rcs)]) s" "RECORD_HEADER_LEN \<le> length rc"
    "room_for rc (sgs @ [(i, c, rcs)])"
  shows "sink_ok crc old (sgs @ [(i, c, rcs @ [rc])]) (put_record crc rc s)"
proof -
  let ?old = "old @ map (seg_file crc) sgs"
  note S = sink_okD [OF assms(1)]
  have f: "dk_files (sk_disk s) = ?old @ [(segment_name i, seg_content crc (i, c, rcs))]" using S(4) by (simp add: seg_file_def)
  have le: "indices_le i [(segment_name i, d)]" for d
    using indices_le_name S(9) by (simp add: seg_file_def)
  have "CRC_AT \<le> length rc" using assms(2) by (simp add: format_consts)
  then show ?thesis
    using S le assms(3) [unfolded room_for_def] seal_parts [OF assms(2), of crc]
    by (simp add: sink_ok_def put_record_def Let_def write_chain_working [OF S(2) f S(10)] seg_file_def sat_u64_id range_defs recs_of_def)
qed


lemma segment_create_working:
  assumes "dk_faults d = []" "segment_name i \<notin> fst ` set (dk_files d)"
  shows "segment_create now i d =
    (Ok \<lparr>sg_path = segment_name i, sg_bytes = FILE_HEADER_LEN\<rparr>, d\<lparr>dk_files := dk_files d @ [seg_file (\<lambda>_. 0) (i, now, [])]\<rparr>)"
  using assms write_all_working [of "d\<lparr>dk_files := dk_files d @ [(segment_name i, [])]\<rparr>" "dk_files d" "segment_name i" "[]"]
  by (simp add: segment_create_def create_new_def seg_file_def Let_def)

lemma sync_working [simp]: "dk_faults d = [] \<Longrightarrow> segment_sync d = (True, d)" "dk_faults d = [] \<Longrightarrow> flush_disk d = (True, d)"
  by (simp_all add: segment_sync_def flush_disk_def)

lemma guard_working [simp]:
  "sk_error s = None \<Longrightarrow> dk_faults (sk_disk s) = [] \<Longrightarrow> guard oper segment_sync s = s"
  "sk_error s = None \<Longrightarrow> dk_faults (sk_disk s) = [] \<Longrightarrow> guard oper flush_disk s = s"
  by (simp_all add: guard_def)

lemma indices_le_mono: "indices_le i fs \<Longrightarrow> i \<le> j \<Longrightarrow> indices_le j fs"
  by (auto simp: indices_le_def list_all_iff split: option.splits)

lemma rotate_working:
  assumes ok: "sink_ok crc old (sgs @ [(i, c, rcs)]) s" and i: "i < 2 ^ 32 - 1"
  shows "sink_ok crc old (sgs @ [(i, c, rcs), (i + 1, now, [])]) (rotate_segment now s)"
proof -
  note S = sink_okD [OF ok]
  have idx: "sat_u32 (i + 1) = i + 1" using i by (simp add: sat_u32_def)
  have files: "indices_le i (dk_files (sk_disk s))" using S(7-9) by (simp add: S(4))
  have new: "segment_name (i + 1) \<notin> fst ` set (dk_files (sk_disk s))" using i by (intro next_name_new [OF files]) auto
  have same: "seg_file (\<lambda>_. 0) (i + 1, now, []) = seg_file crc (i + 1, now, [])" by (simp add: seg_file_def)
  have le: "indices_le (i + 1) (dk_files (sk_disk s))" using indices_le_mono [OF files] by simp
  have le1: "indices_le (i + 1) [seg_file crc (i + 1, now, [])]" using i by (simp add: indices_le_def seg_file_def)
  show ?thesis
    using S(1-6,11-) idx new same le le1
    by (simp add: sink_ok_def rotate_segment_def segment_create_working [OF S(2) new, unfolded Suc_eq_plus1 [symmetric]] butlast_append recs_of_def)
qed

lemma put_record_config [simp]: "sk_config (put_record crc rc s) = sk_config s"
  by (simp add: put_record_def Let_def fail_def set_failed_def split: prod.split bool.split)

lemma add_record_snoc:
  "add_record limit now rc (sgs @ [(i, c, rcs)]) =
     (if limit \<le> seg_size (i, c, rcs) then sgs @ [(i, c, rcs), (i + 1, now, [rc])] else sgs @ [(i, c, rcs @ [rc])])"
proof (induction sgs)
  case (Cons sg sgs)
  then show ?case by (cases "sgs @ [(i, c, rcs)]") auto
qed simp

lemma sink_write_working:
  assumes ok: "sink_ok crc old sgs s" and rc: "RECORD_HEADER_LEN \<le> length rc"
    and i: "fst (last sgs) < 2 ^ 32 - 1" and small: "room_for rc sgs"
  shows "sink_ok crc old (add_record (jc_segment_bytes (sk_config s)) now rc sgs) (sink_write crc now rc s)"
proof -
  obtain front i c rcs where sgs: "sgs = front @ [(i, c, rcs)]"
    using ok by (metis append_butlast_last_id prod_cases3 sink_ok_def)
  note S = ok [unfolded sgs]
  have seg: "sg_bytes (sk_segment s) = seg_size (i, c, rcs)" "sk_error s = None" using S by (auto simp: sink_ok_def)
  show ?thesis
  proof (cases "jc_segment_bytes (sk_config s) \<le> seg_size (i, c, rcs)")
    case True
    have R: "sink_ok crc old ((front @ [(i, c, rcs)]) @ [(i + 1, now, [])]) (rotate_segment now s)"
      using rotate_working [OF S] i sgs by simp
    have "room_for rc ((front @ [(i, c, rcs)]) @ [(i + 1, now, [])])" using small sgs by (simp add: room_for_def recs_of_def)
    from put_record_working [OF R rc this] show ?thesis
      using True seg sink_okD(1) [OF R] by (simp add: sgs add_record_snoc sink_write_def Let_def)
  next
    case False
    then show ?thesis using put_record_working [OF S rc] small seg sgs by (simp add: add_record_snoc sink_write_def)
  qed
qed


section \<open>A whole run\<close>

definition add_records :: "nat \<Rightarrow> nanos \<Rightarrow> byte list list \<Rightarrow> seg list \<Rightarrow> seg list" where
  "add_records limit now xs sgs = fold (add_record limit now) xs sgs"

lemma add_record_cases:
  assumes "sgs \<noteq> []"
  obtains front i c rcs where "sgs = front @ [(i, c, rcs)]"
    "add_record limit now rc sgs = (if limit \<le> seg_size (i, c, rcs) then front @ [(i, c, rcs), (i + 1, now, [rc])] else front @ [(i, c, rcs @ [rc])])"
proof -
  obtain front i c rcs where sgs: "sgs = front @ [(i, c, rcs)]" using assms by (metis append_butlast_last_id prod_cases3)
  show ?thesis by (rule that [OF sgs]) (simp only: sgs add_record_snoc)
qed

lemma recs_of_add_record: "sgs \<noteq> [] \<Longrightarrow> recs_of (add_record limit now rc sgs) = recs_of sgs @ [rc]"
  by (erule add_record_cases [where limit = limit and now = now and rc = rc]) (auto simp: recs_of_def)

lemma add_record_nonempty [simp]: "sgs \<noteq> [] \<Longrightarrow> add_record limit now rc sgs \<noteq> []"
  by (erule add_record_cases [where limit = limit and now = now and rc = rc]) auto

lemma last_add_record: "sgs \<noteq> [] \<Longrightarrow> fst (last (add_record limit now rc sgs)) \<le> fst (last sgs) + 1"
  by (erule add_record_cases [where limit = limit and now = now and rc = rc]) auto

text \<open>Consecutive indices from \<open>i\<close>; and no segment is over the limit by more than its last record.\<close>

fun contiguous :: "nat \<Rightarrow> seg list \<Rightarrow> bool" where
  "contiguous i [] \<longleftrightarrow> True"
| "contiguous i (sg # sgs) \<longleftrightarrow> fst sg = i \<and> contiguous (i + 1) sgs"

definition within_limit :: "nat \<Rightarrow> seg \<Rightarrow> bool" where
  "within_limit limit sg = (case sg of (i, c, rcs) \<Rightarrow> length rcs \<le> 1 \<or> seg_size (i, c, butlast rcs) < limit)"

lemma contiguous_append: "contiguous i (a @ b) \<longleftrightarrow> contiguous i a \<and> contiguous (i + length a) b"
  by (induction a arbitrary: i) auto

lemma contiguous_add_record: "sgs \<noteq> [] \<Longrightarrow> contiguous i sgs \<Longrightarrow> contiguous i (add_record limit now rc sgs)"
  by (erule add_record_cases [where limit = limit and now = now and rc = rc]) (auto simp: contiguous_append)

lemma within_add_record:
  "sgs \<noteq> [] \<Longrightarrow> list_all (within_limit limit) sgs \<Longrightarrow> list_all (within_limit limit) (add_record limit now rc sgs)"
  by (erule add_record_cases [where limit = limit and now = now and rc = rc]) (auto simp: within_limit_def not_le)

lemma add_records_facts:
  assumes "sgs \<noteq> []"
  shows "recs_of (add_records limit now xs sgs) = recs_of sgs @ xs" "add_records limit now xs sgs \<noteq> []"
    "contiguous i sgs \<Longrightarrow> contiguous i (add_records limit now xs sgs)"
    "list_all (within_limit limit) sgs \<Longrightarrow> list_all (within_limit limit) (add_records limit now xs sgs)"
  using assms
  by (induction xs arbitrary: sgs) (auto simp: add_records_def recs_of_add_record contiguous_add_record within_add_record)

lemma sink_config_kept [simp]:
  "sk_config (rotate_segment now s) = sk_config s" "sk_config (sink_write crc now rc s) = sk_config s"
proof -
  show r: "sk_config (rotate_segment now s) = sk_config s" for s
    by (simp add: rotate_segment_def guard_def fail_def set_failed_def Let_def split: prod.split bool.split result.split)
  show "sk_config (sink_write crc now rc s) = sk_config s"
    by (simp add: sink_write_def Let_def count_lost_def r)
qed

lemma sink_writes_working:
  assumes "sink_ok crc old sgs s" "list_all (\<lambda>rc. RECORD_HEADER_LEN \<le> length rc) xs"
    "fst (last sgs) + length xs < 2 ^ 32"
    "FILE_HEADER_LEN + sum_list (map length (recs_of sgs @ xs)) < 2 ^ 64" "length (recs_of sgs) + length xs < 2 ^ 64"
  shows "sink_ok crc old (add_records (jc_segment_bytes (sk_config s)) now xs sgs) (fold (sink_write crc now) xs s)"
  using assms
proof (induction xs arbitrary: s sgs)
  case (Cons rc xs)
  let ?sgs = "add_record (jc_segment_bytes (sk_config s)) now rc sgs"
  have ne: "sgs \<noteq> []" using Cons.prems(1) by (simp add: sink_ok_def)
  have ok: "sink_ok crc old ?sgs (sink_write crc now rc s)"
    using Cons.prems by (intro sink_write_working) (auto simp: room_for_def)
  have "fst (last ?sgs) + length xs < 2 ^ 32"
    using last_add_record [OF ne, of "jc_segment_bytes (sk_config s)" now rc] Cons.prems(3) by simp
  then show ?case
    using Cons.IH [OF ok] Cons.prems ne by (simp add: add_records_def recs_of_add_record ac_simps)
qed (simp add: add_records_def)

lemma drain_all:
  "bytes_hold ring xs \<Longrightarrow>
     \<exists>ring'. drain crc now wrote ring s = Some (wrote \<or> xs \<noteq> [], ring', fold (sink_write crc now) xs s) \<and> bytes_hold ring' []"
proof (induction xs arbitrary: ring wrote s)
  case Nil
  then obtain r where "read_with ring = Some (None, r)" "bytes_hold r []" using read_with_holds [of ring "[]"] by auto
  then show ?case by (subst drain.simps) simp
next
  case (Cons x xs)
  then obtain r where r: "read_with ring = Some (Some x, r)" "bytes_hold r xs" using read_with_holds [of ring "x # xs"] by auto
  from Cons.IH [OF r(2), of True "sink_write crc now x s"] r(1) show ?case by (subst drain.simps) simp
qed

lemma take_turn_working:
  assumes "bytes_hold ring xs" "sink_ok crc old sgs (fold (sink_write crc (tn_now t)) xs s)"
  shows "\<exists>ring'. take_turn crc t ring s = Some (tn_stopping t \<and> xs = [], ring', fold (sink_write crc (tn_now t)) xs s) \<and> bytes_hold ring' []"
  using drain_all [OF assms(1), of crc "tn_now t" False s] assms(2) by (auto simp: take_turn_def Let_def sink_ok_def)


lemma start_journal_ok:
  assumes "start_journal config now d = Ok (j, s)" "dk_faults d = []" "next_segment_index (map fst (dk_files d)) < 2 ^ 32 - 1"
  defines "first \<equiv> next_segment_index (map fst (dk_files d))"
  shows "bytes_hold (jp_ring j) []" "jp_pending_gap j = 0" "sh_dropped (jp_shared j) = 0" "sk_config s = config"
    "sink_ok crc (dk_files d) [(first, now, [])] s"
proof -
  obtain ring where ring: "bytes_channel (jc_ring_bytes config) = Ok ring"
    using assms(1) by (cases "bytes_channel (jc_ring_bytes config)") (auto simp: start_journal_def)
  have idx: "list_all (\<lambda>(name, _). case segment_index name of None \<Rightarrow> True | Some k \<Rightarrow> k < first) (dk_files d)"
    unfolding first_def by (rule next_segment_index_new [OF assms(3)])
  have i: "first < 2 ^ 32 - 1" using assms(3) by (simp add: first_def)
  have le: "indices_le first (dk_files d)" using idx by (auto simp: indices_le_def list_all_iff split: option.splits)
  have new: "segment_name first \<notin> fst ` set (dk_files d)" using idx i by (auto simp: list_all_iff dest!: bspec)
  have S: "j = \<lparr>jp_ring = ring, jp_pending_gap = 0, jp_shared = \<lparr>sh_dropped = 0, sh_failed = False, sh_stop = False\<rparr>\<rparr>"
    "s = sink_new config \<lparr>sh_dropped = 0, sh_failed = False, sh_stop = False\<rparr> \<lparr>sg_path = segment_name first, sg_bytes = FILE_HEADER_LEN\<rparr>
       (d\<lparr>dk_files := dk_files d @ [seg_file (\<lambda>_. 0) (first, now, [])]\<rparr>)"
    using assms(1,2) ring segment_create_working [OF assms(2) new, of now] by (auto simp: start_journal_def Let_def first_def)
  show "bytes_hold (jp_ring j) []" "jp_pending_gap j = 0" "sh_dropped (jp_shared j) = 0" "sk_config s = config"
    using bytes_channel_holds [OF ring] by (simp_all add: S sink_new_def)
  have "indices_le first [seg_file crc (first, now, [])]" using i by (simp add: indices_le_def seg_file_def)
  moreover have "seg_file (\<lambda>_. 0) (first, now, []) = seg_file crc (first, now, [])" by (simp add: seg_file_def)
  ultimately show "sink_ok crc (dk_files d) [(first, now, [])] s"
    using assms(2) le new i by (simp add: S sink_new_def sink_ok_def recs_of_def stats_init_def unwrap_or_def)
qed

lemma finish_run_working:
  assumes "sink_ok crc old sgs s"
  shows "finish_run s = (Ok ((sk_stats s)\<lparr>js_dropped := unat (sh_dropped (sk_shared s))\<rparr>),
    s\<lparr>sk_stats := (sk_stats s)\<lparr>js_dropped := unat (sh_dropped (sk_shared s))\<rparr>\<rparr>)"
  using assms by (simp add: finish_run_def Let_def sink_ok_def)

lemma writer_run_working:
  assumes hold: "bytes_hold ring xs" and ok: "sink_ok crc old sgs s" and xs: "list_all (\<lambda>rc. RECORD_HEADER_LEN \<le> length rc) xs"
    and bounds: "fst (last sgs) + length xs < 2 ^ 32" "FILE_HEADER_LEN + sum_list (map length (recs_of sgs @ xs)) < 2 ^ 64"
      "length (recs_of sgs) + length xs < 2 ^ 64"
    and turns: "tn_arrivals t1 = []" "tn_arrivals t2 = []" "tn_stopping t1" "tn_stopping t2"
  shows "\<exists>st s'. writer_run crc [t1, t2] ring s = Some (Ok st, s') \<and> js_records st = length (recs_of sgs @ xs)
    \<and> dk_files (sk_disk s') = old @ map (seg_file crc) (add_records (jc_segment_bytes (sk_config s)) (tn_now t1) xs sgs)"
proof -
  let ?sgs = "add_records (jc_segment_bytes (sk_config s)) (tn_now t1) xs sgs"
  let ?s = "fold (sink_write crc (tn_now t1)) xs s"
  have ok1: "sink_ok crc old ?sgs ?s" by (rule sink_writes_working [OF ok xs bounds])
  have ne: "sgs \<noteq> []" using ok by (simp add: sink_ok_def)
  obtain ring1 where t: "take_turn crc t1 ring s = Some (tn_stopping t1 \<and> xs = [], ring1, ?s)" "bytes_hold ring1 []"
    using take_turn_working [OF hold ok1] by blast
  obtain ring2 where t2: "take_turn crc t2 ring1 ?s = Some (True, ring2, ?s)"
    using take_turn_working [OF t(2), of crc old ?sgs t2 ?s] ok1 turns by auto
  have "writer_run crc [t1, t2] ring s = Some (finish_run ?s)"
    using t(1) t2 turns by simp
  then show ?thesis
    using finish_run_working [OF ok1] ok1 by (simp add: sink_ok_def add_records_facts(1) [OF ne])
qed

section \<open>A failing disk\<close>

definition write_step :: "sink \<Rightarrow> sink \<Rightarrow> bool" where
  "write_step s s' \<longleftrightarrow>
     (let r = js_records (sk_stats s); l = js_lost_after_failure (sk_stats s);
          r' = js_records (sk_stats s'); l' = js_lost_after_failure (sk_stats s') in
      if sk_error s \<noteq> None then sk_disk s' = sk_disk s \<and> sk_error s' = sk_error s \<and> sk_shared s' = sk_shared s \<and> r' = r \<and> l' = l + 1
      else if sk_error s' = None then sk_shared s' = sk_shared s \<and> r' = r + 1 \<and> l' = l
      else sh_failed (sk_shared s') \<and> r' = r \<and> (l' = l \<or> l' = l + 1))"

lemma rotate_step:
  assumes "sk_error s = None"
  shows "js_records (sk_stats (rotate_segment now s)) = js_records (sk_stats s)
    \<and> js_lost_after_failure (sk_stats (rotate_segment now s)) = js_lost_after_failure (sk_stats s)
    \<and> (if sk_error (rotate_segment now s) = None then sk_shared (rotate_segment now s) = sk_shared s else sh_failed (sk_shared (rotate_segment now s)))"
  using assms by (simp add: rotate_segment_def guard_def fail_def set_failed_def Let_def split: prod.split bool.split result.split)

lemma put_record_step:
  assumes "sk_error s = None" "js_records (sk_stats s) < 2 ^ 64 - 1"
  shows "write_step s (put_record crc rc s)"
  using assms
  by (simp add: write_step_def put_record_def fail_def set_failed_def Let_def sat_u64_id range_defs split: prod.split bool.split)

lemma sink_write_step:
  assumes "js_records (sk_stats s) < 2 ^ 64 - 1" "js_lost_after_failure (sk_stats s) < 2 ^ 64 - 1"
  shows "write_step s (sink_write crc now rc s)"
proof -
  consider "sk_error s \<noteq> None" | "sk_error s = None" "sink_write crc now rc s = put_record crc rc s"
    | "sk_error s = None" "sk_error (rotate_segment now s) \<noteq> None" "sink_write crc now rc s = count_lost (rotate_segment now s)"
    | "sk_error s = None" "sk_error (rotate_segment now s) = None" "sink_write crc now rc s = put_record crc rc (rotate_segment now s)"
    by (cases "sk_error s"; cases "sk_error (rotate_segment now s)"; cases "jc_segment_bytes (sk_config s) \<le> sg_bytes (sk_segment s)")
      (simp_all add: sink_write_def Let_def)
  then show ?thesis
  proof cases
    case 1
    then show ?thesis using assms by (simp add: sink_write_def write_step_def count_lost_def sat_u64_id range_defs)
  next
    case 2
    then show ?thesis using put_record_step assms by simp
  next
    case 3
    then show ?thesis using rotate_step [OF 3(1), of now] assms by (simp add: write_step_def count_lost_def sat_u64_id range_defs)
  next
    case 4
    then show ?thesis
      using put_record_step [OF 4(2), of crc rc] rotate_step [OF 4(1), of now] assms
      by (auto simp: write_step_def Let_def split: if_splits)
  qed
qed


definition failure_account :: "sink \<Rightarrow> nat \<Rightarrow> sink \<Rightarrow> bool" where
  "failure_account s n s' \<longleftrightarrow>
     (let r = js_records (sk_stats s); l = js_lost_after_failure (sk_stats s);
          r' = js_records (sk_stats s'); l' = js_lost_after_failure (sk_stats s') in
      (sh_failed (sk_shared s') \<longleftrightarrow> sk_error s' \<noteq> None)
      \<and> (sk_error s \<noteq> None \<longrightarrow> sk_disk s' = sk_disk s \<and> sk_error s' = sk_error s \<and> r' = r \<and> l' = l + n)
      \<and> (sk_error s' = None \<longrightarrow> r' = r + n \<and> l' = l)
      \<and> r \<le> r' \<and> l \<le> l' \<and> r' + l' \<le> r + l + n \<and> r + l + n \<le> r' + l' + (if sk_error s = None then 1 else 0))"

lemma write_step_account:
  assumes "sh_failed (sk_shared s) \<longleftrightarrow> sk_error s \<noteq> None" "write_step s s'"
  shows "failure_account s 1 s'"
  using assms by (cases "sk_error s"; cases "sk_error s'") (auto simp: write_step_def failure_account_def Let_def)

lemma failure_account_trans:
  "failure_account s m s1 \<Longrightarrow> failure_account s1 n s2 \<Longrightarrow> failure_account s (m + n) s2"
  by (cases "sk_error s"; cases "sk_error s1"; cases "sk_error s2") (auto simp: failure_account_def Let_def)

lemma sink_writes_account:
  assumes "sh_failed (sk_shared s) \<longleftrightarrow> sk_error s \<noteq> None"
    "js_records (sk_stats s) + length xs < 2 ^ 64" "js_lost_after_failure (sk_stats s) + length xs < 2 ^ 64"
  shows "failure_account s (length xs) (fold (sink_write crc now) xs s)"
  using assms
proof (induction xs arbitrary: s)
  case Nil
  then show ?case by (auto simp: failure_account_def Let_def)
next
  case (Cons x xs)
  have one: "failure_account s 1 (sink_write crc now x s)"
    using Cons.prems by (intro write_step_account sink_write_step) auto
  then have "failure_account (sink_write crc now x s) (length xs) (fold (sink_write crc now) xs (sink_write crc now x s))"
    using Cons.prems by (intro Cons.IH) (auto simp: failure_account_def Let_def)
  from failure_account_trans [OF one this] show ?case by simp
qed

section \<open>Properties\<close>

text \<open>C16: However appends and reads interleave on the ring, the journal holds exactly the accepted records, in
  order, and every one of them comes after gap markers whose counts add up to the number of
  records dropped before it; drops not yet marked are pending, and the shared counter has all.\<close>

theorem journal_drops_accounted:
  assumes "bytes_hold (jp_ring j) []" "jp_pending_gap j = 0" "sh_dropped (jp_shared j) = 0"
    "length ops < 2 ^ 64" "journal_run ops j = (evs, taken, j')"
  shows "\<exists>items held. bytes_hold (jp_ring j') held \<and> taken @ held = map item_bytes items
    \<and> stamped 0 items = stamped_events 0 evs
    \<and> gap_total items + jp_pending_gap j' = drops evs
    \<and> sh_dropped (jp_shared j') = of_nat (drops evs)"
proof -
  have "jp_pending_gap j + length ops < 2 ^ 64" using assms by simp
  from journal_run_accounts [OF assms(1) this assms(5)] assms(2,3) show ?thesis by (metis add_0 append_Nil)
qed

definition demo_producer :: journal_producer where
  "demo_producer = \<lparr>jp_ring = demo_bytes_ring, jp_pending_gap = 0, jp_shared = \<lparr>sh_dropped = 0, sh_failed = False, sh_stop = False\<rparr>\<rparr>"

theorem journal_drops_accounted_witness:
  "\<exists>j'. journal_run [Append demo_record_header [], Append demo_record_header [[1], [2]]] demo_producer = ([Dropped, Dropped], [], j')
    \<and> sh_dropped (jp_shared j') = 2"
proof -
  let ?ops = "[Append demo_record_header [], Append demo_record_header [[1], [2]]]"
  obtain evs taken j' where run: "journal_run ?ops demo_producer = (evs, taken, j')" by (cases "journal_run ?ops demo_producer")
  have "evs = [Dropped, Dropped] \<and> taken = []"
    using run
    by (auto simp: demo_producer_def append_record_def drop_record_def Let_def sat_u64_id range_defs RECORD_HEADER_LEN_def
        max_record_def HEADER_def br_capacity_def demo_bytes_ring_def)
  moreover have "bytes_hold (jp_ring demo_producer) []" using demo_bytes_ring_holds by (simp add: demo_producer_def)
  ultimately show ?thesis
    using journal_drops_accounted [of demo_producer ?ops evs taken j'] run by (auto simp: demo_producer_def)
qed

text \<open>C18: A disk failure is never silent and never half undone: whatever the disk answers, the failed flag is up
  exactly when an error is recorded, every record handed to the sink is counted as written or as
  lost, save the one whose writing failed, and after the failure the disk is left alone.\<close>

theorem journal_failure_accounted:
  assumes "sh_failed (sk_shared s) \<longleftrightarrow> sk_error s \<noteq> None"
    "js_records (sk_stats s) + length xs < 2 ^ 64" "js_lost_after_failure (sk_stats s) + length xs < 2 ^ 64"
    and s': "s' = fold (sink_write crc now) xs s"
  shows "(sh_failed (sk_shared s') \<longleftrightarrow> sk_error s' \<noteq> None)
    \<and> (sk_error s \<noteq> None \<longrightarrow> sk_disk s' = sk_disk s \<and> sk_error s' = sk_error s
        \<and> js_lost_after_failure (sk_stats s') = js_lost_after_failure (sk_stats s) + length xs)
    \<and> (sk_error s' = None \<longrightarrow> js_records (sk_stats s') = js_records (sk_stats s) + length xs)
    \<and> js_records (sk_stats s') + js_lost_after_failure (sk_stats s')
        \<in> {js_records (sk_stats s) + js_lost_after_failure (sk_stats s) + length xs - (if sk_error s = None then 1 else 0)
           .. js_records (sk_stats s) + js_lost_after_failure (sk_stats s) + length xs}"
  using sink_writes_account [OF assms(1-3), of crc now] unfolding s' [symmetric]
  by (auto simp: failure_account_def Let_def split: if_splits)

definition demo_sink :: "io_outcome list \<Rightarrow> sink" where
  "demo_sink faults = \<lparr>sk_config = journal_config_new, sk_shared = \<lparr>sh_dropped = 0, sh_failed = False, sh_stop = False\<rparr>,
     sk_segment = \<lparr>sg_path = [1], sg_bytes = 32\<rparr>, sk_index = 0, sk_stats = stats_init, sk_error = None,
     sk_disk = \<lparr>dk_files = [([1], [])], dk_faults = faults\<rparr>\<rparr>"

lemma demo_put:
  "dk_faults (sk_disk s) = Done # Done # Done # Done # fs \<Longrightarrow> sk_error s = None \<Longrightarrow>
     (let s1 = put_record crc rc s in sk_error s1 = None \<and> dk_faults (sk_disk s1) = fs \<and> sk_config s1 = sk_config s
        \<and> sk_segment s1 = (sk_segment s)\<lparr>sg_bytes := sat_u64 (sg_bytes (sk_segment s) + length rc)\<rparr>
        \<and> js_records (sk_stats s1) = sat_u64 (js_records (sk_stats s) + 1) \<and> js_lost_after_failure (sk_stats s1) = js_lost_after_failure (sk_stats s))"
  by (simp add: put_record_def write_chain.simps write_all_def next_outcome_def Let_def)

lemma demo_put_breaks:
  "dk_faults (sk_disk s) = Done # Broken k # fs \<Longrightarrow> sk_error s = None \<Longrightarrow>
     sk_error (put_record crc rc s) = Some (JournalIo ''write'' (sg_path (sk_segment s))) \<and> sk_stats (put_record crc rc s) = sk_stats s"
  by (simp add: put_record_def write_chain.simps write_all_def next_outcome_def fail_def set_failed_def unwrap_or_def Let_def)

theorem journal_failure_accounted_witness:
  "let s = demo_sink [Done, Done, Done, Done, Done, Broken 2];
       s' = fold (sink_write (\<lambda>_. 0) 5) [replicate 40 0, replicate 40 0, replicate 40 0] s in
   sk_error s' = Some (JournalIo ''write'' [1]) \<and> sh_failed (sk_shared s') \<and> js_records (sk_stats s') = 1 \<and> js_lost_after_failure (sk_stats s') = 1
     \<and> js_records (sk_stats s') + js_lost_after_failure (sk_stats s') \<in> {2..3}"
proof -
  let ?x = "replicate 40 0 :: byte list" and ?s = "demo_sink [Done, Done, Done, Done, Done, Broken 2]"
  define s1 where "s1 = put_record (\<lambda>_. 0) ?x ?s"
  define s2 where "s2 = put_record (\<lambda>_. 0) ?x s1"
  have 1: "sk_error s1 = None" "dk_faults (sk_disk s1) = [Done, Broken 2]" "sk_config s1 = journal_config_new" "sg_bytes (sk_segment s1) = 72"
    "sg_path (sk_segment s1) = [1]" "js_records (sk_stats s1) = 1" "js_lost_after_failure (sk_stats s1) = 0"
    using demo_put [of ?s "[Done, Broken 2]" "\<lambda>_. 0" ?x] by (simp_all add: s1_def demo_sink_def stats_init_def sat_u64_def u64_max_def Let_def)
  have 2: "sk_error s2 = Some (JournalIo ''write'' [1])" "sk_stats s2 = sk_stats s1" using demo_put_breaks [OF 1(2,1), of "\<lambda>_. 0" ?x] 1(5) by (simp_all add: s2_def)
  have w: "sink_write (\<lambda>_. 0) 5 ?x ?s = s1" "sink_write (\<lambda>_. 0) 5 ?x s1 = s2" "sink_write (\<lambda>_. 0) 5 ?x s2 = count_lost s2"
    using 1 2(1) by (simp_all add: sink_write_def s1_def [symmetric] s2_def [symmetric] journal_config_new_def) (simp add: demo_sink_def journal_config_new_def)
  have f: "fold (sink_write (\<lambda>_. 0) 5) [?x, ?x, ?x] ?s = count_lost s2" using w by (simp only: fold_simps o_apply id_apply)
  have c: "sk_error (count_lost s2) = Some (JournalIo ''write'' [1])" "js_records (sk_stats (count_lost s2)) = 1" "js_lost_after_failure (sk_stats (count_lost s2)) = 1"
    using 1 2 by (simp_all add: count_lost_def sat_u64_def u64_max_def)
  have s: "sh_failed (sk_shared ?s) \<longleftrightarrow> sk_error ?s \<noteq> None" "js_records (sk_stats ?s) + length [?x, ?x, ?x] < 2 ^ 64"
    "js_lost_after_failure (sk_stats ?s) + length [?x, ?x, ?x] < 2 ^ 64" "js_records (sk_stats ?s) + js_lost_after_failure (sk_stats ?s) = 0" "sk_error ?s = None"
    by (simp_all add: demo_sink_def stats_init_def)
  show ?thesis using journal_failure_accounted [OF s(1-3) f [symmetric]] c s(4,5) unfolding Let_def f by simp
qed

text \<open>C17: Once the stop flag is up and the producers are quiet, the writer of a journal just started on a disk that does not fail returns
  after it has written everything in the ring: the files present before are untouched, the new
  segments are numbered on from the highest, hold the records in order, sealed, and none is
  over the size limit by more than one record.\<close>

theorem journal_finish_writes_all:
  assumes "start_journal config now d = Ok (j, s)" "dk_faults d = []" "bytes_hold ring xs"
    "list_all (\<lambda>rc. RECORD_HEADER_LEN \<le> length rc) xs"
    "next_segment_index (map fst (dk_files d)) + length xs < 2 ^ 32 - 1" "FILE_HEADER_LEN + sum_list (map length xs) < 2 ^ 64"
    "tn_arrivals t1 = []" "tn_arrivals t2 = []" "tn_stopping t1" "tn_stopping t2"
  shows "\<exists>st s' sgs. writer_run crc [t1, t2] ring s = Some (Ok st, s') \<and> js_records st = length xs
    \<and> dk_files (sk_disk s') = dk_files d @ map (seg_file crc) sgs \<and> recs_of sgs = xs
    \<and> contiguous (next_segment_index (map fst (dk_files d))) sgs
    \<and> list_all (within_limit (jc_segment_bytes config)) sgs"
proof -
  let ?first = "next_segment_index (map fst (dk_files d))"
  have first: "?first < 2 ^ 32 - 1" using assms(5) by simp
  note S = start_journal_ok [OF assms(1,2) first]
  have "length xs < 2 ^ 64" using assms(5) by simp
  then obtain st s' where "writer_run crc [t1, t2] ring s = Some (Ok st, s')" "js_records st = length xs"
    "dk_files (sk_disk s') = dk_files d @ map (seg_file crc) (add_records (jc_segment_bytes config) (tn_now t1) xs [(?first, now, [])])"
    using writer_run_working [OF assms(3) S(5) assms(4) _ _ _ assms(7-10)] assms(5,6) S(4) by (fastforce simp: recs_of_def)
  moreover have "recs_of (add_records (jc_segment_bytes config) (tn_now t1) xs [(?first, now, [])]) = xs"
    by (simp add: add_records_facts(1)) (simp add: recs_of_def)
  moreover have "contiguous ?first (add_records (jc_segment_bytes config) (tn_now t1) xs [(?first, now, [])])"
    by (rule add_records_facts(3)) simp_all
  moreover have "list_all (within_limit (jc_segment_bytes config)) (add_records (jc_segment_bytes config) (tn_now t1) xs [(?first, now, [])])"
    by (rule add_records_facts(4)) (simp_all add: within_limit_def)
  ultimately show ?thesis by blast
qed

definition demo_config :: journal_config where
  "demo_config = \<lparr>jc_ring_bytes = 128, jc_segment_bytes = 50, jc_flush_every = 1, jc_sync_every = 2\<rparr>"

definition demo_turn :: turn where
  "demo_turn = \<lparr>tn_arrivals = [], tn_stopping = True, tn_flush_due = True, tn_sync_due = True, tn_now = 9\<rparr>"

lemma demo_channel: "\<exists>ring. bytes_channel 128 = Ok ring"
proof -
  have "is_power_of_two 128" by (simp add: is_power_of_two.simps)
  then show ?thesis by (simp add: bytes_channel_def MIN_CAPACITY_def)
qed

lemma demo_start: "\<exists>j s. start_journal demo_config 5 \<lparr>dk_files = [], dk_faults = []\<rparr> = Ok (j, s)"
  using demo_channel segment_create_working [of "\<lparr>dk_files = [], dk_faults = []\<rparr>"]
  by (auto simp: start_journal_def demo_config_def Let_def next_segment_index_def List.map_filter_def)

lemma demo_ring_holding: "\<exists>ring. bytes_hold ring [replicate 40 0]"
proof -
  let ?x = "replicate 40 0 :: byte list"
  obtain ring where ring: "bytes_channel 128 = Ok ring" using demo_channel by blast
  note R = bytes_channel_holds [OF ring]
  have "length ?x \<le> max_record ring" by (simp add: max_record_def R(2) HEADER_def)
  then have ok: "fst (bytes_push ?x ring) = Ok ()" by (rule bytes_push_empty [OF R(1)])
  obtain res r where p: "bytes_push ?x ring = (res, r)" by (cases "bytes_push ?x ring")
  from push_cases [OF R(1) p] ok p show ?thesis by (intro exI [of _ r]) simp
qed

theorem journal_finish_writes_all_witness:
  "\<exists>ring j s st s' sgs. start_journal demo_config 5 \<lparr>dk_files = [], dk_faults = []\<rparr> = Ok (j, s) \<and> bytes_hold ring [replicate 40 0]
    \<and> writer_run (\<lambda>_. 0) [demo_turn, demo_turn] ring s = Some (Ok st, s') \<and> js_records st = length [replicate 40 (0::byte)]
    \<and> recs_of sgs = [replicate 40 0]"
proof -
  obtain j s where start: "start_journal demo_config 5 \<lparr>dk_files = [], dk_faults = []\<rparr> = Ok (j, s)" using demo_start by blast
  obtain ring where ring: "bytes_hold ring [replicate 40 0]" using demo_ring_holding by blast
  show ?thesis
    using journal_finish_writes_all [OF start _ ring, of demo_turn demo_turn "\<lambda>_. 0"] start ring
    by (auto simp: demo_turn_def RECORD_HEADER_LEN_def FILE_HEADER_LEN_def next_segment_index_def List.map_filter_def)
qed

end
