(* ===== verification/Journal_Reader.thy ===== *)
theory Journal_Reader
  imports Journal "HOL-Library.Multiset"
begin

text \<open>
  \<open>crates/bowst-journal/src/reader.rs\<close>: reading a journal back.  A directory is the list of its
  entries in any order, a file name with the contents, or \<open>None\<close> when the file cannot be read.
\<close>

section \<open>The reader\<close>

type_synonym directory = "(byte list \<times> byte list option) list"

type_synonym journal_record = "record_header \<times> byte list"

datatype read_error =
    ReadIo "byte list"
  | Corrupt "byte list" format_error
  | Truncated "byte list" nat
  | MissingSegment nat nat

record journal_reader =
  jr_files :: directory
  jr_next_file :: nat
  jr_data :: "byte list"
  jr_pos :: nat
  jr_torn_tail :: bool

fun check_windows :: "nat list \<Rightarrow> read_error option" where
  "check_windows (a # b # rest) =
     (if sat_u32 (a + 1) \<noteq> b then Some (MissingSegment (sat_u32 (a + 1)) b) else check_windows (b # rest))"
| "check_windows _ = None"

definition indexed :: "directory \<Rightarrow> (nat \<times> byte list \<times> byte list option) list" where
  "indexed dir = List.map_filter (\<lambda>(name, c). map_option (\<lambda>i. (i, name, c)) (segment_index name)) dir"

definition open_journal :: "directory option \<Rightarrow> (journal_reader, read_error) result" where
  "open_journal listing =
     (case listing of None \<Rightarrow> Err (ReadIo [])
      | Some dir \<Rightarrow>
          let files = sort_key fst (indexed dir) in
          case check_windows (map fst files) of
            Some e \<Rightarrow> Err e
          | None \<Rightarrow> Ok \<lparr>jr_files = map snd files, jr_next_file = 0, jr_data = [], jr_pos = 0, jr_torn_tail = False\<rparr>)"

definition current_path :: "journal_reader \<Rightarrow> byte list" where
  "current_path r = (case nth_opt (jr_files r) (jr_next_file r - 1) of Some (name, _) \<Rightarrow> name | None \<Rightarrow> [])"

definition load_next :: "journal_reader \<Rightarrow> (bool, read_error) result \<times> journal_reader" where
  "load_next r =
     (case nth_opt (jr_files r) (jr_next_file r) of
        None \<Rightarrow> (Ok False, r)
      | Some (path, c) \<Rightarrow>
          let r1 = r\<lparr>jr_next_file := jr_next_file r + 1\<rparr> in
          case c of
            None \<Rightarrow> (Err (ReadIo path), r1)
          | Some bs \<Rightarrow>
              let r2 = r1\<lparr>jr_data := bs\<rparr> in
              case decode_file_header bs of
                Err e \<Rightarrow> (Err (Corrupt path e), r2)
              | Ok _ \<Rightarrow> (Ok True, r2\<lparr>jr_pos := FILE_HEADER_LEN\<rparr>))"

lemma load_next_True: "load_next r = (Ok True, r') \<Longrightarrow> jr_next_file r < length (jr_files r) \<and> jr_files r' = jr_files r \<and> jr_next_file r' = jr_next_file r + 1"
  by (auto simp: load_next_def nth_opt_def Let_def split: option.splits result.splits if_splits)

text \<open>Skip exhausted and header-only segments.\<close>

function fill_data :: "journal_reader \<Rightarrow> (bool, read_error) result \<times> journal_reader" where
  "fill_data r =
     (if jr_pos r \<ge> length (jr_data r) then
        case load_next r of
          (Err e, r1) \<Rightarrow> (Err e, r1)
        | (Ok loaded, r1) \<Rightarrow> if loaded then fill_data r1 else (Ok False, r1)
      else (Ok True, r))"
  by auto
termination
  by (relation "measure (\<lambda>r. length (jr_files r) - jr_next_file r)")
    (auto dest!: load_next_True [OF sym])

declare fill_data.simps [simp del]

definition next_record :: "(byte list \<Rightarrow> 32 word) \<Rightarrow> journal_reader \<Rightarrow> (journal_record option, read_error) result \<times> journal_reader" where
  "next_record crc r =
     (case fill_data r of
        (Err e, r1) \<Rightarrow> (Err e, r1)
      | (Ok False, r1) \<Rightarrow> (Ok None, r1)
      | (Ok True, r1) \<Rightarrow>
          (case decode_record crc (drop (jr_pos r1) (jr_data r1)) (jr_pos r1) of
             Ok Incomplete \<Rightarrow>
               if jr_next_file r1 < length (jr_files r1) then (Err (Truncated (current_path r1) (jr_pos r1)), r1)
               else (Ok None, r1\<lparr>jr_torn_tail := True, jr_pos := length (jr_data r1)\<rparr>)
           | Err e \<Rightarrow> (Err (Corrupt (current_path r1) e), r1)
           | Ok (Record header len) \<Rightarrow>
               (let start = jr_pos r1; fin = start + len in
                (Ok (Some (header, if fin \<le> length (jr_data r1)
                                   then take (fin - (start + RECORD_HEADER_LEN)) (drop (start + RECORD_HEADER_LEN) (jr_data r1))
                                   else [])),
                 r1\<lparr>jr_pos := fin\<rparr>))))"

text \<open>The client's loop: every record until the end or the first error.\<close>

partial_function (option) read_all ::
  "(byte list \<Rightarrow> 32 word) \<Rightarrow> journal_reader \<Rightarrow> (journal_record list \<times> read_error option \<times> journal_reader) option" where
  "read_all crc r =
     (case next_record crc r of
        (Err e, r1) \<Rightarrow> Some ([], Some e, r1)
      | (Ok None, r1) \<Rightarrow> Some ([], None, r1)
      | (Ok (Some rc), r1) \<Rightarrow>
          Option.bind (read_all crc r1) (\<lambda>(rcs, e, r2). Some (rc # rcs, e, r2)))"

section \<open>Reading what was sealed\<close>

definition record_ok :: "journal_record \<Rightarrow> bool" where
  "record_ok = (\<lambda>(h, p). header_ok h \<and> length p \<le> MAX_PAYLOAD)"

abbreviation sealed_all :: "(byte list \<Rightarrow> 32 word) \<Rightarrow> journal_record list \<Rightarrow> byte list" where
  "sealed_all crc rcs \<equiv> concat (map (\<lambda>(h, p). sealed crc h p) rcs)"

text \<open>A segment file holding some records, followed by some bytes.\<close>

definition holds_records :: "(byte list \<Rightarrow> 32 word) \<Rightarrow> byte list option \<Rightarrow> journal_record list \<Rightarrow> byte list \<Rightarrow> bool" where
  "holds_records crc c rcs torn \<longleftrightarrow> (\<exists>bs i. c = Some bs \<and> FILE_HEADER_LEN \<le> length bs \<and> decode_file_header bs = Ok i
     \<and> drop FILE_HEADER_LEN bs = sealed_all crc rcs @ torn)"

text \<open>The reader stands before \<open>rcs\<close> in the current file, with \<open>later\<close> in the files to come.\<close>

definition stands_before :: "(byte list \<Rightarrow> 32 word) \<Rightarrow> journal_reader \<Rightarrow> journal_record list \<Rightarrow> byte list \<Rightarrow> journal_record list list \<Rightarrow> byte list \<Rightarrow> bool" where
  "stands_before crc r rcs torn0 later torn \<longleftrightarrow>
     jr_pos r \<le> length (jr_data r) \<and> drop (jr_pos r) (jr_data r) = sealed_all crc rcs @ torn0
     \<and> list_all record_ok rcs
     \<and> jr_next_file r + length later = length (jr_files r)
     \<and> (\<forall>k < length later. list_all record_ok (later ! k)
          \<and> holds_records crc (snd (jr_files r ! (jr_next_file r + k))) (later ! k) (if Suc k = length later then torn else []))
     \<and> (later \<noteq> [] \<longrightarrow> torn0 = []) \<and> (later = [] \<longrightarrow> torn0 = torn)"

lemma fill_data_here: "jr_pos r < length (jr_data r) \<Longrightarrow> fill_data r = (Ok True, r)"
  by (subst fill_data.simps) simp

lemma next_record_here:
  assumes "stands_before crc r ((h, p) # rcs) torn0 later torn"
  shows "\<exists>r'. next_record crc r = (Ok (Some (h, p)), r') \<and> stands_before crc r' rcs torn0 later torn \<and> jr_torn_tail r' = jr_torn_tail r"
proof -
  let ?n = "RECORD_HEADER_LEN + length p"
  let ?r = "r\<lparr>jr_pos := jr_pos r + ?n\<rparr>"
  have D: "drop (jr_pos r) (jr_data r) = sealed crc h p @ (sealed_all crc rcs @ torn0)" "header_ok h" "length p \<le> MAX_PAYLOAD"
    using assms by (auto simp: stands_before_def record_ok_def)
  have len: "jr_pos r + ?n \<le> length (jr_data r)"
    using arg_cong [OF D(1), of length] assms by (auto simp: stands_before_def)
  have fd: "fill_data r = (Ok True, r)" using len by (intro fill_data_here) (simp add: RECORD_HEADER_LEN_def)
  have "take (length p) (drop RECORD_HEADER_LEN (drop (jr_pos r) (jr_data r))) = p"
    unfolding D(1) by (simp add: sealed_def Let_def RECORD_HEADER_LEN_def)
  then have "take (length p) (drop (RECORD_HEADER_LEN + jr_pos r) (jr_data r)) = p" by simp
  then have "next_record crc r = (Ok (Some (h, p)), ?r)"
    using decode_sealed [OF D(2,3), of crc] len by (simp add: next_record_def fd D(1) Let_def ac_simps)
  moreover have "drop ?n (drop (jr_pos r) (jr_data r)) = sealed_all crc rcs @ torn0" unfolding D(1) by simp
  then have "stands_before crc ?r rcs torn0 later torn" using assms len by (simp add: stands_before_def ac_simps)
  ultimately show ?thesis by fastforce
qed

lemma load_next_later:
  assumes "stands_before crc r [] [] (rcs # later) torn"
  shows "\<exists>r'. load_next r = (Ok True, r') \<and> stands_before crc r' rcs (if later = [] then torn else []) later torn \<and> jr_torn_tail r' = jr_torn_tail r"
proof -
  note S = assms [unfolded stands_before_def]
  have L: "jr_next_file r < length (jr_files r)" using S by auto
  obtain path c where f: "jr_files r ! jr_next_file r = (path, c)" by (cases "jr_files r ! jr_next_file r")
  have K: "\<And>k. k < Suc (length later) \<Longrightarrow> list_all record_ok ((rcs # later) ! k)
      \<and> holds_records crc (snd (jr_files r ! (jr_next_file r + k))) ((rcs # later) ! k) (if k = length later then torn else [])"
    using S by auto
  have hr: "list_all record_ok rcs" "holds_records crc c rcs (if later = [] then torn else [])"
    using K [of 0] f by (auto split: if_splits)
  then obtain bs i where bs: "c = Some bs" "FILE_HEADER_LEN \<le> length bs" "decode_file_header bs = Ok i"
    "drop FILE_HEADER_LEN bs = sealed_all crc rcs @ (if later = [] then torn else [])"
    by (auto simp: holds_records_def)
  let ?r = "r\<lparr>jr_next_file := jr_next_file r + 1, jr_data := bs, jr_pos := FILE_HEADER_LEN\<rparr>"
  have "load_next r = (Ok True, ?r)" using L f bs by (simp add: load_next_def nth_opt_def)
  moreover have "stands_before crc ?r rcs (if later = [] then torn else []) later torn"
    unfolding stands_before_def using S hr(1) bs(2,4) K [of "Suc _"] by auto
  ultimately show ?thesis by fastforce
qed


lemma next_record_later:
  assumes "stands_before crc r [] [] (rcs # later) torn" "load_next r = (Ok True, r')"
  shows "next_record crc r = next_record crc r'" "read_all crc r = read_all crc r'"
proof -
  have "fill_data r = fill_data r'"
    using assms by (subst fill_data.simps) (auto simp: stands_before_def)
  then show n: "next_record crc r = next_record crc r'" by (simp add: next_record_def)
  show "read_all crc r = read_all crc r'"
    by (subst read_all.simps, subst (2) read_all.simps) (simp add: n)
qed

lemma next_record_end:
  assumes "stands_before crc r [] torn [] torn" "torn = [] \<or> (\<forall>off. decode_record crc torn off = Ok Incomplete)"
  shows "\<exists>r'. next_record crc r = (Ok None, r') \<and> jr_torn_tail r' = (jr_torn_tail r \<or> torn \<noteq> [])"
proof -
  note S = assms(1) [unfolded stands_before_def, simplified]
  show ?thesis
  proof (cases "torn = []")
    case True
    then have "fill_data r = (Ok False, r)"
      using S by (subst fill_data.simps) (simp add: load_next_def nth_opt_def)
    then show ?thesis using True by (simp add: next_record_def)
  next
    case False
    then have "jr_pos r < length (jr_data r)" using S by (metis drop_eq_Nil not_le)
    then show ?thesis using False S assms(2) by (simp add: next_record_def fill_data_here)
  qed
qed

lemma read_all_records:
  assumes "stands_before crc r rcs torn0 later torn" "torn = [] \<or> (\<forall>off. decode_record crc torn off = Ok Incomplete)"
  shows "\<exists>r'. read_all crc r = Some (rcs @ concat later, None, r') \<and> jr_torn_tail r' = (jr_torn_tail r \<or> torn \<noteq> [])"
  using assms(1)
proof (induction later arbitrary: r rcs torn0)
  case Nil
  then have [simp]: "torn0 = torn" by (simp add: stands_before_def)
  show ?case using Nil
  proof (induction rcs arbitrary: r)
    case Nil
    then show ?case using next_record_end [of crc r torn] assms(2) by (subst read_all.simps) force
  next
    case (Cons rc rcs)
    obtain h p where rc: "rc = (h, p)" by (cases rc)
    from next_record_here [OF Cons.prems [unfolded rc]] obtain r1 where r1: "next_record crc r = (Ok (Some (h, p)), r1)"
      "stands_before crc r1 rcs torn0 [] torn" "jr_torn_tail r1 = jr_torn_tail r" by blast
    from Cons.IH [OF r1(2)] show ?case using r1(1,3) by (subst read_all.simps) (force simp: rc)
  qed
next
  case (Cons next_rcs later)
  then have [simp]: "torn0 = []" by (simp add: stands_before_def)
  show ?case using Cons.prems
  proof (induction rcs arbitrary: r)
    case Nil
    from load_next_later [OF Nil [simplified]] obtain r1 where r1: "load_next r = (Ok True, r1)"
      "stands_before crc r1 next_rcs (if later = [] then torn else []) later torn" "jr_torn_tail r1 = jr_torn_tail r" by blast
    from Cons.IH [OF r1(2)] show ?case using next_record_later(2) [OF Nil [simplified] r1(1)] r1(3) by simp
  next
    case (Cons rc rcs)
    obtain h p where rc: "rc = (h, p)" by (cases rc)
    from next_record_here [OF Cons.prems [unfolded rc]] obtain r1 where r1: "next_record crc r = (Ok (Some (h, p)), r1)"
      "stands_before crc r1 rcs torn0 (next_rcs # later) torn" "jr_torn_tail r1 = jr_torn_tail r" by blast
    from Cons.IH [OF r1(2)] show ?case using r1(1,3) by (subst read_all.simps) (force simp: rc)
  qed
qed

section \<open>Opening\<close>

text \<open>The typed view of the writer's segments: headers and payloads in place of raw bytes.\<close>

type_synonym typed_seg = "nat \<times> nanos \<times> journal_record list"

fun raw_seg :: "typed_seg \<Rightarrow> seg" where
  "raw_seg (i, c, rcs) = (i, c, map (\<lambda>(h, p). raw_record h p) rcs)"

lemma fst_raw_seg [simp]: "fst (raw_seg sg) = fst sg"
  by (cases sg) auto

lemma check_windows_contiguous:
  "contiguous i (map raw_seg sgs) \<Longrightarrow> i + length sgs \<le> 2 ^ 32 \<Longrightarrow> check_windows (map fst sgs) = None"
proof (induction sgs arbitrary: i)
  case (Cons a sgs)
  then show ?case by (cases sgs) (auto simp: sat_u32_def)
qed simp

lemma contiguous_nth: "contiguous i (map raw_seg sgs) \<Longrightarrow> k < length sgs \<Longrightarrow> fst (sgs ! k) = i + k"
  by (induction sgs arbitrary: i k) (auto simp: nth_Cons split: nat.split)

lemma contiguous_sorted: "contiguous i (map raw_seg sgs) \<Longrightarrow> sorted (map fst sgs) \<and> distinct (map fst sgs)"
  by (auto simp: sorted_iff_nth_mono distinct_conv_nth contiguous_nth)

lemma indexed_mset: "mset a = mset b \<Longrightarrow> mset (indexed a) = mset (indexed b)"
  by (simp add: indexed_def List.map_filter_def)

lemma indexed_foreign: "list_all (\<lambda>(n, c). segment_index n = None) foreign \<Longrightarrow> indexed (foreign @ dir) = indexed dir"
  by (induction foreign) (auto simp: indexed_def List.map_filter_def)

text \<open>The directory a writer leaves, with the contents of its last segment cut to \<open>n\<close> bytes.\<close>

definition on_last :: "('a \<Rightarrow> 'b) \<Rightarrow> ('a \<Rightarrow> 'b) \<Rightarrow> 'a list \<Rightarrow> 'b list" where
  "on_last f g xs = map f (butlast xs) @ map g (drop (length xs - 1) xs)"

lemma length_on_last [simp]: "length (on_last f g xs) = length xs"
  by (cases "xs = []") (auto simp: on_last_def)

lemma on_last_nth: "k < length xs \<Longrightarrow> on_last f g xs ! k = (if Suc k = length xs then g (xs ! k) else f (xs ! k))"
proof -
  assume k: "k < length xs"
  show ?thesis
  proof (cases "Suc k = length xs")
    case True
    then have "length xs - 1 = k" by simp
    then show ?thesis using k True by (simp add: on_last_def nth_append)
  next
    case False
    then have "k < length xs - 1" using k by linarith
    then show ?thesis using False by (simp add: on_last_def nth_append nth_butlast)
  qed
qed

definition cut_entries :: "(byte list \<Rightarrow> 32 word) \<Rightarrow> nat \<Rightarrow> typed_seg list \<Rightarrow> directory" where
  "cut_entries crc n =
     on_last (\<lambda>sg. (segment_name (fst sg), Some (seg_content crc (raw_seg sg))))
       (\<lambda>sg. (segment_name (fst sg), Some (take n (seg_content crc (raw_seg sg)))))"

lemma length_cut_entries [simp]: "length (cut_entries crc n sgs) = length sgs"
  by (simp add: cut_entries_def)

lemma cut_entries_nth:
  "k < length sgs \<Longrightarrow> cut_entries crc n sgs ! k =
     (segment_name (fst (sgs ! k)), Some (if Suc k = length sgs then take n (seg_content crc (raw_seg (sgs ! k))) else seg_content crc (raw_seg (sgs ! k))))"
  by (simp add: cut_entries_def on_last_nth)

lemma indexed_cut:
  assumes "contiguous i (map raw_seg sgs)" "i + length sgs \<le> 2 ^ 32"
  shows "indexed (cut_entries crc n sgs) = map2 (\<lambda>sg e. (fst sg, e)) sgs (cut_entries crc n sgs)"
proof -
  have idx: "segment_index (fst (cut_entries crc n sgs ! k)) = Some (fst (sgs ! k))" if "k < length sgs" for k
    using that assms contiguous_nth [OF assms(1) that] by (simp add: cut_entries_nth)
  have "indexed xs = map2 (\<lambda>sg e. (fst sg, e)) ss xs"
    if "length xs = length ss" "\<And>k. k < length ss \<Longrightarrow> segment_index (fst (xs ! k)) = Some (fst (ss ! k))"
    for xs :: directory and ss :: "typed_seg list"
    using that
  proof (induction xs ss rule: list_induct2)
    case (Cons x xs y ys)
    have "segment_index (fst x) = Some (fst y)" using Cons.prems [of 0] by simp
    moreover have "indexed xs = map2 (\<lambda>sg e. (fst sg, e)) ys xs" using Cons.prems [of "Suc _"] by (intro Cons.IH) auto
    ultimately show ?case by (cases x) (simp add: indexed_def List.map_filter_def)
  qed (simp add: indexed_def List.map_filter_def)
  then show ?thesis using idx by simp
qed

lemma open_cut:
  assumes "contiguous i (map raw_seg sgs)" "i + length sgs \<le> 2 ^ 32" "list_all (\<lambda>(n, c). segment_index n = None) foreign"
    "mset dir = mset (foreign @ cut_entries crc n sgs)"
  shows "open_journal (Some dir) = Ok \<lparr>jr_files = cut_entries crc n sgs, jr_next_file = 0, jr_data = [], jr_pos = 0, jr_torn_tail = False\<rparr>"
proof -
  let ?es = "map2 (\<lambda>sg e. (fst sg, e)) sgs (cut_entries crc n sgs)"
  have es: "map fst ?es = map fst sgs" "map snd ?es = cut_entries crc n sgs"
    by (auto intro!: nth_equalityI)
  have m: "mset (indexed dir) = mset ?es"
    using indexed_mset [OF assms(4)] indexed_foreign [OF assms(3)] indexed_cut [OF assms(1,2)] by simp
  have d: "distinct (map fst ?es)" "sorted (map fst ?es)" unfolding es using contiguous_sorted [OF assms(1)] by auto
  have "inj_on fst (set (indexed dir))" using d(1) unfolding mset_eq_setD [OF m] distinct_map by blast
  from sort_key_inj_key_eq [OF m this d(2)] have "sort_key fst (indexed dir) = ?es" .
  then show ?thesis using es check_windows_contiguous [OF assms(1,2)] by (simp add: open_journal_def Let_def)
qed


section \<open>A cut last segment\<close>

text \<open>How many of the records lie wholly within the first \<open>n\<close> bytes.\<close>

fun whole :: "nat \<Rightarrow> journal_record list \<Rightarrow> nat" where
  "whole n [] = 0"
| "whole n ((h, p) # rcs) = (if n < RECORD_HEADER_LEN + length p then 0 else Suc (whole (n - (RECORD_HEADER_LEN + length p)) rcs))"

lemma take_sealed:
  assumes "list_all record_ok rcs"
  obtains torn where "take n (sealed_all crc rcs) = sealed_all crc (take (whole n rcs) rcs) @ torn"
    "torn = [] \<or> (\<forall>off. decode_record crc torn off = Ok Incomplete)"
proof -
  have "\<exists>torn. take n (sealed_all crc rcs) = sealed_all crc (take (whole n rcs) rcs) @ torn
      \<and> (torn = [] \<or> (\<forall>off. decode_record crc torn off = Ok Incomplete))"
    using assms
  proof (induction n rcs rule: whole.induct)
    case (2 n h p rcs)
    show ?case
    proof (cases "n < RECORD_HEADER_LEN + length p")
      case True
      then show ?thesis using decode_torn [of h p n crc] 2(2) by (intro exI [of _ "take n (sealed crc h p)"]) (simp add: record_ok_def)
    next
      case False
      then show ?thesis using 2(1) [OF False] 2(2) by auto
    qed
  qed simp
  then show ?thesis using that by blast
qed

lemma seal_raw_seg: "seg_content crc (raw_seg (i, c, rcs)) = encode_file_header i c @ sealed_all crc rcs"
proof -
  have "map (seal crc) (map (\<lambda>(h, p). raw_record h p) rcs) = map (\<lambda>(h, p). sealed crc h p) rcs"
    by (simp add: seal_raw case_prod_beta comp_def)
  then show ?thesis by (simp only: raw_seg.simps seg_content.simps)
qed

definition recs :: "typed_seg \<Rightarrow> journal_record list" where
  "recs sg = snd (snd sg)"

lemma seg_holds:
  assumes "fst sg < 2 ^ 32" "FILE_HEADER_LEN \<le> n" "take (n - FILE_HEADER_LEN) (sealed_all crc (recs sg)) = sealed_all crc rcs @ torn"
  shows "holds_records crc (Some (take n (seg_content crc (raw_seg sg)))) rcs torn"
proof -
  obtain i c rs where sg: "sg = (i, c, rs)" by (cases sg)
  have "take n (seg_content crc (raw_seg sg)) = encode_file_header i c @ sealed_all crc rcs @ torn"
    using assms(2,3) by (simp add: sg seal_raw_seg recs_def del: raw_seg.simps)
  then show ?thesis
    using file_header_round_trip [of i c "sealed_all crc rcs @ torn"] assms(1) sg by (simp add: holds_records_def)
qed

lemma seg_holds_all:
  assumes "fst sg < 2 ^ 32"
  shows "holds_records crc (Some (seg_content crc (raw_seg sg))) (recs sg) []"
  using seg_holds [of sg "length (seg_content crc (raw_seg sg)) + FILE_HEADER_LEN" crc "recs sg" "[]"] assms
  by (cases sg) (simp add: seal_raw_seg recs_def del: raw_seg.simps)

text \<open>The records of the journal when the last segment is cut to \<open>n\<close> bytes.\<close>

definition surviving :: "nat \<Rightarrow> typed_seg list \<Rightarrow> journal_record list list" where
  "surviving n = on_last recs (\<lambda>sg. take (whole (n - FILE_HEADER_LEN) (recs sg)) (recs sg))"

lemma length_surviving [simp]: "length (surviving n sgs) = length sgs"
  by (simp add: surviving_def)

lemma surviving_nth:
  "k < length sgs \<Longrightarrow> surviving n sgs ! k =
     (if Suc k = length sgs then take (whole (n - FILE_HEADER_LEN) (recs (sgs ! k))) (recs (sgs ! k)) else recs (sgs ! k))"
  by (simp add: surviving_def on_last_nth)

lemma stands_before_cut:
  assumes "contiguous i (map raw_seg sgs)" "i + length sgs \<le> 2 ^ 32" "FILE_HEADER_LEN \<le> n" "sgs \<noteq> []"
    and ok: "list_all (\<lambda>sg. list_all record_ok (recs sg)) sgs"
    and torn: "take (n - FILE_HEADER_LEN) (sealed_all crc (recs (last sgs)))
      = sealed_all crc (take (whole (n - FILE_HEADER_LEN) (recs (last sgs))) (recs (last sgs))) @ torn"
  shows "stands_before crc \<lparr>jr_files = cut_entries crc n sgs, jr_next_file = 0, jr_data = [], jr_pos = 0, jr_torn_tail = False\<rparr>
     [] [] (surviving n sgs) torn"
proof -
  have "list_all record_ok (surviving n sgs ! k)
      \<and> holds_records crc (snd (cut_entries crc n sgs ! k)) (surviving n sgs ! k) (if Suc k = length sgs then torn else [])"
    if k: "k < length sgs" for k
  proof -
    have i: "fst (sgs ! k) < 2 ^ 32" using contiguous_nth [OF assms(1) k] k assms(2) by simp
    have r: "list_all record_ok (recs (sgs ! k))" using ok k by (simp add: list_all_length)
    show ?thesis
    proof (cases "Suc k = length sgs")
      case True
      then have l: "last sgs = sgs ! k" using assms(4) by (simp add: last_conv_nth flip: True)
      show ?thesis
        using seg_holds [OF i assms(3) torn [unfolded l]] True r k by (auto simp: surviving_nth cut_entries_nth list_all_iff dest: in_set_takeD)
    next
      case False
      then show ?thesis using seg_holds_all [OF i] r k by (simp add: surviving_nth cut_entries_nth)
    qed
  qed
  then show ?thesis using assms(4) by (simp add: stands_before_def) (metis length_0_conv length_surviving)
qed

section \<open>Properties\<close>

lemma journal_read_back:
  assumes "contiguous i (map raw_seg sgs)" "i + length sgs \<le> 2 ^ 32" "FILE_HEADER_LEN \<le> n" "sgs \<noteq> []"
    "list_all (\<lambda>sg. list_all record_ok (recs sg)) sgs" "list_all (\<lambda>(n, c). segment_index n = None) foreign"
    "mset dir = mset (foreign @ cut_entries crc n sgs)"
  shows "\<exists>r r'. open_journal (Some dir) = Ok r \<and> read_all crc r = Some (concat (surviving n sgs), None, r')
    \<and> (jr_torn_tail r' \<longleftrightarrow> sealed_all crc (last (surviving n sgs)) \<noteq> take (n - FILE_HEADER_LEN) (sealed_all crc (recs (last sgs))))"
proof -
  let ?r = "\<lparr>jr_files = cut_entries crc n sgs, jr_next_file = 0, jr_data = [], jr_pos = 0, jr_torn_tail = False\<rparr>"
  have "list_all record_ok (recs (last sgs))" using assms(5) last_in_set [OF assms(4)] by (auto simp: list_all_iff)
  from take_sealed [OF this, of "n - FILE_HEADER_LEN" crc] obtain torn where
    t: "take (n - FILE_HEADER_LEN) (sealed_all crc (recs (last sgs)))
      = sealed_all crc (take (whole (n - FILE_HEADER_LEN) (recs (last sgs))) (recs (last sgs))) @ torn"
      "torn = [] \<or> (\<forall>off. decode_record crc torn off = Ok Incomplete)" by metis
  have l: "last (surviving n sgs) = take (whole (n - FILE_HEADER_LEN) (recs (last sgs))) (recs (last sgs))"
    using assms(4) surviving_nth [of "length sgs - 1" sgs n] length_surviving [of n sgs]
    by (metis One_nat_def Suc_pred diff_less last_conv_nth length_greater_0_conv zero_less_one)
  from read_all_records [OF stands_before_cut [OF assms(1-5) t(1)] t(2)] open_cut [OF assms(1,2,6,7)] t(1) l
  show ?thesis by auto
qed

text \<open>C13: A journal is read back exactly: whatever the order of the directory listing and whatever other
  files it holds, opening succeeds and reading returns every record of every segment in order; if
  a crash cut the last segment anywhere at or after the end of its file header, the records that were wholly
  written are returned and the torn tail is reported, without an error.\<close>

theorem journal_reads_back:
  assumes "contiguous i (map raw_seg sgs)" "i + length sgs \<le> 2 ^ 32" "FILE_HEADER_LEN \<le> n" "sgs \<noteq> []"
    "list_all (\<lambda>sg. list_all record_ok (recs sg)) sgs" "list_all (\<lambda>(n, c). segment_index n = None) foreign"
    "mset dir = mset (foreign @ cut_entries crc n sgs)"
  shows "\<exists>r r'. open_journal (Some dir) = Ok r \<and> read_all crc r = Some (concat (surviving n sgs), None, r')
    \<and> (jr_torn_tail r' \<longleftrightarrow> sealed_all crc (last (surviving n sgs)) \<noteq> take (n - FILE_HEADER_LEN) (sealed_all crc (recs (last sgs))))"
  using assms by (rule journal_read_back)

definition demo_segs :: "typed_seg list" where
  "demo_segs = [(0, 5, [(demo_record_header, [1, 2])]), (1, 6, [(demo_record_header, []), (demo_record_header, [3])])]"

theorem journal_reads_back_witness:
  "\<exists>r r'. open_journal (Some (rev (cut_entries (\<lambda>_. 7) 64 demo_segs))) = Ok r
    \<and> read_all (\<lambda>_. 7) r = Some ([(demo_record_header, [1, 2]), (demo_record_header, [])], None, r') \<and> \<not> jr_torn_tail r'"
proof -
  have r: "list_all (\<lambda>sg. list_all record_ok (recs sg)) demo_segs"
    by (simp add: demo_segs_def recs_def record_ok_def demo_record_header_ok MAX_PAYLOAD_def)
  have s: "surviving 64 demo_segs = [[(demo_record_header, [1, 2])], [(demo_record_header, [])]]"
    by (simp add: surviving_def on_last_def demo_segs_def recs_def FILE_HEADER_LEN_def RECORD_HEADER_LEN_def)
  have "take 32 (sealed_all (\<lambda>_. 7) (recs (last demo_segs))) = sealed_all (\<lambda>_. 7) [(demo_record_header, [])]"
    using length_sealed [of "\<lambda>_. 7" demo_record_header "[]"] by (simp add: demo_segs_def recs_def RECORD_HEADER_LEN_def)
  then show ?thesis
    using journal_reads_back [of 0 demo_segs 64 "[]" "rev (cut_entries (\<lambda>_. 7) 64 demo_segs)" "\<lambda>_. 7"] r s
    by (simp add: FILE_HEADER_LEN_def demo_segs_def)
qed

end
