(* ===== verification/Histogram.thy ===== *)
theory Histogram
  imports Core_Types
begin

text \<open>
  \<open>crates/bowst-telemetry/src/histogram.rs\<close>: the log-linear latency histogram.  Values and counts
  are u64, as natural numbers; wrapping operations are written out at their width.
\<close>

section \<open>Buckets\<close>

definition SUB_BITS :: nat where "SUB_BITS = 5"
definition SUB_BUCKETS :: nat where "SUB_BUCKETS = 2 ^ SUB_BITS"
definition GROUPS :: nat where "GROUPS = 60"
definition BUCKETS :: nat where "BUCKETS = GROUPS * 32"

lemmas hist_consts = SUB_BITS_def SUB_BUCKETS_def GROUPS_def BUCKETS_def

definition wrap_sub :: "nat \<Rightarrow> nat \<Rightarrow> nat \<Rightarrow> nat" where
  "wrap_sub w a b = (a + 2 ^ w - b) mod 2 ^ w"

definition wrap_add :: "nat \<Rightarrow> nat \<Rightarrow> nat \<Rightarrow> nat" where
  "wrap_add w a b = (a + b) mod 2 ^ w"

definition wrap_mul :: "nat \<Rightarrow> nat \<Rightarrow> nat \<Rightarrow> nat" where
  "wrap_mul w a b = (a * b) mod 2 ^ w"

text \<open>The index of the highest set bit, and the leading zeros of a non-zero u64.\<close>

fun top_bit :: "nat \<Rightarrow> nat" where
  "top_bit n = (if n < 2 then 0 else Suc (top_bit (n div 2)))"

declare top_bit.simps [simp del]

definition leading_zeros :: "nat \<Rightarrow> nat" where
  "leading_zeros v = (if v = 0 then 64 else 63 - top_bit v)"

definition bucket_of :: "nat \<Rightarrow> nat" where
  "bucket_of v =
     (if v < SUB_BUCKETS then v
      else
        let top = wrap_sub 32 63 (leading_zeros v);
            shift = wrap_sub 32 top SUB_BITS;
            grp = wrap_add 32 shift 1;
            sub = wrap_sub 64 (v div 2 ^ shift) SUB_BUCKETS
        in wrap_add 64 (wrap_mul 64 grp SUB_BUCKETS) sub)"

text \<open>\<open>checked_shl\<close> refuses a shift of the width or more and drops the bits shifted out.\<close>

definition checked_shl64 :: "nat \<Rightarrow> nat \<Rightarrow> nat option" where
  "checked_shl64 v s = (if s < 64 then Some ((v * 2 ^ s) mod 2 ^ 64) else None)"

definition upper_bound :: "nat \<Rightarrow> nat" where
  "upper_bound index =
     (if index \<ge> BUCKETS then u64_max
      else if index < SUB_BUCKETS then index
      else
        let grp = index div SUB_BUCKETS; sub = index mod SUB_BUCKETS; shift = grp - 1 in
        case (checked_shl64 (sat_u64 (SUB_BUCKETS + sub)) shift, checked_shl64 1 shift) of
          (Some low, Some width) \<Rightarrow> sat_u64 (low + (width - 1))
        | _ \<Rightarrow> u64_max)"

section \<open>The histogram\<close>

record histogram =
  hg_counts :: "nat list"
  hg_count :: nat
  hg_sum :: nat
  hg_max :: nat
  hg_min :: nat

record latency_summary =
  ls_count :: nat
  ls_sum :: nat
  ls_min :: nat
  ls_p50 :: nat
  ls_p90 :: nat
  ls_p99 :: nat
  ls_p999 :: nat
  ls_max :: nat

definition hist_new :: histogram where
  "hist_new = \<lparr>hg_counts = replicate BUCKETS 0, hg_count = 0, hg_sum = 0, hg_max = 0, hg_min = u64_max\<rparr>"

definition hist_record :: "nat \<Rightarrow> histogram \<Rightarrow> histogram" where
  "hist_record v h =
     (let b = bucket_of v;
          counts = (if b < length (hg_counts h) then (hg_counts h)[b := sat_u64 (hg_counts h ! b + 1)] else hg_counts h)
      in h\<lparr>hg_counts := counts, hg_count := sat_u64 (hg_count h + 1), hg_sum := sat_u64 (hg_sum h + v),
           hg_max := max (hg_max h) v, hg_min := min (hg_min h) v\<rparr>)"

definition hist_min :: "histogram \<Rightarrow> nat" where
  "hist_min h = (if hg_count h = 0 then 0 else hg_min h)"

definition rank_for :: "nat \<Rightarrow> nat \<Rightarrow> nat" where
  "rank_for count ppm =
     (let rank = (count * ppm + 999999) div 1000000 in max (if fits_u64 rank then rank else u64_max) 1)"

fun scan_buckets :: "nat \<Rightarrow> nat \<Rightarrow> nat \<Rightarrow> nat \<Rightarrow> nat list \<Rightarrow> nat" where
  "scan_buckets rank mx seen index [] = mx"
| "scan_buckets rank mx seen index (n # ns) =
     (let seen = sat_u64 (seen + n) in
      if seen \<ge> rank then min (upper_bound index) mx else scan_buckets rank mx seen (Suc index) ns)"

definition value_at_ppm :: "nat \<Rightarrow> histogram \<Rightarrow> nat" where
  "value_at_ppm ppm h =
     (if hg_count h = 0 then 0
      else scan_buckets (rank_for (hg_count h) (min ppm 1000000)) (hg_max h) 0 0 (hg_counts h))"

definition hist_summary :: "histogram \<Rightarrow> latency_summary" where
  "hist_summary h = \<lparr>ls_count = hg_count h, ls_sum = hg_sum h, ls_min = hist_min h, ls_p50 = value_at_ppm 500000 h,
     ls_p90 = value_at_ppm 900000 h, ls_p99 = value_at_ppm 990000 h, ls_p999 = value_at_ppm 999000 h, ls_max = hg_max h\<rparr>"

definition hist_merge :: "histogram \<Rightarrow> histogram \<Rightarrow> histogram" where
  "hist_merge h other =
     h\<lparr>hg_counts := map2 (\<lambda>a b. sat_u64 (a + b)) (hg_counts h) (hg_counts other),
       hg_count := sat_u64 (hg_count h + hg_count other), hg_sum := sat_u64 (hg_sum h + hg_sum other),
       hg_max := max (hg_max h) (hg_max other), hg_min := min (hg_min h) (hg_min other)\<rparr>"

definition hist_reset :: "histogram \<Rightarrow> histogram" where
  "hist_reset h = h\<lparr>hg_counts := replicate (length (hg_counts h)) 0, hg_count := 0, hg_sum := 0, hg_max := 0, hg_min := u64_max\<rparr>"

section \<open>Buckets partition the values\<close>

lemma top_bit_bounds: "0 < v \<Longrightarrow> 2 ^ top_bit v \<le> v \<and> v < 2 ^ Suc (top_bit v)"
proof (induction v rule: top_bit.induct)
  case (1 v)
  show ?case
  proof (cases "v < 2")
    case True
    then show ?thesis using 1(2) by (simp add: top_bit.simps [of v])
  next
    case False
    then have "2 ^ top_bit (v div 2) \<le> v div 2 \<and> v div 2 < 2 ^ Suc (top_bit (v div 2))" using 1(1) by simp
    moreover have "v div 2 * 2 \<le> v" "v < (v div 2 + 1) * 2" by presburger+
    ultimately show ?thesis using False by (simp add: top_bit.simps [of v]) linarith
  qed
qed

lemma top_bit_unique: "2 ^ k \<le> v \<Longrightarrow> v < 2 ^ Suc k \<Longrightarrow> top_bit v = k"
proof -
  assume a: "2 ^ k \<le> v" "v < 2 ^ Suc k"
  have "0 < v" using a(1) by (metis less_le_trans zero_less_numeral zero_less_power)
  then have b: "2 ^ top_bit v \<le> v" "v < 2 ^ Suc (top_bit v)" using top_bit_bounds by auto
  have "(2::nat) ^ k < 2 ^ Suc (top_bit v)" "(2::nat) ^ top_bit v < 2 ^ Suc k" using a b by linarith+
  then have "k < Suc (top_bit v)" "top_bit v < Suc k" by (simp_all only: power_strict_increasing_iff one_less_numeral_iff semiring_norm)
  then show ?thesis by simp
qed

text \<open>
  Every value from 32 on is \<open>(32 + sub) * 2 ^ shift + low\<close> with \<open>sub < 32\<close> and \<open>low < 2 ^ shift\<close> in
  exactly one way; that is its bucket.
\<close>

lemma split_value:
  fixes v :: nat
  assumes "32 \<le> v" "v < 2 ^ 64"
  obtains shift sub low where "v = (32 + sub) * 2 ^ shift + low" "sub < 32" "low < 2 ^ shift" "shift < 59"
proof -
  let ?t = "top_bit v"
  have b: "2 ^ ?t \<le> v" "v < 2 ^ Suc ?t" using top_bit_bounds [of v] assms by auto
  have "\<not> ?t < 5"
  proof
    assume "?t < 5"
    then have "(2::nat) ^ Suc ?t \<le> 2 ^ 5" by (intro power_increasing) auto
    then show False using b assms by simp
  qed
  moreover have "\<not> 63 < ?t"
  proof
    assume "63 < ?t"
    then have "(2::nat) ^ 64 \<le> 2 ^ ?t" by (intro power_increasing) auto
    then show False using b assms by simp
  qed
  ultimately have t: "5 \<le> ?t" "?t \<le> 63" by auto
  let ?s = "?t - 5"
  have p: "(2::nat) ^ ?t = 32 * 2 ^ ?s" using t(1) power_add [of "2::nat" 5 ?s] by simp
  have d: "32 \<le> v div 2 ^ ?s" "v div 2 ^ ?s < 64"
    using b p by (simp_all add: less_eq_div_iff_mult_less_eq div_less_iff_less_mult)
  show ?thesis
  proof (rule that)
    show "v = (32 + (v div 2 ^ ?s - 32)) * 2 ^ ?s + v mod 2 ^ ?s"
      using d(1) div_mult_mod_eq [of v "2 ^ ?s"] by simp
  qed (use d t in auto)
qed

lemma wrap_id:
  "b \<le> a \<Longrightarrow> a < 2 ^ w \<Longrightarrow> wrap_sub w a b = a - b" "a + b < 2 ^ w \<Longrightarrow> wrap_add w a b = a + b"
  "a * b < 2 ^ w \<Longrightarrow> wrap_mul w a b = a * b"
proof -
  assume a: "b \<le> a" "a < 2 ^ w"
  have "a + 2 ^ w - b = (a - b) + 2 ^ w" using a(1) by simp
  moreover have "a - b < 2 ^ w" using a(2) by (rule le_less_trans [OF diff_le_self])
  ultimately show "wrap_sub w a b = a - b" by (simp only: wrap_sub_def mod_add_self2 mod_less)
qed (simp_all only: wrap_add_def wrap_mul_def mod_less)

lemma bucket_of_split:
  assumes "sub < 32" "low < 2 ^ shift" "shift < 59"
  shows "bucket_of ((32 + sub) * 2 ^ shift + low) = (shift + 1) * 32 + sub"
proof -
  let ?v = "(32 + sub) * 2 ^ shift + low"
  have "32 * 2 ^ shift \<le> ?v" by (simp add: add_mult_distrib)
  moreover have "(1::nat) \<le> 2 ^ shift" by simp
  ultimately have ge: "32 \<le> ?v" by linarith
  have "?v < (32 + sub + 1) * 2 ^ shift" using assms(2) by (simp add: add_mult_distrib)
  also have "\<dots> \<le> 64 * 2 ^ shift" using assms(1) by (intro mult_right_mono) auto
  finally have lt: "?v < 64 * 2 ^ shift" .
  have t: "top_bit ?v = shift + 5"
    using \<open>32 * 2 ^ shift \<le> ?v\<close> lt by (intro top_bit_unique) (simp_all add: power_add)
  have q: "?v div 2 ^ shift = 32 + sub" using assms(2) by simp
  have l: "leading_zeros ?v = 58 - shift" using ge t by (simp add: leading_zeros_def)
  have "wrap_sub 32 63 (leading_zeros ?v) = shift + 5" using assms(3) by (simp add: l wrap_id)
  moreover have "wrap_sub 32 (shift + 5) 5 = shift" "wrap_add 32 shift 1 = shift + 1" "wrap_mul 64 (shift + 1) 32 = (shift + 1) * 32"
    "wrap_sub 64 (32 + sub) 32 = sub" "wrap_add 64 ((shift + 1) * 32) sub = (shift + 1) * 32 + sub"
    using assms(1,3) by (simp_all add: wrap_id)
  ultimately show ?thesis
    using ge q by (simp add: bucket_of_def Let_def hist_consts del: One_nat_def add_Suc_right mult_Suc)
qed

lemma upper_bound_split:
  assumes "sub < 32" "shift < 59"
  shows "upper_bound ((shift + 1) * 32 + sub) = (32 + sub) * 2 ^ shift + (2 ^ shift - 1)"
proof -
  have "(1::nat) \<le> 2 ^ shift" by simp
  then have "(32 + sub) * 2 ^ shift + (2 ^ shift - 1) < (32 + sub + 1) * 2 ^ shift" unfolding add_mult_distrib by linarith
  also have "\<dots> \<le> 64 * 2 ^ shift" using assms(1) by (intro mult_right_mono) auto
  finally have "(32 + sub) * 2 ^ shift + (2 ^ shift - 1) < 64 * 2 ^ shift" .
  also have "(64::nat) * 2 ^ shift = 2 ^ (6 + shift)" by (simp add: power_add)
  also have "\<dots> \<le> 2 ^ 64" using assms(2) by (intro power_increasing) auto
  finally have fit: "(32 + sub) * 2 ^ shift + (2 ^ shift - 1) < 2 ^ 64" .
  have "(32 + sub) * 2 ^ shift < 2 ^ 64" using fit by linarith
  moreover have "(2::nat) ^ shift < 2 ^ 64" using assms(2) by (intro power_strict_increasing) auto
  moreover define g where "g = shift + 1"
  moreover have "(g * 32 + sub) div 32 = g" "(g * 32 + sub) mod 32 = sub" using assms(1) by simp_all
  moreover have "g - 1 = shift" "g * 32 + sub < 1920" "32 \<le> g * 32 + sub" using assms by (simp_all add: g_def)
  ultimately show ?thesis
    using assms fit unfolding g_def [symmetric]
    by (simp add: upper_bound_def Let_def hist_consts checked_shl64_def sat_u64_id range_defs)
qed


lemma bucket_small: "v < 32 \<Longrightarrow> bucket_of v = v" "i < 32 \<Longrightarrow> upper_bound i = i"
  by (simp_all add: bucket_of_def upper_bound_def hist_consts)

lemma bucket_of_less: "v < 2 ^ 64 \<Longrightarrow> bucket_of v < BUCKETS"
proof (cases "v < 32")
  case False
  assume "v < 2 ^ 64"
  then obtain shift sub low where "v = (32 + sub) * 2 ^ shift + low" "sub < 32" "low < 2 ^ shift" "shift < 59"
    using False split_value by (metis not_le)
  then show ?thesis by (simp add: bucket_of_split hist_consts)
qed (simp add: bucket_small hist_consts)

lemma bucket_upper:
  assumes "v < 2 ^ 64"
  shows "v \<le> upper_bound (bucket_of v)" "upper_bound (bucket_of v) \<le> v + v div 32"
proof -
  have "v \<le> upper_bound (bucket_of v) \<and> upper_bound (bucket_of v) \<le> v + v div 32"
  proof (cases "v < 32")
    case False
    then obtain shift sub low where v: "v = (32 + sub) * 2 ^ shift + low" "sub < 32" "low < 2 ^ shift" "shift < 59"
      using assms split_value by (metis not_le)
    then have u: "upper_bound (bucket_of v) = (32 + sub) * 2 ^ shift + (2 ^ shift - 1)"
      unfolding v(1) bucket_of_split [OF v(2-4)] by (intro upper_bound_split) simp_all
    have "2 ^ shift * 32 \<le> v" by (simp add: v(1) add_mult_distrib)
    then have "2 ^ shift \<le> v div 32" by (simp add: less_eq_div_iff_mult_less_eq)
    then show ?thesis using u v(1,3) by linarith
  qed (simp add: bucket_small)
  then show "v \<le> upper_bound (bucket_of v)" "upper_bound (bucket_of v) \<le> v + v div 32" by auto
qed

text \<open>Buckets are in the order of the values.\<close>

lemma bucket_of_mono:
  assumes "a \<le> b" "b < 2 ^ 64"
  shows "bucket_of a \<le> bucket_of b"
proof (cases "a < 32")
  case True
  show ?thesis
  proof (cases "b < 32")
    case False
    then obtain shift sub low where "b = (32 + sub) * 2 ^ shift + low" "sub < 32" "low < 2 ^ shift" "shift < 59"
      using assms split_value by (metis not_le)
    then show ?thesis using True by (simp add: bucket_of_split bucket_small)
  qed (use assms True in \<open>simp add: bucket_small\<close>)
next
  case False
  obtain s t l where a: "a = (32 + t) * 2 ^ s + l" "t < 32" "l < 2 ^ s" "s < 59" using False assms split_value [of a] by (metis le_less_trans not_le)
  obtain s' t' l' where b: "b = (32 + t') * 2 ^ s' + l'" "t' < 32" "l' < 2 ^ s'" "s' < 59" using False assms split_value [of b] by (metis le_trans not_le)
  have "s \<le> s'"
  proof (rule ccontr)
    assume "\<not> s \<le> s'"
    then have "(2::nat) ^ Suc s' \<le> 2 ^ s" by (intro power_increasing) auto
    moreover have "b < (32 + t' + 1) * 2 ^ s'" using b(3) by (simp add: b(1) add_mult_distrib)
    moreover have "(32 + t' + 1) * 2 ^ s' \<le> 64 * 2 ^ s'" using b(2) by (intro mult_right_mono) auto
    moreover have "32 * 2 ^ s \<le> a" by (simp add: a(1) add_mult_distrib)
    ultimately show False using assms(1) by simp
  qed
  moreover have "t \<le> t'" if "s = s'"
  proof (rule ccontr)
    assume "\<not> t \<le> t'"
    then have "(32 + t' + 1) * 2 ^ s \<le> (32 + t) * 2 ^ s" by (intro mult_right_mono) auto
    moreover have "b < (32 + t' + 1) * 2 ^ s" using b(3) that by (simp add: b(1) add_mult_distrib)
    ultimately show False using assms(1) a(1) by linarith
  qed
  moreover have "(s + 1) * 32 + t \<le> (s' + 1) * 32 + t'" if lt: "s < s'"
  proof -
    obtain d where "s' = Suc (s + d)" using less_imp_Suc_add [OF lt] by blast
    then show ?thesis using a(2) by simp
  qed
  ultimately show ?thesis using a b by (cases "s = s'") (simp_all add: bucket_of_split del: mult_Suc add_mult_distrib)
qed


section \<open>What the histogram of a list of values holds\<close>

definition hist_of :: "nat list \<Rightarrow> histogram" where
  "hist_of vs = fold hist_record vs hist_new"

definition in_bucket :: "nat \<Rightarrow> nat list \<Rightarrow> nat" where
  "in_bucket i vs = length (filter (\<lambda>v. bucket_of v = i) vs)"

definition hist_values :: "histogram \<Rightarrow> nat list \<Rightarrow> bool" where
  "hist_values h vs \<longleftrightarrow> hg_counts h = map (\<lambda>i. in_bucket i vs) [0..<BUCKETS] \<and> hg_count h = length vs
     \<and> hg_sum h = sat_u64 (sum_list vs) \<and> hg_max h = fold max vs 0 \<and> hg_min h = fold min vs u64_max"

lemma in_bucket_le: "in_bucket i vs \<le> length vs"
  by (simp add: in_bucket_def)

lemma sat_u64_add: "sat_u64 (sat_u64 a + b) = sat_u64 (a + b)"
  by (auto simp: sat_u64_def min_def)

lemma sat_u64_add_both: "sat_u64 (sat_u64 a + sat_u64 b) = sat_u64 (a + b)"
  by (auto simp: sat_u64_def min_def)

lemma hist_new_values: "hist_values hist_new []"
  by (simp add: hist_values_def hist_new_def in_bucket_def sat_u64_def map_replicate_const)

lemma fold_max_snoc: "fold max (vs @ [v]) a = max (fold max vs a) (v :: nat)" "fold min (vs @ [v]) a = min (fold min vs a) (v :: nat)"
  by (simp_all add: max.commute min.commute)

lemma hist_record_values:
  assumes "hist_values h vs" "v < 2 ^ 64" "length vs < 2 ^ 64 - 1"
  shows "hist_values (hist_record v h) (vs @ [v])"
proof -
  let ?cs = "map (\<lambda>i. in_bucket i vs) [0..<BUCKETS]"
  have b: "bucket_of v < BUCKETS" by (rule bucket_of_less [OF assms(2)])
  have sat: "sat_u64 (in_bucket (bucket_of v) vs + 1) = in_bucket (bucket_of v) vs + 1"
    using in_bucket_le [of "bucket_of v" vs] assms(3) by (simp add: sat_u64_id range_defs)
  have c: "?cs[bucket_of v := sat_u64 (in_bucket (bucket_of v) vs + 1)] = map (\<lambda>i. in_bucket i (vs @ [v])) [0..<BUCKETS]"
    unfolding sat using b by (auto intro!: nth_equalityI simp: nth_list_update in_bucket_def)
  show ?thesis
    using assms b c fold_max_snoc [of vs v]
    by (simp add: hist_values_def hist_record_def Let_def sat_u64_id sat_u64_add range_defs)
qed

lemma hist_of_values: "list_all (\<lambda>v. v < 2 ^ 64) vs \<Longrightarrow> length vs < 2 ^ 64 \<Longrightarrow> hist_values (hist_of vs) vs"
proof (induction vs rule: rev_induct)
  case (snoc v vs)
  then show ?case using hist_record_values [of "hist_of vs" vs v] by (simp add: hist_of_def)
qed (simp add: hist_of_def hist_new_values)

section \<open>Percentiles\<close>

definition below :: "nat \<Rightarrow> nat list \<Rightarrow> nat" where
  "below i vs = length (filter (\<lambda>v. bucket_of v < i) vs)"

lemma below_Suc: "below (Suc i) vs = below i vs + in_bucket i vs"
  by (induction vs) (auto simp: below_def in_bucket_def)

lemma scan_buckets_eq:
  assumes "i \<le> n" "n - i = k" "below i vs < rank" "rank \<le> below n vs" "length vs < 2 ^ 64"
  shows "\<exists>j. i \<le> j \<and> j < n \<and> below j vs < rank \<and> rank \<le> below (Suc j) vs
    \<and> scan_buckets rank mx (below i vs) i (map (\<lambda>i. in_bucket i vs) [i..<n]) = min (upper_bound j) mx"
  using assms
proof (induction k arbitrary: i)
  case (Suc k)
  have i: "i < n" using Suc.prems by simp
  have sat: "sat_u64 (below i vs + in_bucket i vs) = below (Suc i) vs"
  proof -
    have "below (Suc i) vs \<le> length vs" by (simp add: below_def)
    then show ?thesis unfolding below_Suc [symmetric] using Suc.prems(5) by (simp add: sat_u64_id range_defs)
  qed
  show ?case
  proof (cases "rank \<le> below (Suc i) vs")
    case True
    then show ?thesis using i Suc.prems(3) sat by (intro exI [of _ i]) (simp add: upt_conv_Cons)
  next
    case False
    have next_i: "Suc i \<le> n" "n - Suc i = k" "below (Suc i) vs < rank" using False i Suc.prems(2) by auto
    obtain j where j: "Suc i \<le> j" "j < n" "below j vs < rank" "rank \<le> below (Suc j) vs"
      "scan_buckets rank mx (below (Suc i) vs) (Suc i) (map (\<lambda>i. in_bucket i vs) [Suc i..<n]) = min (upper_bound j) mx"
      using Suc.IH [OF next_i Suc.prems(4,5)] by blast
    have "scan_buckets rank mx (below i vs) i (map (\<lambda>i. in_bucket i vs) [i..<n]) = min (upper_bound j) mx"
      using j(5) False by (simp add: upt_conv_Cons [OF i] sat del: upt_Suc)
    then show ?thesis using j(1-4) by (intro exI [of _ j]) simp
  qed
qed simp

text \<open>In a sorted list, an element is below a threshold exactly when enough elements are.\<close>

lemma sorted_filter_nth:
  assumes "sorted xs" "k < length xs" "\<And>a b. a \<in> set xs \<Longrightarrow> b \<in> set xs \<Longrightarrow> a \<le> b \<Longrightarrow> f a \<le> (f b :: nat)"
  shows "k < length (filter (\<lambda>x. f x < i) xs) \<longleftrightarrow> f (xs ! k) < i"
  using assms
proof (induction xs arbitrary: k)
  case (Cons x xs)
  have IH: "k < length (filter (\<lambda>x. f x < i) xs) \<longleftrightarrow> f (xs ! k) < i" if "k < length xs" for k
    using Cons.IH [of k] Cons.prems that by auto
  show ?case
  proof (cases "f x < i")
    case True
    then show ?thesis using IH Cons.prems(2) by (cases k) auto
  next
    case False
    then have "\<not> f y < i" if "y \<in> set xs" for y using Cons.prems(1,3) that by fastforce
    then have "filter (\<lambda>x. f x < i) (x # xs) = []" "\<not> f ((x # xs) ! k) < i"
      using False Cons.prems(2) by (auto simp: nth_Cons split: nat.split)
    then show ?thesis by simp
  qed
qed simp

lemma rank_for_bounds:
  assumes "0 < n" "n < 2 ^ 64" "ppm \<le> 1000000"
  shows "1 \<le> rank_for n ppm" "rank_for n ppm \<le> n" "n * ppm \<le> rank_for n ppm * 1000000"
proof -
  have "(n * ppm + 999999) div 1000000 \<le> n"
    using div_le_mono [of "n * ppm + 999999" "n * 1000000 + 999999" 1000000] mult_le_mono2 [OF assms(3), of n] by simp
  then have r: "rank_for n ppm = max ((n * ppm + 999999) div 1000000) 1" "(n * ppm + 999999) div 1000000 \<le> n"
    using assms(2) by (auto simp: rank_for_def Let_def range_defs)
  show "1 \<le> rank_for n ppm" "rank_for n ppm \<le> n" using r assms(1) by auto
  have "m \<le> (m + 999999) div 1000000 * 1000000" for m :: nat
    using div_mult_mod_eq [of "m + 999999" 1000000] mod_less_divisor [of 1000000 "m + 999999"] by linarith
  from this [of "n * ppm"] show "n * ppm \<le> rank_for n ppm * 1000000" using r(1) by (simp add: max_def)
qed

lemma value_at_rank:
  assumes vs: "list_all (\<lambda>v. v < 2 ^ 64) vs" "length vs < 2 ^ 64" "vs \<noteq> []" and rank: "1 \<le> rank" "rank \<le> length vs"
  shows "scan_buckets rank mx 0 0 (map (\<lambda>i. in_bucket i vs) [0..<BUCKETS]) = min (upper_bound (bucket_of (sort vs ! (rank - 1)))) mx"
proof -
  have all: "below BUCKETS vs = length vs"
    using vs(1) bucket_of_less by (simp add: below_def list_all_iff filter_id_conv)
  have zero: "below 0 vs = 0" by (simp add: below_def)
  obtain j where j: "below j vs < rank" "rank \<le> below (Suc j) vs"
    "scan_buckets rank mx 0 0 (map (\<lambda>i. in_bucket i vs) [0..<BUCKETS]) = min (upper_bound j) mx"
    using scan_buckets_eq [of 0 BUCKETS BUCKETS vs rank mx] rank all zero vs(2) by auto
  have bl: "below i vs = length (filter (\<lambda>x. bucket_of x < i) (sort vs))" for i
    by (simp add: below_def filter_sort)
  have "(rank - 1 < below i vs) = (bucket_of (sort vs ! (rank - 1)) < i)" for i
    unfolding bl using rank vs(1) by (intro sorted_filter_nth) (auto intro: bucket_of_mono simp: list_all_iff)
  from this [of j] this [of "Suc j"] have "bucket_of (sort vs ! (rank - 1)) = j" using j(1,2) rank(1) by linarith
  then show ?thesis using j(3) by simp
qed


section \<open>Merging\<close>

lemma hist_values_unique: "hist_values h vs \<Longrightarrow> hist_values h' vs \<Longrightarrow> h = (h' :: histogram)"
  by (cases h; cases h') (simp add: hist_values_def)

lemma fold_max_from: "fold max vs (a :: nat) = max a (fold max vs 0)"
proof (induction vs arbitrary: a)
  case (Cons v vs)
  show ?case using Cons.IH [of "max v a"] Cons.IH [of v] by (simp add: ac_simps)
qed simp

lemma fold_min_from: "a \<le> m \<Longrightarrow> fold min vs (a :: nat) = min a (fold min vs m)"
proof (induction vs arbitrary: a m)
  case (Cons v vs)
  have "min a (min v m) = min v a" using Cons.prems by (simp add: min_def)
  moreover have "fold min vs (min v a) = min (min v a) (fold min vs m)" "fold min vs (min v m) = min (min v m) (fold min vs m)"
    using Cons.prems by (intro Cons.IH; simp)+
  ultimately show ?case by (simp add: min.assoc [symmetric])
qed simp

lemma fold_min_le: "fold min vs (a :: nat) \<le> a"
  using fold_min_from [of a a vs] by simp

lemma hist_merge_values:
  assumes "hist_values h xs" "hist_values h' ys" "length xs + length ys < 2 ^ 64"
  shows "hist_values (hist_merge h h') (xs @ ys)"
proof -
  have "sat_u64 (in_bucket i xs + in_bucket i ys) = in_bucket i (xs @ ys)" for i
    using in_bucket_le [of i "xs @ ys"] assms(3) by (simp add: in_bucket_def sat_u64_id range_defs)
  then have "map2 (\<lambda>a b. sat_u64 (a + b)) (map (\<lambda>i. in_bucket i xs) [0..<BUCKETS]) (map (\<lambda>i. in_bucket i ys) [0..<BUCKETS])
      = map (\<lambda>i. in_bucket i (xs @ ys)) [0..<BUCKETS]"
    by (intro nth_equalityI) simp_all
  moreover have "sat_u64 (sat_u64 (sum_list xs) + sat_u64 (sum_list ys)) = sat_u64 (sum_list xs + sum_list ys)"
    by (rule sat_u64_add_both)
  moreover note fold_max_from [of ys "fold max xs 0"] fold_min_from [of "fold min xs u64_max" u64_max ys, OF fold_min_le]
  ultimately show ?thesis using assms by (simp add: hist_values_def hist_merge_def sat_u64_id range_defs)
qed

section \<open>Properties\<close>

text \<open>C24: A reported percentile never understates and overstates by at most one part in thirty-two: it lies
  between the exact value at the requested rank among the recorded values and that value plus a
  thirty-second of it, is at most the largest value, and at least the requested share of the
  values is at or below it.\<close>

theorem percentile_bounds:
  assumes "list_all (\<lambda>v. v < 2 ^ 64) vs" "length vs < 2 ^ 64" "vs \<noteq> []"
    and x: "x = sort vs ! (rank_for (length vs) (min ppm 1000000) - 1)" and y: "y = value_at_ppm ppm (hist_of vs)"
  shows "x \<le> y \<and> y \<le> x + x div 32 \<and> y \<le> fold max vs 0
    \<and> length vs * min ppm 1000000 \<le> length (filter (\<lambda>v. v \<le> y) vs) * 1000000"
proof -
  let ?r = "rank_for (length vs) (min ppm 1000000)"
  have n: "0 < length vs" using assms(3) by simp
  note R = rank_for_bounds [OF n assms(2), of "min ppm 1000000"]
  have r: "1 \<le> ?r" "?r \<le> length vs" "length vs * min ppm 1000000 \<le> ?r * 1000000" using R by auto
  have H: "hist_values (hist_of vs) vs" by (rule hist_of_values [OF assms(1,2)])
  have y': "y = min (upper_bound (bucket_of x)) (fold max vs 0)"
    using H value_at_rank [OF assms(1-3) r(1,2), of "fold max vs 0"] n
    by (simp add: y x value_at_ppm_def hist_values_def)
  have "x \<in> set (sort vs)" unfolding x using r by (intro nth_mem) simp
  then have xin: "x \<in> set vs" by simp
  have xb: "x < 2 ^ 64" using xin assms(1) by (auto simp: list_all_iff)
  note B = bucket_upper [OF xb] and M = fold_max_ge(2) [OF xin, of 0]
  have bounds: "x \<le> y" "y \<le> x + x div 32" "y \<le> fold max vs 0" using y' B M by auto
  have "?r - 1 < length (filter (\<lambda>v. v < Suc y) (sort vs))"
    using bounds(1) [unfolded x] r by (subst sorted_filter_nth [where f = "\<lambda>v. v"]) auto
  then have "?r \<le> length (filter (\<lambda>v. v \<le> y) vs)" by (simp add: less_Suc_eq_le filter_sort)
  then have "?r * 1000000 \<le> length (filter (\<lambda>v. v \<le> y) vs) * 1000000" by simp
  then show ?thesis using bounds le_trans [OF r(3)] by blast
qed

theorem percentile_bounds_witness:
  "sort [5, 1000, 40] ! (rank_for 3 500000 - 1) \<le> value_at_ppm 500000 (hist_of [5, 1000, 40])"
  using percentile_bounds [OF _ _ _ refl refl, where vs = "[5, 1000, 40]" and ppm = 500000]
  by (simp add: numeral_3_eq_3)

text \<open>Merging two histograms is the same as recording all the values in one, in every field, saturated
  sums included.\<close>

lemma merge_records_both:
  assumes "list_all (\<lambda>v. v < 2 ^ 64) (xs @ ys)" "length xs + length ys < 2 ^ 64"
  shows "hist_merge (hist_of xs) (hist_of ys) = hist_of (xs @ ys)"
proof -
  have "hist_values (hist_merge (hist_of xs) (hist_of ys)) (xs @ ys)"
    using assms by (intro hist_merge_values hist_of_values) auto
  moreover have "hist_values (hist_of (xs @ ys)) (xs @ ys)" using assms by (intro hist_of_values) auto
  ultimately show ?thesis by (rule hist_values_unique)
qed

end
