(* ===== verification/Backoff.thy ===== *)
theory Backoff
  imports Core_Types
begin

text \<open>
  \<open>crates/bowst-venue/src/backoff.rs\<close>: exponential reconnect backoff with jitter.  A \<open>Duration\<close> is a
  number of nanoseconds up to \<open>DURATION_MAX\<close> (u64 seconds and a fraction).
\<close>

definition DURATION_MAX :: nat where
  "DURATION_MAX = (2 ^ 64 - 1) * 10 ^ 9 + 999999999"

definition duration_checked_mul :: "nat \<Rightarrow> nat \<Rightarrow> nat option" where
  "duration_checked_mul d k = (if d * k \<le> DURATION_MAX then Some (d * k) else None)"

definition duration_saturating_add :: "nat \<Rightarrow> nat \<Rightarrow> nat" where
  "duration_saturating_add a b = min (a + b) DURATION_MAX"

definition U32_MAX :: nat where "U32_MAX = 2 ^ 32 - 1"

record backoff =
  bo_initial :: nat
  bo_max :: nat
  bo_attempt :: nat

definition backoff_new :: "nat \<Rightarrow> nat \<Rightarrow> backoff" where
  "backoff_new ini mx = \<lparr>bo_initial = ini, bo_max = max mx ini, bo_attempt = 0\<rparr>"

definition backoff_step :: "backoff \<Rightarrow> nat" where
  "backoff_step b =
     (let factor = (if bo_attempt b < 32 then 2 ^ bo_attempt b else U32_MAX) in
      min (unwrap_or (duration_checked_mul (bo_initial b) factor) (bo_max b)) (bo_max b))"

definition next_delay :: "nat \<Rightarrow> backoff \<Rightarrow> nat \<times> backoff" where
  "next_delay random b =
     (let half = backoff_step b div 2;
          spread = sat_u64 half;
          jitter = spread * random div U32_MAX
      in (duration_saturating_add half (sat_u64 jitter), b\<lparr>bo_attempt := min (bo_attempt b + 1) U32_MAX\<rparr>))"

definition backoff_reset :: "backoff \<Rightarrow> backoff" where
  "backoff_reset b = b\<lparr>bo_attempt := 0\<rparr>"

definition backoff_attempts :: "backoff \<Rightarrow> nat" where
  "backoff_attempts b = bo_attempt b"

definition backoff_wf :: "backoff \<Rightarrow> bool" where
  "backoff_wf b \<longleftrightarrow> bo_initial b \<le> bo_max b \<and> bo_max b \<le> DURATION_MAX"

fun delays :: "nat list \<Rightarrow> backoff \<Rightarrow> nat list" where
  "delays [] b = []"
| "delays (r # rs) b = (let (d, b1) = next_delay r b in d # delays rs b1)"

lemma backoff_new_wf: "ini \<le> DURATION_MAX \<Longrightarrow> mx \<le> DURATION_MAX \<Longrightarrow> backoff_wf (backoff_new ini mx)"
  by (simp add: backoff_wf_def backoff_new_def)

lemma next_delay_wf: "backoff_wf b \<Longrightarrow> backoff_wf (snd (next_delay r b))"
  by (simp add: backoff_wf_def next_delay_def Let_def)

text \<open>The step is the initial delay doubled per attempt, up to the maximum.\<close>

lemma backoff_step_eq:
  assumes "backoff_wf b" "bo_attempt b < 32"
  shows "backoff_step b = min (bo_initial b * 2 ^ bo_attempt b) (bo_max b)"
  using assms by (auto simp: backoff_step_def Let_def duration_checked_mul_def unwrap_or_def backoff_wf_def)

lemma next_delay_range:
  assumes "backoff_wf b" "r \<le> U32_MAX"
  shows "backoff_step b div 2 \<le> fst (next_delay r b)" "fst (next_delay r b) \<le> backoff_step b"
proof -
  let ?h = "backoff_step b div 2" and ?j = "sat_u64 (backoff_step b div 2) * r div U32_MAX"
  have "?j \<le> sat_u64 ?h * U32_MAX div U32_MAX" using assms(2) by (intro div_le_mono mult_le_mono2)
  also have "\<dots> = sat_u64 ?h" by (simp add: U32_MAX_def)
  finally have j: "?j \<le> ?h" "sat_u64 ?j = ?j" using sat_u64_id [of ?j] by (auto simp: sat_u64_def min_def split: if_splits)
  have s: "backoff_step b \<le> DURATION_MAX" using assms(1) by (auto simp: backoff_step_def Let_def backoff_wf_def)
  have "?h + ?j \<le> backoff_step b" using j(1) by linarith
  then show "?h \<le> fst (next_delay r b)" "fst (next_delay r b) \<le> backoff_step b"
    using s j(2) by (simp_all add: next_delay_def Let_def duration_saturating_add_def)
qed

lemma delays_nth:
  assumes "backoff_wf b" "list_all (\<lambda>r. r \<le> U32_MAX) rs" "k < length rs" "bo_attempt b + k < 32"
  shows "min (bo_initial b * 2 ^ (bo_attempt b + k)) (bo_max b) div 2 \<le> delays rs b ! k
    \<and> delays rs b ! k \<le> min (bo_initial b * 2 ^ (bo_attempt b + k)) (bo_max b)"
  using assms
proof (induction rs arbitrary: b k)
  case (Cons r rs)
  obtain d b1 where n: "next_delay r b = (d, b1)" by (cases "next_delay r b")
  have b1: "backoff_wf b1" "bo_attempt b + 1 < 32 \<Longrightarrow> bo_attempt b1 = bo_attempt b + 1" "bo_initial b1 = bo_initial b" "bo_max b1 = bo_max b"
    using next_delay_wf [OF Cons.prems(1), of r] n by (auto simp: next_delay_def Let_def U32_MAX_def)
  show ?case
  proof (cases k)
    case 0
    then show ?thesis using next_delay_range [OF Cons.prems(1), of r] n Cons.prems(2,4) backoff_step_eq [OF Cons.prems(1)] by simp
  next
    case (Suc j)
    then show ?thesis using Cons.IH [OF b1(1), of j] Cons.prems(2-4) b1(2-4) n by simp
  qed
qed simp

lemma delays_max:
  "backoff_wf b \<Longrightarrow> list_all (\<lambda>r. r \<le> U32_MAX) rs \<Longrightarrow> list_all (\<lambda>d. d \<le> bo_max b) (delays rs b)"
proof (induction rs arbitrary: b)
  case (Cons r rs)
  have "bo_max (snd (next_delay r b)) = bo_max b" by (simp add: next_delay_def Let_def)
  moreover have "fst (next_delay r b) \<le> bo_max b"
    using next_delay_range(2) [OF Cons.prems(1), of r] Cons.prems(2) by (simp add: backoff_step_def Let_def)
  ultimately show ?case using Cons next_delay_wf [OF Cons.prems(1), of r] by (simp add: case_prod_beta Let_def) metis
qed simp

section \<open>Properties\<close>

text \<open>From a reset, the delay before attempt k lies between half and all of the initial delay doubled k
  times, capped at the maximum; and no delay, however many attempts are made, exceeds the maximum.\<close>

lemma backoff_delays:
  assumes "ini \<le> mx" "mx \<le> DURATION_MAX" "list_all (\<lambda>r. r \<le> U32_MAX) rs"
  shows "list_all (\<lambda>d. d \<le> mx) (delays rs (backoff_new ini mx))
    \<and> (k < length rs \<and> k < 32 \<longrightarrow>
        min (ini * 2 ^ k) mx div 2 \<le> delays rs (backoff_new ini mx) ! k
        \<and> delays rs (backoff_new ini mx) ! k \<le> min (ini * 2 ^ k) mx)"
proof -
  have wf: "backoff_wf (backoff_new ini mx)" using assms by (intro backoff_new_wf) auto
  have f: "bo_initial (backoff_new ini mx) = ini" "bo_max (backoff_new ini mx) = mx" "bo_attempt (backoff_new ini mx) = 0"
    using assms(1) by (simp_all add: backoff_new_def)
  show ?thesis using delays_max [OF wf assms(3)] delays_nth [OF wf assms(3), of k] by (simp add: f)
qed

end
