(* ===== verification/Ratelimit.thy ===== *)
theory Ratelimit
  imports Backoff
begin

text \<open>
  \<open>crates/bowst-venue/src/ratelimit.rs\<close>: the token bucket for venue request budgets.  Tokens are
  scaled by the window in nanoseconds; times are nanoseconds, the arithmetic is saturating u128.
\<close>

definition sat_u128 :: "nat \<Rightarrow> nat" where
  "sat_u128 n = min n (2 ^ 128 - 1)"

record token_bucket =
  tb_capacity :: nat
  tb_window :: nat
  tb_scaled :: nat
  tb_last :: nanos

definition bucket_new :: "nat \<Rightarrow> nat \<Rightarrow> nanos \<Rightarrow> token_bucket" where
  "bucket_new capacity window now =
     (let window = max window 1 in
      \<lparr>tb_capacity = capacity, tb_window = window, tb_scaled = sat_u128 (capacity * window), tb_last = now\<rparr>)"

definition refill :: "nanos \<Rightarrow> token_bucket \<Rightarrow> token_bucket" where
  "refill now b =
     (let elapsed = saturating_since now (tb_last b);
          full = sat_u128 (tb_capacity b * tb_window b)
      in b\<lparr>tb_last := max (tb_last b) now,
           tb_scaled := min (sat_u128 (tb_scaled b + sat_u128 (elapsed * tb_capacity b))) full\<rparr>)"

definition available :: "nanos \<Rightarrow> token_bucket \<Rightarrow> nat \<times> token_bucket" where
  "available now b =
     (let b1 = refill now b;
          whole = (if tb_window b1 = 0 then 0 else tb_scaled b1 div tb_window b1)
      in (sat_u64 whole, b1))"

definition try_take :: "nat \<Rightarrow> nanos \<Rightarrow> token_bucket \<Rightarrow> (unit, nat) result \<times> token_bucket" where
  "try_take cost now b =
     (if cost > tb_capacity b then (Err DURATION_MAX, b)
      else
        let b1 = refill now b;
            needed = sat_u128 (cost * tb_window b1)
        in
        if tb_scaled b1 \<ge> needed then (Ok (), b1\<lparr>tb_scaled := tb_scaled b1 - needed\<rparr>)
        else
          let missing = needed - tb_scaled b1; rate = max (tb_capacity b1) 1 in
          (Err (sat_u64 ((missing + (rate - 1)) div rate)), b1))"

definition observe_used :: "nat \<Rightarrow> nanos \<Rightarrow> token_bucket \<Rightarrow> token_bucket" where
  "observe_used used now b =
     (let b1 = refill now b;
          remaining = sat_u128 ((tb_capacity b1 - used) * tb_window b1)
      in b1\<lparr>tb_scaled := min (tb_scaled b1) remaining\<rparr>)"

section \<open>The balance\<close>

text \<open>The budget fits the u128 it is kept in, and the balance never exceeds a full bucket.\<close>

definition bucket_wf :: "token_bucket \<Rightarrow> bool" where
  "bucket_wf b \<longleftrightarrow> tb_capacity b < 2 ^ 64 \<and> 0 < tb_window b \<and> tb_capacity b * tb_window b < 2 ^ 128
     \<and> tb_scaled b \<le> tb_capacity b * tb_window b \<and> tb_last b < 2 ^ 64"

lemma bucket_new_wf:
  "capacity < 2 ^ 64 \<Longrightarrow> window < 2 ^ 64 \<Longrightarrow> now < 2 ^ 64 \<Longrightarrow> bucket_wf (bucket_new capacity window now)"
proof -
  assume a: "capacity < 2 ^ 64" "window < 2 ^ 64" "now < 2 ^ 64"
  have "capacity * max window 1 \<le> (2 ^ 64 - 1) * (2 ^ 64 - 1)" using a by (intro mult_le_mono) auto
  then show ?thesis using a by (simp add: bucket_wf_def bucket_new_def Let_def sat_u128_def)
qed

lemma refill_eq:
  assumes "bucket_wf b" "now < 2 ^ 64"
  shows "refill now b = b\<lparr>tb_last := max (tb_last b) now,
    tb_scaled := min (tb_scaled b + (now - tb_last b) * tb_capacity b) (tb_capacity b * tb_window b)\<rparr>"
proof -
  have "(now - tb_last b) * tb_capacity b \<le> (2 ^ 64 - 1) * (2 ^ 64 - 1)"
    using assms by (intro mult_le_mono) (auto simp: bucket_wf_def)
  then have e: "sat_u128 ((now - tb_last b) * tb_capacity b) = (now - tb_last b) * tb_capacity b" by (simp add: sat_u128_def)
  show ?thesis
    using assms(1) by (auto simp: refill_def Let_def saturating_since_def e sat_u128_def bucket_wf_def min_def)
qed

lemma refill_wf: "bucket_wf b \<Longrightarrow> now < 2 ^ 64 \<Longrightarrow> bucket_wf (refill now b)"
  by (simp add: refill_eq) (simp add: bucket_wf_def)

datatype bucket_op = Take nat nanos | Observe nat nanos | Available nanos

fun op_time :: "bucket_op \<Rightarrow> nanos" where
  "op_time (Take c t) = t"
| "op_time (Observe u t) = t"
| "op_time (Available t) = t"

text \<open>One call: the tokens it grants, and the bucket after it.\<close>

fun bucket_call :: "bucket_op \<Rightarrow> token_bucket \<Rightarrow> nat \<times> token_bucket" where
  "bucket_call (Take c t) b = (case try_take c t b of (Ok _, b1) \<Rightarrow> (c, b1) | (Err _, b1) \<Rightarrow> (0, b1))"
| "bucket_call (Observe u t) b = (0, observe_used u t b)"
| "bucket_call (Available t) b = (0, snd (available t b))"

fun bucket_run :: "bucket_op list \<Rightarrow> token_bucket \<Rightarrow> nat \<times> token_bucket" where
  "bucket_run [] b = (0, b)"
| "bucket_run (x # xs) b = (let (g, b1) = bucket_call x b; (gs, b2) = bucket_run xs b1 in (g + gs, b2))"

lemma cost_fits: "bucket_wf b \<Longrightarrow> cost \<le> tb_capacity b \<Longrightarrow> sat_u128 (cost * tb_window b) = cost * tb_window b"
proof -
  assume a: "bucket_wf b" "cost \<le> tb_capacity b"
  have "cost * tb_window b < 2 ^ 128" using mult_le_mono1 [OF a(2), of "tb_window b"] a(1) unfolding bucket_wf_def by linarith
  then have "cost * tb_window b \<le> 2 ^ 128 - 1" by linarith
  then show ?thesis unfolding sat_u128_def by (rule min_absorb1)
qed

lemma try_take_cases:
  assumes "bucket_wf b" "t < 2 ^ 64"
  shows "(if c > tb_capacity b then try_take c t b = (Err DURATION_MAX, b)
    else if c * tb_window b \<le> tb_scaled (refill t b) then
      try_take c t b = (Ok (), (refill t b)\<lparr>tb_scaled := tb_scaled (refill t b) - c * tb_window b\<rparr>)
    else try_take c t b = (Err (sat_u64 ((c * tb_window b - tb_scaled (refill t b) + (max (tb_capacity b) 1 - 1)) div max (tb_capacity b) 1)), refill t b))"
proof -
  have R: "tb_capacity (refill t b) = tb_capacity b" "tb_window (refill t b) = tb_window b"
    by (simp_all add: refill_def Let_def)
  show ?thesis using cost_fits [OF assms(1), of c] by (simp add: try_take_def Let_def R)
qed

text \<open>The balance pays for what is granted, and grows by the elapsed time only.\<close>

lemma bucket_call_balance:
  assumes "bucket_wf b" "op_time x < 2 ^ 64" "bucket_call x b = (g, b')"
  shows "bucket_wf b'" "tb_capacity b' = tb_capacity b" "tb_window b' = tb_window b" "tb_last b \<le> tb_last b'"
    "tb_last b' \<le> max (tb_last b) (op_time x)"
    "g * tb_window b + tb_scaled b' \<le> tb_scaled b + (tb_last b' - tb_last b) * tb_capacity b"
proof -
  let ?r = "refill (op_time x) b"
  note W = refill_wf [OF assms(1,2)] and E = refill_eq [OF assms(1,2)]
  have R: "tb_capacity ?r = tb_capacity b" "tb_window ?r = tb_window b" "tb_last ?r = max (tb_last b) (op_time x)"
    "tb_scaled ?r \<le> tb_scaled b + (op_time x - tb_last b) * tb_capacity b" by (simp_all add: E)
  have cases: "(b' = b \<and> g = 0) \<or> (b' = ?r \<and> g = 0) \<or> (\<exists>v. b' = ?r\<lparr>tb_scaled := v\<rparr> \<and> g * tb_window b + v \<le> tb_scaled ?r)"
  proof (cases x)
    case (Take c t)
    then have r: "?r = refill t b" and t: "t < 2 ^ 64" and call: "bucket_call (Take c t) b = (g, b')" using assms(2,3) by simp_all
    note T = try_take_cases [OF assms(1) t, of c]
    consider "c > tb_capacity b" | "\<not> c > tb_capacity b" "c * tb_window b \<le> tb_scaled (refill t b)"
      | "\<not> c > tb_capacity b" "\<not> c * tb_window b \<le> tb_scaled (refill t b)" by blast
    then show ?thesis
    proof cases
      case 1
      then show ?thesis using T call by simp
    next
      case 2
      then have "g = c" "b' = (refill t b)\<lparr>tb_scaled := tb_scaled (refill t b) - c * tb_window b\<rparr>" using T call by (auto split: if_splits)
      then show ?thesis using 2(2) unfolding r by (intro disjI2 exI [of _ "tb_scaled (refill t b) - c * tb_window b"]) simp
    next
      case 3
      then show ?thesis using T call unfolding r by simp
    qed
  next
    case (Observe u t)
    then have "g = 0" "b' = ?r\<lparr>tb_scaled := min (tb_scaled ?r) (sat_u128 ((tb_capacity ?r - u) * tb_window ?r))\<rparr>"
      using assms(3) by (simp_all add: observe_used_def Let_def)
    then show ?thesis
      by (intro disjI2 exI [of _ "min (tb_scaled ?r) (sat_u128 ((tb_capacity ?r - u) * tb_window ?r))"]) simp
  next
    case (Available t)
    then have "g = 0" "b' = ?r" using assms(3) by (simp_all add: available_def Let_def)
    then show ?thesis by blast
  qed
  moreover have "op_time x - tb_last b = max (tb_last b) (op_time x) - tb_last b" by simp
  ultimately show "bucket_wf b'" "tb_capacity b' = tb_capacity b" "tb_window b' = tb_window b" "tb_last b \<le> tb_last b'"
    "tb_last b' \<le> max (tb_last b) (op_time x)"
    "g * tb_window b + tb_scaled b' \<le> tb_scaled b + (tb_last b' - tb_last b) * tb_capacity b"
    using assms(1) W R by (auto simp: bucket_wf_def)
qed

lemma bucket_run_balance:
  assumes "bucket_wf b" "list_all (\<lambda>x. op_time x < 2 ^ 64) xs" "bucket_run xs b = (g, b')"
  shows "bucket_wf b' \<and> tb_last b \<le> tb_last b' \<and> tb_last b' \<le> fold max (map op_time xs) (tb_last b)
    \<and> g * tb_window b + tb_scaled b' \<le> tb_scaled b + (tb_last b' - tb_last b) * tb_capacity b"
  using assms
proof (induction xs arbitrary: b g)
  case (Cons x xs)
  obtain g1 b1 where one: "bucket_call x b = (g1, b1)" by (cases "bucket_call x b")
  obtain g2 where rest: "bucket_run xs b1 = (g2, b')" "g = g1 + g2" using Cons.prems(3) one by (auto split: prod.splits)
  have t: "op_time x < 2 ^ 64" using Cons.prems(2) by simp
  note B = bucket_call_balance [OF Cons.prems(1) t one]
  have I: "bucket_wf b'" "tb_last b1 \<le> tb_last b'" "tb_last b' \<le> fold max (map op_time xs) (tb_last b1)"
    "g2 * tb_window b + tb_scaled b' \<le> tb_scaled b1 + (tb_last b' - tb_last b1) * tb_capacity b"
    using Cons.IH [OF B(1) _ rest(1)] Cons.prems(2) B(2,3) by auto
  have "(tb_last b' - tb_last b1) * tb_capacity b + (tb_last b1 - tb_last b) * tb_capacity b = (tb_last b' - tb_last b) * tb_capacity b"
    using I(2) B(4) by (simp add: add_mult_distrib [symmetric])
  moreover have "fold max (map op_time xs) (tb_last b1) \<le> fold max (map op_time xs) (max (op_time x) (tb_last b))"
    using B(5) by (intro fold_max_mono) (simp add: max.commute)
  ultimately show ?case using I B(4,6) rest(2) by (simp add: add_mult_distrib)
qed simp


section \<open>Waiting\<close>

lemma ceil_div: "0 < r \<Longrightarrow> m \<le> k * r \<longleftrightarrow> (m + (r - 1)) div r \<le> (k :: nat)"
proof -
  assume r: "0 < r"
  have "(m + (r - 1)) div r \<le> k \<longleftrightarrow> (m + (r - 1)) div r < k + 1" by linarith
  also have "\<dots> \<longleftrightarrow> m + (r - 1) < (k + 1) * r" using r by (simp add: div_less_iff_less_mult)
  also have "\<dots> \<longleftrightarrow> m \<le> k * r" using r by (simp add: add_mult_distrib) linarith
  finally show ?thesis by simp
qed

text \<open>A take succeeds exactly when the balance at that time covers the cost.\<close>

lemma try_take_ok:
  assumes "bucket_wf b" "now < 2 ^ 64" "cost \<le> tb_capacity b"
  shows "fst (try_take cost now b) = Ok () \<longleftrightarrow> cost * tb_window b \<le> tb_scaled (refill now b)"
  using assms(3) try_take_cases [OF assms(1,2), of cost] by (auto split: if_splits)

lemma try_take_err:
  assumes "bucket_wf b" "now < 2 ^ 64" "cost \<le> tb_capacity b" "tb_window b < 2 ^ 64" "try_take cost now b = (Err w, b')"
  shows "b' = refill now b" "0 < tb_capacity b"
    "w = (cost * tb_window b - tb_scaled b' + (tb_capacity b - 1)) div tb_capacity b" "tb_scaled b' < cost * tb_window b"
proof -
  let ?r = "refill now b"
  have T: "b' = ?r" "tb_scaled ?r < cost * tb_window b"
    "w = sat_u64 ((cost * tb_window b - tb_scaled ?r + (max (tb_capacity b) 1 - 1)) div max (tb_capacity b) 1)"
    using assms(3,5) try_take_cases [OF assms(1,2), of cost] by (auto split: if_splits)
  show "b' = ?r" "tb_scaled b' < cost * tb_window b" using T by auto
  have c: "0 < cost" using T(2) by (cases cost) auto
  then show "0 < tb_capacity b" using assms(3) by simp
  then have m: "max (tb_capacity b) 1 = tb_capacity b" by simp
  have "cost * tb_window b - tb_scaled ?r \<le> tb_window b * tb_capacity b"
    using le_trans [OF diff_le_self mult_le_mono1 [OF assms(3), of "tb_window b"]] by (simp only: mult.commute)
  then have "(cost * tb_window b - tb_scaled ?r + (tb_capacity b - 1)) div tb_capacity b \<le> tb_window b"
    using ceil_div [of "tb_capacity b"] \<open>0 < tb_capacity b\<close> by blast
  then show "w = (cost * tb_window b - tb_scaled b' + (tb_capacity b - 1)) div tb_capacity b"
    using T(1,3) assms(4) m by (simp add: sat_u64_id range_defs)
qed

section \<open>Properties\<close>

text \<open>C25: The budget is never exceeded: over any sequence of calls at any times, starting from a full bucket,
  the tokens granted are at most the capacity plus the capacity per window for the time that passed.\<close>

theorem rate_never_exceeded:
  assumes "capacity < 2 ^ 64" "0 < window" "window < 2 ^ 64" "start < 2 ^ 64" "list_all (\<lambda>x. op_time x < 2 ^ 64) xs"
    "bucket_run xs (bucket_new capacity window start) = (granted, b')"
  shows "granted * window \<le> capacity * window + (fold max (map op_time xs) start - start) * capacity"
proof -
  let ?b = "bucket_new capacity window start"
  have b: "tb_window ?b = window" "tb_capacity ?b = capacity" "tb_last ?b = start" "tb_scaled ?b \<le> capacity * window"
    using assms(2) by (auto simp: bucket_new_def Let_def sat_u128_def)
  have B: "tb_last b' \<le> fold max (map op_time xs) start" "granted * window + tb_scaled b' \<le> tb_scaled ?b + (tb_last b' - start) * capacity"
    using bucket_run_balance [OF bucket_new_wf [OF assms(1,3,4)] assms(5,6)] b by auto
  have "(tb_last b' - start) * capacity \<le> (fold max (map op_time xs) start - start) * capacity"
    using B(1) by (intro mult_le_mono1) simp
  then show ?thesis using B(2) b(4) by linarith
qed

theorem rate_never_exceeded_witness:
  "fst (bucket_run [Take 70 5, Take 40 6, Observe 90 8] (bucket_new 100 10 5)) * 10 \<le> 100 * 10 + (8 - 5) * 100"
  using rate_never_exceeded [of 100 10 5 "[Take 70 5, Take 40 6, Observe 90 8]"]
  by (cases "bucket_run [Take 70 5, Take 40 6, Observe 90 8] (bucket_new 100 10 5)") simp

text \<open>The wait returned with a refusal is exact: retried after that wait the same request succeeds, and
  retried any earlier it is refused again.\<close>

lemma wait_is_exact:
  assumes "bucket_wf b" "tb_window b < 2 ^ 64" "cost \<le> tb_capacity b" "tb_last b \<le> now"
    "try_take cost now b = (Err w, b')" "now + w < 2 ^ 64"
  shows "fst (try_take cost (now + w) b') = Ok () \<and> (v < w \<longrightarrow> fst (try_take cost (now + v) b') \<noteq> Ok ())"
proof -
  have n: "now < 2 ^ 64" using assms(6) by simp
  note T = try_take_err [OF assms(1) n assms(3,2,5)]
  have wf: "bucket_wf b'" using refill_wf [OF assms(1) n] T(1) by simp
  have b': "tb_capacity b' = tb_capacity b" "tb_window b' = tb_window b" "tb_last b' = now"
    using assms(4) by (simp_all add: T(1) refill_eq [OF assms(1) n])
  have full: "cost * tb_window b \<le> tb_capacity b * tb_window b" using assms(3) by simp
  have ok: "fst (try_take cost (now + k) b') = Ok () \<longleftrightarrow> w \<le> k" if "k \<le> w" for k
  proof -
    have t: "now + k < 2 ^ 64" using that assms(6) by simp
    have "fst (try_take cost (now + k) b') = Ok () \<longleftrightarrow> cost * tb_window b - tb_scaled b' \<le> k * tb_capacity b"
      using try_take_ok [OF wf t, of cost] assms(3) b' full by (simp add: refill_eq [OF wf t]) linarith
    also have "\<dots> \<longleftrightarrow> w \<le> k" using ceil_div [OF T(2)] T(3) by simp
    finally show ?thesis .
  qed
  show ?thesis using ok [of w] ok [of v] by auto
qed

end
