(* ===== verification/Json.thy ===== *)
theory Json
  imports Num_Text
begin

text \<open>
  \<open>crates/bowst-venue/src/json.rs\<close>: the strict pull reader.  Every operation takes the reader and
  returns its result with the reader after it, the position an error leaves behind included.
  Positions are offsets into a slice, far below the limit where \<open>saturating_add\<close> would saturate.
\<close>

section \<open>The reader\<close>

definition MAX_DEPTH :: nat where "MAX_DEPTH = 32"

datatype json_error =
    UnexpectedEnd
  | Unexpected nat string
  | TooDeep nat
  | EscapedString nat
  | InvalidInteger nat

record json_reader =
  rd_buf :: "byte list"
  rd_pos :: nat
  rd_depth :: nat
  rd_after_value :: bool

type_synonym 'a json_op = "json_reader \<Rightarrow> ('a, json_error) result \<times> json_reader"

definition reader_new :: "byte list \<Rightarrow> json_reader" where
  "reader_new buf = \<lparr>rd_buf = buf, rd_pos = 0, rd_depth = 0, rd_after_value = False\<rparr>"

definition position_of :: "json_reader \<Rightarrow> nat" where
  "position_of r = rd_pos r"

definition peek :: "json_reader \<Rightarrow> byte option" where
  "peek r = nth_opt (rd_buf r) (rd_pos r)"

definition advance_pos :: "json_reader \<Rightarrow> json_reader" where
  "advance_pos r = r\<lparr>rd_pos := rd_pos r + 1\<rparr>"

definition is_space :: "byte \<Rightarrow> bool" where
  "is_space b \<longleftrightarrow> b = 32 \<or> b = 9 \<or> b = 10 \<or> b = 13"

text \<open>A loop that advances while the byte ahead satisfies a test.\<close>

fun scan_while :: "(byte \<Rightarrow> bool) \<Rightarrow> byte list \<Rightarrow> nat \<Rightarrow> nat" where
  "scan_while t [] p = p"
| "scan_while t (b # bs) p = (if t b then scan_while t bs (p + 1) else p)"

definition skip_whitespace :: "json_reader \<Rightarrow> json_reader" where
  "skip_whitespace r = r\<lparr>rd_pos := scan_while is_space (drop (rd_pos r) (rd_buf r)) (rd_pos r)\<rparr>"

definition unexpected :: "string \<Rightarrow> json_reader \<Rightarrow> json_error" where
  "unexpected expected r = (if rd_pos r \<ge> length (rd_buf r) then UnexpectedEnd else Unexpected (rd_pos r) expected)"

definition expect_byte :: "byte \<Rightarrow> string \<Rightarrow> unit json_op" where
  "expect_byte b expected r =
     (let r1 = skip_whitespace r in
      if peek r1 = Some b then (Ok (), advance_pos r1) else (Err (unexpected expected r1), r1))"

definition enter :: "byte \<Rightarrow> string \<Rightarrow> unit json_op" where
  "enter opn expected r =
     (case expect_byte opn expected r of
        (Err e, r1) \<Rightarrow> (Err e, r1)
      | (Ok _, r1) \<Rightarrow>
          if rd_depth r1 \<ge> MAX_DEPTH then (Err (TooDeep (rd_pos r1)), r1)
          else (Ok (), r1\<lparr>rd_depth := sat_u8 (rd_depth r1 + 1), rd_after_value := False\<rparr>))"

definition leave :: "json_reader \<Rightarrow> json_reader" where
  "leave r = (advance_pos r)\<lparr>rd_depth := rd_depth r - 1, rd_after_value := True\<rparr>"

definition next_member :: "byte \<Rightarrow> string \<Rightarrow> bool json_op" where
  "next_member cls expected r =
     (let r1 = skip_whitespace r in
      if peek r1 = Some cls then (Ok False, leave r1)
      else if rd_after_value r1 then
        (case expect_byte 44 expected r1 of (Err e, r2) \<Rightarrow> (Err e, r2) | (Ok _, r2) \<Rightarrow> (Ok True, r2))
      else (Ok True, r1))"

text \<open>What an error says was expected, with its quotes.\<close>

definition in_quotes :: "string \<Rightarrow> string" where
  "in_quotes t = CHR 0x27 # t @ [CHR 0x27]"

definition comma_or :: "string \<Rightarrow> string" where
  "comma_or t = in_quotes '','' @ '' or '' @ in_quotes t"

definition begin_object :: "unit json_op" where
  "begin_object = enter 123 (in_quotes ''{'')"

definition begin_array :: "unit json_op" where
  "begin_array = enter 91 (in_quotes ''['')"

definition next_element :: "bool json_op" where
  "next_element = next_member 93 (comma_or '']'')"

definition string_end :: "nat json_op" where
  "string_end r =
     (case position (\<lambda>b. b = 34 \<or> b = 92 \<or> b < 32) (drop (rd_pos r) (rd_buf r)) of
        None \<Rightarrow> (Err UnexpectedEnd, r)
      | Some found \<Rightarrow>
          let fin = rd_pos r + found in
          (case nth_opt (rd_buf r) fin of
             Some b \<Rightarrow>
               if b < 32 then (let r1 = r\<lparr>rd_pos := fin\<rparr> in (Err (unexpected ''string character'' r1), r1)) else (Ok fin, r)
           | None \<Rightarrow> (Ok fin, r)))"

text \<open>
  \<open>core::str::from_utf8\<close>: the well-formed byte sequences of the Unicode standard (no overlong
  forms, no surrogates, nothing above U+10FFFF).
\<close>

definition continuation :: "byte \<Rightarrow> bool" where
  "continuation b \<longleftrightarrow> 128 \<le> b \<and> b \<le> 191"

fun utf8_valid :: "byte list \<Rightarrow> bool" where
  "utf8_valid [] = True"
| "utf8_valid (a # s) =
     (if a < 128 then utf8_valid s
      else if 194 \<le> a \<and> a \<le> 223 then
        (case s of b # s' \<Rightarrow> continuation b \<and> utf8_valid s' | _ \<Rightarrow> False)
      else if 224 \<le> a \<and> a \<le> 239 then
        (case s of b # c # s' \<Rightarrow>
           (if a = 224 then 160 \<le> b \<and> b \<le> 191 else if a = 237 then 128 \<le> b \<and> b \<le> 159 else continuation b)
           \<and> continuation c \<and> utf8_valid s' | _ \<Rightarrow> False)
      else if 240 \<le> a \<and> a \<le> 244 then
        (case s of b # c # d # s' \<Rightarrow>
           (if a = 240 then 144 \<le> b \<and> b \<le> 191 else if a = 244 then 128 \<le> b \<and> b \<le> 143 else continuation b)
           \<and> continuation c \<and> continuation d \<and> utf8_valid s' | _ \<Rightarrow> False)
      else False)"

definition str_bytes :: "byte list json_op" where
  "str_bytes r =
     (case expect_byte 34 ''string'' r of
        (Err e, r1) \<Rightarrow> (Err e, r1)
      | (Ok _, r1) \<Rightarrow>
          (case string_end r1 of
             (Err e, r2) \<Rightarrow> (Err e, r2)
           | (Ok fin, r2) \<Rightarrow>
               if nth_opt (rd_buf r2) fin = Some 92 then (Err (EscapedString fin), r2)
               else if \<not> fin \<le> length (rd_buf r2) then (Err UnexpectedEnd, r2)
               else (Ok (take (fin - rd_pos r1) (drop (rd_pos r1) (rd_buf r2))), r2\<lparr>rd_pos := fin + 1, rd_after_value := True\<rparr>)))"

definition read_str :: "byte list json_op" where
  "read_str r =
     (case expect_byte 34 ''string'' r of
        (Err e, r1) \<Rightarrow> (Err e, r1)
      | (Ok _, r1) \<Rightarrow>
          (case string_end r1 of
             (Err e, r2) \<Rightarrow> (Err e, r2)
           | (Ok fin, r2) \<Rightarrow>
               if nth_opt (rd_buf r2) fin = Some 92 then (Err (EscapedString fin), r2)
               else if \<not> fin \<le> length (rd_buf r2) then (Err UnexpectedEnd, r2)
               else
                 let bytes = take (fin - rd_pos r1) (drop (rd_pos r1) (rd_buf r2)) in
                 if \<not> utf8_valid bytes then (Err (Unexpected (rd_pos r1) ''UTF-8''), r2)
                 else (Ok bytes, r2\<lparr>rd_pos := fin + 1, rd_after_value := True\<rparr>)))"

definition next_key :: "byte list option json_op" where
  "next_key r =
     (case next_member 125 (comma_or ''}'') r of
        (Err e, r1) \<Rightarrow> (Err e, r1)
      | (Ok False, r1) \<Rightarrow> (Ok None, r1)
      | (Ok True, r1) \<Rightarrow>
          (case read_str r1 of
             (Err e, r2) \<Rightarrow> (Err e, r2)
           | (Ok key, r2) \<Rightarrow>
               (case expect_byte 58 (in_quotes '':'') (r2\<lparr>rd_after_value := False\<rparr>) of
                  (Err e, r3) \<Rightarrow> (Err e, r3)
                | (Ok _, r3) \<Rightarrow> (Ok (Some key), r3))))"

fun u64_loop :: "byte list \<Rightarrow> nat \<Rightarrow> nat \<Rightarrow> nat option \<times> nat" where
  "u64_loop [] p v = (Some v, p)"
| "u64_loop (b # bs) p v =
     (if is_digit b then
        (case Option.bind (checked_u64 (v * 10)) (\<lambda>v. checked_u64 (v + digit_of b)) of
           None \<Rightarrow> (None, p)
         | Some v' \<Rightarrow> u64_loop bs (p + 1) v')
      else (Some v, p))"

definition read_u64 :: "nat json_op" where
  "read_u64 r =
     (let r1 = skip_whitespace r;
          start = rd_pos r1;
          (res, p) = u64_loop (drop start (rd_buf r1)) start 0;
          r2 = r1\<lparr>rd_pos := p\<rparr>
      in case res of
           None \<Rightarrow> (Err (InvalidInteger start), r2)
         | Some v \<Rightarrow>
             let digits = p - start;
                 leading_zero = (digits > 1 \<and> nth_opt (rd_buf r2) start = Some 48);
                 continues = (case peek r2 of Some b \<Rightarrow> b \<in> {46, 101, 69, 45, 43} | None \<Rightarrow> False)
             in if digits = 0 \<or> leading_zero \<or> continues then (Err (InvalidInteger start), r2)
                else (Ok v, r2\<lparr>rd_after_value := True\<rparr>))"

definition literal :: "byte list \<Rightarrow> json_reader \<Rightarrow> bool \<times> json_reader" where
  "literal word r =
     (let fin = rd_pos r + length word in
      if fin \<le> length (rd_buf r) \<and> take (length word) (drop (rd_pos r) (rd_buf r)) = word
      then (True, r\<lparr>rd_pos := fin, rd_after_value := True\<rparr>) else (False, r))"

definition read_bool :: "bool json_op" where
  "read_bool r =
     (let r1 = skip_whitespace r in
      case literal (ascii ''true'') r1 of
        (True, r2) \<Rightarrow> (Ok True, r2)
      | (False, r2) \<Rightarrow>
          (case literal (ascii ''false'') r2 of
             (True, r3) \<Rightarrow> (Ok False, r3)
           | (False, r3) \<Rightarrow> (Err (unexpected ''boolean'' r3), r3)))"

lemma string_end_pos: "string_end r = (Ok fin, r1) \<Longrightarrow> r1 = r \<and> rd_pos r \<le> fin"
  by (auto simp: string_end_def Let_def split: option.splits if_splits)

function skip_string_loop :: "unit json_op" where
  "skip_string_loop r =
     (case string_end r of
        (Err e, r1) \<Rightarrow> (Err e, r1)
      | (Ok fin, r1) \<Rightarrow>
          if nth_opt (rd_buf r1) fin = Some 34 then (Ok (), r1\<lparr>rd_pos := fin + 1, rd_after_value := True\<rparr>)
          else if fin + 1 \<ge> length (rd_buf r1) then (Err UnexpectedEnd, r1)
          else skip_string_loop (r1\<lparr>rd_pos := fin + 2\<rparr>))"
  by auto
termination
  by (relation "measure (\<lambda>r. length (rd_buf r) - rd_pos r)") (auto dest!: string_end_pos [OF sym])

declare skip_string_loop.simps [simp del]

definition skip_string :: "unit json_op" where
  "skip_string r = skip_string_loop (advance_pos r)"

definition is_number_byte :: "byte \<Rightarrow> bool" where
  "is_number_byte b \<longleftrightarrow> b = 45 \<or> b = 43 \<or> b = 46 \<or> b = 101 \<or> b = 69 \<or> is_digit b"

definition skip_number :: "unit json_op" where
  "skip_number r =
     (let start = rd_pos r; r1 = r\<lparr>rd_pos := scan_while is_number_byte (drop start (rd_buf r)) start\<rparr> in
      if rd_pos r1 = start then (Err (unexpected ''number'' r1), r1) else (Ok (), r1\<lparr>rd_after_value := True\<rparr>))"

text \<open>
  \<open>skip\<close> and its two member loops call each other; they are one function with a mode.  The
  nesting is bounded by the depth check, but each loop is bounded only by the input, so the
  function is partial by construction and shown to return on every input below.
\<close>

datatype skip_mode = ValueMode | MembersMode | ElementsMode

definition skip_word :: "unit json_op" where
  "skip_word r =
     (case literal (ascii ''true'') r of (True, r1) \<Rightarrow> (Ok (), r1)
      | (False, r1) \<Rightarrow>
          (case literal (ascii ''false'') r1 of (True, r2) \<Rightarrow> (Ok (), r2)
           | (False, r2) \<Rightarrow>
               (case literal (ascii ''null'') r2 of (True, r3) \<Rightarrow> (Ok (), r3)
                | (False, r3) \<Rightarrow> (Err (unexpected ''value'' r3), r3))))"

definition skip_scalar :: "byte \<Rightarrow> unit json_op" where
  "skip_scalar b r =
     (if b = 34 then skip_string r
      else if b = 116 \<or> b = 102 \<or> b = 110 then skip_word r
      else if b = 45 \<or> is_digit b then skip_number r
      else (Err (unexpected ''value'' r), r))"

partial_function (option) skip_loop :: "skip_mode \<Rightarrow> json_reader \<Rightarrow> ((unit, json_error) result \<times> json_reader) option" where
  "skip_loop m r =
     (case m of
        ValueMode \<Rightarrow>
          (let r1 = skip_whitespace r in
           case peek r1 of
             None \<Rightarrow> Some (Err UnexpectedEnd, r1)
           | Some b \<Rightarrow>
               if b = 123 then
                 (case begin_object r1 of (Err e, r2) \<Rightarrow> Some (Err e, r2) | (Ok _, r2) \<Rightarrow> skip_loop MembersMode r2)
               else if b = 91 then
                 (case begin_array r1 of (Err e, r2) \<Rightarrow> Some (Err e, r2) | (Ok _, r2) \<Rightarrow> skip_loop ElementsMode r2)
               else Some (skip_scalar b r1))
      | MembersMode \<Rightarrow>
          (case next_key r of
             (Err e, r1) \<Rightarrow> Some (Err e, r1)
           | (Ok None, r1) \<Rightarrow> Some (Ok (), r1)
           | (Ok (Some _), r1) \<Rightarrow>
               Option.bind (skip_loop ValueMode r1) (\<lambda>(res, r2).
                 case res of Err e \<Rightarrow> Some (Err e, r2) | Ok _ \<Rightarrow> skip_loop MembersMode r2))
      | ElementsMode \<Rightarrow>
          (case next_element r of
             (Err e, r1) \<Rightarrow> Some (Err e, r1)
           | (Ok found, r1) \<Rightarrow>
               if \<not> found then Some (Ok (), r1)
               else
                 Option.bind (skip_loop ValueMode r1) (\<lambda>(res, r2).
                   case res of Err e \<Rightarrow> Some (Err e, r2) | Ok _ \<Rightarrow> skip_loop ElementsMode r2)))"

definition skip :: "unit json_op" where
  "skip r = the (skip_loop ValueMode r)"

definition finish :: "unit json_op" where
  "finish r =
     (let r1 = skip_whitespace r in
      if rd_depth r1 \<noteq> 0 then (Err UnexpectedEnd, r1)
      else if rd_pos r1 < length (rd_buf r1) then (Err (unexpected ''end of input'' r1), r1)
      else (Ok (), r1))"


section \<open>The reader only moves forward\<close>

text \<open>\<open>moved k r r'\<close>: at least \<open>k\<close> bytes on, and still within the same buffer.\<close>

definition reader_wf :: "json_reader \<Rightarrow> bool" where
  "reader_wf r \<longleftrightarrow> rd_pos r \<le> length (rd_buf r)"

definition moved :: "nat \<Rightarrow> json_reader \<Rightarrow> json_reader \<Rightarrow> bool" where
  "moved k r r' \<longleftrightarrow> rd_buf r' = rd_buf r \<and> rd_pos r + k \<le> rd_pos r' \<and> rd_pos r' \<le> length (rd_buf r)"

lemma moved_refl: "reader_wf r \<Longrightarrow> moved 0 r r"
  by (simp add: moved_def reader_wf_def)

lemma moved_wf: "moved k r r' \<Longrightarrow> reader_wf r'"
  by (simp add: moved_def reader_wf_def)

lemma moved_trans: "moved k a b \<Longrightarrow> moved l b c \<Longrightarrow> moved (k + l) a c"
  by (simp add: moved_def)

lemma moved_weaken: "moved k a b \<Longrightarrow> l \<le> k \<Longrightarrow> moved l a b"
  by (simp add: moved_def)

lemma moved_fields [simp]:
  "moved k (r\<lparr>rd_depth := d\<rparr>) r' = moved k r r'" "moved k r (r'\<lparr>rd_depth := d\<rparr>) = moved k r r'"
  "moved k (r\<lparr>rd_after_value := a\<rparr>) r' = moved k r r'" "moved k r (r'\<lparr>rd_after_value := a\<rparr>) = moved k r r'"
  by (simp_all add: moved_def)

lemma scan_while_eq: "scan_while t bs p = p + length (takeWhile t bs)"
  by (induction bs arbitrary: p) auto

lemma scan_moved:
  "reader_wf r \<Longrightarrow> moved 0 r (r\<lparr>rd_pos := scan_while t (drop (rd_pos r) (rd_buf r)) (rd_pos r)\<rparr>)"
  using length_takeWhile_le [of t "drop (rd_pos r) (rd_buf r)"] by (simp add: moved_def scan_while_eq reader_wf_def)

lemma skip_whitespace_moved: "reader_wf r \<Longrightarrow> moved 0 r (skip_whitespace r)"
  unfolding skip_whitespace_def by (rule scan_moved)

lemma skip_whitespace_sel [simp]:
  "rd_buf (skip_whitespace r) = rd_buf r" "rd_depth (skip_whitespace r) = rd_depth r" "rd_after_value (skip_whitespace r) = rd_after_value r"
  by (simp_all add: skip_whitespace_def)

lemma advance_moved: "peek r = Some b \<Longrightarrow> moved 1 r (advance_pos r)"
  by (auto simp: peek_def nth_opt_def moved_def advance_pos_def split: if_splits)

lemma advance_sel [simp]:
  "rd_buf (advance_pos r) = rd_buf r" "rd_depth (advance_pos r) = rd_depth r" "rd_after_value (advance_pos r) = rd_after_value r"
  by (simp_all add: advance_pos_def)

lemma expect_byte_moved:
  assumes "reader_wf r" "expect_byte b e r = (res, r')"
  shows "moved (if is_ok res then 1 else 0) r r'" "rd_depth r' = rd_depth r" "rd_after_value r' = rd_after_value r"
proof -
  have "peek (skip_whitespace r) = Some b \<Longrightarrow> moved (0 + 1) r (advance_pos (skip_whitespace r))"
    by (rule moved_trans [OF skip_whitespace_moved [OF assms(1)] advance_moved])
  then show "moved (if is_ok res then 1 else 0) r r'" "rd_depth r' = rd_depth r" "rd_after_value r' = rd_after_value r"
    using assms skip_whitespace_moved by (auto simp: expect_byte_def Let_def split: if_splits)
qed

lemma enter_moved:
  assumes "reader_wf r" "enter b e r = (res, r')"
  shows "moved (if is_ok res then 1 else 0) r r'" "is_ok res \<Longrightarrow> rd_depth r' = rd_depth r + 1 \<and> rd_depth r < MAX_DEPTH \<and> \<not> rd_after_value r'"
proof -
  obtain res1 r1 where x: "expect_byte b e r = (res1, r1)" by (cases "expect_byte b e r")
  note E = expect_byte_moved [OF assms(1) x]
  have "sat_u8 (n + 1) = n + 1" if "n < MAX_DEPTH" for n using that by (simp add: sat_u8_def MAX_DEPTH_def)
  then show "moved (if is_ok res then 1 else 0) r r'" "is_ok res \<Longrightarrow> rd_depth r' = rd_depth r + 1 \<and> rd_depth r < MAX_DEPTH \<and> \<not> rd_after_value r'"
    using assms(2) x E by (auto simp: enter_def split: result.splits if_splits intro: moved_weaken)
qed

lemma leave_moved: "peek r = Some b \<Longrightarrow> moved 1 r (leave r)"
  using advance_moved by (simp add: leave_def)

lemma next_member_moved:
  assumes "reader_wf r" "next_member c e r = (res, r')"
  shows "moved 0 r r'" "res = Ok False \<Longrightarrow> moved 1 r r' \<and> rd_depth r' = rd_depth r - 1 \<and> rd_after_value r'"
    "res = Ok True \<Longrightarrow> rd_depth r' = rd_depth r"
proof -
  let ?w = "skip_whitespace r"
  have w: "moved 0 r ?w" by (rule skip_whitespace_moved [OF assms(1)])
  obtain res1 r1 where x: "expect_byte 44 e ?w = (res1, r1)" by (cases "expect_byte 44 e ?w")
  note E = expect_byte_moved [OF moved_wf [OF w] x]
  have l: "peek ?w = Some c \<Longrightarrow> moved 1 r (leave ?w)" using moved_trans [OF w leave_moved] by simp
  have m: "moved 0 r r1" using moved_trans [OF w E(1)] by (auto intro: moved_weaken split: if_splits)
  show "moved 0 r r'" "res = Ok False \<Longrightarrow> moved 1 r r' \<and> rd_depth r' = rd_depth r - 1 \<and> rd_after_value r'"
    "res = Ok True \<Longrightarrow> rd_depth r' = rd_depth r"
    using assms(2) x w l m E(2) by (auto simp: next_member_def Let_def leave_def split: if_splits result.splits intro: moved_weaken)
qed

lemma string_end_range:
  assumes "string_end r = (res, r')"
  shows "rd_buf r' = rd_buf r" "rd_depth r' = rd_depth r" "rd_after_value r' = rd_after_value r" "reader_wf r \<Longrightarrow> moved 0 r r'"
    "res = Ok fin \<Longrightarrow> r' = r \<and> rd_pos r \<le> fin \<and> fin < length (rd_buf r)"
  using assms position_Some [of "\<lambda>b. b = 34 \<or> b = 92 \<or> b < 32" "drop (rd_pos r) (rd_buf r)"]
  by (auto simp: string_end_def Let_def moved_def reader_wf_def nth_opt_def split: option.splits if_splits)

lemma str_tail:
  assumes "reader_wf r" "expect_byte 34 e r = (Ok (), r1)" "string_end r1 = (Ok fin, r2)"
  shows "r2 = r1" "moved 2 r (r2\<lparr>rd_pos := fin + 1\<rparr>)" "rd_depth r2 = rd_depth r"
  using expect_byte_moved [OF assms(1,2)] string_end_range(5) [OF assms(3) refl] by (auto simp: moved_def)

lemma str_fail:
  assumes "reader_wf r" "expect_byte 34 e r = (Ok (), r1)" "string_end r1 = (res, r2)"
  shows "moved 0 r r2"
proof -
  have m: "moved 1 r r1" using expect_byte_moved(1) [OF assms(1,2)] by simp
  from moved_trans [OF m string_end_range(4) [OF assms(3) moved_wf [OF m]]] show ?thesis by (rule moved_weaken) simp
qed

lemma read_str_moved:
  assumes "reader_wf r" "read_str r = (res, r')"
  shows "moved (if is_ok res then 2 else 0) r r'" "is_ok res \<Longrightarrow> rd_depth r' = rd_depth r \<and> rd_after_value r'"
proof -
  obtain res1 r1 where x: "expect_byte 34 ''string'' r = (res1, r1)" by (cases "expect_byte 34 ''string'' r")
  obtain res2 r2 where y: "string_end r1 = (res2, r2)" by (cases "string_end r1")
  note E = expect_byte_moved [OF assms(1) x]
  have "moved (if is_ok res then 2 else 0) r r' \<and> (is_ok res \<longrightarrow> rd_depth r' = rd_depth r \<and> rd_after_value r')"
  proof (cases res1)
    case (Ok u)
    then have x': "expect_byte 34 ''string'' r = (Ok (), r1)" using x by simp
    show ?thesis
      using assms(2) x' y str_fail [OF assms(1) x' y] str_tail [OF assms(1) x', of _ r2]
      by (cases res2) (auto simp: read_str_def Let_def split: if_splits)
  next
    case (Err err)
    then show ?thesis using assms(2) x E by (auto simp: read_str_def)
  qed
  then show "moved (if is_ok res then 2 else 0) r r'" "is_ok res \<Longrightarrow> rd_depth r' = rd_depth r \<and> rd_after_value r'" by auto
qed

lemma next_key_moved:
  assumes "reader_wf r" "next_key r = (res, r')"
  shows "moved 0 r r'" "res = Ok None \<Longrightarrow> moved 1 r r' \<and> rd_depth r' = rd_depth r - 1 \<and> rd_after_value r'"
    "res = Ok (Some k) \<Longrightarrow> moved 3 r r' \<and> rd_depth r' = rd_depth r \<and> \<not> rd_after_value r'"
proof -
  obtain res1 r1 where x: "next_member 125 (comma_or ''}'') r = (res1, r1)" by (cases "next_member 125 (comma_or ''}'') r")
  obtain res2 r2 where y: "read_str r1 = (res2, r2)" by (cases "read_str r1")
  let ?r2 = "r2\<lparr>rd_after_value := False\<rparr>"
  obtain res3 r3 where z: "expect_byte 58 (in_quotes '':'') ?r2 = (res3, r3)" by (cases "expect_byte 58 (in_quotes '':'') ?r2")
  note X = next_member_moved [OF assms(1) x]
  note Y = read_str_moved [OF moved_wf [OF X(1)] y]
  have "reader_wf ?r2" using moved_wf [OF Y(1)] by (simp add: reader_wf_def)
  note Z = expect_byte_moved [OF this z]
  have m2: "moved (if is_ok res2 then 2 else 0) r r2" using moved_trans [OF X(1) Y(1)] by simp
  have m3: "moved ((if is_ok res2 then 2 else 0) + (if is_ok res3 then 1 else 0)) r r3" using moved_trans [OF m2, of _ r3] Z(1) by simp
  have out: "(res, r') = (case res1 of Err e \<Rightarrow> (Err e, r1) | Ok b \<Rightarrow> if \<not> b then (Ok None, r1) else
      (case res2 of Err e \<Rightarrow> (Err e, r2) | Ok key \<Rightarrow> (case res3 of Err e \<Rightarrow> (Err e, r3) | Ok _ \<Rightarrow> (Ok (Some key), r3))))"
    using assms(2) by (auto simp: next_key_def x y z split: result.splits bool.splits)
  show "moved 0 r r'" using out X(1) moved_weaken [OF m2] moved_weaken [OF m3] by (auto split: result.splits if_splits)
  show "res = Ok None \<Longrightarrow> moved 1 r r' \<and> rd_depth r' = rd_depth r - 1 \<and> rd_after_value r'"
    using out X(2) by (auto split: result.splits if_splits)
  show "res = Ok (Some k) \<Longrightarrow> moved 3 r r' \<and> rd_depth r' = rd_depth r \<and> \<not> rd_after_value r'"
    using out m3 X(3) Y(2) Z(2,3) by (auto simp: numeral_3_eq_3 split: result.splits if_splits)
qed

lemma literal_moved:
  assumes "reader_wf r" "literal w r = (ok, r')" "w \<noteq> []"
  shows "if ok then moved 1 r r' \<and> rd_depth r' = rd_depth r \<and> rd_after_value r' else r' = r"
  using assms by (cases w) (auto simp: literal_def Let_def moved_def split: if_splits)

lemma skip_word_moved:
  assumes "reader_wf r" "skip_word r = (res, r')"
  shows "if is_ok res then moved 1 r r' \<and> rd_depth r' = rd_depth r \<and> rd_after_value r' else r' = r"
proof -
  have ne: "ascii ''true'' \<noteq> []" "ascii ''false'' \<noteq> []" "ascii ''null'' \<noteq> []" by (simp_all add: ascii_def)
  obtain a r1 where x: "literal (ascii ''true'') r = (a, r1)" by (cases "literal (ascii ''true'') r")
  obtain b r2 where y: "literal (ascii ''false'') r = (b, r2)" by (cases "literal (ascii ''false'') r")
  obtain c r3 where z: "literal (ascii ''null'') r = (c, r3)" by (cases "literal (ascii ''null'') r")
  note L = literal_moved [OF assms(1) x ne(1)] literal_moved [OF assms(1) y ne(2)] literal_moved [OF assms(1) z ne(3)]
  show ?thesis using L assms(2) x y z by (cases a; cases b; cases c) (auto simp: skip_word_def)
qed

lemma skip_string_loop_moved:
  "reader_wf r \<Longrightarrow> skip_string_loop r = (res, r') \<Longrightarrow>
     moved (if is_ok res then 1 else 0) r r' \<and> (is_ok res \<longrightarrow> rd_depth r' = rd_depth r \<and> rd_after_value r')"
proof (induction r rule: skip_string_loop.induct)
  case (1 r)
  obtain res1 r1 where x: "string_end r = (res1, r1)" by (cases "string_end r")
  note S = string_end_range [OF x]
  show ?case
  proof (cases res1)
    case (Err e)
    then show ?thesis using 1(2,3) x S by (subst (asm) skip_string_loop.simps) auto
  next
    case (Ok fin)
    have F: "r1 = r" "rd_pos r \<le> fin" "fin < length (rd_buf r)" using S(5) [OF Ok] by auto
    consider "nth_opt (rd_buf r) fin = Some 34" | "nth_opt (rd_buf r) fin \<noteq> Some 34" "fin + 1 \<ge> length (rd_buf r)"
      | "nth_opt (rd_buf r) fin \<noteq> Some 34" "\<not> fin + 1 \<ge> length (rd_buf r)" by blast
    then show ?thesis
    proof cases
      case 1
      then show ?thesis using "1.prems" x Ok F by (subst (asm) skip_string_loop.simps) (auto simp: moved_def)
    next
      case 2
      then show ?thesis using "1.prems" x Ok F by (subst (asm) skip_string_loop.simps) (auto intro: moved_refl)
    next
      case 3
      let ?r = "r\<lparr>rd_pos := fin + 2\<rparr>"
      have "reader_wf ?r" using 3 by (simp add: reader_wf_def)
      moreover have "skip_string_loop ?r = (res, r')" using "1.prems" x Ok F 3 by (subst (asm) skip_string_loop.simps) auto
      ultimately have "moved (if is_ok res then 1 else 0) ?r r' \<and> (is_ok res \<longrightarrow> rd_depth r' = rd_depth ?r \<and> rd_after_value r')"
        using "1.IH" [OF x [symmetric] Ok] F(1) 3 by simp
      then show ?thesis using F(2) by (auto simp: moved_def)
    qed
  qed
qed

lemma skip_scalar_moved:
  assumes "reader_wf r" "peek r = Some b" "skip_scalar b r = (res, r')"
  shows "moved (if is_ok res then 1 else 0) r r'" "is_ok res \<Longrightarrow> rd_depth r' = rd_depth r \<and> rd_after_value r'"
proof -
  have adv: "moved 1 r (advance_pos r)" by (rule advance_moved [OF assms(2)])
  have num: "moved (if is_ok res then 1 else 0) r r' \<and> (is_ok res \<longrightarrow> rd_depth r' = rd_depth r \<and> rd_after_value r')"
    if "skip_number r = (res, r')"
    using that scan_moved [OF assms(1), of is_number_byte] by (auto simp: skip_number_def Let_def moved_def split: if_splits)
  have str: "moved (if is_ok res then 1 else 0) r r' \<and> (is_ok res \<longrightarrow> rd_depth r' = rd_depth r \<and> rd_after_value r')"
    if "skip_string r = (res, r')"
    using skip_string_loop_moved [OF moved_wf [OF adv], of res r'] that moved_trans [OF adv, of _ r']
    by (auto simp: skip_string_def intro: moved_weaken split: if_splits)
  have word: "moved (if is_ok res then 1 else 0) r r' \<and> (is_ok res \<longrightarrow> rd_depth r' = rd_depth r \<and> rd_after_value r')"
    if "skip_word r = (res, r')"
    using skip_word_moved [OF assms(1) that] moved_refl [OF assms(1)] by (auto split: if_splits)
  have "moved (if is_ok res then 1 else 0) r r' \<and> (is_ok res \<longrightarrow> rd_depth r' = rd_depth r \<and> rd_after_value r')"
    using assms(3) num str word moved_refl [OF assms(1)] by (auto simp: skip_scalar_def split: if_splits)
  then show "moved (if is_ok res then 1 else 0) r r'" "is_ok res \<Longrightarrow> rd_depth r' = rd_depth r \<and> rd_after_value r'" by auto
qed


section \<open>Skipping always returns\<close>

definition skip_post :: "skip_mode \<Rightarrow> json_reader \<Rightarrow> (unit, json_error) result \<Rightarrow> json_reader \<Rightarrow> bool" where
  "skip_post m r res r' \<longleftrightarrow> moved (if is_ok res then 1 else 0) r r'
     \<and> (is_ok res \<longrightarrow> rd_after_value r' \<and> rd_depth r' = (if m = ValueMode then rd_depth r else rd_depth r - 1))"

lemma skip_members:
  assumes wf: "reader_wf r" and val: "\<And>r1. moved 1 r r1 \<Longrightarrow> \<exists>res r2. skip_loop ValueMode r1 = Some (res, r2) \<and> skip_post ValueMode r1 res r2"
    and rest: "\<And>r1. moved 1 r r1 \<Longrightarrow> \<exists>res r2. skip_loop MembersMode r1 = Some (res, r2) \<and> skip_post MembersMode r1 res r2"
  shows "\<exists>res r'. skip_loop MembersMode r = Some (res, r') \<and> skip_post MembersMode r res r'"
proof -
  obtain key r1 where k: "next_key r = (key, r1)" by (cases "next_key r")
  note K = next_key_moved [OF wf k]
  consider e where "key = Err e" | "key = Ok None" | name where "key = Ok (Some name)" by (metis option.exhaust result.exhaust)
  then show ?thesis
  proof cases
    case 1
    then show ?thesis using k K(1) by (subst skip_loop.simps) (simp add: skip_post_def)
  next
    case 2
    then show ?thesis using k K(2) by (subst skip_loop.simps) (simp add: skip_post_def)
  next
    case (3 name)
    have m: "moved 3 r r1" "rd_depth r1 = rd_depth r" using K(3) [OF 3] by auto
    obtain res2 r2 where v: "skip_loop ValueMode r1 = Some (res2, r2)" "skip_post ValueMode r1 res2 r2"
      using val [OF moved_weaken [OF m(1), of 1]] by auto
    show ?thesis
    proof (cases res2)
      case (Err e)
      then have "skip_loop MembersMode r = Some (Err e, r2)" using k 3 v(1) by (subst skip_loop.simps) simp
      moreover have "moved 0 r r2" using moved_trans [OF m(1), of 0 r2] v(2) Err by (auto simp: skip_post_def intro: moved_weaken)
      ultimately show ?thesis by (simp add: skip_post_def)
    next
      case (Ok u)
      have m2: "moved 4 r r2" "rd_depth r2 = rd_depth r" using moved_trans [OF m(1), of 1 r2] v(2) Ok m(2) by (auto simp: skip_post_def)
      obtain res3 r3 where w: "skip_loop MembersMode r2 = Some (res3, r3)" "skip_post MembersMode r2 res3 r3"
        using rest [OF moved_weaken [OF m2(1), of 1]] by auto
      have "skip_loop MembersMode r = Some (res3, r3)" using k 3 v(1) Ok w(1) by (subst skip_loop.simps) simp
      moreover have "skip_post MembersMode r res3 r3"
        using w(2) m2 by (auto simp: skip_post_def moved_def split: if_splits)
      ultimately show ?thesis by blast
    qed
  qed
qed

lemma skip_elements:
  assumes wf: "reader_wf r" and val: "\<And>r1. moved 0 r r1 \<Longrightarrow> \<exists>res r2. skip_loop ValueMode r1 = Some (res, r2) \<and> skip_post ValueMode r1 res r2"
    and rest: "\<And>r1. moved 1 r r1 \<Longrightarrow> \<exists>res r2. skip_loop ElementsMode r1 = Some (res, r2) \<and> skip_post ElementsMode r1 res r2"
  shows "\<exists>res r'. skip_loop ElementsMode r = Some (res, r') \<and> skip_post ElementsMode r res r'"
proof -
  obtain el r1 where k: "next_element r = (el, r1)" by (cases "next_element r")
  note K = next_member_moved [OF wf k [unfolded next_element_def]]
  consider e where "el = Err e" | "el = Ok False" | "el = Ok True" by (metis (full_types) result.exhaust)
  then show ?thesis
  proof cases
    case 1
    then show ?thesis using k K(1) by (subst skip_loop.simps) (simp add: skip_post_def)
  next
    case 2
    then show ?thesis using k K(2) by (subst skip_loop.simps) (simp add: skip_post_def)
  next
    case 3
    have m: "moved 0 r r1" "rd_depth r1 = rd_depth r" using K(1,3) 3 by auto
    obtain res2 r2 where v: "skip_loop ValueMode r1 = Some (res2, r2)" "skip_post ValueMode r1 res2 r2" using val [OF m(1)] by blast
    show ?thesis
    proof (cases res2)
      case (Err e)
      then have "skip_loop ElementsMode r = Some (Err e, r2)" using k 3 v(1) by (subst skip_loop.simps) simp
      moreover have "moved 0 r r2" using moved_trans [OF m(1), of 0 r2] v(2) Err by (auto simp: skip_post_def)
      ultimately show ?thesis by (simp add: skip_post_def)
    next
      case (Ok u)
      have m2: "moved 1 r r2" "rd_depth r2 = rd_depth r" using moved_trans [OF m(1), of 1 r2] v(2) Ok m(2) by (auto simp: skip_post_def)
      obtain res3 r3 where w: "skip_loop ElementsMode r2 = Some (res3, r3)" "skip_post ElementsMode r2 res3 r3" using rest [OF m2(1)] by blast
      have "skip_loop ElementsMode r = Some (res3, r3)" using k 3 v(1) Ok w(1) by (subst skip_loop.simps) simp
      moreover have "skip_post ElementsMode r res3 r3"
        using w(2) m2 by (auto simp: skip_post_def moved_def split: if_splits)
      ultimately show ?thesis by blast
    qed
  qed
qed

lemma skip_value:
  assumes wf: "reader_wf r"
    and inner: "\<And>m r1. moved 1 r r1 \<Longrightarrow> \<exists>res r2. skip_loop m r1 = Some (res, r2) \<and> skip_post m r1 res r2"
  shows "\<exists>res r'. skip_loop ValueMode r = Some (res, r') \<and> skip_post ValueMode r res r'"
proof -
  let ?w = "skip_whitespace r"
  have w: "moved 0 r ?w" by (rule skip_whitespace_moved [OF wf])
  have container: "\<exists>res r'. (case enter b e ?w of (Err e, r2) \<Rightarrow> Some (Err e, r2) | (Ok _, r2) \<Rightarrow> skip_loop m r2) = Some (res, r')
      \<and> skip_post ValueMode r res r'" if "m \<noteq> ValueMode" for b e m
  proof -
    obtain res1 r1 where x: "enter b e ?w = (res1, r1)" by (cases "enter b e ?w")
    note E = enter_moved [OF moved_wf [OF w] x]
    show ?thesis
    proof (cases res1)
      case (Err err)
      then show ?thesis using x E(1) moved_trans [OF w, of 0 r1] by (simp add: skip_post_def)
    next
      case (Ok u)
      have m1: "moved 1 r r1" "rd_depth r1 = rd_depth r + 1" using moved_trans [OF w, of 1 r1] E Ok by auto
      obtain res2 r2 where v: "skip_loop m r1 = Some (res2, r2)" "skip_post m r1 res2 r2" using inner [OF m1(1)] by blast
      then show ?thesis
        using x Ok m1 that by (auto simp: skip_post_def moved_def split: if_splits)
    qed
  qed
  show ?thesis
  proof (cases "peek ?w")
    case None
    then show ?thesis using w by (subst skip_loop.simps) (simp add: skip_post_def)
  next
    case (Some b)
    obtain res1 r1 where s: "skip_scalar b ?w = (res1, r1)" by (cases "skip_scalar b ?w")
    have "skip_post ValueMode r res1 r1"
      using skip_scalar_moved [OF moved_wf [OF w] Some s] moved_trans [OF w, of _ r1] by (auto simp: skip_post_def)
    then show ?thesis
      using Some s container [of MembersMode] container [of ElementsMode]
      by (subst skip_loop.simps) (simp add: begin_object_def begin_array_def Let_def)
  qed
qed

lemma skip_loop_total:
  "reader_wf r \<Longrightarrow> \<exists>res r'. skip_loop m r = Some (res, r') \<and> skip_post m r res r'"
proof (induction "length (rd_buf r) - rd_pos r" arbitrary: m r rule: less_induct)
  case less
  have later: "\<exists>res r'. skip_loop m r1 = Some (res, r') \<and> skip_post m r1 res r'" if "moved 1 r r1" for m r1
    using less.hyps [OF _ moved_wf [OF that]] that by (auto simp: moved_def)
  have val: "\<exists>res r'. skip_loop ValueMode r1 = Some (res, r') \<and> skip_post ValueMode r1 res r'" if m: "moved 0 r r1" for r1
  proof (rule skip_value [OF moved_wf [OF m]])
    fix m r2
    assume "moved 1 r1 r2"
    from later [OF moved_trans [OF m this, unfolded add_0]] show "\<exists>res r3. skip_loop m r2 = Some (res, r3) \<and> skip_post m r2 res r3" .
  qed
  show ?case
    using val [OF moved_refl [OF less.prems]] skip_members [OF less.prems] skip_elements [OF less.prems val] later
    by (cases m) blast+
qed


section \<open>Reading what is there\<close>

definition ahead :: "json_reader \<Rightarrow> byte list" where
  "ahead r = drop (rd_pos r) (rd_buf r)"

text \<open>The reader after it has consumed \<open>c\<close>.\<close>

definition past :: "byte list \<Rightarrow> nat \<Rightarrow> bool \<Rightarrow> json_reader \<Rightarrow> json_reader" where
  "past c d a r = r\<lparr>rd_pos := rd_pos r + length c, rd_depth := d, rd_after_value := a\<rparr>"

lemma past_sel [simp]: "rd_depth (past c d a r) = d" "rd_after_value (past c d a r) = a" "rd_buf (past c d a r) = rd_buf r"
  by (simp_all add: past_def)

lemma ahead_past: "ahead r = c @ s \<Longrightarrow> ahead (past c d a r) = s"
  using drop_drop [of "length c" "rd_pos r" "rd_buf r"] by (simp add: ahead_def past_def add.commute)

lemma past_past [simp]: "past c d a (past c' d' a' r) = past (c' @ c) d a r"
  by (simp add: past_def)

lemma past_here: "past [] (rd_depth r) (rd_after_value r) r = r"
  by (simp add: past_def)

lemma past_field [simp]: "(past c d a r)\<lparr>rd_after_value := a'\<rparr> = past c d a' r"
  by (simp add: past_def)

lemma peek_ahead: "peek r = (case ahead r of [] \<Rightarrow> None | b # _ \<Rightarrow> Some b)"
  by (cases "rd_pos r < length (rd_buf r)") (auto simp: peek_def nth_opt_def ahead_def Cons_nth_drop_Suc [symmetric])

lemma nth_ahead: "ahead r = x @ y # z \<Longrightarrow> nth_opt (rd_buf r) (rd_pos r + length x) = Some y"
proof -
  assume a: "ahead r = x @ y # z"
  have l: "rd_pos r + length x < length (rd_buf r)" using arg_cong [OF a, of length] by (simp add: ahead_def)
  have "rd_buf r ! (rd_pos r + length x) = ahead r ! length x" using l by (simp add: ahead_def)
  then show ?thesis using l a by (simp add: nth_opt_def)
qed

lemma skip_whitespace_here:
  "ahead r = b # s \<Longrightarrow> \<not> is_space b \<Longrightarrow> skip_whitespace r = r"
  by (simp add: skip_whitespace_def ahead_def)

lemma advance_past: "advance_pos r = past [b] (rd_depth r) (rd_after_value r) r"
  by (simp add: advance_pos_def past_def)

lemma expect_byte_here:
  assumes "ahead r = b # s" "\<not> is_space b"
  shows "expect_byte b e r = (Ok (), past [b] (rd_depth r) (rd_after_value r) r)"
  using assms by (simp add: expect_byte_def skip_whitespace_here peek_ahead advance_past [of _ b])

lemma enter_here:
  assumes "ahead r = b # s" "\<not> is_space b" "rd_depth r < MAX_DEPTH"
  shows "enter b e r = (Ok (), past [b] (rd_depth r + 1) False r)"
  using assms by (simp add: enter_def expect_byte_here) (simp add: past_def sat_u8_def MAX_DEPTH_def)

lemma leave_past: "leave r = past [b] (rd_depth r - 1) True r"
  by (simp add: leave_def advance_pos_def past_def)

lemma next_member_end:
  assumes "ahead r = c # s" "\<not> is_space c"
  shows "next_member c e r = (Ok False, past [c] (rd_depth r - 1) True r)"
  using assms by (simp add: next_member_def skip_whitespace_here peek_ahead leave_past [of _ c])

text \<open>The separator before a member: nothing before the first, a comma before the others.\<close>

definition sep :: "bool \<Rightarrow> byte list" where
  "sep after = (if after then [44] else [])"

lemma next_member_more:
  assumes "ahead r = sep (rd_after_value r) @ b # s" "\<not> is_space b" "b \<noteq> c" "c \<noteq> 44"
  shows "next_member c e r = (Ok True, past (sep (rd_after_value r)) (rd_depth r) (rd_after_value r) r)"
proof (cases "rd_after_value r")
  case True
  have "\<not> is_space 44" by (simp add: is_space_def)
  then show ?thesis using assms True expect_byte_here [of r 44 "b # s" e]
    by (simp add: next_member_def skip_whitespace_here peek_ahead sep_def)
next
  case False
  then show ?thesis using assms past_here [of r]
    by (simp add: next_member_def skip_whitespace_here peek_ahead sep_def)
qed

text \<open>Text without quotes, backslashes and control characters.\<close>

definition plain :: "byte \<Rightarrow> bool" where
  "plain b \<longleftrightarrow> b \<noteq> 34 \<and> b \<noteq> 92 \<and> \<not> b < 32"

lemma position_plain: "list_all plain t \<Longrightarrow> \<not> plain q \<Longrightarrow> position (\<lambda>b. b = 34 \<or> b = 92 \<or> b < 32) (t @ q # s) = Some (length t)"
  by (induction t) (auto simp: plain_def)

lemma string_end_here:
  assumes "ahead r = t @ q # s" "list_all plain t" "q = 34 \<or> q = 92"
  shows "string_end r = (Ok (rd_pos r + length t), r)"
proof -
  have "\<not> plain q" using assms(3) by (auto simp: plain_def)
  then show ?thesis
    using assms position_plain [OF assms(2), of q s] nth_ahead [OF assms(1)]
    by (auto simp: string_end_def Let_def ahead_def nth_opt_def)
qed

definition quoted :: "byte list \<Rightarrow> byte list" where
  "quoted t = 34 # t @ [34]"

lemma str_here:
  assumes "ahead r = quoted t @ s" "list_all plain t"
  shows "str_bytes r = (Ok t, past (quoted t) (rd_depth r) True r)"
    "utf8_valid t \<Longrightarrow> read_str r = (Ok t, past (quoted t) (rd_depth r) True r)"
proof -
  let ?r1 = "past [34] (rd_depth r) (rd_after_value r) r"
  have a: "ahead r = [34] @ (t @ 34 # s)" using assms(1) by (simp add: quoted_def)
  have x: "expect_byte 34 e r = (Ok (), ?r1)" for e using a by (intro expect_byte_here) (auto simp: is_space_def)
  have a1: "ahead ?r1 = t @ 34 # s" by (rule ahead_past [OF a])
  have y: "string_end ?r1 = (Ok (rd_pos ?r1 + length t), ?r1)" by (rule string_end_here [OF a1 assms(2)]) simp
  have l: "rd_pos ?r1 + length t \<le> length (rd_buf r)" using arg_cong [OF a1, of length] by (simp add: ahead_def) 
  have tk: "take (length t) (drop (rd_pos ?r1) (rd_buf r)) = t" using a1 by (simp add: ahead_def)
  have "?r1\<lparr>rd_pos := rd_pos ?r1 + length t + 1, rd_after_value := True\<rparr> = past (quoted t) (rd_depth r) True r"
    by (simp add: past_def quoted_def)
  then show "str_bytes r = (Ok t, past (quoted t) (rd_depth r) True r)"
    "utf8_valid t \<Longrightarrow> read_str r = (Ok t, past (quoted t) (rd_depth r) True r)"
    using x y l tk nth_ahead [OF a1] by (simp_all add: str_bytes_def read_str_def Let_def)
qed

definition key_text :: "byte list \<Rightarrow> byte list" where
  "key_text k = quoted k @ [58]"

lemma next_key_here:
  assumes "ahead r = sep (rd_after_value r) @ key_text k @ s" "list_all plain k" "utf8_valid k"
  shows "next_key r = (Ok (Some k), past (sep (rd_after_value r) @ key_text k) (rd_depth r) False r)"
proof -
  let ?c = "sep (rd_after_value r)"
  let ?r1 = "past ?c (rd_depth r) (rd_after_value r) r"
  have sp: "\<not> is_space 34" "\<not> is_space 58" by (simp_all add: is_space_def)
  have x: "next_member 125 e r = (Ok True, ?r1)" for e
    using assms(1) sp by (intro next_member_more [where b = 34]) (auto simp: key_text_def quoted_def)
  have a1: "ahead ?r1 = quoted k @ (58 # s)" using ahead_past [OF assms(1)] by (simp add: key_text_def)
  have y: "read_str ?r1 = (Ok k, past (quoted k) (rd_depth r) True ?r1)" using str_here(2) [OF a1 assms(2,3)] by simp
  let ?r2 = "past (?c @ quoted k) (rd_depth r) False r"
  have a2: "ahead ?r2 = 58 # s" using ahead_past [of r "?c @ quoted k" "58 # s"] assms(1) by (simp add: key_text_def)
  have "expect_byte 58 (in_quotes '':'') ?r2 = (Ok (), past [58] (rd_depth r) False ?r2)" using expect_byte_here [OF a2 sp(2)] by simp
  then show ?thesis using x y by (simp add: next_key_def key_text_def)
qed

lemma next_key_end:
  assumes "ahead r = 125 # s" shows "next_key r = (Ok None, past [125] (rd_depth r - 1) True r)"
  using next_member_end [OF assms, of "(comma_or ''}'')"] by (simp add: next_key_def is_space_def)


section \<open>Skipping a value\<close>

text \<open>
  JSON values as text: words, numbers as runs of number bytes, strings as plain bytes and escape
  pairs, arrays and objects.
\<close>

datatype str_unit = Plain byte | Escape byte

datatype jval =
    JWord "byte list"
  | JNumber "byte list"
  | JString "str_unit list"
  | JArray "jval list"
  | JObject "(byte list \<times> jval) list"

fun unit_text :: "str_unit \<Rightarrow> byte list" where
  "unit_text (Plain b) = [b]"
| "unit_text (Escape b) = [92, b]"

fun unit_ok :: "str_unit \<Rightarrow> bool" where
  "unit_ok (Plain b) = plain b"
| "unit_ok (Escape b) = True"

fun val_text :: "jval \<Rightarrow> byte list" and elems_text :: "bool \<Rightarrow> jval list \<Rightarrow> byte list"
  and members_text :: "bool \<Rightarrow> (byte list \<times> jval) list \<Rightarrow> byte list" where
  "val_text (JWord w) = w"
| "val_text (JNumber n) = n"
| "val_text (JString us) = 34 # concat (map unit_text us) @ [34]"
| "val_text (JArray vs) = 91 # elems_text False vs @ [93]"
| "val_text (JObject kvs) = 123 # members_text False kvs @ [125]"
| "elems_text a [] = []"
| "elems_text a (v # vs) = sep a @ val_text v @ elems_text True vs"
| "members_text a [] = []"
| "members_text a ((k, v) # kvs) = sep a @ key_text k @ val_text v @ members_text True kvs"

text \<open>\<open>val_ok d v\<close>: well formed, and nested at most \<open>d\<close> deep.\<close>

fun val_ok :: "nat \<Rightarrow> jval \<Rightarrow> bool" where
  "val_ok d (JWord w) \<longleftrightarrow> w \<in> {ascii ''true'', ascii ''false'', ascii ''null''}"
| "val_ok d (JNumber n) \<longleftrightarrow> (case n of [] \<Rightarrow> False | b # bs \<Rightarrow> (b = 45 \<or> is_digit b) \<and> list_all is_number_byte bs)"
| "val_ok d (JString us) \<longleftrightarrow> list_all unit_ok us"
| "val_ok d (JArray vs) \<longleftrightarrow> (case d of 0 \<Rightarrow> False | Suc d' \<Rightarrow> list_all (val_ok d') vs)"
| "val_ok d (JObject kvs) \<longleftrightarrow>
     (case d of 0 \<Rightarrow> False | Suc d' \<Rightarrow> list_all (\<lambda>(k, v). list_all plain k \<and> utf8_valid k \<and> val_ok d' v) kvs)"

text \<open>What may follow a value: anything that does not go on with a number.\<close>

definition delim :: "byte list \<Rightarrow> bool" where
  "delim s \<longleftrightarrow> (case s of [] \<Rightarrow> True | b # _ \<Rightarrow> \<not> is_number_byte b)"

lemma digit_range: "is_digit b \<Longrightarrow> 48 \<le> unat b \<and> unat b \<le> 57"
  by (auto simp: is_digit_def word_le_nat_alt)

lemma number_byte_neq: "b = 45 \<or> is_digit b \<Longrightarrow> b \<notin> {32, 9, 10, 13, 123, 91, 34, 116, 102, 110, 93, 125, 44}"
  by (auto simp: is_digit_def)

lemma skip_number_here:
  assumes "ahead r = n @ s" "val_ok d (JNumber n)" "delim s"
  shows "skip_number r = (Ok (), past n (rd_depth r) True r)"
proof -
  have n: "n \<noteq> []" "list_all is_number_byte n" using assms(2) by (auto simp: is_number_byte_def split: list.splits)
  have "takeWhile is_number_byte (n @ s) = n"
    using n(2) assms(3) by (auto simp: takeWhile_append list_all_iff delim_def split: list.splits)
  then show ?thesis using n(1) assms(1) by (simp add: skip_number_def Let_def scan_while_eq ahead_def past_def)
qed

lemma skip_word_here:
  assumes "ahead r = w @ s" "w \<in> {ascii ''true'', ascii ''false'', ascii ''null''}"
  shows "skip_word r = (Ok (), past w (rd_depth r) True r)"
proof -
  have lit: "literal v r = (if take (length v) (w @ s) = v then (True, past v (rd_depth r) True r) else (False, r))" for v
  proof -
    have len: "length (rd_buf r) - rd_pos r = length (w @ s)" using arg_cong [OF assms(1), of length] by (simp add: ahead_def)
    then have pos: "rd_pos r \<le> length (rd_buf r)" using assms(2) by (auto simp: ascii_def)
    have "length v \<le> length (w @ s)" if "take (length v) (w @ s) = v" using that by (metis length_take min.cobounded1)
    then have "rd_pos r + length v \<le> length (rd_buf r)" if "take (length v) (w @ s) = v" using that len pos by linarith
    then show ?thesis using assms(1) by (auto simp: literal_def Let_def ahead_def past_def)
  qed
  show ?thesis using assms(2) by (auto simp: skip_word_def lit ascii_def)
qed

lemma skip_string_loop_plain:
  assumes "ahead r = t @ 34 # s" "list_all plain t"
  shows "skip_string_loop r = (Ok (), past (t @ [34]) (rd_depth r) True r)"
  using string_end_here [OF assms] nth_ahead [OF assms(1)] by (subst skip_string_loop.simps) (simp add: past_def)

lemma skip_string_loop_escape:
  assumes "ahead r = t @ 92 # b # s" "list_all plain t" "s \<noteq> []"
  shows "skip_string_loop r = skip_string_loop (past (t @ [92, b]) (rd_depth r) (rd_after_value r) r)"
proof -
  have "length (rd_buf r) - rd_pos r = length (t @ 92 # b # s)" using arg_cong [OF assms(1), of length] by (simp add: ahead_def)
  then have "\<not> rd_pos r + length t + 1 \<ge> length (rd_buf r)" by simp
  then show ?thesis
    using string_end_here [OF assms(1,2)] nth_ahead [OF assms(1)] by (subst skip_string_loop.simps) (simp add: past_def)
qed

lemma split_units:
  assumes "list_all unit_ok us"
  obtains t where "us = map Plain t" "list_all plain t"
    | t b us' where "us = map Plain t @ Escape b # us'" "list_all plain t" "list_all unit_ok us'"
proof -
  have "(\<exists>t. us = map Plain t \<and> list_all plain t)
      \<or> (\<exists>t b us'. us = map Plain t @ Escape b # us' \<and> list_all plain t \<and> list_all unit_ok us')"
    using assms
  proof (induction us)
    case (Cons u us)
    show ?case
    proof (cases u)
      case (Plain c)
      have c: "plain c" using Cons.prems Plain by simp
      from Cons consider t where "us = map Plain t" "list_all plain t"
        | t b us' where "us = map Plain t @ Escape b # us'" "list_all plain t" "list_all unit_ok us'" by auto
      then show ?thesis
      proof cases
        case (1 t)
        then show ?thesis using Plain c by (intro disjI1 exI [of _ "c # t"]) simp
      next
        case (2 t b us')
        then show ?thesis using Plain c by (intro disjI2 exI [of _ "c # t"] exI [of _ b] exI [of _ us']) simp
      qed
    next
      case (Escape b)
      then show ?thesis using Cons.prems by (intro disjI2 exI [of _ "[]"] exI [of _ b] exI [of _ us]) simp
    qed
  qed simp
  then show ?thesis using that by blast
qed

lemma units_plain [simp]: "concat (map (unit_text \<circ> Plain) t) = t"
  by (induction t) auto

lemma skip_string_loop_here:
  "list_all unit_ok us \<Longrightarrow> ahead r = concat (map unit_text us) @ 34 # s \<Longrightarrow>
     skip_string_loop r = (Ok (), past (concat (map unit_text us) @ [34]) (rd_depth r) True r)"
proof (induction "length us" arbitrary: us r rule: less_induct)
  case less
  from less.prems(1) show ?case
  proof (cases rule: split_units)
    case (1 t)
    then show ?thesis using skip_string_loop_plain [of r t s] less.prems(2) by simp
  next
    case (2 t b us')
    let ?r = "past (t @ [92, b]) (rd_depth r) (rd_after_value r) r"
    have cat: "concat (map unit_text us) = t @ 92 # b # concat (map unit_text us')" using units_plain [of t] by (simp add: 2(1))
    have a: "ahead r = t @ 92 # b # (concat (map unit_text us') @ 34 # s)" using less.prems(2) by (simp add: cat)
    have a': "ahead ?r = concat (map unit_text us') @ 34 # s" using a by (intro ahead_past) simp
    have "skip_string_loop ?r = (Ok (), past (concat (map unit_text us') @ [34]) (rd_depth r) True ?r)"
      using less.hyps [OF _ 2(3) a'] 2(1) by simp
    then show ?thesis using skip_string_loop_escape [OF a 2(2)] by (simp add: cat)
  qed
qed


text \<open>Every value starts with a byte that is neither a space nor the end of a container.\<close>

lemma val_text_start:
  assumes "val_ok d v"
  obtains b s where "val_text v = b # s" "\<not> is_space b" "b \<noteq> 93" "b \<noteq> 125"
proof (cases v)
  case (JNumber n)
  then obtain b s where "n = b # s" "b = 45 \<or> is_digit b" using assms by (auto split: list.splits)
  then show ?thesis using that JNumber number_byte_neq [of b] by (auto simp: is_space_def)
qed (use assms that in \<open>auto simp: is_space_def ascii_def\<close>)

lemma delim_after: "delim (elems_text True vs @ 93 # s)" "delim (members_text True kvs @ 125 # s)"
  by (cases vs; cases kvs; auto simp: delim_def sep_def is_number_byte_def is_digit_def)+

lemma skip_scalar_here:
  assumes "ahead r = val_text v @ s" "val_ok d v" "delim s" "\<forall>vs. v \<noteq> JArray vs" "\<forall>kvs. v \<noteq> JObject kvs"
  shows "skip_loop ValueMode r = Some (Ok (), past (val_text v) (rd_depth r) True r)"
proof -
  obtain b t where b: "val_text v = b # t" "\<not> is_space b" "b \<noteq> 93" "b \<noteq> 125" by (rule val_text_start [OF assms(2)])
  have w: "skip_whitespace r = r" "peek r = Some b" using assms(1) b by (auto simp: skip_whitespace_here peek_ahead)
  have "b \<noteq> 123 \<and> b \<noteq> 91 \<and> skip_scalar b r = (Ok (), past (val_text v) (rd_depth r) True r)"
  proof (cases v)
    case (JWord x)
    then show ?thesis using skip_word_here [of r x s] assms(1,2) b(1) by (auto simp: skip_scalar_def ascii_def)
  next
    case (JNumber n)
    then have "b = 45 \<or> is_digit b" using assms(2) b(1) by (auto split: list.splits)
    then show ?thesis using skip_number_here [of r n s d] assms(1-3) JNumber number_byte_neq [of b] by (auto simp: skip_scalar_def)
  next
    case (JString us)
    let ?r = "past [34] (rd_depth r) (rd_after_value r) r"
    have "ahead ?r = concat (map unit_text us) @ 34 # s" using assms(1) JString by (intro ahead_past) simp
    then show ?thesis
      using skip_string_loop_here [of us ?r s] assms(2) JString b(1) advance_past [of r 34] by (auto simp: skip_scalar_def skip_string_def)
  qed (use assms in auto)
  then show ?thesis using w by (subst skip_loop.simps) (simp add: Let_def)
qed

lemma skip_container_here:
  assumes "ahead r = b # s" "rd_depth r < MAX_DEPTH" "b = 123 \<and> m = MembersMode \<or> b = 91 \<and> m = ElementsMode"
  shows "skip_loop ValueMode r = skip_loop m (past [b] (rd_depth r + 1) False r)"
proof -
  have sp: "\<not> is_space b" using assms(3) by (auto simp: is_space_def)
  show ?thesis
    using assms(3) skip_whitespace_here [OF assms(1) sp] assms(1) enter_here [OF assms(1) sp assms(2)]
    by (subst skip_loop.simps) (auto simp: Let_def peek_ahead begin_object_def begin_array_def)
qed

lemma skip_here:
  "val_ok d v \<Longrightarrow> ahead r = val_text v @ s \<Longrightarrow> delim s \<Longrightarrow> rd_depth r + d \<le> MAX_DEPTH \<Longrightarrow>
     skip_loop ValueMode r = Some (Ok (), past (val_text v) (rd_depth r) True r)"
  and skip_elems_here:
  "list_all (val_ok d) vs \<Longrightarrow> rd_after_value r = a \<Longrightarrow> ahead r = elems_text a vs @ 93 # s \<Longrightarrow> rd_depth r + d \<le> MAX_DEPTH \<Longrightarrow>
     skip_loop ElementsMode r = Some (Ok (), past (elems_text a vs @ [93]) (rd_depth r - 1) True r)"
  and skip_members_here:
  "list_all (\<lambda>(k, v). list_all plain k \<and> utf8_valid k \<and> val_ok d v) kvs \<Longrightarrow> rd_after_value r = b \<Longrightarrow>
     ahead r = members_text b kvs @ 125 # s \<Longrightarrow> rd_depth r + d \<le> MAX_DEPTH \<Longrightarrow>
     skip_loop MembersMode r = Some (Ok (), past (members_text b kvs @ [125]) (rd_depth r - 1) True r)"
proof (induction v and a vs and b kvs arbitrary: d r s and d r s and d r s rule: val_text_elems_text_members_text.induct)
  case (4 vs)
  obtain d' where d: "d = Suc d'" "list_all (val_ok d') vs" using 4(2) by (cases d) auto
  let ?r = "past [91] (rd_depth r + 1) False r"
  have a: "ahead ?r = elems_text False vs @ 93 # s" using 4(3) by (intro ahead_past) simp
  have "skip_loop ValueMode r = skip_loop ElementsMode ?r" using 4(3,5) d by (intro skip_container_here) auto
  then show ?case using 4(1) [of d' ?r s] d a 4(5) by simp
next
  case (5 kvs)
  obtain d' where d: "d = Suc d'" "list_all (\<lambda>(k, v). list_all plain k \<and> utf8_valid k \<and> val_ok d' v) kvs" using 5(2) by (cases d) auto
  let ?r = "past [123] (rd_depth r + 1) False r"
  have a: "ahead ?r = members_text False kvs @ 125 # s" using 5(3) by (intro ahead_past) simp
  have "skip_loop ValueMode r = skip_loop MembersMode ?r" using 5(3,5) d by (intro skip_container_here) auto
  then show ?case using 5(1) [of d' ?r s] d a 5(5) by simp
next
  case (6 a)
  then have e: "ahead r = 93 # s" by simp
  have "next_element r = (Ok False, past [93] (rd_depth r - 1) True r)"
    unfolding next_element_def by (rule next_member_end [OF e]) (simp add: is_space_def)
  then show ?case by (subst skip_loop.simps) simp
next
  case (7 a v vs)
  obtain b t where b: "val_text v = b # t" "\<not> is_space b" "b \<noteq> 93" "b \<noteq> 125" using 7(3) by (auto elim: val_text_start)
  let ?r1 = "past (sep a) (rd_depth r) a r"
  have ah: "ahead r = sep a @ (val_text v @ elems_text True vs @ 93 # s)" using 7(5) by simp
  have n: "next_element r = (Ok True, ?r1)"
    unfolding next_element_def using next_member_more [of r b _ 93] b ah 7(4) by simp
  let ?r2 = "past (sep a @ val_text v) (rd_depth r) True r"
  have v: "skip_loop ValueMode ?r1 = Some (Ok (), ?r2)"
    using 7(1) [of d ?r1 "elems_text True vs @ 93 # s"] ahead_past [OF ah] 7(3,6) delim_after by simp
  have a2: "ahead ?r2 = elems_text True vs @ 93 # s" by (rule ahead_past) (simp add: ah)
  have "skip_loop ElementsMode ?r2 = Some (Ok (), past (elems_text True vs @ [93]) (rd_depth r - 1) True ?r2)"
    using 7(2) [of d ?r2 s] a2 7(3,6) by simp
  then show ?case using n v by (subst skip_loop.simps) simp
next
  case (8 a)
  then have "next_key r = (Ok None, past [125] (rd_depth r - 1) True r)" using next_key_end by simp
  then show ?case by (subst skip_loop.simps) simp
next
  case (9 a k v kvs)
  let ?c = "sep a @ key_text k"
  let ?r1 = "past ?c (rd_depth r) False r"
  have ah: "ahead r = ?c @ (val_text v @ members_text True kvs @ 125 # s)" using 9(5) by simp
  have n: "next_key r = (Ok (Some k), ?r1)" using next_key_here [of r k] ah 9(3,4) by simp
  let ?r2 = "past (?c @ val_text v) (rd_depth r) True r"
  have v: "skip_loop ValueMode ?r1 = Some (Ok (), ?r2)"
    using 9(1) [of d ?r1 "members_text True kvs @ 125 # s"] ahead_past [OF ah] 9(3,6) delim_after by simp
  have a2: "ahead ?r2 = members_text True kvs @ 125 # s" by (rule ahead_past) (simp add: ah)
  have "skip_loop MembersMode ?r2 = Some (Ok (), past (members_text True kvs @ [125]) (rd_depth r - 1) True ?r2)"
    using 9(2) [of d ?r2 s] a2 9(3,6) by simp
  then show ?case using n v by (subst skip_loop.simps) simp
qed (rule skip_scalar_here; simp)+


section \<open>Integers and the end of the document\<close>

lemma u64_loop_digits:
  assumes "list_all is_digit ds" "delim s" "digits_from v ds < 2 ^ 64"
  shows "u64_loop (ds @ s) p v = (Some (digits_from v ds), p + length ds)"
  using assms(1,3)
proof (induction ds arbitrary: p v)
  case Nil
  then show ?case using assms(2) by (cases s) (auto simp: delim_def is_number_byte_def)
next
  case (Cons b ds)
  have le: "v * 10 + digit_of b < 2 ^ 64" using digits_from_ge [of "v * 10 + digit_of b" ds] Cons.prems(2) by simp
  then have "Option.bind (checked_u64 (v * 10)) (\<lambda>v. checked_u64 (v + digit_of b)) = Some (v * 10 + digit_of b)"
    by (simp add: checked_u64_def range_defs)
  then show ?case using Cons by simp
qed

lemma read_u64_here:
  assumes "ahead r = ds @ s" "list_all is_digit ds" "ds \<noteq> []" "1 < length ds \<longrightarrow> hd ds \<noteq> 48" "digits_val ds < 2 ^ 64" "delim s"
  shows "read_u64 r = (Ok (digits_val ds), past ds (rd_depth r) True r)"
proof -
  obtain d ds' where ds: "ds = d # ds'" using assms(3) by (cases ds) auto
  have "is_digit d" using assms(2) ds by simp
  then have "\<not> is_space d" by (auto simp: is_space_def is_digit_def)
  then have w: "skip_whitespace r = r" using assms(1) ds by (intro skip_whitespace_here) auto
  let ?r = "r\<lparr>rd_pos := rd_pos r + length ds\<rparr>"
  have "?r = past ds (rd_depth r) (rd_after_value r) r" by (simp add: past_def)
  then have a: "ahead ?r = s" using ahead_past [OF assms(1)] by simp
  have p: "(case peek ?r of Some b \<Rightarrow> b \<in> {46, 101, 69, 45, 43} | None \<Rightarrow> False) = False"
    unfolding peek_ahead a using assms(6) by (cases s) (auto simp: delim_def is_number_byte_def)
  have h: "nth_opt (rd_buf r) (rd_pos r) \<noteq> Some 48" if "1 < length ds"
    using nth_ahead [of r "[]" d] assms(1,4) that ds by auto
  have l: "u64_loop (drop (rd_pos r) (rd_buf r)) (rd_pos r) 0 = (Some (digits_val ds), rd_pos r + length ds)"
    using u64_loop_digits [OF assms(2,6), of 0 "rd_pos r"] assms(1,5) by (simp add: ahead_def)
  have "read_u64 r = (Ok (digits_val ds), ?r\<lparr>rd_after_value := True\<rparr>)"
    using p h assms(3) unfolding read_u64_def w Let_def l by simp
  then show ?thesis by (simp add: past_def)
qed

lemma show_nat_no_leading_zero: "1 < length (show_nat n) \<longrightarrow> hd (show_nat n) \<noteq> 48"
proof (induction n rule: show_nat.induct)
  case (1 n)
  show ?case
  proof (cases "n < 10")
    case False
    have first: "hd (show_nat m) \<noteq> 48" if "0 < m" "m < 10" for m
    proof -
      have "digit_of (48 + of_nat m) = m" using that by simp
      then have "(48 + of_nat m :: byte) \<noteq> 48" using that by (auto simp: digit_of_def)
      then show ?thesis using that by (subst show_nat.simps) simp
    qed
    have "hd (show_nat (n div 10)) \<noteq> 48"
    proof (cases "n div 10 < 10")
      case True
      then show ?thesis using first [of "n div 10"] False by simp
    next
      case big: False
      then have "1 < length (show_nat (n div 10))" by (subst show_nat.simps) (simp add: Suc_lessI)
      then show ?thesis using 1 False by simp
    qed
    moreover have "show_nat n = show_nat (n div 10) @ [48 + of_nat (n mod 10)]" using False by (subst show_nat.simps) simp
    ultimately show ?thesis by simp
  qed (subst show_nat.simps, simp)
qed

lemma read_u64_shown:
  assumes "ahead r = show_nat n @ s" "n < 2 ^ 64" "delim s"
  shows "read_u64 r = (Ok n, past (show_nat n) (rd_depth r) True r)"
  using read_u64_here [OF assms(1) show_nat_digits _ show_nat_no_leading_zero] assms(2,3) by simp

lemma finish_here: "ahead r = [] \<Longrightarrow> rd_depth r = 0 \<Longrightarrow> reader_wf r \<Longrightarrow> finish r = (Ok (), r)"
  by (simp add: finish_def skip_whitespace_def ahead_def reader_wf_def Let_def)

section \<open>Properties\<close>

text \<open>C26: Skipping returns on every input, hostile ones included: it never runs past the buffer or moves back,
  and when it succeeds it has consumed something and the nesting depth is what it was.\<close>

theorem json_skip_returns:
  assumes "rd_pos r \<le> length (rd_buf r)"
  shows "\<exists>res r'. skip_loop ValueMode r = Some (res, r') \<and> skip r = (res, r') \<and> rd_buf r' = rd_buf r
    \<and> rd_pos r \<le> rd_pos r' \<and> rd_pos r' \<le> length (rd_buf r)
    \<and> (is_ok res \<longrightarrow> rd_pos r < rd_pos r' \<and> rd_depth r' = rd_depth r)"
proof -
  obtain res r' where "skip_loop ValueMode r = Some (res, r')" "skip_post ValueMode r res r'"
    using skip_loop_total [of r ValueMode] assms by (auto simp: reader_wf_def)
  then show ?thesis by (intro exI [of _ res] exI [of _ r']) (auto simp: skip_def skip_post_def moved_def split: if_splits)
qed

theorem json_skip_returns_witness: "\<exists>res r'. skip_loop ValueMode (reader_new [91, 91, 44]) = Some (res, r') \<and> rd_pos r' \<le> 3"
  using json_skip_returns [of "reader_new [91, 91, 44]"] by (auto simp: reader_new_def numeral_3_eq_3)

text \<open>Skipping consumes exactly one value: on the text of any well-formed value nested no deeper than the
  limit allows, whatever follows it, the reader ends right after it, ready for a separator.\<close>

lemma json_skip_exact:
  assumes "val_ok d v" "drop (rd_pos r) (rd_buf r) = val_text v @ s" "delim s" "rd_depth r + d \<le> MAX_DEPTH"
  shows "skip r = (Ok (), r\<lparr>rd_pos := rd_pos r + length (val_text v), rd_after_value := True\<rparr>)"
  using skip_here [OF assms(1) _ assms(3,4), of] assms(2) by (simp add: skip_def ahead_def past_def)

end
