(* ===== verification/Levels.thy ===== *)
theory Levels
  imports Json Book
begin

text \<open>
  \<open>crates/bowst-venue/src/levels.rs\<close> and the error type of \<open>lib.rs\<close>: level arrays decoded from
  the JSON reader.  An operation takes the reader and returns its result with the reader
  after it.
\<close>

section \<open>Decoding levels\<close>

datatype decode_error =
    JsonError json_error
  | MissingField string
  | UnexpectedValue string
  | UnknownSymbol "symbol option"
  | InvalidSequence nat nat
  | InvalidNumber string fixed_error
  | TooManyLevels nat

type_synonym 'a dec_op = "json_reader \<Rightarrow> ('a, decode_error) result \<times> json_reader"

text \<open>The early return of \<open>?\<close> on the way through a decoder, and the conversion of a JSON error.\<close>

definition dbind :: "'a dec_op \<Rightarrow> ('a \<Rightarrow> 'b dec_op) \<Rightarrow> 'b dec_op" where
  "dbind m f r = (case m r of (Err e, r1) \<Rightarrow> (Err e, r1) | (Ok x, r1) \<Rightarrow> f x r1)"

definition from_json :: "'a json_op \<Rightarrow> 'a dec_op" where
  "from_json m r = (case m r of (res, r1) \<Rightarrow> (map_err JsonError res, r1))"

definition give :: "('a, decode_error) result \<Rightarrow> 'a dec_op" where
  "give res r = (res, r)"

definition exact_units :: "byte list \<Rightarrow> increment \<Rightarrow> string \<Rightarrow> (int, decode_error) result" where
  "exact_units txt inc field = map_err (InvalidNumber field) (parse_units_bytes inc txt Exact)"

definition read_level :: "increment \<Rightarrow> increment \<Rightarrow> level dec_op" where
  "read_level tick lot =
     dbind (from_json begin_array) (\<lambda>_.
     dbind (from_json next_element) (\<lambda>found.
     if \<not> found then give (Err (UnexpectedValue ''level''))
     else
       dbind (from_json str_bytes) (\<lambda>txt.
       dbind (give (exact_units txt tick ''price'')) (\<lambda>price.
       dbind (from_json next_element) (\<lambda>found.
       if \<not> found then give (Err (UnexpectedValue ''level''))
       else
         dbind (from_json str_bytes) (\<lambda>txt.
         dbind (give (exact_units txt lot ''qty'')) (\<lambda>qty.
         dbind (from_json next_element) (\<lambda>found.
         if found then give (Err (UnexpectedValue ''level''))
         else give (Ok \<lparr>lv_price = price, lv_qty = qty\<rparr>)))))))))"

section \<open>Decoders only move forward\<close>

text \<open>\<open>advances k m\<close>: from a reader within its buffer, \<open>m\<close> ends within it, and at least \<open>k\<close> bytes on when it succeeds.\<close>

definition advances :: "nat \<Rightarrow> ('a, 'e) result \<times> json_reader \<Rightarrow> json_reader \<Rightarrow> bool" where
  "advances k out r \<longleftrightarrow> moved (if is_ok (fst out) then k else 0) r (snd out)"

lemma str_bytes_moved:
  assumes "reader_wf r" shows "advances 2 (str_bytes r) r"
proof -
  obtain res1 r1 where x: "expect_byte 34 ''string'' r = (res1, r1)" by (cases "expect_byte 34 ''string'' r")
  obtain res2 r2 where y: "string_end r1 = (res2, r2)" by (cases "string_end r1")
  show ?thesis
  proof (cases res1)
    case (Ok u)
    then have x': "expect_byte 34 ''string'' r = (Ok (), r1)" using x by simp
    show ?thesis
      using x' y str_fail [OF assms x' y] str_tail [OF assms x', of _ r2]
      by (cases res2) (auto simp: str_bytes_def advances_def)
  next
    case (Err err)
    then show ?thesis using x expect_byte_moved [OF assms x] by (auto simp: str_bytes_def advances_def)
  qed
qed

lemma dbind_advances:
  assumes "advances k (m r) r" "\<And>x r1. m r = (Ok x, r1) \<Longrightarrow> reader_wf r1 \<Longrightarrow> advances l (f x r1) r1"
  shows "advances (k + l) (dbind m f r) r"
proof (cases "m r")
  case (Pair res r1)
  show ?thesis
  proof (cases res)
    case (Ok x)
    then have m: "moved k r r1" using assms(1) Pair by (simp add: advances_def)
    have "advances l (f x r1) r1" using assms(2) Pair Ok moved_wf [OF m] by simp
    from moved_trans [OF m this [unfolded advances_def]] show ?thesis
      by (auto simp: dbind_def Pair Ok advances_def intro: moved_weaken split: if_splits)
  qed (use assms(1) Pair in \<open>simp add: dbind_def advances_def\<close>)
qed

lemma give_advances: "reader_wf r \<Longrightarrow> advances 0 (give res r) r"
  by (auto simp: advances_def give_def moved_refl)

lemma from_json_advances: "advances k (m r) r \<Longrightarrow> advances k (from_json m r) r"
  by (cases "m r"; cases "fst (m r)") (auto simp: advances_def from_json_def)

lemma begin_advances: "reader_wf r \<Longrightarrow> advances 1 (from_json begin_array r) r" "reader_wf r \<Longrightarrow> advances 1 (from_json begin_object r) r"
  by (rule from_json_advances, cases "begin_array r", use enter_moved(1) in \<open>fastforce simp: begin_array_def advances_def\<close>)
    (rule from_json_advances, cases "begin_object r", use enter_moved(1) in \<open>fastforce simp: begin_object_def advances_def\<close>)

lemma next_element_advances: "reader_wf r \<Longrightarrow> advances 0 (from_json next_element r) r"
  by (rule from_json_advances, cases "next_element r") (use next_member_moved(1) in \<open>fastforce simp: next_element_def advances_def\<close>)

lemma str_bytes_advances: "reader_wf r \<Longrightarrow> advances 0 (from_json str_bytes r) r"
  by (rule from_json_advances) (use str_bytes_moved [of r] in \<open>auto simp: advances_def intro: moved_weaken split: if_splits\<close>)

lemma read_level_advances:
  assumes "reader_wf r" shows "advances 1 (read_level tick lot r) r"
proof -
  note steps = dbind_advances [where k = 0 and l = 0, unfolded add_0]
  have "advances (1 + 0) (read_level tick lot r) r"
    unfolding read_level_def
    by (rule dbind_advances, rule begin_advances(1) [OF assms])
      (auto intro!: steps next_element_advances str_bytes_advances give_advances split: if_split)
  then show ?thesis by simp
qed

section \<open>Level arrays\<close>

text \<open>
  The loops of \<open>read_levels_into\<close> and \<open>read_updates_into\<close> differ in what they push for a level;
  \<open>mk\<close> is that.  The loop is bounded by the input only: it is partial by construction and shown
  to return below.
\<close>

partial_function (option) read_items ::
  "(level \<Rightarrow> 'i) \<Rightarrow> increment \<Rightarrow> increment \<Rightarrow> nat \<Rightarrow> 'i list \<Rightarrow> json_reader \<Rightarrow> ((unit, decode_error) result \<times> 'i list \<times> json_reader) option" where
  "read_items mk tick lot limit out r =
     (case from_json next_element r of
        (Err e, r1) \<Rightarrow> Some (Err e, out, r1)
      | (Ok found, r1) \<Rightarrow>
          if \<not> found then Some (Ok (), out, r1)
          else if length out \<ge> limit then Some (Err (TooManyLevels limit), out, r1)
          else
            (case read_level tick lot r1 of
               (Err e, r2) \<Rightarrow> Some (Err e, out, r2)
             | (Ok l, r2) \<Rightarrow> read_items mk tick lot limit (out @ [mk l]) r2))"

definition read_array ::
  "(level \<Rightarrow> 'i) \<Rightarrow> increment \<Rightarrow> increment \<Rightarrow> nat \<Rightarrow> 'i list \<Rightarrow> json_reader \<Rightarrow> (unit, decode_error) result \<times> 'i list \<times> json_reader" where
  "read_array mk tick lot limit out r =
     (case from_json begin_array r of
        (Err e, r1) \<Rightarrow> (Err e, out, r1)
      | (Ok _, r1) \<Rightarrow> the (read_items mk tick lot limit out r1))"

definition read_levels_into ::
  "increment \<Rightarrow> increment \<Rightarrow> nat \<Rightarrow> level list \<Rightarrow> json_reader \<Rightarrow> (unit, decode_error) result \<times> level list \<times> json_reader" where
  "read_levels_into = read_array (\<lambda>l. l)"

definition read_updates_into ::
  "side \<Rightarrow> increment \<Rightarrow> increment \<Rightarrow> nat \<Rightarrow> level_update list \<Rightarrow> json_reader \<Rightarrow> (unit, decode_error) result \<times> level_update list \<times> json_reader" where
  "read_updates_into sd = read_array (\<lambda>l. \<lparr>lu_side = sd, lu_price = lv_price l, lu_qty = lv_qty l\<rparr>)"

lemma read_items_returns:
  assumes "reader_wf r"
  shows "\<exists>res out' r'. read_items mk tick lot limit out r = Some (res, out', r') \<and> moved 0 r r'
    \<and> length out' \<le> max (length out) limit"
  using assms
proof (induction "length (rd_buf r) - rd_pos r" arbitrary: r out rule: less_induct)
  case less
  obtain res1 r1 where e: "from_json next_element r = (res1, r1)" by (cases "from_json next_element r")
  have m1: "moved 0 r r1" using next_element_advances [OF less.prems] e by (simp add: advances_def split: if_splits)
  obtain res2 r2 where l: "read_level tick lot r1 = (res2, r2)" by (cases "read_level tick lot r1")
  have m2: "moved (if is_ok res2 then 1 else 0) r1 r2" using read_level_advances [OF moved_wf [OF m1], of tick lot] l by (auto simp: advances_def)
  show ?case
  proof (cases "\<exists>x. res1 = Ok True \<and> length out < limit \<and> res2 = Ok x")
    case True
    then obtain x where x: "res1 = Ok True" "length out < limit" "res2 = Ok x" by blast
    have m: "moved 1 r r2" using moved_trans [OF m1 m2] x by simp
    have "length (rd_buf r2) - rd_pos r2 < length (rd_buf r) - rd_pos r" using m by (auto simp: moved_def)
    from less.hyps [OF this moved_wf [OF m], of "out @ [mk x]"]
    show ?thesis using e l x moved_trans [OF m] by (subst read_items.simps) (fastforce intro: moved_weaken)
  next
    case False
    then show ?thesis using e l m1 moved_trans [OF m1 m2]
      by (subst read_items.simps) (auto split: result.splits if_splits)
  qed
qed

lemma read_array_moved:
  assumes "reader_wf r" "read_array mk tick lot limit out r = (res, out', r')"
  shows "moved 0 r r' \<and> length out' \<le> max (length out) limit"
proof -
  obtain res1 r1 where b: "from_json begin_array r = (res1, r1)" by (cases "from_json begin_array r")
  have m: "moved 0 r r1" using begin_advances(1) [OF assms(1)] b by (auto simp: advances_def intro: moved_weaken split: if_splits)
  obtain res2 out2 r2 where "read_items mk tick lot limit out r1 = Some (res2, out2, r2)" "moved 0 r1 r2" "length out2 \<le> max (length out) limit"
    using read_items_returns [OF moved_wf [OF m]] by blast
  then show ?thesis using assms(2) b m moved_trans [OF m, of 0 r2] by (cases res1) (auto simp: read_array_def)
qed

section \<open>Reading the text of levels\<close>

text \<open>A level as the venue sends it: the texts of its price and its quantity.\<close>

type_synonym level_txt = "byte list \<times> byte list"

fun level_val :: "level_txt \<Rightarrow> jval" where
  "level_val (p, q) = JArray [JString (map Plain p), JString (map Plain q)]"

definition side_val :: "level_txt list \<Rightarrow> jval" where
  "side_val ls = JArray (map level_val ls)"

text \<open>\<open>level_is tick lot t l\<close>: the text \<open>t\<close> is exactly the level \<open>l\<close>.\<close>

definition level_is :: "increment \<Rightarrow> increment \<Rightarrow> level_txt \<Rightarrow> level \<Rightarrow> bool" where
  "level_is tick lot t l \<longleftrightarrow> list_all plain (fst t) \<and> list_all plain (snd t)
     \<and> parse_units_bytes tick (fst t) Exact = Ok (lv_price l) \<and> parse_units_bytes lot (snd t) Exact = Ok (lv_qty l)"

lemma concat_Plain [simp]: "concat (map unit_text (map Plain t)) = t"
  by (induction t) auto

lemma level_text: "val_text (level_val (p, q)) = [91] @ quoted p @ [44] @ quoted q @ [93]"
  by (simp add: quoted_def sep_def o_def)

lemma read_level_here:
  assumes "ahead r = val_text (level_val t) @ s" "level_is tick lot t l" "rd_depth r < MAX_DEPTH"
  shows "read_level tick lot r = (Ok l, past (val_text (level_val t)) (rd_depth r) True r)"
proof -
  obtain p q where t: "t = (p, q)" by (cases t)
  let ?d = "rd_depth r"
  let ?r1 = "past [91] (?d + 1) False r"
  let ?r2 = "past ([91] @ quoted p) (?d + 1) True r"
  let ?r3 = "past ([91] @ quoted p @ [44]) (?d + 1) True r"
  let ?r4 = "past ([91] @ quoted p @ [44] @ quoted q) (?d + 1) True r"
  have msg: "ahead r = [91] @ quoted p @ [44] @ quoted q @ [93] @ s" using assms(1) level_text [of p q] t by simp
  have sp: "\<not> is_space 91" "\<not> is_space 34" "\<not> is_space 93" by (simp_all add: is_space_def)
  have a1: "ahead ?r1 = quoted p @ 44 # quoted q @ 93 # s" by (rule ahead_past) (simp add: msg)
  have a2: "ahead ?r2 = 44 # quoted q @ 93 # s" by (rule ahead_past) (simp add: msg)
  have a3: "ahead ?r3 = quoted q @ 93 # s" by (rule ahead_past) (simp add: msg)
  have a4: "ahead ?r4 = 93 # s" by (rule ahead_past) (simp add: msg)
  have b: "begin_array r = (Ok (), ?r1)" unfolding begin_array_def
    using enter_here [of r 91 "quoted p @ [44] @ quoted q @ [93] @ s"] msg sp assms(3) by simp
  have n1: "next_element ?r1 = (Ok True, ?r1)" unfolding next_element_def
    using next_member_more [of ?r1 34 "p @ 34 # 44 # quoted q @ 93 # s" 93] a1 sp by (simp add: sep_def quoted_def)
  have s1: "str_bytes ?r1 = (Ok p, ?r2)" using str_here(1) [OF a1] assms(2) t by (simp add: level_is_def)
  have n2: "next_element ?r2 = (Ok True, ?r3)" unfolding next_element_def
    using next_member_more [of ?r2 34 "q @ 34 # 93 # s" 93] a2 sp by (simp add: sep_def quoted_def)
  have s2: "str_bytes ?r3 = (Ok q, ?r4)" using str_here(1) [OF a3] assms(2) t by (simp add: level_is_def)
  have n3: "next_element ?r4 = (Ok False, past (val_text (level_val t)) ?d True r)" unfolding next_element_def
    using next_member_end [OF a4 sp(3)] level_text [of p q] t by simp
  have num: "exact_units p tick ''price'' = Ok (lv_price l)" "exact_units q lot ''qty'' = Ok (lv_qty l)"
    using assms(2) t by (simp_all add: level_is_def exact_units_def)
  show ?thesis
    using b n1 s1 n2 s2 n3 num by (simp add: read_level_def dbind_def from_json_def give_def)
qed

lemma level_val_starts: "\<exists>x. val_text (level_val t) = 91 # x"
  by (cases t) simp

lemma read_items_here:
  assumes "ahead r = elems_text a (map level_val ts) @ 93 # s" "list_all2 (level_is tick lot) ts ls" "length out + length ls \<le> limit"
    "0 < rd_depth r" "rd_depth r < MAX_DEPTH" "rd_after_value r = a"
  shows "read_items mk tick lot limit out r
    = Some (Ok (), out @ map mk ls, past (elems_text a (map level_val ts) @ [93]) (rd_depth r - 1) True r)"
  using assms
proof (induction ts arbitrary: ls out r a)
  case Nil
  have "next_element r = (Ok False, past [93] (rd_depth r - 1) True r)" unfolding next_element_def
    using next_member_end [of r 93 s] Nil by (simp add: is_space_def)
  then show ?case using Nil by (subst read_items.simps) (simp add: from_json_def)
next
  case (Cons t ts)
  obtain l ls' where ls: "ls = l # ls'" "level_is tick lot t l" "list_all2 (level_is tick lot) ts ls'"
    using Cons.prems(2) by (auto simp: list_all2_Cons1)
  obtain x where x: "val_text (level_val t) = 91 # x" using level_val_starts by blast
  let ?rest = "elems_text True (map level_val ts) @ 93 # s"
  let ?r1 = "past (sep a) (rd_depth r) a r"
  let ?r2 = "past (sep a @ val_text (level_val t)) (rd_depth r) True r"
  have ah: "ahead r = sep a @ (val_text (level_val t) @ ?rest)" using Cons.prems(1) by simp
  have n: "next_element r = (Ok True, ?r1)" unfolding next_element_def
    using next_member_more [of r 91 "x @ ?rest" 93] ah x Cons.prems(6) by (simp add: is_space_def)
  have lev: "read_level tick lot ?r1 = (Ok l, ?r2)"
    using read_level_here [OF ahead_past [OF ah] ls(2)] Cons.prems(5) by simp
  have a2: "ahead ?r2 = ?rest" by (rule ahead_past) (simp add: ah)
  have "read_items mk tick lot limit (out @ [mk l]) ?r2
      = Some (Ok (), (out @ [mk l]) @ map mk ls', past (elems_text True (map level_val ts) @ [93]) (rd_depth r - 1) True ?r2)"
    using Cons.IH [OF a2 ls(3), of "out @ [mk l]"] Cons.prems(3-5) ls(1) by simp
  then show ?case using n lev Cons.prems(3) ls(1) by (subst read_items.simps) (simp add: from_json_def)
qed

lemma read_array_here:
  assumes "ahead r = val_text (side_val ts) @ s" "list_all2 (level_is tick lot) ts ls" "length out + length ls \<le> limit" "rd_depth r + 2 \<le> MAX_DEPTH"
  shows "read_array mk tick lot limit out r = (Ok (), out @ map mk ls, past (val_text (side_val ts)) (rd_depth r) True r)"
proof -
  let ?r1 = "past [91] (rd_depth r + 1) False r"
  have ah: "ahead r = [91] @ (elems_text False (map level_val ts) @ 93 # s)" using assms(1) by (simp add: side_val_def)
  have b: "begin_array r = (Ok (), ?r1)" unfolding begin_array_def
    using enter_here [of r 91] ah assms(4) by (simp add: is_space_def)
  have "read_items mk tick lot limit out ?r1
      = Some (Ok (), out @ map mk ls, past (elems_text False (map level_val ts) @ [93]) (rd_depth ?r1 - 1) True ?r1)"
    using assms(4) by (intro read_items_here [OF ahead_past [OF ah] assms(2,3)]) simp_all
  then show ?thesis using b by (simp add: read_array_def from_json_def side_val_def)
qed

lemma level_val_ok: "level_is tick lot t l \<Longrightarrow> val_ok (Suc d) (level_val t)"
  by (cases t) (simp add: level_is_def list_all_iff)

lemma side_val_ok: "list_all2 (level_is tick lot) ts ls \<Longrightarrow> val_ok 2 (side_val ts)"
  by (induction rule: list_all2_induct) (simp_all add: side_val_def level_val_ok numeral_2_eq_2)

end
