(* ===== verification/Depth.thy ===== *)
theory Depth
  imports Levels Book_Sync "HOL-Library.Multiset"
begin

text \<open>
  \<open>crates/bowst-venue/src/binance/depth.rs\<close>: the decoders of diff-depth messages and of depth
  snapshots.  A decoder walks the members of an object in whatever order they come; a side of
  the book that comes before the symbol is remembered as the rest of the message from there and
  read at the end.
\<close>

section \<open>Diff-depth messages\<close>

record depth_update =
  du_instrument :: instrument_id
  du_event_time :: nanos
  du_range :: seq_range
  du_updates :: "level_update list"

record update_decoder =
  ud_updates :: "level_update list"
  ud_limit :: nat

record depth_fields =
  df_event_seen :: bool
  df_event_time :: "nat option"
  df_instrument :: "instrument option"
  df_first :: "nat option"
  df_last :: "nat option"
  df_deferred :: "byte list option list"
  df_sides_read :: "bool list"

definition fields_default :: depth_fields where
  "fields_default = \<lparr>df_event_seen = False, df_event_time = None, df_instrument = None, df_first = None, df_last = None,
     df_deferred = [None, None], df_sides_read = [False, False]\<rparr>"

definition SIDES :: "(side \<times> string) list" where
  "SIDES = [(Buy, ''b''), (Sell, ''a'')]"

definition update_decoder_new :: "nat \<Rightarrow> update_decoder" where
  "update_decoder_new max_levels = \<lparr>ud_updates = [], ud_limit = max_levels\<rparr>"

text \<open>What the walk over a message threads: the reader, the fields so far and the level buffer.\<close>

record depth_walk =
  dw_reader :: json_reader
  dw_fields :: depth_fields
  dw_updates :: "level_update list"

type_synonym 'a walk_op = "depth_walk \<Rightarrow> ('a, decode_error) result \<times> depth_walk"

text \<open>Reading one value and storing it in a field.\<close>

definition store :: "'a dec_op \<Rightarrow> ('a \<Rightarrow> depth_fields \<Rightarrow> depth_fields) \<Rightarrow> unit walk_op" where
  "store m upd w =
     (case m (dw_reader w) of
        (Err e, r) \<Rightarrow> (Err e, w\<lparr>dw_reader := r\<rparr>)
      | (Ok x, r) \<Rightarrow> (Ok (), w\<lparr>dw_reader := r, dw_fields := upd x (dw_fields w)\<rparr>))"

definition read_side :: "nat \<Rightarrow> side \<Rightarrow> instrument \<Rightarrow> level_update list \<Rightarrow> json_reader \<Rightarrow> (unit, decode_error) result \<times> level_update list \<times> json_reader" where
  "read_side limit sd i out r = read_updates_into sd (inst_tick i) (inst_lot i) limit out r"

definition read_event :: "unit dec_op" where
  "read_event = dbind (from_json read_str) (\<lambda>t. give (if t \<noteq> ascii ''depthUpdate'' then Err (UnexpectedValue ''e'') else Ok ()))"

definition read_symbol :: "instrument_table \<Rightarrow> instrument dec_op" where
  "read_symbol tbl = dbind (from_json read_str) (\<lambda>t. give (ok_or (table_find tbl Binance t) (UnknownSymbol (symbol_new t))))"

definition already_read :: "nat \<Rightarrow> depth_fields \<Rightarrow> bool" where
  "already_read index f \<longleftrightarrow>
     (case nth_opt (df_sides_read f) index of Some b \<Rightarrow> b | None \<Rightarrow> True)
     \<or> (case nth_opt (df_deferred f) index of Some (Some _) \<Rightarrow> True | _ \<Rightarrow> False)"

definition read_book_side :: "nat \<Rightarrow> byte list \<Rightarrow> byte list \<Rightarrow> unit walk_op" where
  "read_book_side limit message name w =
     (let index = (if name = ascii ''a'' then 1 else 0); f = dw_fields w in
      if already_read index f then (Err (UnexpectedValue (if index = 0 then ''b'' else ''a'')), w)
      else
        (case df_instrument f of
           Some i \<Rightarrow>
             (let sd = (case nth_opt SIDES index of Some (sd, _) \<Rightarrow> sd | None \<Rightarrow> Buy) in
              case read_side limit sd i (dw_updates w) (dw_reader w) of
                (Err e, out, r) \<Rightarrow> (Err e, w\<lparr>dw_updates := out, dw_reader := r\<rparr>)
              | (Ok _, out, r) \<Rightarrow>
                  (Ok (), w\<lparr>dw_updates := out, dw_reader := r, dw_fields := f\<lparr>df_sides_read := (df_sides_read f)[index := True]\<rparr>\<rparr>))
         | None \<Rightarrow>
             (let pos = position_of (dw_reader w); rest = (if pos \<le> length message then drop pos message else []) in
              store (from_json skip) (\<lambda>_ g. g) (w\<lparr>dw_fields := f\<lparr>df_deferred := (df_deferred f)[index := Some rest]\<rparr>\<rparr>))))"

definition read_member :: "nat \<Rightarrow> byte list \<Rightarrow> instrument_table \<Rightarrow> byte list \<Rightarrow> unit walk_op" where
  "read_member limit message tbl name =
     (if name = ascii ''e'' then store read_event (\<lambda>_ f. f\<lparr>df_event_seen := True\<rparr>)
      else if name = ascii ''E'' then store (from_json read_u64) (\<lambda>v f. f\<lparr>df_event_time := Some v\<rparr>)
      else if name = ascii ''s'' then store (read_symbol tbl) (\<lambda>i f. f\<lparr>df_instrument := Some i\<rparr>)
      else if name = ascii ''U'' then store (from_json read_u64) (\<lambda>v f. f\<lparr>df_first := Some v\<rparr>)
      else if name = ascii ''u'' then store (from_json read_u64) (\<lambda>v f. f\<lparr>df_last := Some v\<rparr>)
      else if name = ascii ''b'' \<or> name = ascii ''a'' then read_book_side limit message name
      else store (from_json skip) (\<lambda>_ f. f))"

text \<open>
  The loop of \<open>read_object\<close>, which calls \<open>read_object\<close> again for the envelope's data.  It is bounded by the
  input only: partial by construction, and shown to return on every message below.
\<close>

partial_function (option) object_loop ::
  "nat \<Rightarrow> byte list \<Rightarrow> instrument_table \<Rightarrow> bool \<Rightarrow> depth_walk \<Rightarrow> ((unit, decode_error) result \<times> depth_walk) option" where
  "object_loop limit message tbl envelope w =
     (case from_json next_key (dw_reader w) of
        (Err e, r) \<Rightarrow> Some (Err e, w\<lparr>dw_reader := r\<rparr>)
      | (Ok None, r) \<Rightarrow> Some (Ok (), w\<lparr>dw_reader := r\<rparr>)
      | (Ok (Some name), r) \<Rightarrow>
          if name = ascii ''data'' \<and> envelope then
            (case from_json begin_object r of
               (Err e, r1) \<Rightarrow> Some (Err e, w\<lparr>dw_reader := r1\<rparr>)
             | (Ok _, r1) \<Rightarrow>
                 Option.bind (object_loop limit message tbl False (w\<lparr>dw_reader := r1\<rparr>)) (\<lambda>(res, w1).
                   case res of Err e \<Rightarrow> Some (Err e, w1) | Ok _ \<Rightarrow> object_loop limit message tbl envelope w1))
          else
            (case read_member limit message tbl name (w\<lparr>dw_reader := r\<rparr>) of
               (Err e, w1) \<Rightarrow> Some (Err e, w1)
             | (Ok _, w1) \<Rightarrow> object_loop limit message tbl envelope w1))"

definition read_object :: "nat \<Rightarrow> byte list \<Rightarrow> instrument_table \<Rightarrow> bool \<Rightarrow> unit walk_op" where
  "read_object limit message tbl envelope w =
     (case from_json begin_object (dw_reader w) of
        (Err e, r) \<Rightarrow> (Err e, w\<lparr>dw_reader := r\<rparr>)
      | (Ok _, r) \<Rightarrow> the (object_loop limit message tbl envelope (w\<lparr>dw_reader := r\<rparr>)))"

text \<open>The sides that were put off, read from where they stood.\<close>

fun read_deferred :: "nat \<Rightarrow> instrument \<Rightarrow> ((side \<times> string) \<times> byte list option \<times> bool) list \<Rightarrow> level_update list
    \<Rightarrow> (unit, decode_error) result \<times> level_update list" where
  "read_deferred limit i [] out = (Ok (), out)"
| "read_deferred limit i (((sd, name), deferred, done) # rest) out =
     (case deferred of
        Some bs \<Rightarrow>
          (case read_side limit sd i out (reader_new bs) of
             (Err e, out1, _) \<Rightarrow> (Err e, out1)
           | (Ok _, out1, _) \<Rightarrow> read_deferred limit i rest out1)
      | None \<Rightarrow> if done then read_deferred limit i rest out else (Err (MissingField name), out))"

definition update_checks :: "instrument \<Rightarrow> depth_fields \<Rightarrow> level_update list \<Rightarrow> (depth_update, decode_error) result" where
  "update_checks i f out =
     (if \<not> df_event_seen f then Err (MissingField ''e'')
      else
        rbind (ok_or (df_first f) (MissingField ''U'')) (\<lambda>a.
        rbind (ok_or (df_last f) (MissingField ''u'')) (\<lambda>b.
        rbind (ok_or (seq_range_new a b) (InvalidSequence a b)) (\<lambda>range.
        rbind (ok_or (Option.bind (df_event_time f) from_unix_millis) (MissingField ''E'')) (\<lambda>t.
        Ok \<lparr>du_instrument = inst_id i, du_event_time = t, du_range = range, du_updates = out\<rparr>)))))"

definition decode_update :: "byte list \<Rightarrow> instrument_table \<Rightarrow> update_decoder \<Rightarrow> (depth_update, decode_error) result \<times> update_decoder" where
  "decode_update message tbl dec =
     (let limit = ud_limit dec in
      case read_object limit message tbl True \<lparr>dw_reader = reader_new message, dw_fields = fields_default, dw_updates = []\<rparr> of
        (Err e, w) \<Rightarrow> (Err e, dec\<lparr>ud_updates := dw_updates w\<rparr>)
      | (Ok _, w) \<Rightarrow>
          (case from_json finish (dw_reader w) of
             (Err e, _) \<Rightarrow> (Err e, dec\<lparr>ud_updates := dw_updates w\<rparr>)
           | (Ok _, _) \<Rightarrow>
               (case df_instrument (dw_fields w) of
                  None \<Rightarrow> (Err (MissingField ''s''), dec\<lparr>ud_updates := dw_updates w\<rparr>)
                | Some i \<Rightarrow>
                    (case read_deferred limit i (zip SIDES (zip (df_deferred (dw_fields w)) (df_sides_read (dw_fields w)))) (dw_updates w) of
                       (Err e, out) \<Rightarrow> (Err e, dec\<lparr>ud_updates := out\<rparr>)
                     | (Ok _, out) \<Rightarrow> (update_checks i (dw_fields w) out, dec\<lparr>ud_updates := out\<rparr>)))))"

section \<open>Depth snapshots\<close>

record depth_snapshot =
  dp_last_update_id :: nat
  dp_bids :: "level list"
  dp_asks :: "level list"

record snapshot_decoder =
  sd_bids :: "level list"
  sd_asks :: "level list"
  sd_limit :: nat

definition snapshot_decoder_new :: "nat \<Rightarrow> snapshot_decoder" where
  "snapshot_decoder_new max_levels = \<lparr>sd_bids = [], sd_asks = [], sd_limit = max_levels\<rparr>"

record snapshot_walk =
  sw_reader :: json_reader
  sw_last_update_id :: "nat option"
  sw_seen_bids :: bool
  sw_seen_asks :: bool
  sw_bids :: "level list"
  sw_asks :: "level list"

definition snapshot_member :: "nat \<Rightarrow> instrument \<Rightarrow> byte list \<Rightarrow> snapshot_walk \<Rightarrow> (unit, decode_error) result \<times> snapshot_walk" where
  "snapshot_member limit i name w =
     (if name = ascii ''lastUpdateId'' then
        (case from_json read_u64 (sw_reader w) of
           (Err e, r) \<Rightarrow> (Err e, w\<lparr>sw_reader := r\<rparr>) | (Ok v, r) \<Rightarrow> (Ok (), w\<lparr>sw_reader := r, sw_last_update_id := Some v\<rparr>))
      else if name = ascii ''bids'' then
        (case read_levels_into (inst_tick i) (inst_lot i) limit (sw_bids w) (sw_reader w) of
           (Err e, out, r) \<Rightarrow> (Err e, w\<lparr>sw_reader := r, sw_bids := out\<rparr>)
         | (Ok _, out, r) \<Rightarrow> (Ok (), w\<lparr>sw_reader := r, sw_bids := out, sw_seen_bids := True\<rparr>))
      else if name = ascii ''asks'' then
        (case read_levels_into (inst_tick i) (inst_lot i) limit (sw_asks w) (sw_reader w) of
           (Err e, out, r) \<Rightarrow> (Err e, w\<lparr>sw_reader := r, sw_asks := out\<rparr>)
         | (Ok _, out, r) \<Rightarrow> (Ok (), w\<lparr>sw_reader := r, sw_asks := out, sw_seen_asks := True\<rparr>))
      else
        (case from_json skip (sw_reader w) of (Err e, r) \<Rightarrow> (Err e, w\<lparr>sw_reader := r\<rparr>) | (Ok _, r) \<Rightarrow> (Ok (), w\<lparr>sw_reader := r\<rparr>)))"

partial_function (option) snapshot_loop :: "nat \<Rightarrow> instrument \<Rightarrow> snapshot_walk \<Rightarrow> ((unit, decode_error) result \<times> snapshot_walk) option" where
  "snapshot_loop limit i w =
     (case from_json next_key (sw_reader w) of
        (Err e, r) \<Rightarrow> Some (Err e, w\<lparr>sw_reader := r\<rparr>)
      | (Ok None, r) \<Rightarrow> Some (Ok (), w\<lparr>sw_reader := r\<rparr>)
      | (Ok (Some name), r) \<Rightarrow>
          (case snapshot_member limit i name (w\<lparr>sw_reader := r\<rparr>) of
             (Err e, w1) \<Rightarrow> Some (Err e, w1)
           | (Ok _, w1) \<Rightarrow> snapshot_loop limit i w1))"

definition snapshot_checks :: "snapshot_walk \<Rightarrow> (depth_snapshot, decode_error) result" where
  "snapshot_checks w =
     (if \<not> sw_seen_bids w then Err (MissingField ''bids'')
      else if \<not> sw_seen_asks w then Err (MissingField ''asks'')
      else
        rbind (ok_or (sw_last_update_id w) (MissingField ''lastUpdateId'')) (\<lambda>n.
        Ok \<lparr>dp_last_update_id = n, dp_bids = sw_bids w, dp_asks = sw_asks w\<rparr>))"

definition decode_snapshot :: "byte list \<Rightarrow> instrument \<Rightarrow> snapshot_decoder \<Rightarrow> (depth_snapshot, decode_error) result \<times> snapshot_decoder" where
  "decode_snapshot message i dec =
     (let limit = sd_limit dec;
          w0 = \<lparr>sw_reader = reader_new message, sw_last_update_id = None, sw_seen_bids = False, sw_seen_asks = False, sw_bids = [], sw_asks = []\<rparr>;
          (res, w) =
            (case from_json begin_object (sw_reader w0) of
               (Err e, r) \<Rightarrow> (Err e, w0\<lparr>sw_reader := r\<rparr>)
             | (Ok _, r) \<Rightarrow> the (snapshot_loop limit i (w0\<lparr>sw_reader := r\<rparr>)))
      in (rbind res (\<lambda>_. rbind (fst (from_json finish (sw_reader w))) (\<lambda>_. snapshot_checks w)),
          dec\<lparr>sd_bids := sw_bids w, sd_asks := sw_asks w\<rparr>))"

section \<open>Decoding always returns\<close>

lemma skip_advances: "reader_wf r \<Longrightarrow> advances 0 (from_json skip r) r"
proof (rule from_json_advances)
  assume "reader_wf r"
  then obtain res r' where "skip_loop ValueMode r = Some (res, r')" "skip_post ValueMode r res r'" using skip_loop_total by blast
  then show "advances 0 (skip r) r" by (auto simp: skip_def skip_post_def advances_def intro: moved_weaken split: if_splits)
qed

lemma u64_loop_range: "u64_loop bs p v = (res, q) \<Longrightarrow> p \<le> q \<and> q \<le> p + length bs"
  by (induction bs p v rule: u64_loop.induct) (fastforce split: if_splits option.splits)+

lemma u64_advances: "reader_wf r \<Longrightarrow> advances 0 (from_json read_u64 r) r"
proof (rule from_json_advances)
  assume wf: "reader_wf r"
  let ?r = "skip_whitespace r"
  have m: "moved 0 r ?r" by (rule skip_whitespace_moved [OF wf])
  obtain res q where u: "u64_loop (drop (rd_pos ?r) (rd_buf r)) (rd_pos ?r) 0 = (res, q)"
    by (cases "u64_loop (drop (rd_pos ?r) (rd_buf r)) (rd_pos ?r) 0")
  then show "advances 0 (read_u64 r) r"
    using u64_loop_range [OF u] m by (auto simp: read_u64_def advances_def moved_def Let_def split: option.splits)
qed

lemma str_advances: "reader_wf r \<Longrightarrow> advances 0 (from_json read_str r) r"
  by (rule from_json_advances, cases "read_str r")
    (use read_str_moved(1) in \<open>fastforce simp: advances_def intro: moved_weaken split: if_splits\<close>)

lemma advances_moved: "advances 0 (res, r') r \<Longrightarrow> moved 0 r r'"
  by (simp add: advances_def)

lemma event_advances: "reader_wf r \<Longrightarrow> advances 0 (read_event r) r" "reader_wf r \<Longrightarrow> advances 0 (read_symbol tbl r) r"
  unfolding read_event_def read_symbol_def
  by (rule dbind_advances [where k = 0 and l = 0, unfolded add_0], erule str_advances, erule give_advances)+

lemma store_moved:
  assumes "reader_wf (dw_reader w)" "advances 0 (m (dw_reader w)) (dw_reader w)" "store m upd w = (res, w')"
  shows "moved 0 (dw_reader w) (dw_reader w')"
  using assms by (auto simp: store_def advances_def split: prod.splits result.splits)

lemma store_skip_moved:
  assumes "reader_wf (dw_reader w)" "store (from_json skip) upd w = (res, w')"
  shows "moved 0 (dw_reader w) (dw_reader w')"
  by (rule store_moved [OF assms(1) _ assms(2)]) (rule skip_advances [OF assms(1)])

lemma read_book_side_moved:
  assumes "reader_wf (dw_reader w)" "read_book_side limit message name w = (res, w')"
  shows "moved 0 (dw_reader w) (dw_reader w')"
proof (cases "df_instrument (dw_fields w)")
  case None
  then show ?thesis
    using assms store_skip_moved [of "w\<lparr>dw_fields := x\<rparr>" for x] moved_refl [OF assms(1)]
    by (fastforce simp: read_book_side_def Let_def split: if_splits)
next
  case (Some i)
  then show ?thesis
    using assms(2) read_array_moved [OF assms(1)] moved_refl [OF assms(1)]
    by (fastforce simp: read_book_side_def read_side_def read_updates_into_def Let_def split: if_splits prod.splits result.splits)
qed

lemma read_member_moved:
  assumes "reader_wf (dw_reader w)" "read_member limit message tbl name w = (res, w')"
  shows "moved 0 (dw_reader w) (dw_reader w')"
proof -
  have u: "moved 0 (dw_reader w) (dw_reader w')" if "store (from_json read_u64) upd w = (res, w')" for upd
    by (rule store_moved [OF assms(1) _ that]) (rule u64_advances [OF assms(1)])
  have e: "moved 0 (dw_reader w) (dw_reader w')" if "store read_event upd w = (res, w')" for upd
    by (rule store_moved [OF assms(1) _ that]) (rule event_advances(1) [OF assms(1)])
  have s: "moved 0 (dw_reader w) (dw_reader w')" if "store (read_symbol tbl) upd w = (res, w')" for upd
    by (rule store_moved [OF assms(1) _ that]) (rule event_advances(2) [OF assms(1)])
  show ?thesis
    using assms(2) unfolding read_member_def
    by (auto split: if_splits intro: u e s store_skip_moved [OF assms(1)] read_book_side_moved [OF assms(1)])
qed

lemma next_key_from_json:
  assumes "reader_wf r" "from_json next_key r = (res, r')"
  shows "moved (if res \<in> {Ok None} \<or> (\<exists>k. res = Ok (Some k)) then 1 else 0) r r'"
proof (cases "next_key r")
  case (Pair res1 r1)
  then show ?thesis using assms next_key_moved [OF assms(1) Pair]
    by (cases res1) (auto simp: from_json_def intro: moved_weaken [of 3])
qed

lemma moved_shrinks: "moved 1 a b \<Longrightarrow> length (rd_buf b) - rd_pos b < length (rd_buf a) - rd_pos a"
  by (auto simp: moved_def)

lemma object_loop_returns:
  assumes "reader_wf (dw_reader w)"
  shows "\<exists>res w'. object_loop limit message tbl env w = Some (res, w') \<and> moved 0 (dw_reader w) (dw_reader w')"
  using assms
proof (induction "length (rd_buf (dw_reader w)) - rd_pos (dw_reader w)" arbitrary: w env rule: less_induct)
  case less
  have again: "\<exists>res w''. object_loop limit message tbl e w' = Some (res, w'') \<and> moved 0 (dw_reader w) (dw_reader w'')"
    if "moved 1 (dw_reader w) (dw_reader w')" for e w'
    using less.hyps [OF moved_shrinks [OF that] moved_wf [OF that], of e] moved_trans [OF that] by (fastforce intro: moved_weaken)
  obtain res r where k: "from_json next_key (dw_reader w) = (res, r)" by (cases "from_json next_key (dw_reader w)")
  have m0: "moved 0 (dw_reader w) r" using next_key_from_json [OF less.prems k] by (auto intro: moved_weaken split: if_splits)
  consider (stop) "\<forall>name. res \<noteq> Ok (Some name)" | (member) name where "res = Ok (Some name)" by blast
  then show ?case
  proof cases
    case stop
    then show ?thesis using k m0 by (subst object_loop.simps) (auto split: result.splits option.splits)
  next
    case member
    have m: "moved 1 (dw_reader w) r" using next_key_from_json [OF less.prems k] member by simp
    show ?thesis
    proof (cases "name = ascii ''data'' \<and> env")
      case True
      obtain res1 r1 where b: "from_json begin_object r = (res1, r1)" by (cases "from_json begin_object r")
      have m1: "moved 1 (dw_reader w) r1"
        using moved_trans [OF m, of 0 r1] begin_advances(2) [OF moved_wf [OF m]] b
        by (auto simp: advances_def intro: moved_weaken split: if_splits)
      obtain res2 w2 where inner: "object_loop limit message tbl False (w\<lparr>dw_reader := r1\<rparr>) = Some (res2, w2)" "moved 0 r1 (dw_reader w2)"
        using less.hyps [of "w\<lparr>dw_reader := r1\<rparr>" False] moved_shrinks [OF m1] moved_wf [OF m1] by auto
      have m2: "moved 1 (dw_reader w) (dw_reader w2)" using moved_trans [OF m1 inner(2)] by simp
      show ?thesis using k member True b inner(1) again [OF m2, of env] moved_weaken [OF m1] moved_weaken [OF m2]
        by (subst object_loop.simps) (cases res1; cases res2; simp)
    next
      case False
      obtain res1 w1 where rm: "read_member limit message tbl name (w\<lparr>dw_reader := r\<rparr>) = (res1, w1)"
        by (cases "read_member limit message tbl name (w\<lparr>dw_reader := r\<rparr>)")
      have m1: "moved 1 (dw_reader w) (dw_reader w1)"
        using moved_trans [OF m read_member_moved [OF _ rm, simplified]] moved_wf [OF m] by simp
      show ?thesis using k member False rm again [OF m1, of env] moved_weaken [OF m1]
        by (subst object_loop.simps) (cases res1; auto)
    qed
  qed
qed

lemma snapshot_member_moved:
  assumes "reader_wf (sw_reader w)" "snapshot_member limit i name w = (res, w')"
  shows "moved 0 (sw_reader w) (sw_reader w')"
  using assms(2) read_array_moved [OF assms(1)] u64_advances [OF assms(1)] skip_advances [OF assms(1)]
  by (fastforce simp: snapshot_member_def read_levels_into_def advances_def split: if_splits prod.splits result.splits)

lemma snapshot_loop_returns:
  assumes "reader_wf (sw_reader w)"
  shows "\<exists>res w'. snapshot_loop limit i w = Some (res, w')"
  using assms
proof (induction "length (rd_buf (sw_reader w)) - rd_pos (sw_reader w)" arbitrary: w rule: less_induct)
  case less
  obtain res r where k: "from_json next_key (sw_reader w) = (res, r)" by (cases "from_json next_key (sw_reader w)")
  consider (stop) "\<forall>name. res \<noteq> Ok (Some name)" | (member) name where "res = Ok (Some name)" by blast
  then show ?case
  proof cases
    case stop
    then show ?thesis using k by (subst snapshot_loop.simps) (auto split: result.splits option.splits)
  next
    case member
    have m: "moved 1 (sw_reader w) r" using next_key_from_json [OF less.prems k] member by simp
    obtain res1 w1 where rm: "snapshot_member limit i name (w\<lparr>sw_reader := r\<rparr>) = (res1, w1)"
      by (cases "snapshot_member limit i name (w\<lparr>sw_reader := r\<rparr>)")
    have m1: "moved 1 (sw_reader w) (sw_reader w1)"
      using moved_trans [OF m snapshot_member_moved [OF _ rm, simplified]] moved_wf [OF m] by simp
    from less.hyps [OF moved_shrinks [OF m1] moved_wf [OF m1]] show ?thesis using k member rm
      by (subst snapshot_loop.simps) (cases res1; simp)
  qed
qed

section \<open>What a message says\<close>

text \<open>The members of a diff-depth message; unknown ones may stand anywhere.\<close>

datatype depth_member =
    MEvent
  | MTime nat
  | MSymbol "byte list"
  | MFirst nat
  | MLast nat
  | MSide side "level_txt list"
  | MOther "byte list" jval

definition string_val :: "byte list \<Rightarrow> jval" where
  "string_val t = JString (map Plain t)"

fun side_key :: "side \<Rightarrow> byte list" where
  "side_key Buy = ascii ''b''"
| "side_key Sell = ascii ''a''"

fun member_pair :: "depth_member \<Rightarrow> byte list \<times> jval" where
  "member_pair MEvent = (ascii ''e'', string_val (ascii ''depthUpdate''))"
| "member_pair (MTime n) = (ascii ''E'', JNumber (show_nat n))"
| "member_pair (MSymbol t) = (ascii ''s'', string_val t)"
| "member_pair (MFirst n) = (ascii ''U'', JNumber (show_nat n))"
| "member_pair (MLast n) = (ascii ''u'', JNumber (show_nat n))"
| "member_pair (MSide sd ts) = (side_key sd, side_val ts)"
| "member_pair (MOther k v) = (k, v)"

record depth_msg =
  mg_time :: nat
  mg_symbol :: "byte list"
  mg_first :: nat
  mg_last :: nat
  mg_txt :: "side \<Rightarrow> level_txt list"
  mg_levels :: "side \<Rightarrow> level list"
  mg_inst :: instrument

definition core_members :: "depth_msg \<Rightarrow> depth_member list" where
  "core_members m = [MEvent, MTime (mg_time m), MSymbol (mg_symbol m), MFirst (mg_first m), MLast (mg_last m),
     MSide Buy (mg_txt m Buy), MSide Sell (mg_txt m Sell)]"

definition known_keys :: "byte list list" where
  "known_keys = map ascii [''data'', ''e'', ''E'', ''s'', ''U'', ''u'', ''b'', ''a'']"

fun other_ok :: "depth_member \<Rightarrow> bool" where
  "other_ok (MOther k v) \<longleftrightarrow> k \<notin> set known_keys \<and> list_all plain k \<and> utf8_valid k \<and> val_ok 29 v"
| "other_ok _ \<longleftrightarrow> False"

text \<open>The texts are the levels, the symbol is known, and everything fits.\<close>

definition msg_ok :: "instrument_table \<Rightarrow> nat \<Rightarrow> depth_msg \<Rightarrow> bool" where
  "msg_ok tbl limit m \<longleftrightarrow> table_find tbl Binance (mg_symbol m) = Some (mg_inst m)
     \<and> list_all plain (mg_symbol m) \<and> utf8_valid (mg_symbol m)
     \<and> list_all2 (level_is (inst_tick (mg_inst m)) (inst_lot (mg_inst m))) (mg_txt m Buy) (mg_levels m Buy)
     \<and> list_all2 (level_is (inst_tick (mg_inst m)) (inst_lot (mg_inst m))) (mg_txt m Sell) (mg_levels m Sell)
     \<and> length (mg_levels m Buy) + length (mg_levels m Sell) \<le> limit
     \<and> mg_first m \<le> mg_last m \<and> mg_last m < 2 ^ 64 \<and> mg_time m * 1000000 < 2 ^ 64"

definition as_update :: "side \<Rightarrow> level \<Rightarrow> level_update" where
  "as_update sd l = \<lparr>lu_side = sd, lu_price = lv_price l, lu_qty = lv_qty l\<rparr>"

definition of_side :: "side \<Rightarrow> level_update list \<Rightarrow> level_update list" where
  "of_side sd us = filter (\<lambda>u. lu_side u = sd) us"

lemma of_side_simps [simp]:
  "of_side sd [] = []" "of_side sd (a @ b) = of_side sd a @ of_side sd b"
  "of_side sd (map (as_update sd') ls) = (if sd = sd' then map (as_update sd') ls else [])"
  by (auto simp: of_side_def as_update_def filter_map o_def)

lemma length_of_sides: "length us = length (of_side Buy us) + length (of_side Sell us)"
proof (induction us)
  case (Cons u us)
  then show ?case by (cases "lu_side u") (simp_all add: of_side_def)
qed simp

fun side_index :: "side \<Rightarrow> nat" where
  "side_index Buy = 0"
| "side_index Sell = 1"

section \<open>The walk over a message\<close>

text \<open>What the walk knows after the members \<open>seen\<close>, whatever their order.\<close>

definition side_inv :: "depth_msg \<Rightarrow> depth_member set \<Rightarrow> depth_walk \<Rightarrow> side \<Rightarrow> bool" where
  "side_inv m seen w sd \<longleftrightarrow>
     (let d = df_deferred (dw_fields w) ! side_index sd; rd = df_sides_read (dw_fields w) ! side_index sd; ups = of_side sd (dw_updates w) in
      if MSide sd (mg_txt m sd) \<in> seen
      then rd \<and> d = None \<and> ups = map (as_update sd) (mg_levels m sd)
        \<or> \<not> rd \<and> (\<exists>tail. d = Some (val_text (side_val (mg_txt m sd)) @ tail)) \<and> ups = []
      else \<not> rd \<and> d = None \<and> ups = [])"

definition walk_inv :: "depth_msg \<Rightarrow> depth_member set \<Rightarrow> depth_walk \<Rightarrow> bool" where
  "walk_inv m seen w \<longleftrightarrow>
     df_event_seen (dw_fields w) = (MEvent \<in> seen)
     \<and> df_event_time (dw_fields w) = (if MTime (mg_time m) \<in> seen then Some (mg_time m) else None)
     \<and> df_instrument (dw_fields w) = (if MSymbol (mg_symbol m) \<in> seen then Some (mg_inst m) else None)
     \<and> df_first (dw_fields w) = (if MFirst (mg_first m) \<in> seen then Some (mg_first m) else None)
     \<and> df_last (dw_fields w) = (if MLast (mg_last m) \<in> seen then Some (mg_last m) else None)
     \<and> length (df_deferred (dw_fields w)) = 2 \<and> length (df_sides_read (dw_fields w)) = 2
     \<and> side_inv m seen w Buy \<and> side_inv m seen w Sell"

lemma walk_inv_reader [simp]:
  "walk_inv m seen (w\<lparr>dw_reader := r\<rparr>) = walk_inv m seen w"
  "walk_inv m seen (w\<lparr>dw_reader := r, dw_fields := f\<rparr>) = walk_inv m seen (w\<lparr>dw_fields := f\<rparr>)"
  "walk_inv m seen (w\<lparr>dw_reader := r, dw_fields := f, dw_updates := us\<rparr>) = walk_inv m seen (w\<lparr>dw_fields := f, dw_updates := us\<rparr>)"
  by (simp_all add: walk_inv_def side_inv_def)

lemma string_text: "val_text (string_val t) = quoted t"
  by (simp add: string_val_def quoted_def)

lemma from_json_Ok: "m r = (Ok x, r') \<Longrightarrow> from_json m r = (Ok x, r')"
  by (simp add: from_json_def)

text \<open>One member of each kind, read where it stands.\<close>

definition reads :: "unit walk_op \<Rightarrow> depth_walk \<Rightarrow> byte list \<Rightarrow> depth_msg \<Rightarrow> depth_member set \<Rightarrow> bool" where
  "reads oper w c m seen \<longleftrightarrow>
     (\<exists>w'. oper w = (Ok (), w') \<and> dw_reader w' = past c (rd_depth (dw_reader w)) True (dw_reader w) \<and> walk_inv m seen w')"

lemma store_reads:
  assumes "op (dw_reader w) = (Ok x, past c (rd_depth (dw_reader w)) True (dw_reader w))"
    "walk_inv m seen (w\<lparr>dw_fields := upd x (dw_fields w)\<rparr>)"
  shows "reads (store op upd) w c m seen"
  using assms by (simp add: reads_def store_def)

lemma keys_differ [simp]:
  "ascii ''e'' = [101]" "ascii ''E'' = [69]" "ascii ''s'' = [115]" "ascii ''U'' = [85]" "ascii ''u'' = [117]"
  "ascii ''b'' = [98]" "ascii ''a'' = [97]" "ascii ''data'' = [100, 97, 116, 97]"
  by (simp_all add: ascii_def of_char_def)

lemma member_reads:
  assumes inv: "walk_inv m seen w" and ok: "msg_ok tbl limit m" and x: "x \<in> set (core_members m)" "x \<notin> seen"
    and ah: "ahead (dw_reader w) = val_text (snd (member_pair x)) @ s" "delim s" "rd_depth (dw_reader w) + 3 \<le> MAX_DEPTH"
    and buf: "rd_buf (dw_reader w) = message" "\<forall>sd ts. x \<noteq> MSide sd ts"
  shows "reads (read_member limit message tbl (fst (member_pair x))) w (val_text (snd (member_pair x))) m (insert x seen)"
proof -
  let ?r = "dw_reader w"
  have num: "from_json read_u64 ?r = (Ok n, past (show_nat n) (rd_depth ?r) True ?r)" if "snd (member_pair x) = JNumber (show_nat n)" "n < 2 ^ 64" for n
    using that read_u64_shown [of ?r n s] ah by (intro from_json_Ok) simp
  have str: "from_json read_str ?r = (Ok t, past (quoted t) (rd_depth ?r) True ?r)"
    if "snd (member_pair x) = string_val t" "list_all plain t" "utf8_valid t" for t
    using that str_here(2) [of ?r t s] ah by (intro from_json_Ok) (simp add: string_text)
  have dep: "list_all plain (ascii ''depthUpdate'')" "utf8_valid (ascii ''depthUpdate'')" by (simp_all add: ascii_def of_char_def plain_def)
  show ?thesis
    using x inv ok num str dep buf(2)
    by (auto simp: core_members_def read_member_def msg_ok_def string_text read_event_def read_symbol_def dbind_def give_def
        walk_inv_def side_inv_def Let_def intro!: store_reads)
qed

lemma side_levels:
  assumes "msg_ok tbl limit m"
  shows "list_all2 (level_is (inst_tick (mg_inst m)) (inst_lot (mg_inst m))) (mg_txt m sd) (mg_levels m sd)"
  using assms by (cases sd) (auto simp: msg_ok_def)

lemma side_room:
  assumes "walk_inv m seen w" "msg_ok tbl limit m" "MSide sd (mg_txt m sd) \<notin> seen"
  shows "length (dw_updates w) + length (mg_levels m sd) \<le> limit"
  using assms length_of_sides [of "dw_updates w"]
  by (cases sd) (auto simp: walk_inv_def side_inv_def msg_ok_def Let_def split: if_splits)

lemma side_key_index: "side_key sd = ascii ''a'' \<longleftrightarrow> sd = Sell" "side_key sd = ascii ''b'' \<or> side_key sd = ascii ''a''"
  "(case nth_opt SIDES (side_index sd) of Some (s, _) \<Rightarrow> s | None \<Rightarrow> Buy) = sd"
  by (cases sd; simp add: SIDES_def nth_opt_def)+

lemma side_reads:
  assumes inv: "walk_inv m seen w" and ok: "msg_ok tbl limit m" and x: "MSide sd (mg_txt m sd) \<notin> seen"
    and ah: "ahead (dw_reader w) = val_text (side_val (mg_txt m sd)) @ s" "delim s" "rd_depth (dw_reader w) + 3 \<le> MAX_DEPTH"
    and buf: "rd_buf (dw_reader w) = message" "rd_pos (dw_reader w) \<le> length message"
  shows "reads (read_book_side limit message (side_key sd)) w (val_text (side_val (mg_txt m sd))) m (insert (MSide sd (mg_txt m sd)) seen)"
proof -
  let ?f = "dw_fields w" and ?r = "dw_reader w" and ?i = "side_index sd" and ?c = "val_text (side_val (mg_txt m sd))"
  have idx: "(if side_key sd = ascii ''a'' then 1 else 0) = ?i" by (cases sd) simp_all
  have len: "length (df_deferred ?f) = 2" "length (df_sides_read ?f) = 2" using inv by (auto simp: walk_inv_def)
  have i: "?i < 2" by (cases sd) simp_all
  have fresh: "\<not> already_read ?i ?f"
    using inv x len i by (cases sd) (auto simp: walk_inv_def side_inv_def already_read_def nth_opt_def Let_def)
  show ?thesis
  proof (cases "MSymbol (mg_symbol m) \<in> seen")
    case True
    then have inst: "df_instrument ?f = Some (mg_inst m)" using inv by (simp add: walk_inv_def)
    have read: "read_side limit sd (mg_inst m) (dw_updates w) ?r
        = (Ok (), dw_updates w @ map (as_update sd) (mg_levels m sd), past ?c (rd_depth ?r) True ?r)"
      using read_array_here [OF ah(1) side_levels [OF ok] side_room [OF inv ok x], of "as_update sd"] ah(3)
      by (simp add: read_side_def read_updates_into_def as_update_def [abs_def])
    show ?thesis
      using inst read fresh idx side_key_index(3) [of sd] inv x len i
      by (cases sd) (auto simp: reads_def read_book_side_def Let_def walk_inv_def side_inv_def split: if_splits)
  next
    case False
    then have inst: "df_instrument ?f = None" using inv by (simp add: walk_inv_def)
    have skip: "from_json skip ?r = (Ok (), past ?c (rd_depth ?r) True ?r)"
      using skip_here [OF side_val_ok [OF side_levels [OF ok]] ah(1,2)] ah(3) by (intro from_json_Ok) (simp add: skip_def)
    have rest: "drop (rd_pos ?r) message = ?c @ s" using ah(1) buf(1) by (simp add: ahead_def)
    show ?thesis
      using inst skip rest fresh idx inv x len i buf
      by (cases sd) (auto simp: reads_def read_book_side_def position_of_def store_def Let_def walk_inv_def side_inv_def nth_list_update split: if_splits)
  qed
qed

lemma other_reads:
  assumes inv: "walk_inv m seen w" and x: "other_ok (MOther k v)"
    and ah: "ahead (dw_reader w) = val_text v @ s" "delim s" "rd_depth (dw_reader w) + 29 \<le> MAX_DEPTH"
  shows "reads (read_member limit message tbl k) w (val_text v) m seen"
proof -
  have "from_json skip (dw_reader w) = (Ok (), past (val_text v) (rd_depth (dw_reader w)) True (dw_reader w))"
    using skip_here [of 29 v "dw_reader w" s] x ah by (intro from_json_Ok) (simp add: skip_def)
  then show ?thesis using x inv
    by (auto simp: read_member_def known_keys_def intro!: store_reads)
qed

lemma core_kinds:
  assumes "x \<in> set (core_members m)"
  obtains "\<forall>sd ts. x \<noteq> MSide sd ts" "fst (member_pair x) \<noteq> ascii ''data''" "list_all plain (fst (member_pair x))" "utf8_valid (fst (member_pair x))"
  | sd where "x = MSide sd (mg_txt m sd)"
  using assms by (auto simp: core_members_def plain_def)

lemma any_member_reads:
  assumes "walk_inv m seen w" "msg_ok tbl limit m" "x \<in> set (core_members m) - seen \<or> other_ok x"
    "ahead (dw_reader w) = val_text (snd (member_pair x)) @ s" "delim s" "rd_depth (dw_reader w) + 29 \<le> MAX_DEPTH"
    "rd_buf (dw_reader w) = message" "rd_pos (dw_reader w) \<le> length message"
  shows "reads (read_member limit message tbl (fst (member_pair x))) w (val_text (snd (member_pair x))) m
    (if other_ok x then seen else insert x seen)"
proof (cases "other_ok x")
  case True
  then obtain k v where "x = MOther k v" by (cases x) auto
  then show ?thesis using other_reads [OF assms(1), of k v s] assms True by simp
next
  case False
  then have x: "x \<in> set (core_members m)" "x \<notin> seen" using assms(3) by auto
  show ?thesis using x(1)
  proof (cases rule: core_kinds)
    case 1
    then show ?thesis using member_reads [OF assms(1,2) x assms(4,5) _ assms(7)] assms(6) False by simp
  next
    case (2 sd)
    have "read_member limit message tbl (side_key sd) = read_book_side limit message (side_key sd)"
      by (cases sd) (simp_all add: read_member_def)
    then show ?thesis using side_reads [OF assms(1,2), of sd s message] x assms False 2 by simp
  qed
qed

lemma member_key_ok:
  assumes "x \<in> set (core_members m) \<or> other_ok x"
  shows "fst (member_pair x) \<noteq> ascii ''data''" "list_all plain (fst (member_pair x))" "utf8_valid (fst (member_pair x))"
proof -
  have "fst (member_pair x) \<noteq> ascii ''data'' \<and> list_all plain (fst (member_pair x)) \<and> utf8_valid (fst (member_pair x))"
  proof (cases "other_ok x")
    case True
    then show ?thesis by (cases x) (auto simp: known_keys_def)
  next
    case False
    then have "x \<in> set (core_members m)" using assms by simp
    then show ?thesis
    proof (cases rule: core_kinds)
      case (2 sd)
      then show ?thesis by (cases sd) (simp_all add: plain_def)
    qed simp
  qed
  then show "fst (member_pair x) \<noteq> ascii ''data''" "list_all plain (fst (member_pair x))" "utf8_valid (fst (member_pair x))" by auto
qed

lemma members_text_append: "members_text a (xs @ ys) = members_text a xs @ members_text (a \<or> xs \<noteq> []) ys"
proof (induction xs arbitrary: a)
  case (Cons x xs)
  then show ?case by (cases x) simp
qed simp

lemma delim_members: "delim (members_text True kvs @ 125 # s)" "delim s' \<Longrightarrow> delim (members_text True kvs @ s')"
  by (cases kvs rule: list.exhaust; auto simp: delim_def is_number_byte_def is_digit_def sep_def split: list.splits)+

text \<open>The loop takes the members one after the other.\<close>

lemma object_members:
  assumes "walk_inv m seen w" "msg_ok tbl limit m"
    "list_all (\<lambda>x. x \<in> set (core_members m) \<or> other_ok x) xs" "distinct (filter (\<lambda>x. \<not> other_ok x) xs)" "set xs \<inter> seen = {}"
    "ahead (dw_reader w) = members_text a (map member_pair xs) @ s" "delim s" "rd_depth (dw_reader w) + 29 \<le> MAX_DEPTH"
    "rd_buf (dw_reader w) = message" "rd_after_value (dw_reader w) = a" "\<forall>x\<in>seen. \<not> other_ok x"
  shows "\<exists>w'. object_loop limit message tbl env w = object_loop limit message tbl env w'
    \<and> dw_reader w' = past (members_text a (map member_pair xs)) (rd_depth (dw_reader w)) (a \<or> xs \<noteq> []) (dw_reader w)
    \<and> walk_inv m (seen \<union> {x \<in> set xs. \<not> other_ok x}) w'"
  using assms
proof (induction xs arbitrary: w a seen)
  case Nil
  then show ?case by (intro exI [of _ w]) (use past_here [of "dw_reader w"] in simp)
next
  case (Cons x xs)
  let ?r = "dw_reader w" and ?k = "fst (member_pair x)" and ?v = "snd (member_pair x)"
  let ?rest = "members_text True (map member_pair xs) @ s"
  have x: "x \<in> set (core_members m) \<or> other_ok x" "x \<notin> seen" using Cons.prems(3,5) by auto
  have ah: "ahead ?r = (sep a @ key_text ?k) @ (val_text ?v @ ?rest)" using Cons.prems(6) by (cases "member_pair x") simp
  let ?r1 = "past (sep a @ key_text ?k) (rd_depth ?r) False ?r"
  have nk: "from_json next_key ?r = (Ok (Some ?k), ?r1)"
    using next_key_here [of ?r ?k] ah member_key_ok [OF x(1)] Cons.prems(10) by (intro from_json_Ok) simp
  have a1: "ahead ?r1 = val_text ?v @ ?rest" by (rule ahead_past [OF ah])
  have pos: "rd_pos ?r1 \<le> length message"
    using arg_cong [OF ah, of length] Cons.prems(9) by (simp add: ahead_def past_def key_text_def quoted_def)
  have dl: "delim ?rest" by (rule delim_members(2) [OF Cons.prems(7)])
  obtain w1 where w1: "read_member limit message tbl ?k (w\<lparr>dw_reader := ?r1\<rparr>) = (Ok (), w1)"
    "dw_reader w1 = past (val_text ?v) (rd_depth ?r) True ?r1" "walk_inv m (if other_ok x then seen else insert x seen) w1"
    using any_member_reads [of m seen "w\<lparr>dw_reader := ?r1\<rparr>" tbl limit x ?rest message] Cons.prems(1,2,8,9) x a1 dl pos
    by (auto simp: reads_def)
  have step: "object_loop limit message tbl env w = object_loop limit message tbl env w1"
    using nk w1(1) member_key_ok(1) [OF x(1)] by (subst object_loop.simps) simp
  have rd: "dw_reader w1 = past (sep a @ key_text ?k @ val_text ?v) (rd_depth ?r) True ?r" using w1(2) by simp
  have a2: "ahead (dw_reader w1) = ?rest" unfolding rd by (rule ahead_past) (simp add: ah)
  let ?seen = "if other_ok x then seen else insert x seen"
  have dist: "distinct (filter (\<lambda>x. \<not> other_ok x) xs)" "set xs \<inter> ?seen = {}"
    using Cons.prems(4,5) by (auto split: if_splits)
  have rest_ok: "list_all (\<lambda>x. x \<in> set (core_members m) \<or> other_ok x) xs" using Cons.prems(3) by simp
  have seen_ok: "\<forall>x\<in>?seen. \<not> other_ok x" using Cons.prems(11) by auto
  have now: "rd_depth (dw_reader w1) + 29 \<le> MAX_DEPTH" "rd_buf (dw_reader w1) = message" "rd_after_value (dw_reader w1) = True"
    using Cons.prems(8,9) rd by simp_all
  obtain w' where w': "object_loop limit message tbl env w1 = object_loop limit message tbl env w'"
    "dw_reader w' = past (members_text True (map member_pair xs)) (rd_depth (dw_reader w1)) (True \<or> xs \<noteq> []) (dw_reader w1)"
    "walk_inv m (?seen \<union> {x \<in> set xs. \<not> other_ok x}) w'"
    using Cons.IH [OF w1(3) Cons.prems(2) rest_ok dist a2 Cons.prems(7) now seen_ok] by blast
  have "?seen \<union> {x \<in> set xs. \<not> other_ok x} = seen \<union> {y \<in> set (x # xs). \<not> other_ok y}" by auto
  then show ?case using w' step rd by (intro exI [of _ w']) (cases "member_pair x"; simp)
qed

section \<open>The message as a whole\<close>

definition payload_of :: "depth_member list \<Rightarrow> jval" where
  "payload_of xs = JObject (map member_pair xs)"

text \<open>A raw payload, or the payload inside a combined-stream envelope.\<close>

definition enveloped :: "depth_member list \<Rightarrow> jval \<Rightarrow> depth_member list \<Rightarrow> jval" where
  "enveloped before v after = JObject (map member_pair before @ (ascii ''data'', v) # map member_pair after)"

definition members_ok :: "depth_msg \<Rightarrow> depth_member list \<Rightarrow> bool" where
  "members_ok m xs \<longleftrightarrow> mset (filter (\<lambda>x. \<not> other_ok x) xs) = mset (core_members m)"

lemma members_okD:
  assumes "members_ok m xs"
  shows "list_all (\<lambda>x. x \<in> set (core_members m) \<or> other_ok x) xs" "distinct (filter (\<lambda>x. \<not> other_ok x) xs)"
    "{x \<in> set xs. \<not> other_ok x} = set (core_members m)"
proof -
  have ms: "set (filter (\<lambda>x. \<not> other_ok x) xs) = set (core_members m)"
    using assms by (metis members_ok_def set_mset_mset)
  then show "{x \<in> set xs. \<not> other_ok x} = set (core_members m)" by simp
  show "list_all (\<lambda>x. x \<in> set (core_members m) \<or> other_ok x) xs" using ms by (auto simp: list_all_iff)
  have "distinct (core_members m)" by (simp add: core_members_def)
  then show "distinct (filter (\<lambda>x. \<not> other_ok x) xs)" using assms by (metis members_ok_def mset_eq_imp_distinct_iff)
qed

lemma object_closes:
  assumes "ahead (dw_reader w) = 125 # s"
  shows "object_loop limit message tbl env w = Some (Ok (), w\<lparr>dw_reader := past [125] (rd_depth (dw_reader w) - 1) True (dw_reader w)\<rparr>)"
  using next_key_end [OF assms] by (subst object_loop.simps) (simp add: from_json_def)

lemma delim_close: "delim (125 # s)" "delim (44 # s)"
  by (simp_all add: delim_def is_number_byte_def is_digit_def)

text \<open>The loop over a payload, up to its closing brace.\<close>

lemma payload_loop:
  assumes "walk_inv m {} w" "msg_ok tbl limit m" "members_ok m xs"
    "ahead (dw_reader w) = members_text False (map member_pair xs) @ 125 # s" "0 < rd_depth (dw_reader w)" "rd_depth (dw_reader w) + 29 \<le> MAX_DEPTH"
    "rd_buf (dw_reader w) = message" "\<not> rd_after_value (dw_reader w)"
  shows "\<exists>w'. object_loop limit message tbl env w = Some (Ok (), w')
    \<and> dw_reader w' = past (members_text False (map member_pair xs) @ [125]) (rd_depth (dw_reader w) - 1) True (dw_reader w)
    \<and> walk_inv m (set (core_members m)) w'"
proof -
  obtain w1 where w1: "object_loop limit message tbl env w = object_loop limit message tbl env w1"
    "dw_reader w1 = past (members_text False (map member_pair xs)) (rd_depth (dw_reader w)) (xs \<noteq> []) (dw_reader w)"
    "walk_inv m (set (core_members m)) w1"
    using object_members [OF assms(1,2) members_okD(1,2) [OF assms(3)] _ assms(4) delim_close(1) assms(6,7), of env] assms(8)
      members_okD(3) [OF assms(3)] by auto
  have "ahead (dw_reader w1) = 125 # s" unfolding w1(2) by (rule ahead_past [OF assms(4)])
  then show ?thesis using w1 object_closes by simp
qed

lemma read_payload:
  assumes "walk_inv m {} w" "msg_ok tbl limit m" "members_ok m xs"
    "ahead (dw_reader w) = val_text (payload_of xs) @ s" "rd_depth (dw_reader w) + 30 \<le> MAX_DEPTH" "rd_buf (dw_reader w) = message"
  shows "\<exists>w1 w'. from_json begin_object (dw_reader w) = (Ok (), dw_reader w1) \<and> w1 = w\<lparr>dw_reader := dw_reader w1\<rparr>
    \<and> object_loop limit message tbl env w1 = Some (Ok (), w')
    \<and> dw_reader w' = past (val_text (payload_of xs)) (rd_depth (dw_reader w)) True (dw_reader w) \<and> walk_inv m (set (core_members m)) w'"
proof -
  let ?r = "dw_reader w"
  let ?r1 = "past [123] (rd_depth ?r + 1) False ?r"
  let ?w1 = "w\<lparr>dw_reader := ?r1\<rparr>"
  have ah: "ahead ?r = [123] @ (members_text False (map member_pair xs) @ 125 # s)" using assms(4) by (simp add: payload_of_def)
  have b: "from_json begin_object ?r = (Ok (), ?r1)" unfolding begin_object_def
    using enter_here [of ?r 123] ah assms(5) by (intro from_json_Ok) (simp add: is_space_def)
  obtain w' where w': "object_loop limit message tbl env ?w1 = Some (Ok (), w')"
    "dw_reader w' = past (members_text False (map member_pair xs) @ [125]) (rd_depth ?r) True ?r1" "walk_inv m (set (core_members m)) w'"
    using payload_loop [of m ?w1 tbl limit xs s message env] assms(1,2,3,5,6) ahead_past [OF ah] by auto
  show ?thesis using b w' by (intro exI [of _ ?w1] exI [of _ w']) (simp add: payload_of_def)
qed

lemma walk_start: "walk_inv m {} \<lparr>dw_reader = r, dw_fields = fields_default, dw_updates = []\<rparr>"
  by (simp add: walk_inv_def side_inv_def fields_default_def)

lemma others_members:
  assumes "walk_inv m seen w" "msg_ok tbl limit m" "list_all other_ok xs" "seen \<subseteq> set (core_members m)"
    "ahead (dw_reader w) = members_text a (map member_pair xs) @ s" "delim s" "rd_depth (dw_reader w) + 29 \<le> MAX_DEPTH"
    "rd_buf (dw_reader w) = message" "rd_after_value (dw_reader w) = a"
  shows "\<exists>w'. object_loop limit message tbl env w = object_loop limit message tbl env w'
    \<and> dw_reader w' = past (members_text a (map member_pair xs)) (rd_depth (dw_reader w)) (a \<or> xs \<noteq> []) (dw_reader w) \<and> walk_inv m seen w'"
proof -
  have core: "\<forall>x\<in>set (core_members m). \<not> other_ok x" by (auto simp: core_members_def)
  have "seen \<union> {x \<in> set xs. \<not> other_ok x} = seen" and none: "filter (\<lambda>x. \<not> other_ok x) xs = []" "set xs \<inter> seen = {}"
    and all: "list_all (\<lambda>x. x \<in> set (core_members m) \<or> other_ok x) xs" and seen: "\<forall>x\<in>seen. \<not> other_ok x"
    using assms(3,4) core by (auto simp: list_all_iff filter_empty_conv)
  then show ?thesis using object_members [OF assms(1,2) all _ none(2) assms(5-9) seen, of env] by (simp add: none(1))
qed

lemma read_envelope:
  assumes "walk_inv m {} w" "msg_ok tbl limit m" "members_ok m xs" "list_all other_ok before" "list_all other_ok after"
    "ahead (dw_reader w) = val_text (enveloped before (payload_of xs) after) @ s" "rd_depth (dw_reader w) + 31 \<le> MAX_DEPTH" "rd_buf (dw_reader w) = message"
  shows "\<exists>w'. read_object limit message tbl True w = (Ok (), w')
    \<and> dw_reader w' = past (val_text (enveloped before (payload_of xs) after)) (rd_depth (dw_reader w)) True (dw_reader w)
    \<and> walk_inv m (set (core_members m)) w'"
proof -
  let ?r = "dw_reader w" and ?d = "rd_depth (dw_reader w) + 1" and ?k = "ascii ''data''"
  let ?b = "members_text False (map member_pair before)" and ?p = "val_text (payload_of xs)" and ?a = "members_text True (map member_pair after)"
  let ?s = "sep (before \<noteq> [])"
  have all: "ahead ?r = [123] @ ?b @ ?s @ key_text ?k @ ?p @ ?a @ 125 # s"
    using assms(6) by (simp add: enveloped_def members_text_append)
  have key: "list_all plain ?k" "utf8_valid ?k" by (simp_all add: plain_def)
  let ?w1 = "w\<lparr>dw_reader := past [123] ?d False ?r\<rparr>"
  have b: "from_json begin_object ?r = (Ok (), past [123] ?d False ?r)" unfolding begin_object_def
    using enter_here [of ?r 123] all assms(7) by (intro from_json_Ok) (simp add: is_space_def)
  have a1: "ahead (dw_reader ?w1) = ?b @ (?s @ key_text ?k @ ?p @ ?a @ 125 # s)" using ahead_past [OF all] by simp
  have d1: "delim (?s @ key_text ?k @ ?p @ ?a @ 125 # s)"
    by (simp add: delim_def sep_def key_text_def quoted_def is_number_byte_def is_digit_def)
  obtain w2 where w2: "object_loop limit message tbl True ?w1 = object_loop limit message tbl True w2"
    "dw_reader w2 = past ([123] @ ?b) ?d (before \<noteq> []) ?r" "walk_inv m {} w2"
    using others_members [OF _ assms(2,4) _ a1 d1, of "{}" message True] assms(1,7,8) by auto
  have a2: "ahead (dw_reader w2) = ?s @ key_text ?k @ (?p @ ?a @ 125 # s)" unfolding w2(2) by (rule ahead_past) (simp add: all)
  let ?r3 = "past ([123] @ ?b @ ?s @ key_text ?k) ?d False ?r"
  have nk: "from_json next_key (dw_reader w2) = (Ok (Some ?k), ?r3)"
    using next_key_here [of "dw_reader w2" ?k "?p @ ?a @ 125 # s"] a2 key w2(2) by (intro from_json_Ok) simp
  have a3: "ahead (dw_reader (w2\<lparr>dw_reader := ?r3\<rparr>)) = ?p @ (?a @ 125 # s)" by (simp, rule ahead_past) (simp add: all)
  obtain w3 w4 where w3: "from_json begin_object ?r3 = (Ok (), dw_reader w3)" "w3 = w2\<lparr>dw_reader := dw_reader w3\<rparr>"
    "object_loop limit message tbl False w3 = Some (Ok (), w4)" "dw_reader w4 = past ?p ?d True ?r3" "walk_inv m (set (core_members m)) w4"
    using read_payload [OF _ assms(2,3) a3, of message False] w2(3) assms(7,8) by auto
  have step: "object_loop limit message tbl True w2 = object_loop limit message tbl True w4"
    using nk w3(1,3) w3(2) [symmetric] by (subst object_loop.simps) simp
  have a4: "ahead (dw_reader w4) = ?a @ 125 # s" unfolding w3(4) past_past by (rule ahead_past) (simp add: all)
  obtain w5 where w5: "object_loop limit message tbl True w4 = object_loop limit message tbl True w5"
    "dw_reader w5 = past ?a ?d True (dw_reader w4)" "walk_inv m (set (core_members m)) w5"
    using others_members [OF w3(5) assms(2,5) _ a4 delim_close(1), of message True] assms(7,8) w3(4) by auto
  have a5: "ahead (dw_reader w5) = 125 # s" unfolding w5(2) by (rule ahead_past [OF a4])
  show ?thesis
    using b w2(1) step w5 object_closes [OF a5, of limit message tbl True] w3(4)
    by (simp add: read_object_def enveloped_def members_text_append)
qed

text \<open>The sides put off are read from the rest of the message they were remembered with.\<close>

lemma deferred_side:
  assumes "msg_ok tbl limit m" "length out + length (mg_levels m sd) \<le> limit"
  shows "\<exists>r. read_side limit sd (mg_inst m) out (reader_new (val_text (side_val (mg_txt m sd)) @ tail))
    = (Ok (), out @ map (as_update sd) (mg_levels m sd), r)"
  using read_array_here [OF _ side_levels [OF assms(1)] assms(2), of "reader_new (val_text (side_val (mg_txt m sd)) @ tail)" tail "as_update sd"]
  by (simp add: read_side_def read_updates_into_def as_update_def [abs_def] ahead_def reader_new_def MAX_DEPTH_def)

lemma deferred_one:
  assumes ok: "msg_ok tbl limit m"
    and st: "rd \<and> d = None \<and> of_side sd out = ls \<or> \<not> rd \<and> (\<exists>tail. d = Some (val_text (side_val (mg_txt m sd)) @ tail)) \<and> of_side sd out = []"
    and room: "\<not> rd \<longrightarrow> length out + length (mg_levels m sd) \<le> limit"
  shows "read_deferred limit (mg_inst m) (((sd, n), d, rd) # rest) out
    = read_deferred limit (mg_inst m) rest (if rd then out else out @ map (as_update sd) (mg_levels m sd))"
proof (cases rd)
  case False
  then obtain tail r where "d = Some (val_text (side_val (mg_txt m sd)) @ tail)"
    "read_side limit sd (mg_inst m) out (reader_new (val_text (side_val (mg_txt m sd)) @ tail)) = (Ok (), out @ map (as_update sd) (mg_levels m sd), r)"
    using st deferred_side [OF ok, of out sd] room by blast
  then show ?thesis using False by simp
qed (use st in simp)

lemma deferred_sides:
  assumes ok: "msg_ok tbl limit m" and inv: "walk_inv m (set (core_members m)) w"
  shows "\<exists>out. read_deferred limit (mg_inst m) (zip SIDES (zip (df_deferred (dw_fields w)) (df_sides_read (dw_fields w)))) (dw_updates w) = (Ok (), out)
    \<and> of_side Buy out = map (as_update Buy) (mg_levels m Buy) \<and> of_side Sell out = map (as_update Sell) (mg_levels m Sell)"
proof -
  obtain db ds where d: "df_deferred (dw_fields w) = [db, ds]"
    using inv by (auto simp: walk_inv_def numeral_2_eq_2 length_Suc_conv)
  obtain rb rs where r: "df_sides_read (dw_fields w) = [rb, rs]"
    using inv by (auto simp: walk_inv_def numeral_2_eq_2 length_Suc_conv)
  have buy: "rb \<and> db = None \<and> of_side Buy (dw_updates w) = map (as_update Buy) (mg_levels m Buy)
      \<or> \<not> rb \<and> (\<exists>tail. db = Some (val_text (side_val (mg_txt m Buy)) @ tail)) \<and> of_side Buy (dw_updates w) = []"
    and sell: "rs \<and> ds = None \<and> of_side Sell (dw_updates w) = map (as_update Sell) (mg_levels m Sell)
      \<or> \<not> rs \<and> (\<exists>tail. ds = Some (val_text (side_val (mg_txt m Sell)) @ tail)) \<and> of_side Sell (dw_updates w) = []"
    using inv d r by (simp_all add: walk_inv_def side_inv_def core_members_def Let_def)
  have room: "length (mg_levels m Buy) + length (mg_levels m Sell) \<le> limit" using ok by (simp add: msg_ok_def)
  define out1 where "out1 = (if rb then dw_updates w else dw_updates w @ map (as_update Buy) (mg_levels m Buy))"
  have one: "read_deferred limit (mg_inst m) (((Buy, n), db, rb) # rest) (dw_updates w) = read_deferred limit (mg_inst m) rest out1" for n rest
    unfolding out1_def by (rule deferred_one [OF ok buy]) (use buy sell room length_of_sides [of "dw_updates w"] in auto)
  have sides1: "of_side Buy out1 = map (as_update Buy) (mg_levels m Buy)" "of_side Sell out1 = of_side Sell (dw_updates w)"
    using buy by (auto simp: out1_def)
  have sell1: "rs \<and> ds = None \<and> of_side Sell out1 = map (as_update Sell) (mg_levels m Sell)
      \<or> \<not> rs \<and> (\<exists>tail. ds = Some (val_text (side_val (mg_txt m Sell)) @ tail)) \<and> of_side Sell out1 = []" using sell sides1 by simp
  have two: "read_deferred limit (mg_inst m) [((Sell, n), ds, rs)] out1
      = (Ok (), if rs then out1 else out1 @ map (as_update Sell) (mg_levels m Sell))" for n
    by (subst deferred_one [OF ok sell1]) (use sell1 sides1 room length_of_sides [of out1] in auto)
  have "zip SIDES (zip (df_deferred (dw_fields w)) (df_sides_read (dw_fields w))) = [((Buy, ''b''), db, rb), ((Sell, ''a''), ds, rs)]"
    by (simp add: SIDES_def d r)
  then have "read_deferred limit (mg_inst m) (zip SIDES (zip (df_deferred (dw_fields w)) (df_sides_read (dw_fields w)))) (dw_updates w)
      = (Ok (), if rs then out1 else out1 @ map (as_update Sell) (mg_levels m Sell))"
    by (simp only: one two)
  then show ?thesis using sell1 sides1 by auto
qed

lemma decode_from_walk:
  assumes ok: "msg_ok tbl limit m" and inv: "walk_inv m (set (core_members m)) w"
    and read: "read_object limit message tbl True \<lparr>dw_reader = reader_new message, dw_fields = fields_default, dw_updates = []\<rparr> = (Ok (), w)"
    and fin: "ahead (dw_reader w) = []" "rd_depth (dw_reader w) = 0" "reader_wf (dw_reader w)"
  shows "\<exists>out. fst (decode_update message tbl (update_decoder_new limit)) = Ok \<lparr>du_instrument = inst_id (mg_inst m), du_event_time = mg_time m * 1000000,
        du_range = \<lparr>sr_first = mg_first m, sr_last = mg_last m\<rparr>, du_updates = out\<rparr>
    \<and> of_side Buy out = map (as_update Buy) (mg_levels m Buy) \<and> of_side Sell out = map (as_update Sell) (mg_levels m Sell)"
proof -
  obtain out where out: "read_deferred limit (mg_inst m) (zip SIDES (zip (df_deferred (dw_fields w)) (df_sides_read (dw_fields w)))) (dw_updates w) = (Ok (), out)"
    "of_side Buy out = map (as_update Buy) (mg_levels m Buy)" "of_side Sell out = map (as_update Sell) (mg_levels m Sell)"
    using deferred_sides [OF ok inv] by blast
  have fields: "df_instrument (dw_fields w) = Some (mg_inst m)"
    "update_checks (mg_inst m) (dw_fields w) out = Ok \<lparr>du_instrument = inst_id (mg_inst m), du_event_time = mg_time m * 1000000,
        du_range = \<lparr>sr_first = mg_first m, sr_last = mg_last m\<rparr>, du_updates = out\<rparr>"
    using inv ok by (simp_all add: walk_inv_def core_members_def update_checks_def msg_ok_def seq_range_new_def from_unix_millis_def
        checked_u64_def fits_u64_def)
  have "from_json finish (dw_reader w) = (Ok (), dw_reader w)" by (intro from_json_Ok finish_here fin)
  then show ?thesis using read out fields by (simp add: decode_update_def update_decoder_new_def)
qed

lemma whole_message:
  assumes "dw_reader w = past message 0 True (reader_new message)"
  shows "ahead (dw_reader w) = []" "rd_depth (dw_reader w) = 0" "reader_wf (dw_reader w)"
  using assms by (simp_all add: ahead_def past_def reader_new_def reader_wf_def)

lemma raw_message_decodes:
  assumes "msg_ok tbl limit m" "members_ok m xs" "message = val_text (payload_of xs)"
  shows "\<exists>w. read_object limit message tbl True \<lparr>dw_reader = reader_new message, dw_fields = fields_default, dw_updates = []\<rparr> = (Ok (), w)
    \<and> dw_reader w = past message 0 True (reader_new message) \<and> walk_inv m (set (core_members m)) w"
proof -
  let ?w = "\<lparr>dw_reader = reader_new message, dw_fields = fields_default, dw_updates = []\<rparr>"
  obtain w1 w where w: "from_json begin_object (reader_new message) = (Ok (), dw_reader w1)" "w1 = ?w\<lparr>dw_reader := dw_reader w1\<rparr>"
    "object_loop limit message tbl True w1 = Some (Ok (), w)" "dw_reader w = past message 0 True (reader_new message)" "walk_inv m (set (core_members m)) w"
    using read_payload [OF walk_start assms(1,2), of "reader_new message" "[]" message True] assms(3)
    by (auto simp: ahead_def reader_new_def MAX_DEPTH_def)
  have "read_object limit message tbl True ?w = (Ok (), w)" using w(1,3) w(2) [symmetric] by (simp add: read_object_def)
  then show ?thesis using w by blast
qed

lemma enveloped_message_decodes:
  assumes "msg_ok tbl limit m" "members_ok m xs" "list_all other_ok before" "list_all other_ok after" "message = val_text (enveloped before (payload_of xs) after)"
  shows "\<exists>w. read_object limit message tbl True \<lparr>dw_reader = reader_new message, dw_fields = fields_default, dw_updates = []\<rparr> = (Ok (), w)
    \<and> dw_reader w = past message 0 True (reader_new message) \<and> walk_inv m (set (core_members m)) w"
  using read_envelope [OF walk_start assms(1-4), of "reader_new message" "[]" message] assms(5)
  by (auto simp: ahead_def reader_new_def MAX_DEPTH_def)

section \<open>Properties\<close>

text \<open>C30: A diff-depth message is decoded exactly, whatever the order of its members, with unknown members
  anywhere and with or without the combined-stream envelope: the update names the instrument, the time and the
  range of the message and holds, side by side, exactly its levels in their order.\<close>

theorem depth_update_decodes:
  assumes "msg_ok tbl limit m" "members_ok m xs" "list_all other_ok before" "list_all other_ok after"
    and "message = val_text (payload_of xs) \<or> message = val_text (enveloped before (payload_of xs) after)"
  shows "\<exists>out. fst (decode_update message tbl (update_decoder_new limit)) = Ok \<lparr>du_instrument = inst_id (mg_inst m), du_event_time = mg_time m * 1000000,
        du_range = \<lparr>sr_first = mg_first m, sr_last = mg_last m\<rparr>, du_updates = out\<rparr>
    \<and> of_side Buy out = map (as_update Buy) (mg_levels m Buy) \<and> of_side Sell out = map (as_update Sell) (mg_levels m Sell)"
proof -
  obtain w where "read_object limit message tbl True \<lparr>dw_reader = reader_new message, dw_fields = fields_default, dw_updates = []\<rparr> = (Ok (), w)"
    "dw_reader w = past message 0 True (reader_new message)" "walk_inv m (set (core_members m)) w"
    using raw_message_decodes [OF assms(1,2)] enveloped_message_decodes [OF assms(1-4)] assms(5) by blast
  then show ?thesis using decode_from_walk [OF assms(1)] whole_message by blast
qed

theorem depth_update_decodes_witness:
  "\<exists>out. fst (decode_update
      (val_text (payload_of [MSide Sell [], MEvent, MOther [120] (JArray []), MSymbol [65], MLast 9, MSide Buy [([49], [50])], MTime 3, MFirst 7]))
      [\<lparr>inst_id = 0, inst_venue = Binance, inst_symbol = \<lparr>sym_bytes = [65], sym_len = 1\<rparr>, inst_tick = \<lparr>inc_mantissa = 1, inc_scale = 0\<rparr>,
        inst_lot = \<lparr>inc_mantissa = 1, inc_scale = 0\<rparr>, inst_min_notional = \<lparr>mantissa = 1, scale = 0\<rparr>\<rparr>] (update_decoder_new 4))
    = Ok \<lparr>du_instrument = 0, du_event_time = 3000000, du_range = \<lparr>sr_first = 7, sr_last = 9\<rparr>, du_updates = out\<rparr>
    \<and> of_side Buy out = [\<lparr>lu_side = Buy, lu_price = 1, lu_qty = 2\<rparr>]"
proof -
  let ?inc = "\<lparr>inc_mantissa = 1, inc_scale = 0\<rparr>"
  let ?i = "\<lparr>inst_id = 0, inst_venue = Binance, inst_symbol = \<lparr>sym_bytes = [65], sym_len = 1\<rparr>, inst_tick = ?inc, inst_lot = ?inc,
    inst_min_notional = \<lparr>mantissa = 1, scale = 0\<rparr>\<rparr>"
  let ?m = "\<lparr>mg_time = 3, mg_symbol = [65], mg_first = 7, mg_last = 9, mg_txt = (\<lambda>sd. if sd = Buy then [([49], [50])] else []),
    mg_levels = (\<lambda>sd. if sd = Buy then [\<lparr>lv_price = 1, lv_qty = 2\<rparr>] else []), mg_inst = ?i\<rparr>"
  let ?xs = "[MSide Sell [], MEvent, MOther [120] (JArray []), MSymbol [65], MLast 9, MSide Buy [([49], [50])], MTime 3, MFirst 7]"
  have num: "parse_units_bytes ?inc [49] Exact = Ok 1" "parse_units_bytes ?inc [50] Exact = Ok 2"
    by (simp_all add: parse_units_bytes_def parse_exact_power_of_ten_def split_point_def fixed_consts digit_of_def nth_opt_POW10_I64
        checked_i64_def range_defs)
  have known: "table_find [?i] Binance [65] = Some ?i" by (simp add: table_find_def symbol_as_str_def)
  have ok: "msg_ok [?i] 4 ?m" using num known by (simp add: msg_ok_def level_is_def plain_def)
  have "other_ok (MOther [120] (JArray []))" by (simp add: known_keys_def plain_def)
  then have mem: "members_ok ?m ?xs" by (simp add: members_ok_def core_members_def)
  show ?thesis using depth_update_decodes [OF ok mem, of "[]" "[]", OF _ _ disjI1 [OF refl]] by (auto simp: as_update_def)
qed

end
