(* ===== verification/Str_Text.thy ===== *)
theory Str_Text
  imports Num_Text Json
begin

text \<open>
  The text functions of the standard library that the session description, the URL, the HTTP and the
  WebSocket upgrade parsers use, on the bytes of a text: \<open>split\<close>, \<open>split_once\<close>, \<open>lines\<close>, \<open>trim\<close>,
  \<open>eq_ignore_ascii_case\<close>, \<open>from_str_radix\<close> and the search for a window.
\<close>

section \<open>Splitting\<close>

fun split_on :: "byte \<Rightarrow> byte list \<Rightarrow> byte list list" where
  "split_on c [] = [[]]"
| "split_on c (b # bs) =
     (if b = c then [] # split_on c bs
      else case split_on c bs of [] \<Rightarrow> [[b]] | w # ws \<Rightarrow> (b # w) # ws)"

definition strip_cr :: "byte list \<Rightarrow> byte list" where
  "strip_cr l = (if l \<noteq> [] \<and> last l = 13 then butlast l else l)"

text \<open>A line that a line feed ends loses a carriage return before it; what follows the last line feed is a
  line unless it is empty.\<close>

definition text_lines :: "byte list \<Rightarrow> byte list list" where
  "text_lines txt =
     (let parts = split_on 10 txt in map strip_cr (butlast parts) @ (if last parts = [] then [] else [last parts]))"

text \<open>The first characters of a text that is UTF-8.\<close>

fun take_chars :: "nat \<Rightarrow> byte list \<Rightarrow> byte list" where
  "take_chars n [] = []"
| "take_chars n (b # bs) =
     (if continuation b then b # take_chars n bs
      else case n of 0 \<Rightarrow> [] | Suc k \<Rightarrow> b # take_chars k bs)"

text \<open>\<open>windows(n).position\<close> of a non-empty pattern: where it first occurs.\<close>

fun find_sub :: "byte list \<Rightarrow> byte list \<Rightarrow> nat option" where
  "find_sub pat [] = None"
| "find_sub pat (b # bs) = (if take (length pat) (b # bs) = pat then Some 0 else map_option Suc (find_sub pat bs))"

definition split_once :: "byte list \<Rightarrow> byte list \<Rightarrow> (byte list \<times> byte list) option" where
  "split_once pat s = map_option (\<lambda>k. (take k s, drop (k + length pat) s)) (find_sub pat s)"

lemma find_sub_bound: "find_sub pat s = Some k \<Longrightarrow> k < length s"
  by (induction s arbitrary: k) (auto split: if_splits)

lemma split_once_shorter: "split_once pat s = Some (a, b) \<Longrightarrow> pat \<noteq> [] \<Longrightarrow> length b < length s"
  by (cases s; cases pat) (auto simp: split_once_def)

text \<open>\<open>str::split\<close> at every occurrence of a text.\<close>

function split_by :: "byte list \<Rightarrow> byte list \<Rightarrow> byte list list" where
  "split_by pat s = (if pat = [] then [s] else case split_once pat s of None \<Rightarrow> [s] | Some (a, rest) \<Rightarrow> a # split_by pat rest)"
  by auto
termination
  by (relation "measure (\<lambda>(pat, s). length s)") (auto dest: split_once_shorter)

declare split_by.simps [simp del]

section \<open>Letters and white space\<close>

definition lower :: "byte \<Rightarrow> byte" where
  "lower b = (if 65 \<le> b \<and> b \<le> 90 then b + 32 else b)"

definition eq_ignore_case :: "byte list \<Rightarrow> byte list \<Rightarrow> bool" where
  "eq_ignore_case a b \<longleftrightarrow> map lower a = map lower b"

text \<open>The length of the white-space character a text starts with, in its UTF-8 form, or zero; and the same for
  the character it ends with, the text given backwards.\<close>

fun space_start :: "byte list \<Rightarrow> nat" where
  "space_start [] = 0"
| "space_start (a # s) =
     (if a = 32 \<or> 9 \<le> a \<and> a \<le> 13 then 1
      else
        (case s of
           b # s' \<Rightarrow>
             if a = 0xC2 \<and> (b = 0x85 \<or> b = 0xA0) then 2
             else
               (case s' of
                  c # _ \<Rightarrow>
                    if a = 0xE1 \<and> b = 0x9A \<and> c = 0x80
                      \<or> a = 0xE2 \<and> b = 0x80 \<and> (0x80 \<le> c \<and> c \<le> 0x8A \<or> c = 0xA8 \<or> c = 0xA9 \<or> c = 0xAF)
                      \<or> a = 0xE2 \<and> b = 0x81 \<and> c = 0x9F \<or> a = 0xE3 \<and> b = 0x80 \<and> c = 0x80 then 3 else 0
                | [] \<Rightarrow> 0)
         | [] \<Rightarrow> 0))"

definition space_end :: "byte list \<Rightarrow> nat" where
  "space_end s =
     (case s of
        [] \<Rightarrow> 0
      | a # s' \<Rightarrow>
          if space_start [a] = 1 then 1
          else
            (case s' of
               [] \<Rightarrow> 0
             | b # s'' \<Rightarrow>
                 if space_start [b, a] = 2 then 2
                 else (case s'' of [] \<Rightarrow> 0 | c # _ \<Rightarrow> if space_start [c, b, a] = 3 then 3 else 0)))"

function trim_start :: "byte list \<Rightarrow> byte list" where
  "trim_start s = (if s = [] \<or> space_start s = 0 then s else trim_start (drop (space_start s) s))"
  by auto
termination by (relation "measure length") auto

function trim_back :: "byte list \<Rightarrow> byte list" where
  "trim_back s = (if s = [] \<or> space_end s = 0 then s else trim_back (drop (space_end s) s))"
  by auto
termination by (relation "measure length") auto

declare trim_start.simps [simp del] trim_back.simps [simp del]

definition trim :: "byte list \<Rightarrow> byte list" where
  "trim s = rev (trim_back (rev (trim_start s)))"

section \<open>Hexadecimal numbers\<close>

definition hex_val :: "byte \<Rightarrow> nat option" where
  "hex_val b =
     (if 48 \<le> b \<and> b \<le> 57 then Some (unat b - 48)
      else if 97 \<le> b \<and> b \<le> 102 then Some (unat b - 87)
      else if 65 \<le> b \<and> b \<le> 70 then Some (unat b - 55) else None)"

fun parse_hex_digits :: "nat \<Rightarrow> nat \<Rightarrow> byte list \<Rightarrow> nat option" where
  "parse_hex_digits limit v [] = Some v"
| "parse_hex_digits limit v (b # bs) =
     (case hex_val b of
        None \<Rightarrow> None
      | Some d \<Rightarrow> if v * 16 + d \<ge> limit then None else parse_hex_digits limit (v * 16 + d) bs)"

definition parse_hex :: "nat \<Rightarrow> byte list \<Rightarrow> nat option" where
  "parse_hex limit bs =
     (case bs of [] \<Rightarrow> None
      | b # rest \<Rightarrow> if b = 43 then (if rest = [] then None else parse_hex_digits limit 0 rest) else parse_hex_digits limit 0 bs)"

section \<open>Lemmas\<close>

lemma split_on_nonempty [simp]: "split_on c w \<noteq> []"
  by (cases w) (auto split: list.split)

lemma split_on_word [simp]: "c \<notin> set w \<Longrightarrow> split_on c w = [w]"
  by (induction w) auto

lemma split_on_first [simp]: "c \<notin> set w \<Longrightarrow> split_on c (w @ c # rest) = w # split_on c rest"
  by (induction w) auto

lemma find_sub_one: "find_sub [c] w = None \<longleftrightarrow> c \<notin> set w"
  by (induction w) auto

lemma find_sub_one_at: "c \<notin> set w \<Longrightarrow> find_sub [c] (w @ c # rest) = Some (length w)"
  by (induction w) auto

lemma split_once_one: "c \<notin> set w \<Longrightarrow> split_once [c] (w @ c # rest) = Some (w, rest)"
  by (simp add: split_once_def find_sub_one_at)

lemma split_once_one_None: "split_once [c] w = None \<longleftrightarrow> c \<notin> set w"
  by (simp add: split_once_def find_sub_one)

lemma find_sub_Some: "find_sub pat s = Some k \<Longrightarrow> s = take k s @ pat @ drop (k + length pat) s"
proof (induction s arbitrary: k)
  case (Cons b s)
  show ?case
  proof (cases "take (length pat) (b # s) = pat")
    case True
    then show ?thesis using Cons.prems append_take_drop_id [of "length pat" "b # s"] by simp
  next
    case False
    then obtain j where "k = Suc j" "find_sub pat s = Some j" using Cons.prems by auto
    then show ?thesis using Cons.IH [of j] by simp
  qed
qed simp

lemma split_once_Some: "split_once pat s = Some (a, b) \<Longrightarrow> s = a @ pat @ b"
  by (auto simp: split_once_def dest: find_sub_Some)

text \<open>A pattern is found where it is written when nothing before it can start it.\<close>

lemma find_sub_at:
  assumes "hd pat \<notin> set w" "pat \<noteq> []" shows "find_sub pat (w @ pat @ rest) = Some (length w)"
  using assms(1)
proof (induction w)
  case Nil
  then show ?case using assms(2) by (cases pat) auto
next
  case (Cons b w)
  then have "take (length pat) (b # w @ pat @ rest) \<noteq> pat" using assms(2) by (cases pat) auto
  then show ?case using Cons by simp
qed

lemma split_once_at: "hd pat \<notin> set w \<Longrightarrow> pat \<noteq> [] \<Longrightarrow> split_once pat (w @ pat @ rest) = Some (w, rest)"
  by (simp add: split_once_def find_sub_at)

lemma find_sub_none: "hd pat \<notin> set w \<Longrightarrow> pat \<noteq> [] \<Longrightarrow> find_sub pat w = None"
  by (induction w) (auto simp: neq_Nil_conv)

lemma split_by_first: "hd pat \<notin> set w \<Longrightarrow> pat \<noteq> [] \<Longrightarrow> split_by pat (w @ pat @ rest) = w # split_by pat rest"
  by (subst split_by.simps) (simp add: split_once_at)

lemma split_by_word: "hd pat \<notin> set w \<Longrightarrow> pat \<noteq> [] \<Longrightarrow> split_by pat w = [w]"
  by (subst split_by.simps) (simp add: split_once_def find_sub_none)

text \<open>A text whose first and last bytes are graphic has nothing to trim.\<close>

lemma space_start_graphic: "is_ascii_graphic a \<Longrightarrow> space_start (a # s) = 0"
  by (auto simp: is_ascii_graphic_def word_le_nat_alt split: list.split)

lemma space_end_graphic: "is_ascii_graphic a \<Longrightarrow> space_end (a # s) = 0"
proof -
  assume g: "is_ascii_graphic a"
  have n: "a \<noteq> 0x85" "a \<noteq> 0xA0" "\<not> 0x80 \<le> a" "a \<noteq> 0xA8" "a \<noteq> 0xA9" "a \<noteq> 0xAF" "a \<noteq> 0x9F"
    using g by (auto simp: is_ascii_graphic_def word_le_nat_alt)
  have "space_start [b, a] \<noteq> 2" "space_start [c, b, a] \<noteq> 3" for b c using n by auto
  then show ?thesis using space_start_graphic [OF g, of "[]"] by (auto simp: space_end_def split: list.split)
qed

lemma trim_graphic:
  assumes "is_ascii_graphic (hd s)" "is_ascii_graphic (last s)" "s \<noteq> []"
  shows "trim s = s"
proof -
  have "space_start s = 0" using assms(1,3) space_start_graphic by (cases s) auto
  then have "trim_start s = s" by (subst trim_start.simps) simp
  moreover have "space_end (rev s) = 0" using assms(2,3) space_end_graphic [of "last s" "rev (butlast s)"]
    by (metis append_butlast_last_id rev.simps(2) rev_rev_ident)
  then have "trim_back (rev s) = rev s" by (subst trim_back.simps) simp
  ultimately show ?thesis by (simp add: trim_def)
qed

lemma trim_space: "trim (32 # s) = trim s"
proof -
  have "space_start (32 # s) = 1" by simp
  then have "trim_start (32 # s) = trim_start s" by (subst trim_start.simps) simp
  then show ?thesis by (simp add: trim_def)
qed

end
