(* ===== verification/Ws_Frame.thy ===== *)
theory Ws_Frame
  imports Bowst_Prelude
begin

unbundle bit_operations_syntax

text \<open>
  \<open>crates/bowst-venue/src/ws/frame.rs\<close> and the error type of \<open>ws/mod.rs\<close>: the headers of server
  frames and the encoding of client frames.  Bytes are 8-bit words with the bit operations of
  the source; lengths are natural numbers.
\<close>

section \<open>Opcodes and errors\<close>

datatype ws_error =
    Handshake string
  | HandshakeTooLarge
  | ReservedBits
  | UnknownOpcode byte
  | MaskedServerFrame
  | InvalidLength
  | InvalidControlFrame
  | FrameTooLarge nat nat
  | MessageTooLarge nat
  | UnexpectedFragment
  | MalformedClose
  | BufferTooSmall

datatype opcode = Continuation | Text | Binary | Close | Ping | Pong

definition opcode_from_bits :: "byte \<Rightarrow> (opcode, ws_error) result" where
  "opcode_from_bits b =
     (if b = 0 then Ok Continuation else if b = 1 then Ok Text else if b = 2 then Ok Binary
      else if b = 8 then Ok Close else if b = 9 then Ok Ping else if b = 10 then Ok Pong
      else Err (UnknownOpcode b))"

fun opcode_bits :: "opcode \<Rightarrow> byte" where
  "opcode_bits Continuation = 0"
| "opcode_bits Text = 1"
| "opcode_bits Binary = 2"
| "opcode_bits Close = 8"
| "opcode_bits Ping = 9"
| "opcode_bits Pong = 10"

fun is_control :: "opcode \<Rightarrow> bool" where
  "is_control Close = True"
| "is_control Ping = True"
| "is_control Pong = True"
| "is_control _ = False"

definition MAX_CONTROL_PAYLOAD :: nat where "MAX_CONTROL_PAYLOAD = 125"
definition MAX_CLIENT_HEADER :: nat where "MAX_CLIENT_HEADER = 14"
definition FIN :: byte where "FIN = 0x80"
definition MASKED :: byte where "MASKED = 0x80"
definition LEN_16 :: byte where "LEN_16 = 0x7E"
definition LEN_64 :: byte where "LEN_64 = 0x7F"

lemmas frame_consts = MAX_CONTROL_PAYLOAD_def FIN_def MASKED_def LEN_16_def LEN_64_def

record frame_header =
  fh_fin :: bool
  fh_opcode :: opcode
  fh_header_len :: nat
  fh_payload_len :: nat

section \<open>Big-endian integers\<close>

definition be_bytes :: "nat \<Rightarrow> nat \<Rightarrow> byte list" where
  "be_bytes k v = rev (le_bytes k v)"

definition from_be :: "byte list \<Rightarrow> nat" where
  "from_be bs = from_le (rev bs)"

lemma length_be_bytes [simp]: "length (be_bytes k v) = k"
  by (simp add: be_bytes_def)

lemma from_be_bytes [simp]: "v < 256 ^ k \<Longrightarrow> from_be (be_bytes k v) = v"
  by (simp add: be_bytes_def from_be_def)

lemma be_bytes_from_be: "length bs = k \<Longrightarrow> be_bytes k (from_be bs) = bs"
  using le_bytes_from_le [of "rev bs"] by (simp add: be_bytes_def from_be_def)

lemma from_be_less: "from_be bs < 256 ^ length bs"
  using from_le_less [of "rev bs"] by (simp add: from_be_def)

section \<open>Server headers\<close>

text \<open>The payload length and the length of the header; \<open>Ok None\<close> asks for more bytes.\<close>

definition payload_length :: "byte list \<Rightarrow> byte \<Rightarrow> ((nat \<times> nat) option, ws_error) result" where
  "payload_length buf code =
     (if code = LEN_16 then
        (if length buf < 4 then Ok None
         else
           let len = from_be (take 2 (drop 2 buf)) in
           if len < unat LEN_16 then Err InvalidLength else Ok (Some (len, 4)))
      else if code = LEN_64 then
        (if length buf < 10 then Ok None
         else
           let len = from_be (take 8 (drop 2 buf)) in
           if len < 2 ^ 16 \<or> len div 2 ^ 63 \<noteq> 0 then Err InvalidLength else Ok (Some (len, 10)))
      else Ok (Some (unat code, 2)))"

definition parse_server_header :: "byte list \<Rightarrow> nat \<Rightarrow> (frame_header option, ws_error) result" where
  "parse_server_header buf max_payload =
     (case (nth_opt buf 0, nth_opt buf 1) of
        (Some b0, Some b1) \<Rightarrow>
          if b0 AND 0x70 \<noteq> 0 then Err ReservedBits
          else
            let fin = (b0 AND 0x80 \<noteq> 0) in
            rbind (opcode_from_bits (b0 AND 0x0F)) (\<lambda>opcode.
              if b1 AND 0x80 \<noteq> 0 then Err MaskedServerFrame
              else
                rbind (payload_length buf (b1 AND 0x7F)) (\<lambda>found.
                  case found of
                    None \<Rightarrow> Ok None
                  | Some (len, header_len) \<Rightarrow>
                      if is_control opcode \<and> (\<not> fin \<or> len > MAX_CONTROL_PAYLOAD) then Err InvalidControlFrame
                      else if len \<le> max_payload
                      then Ok (Some \<lparr>fh_fin = fin, fh_opcode = opcode, fh_header_len = header_len, fh_payload_len = len\<rparr>)
                      else Err (FrameTooLarge len max_payload)))
      | _ \<Rightarrow> Ok None)"

section \<open>Client frames\<close>

record frame_writer =
  fw_out :: "byte list"
  fw_pos :: nat

text \<open>\<open>reserve\<close> hands out the next bytes of the output, which \<open>put\<close> fills.\<close>

definition reserve :: "nat \<Rightarrow> frame_writer \<Rightarrow> (nat, ws_error) result \<times> frame_writer" where
  "reserve len w =
     (let fin = fw_pos w + len in
      if fits_u64 fin \<and> fin \<le> length (fw_out w) then (Ok (fw_pos w), w\<lparr>fw_pos := fin\<rparr>) else (Err BufferTooSmall, w))"

definition put :: "byte list \<Rightarrow> frame_writer \<Rightarrow> (unit, ws_error) result \<times> frame_writer" where
  "put bytes w =
     (case reserve (length bytes) w of
        (Err e, w1) \<Rightarrow> (Err e, w1)
      | (Ok at_pos, w1) \<Rightarrow> (Ok (), w1\<lparr>fw_out := write_at at_pos bytes (fw_out w1)\<rparr>))"

fun put_all :: "byte list list \<Rightarrow> frame_writer \<Rightarrow> (unit, ws_error) result \<times> frame_writer" where
  "put_all [] w = (Ok (), w)"
| "put_all (b # bs) w = (case put b w of (Err e, w1) \<Rightarrow> (Err e, w1) | (Ok _, w1) \<Rightarrow> put_all bs w1)"

text \<open>\<open>payload.zip(mask.iter().cycle())\<close> combined by exclusive or.\<close>

fun mask_bytes :: "byte list \<Rightarrow> nat \<Rightarrow> byte list \<Rightarrow> byte list" where
  "mask_bytes key i [] = []"
| "mask_bytes key i (p # ps) = (p XOR key ! (i mod length key)) # mask_bytes key (Suc i) ps"

definition length_parts :: "nat \<Rightarrow> byte list list" where
  "length_parts len =
     (if len < unat LEN_16 then [[MASKED OR of_nat len]]
      else if len < 2 ^ 16 then [[MASKED OR LEN_16], be_bytes 2 len]
      else [[MASKED OR LEN_64], be_bytes 8 len])"

definition encode_client_frame ::
  "opcode \<Rightarrow> byte list \<Rightarrow> byte list \<Rightarrow> byte list \<Rightarrow> (nat, ws_error) result \<times> byte list" where
  "encode_client_frame opcode payload key out =
     (if is_control opcode \<and> length payload > MAX_CONTROL_PAYLOAD then (Err InvalidControlFrame, out)
      else
        (case put_all ([[FIN OR opcode_bits opcode]] @ length_parts (length payload) @ [key]) \<lparr>fw_out = out, fw_pos = 0\<rparr> of
           (Err e, w) \<Rightarrow> (Err e, fw_out w)
         | (Ok _, w) \<Rightarrow>
             (case reserve (length payload) w of
                (Err e, w1) \<Rightarrow> (Err e, fw_out w1)
              | (Ok at_pos, w1) \<Rightarrow> (Ok (fw_pos w1), write_at at_pos (mask_bytes key 0 payload) (fw_out w1)))))"

section \<open>Bits of a byte\<close>

lemma byte_and_128: "(b :: byte) AND 0x80 = (if bit b 7 then 0x80 else 0)"
proof (rule bit_eqI)
  fix n
  have "bit (0x80 :: byte) n \<longleftrightarrow> n = 7" using bit_exp_iff [of 7 n, where 'a = byte] by auto
  then show "bit (b AND 0x80) n = bit (if bit b 7 then 0x80 else 0 :: byte) n" by (auto simp: bit_simps)
qed

lemma byte_split3: "(b :: byte) = (b AND 0x80) OR (b AND 0x70) OR (b AND 0x0F)"
proof -
  have "(b AND 0x80) OR (b AND 0x70) OR (b AND 0x0F) = b AND (0x80 OR 0x70 OR 0x0F)"
    by (simp only: bit.conj_disj_distrib)
  also have "(0x80 OR 0x70 OR 0x0F :: byte) = - 1" by simp
  finally show ?thesis by simp
qed

lemma byte_split2: "(b :: byte) = (b AND 0x80) OR (b AND 0x7F)"
proof -
  have "(b AND 0x80) OR (b AND 0x7F) = b AND (0x80 OR 0x7F)" by (simp only: bit.conj_disj_distrib)
  also have "(0x80 OR 0x7F :: byte) = - 1" by simp
  finally show ?thesis by simp
qed

lemma bit7_iff: "bit (b :: byte) 7 \<longleftrightarrow> 128 \<le> unat b"
proof -
  have "unat b < 256" using unsigned_less [of b, where 'a = nat] by simp
  then have "unat b div 128 < 2" by (simp add: less_mult_imp_div_less)
  then have "odd (unat b div 128) \<longleftrightarrow> 128 \<le> unat b" by (auto simp: less_2_cases_iff odd_iff_mod_2_eq_one)
  moreover have "bit b 7 \<longleftrightarrow> bit (unat b) 7" by (simp add: bit_unsigned_iff)
  ultimately show ?thesis by (simp add: bit_iff_odd)
qed

lemma low_byte:
  assumes "unat (b :: byte) < 128" shows "b AND 0x80 = 0" "b AND 0x7F = b"
proof -
  show *: "b AND 0x80 = 0" using assms by (simp add: byte_and_128 bit7_iff)
  show "b AND 0x7F = b" using byte_split2 [of b] * by simp
qed

lemma first_byte:
  fixes b :: byte
  assumes "b AND 0x70 = 0" "opcode_from_bits (b AND 0x0F) = Ok oc"
  shows "b = (if b AND 0x80 \<noteq> 0 then 0x80 else 0) OR opcode_bits oc"
proof -
  have "b AND 0x0F = opcode_bits oc" using assms(2) by (auto simp: opcode_from_bits_def split: if_splits)
  then show ?thesis using byte_split3 [of b] assms(1) by (auto simp: byte_and_128 split: if_splits)
qed

lemma first_byte_fields:
  fixes b :: byte
  assumes "b = (if fin then 0x80 else 0) OR opcode_bits oc"
  shows "b AND 0x70 = 0" "b AND 0x80 \<noteq> 0 \<longleftrightarrow> fin" "opcode_from_bits (b AND 0x0F) = Ok oc"
  using assms by (cases oc; cases fin; simp add: opcode_from_bits_def)+

section \<open>The one encoding of a server header\<close>

text \<open>RFC 6455: the length in the fewest bytes, after the byte with the final bit and the opcode.\<close>

definition len_code :: "nat \<Rightarrow> byte list" where
  "len_code len = (if len < 126 then [of_nat len] else if len < 2 ^ 16 then 126 # be_bytes 2 len else 127 # be_bytes 8 len)"

definition server_header :: "bool \<Rightarrow> opcode \<Rightarrow> nat \<Rightarrow> byte list" where
  "server_header fin oc len = ((if fin then 0x80 else 0) OR opcode_bits oc) # len_code len"

definition header_ok :: "bool \<Rightarrow> opcode \<Rightarrow> nat \<Rightarrow> nat \<Rightarrow> bool" where
  "header_ok fin oc len limit \<longleftrightarrow> len < 2 ^ 63 \<and> len \<le> limit \<and> (is_control oc \<longrightarrow> fin \<and> len \<le> 125)"

definition header_of :: "bool \<Rightarrow> opcode \<Rightarrow> nat \<Rightarrow> frame_header" where
  "header_of fin oc len =
     \<lparr>fh_fin = fin, fh_opcode = oc, fh_header_len = length (server_header fin oc len), fh_payload_len = len\<rparr>"

lemma len_code_hd: "\<exists>c t. len_code len = c # t \<and> unat c < 128 \<and> length t \<le> 8"
  by (auto simp: len_code_def unat_of_nat)

lemma payload_length_complete:
  assumes "len_code len = c # t" "len < 2 ^ 63"
  shows "payload_length (b0 # c # t @ rest) c = Ok (Some (len, 2 + length t))"
proof -
  consider "len < 126" | "126 \<le> len" "len < 2 ^ 16" | "2 ^ 16 \<le> len" by linarith
  then show ?thesis
  proof cases
    case 1
    have "(of_nat len :: byte) \<noteq> 126" "(of_nat len :: byte) \<noteq> 127" "unat (of_nat len :: byte) = len"
      using 1 by (auto simp: word_unat_eq_iff unat_of_nat)
    then show ?thesis using 1 assms by (auto simp: payload_length_def frame_consts len_code_def)
  next
    case 2
    then have ct: "c = 126" "t = be_bytes 2 len" using assms by (simp_all add: len_code_def)
    have "from_be (be_bytes 2 len) = len" using 2 by (intro from_be_bytes) simp
    then show ?thesis using ct 2 by (simp add: payload_length_def frame_consts)
  next
    case 3
    then have ct: "c = 127" "t = be_bytes 8 len" using assms by (simp_all add: len_code_def)
    have "from_be (be_bytes 8 len) = len" using assms(2) by (intro from_be_bytes) simp
    then show ?thesis using ct 3 assms(2) by (simp add: payload_length_def frame_consts)
  qed
qed

lemma payload_length_sound:
  assumes "payload_length (b0 # c # t) c = Ok (Some (len, hl))" "unat c < 128"
  shows "\<exists>rest. c # t = len_code len @ rest \<and> hl = Suc (length (len_code len)) \<and> len < 2 ^ 63"
proof -
  consider "c = 126" | "c = 127" | "c \<noteq> 126" "c \<noteq> 127" by blast
  then show ?thesis
  proof cases
    case 1
    then have *: "2 \<le> length t" "len = from_be (take 2 t)" "126 \<le> len" "hl = 4"
      using assms by (auto simp: payload_length_def frame_consts Let_def split: if_splits)
    have "len < 2 ^ 16" using from_be_less [of "take 2 t"] * by simp
    moreover have "be_bytes 2 len = take 2 t" using * be_bytes_from_be [of "take 2 t" 2] by simp
    ultimately show ?thesis using * 1 by (intro exI [of _ "drop 2 t"]) (simp add: len_code_def)
  next
    case 2
    then have *: "8 \<le> length t" "len = from_be (take 8 t)" "2 ^ 16 \<le> len" "len div 2 ^ 63 = 0" "hl = 10"
      using assms by (auto simp: payload_length_def frame_consts Let_def split: if_splits)
    have "len < 2 ^ 63" using *(4) by (simp add: div_eq_0_iff)
    moreover have "be_bytes 8 len = take 8 t" using * be_bytes_from_be [of "take 8 t" 8] by simp
    ultimately show ?thesis using * 2 by (intro exI [of _ "drop 8 t"]) (simp add: len_code_def)
  next
    case 3
    then have *: "len = unat c" "hl = 2" using assms by (auto simp: payload_length_def frame_consts)
    have "unat c \<noteq> 126" "unat c \<noteq> 127" using 3 by (auto simp: word_unat_eq_iff)
    then have "len < 126" using assms(2) * by simp
    then show ?thesis using * by (intro exI [of _ t]) (simp add: len_code_def)
  qed
qed

lemma payload_length_prefix:
  assumes "len_code len = c # t" "k < length t"
  shows "payload_length (b0 # c # take k t) c = Ok None"
  using assms by (auto simp: payload_length_def frame_consts len_code_def word_unat_eq_iff split: if_splits)

lemma payload_length_stable:
  assumes "payload_length buf c \<noteq> Ok None" shows "payload_length (buf @ s) c = payload_length buf c"
  using assms by (auto simp: payload_length_def Let_def split: if_splits)

lemma parse_header_complete:
  assumes "header_ok fin oc len limit"
  shows "parse_server_header (server_header fin oc len @ rest) limit = Ok (Some (header_of fin oc len))"
proof -
  obtain c t where ct: "len_code len = c # t" "unat c < 128" using len_code_hd by blast
  show ?thesis
    using assms ct first_byte_fields [OF refl, of fin oc] low_byte [OF ct(2)] payload_length_complete [OF ct(1), of _ rest]
    by (auto simp: parse_server_header_def server_header_def header_of_def header_ok_def nth_opt_def Let_def frame_consts)
qed

lemma parse_header_prefix:
  assumes "k < length (server_header fin oc len)"
  shows "parse_server_header (take k (server_header fin oc len)) limit = Ok None"
proof -
  obtain c t where ct: "len_code len = c # t" "unat c < 128" using len_code_hd by blast
  show ?thesis
  proof (cases "k < 2")
    case True
    then show ?thesis by (auto simp: parse_server_header_def nth_opt_def)
  next
    case False
    then obtain j where k: "k = Suc (Suc j)" by (metis add_2_eq_Suc le_add_diff_inverse not_less)
    have j: "j < length t" using assms by (simp add: k ct server_header_def)
    show ?thesis
      using ct k first_byte_fields [OF refl, of fin oc] low_byte [OF ct(2)] payload_length_prefix [OF ct(1) j]
      by (simp add: parse_server_header_def server_header_def nth_opt_def Let_def)
  qed
qed

lemma parse_header_sound:
  assumes "parse_server_header buf limit = Ok (Some h)"
  shows "\<exists>rest. buf = server_header (fh_fin h) (fh_opcode h) (fh_payload_len h) @ rest
    \<and> h = header_of (fh_fin h) (fh_opcode h) (fh_payload_len h) \<and> header_ok (fh_fin h) (fh_opcode h) (fh_payload_len h) limit"
proof -
  obtain b0 b1 t where buf: "buf = b0 # b1 # t"
    using assms by (cases buf; cases "tl buf") (auto simp: parse_server_header_def nth_opt_def)
  have masked: "b1 AND 0x80 = 0" and bits: "b0 AND 0x70 = 0"
    using assms buf by (auto simp: parse_server_header_def nth_opt_def Let_def rbind_Ok_iff split: if_splits)
  have b1: "b1 AND 0x7F = b1" "unat b1 < 128"
    using byte_split2 [of b1] masked byte_and_128 [of b1] by (auto simp: bit7_iff split: if_splits)
  obtain oc where oc: "opcode_from_bits (b0 AND 0x0F) = Ok oc"
    using assms buf bits by (cases "opcode_from_bits (b0 AND 0x0F)") (auto simp: parse_server_header_def nth_opt_def Let_def)
  obtain len hl where len: "payload_length (b0 # b1 # t) b1 = Ok (Some (len, hl))"
    using assms buf bits oc masked b1
    by (cases "payload_length (b0 # b1 # t) b1") (auto simp: parse_server_header_def nth_opt_def Let_def split: option.splits)
  have ok: "is_control oc \<longrightarrow> b0 AND 0x80 \<noteq> 0 \<and> len \<le> 125" "len \<le> limit"
    and h: "h = \<lparr>fh_fin = (b0 AND 0x80 \<noteq> 0), fh_opcode = oc, fh_header_len = hl, fh_payload_len = len\<rparr>"
    using assms buf bits oc masked b1 len
    by (auto simp: parse_server_header_def nth_opt_def Let_def frame_consts split: if_splits)
  obtain rest where rest: "b1 # t = len_code len @ rest" "hl = Suc (length (len_code len))" "len < 2 ^ 63"
    using payload_length_sound [OF len b1(2)] by blast
  show ?thesis using first_byte [OF bits oc] rest ok h buf
    by (intro exI [of _ rest]) (simp add: server_header_def header_of_def header_ok_def)
qed

lemma parse_header_stable:
  assumes "parse_server_header buf limit \<noteq> Ok None"
  shows "parse_server_header (buf @ s) limit = parse_server_header buf limit"
proof -
  obtain b0 b1 t where buf: "buf = b0 # b1 # t"
    using assms by (cases buf; cases "tl buf") (auto simp: parse_server_header_def nth_opt_def)
  show ?thesis
  proof (cases "payload_length buf (b1 AND 0x7F) = Ok None")
    case True
    then show ?thesis using assms buf
      by (cases "opcode_from_bits (b0 AND 0x0F)") (auto simp: parse_server_header_def nth_opt_def Let_def)
  next
    case False
    then show ?thesis using payload_length_stable [OF False, of s] buf
      by (cases "opcode_from_bits (b0 AND 0x0F)") (simp_all add: parse_server_header_def nth_opt_def Let_def)
  qed
qed

text \<open>More bytes are asked for in two cases only: fewer than two bytes, and a valid first byte with a length of two or eight bytes that
  have not all arrived.\<close>

definition cut_short :: "byte list \<Rightarrow> bool" where
  "cut_short buf \<longleftrightarrow> length buf < 2
     \<or> (\<exists>fin oc c t. buf = ((if fin then 0x80 else 0) OR opcode_bits oc) # c # t \<and> (c = 126 \<and> length t < 2 \<or> c = 127 \<and> length t < 8))"

lemma payload_length_waits: "payload_length (b0 # c # t) c = Ok None \<longleftrightarrow> c = 126 \<and> length t < 2 \<or> c = 127 \<and> length t < 8"
  by (auto simp: payload_length_def frame_consts Let_def)

lemma parse_header_waits: "parse_server_header buf limit = Ok None \<longleftrightarrow> cut_short buf"
proof (cases "length buf < 2")
  case True
  then show ?thesis by (auto simp: parse_server_header_def cut_short_def nth_opt_def)
next
  case False
  then obtain b0 c t where buf: "buf = b0 # c # t" by (cases buf; cases "tl buf") auto
  show ?thesis
  proof
    assume ok: "parse_server_header buf limit = Ok None"
    then have b: "b0 AND 0x70 = 0" "c AND 0x80 = 0" by (auto simp: buf parse_server_header_def nth_opt_def Let_def rbind_Ok_iff split: if_splits)
    then have c: "c AND 0x7F = c" using byte_split2 [of c] by auto
    obtain oc where oc: "opcode_from_bits (b0 AND 0x0F) = Ok oc"
      using ok b by (cases "opcode_from_bits (b0 AND 0x0F)") (auto simp: buf parse_server_header_def nth_opt_def Let_def)
    obtain found where found: "payload_length (b0 # c # t) c = Ok found"
      using ok b c oc by (cases "payload_length (b0 # c # t) c") (auto simp: buf parse_server_header_def nth_opt_def Let_def)
    have "found = None"
      using ok b c oc found by (cases found) (auto simp: buf parse_server_header_def nth_opt_def Let_def split: if_splits)
    with found have "payload_length (b0 # c # t) c = Ok None" by simp
    then show "cut_short buf" unfolding cut_short_def buf payload_length_waits using first_byte [OF b(1) oc] by metis
  next
    assume "cut_short buf"
    then obtain fin oc where w: "b0 = (if fin then 0x80 else 0) OR opcode_bits oc" "c = 126 \<and> length t < 2 \<or> c = 127 \<and> length t < 8"
      using False by (auto simp: buf cut_short_def)
    then have "unat c < 128" by auto
    then show "parse_server_header buf limit = Ok None"
      using w first_byte_fields [OF refl, of fin oc] low_byte [of c] payload_length_waits [of b0 c t]
      by (auto simp: buf parse_server_header_def nth_opt_def Let_def)
  qed
qed

section \<open>What a client frame holds\<close>

lemma put_step:
  assumes "length (fw_out w) < 2 ^ 64"
  shows "put b w = (if fw_pos w + length b \<le> length (fw_out w)
    then (Ok (), w\<lparr>fw_out := write_at (fw_pos w) b (fw_out w), fw_pos := fw_pos w + length b\<rparr>) else (Err BufferTooSmall, w))"
  using assms by (auto simp: put_def reserve_def Let_def fits_u64_def)

lemma write_at_write_at:
  assumes "p + length a + length b \<le> length buf"
  shows "write_at (p + length a) b (write_at p a buf) = write_at p (a @ b) buf"
  using assms by (simp add: write_at_def ac_simps)

lemma put_all_result:
  assumes "length (fw_out w) < 2 ^ 64" "fw_pos w \<le> length (fw_out w)"
  shows "if fw_pos w + length (concat bs) \<le> length (fw_out w)
    then put_all bs w = (Ok (), w\<lparr>fw_out := write_at (fw_pos w) (concat bs) (fw_out w), fw_pos := fw_pos w + length (concat bs)\<rparr>)
    else \<exists>w'. put_all bs w = (Err BufferTooSmall, w')"
  using assms
proof (induction bs arbitrary: w)
  case Nil
  then show ?case by (simp add: write_at_def)
next
  case (Cons b bs)
  show ?case
  proof (cases "fw_pos w + length b \<le> length (fw_out w)")
    case True
    let ?w = "w\<lparr>fw_out := write_at (fw_pos w) b (fw_out w), fw_pos := fw_pos w + length b\<rparr>"
    have put: "put b w = (Ok (), ?w)" using put_step [OF Cons.prems(1)] True by simp
    have len: "length (fw_out ?w) = length (fw_out w)" using True by simp
    show ?thesis using Cons.IH [of ?w] Cons.prems True put len write_at_write_at [of "fw_pos w" b "concat bs" "fw_out w"]
      by (simp add: add.assoc split: if_splits)
  next
    case False
    then show ?thesis using put_step [OF Cons.prems(1), of b] by simp
  qed
qed

lemma length_mask_bytes [simp]: "length (mask_bytes key i ps) = length ps"
  by (induction ps arbitrary: i) auto

lemma unmask [simp]: "mask_bytes key i (mask_bytes key i ps) = ps"
  by (induction ps arbitrary: i) (auto simp: xor.assoc)

text \<open>
  The other end of the connection, by RFC 6455: the header read as a server's with the mask
  bit cleared, the key after it, and the payload unmasked with it.
\<close>

definition receive_client :: "byte list \<Rightarrow> (opcode \<times> byte list) option" where
  "receive_client buf =
     (case buf of
        b0 # b1 # t \<Rightarrow>
          if b1 AND MASKED = 0 then None
          else
            (case parse_server_header (b0 # (b1 AND 0x7F) # t) (2 ^ 63) of
               Ok (Some h) \<Rightarrow>
                 let key = take 4 (drop (fh_header_len h) buf);
                     body = drop (fh_header_len h + 4) buf
                 in if fh_fin h \<and> length body = fh_payload_len h then Some (fh_opcode h, mask_bytes key 0 body) else None
             | _ \<Rightarrow> None)
      | _ \<Rightarrow> None)"

definition client_frame :: "opcode \<Rightarrow> byte list \<Rightarrow> byte list \<Rightarrow> byte list" where
  "client_frame oc payload key =
     (FIN OR opcode_bits oc) # concat (length_parts (length payload)) @ key @ mask_bytes key 0 payload"

lemma length_parts_code:
  assumes "len_code len = c # t" shows "concat (length_parts len) = (MASKED OR c) # t"
  using assms by (auto simp: length_parts_def len_code_def frame_consts split: if_splits)

lemma receive_client_frame:
  assumes "length key = 4" "length payload < 2 ^ 63" "is_control oc \<longrightarrow> length payload \<le> 125"
  shows "receive_client (client_frame oc payload key) = Some (oc, payload)"
proof -
  let ?len = "length payload"
  obtain c t where ct: "len_code ?len = c # t" "unat c < 128" using len_code_hd by blast
  have marked: "(MASKED OR c) AND MASKED \<noteq> 0" "(MASKED OR c) AND 0x7F = c"
    using low_byte [OF ct(2)] by (auto simp: frame_consts bit.conj_disj_distrib2)
  have hdr: "(FIN OR opcode_bits oc) # c # t = server_header True oc ?len" by (simp add: server_header_def ct frame_consts)
  have "parse_server_header (server_header True oc ?len @ key @ mask_bytes key 0 payload) (2 ^ 63) = Ok (Some (header_of True oc ?len))"
    using assms(2,3) by (intro parse_header_complete) (simp add: header_ok_def)
  moreover have "drop (6 + length t) (a # b # t @ key @ body) = body" for a b :: byte and body
    using assms(1) by (simp add: numeral_eq_Suc)
  ultimately show ?thesis using marked assms(1) ct
    by (simp add: receive_client_def client_frame_def length_parts_code [OF ct(1)] header_of_def hdr [symmetric] Let_def)
qed

lemma client_frame_length:
  assumes "length key = 4" shows "length (client_frame oc payload key) \<le> MAX_CLIENT_HEADER + length payload"
proof -
  obtain c t where ct: "len_code (length payload) = c # t" "length t \<le> 8" using len_code_hd by blast
  show ?thesis using assms ct by (simp add: client_frame_def length_parts_code [OF ct(1)] MAX_CLIENT_HEADER_def)
qed

lemma encode_client_frame_result:
  assumes "length out < 2 ^ 64" "\<not> (is_control oc \<and> length payload > MAX_CONTROL_PAYLOAD)"
  shows "if length (client_frame oc payload key) \<le> length out
    then encode_client_frame oc payload key out
      = (Ok (length (client_frame oc payload key)), write_at 0 (client_frame oc payload key) out)
    else \<exists>out'. encode_client_frame oc payload key out = (Err BufferTooSmall, out')"
proof -
  define bs where "bs = [[FIN OR opcode_bits oc]] @ length_parts (length payload) @ [key]"
  let ?w = "\<lparr>fw_out = out, fw_pos = 0\<rparr>"
  have frame: "client_frame oc payload key = concat bs @ mask_bytes key 0 payload" by (simp add: client_frame_def bs_def)
  have puts: "if length (concat bs) \<le> length out
      then put_all bs ?w = (Ok (), \<lparr>fw_out = write_at 0 (concat bs) out, fw_pos = length (concat bs)\<rparr>)
      else \<exists>w'. put_all bs ?w = (Err BufferTooSmall, w')"
    using put_all_result [of ?w bs] assms(1) by simp
  have enc: "encode_client_frame oc payload key out = (case put_all bs ?w of (Err e, w) \<Rightarrow> (Err e, fw_out w)
      | (Ok _, w) \<Rightarrow> (case reserve (length payload) w of (Err e, w1) \<Rightarrow> (Err e, fw_out w1)
          | (Ok at_pos, w1) \<Rightarrow> (Ok (fw_pos w1), write_at at_pos (mask_bytes key 0 payload) (fw_out w1))))"
    unfolding encode_client_frame_def bs_def if_not_P [OF assms(2)] ..
  show ?thesis
  proof (cases "length (concat bs) \<le> length out")
    case True
    have twice: "write_at (length (concat bs)) (mask_bytes key 0 payload) (write_at 0 (concat bs) out) = write_at 0 (client_frame oc payload key) out"
      if "length (client_frame oc payload key) \<le> length out"
      using write_at_write_at [of 0 "concat bs" "mask_bytes key 0 payload" out] that by (simp add: frame)
    show ?thesis using True puts enc twice assms(1) by (auto simp: reserve_def Let_def frame fits_u64_def)
  next
    case False
    then show ?thesis using puts enc by (auto simp: frame)
  qed
qed

section \<open>Properties\<close>

text \<open>C33: The header parser accepts exactly the one encoding RFC 6455 allows: a header is returned just when
  the bytes start with its minimal encoding, unmasked, without reserved bits, within the size limit and, for
  a control frame, whole and short; more bytes are asked for just when fewer than two are there, or a valid first byte
  and the mark of a length field that is not all there, as in every cut of a header; and bytes that arrive later never change an
  answer already given.\<close>

theorem server_header_exact:
  "(parse_server_header buf limit = Ok (Some h) \<longleftrightarrow>
      (\<exists>fin oc len rest. buf = server_header fin oc len @ rest \<and> header_ok fin oc len limit
        \<and> h = \<lparr>fh_fin = fin, fh_opcode = oc, fh_header_len = length (server_header fin oc len), fh_payload_len = len\<rparr>))
    \<and> (parse_server_header buf limit = Ok None \<longleftrightarrow> cut_short buf)
    \<and> (k < length (server_header fin oc len) \<longrightarrow> parse_server_header (take k (server_header fin oc len)) limit = Ok None)
    \<and> (parse_server_header buf limit \<noteq> Ok None \<longrightarrow> parse_server_header (buf @ s) limit = parse_server_header buf limit)"
  using parse_header_complete parse_header_sound [of buf limit h] parse_header_prefix parse_header_waits [of buf limit] parse_header_stable [of buf limit s]
  by (auto simp: header_of_def)

theorem server_header_exact_witness:
  "parse_server_header [0x81, 126, 1, 0] 300 = Ok (Some \<lparr>fh_fin = True, fh_opcode = Text, fh_header_len = 4, fh_payload_len = 256\<rparr>)
    \<and> parse_server_header [0x81, 126, 1] 300 = Ok None"
proof -
  have hdr: "server_header True Text 256 = [0x81, 126, 1, 0]"
    by (simp add: server_header_def len_code_def be_bytes_def) (simp add: numeral_2_eq_2)
  let ?h = "\<lparr>fh_fin = True, fh_opcode = Text, fh_header_len = 4, fh_payload_len = 256\<rparr>"
  note parsed = server_header_exact [of "[0x81, 126, 1, 0]" 300 ?h 3 True Text 256 "[]"]
  have "[0x81, 126, 1, 0] = server_header True Text 256 @ [] \<and> header_ok True Text 256 300
    \<and> ?h = \<lparr>fh_fin = True, fh_opcode = Text, fh_header_len = length (server_header True Text 256), fh_payload_len = 256\<rparr>"
    unfolding hdr by (simp add: header_ok_def)
  then have "parse_server_header [0x81, 126, 1, 0] 300 = Ok (Some ?h)" using parsed [THEN conjunct1] by blast
  moreover have "parse_server_header (take 3 [0x81, 126, 1, 0]) 300 = Ok None"
    using parsed [THEN conjunct2, THEN conjunct2, THEN conjunct1] unfolding hdr by simp
  ultimately show ?thesis by (simp add: numeral_3_eq_3)
qed

text \<open>C34: A client frame holds its message: the encoder writes a prefix of the output that the receiving
  end reads back as the same opcode and payload, and leaves the rest of the output alone; it fails only for an
  over-long control frame or an output smaller than the largest header and the payload.\<close>

theorem client_frame_round_trip:
  assumes "length key = 4" "length payload < 2 ^ 63" "length out < 2 ^ 63"
  shows "case encode_client_frame oc payload key out of
      (Ok n, out') \<Rightarrow> length out' = length out \<and> drop n out' = drop n out \<and> receive_client (take n out') = Some (oc, payload)
    | (Err e, out') \<Rightarrow> (e = InvalidControlFrame \<and> is_control oc \<and> 125 < length payload)
        \<or> (e = BufferTooSmall \<and> length out < MAX_CLIENT_HEADER + length payload)"
proof (cases "is_control oc \<and> length payload > MAX_CONTROL_PAYLOAD")
  case True
  then show ?thesis by (simp add: encode_client_frame_def MAX_CONTROL_PAYLOAD_def)
next
  case ok: False
  have out: "length out < 2 ^ 64" using assms(3) by simp
  let ?f = "client_frame oc payload key"
  show ?thesis
  proof (cases "length ?f \<le> length out")
    case True
    then have "encode_client_frame oc payload key out = (Ok (length ?f), write_at 0 ?f out)"
      using encode_client_frame_result [OF out ok, of key] by simp
    moreover have "receive_client ?f = Some (oc, payload)"
      using ok by (intro receive_client_frame [OF assms(1,2)]) (auto simp: MAX_CONTROL_PAYLOAD_def)
    ultimately show ?thesis using True by (simp add: write_at_def)
  next
    case False
    then show ?thesis using encode_client_frame_result [OF out ok, of key] client_frame_length [OF assms(1), of oc payload] by auto
  qed
qed

theorem client_frame_round_trip_witness:
  "case encode_client_frame Text [104, 105] [1, 2, 3, 4] (replicate 20 0) of
      (Ok n, out') \<Rightarrow> receive_client (take n out') = Some (Text, [104, 105]) | (Err e, out') \<Rightarrow> False"
  using client_frame_round_trip [of "[1, 2, 3, 4]" "[104, 105]" "replicate 20 0" Text]
  by (auto simp: MAX_CLIENT_HEADER_def split: prod.splits result.splits)

end
