(* ===== verification/Net_Url.thy ===== *)
theory Net_Url
  imports Str_Text Ws_Frame
begin

text \<open>
  \<open>crates/bowst-venue/src/net/mod.rs\<close>: the error type of the network layer and the parser of URLs.
  The sockets and the TLS library below it only move bytes and are not modelled.
\<close>

section \<open>Errors and URLs\<close>

datatype http_error =
    IncompleteHeaders
  | Malformed string
  | Unsupported string
  | TruncatedBody
  | TooLarge nat

text \<open>What an I/O or a TLS error carries besides is the operating system's and the TLS library's.\<close>

datatype net_error =
    InvalidUrl string
  | NoRootCertificates
  | NetIo string
  | NetTls
  | NetClosed
  | NetTimeout string
  | HttpErr http_error
  | WebSocketErr ws_error

datatype scheme = SchemeWs | SchemeWss | SchemeHttp | SchemeHttps

fun is_tls :: "scheme \<Rightarrow> bool" where
  "is_tls SchemeWss = True"
| "is_tls SchemeHttps = True"
| "is_tls _ = False"

definition default_port :: "scheme \<Rightarrow> nat" where
  "default_port s = (if is_tls s then 443 else 80)"

record url =
  ur_scheme :: scheme
  ur_host :: "byte list"
  ur_port :: nat
  ur_path :: "byte list"

definition scheme_of :: "byte list \<Rightarrow> scheme option" where
  "scheme_of t =
     (if t = ascii ''ws'' then Some SchemeWs else if t = ascii ''wss'' then Some SchemeWss
      else if t = ascii ''http'' then Some SchemeHttp else if t = ascii ''https'' then Some SchemeHttps else None)"

text \<open>The port of an authority, and the host before it.\<close>

definition host_port :: "scheme \<Rightarrow> byte list \<Rightarrow> (byte list \<times> nat, net_error) result" where
  "host_port s authority =
     (case split_once [58] authority of
        Some (host, port) \<Rightarrow>
          (case parse_uint (2 ^ 16) port of
             Some p \<Rightarrow> if p \<noteq> 0 then Ok (host, p) else Err (InvalidUrl ''invalid port'')
           | None \<Rightarrow> Err (InvalidUrl ''invalid port''))
      | None \<Rightarrow> Ok (authority, default_port s))"

definition parse_url :: "byte list \<Rightarrow> (url, net_error) result" where
  "parse_url txt =
     (case split_once (ascii ''://'') txt of
        None \<Rightarrow> Err (InvalidUrl ''missing scheme'')
      | Some (scheme_txt, rest) \<Rightarrow>
          (case scheme_of scheme_txt of
             None \<Rightarrow> Err (InvalidUrl ''unsupported scheme'')
           | Some s \<Rightarrow>
               if 35 \<in> set rest \<or> 32 \<in> set rest \<or> \<not> list_all (\<lambda>b. b < 128) rest then Err (InvalidUrl ''fragment, space or non-ASCII'')
               else
                 let authority = takeWhile (\<lambda>b. b \<noteq> 47 \<and> b \<noteq> 63) rest;
                     path = dropWhile (\<lambda>b. b \<noteq> 47 \<and> b \<noteq> 63) rest
                 in
                 if 64 \<in> set authority \<or> 91 \<in> set authority then Err (InvalidUrl ''user info or IPv6 literal'')
                 else
                   rbind (host_port s authority) (\<lambda>(host, port).
                     if host = [] then Err (InvalidUrl ''missing host'')
                     else Ok \<lparr>ur_scheme = s, ur_host = host, ur_port = port,
                              ur_path = (if path \<noteq> [] \<and> hd path = 47 then path else 47 # path)\<rparr>)))"

definition host_header :: "url \<Rightarrow> byte list" where
  "host_header u =
     (if ur_port u = default_port (ur_scheme u) then ur_host u else ur_host u @ [58] @ show_nat (ur_port u))"

section \<open>Well-formed URLs\<close>

fun scheme_text :: "scheme \<Rightarrow> byte list" where
  "scheme_text SchemeWs = ascii ''ws''"
| "scheme_text SchemeWss = ascii ''wss''"
| "scheme_text SchemeHttp = ascii ''http''"
| "scheme_text SchemeHttps = ascii ''https''"

definition url_byte :: "byte \<Rightarrow> bool" where
  "url_byte b \<longleftrightarrow> b < 128 \<and> b \<noteq> 35 \<and> b \<noteq> 32"

definition auth_byte :: "byte \<Rightarrow> bool" where
  "auth_byte b \<longleftrightarrow> url_byte b \<and> b \<noteq> 47 \<and> b \<noteq> 63 \<and> b \<noteq> 64 \<and> b \<noteq> 91"

definition url_ok :: "url \<Rightarrow> bool" where
  "url_ok u \<longleftrightarrow> ur_host u \<noteq> [] \<and> list_all (\<lambda>b. auth_byte b \<and> b \<noteq> 58) (ur_host u)
     \<and> 0 < ur_port u \<and> ur_port u < 2 ^ 16 \<and> ur_path u \<noteq> [] \<and> hd (ur_path u) = 47 \<and> list_all url_byte (ur_path u)"

definition url_text :: "url \<Rightarrow> byte list" where
  "url_text u = scheme_text (ur_scheme u) @ ascii ''://'' @ host_header u @ ur_path u"

lemma ascii_bytes: "ascii ''://'' = [58, 47, 47]" "ascii ''ws'' = [119, 115]" "ascii ''wss'' = [119, 115, 115]"
  "ascii ''http'' = [104, 116, 116, 112]" "ascii ''https'' = [104, 116, 116, 112, 115]"
  by (simp_all add: ascii_def of_char_def)

lemma scheme_of_text: "scheme_of (scheme_text s) = Some s" "58 \<notin> set (scheme_text s)"
  by (cases s; simp add: scheme_of_def ascii_bytes)+

lemma digits_plain: "list_all is_digit ds \<Longrightarrow> list_all auth_byte ds"
  by (auto simp: list_all_iff is_digit_def auth_byte_def url_byte_def word_le_nat_alt word_less_nat_alt)

lemma host_port_ok:
  assumes "host_port s a = Ok (h, p)" "list_all auth_byte a"
  shows "0 < p \<and> p < 2 ^ 16 \<and> list_all (\<lambda>b. auth_byte b \<and> b \<noteq> 58) h"
proof (cases "split_once [58] a")
  case None
  then have c: "58 \<notin> set a" by (simp add: split_once_one_None)
  have "h = a" "p = 443 \<or> p = 80" using assms(1) None by (auto simp: host_port_def default_port_def split: if_splits)
  moreover have "list_all (\<lambda>b. auth_byte b \<and> b \<noteq> 58) a" using c assms(2) by (induction a) auto
  ultimately show ?thesis by auto
next
  case (Some hp)
  obtain k t where k: "find_sub [58] a = Some k" "hp = (take k a, t)" using Some by (auto simp: split_once_def)
  obtain q where q: "parse_uint (2 ^ 16) t = Some q" "q \<noteq> 0" "h = take k a" "p = q"
    using assms(1) unfolding host_port_def Some k(2) by (cases "parse_uint (2 ^ 16) t") (auto split: if_splits)
  have "58 \<notin> set (take k a)" using k(1)
  proof (induction a arbitrary: k)
    case (Cons b a)
    then show ?case by (cases "b = 58") (auto split: if_splits)
  qed simp
  moreover have "p < 2 ^ 16 \<and> 0 < p" using parse_uint_less [OF q(1)] q(2,4) by simp
  ultimately show ?thesis using assms(2) q(3) by (auto simp: list_all_iff dest: in_set_takeD)
qed

section \<open>How a URL may be written\<close>

lemma parse_uint_Some:
  assumes "0 < limit"
  shows "parse_uint limit t = Some n \<longleftrightarrow>
    (\<exists>ds. ds \<noteq> [] \<and> list_all is_digit ds \<and> (t = ds \<or> t = 43 # ds) \<and> digits_val ds = n \<and> n < limit)"
proof
  assume "parse_uint limit t = Some n"
  then show "\<exists>ds. ds \<noteq> [] \<and> list_all is_digit ds \<and> (t = ds \<or> t = 43 # ds) \<and> digits_val ds = n \<and> n < limit"
    using assms by (fastforce simp: parse_uint_def dest!: parse_digits_Some split: list.splits if_splits)
next
  assume "\<exists>ds. ds \<noteq> [] \<and> list_all is_digit ds \<and> (t = ds \<or> t = 43 # ds) \<and> digits_val ds = n \<and> n < limit"
  then obtain ds where ds: "ds \<noteq> []" "list_all is_digit ds" "t = ds \<or> t = 43 # ds" "digits_val ds = n" "n < limit" by blast
  then show "parse_uint limit t = Some n"
    using parse_uint_digits [of ds limit] parse_digits_eq [of ds 0 limit] by (auto simp: parse_uint_def)
qed

text \<open>A port is left out when it is the default one, or is written in digits, with leading zeros and a plus sign if one likes; a path may lack
  the slash before its query, or be left out.\<close>

definition port_spelled :: "scheme \<Rightarrow> nat \<Rightarrow> byte list \<Rightarrow> bool" where
  "port_spelled s p t \<longleftrightarrow> t = [] \<and> p = default_port s
     \<or> (\<exists>ds. ds \<noteq> [] \<and> list_all is_digit ds \<and> digits_val ds = p \<and> (t = 58 # ds \<or> t = 58 # 43 # ds))"

definition path_spelled :: "byte list \<Rightarrow> byte list \<Rightarrow> bool" where
  "path_spelled path t \<longleftrightarrow> t = path \<or> path = 47 # t \<and> (t = [] \<or> hd t = 63)"

definition url_spelled :: "url \<Rightarrow> byte list \<Rightarrow> bool" where
  "url_spelled u txt \<longleftrightarrow> url_ok u \<and> (\<exists>port path. txt = scheme_text (ur_scheme u) @ ascii ''://'' @ ur_host u @ port @ path
     \<and> port_spelled (ur_scheme u) (ur_port u) port \<and> path_spelled (ur_path u) path)"

lemma url_spelledI:
  "url_ok u \<Longrightarrow> port_spelled (ur_scheme u) (ur_port u) port \<Longrightarrow> path_spelled (ur_path u) path
   \<Longrightarrow> txt = scheme_text (ur_scheme u) @ ascii ''://'' @ ur_host u @ port @ path \<Longrightarrow> url_spelled u txt"
  unfolding url_spelled_def by blast

lemma spelled_ok: "url_spelled u txt \<Longrightarrow> url_ok u"
  unfolding url_spelled_def by blast

lemma default_port_ok: "0 < default_port s" "default_port s < 2 ^ 16"
  by (simp_all add: default_port_def)

lemma host_port_spelled:
  "host_port s a = Ok (h, p) \<longleftrightarrow> 58 \<notin> set h \<and> 0 < p \<and> p < 2 ^ 16 \<and> (\<exists>t. a = h @ t \<and> port_spelled s p t)"
proof
  assume ok: "host_port s a = Ok (h, p)"
  show "58 \<notin> set h \<and> 0 < p \<and> p < 2 ^ 16 \<and> (\<exists>t. a = h @ t \<and> port_spelled s p t)"
  proof (cases "58 \<in> set a")
    case False
    then show ?thesis using ok split_once_one_None [of 58 a] default_port_ok by (auto simp: host_port_def port_spelled_def)
  next
    case True
    then obtain w r where a: "a = w @ 58 # r" "58 \<notin> set w" by (meson split_list_first)
    then have "parse_uint (2 ^ 16) r = Some p" "p \<noteq> 0" "h = w"
      using ok split_once_one [OF a(2), of r] by (auto simp: host_port_def split: option.splits if_splits)
    then show ?thesis using a parse_uint_Some [of "2 ^ 16" r p] by (auto simp: port_spelled_def)
  qed
next
  assume r: "58 \<notin> set h \<and> 0 < p \<and> p < 2 ^ 16 \<and> (\<exists>t. a = h @ t \<and> port_spelled s p t)"
  then obtain t where t: "a = h @ t" "port_spelled s p t" by blast
  show "host_port s a = Ok (h, p)"
  proof (cases "t = []")
    case True
    then show ?thesis using r t split_once_one_None [of 58 h] by (auto simp: host_port_def port_spelled_def)
  next
    case False
    then obtain d where d: "t = 58 # d" "\<exists>ds. ds \<noteq> [] \<and> list_all is_digit ds \<and> (d = ds \<or> d = 43 # ds) \<and> digits_val ds = p \<and> p < 2 ^ 16"
      using t(2) r by (auto simp: port_spelled_def)
    then have "parse_uint (2 ^ 16) d = Some p" using parse_uint_Some [of "2 ^ 16" d p] by simp
    then show ?thesis using r t(1) d(1) split_once_one [of 58 h d] by (simp add: host_port_def)
  qed
qed

lemma port_spelled_bytes: "port_spelled s p t \<Longrightarrow> list_all auth_byte t"
  using digits_plain by (auto simp: port_spelled_def auth_byte_def url_byte_def)

lemma path_split:
  assumes "list_all auth_byte a" "p = [] \<or> hd p = 47 \<or> hd p = 63"
  shows "takeWhile (\<lambda>b. b \<noteq> 47 \<and> b \<noteq> 63) (a @ p) = a" "dropWhile (\<lambda>b. b \<noteq> 47 \<and> b \<noteq> 63) (a @ p) = p"
  using assms by (cases p; auto simp: takeWhile_append dropWhile_append list_all_iff auth_byte_def)+

lemma parsed_is_spelled:
  assumes p: "parse_url txt = Ok v" shows "url_spelled v txt"
proof -
  obtain st rest s where r: "split_once (ascii ''://'') txt = Some (st, rest)" "scheme_of st = Some s"
    using p by (auto simp: parse_url_def split: option.splits)
  let ?a = "takeWhile (\<lambda>b. b \<noteq> 47 \<and> b \<noteq> 63) rest" and ?p = "dropWhile (\<lambda>b. b \<noteq> 47 \<and> b \<noteq> 63) rest"
  have rest: "35 \<notin> set rest" "32 \<notin> set rest" "list_all (\<lambda>b. b < 128) rest" "64 \<notin> set ?a" "91 \<notin> set ?a"
    using p r by (auto simp: parse_url_def Let_def split: if_splits)
  obtain h n where hn: "host_port s ?a = Ok (h, n)" "h \<noteq> []"
    and v: "v = \<lparr>ur_scheme = s, ur_host = h, ur_port = n, ur_path = (if ?p \<noteq> [] \<and> hd ?p = 47 then ?p else 47 # ?p)\<rparr>"
    using p r rest by (cases "host_port s ?a") (auto simp: parse_url_def Let_def split: if_splits)
  have u: "list_all url_byte rest" using rest(1-3) by (auto simp: list_all_iff url_byte_def)
  then have a: "list_all auth_byte ?a" using rest(4,5) by (auto simp: list_all_iff auth_byte_def dest: set_takeWhileD)
  from host_port_ok [OF hn(1) a] hn(2) v u have ok: "url_ok v"
    by (auto simp: url_ok_def list_all_iff url_byte_def dest: set_dropWhileD)
  have st: "st = scheme_text s" using r(2) by (auto simp: scheme_of_def split: if_splits)
  obtain t where t: "?a = h @ t" "port_spelled s n t" using hn(1) by (auto simp: host_port_spelled)
  have "?p = [] \<or> hd ?p = 47 \<or> hd ?p = 63" using hd_dropWhile [of "\<lambda>b. b \<noteq> 47 \<and> b \<noteq> 63" rest] by blast
  then have path: "path_spelled (ur_path v) ?p" using v by (auto simp: path_spelled_def)
  have shape: "txt = scheme_text (ur_scheme v) @ ascii ''://'' @ ur_host v @ t @ ?p"
    using split_once_Some [OF r(1)] takeWhile_dropWhile_id [of "\<lambda>b. b \<noteq> 47 \<and> b \<noteq> 63" rest] t(1) st v by simp
  show ?thesis by (rule url_spelledI [OF ok _ path shape]) (use t(2) v in simp)
qed

lemma spelled_is_parsed:
  assumes "url_spelled u txt" shows "parse_url txt = Ok u"
proof -
  obtain port path where ok: "url_ok u" and shape: "txt = scheme_text (ur_scheme u) @ ascii ''://'' @ ur_host u @ port @ path"
    and sp: "port_spelled (ur_scheme u) (ur_port u) port" "path_spelled (ur_path u) path"
    using assms by (auto simp: url_spelled_def)
  let ?a = "ur_host u @ port" and ?rest = "(ur_host u @ port) @ path"
  have h: "58 \<notin> set (ur_host u)" "ur_host u \<noteq> []" "list_all auth_byte (ur_host u)" and o: "0 < ur_port u" "ur_port u < 2 ^ 16"
    and p: "ur_path u \<noteq> []" "hd (ur_path u) = 47" "list_all url_byte (ur_path u)" using ok by (auto simp: url_ok_def list_all_iff)
  have a: "list_all auth_byte ?a" using h(3) port_spelled_bytes [OF sp(1)] by simp
  have b: "list_all url_byte path" "path = [] \<or> hd path = 47 \<or> hd path = 63"
    "ur_path u = (if path \<noteq> [] \<and> hd path = 47 then path else 47 # path)" using sp(2) p by (auto simp: path_spelled_def)
  have "split_once (ascii ''://'') txt = Some (scheme_text (ur_scheme u), ?rest)"
    unfolding shape append_assoc using scheme_of_text(2) by (intro split_once_at) (simp_all add: ascii_bytes)
  moreover have "35 \<notin> set ?rest" "32 \<notin> set ?rest" "list_all (\<lambda>b. b < 128) ?rest" "64 \<notin> set ?a" "91 \<notin> set ?a"
    using a b(1) by (auto simp: list_all_iff auth_byte_def url_byte_def)
  moreover have "host_port (ur_scheme u) ?a = Ok (ur_host u, ur_port u)" using h(1) o sp(1) by (auto simp: host_port_spelled)
  ultimately show ?thesis
    using scheme_of_text(1) path_split [OF a b(2)] h(2) b(3) by (simp add: parse_url_def Let_def del: append_assoc set_append list_all_append)
qed

lemma url_text_spelled: "url_ok u \<Longrightarrow> url_spelled u (url_text u)"
  by (rule url_spelledI [where port = "if ur_port u = default_port (ur_scheme u) then [] else 58 # show_nat (ur_port u)" and path = "ur_path u"])
    (use show_nat_digits [of "ur_port u"] in \<open>auto simp: url_text_def host_header_def port_spelled_def path_spelled_def intro!: exI [of _ "show_nat (ur_port u)"]\<close>)

section \<open>Properties\<close>

text \<open>C36: A text parses as a URL exactly when it spells it: the scheme, a host without separators or user information, a port in
  digits that is a port and is left out only for the scheme's own, and a path that starts with a slash, which may be left out before a
  query and at the end; all in ASCII without fragment or space.  A URL that parses is well formed, and a well-formed URL written out
  parses back to itself.\<close>

theorem url_parse_exact:
  "(parse_url txt = Ok v \<longleftrightarrow> url_spelled v txt) \<and> (parse_url txt = Ok v \<longrightarrow> url_ok v) \<and> (url_ok u \<longrightarrow> parse_url (url_text u) = Ok u)"
  using parsed_is_spelled [of "txt" v] spelled_is_parsed [of v "txt"] url_text_spelled [of u] spelled_is_parsed [of u "url_text u"]
    spelled_ok [of v "txt"] by blast

theorem url_parse_exact_witness:
  "parse_url (ascii ''wss://a.b:+09443?s'') = Ok \<lparr>ur_scheme = SchemeWss, ur_host = [97, 46, 98], ur_port = 9443, ur_path = [47, 63, 115]\<rparr>
   \<and> parse_url (url_text \<lparr>ur_scheme = SchemeWss, ur_host = [97, 46, 98], ur_port = 9443, ur_path = [47, 115]\<rparr>)
     = Ok \<lparr>ur_scheme = SchemeWss, ur_host = [97, 46, 98], ur_port = 9443, ur_path = [47, 115]\<rparr>"
proof -
  have ok: "url_ok \<lparr>ur_scheme = SchemeWss, ur_host = [97, 46, 98], ur_port = 9443, ur_path = [47, 115]\<rparr>"
    "url_ok \<lparr>ur_scheme = SchemeWss, ur_host = [97, 46, 98], ur_port = 9443, ur_path = [47, 63, 115]\<rparr>"
    by (simp_all add: url_ok_def auth_byte_def url_byte_def)
  have "port_spelled SchemeWss 9443 [58, 43, 48, 57, 52, 52, 51]"
    unfolding port_spelled_def by (intro disjI2 exI [of _ "[48, 57, 52, 52, 51]"]) (simp add: is_digit_def digit_of_def)
  moreover have "path_spelled [47, 63, 115] [63, 115]" by (simp add: path_spelled_def)
  moreover have "ascii ''wss://a.b:+09443?s'' = scheme_text SchemeWss @ ascii ''://'' @ [97, 46, 98] @ [58, 43, 48, 57, 52, 52, 51] @ [63, 115]"
    by (simp add: ascii_def of_char_def)
  ultimately have "url_spelled \<lparr>ur_scheme = SchemeWss, ur_host = [97, 46, 98], ur_port = 9443, ur_path = [47, 63, 115]\<rparr> (ascii ''wss://a.b:+09443?s'')"
    by (intro url_spelledI [OF ok(2), of "[58, 43, 48, 57, 52, 52, 51]" "[63, 115]"]) simp_all
  then show ?thesis using url_parse_exact [of "ascii ''wss://a.b:+09443?s''" "\<lparr>ur_scheme = SchemeWss, ur_host = [97, 46, 98], ur_port = 9443, ur_path = [47, 63, 115]\<rparr>"
      "\<lparr>ur_scheme = SchemeWss, ur_host = [97, 46, 98], ur_port = 9443, ur_path = [47, 115]\<rparr>"] ok(1) by blast
qed

end
