(* ===== verification/Md_Books.thy ===== *)
theory Md_Books
  imports Depth Net_Url
begin

text \<open>
  \<open>crates/bowst-venue/src/binance/books.rs\<close>, with the counters and status values of \<open>md.rs\<close> it
  uses: every instrument's book, the decoders that feed them and the verification of one book
  at a time against a rebuilt one.

  The handler is the list of the calls made to it.  A reason is the value it is rendered from,
  not the rendered text.
\<close>

section \<open>State\<close>

definition VERIFY_LEVELS :: nat where "VERIFY_LEVELS = 100"

datatype snapshot_outcome = OutcomeLive | OutcomeUnchanged | OutcomeTooOld | OutcomeInvalid

record mismatch =
  mm_side :: side
  mm_level :: nat
  mm_update_id :: nat
  mm_live :: "level option"
  mm_rebuilt :: "level option"

datatype down_reason = DownSync sync_error | DownMismatch mismatch

datatype md_applied =
    Quiet
  | BookChanged instrument_id nanos
  | Down instrument_id down_reason

datatype verification = NotRunning | Pending | Passed | Failed mismatch | Unusable

record md_stats =
  st_messages :: nat
  st_deltas_applied :: nat
  st_book_invalidations :: nat
  st_connections :: nat
  st_snapshots_requested :: nat
  st_snapshots_applied :: nat
  st_verifications_passed :: nat
  st_verification_mismatches :: nat
  st_verifications_abandoned :: nat

definition md_stats_default :: md_stats where
  "md_stats_default = \<lparr>st_messages = 0, st_deltas_applied = 0, st_book_invalidations = 0, st_connections = 0,
     st_snapshots_requested = 0, st_snapshots_applied = 0, st_verifications_passed = 0, st_verification_mismatches = 0,
     st_verifications_abandoned = 0\<rparr>"

datatype apply_error = Undecodable decode_error | Unconfigured

datatype md_reason =
    ReasonDown down_reason
  | ReasonSync sync_error
  | ReasonDecode decode_error
  | ReasonText string
  | ReasonApply apply_error
  | ReasonNet net_error
  | ReasonHttpStatus nat
  | ReasonClosed "nat option"
  | ReasonNoData nanos

datatype md_status =
    Connecting
  | Connected
  | Disconnected md_reason
  | InstrumentLive instrument_id
  | InstrumentDown instrument_id md_reason
  | SnapshotFailed instrument_id md_reason

text \<open>One call to the handler.\<close>

datatype notice = OnBook instrument_id book nanos | OnStatus md_status

record shadow =
  sh_instrument :: "instrument_id option"
  sh_sync :: book_sync
  sh_loaded :: bool

record md_books =
  mb_instruments :: instrument_table
  mb_syncs :: "book_sync list"
  mb_shadow :: shadow
  mb_decoder :: update_decoder
  mb_snapshot_decoder :: snapshot_decoder
  mb_stats :: md_stats

definition index_of :: "instrument_id \<Rightarrow> nat" where
  "index_of i = unat i"

definition md_books_new :: "instrument_table \<Rightarrow> sync_config \<Rightarrow> nat \<Rightarrow> nat \<Rightarrow> (md_books, unit) result" where
  "md_books_new tbl cfg max_levels_per_message snapshot_levels =
     (case sync_new cfg of
        Err _ \<Rightarrow> Err ()
      | Ok s \<Rightarrow>
          Ok \<lparr>mb_instruments = tbl, mb_syncs = map (\<lambda>_. s) tbl,
              mb_shadow = \<lparr>sh_instrument = None, sh_sync = s, sh_loaded = False\<rparr>,
              mb_decoder = update_decoder_new max_levels_per_message, mb_snapshot_decoder = snapshot_decoder_new snapshot_levels,
              mb_stats = md_stats_default\<rparr>)"

definition md_is_live :: "instrument_id \<Rightarrow> md_books \<Rightarrow> bool" where
  "md_is_live i b = (case nth_opt (mb_syncs b) (index_of i) of Some s \<Rightarrow> is_live s | None \<Rightarrow> False)"

definition md_book :: "instrument_id \<Rightarrow> md_books \<Rightarrow> book option" where
  "md_book i b = Option.bind (nth_opt (mb_syncs b) (index_of i)) sync_book"

definition last_update_id :: "instrument_id \<Rightarrow> md_books \<Rightarrow> nat option" where
  "last_update_id i b = Option.bind (nth_opt (mb_syncs b) (index_of i)) last_seq"

definition verifying :: "md_books \<Rightarrow> instrument_id option" where
  "verifying b = sh_instrument (mb_shadow b)"

section \<open>Comparing two books\<close>

fun compare_levels :: "side \<Rightarrow> nat \<Rightarrow> ladder \<Rightarrow> ladder \<Rightarrow> nat \<Rightarrow> nat \<Rightarrow> mismatch option" where
  "compare_levels sd uid a b lvl 0 = None"
| "compare_levels sd uid a b lvl (Suc n) =
     (let x = nth_best a lvl; y = nth_best b lvl in
      if x \<noteq> y then Some \<lparr>mm_side = sd, mm_level = lvl, mm_update_id = uid, mm_live = x, mm_rebuilt = y\<rparr>
      else if x = None then None
      else compare_levels sd uid a b (Suc lvl) n)"

fun compare_sides :: "side list \<Rightarrow> nat \<Rightarrow> book \<Rightarrow> book \<Rightarrow> mismatch option" where
  "compare_sides [] uid live rebuilt = None"
| "compare_sides (sd # sds) uid live rebuilt =
     (case compare_levels sd uid (book_side sd live) (book_side sd rebuilt) 0 VERIFY_LEVELS of
        Some m \<Rightarrow> Some m
      | None \<Rightarrow> compare_sides sds uid live rebuilt)"

definition compare :: "book \<Rightarrow> book \<Rightarrow> nat \<Rightarrow> mismatch option" where
  "compare live rebuilt uid = compare_sides [Buy, Sell] uid live rebuilt"

section \<open>Operations\<close>

definition cancel_verification :: "md_books \<Rightarrow> md_books" where
  "cancel_verification b =
     (case sh_instrument (mb_shadow b) of
        None \<Rightarrow> b
      | Some _ \<Rightarrow> b\<lparr>mb_shadow := \<lparr>sh_instrument = None, sh_sync = reset (sh_sync (mb_shadow b)), sh_loaded = False\<rparr>\<rparr>)"

definition set_sync :: "instrument_id \<Rightarrow> book_sync \<Rightarrow> md_books \<Rightarrow> md_books" where
  "set_sync i s b = b\<lparr>mb_syncs := (mb_syncs b)[index_of i := s]\<rparr>"

definition bump_invalidations :: "md_books \<Rightarrow> md_books" where
  "bump_invalidations b =
     b\<lparr>mb_stats := (mb_stats b)\<lparr>st_book_invalidations := sat_u64 (st_book_invalidations (mb_stats b) + 1)\<rparr>\<rparr>"

text \<open>The verdict: nothing while there is nothing to compare.\<close>

definition verdict :: "md_books \<Rightarrow> (instrument_id \<times> mismatch option) option" where
  "verdict b =
     Option.bind (sh_instrument (mb_shadow b)) (\<lambda>i.
       if \<not> sh_loaded (mb_shadow b) then None
       else
         Option.bind (nth_opt (mb_syncs b) (index_of i)) (\<lambda>live.
           case (last_seq live, last_seq (sh_sync (mb_shadow b))) of
             (Some uid, Some shadow_seq) \<Rightarrow>
               if uid \<noteq> shadow_seq then None
               else Some (i, (case (sync_book live, sync_book (sh_sync (mb_shadow b))) of
                    (Some live, Some rebuilt) \<Rightarrow> compare live rebuilt uid | _ \<Rightarrow> None))
           | _ \<Rightarrow> None))"

definition settle_verification :: "md_books \<Rightarrow> mismatch option \<times> md_books" where
  "settle_verification b =
     (case verdict b of
        None \<Rightarrow> (None, b)
      | Some (i, found) \<Rightarrow>
          let b1 = cancel_verification b in
          (case found of
             None \<Rightarrow> (None, b1\<lparr>mb_stats := (mb_stats b1)\<lparr>st_verifications_passed := sat_u64 (st_verifications_passed (mb_stats b1) + 1)\<rparr>\<rparr>)
           | Some m \<Rightarrow>
               let b2 = bump_invalidations (b1\<lparr>mb_stats := (mb_stats b1)\<lparr>st_verification_mismatches := sat_u64 (st_verification_mismatches (mb_stats b1) + 1)\<rparr>\<rparr>)
               in (Some m, (case nth_opt (mb_syncs b2) (index_of i) of Some s \<Rightarrow> set_sync i (reset s) b2 | None \<Rightarrow> b2))))"

definition feed_shadow :: "seq_range \<Rightarrow> level_update list \<Rightarrow> md_books \<Rightarrow> md_books" where
  "feed_shadow r us b =
     b\<lparr>mb_shadow := (mb_shadow b)\<lparr>sh_sync := snd (on_delta r us (sh_sync (mb_shadow b)))\<rparr>\<rparr>"

definition apply_update :: "depth_update \<Rightarrow> book_sync \<Rightarrow> md_books \<Rightarrow> md_applied \<times> md_books" where
  "apply_update u s b =
     (let i = du_instrument u;
          (outcome, s1) = on_delta (du_range u) (du_updates u) s;
          b1 = set_sync i s1 b;
          is_verifying = (sh_instrument (mb_shadow b1) = Some i)
      in case outcome of
           Ok Applied \<Rightarrow>
             let b2 = b1\<lparr>mb_stats := (mb_stats b1)\<lparr>st_deltas_applied := sat_u64 (st_deltas_applied (mb_stats b1) + 1)\<rparr>\<rparr> in
             if is_verifying then
               (case settle_verification (feed_shadow (du_range u) (du_updates u) b2) of
                  (Some m, b3) \<Rightarrow> (Down i (DownMismatch m), b3)
                | (None, b3) \<Rightarrow> (BookChanged i (du_event_time u), b3))
             else (BookChanged i (du_event_time u), b2)
         | Ok _ \<Rightarrow> (Quiet, if is_verifying then feed_shadow (du_range u) (du_updates u) b1 else b1)
         | Err e \<Rightarrow> (Down i (DownSync e), bump_invalidations (if is_verifying then cancel_verification b1 else b1)))"

definition md_apply :: "byte list \<Rightarrow> md_books \<Rightarrow> (md_applied, apply_error) result \<times> md_books" where
  "md_apply message b0 =
     (let b = b0\<lparr>mb_stats := (mb_stats b0)\<lparr>st_messages := sat_u64 (st_messages (mb_stats b0) + 1)\<rparr>\<rparr> in
      case decode_update message (mb_instruments b) (mb_decoder b) of
        (Err e, dec) \<Rightarrow> (Err (Undecodable e), b\<lparr>mb_decoder := dec\<rparr>)
      | (Ok u, dec) \<Rightarrow>
          let b1 = b\<lparr>mb_decoder := dec\<rparr> in
          (case nth_opt (mb_syncs b1) (index_of (du_instrument u)) of
             None \<Rightarrow> (Err Unconfigured, b1)
           | Some s \<Rightarrow> (let (a, b2) = apply_update u s b1 in (Ok a, b2))))"

fun report :: "md_books \<Rightarrow> md_applied \<Rightarrow> notice list" where
  "report b Quiet = []"
| "report b (BookChanged i t) = (case md_book i b of Some book \<Rightarrow> [OnBook i book t] | None \<Rightarrow> [])"
| "report b (Down i reason) = [OnStatus (InstrumentDown i (ReasonDown reason))]"

definition md_on_message :: "byte list \<Rightarrow> md_books \<Rightarrow> (md_applied, apply_error) result \<times> notice list \<times> md_books" where
  "md_on_message message b =
     (case md_apply message b of
        (Err e, b1) \<Rightarrow> (Err e, [], b1)
      | (Ok a, b1) \<Rightarrow> (Ok a, report b1 a, b1))"

definition settle :: "book_sync \<Rightarrow> instrument_id \<Rightarrow> (bool, sync_error) result \<Rightarrow> nanos \<Rightarrow> md_books \<Rightarrow> snapshot_outcome \<times> notice list \<times> md_books" where
  "settle s i res fetched_at b =
     (case res of
        Ok True \<Rightarrow>
          (case sync_book s of
             Some book \<Rightarrow>
               (OutcomeLive, [OnStatus (InstrumentLive i), OnBook i book fetched_at],
                b\<lparr>mb_stats := (mb_stats b)\<lparr>st_snapshots_applied := sat_u64 (st_snapshots_applied (mb_stats b) + 1)\<rparr>\<rparr>)
           | None \<Rightarrow> (OutcomeLive, [], b))
      | Ok False \<Rightarrow> (OutcomeUnchanged, [], b)
      | Err (SnapshotTooOld _ _) \<Rightarrow> (OutcomeTooOld, [], b)
      | Err e \<Rightarrow> (OutcomeInvalid, [OnStatus (InstrumentDown i (ReasonSync e))], bump_invalidations b))"

definition md_on_snapshot ::
  "instrument_id \<Rightarrow> nat \<Rightarrow> level list \<Rightarrow> level list \<Rightarrow> nanos \<Rightarrow> md_books \<Rightarrow> snapshot_outcome \<times> notice list \<times> md_books" where
  "md_on_snapshot i uid bids asks fetched_at b =
     (case nth_opt (mb_syncs b) (index_of i) of
        None \<Rightarrow> (OutcomeInvalid, [], b)
      | Some s \<Rightarrow>
          let (res, s1) = on_snapshot uid bids asks s in
          settle s1 i res fetched_at (set_sync i s1 b))"

definition md_on_raw_snapshot :: "instrument_id \<Rightarrow> byte list \<Rightarrow> nanos \<Rightarrow> md_books \<Rightarrow> snapshot_outcome \<times> notice list \<times> md_books" where
  "md_on_raw_snapshot i body fetched_at b =
     (case table_get (mb_instruments b) i of
        None \<Rightarrow> (OutcomeInvalid, [], b)
      | Some meta \<Rightarrow>
          (case nth_opt (mb_syncs b) (index_of i) of
             None \<Rightarrow> (OutcomeInvalid, [], b)
           | Some s \<Rightarrow>
               (case decode_snapshot body meta (mb_snapshot_decoder b) of
                  (Err e, dec) \<Rightarrow> (OutcomeInvalid, [OnStatus (InstrumentDown i (ReasonDecode e))], b\<lparr>mb_snapshot_decoder := dec\<rparr>)
                | (Ok p, dec) \<Rightarrow>
                    let (res, s1) = on_snapshot (dp_last_update_id p) (dp_bids p) (dp_asks p) s in
                    settle s1 i res fetched_at (set_sync i s1 (b\<lparr>mb_snapshot_decoder := dec\<rparr>)))))"

definition start_verification :: "instrument_id \<Rightarrow> md_books \<Rightarrow> bool \<times> md_books" where
  "start_verification i b =
     (if \<not> md_is_live i b then (False, b)
      else (True, b\<lparr>mb_shadow := \<lparr>sh_instrument = Some i, sh_sync = reset (sh_sync (mb_shadow b)), sh_loaded = False\<rparr>\<rparr>))"

definition after_verification_snapshot :: "instrument_id \<Rightarrow> bool \<Rightarrow> md_books \<Rightarrow> verification \<times> notice list \<times> md_books" where
  "after_verification_snapshot i loaded b =
     (if \<not> loaded then (Unusable, [], cancel_verification b)
      else
        (case settle_verification (b\<lparr>mb_shadow := (mb_shadow b)\<lparr>sh_loaded := True\<rparr>\<rparr>) of
           (Some m, b1) \<Rightarrow> (Failed m, report b1 (Down i (DownMismatch m)), b1)
         | (None, b1) \<Rightarrow> (if sh_instrument (mb_shadow b1) = None then (Passed, [], b1) else (Pending, [], b1))))"

definition md_on_verification_snapshot ::
  "instrument_id \<Rightarrow> nat \<Rightarrow> level list \<Rightarrow> level list \<Rightarrow> md_books \<Rightarrow> verification \<times> notice list \<times> md_books" where
  "md_on_verification_snapshot i uid bids asks b =
     (if sh_instrument (mb_shadow b) \<noteq> Some i \<or> sh_loaded (mb_shadow b) then (NotRunning, [], b)
      else
        let (res, s1) = on_snapshot uid bids asks (sh_sync (mb_shadow b)) in
        after_verification_snapshot i (is_ok res) (b\<lparr>mb_shadow := (mb_shadow b)\<lparr>sh_sync := s1\<rparr>\<rparr>))"

definition md_on_raw_verification_snapshot :: "instrument_id \<Rightarrow> byte list \<Rightarrow> md_books \<Rightarrow> verification \<times> notice list \<times> md_books" where
  "md_on_raw_verification_snapshot i body b =
     (if sh_instrument (mb_shadow b) \<noteq> Some i \<or> sh_loaded (mb_shadow b) then (NotRunning, [], b)
      else
        (case table_get (mb_instruments b) i of
           None \<Rightarrow> (NotRunning, [], b)
         | Some meta \<Rightarrow>
             (case decode_snapshot body meta (mb_snapshot_decoder b) of
                (Err e, dec) \<Rightarrow> after_verification_snapshot i False (b\<lparr>mb_snapshot_decoder := dec\<rparr>)
              | (Ok p, dec) \<Rightarrow>
                  let (res, s1) = on_snapshot (dp_last_update_id p) (dp_bids p) (dp_asks p) (sh_sync (mb_shadow b)) in
                  after_verification_snapshot i (is_ok res)
                    (b\<lparr>mb_snapshot_decoder := dec, mb_shadow := (mb_shadow b)\<lparr>sh_sync := s1\<rparr>\<rparr>))))"

definition reset_all :: "md_books \<Rightarrow> md_books" where
  "reset_all b = cancel_verification (b\<lparr>mb_syncs := map reset (mb_syncs b)\<rparr>)"

section \<open>Two ladders that follow the same venue\<close>

lemma iter_by_key:
  assumes "ladder_inv lad" "i < j" "j < length (ladder_iter lad)"
  shows "lkey (lad_side lad) (ladder_iter lad ! j) < lkey (lad_side lad) (ladder_iter lad ! i)"
  using by_key_nth [OF ladder_invD(3) [OF assms(1)], of "length (lad_levels lad) - Suc j" "length (lad_levels lad) - Suc i"] assms
  by (simp add: ladder_iter_def rev_nth)

lemma iter_exact:
  assumes "ladder_inv lad" "exact lad m" "l \<in> set (ladder_iter lad)"
  shows "m (lv_price l) = Some (lv_qty l)" "\<not> beyond_horizon lad (lv_price l)"
proof -
  have l: "l \<in> set (lad_levels lad)" using assms(3) by (simp add: ladder_iter_def)
  show near: "\<not> beyond_horizon lad (lv_price l)" using ladder_invD(5) [OF assms(1) l] .
  show "m (lv_price l) = Some (lv_qty l)"
    using level_map_Some [OF ladder_invD(3) [OF assms(1)]] l near assms(2) by (metis exact_def level.surjective old.unit.exhaust)
qed

lemma iter_complete:
  assumes "ladder_inv lad" "exact lad m" "m (lv_price l) = Some (lv_qty l)" "\<not> beyond_horizon lad (lv_price l)"
  shows "l \<in> set (ladder_iter lad)"
proof -
  have "level_map (lad_levels lad) (lv_price l) = Some (lv_qty l)" using assms(2-4) by (simp add: exact_def)
  then obtain l' where l': "l' \<in> set (lad_levels lad)" "lv_price l' = lv_price l" "lv_qty l' = lv_qty l" using level_map_SomeD by blast
  from l'(2,3) have "l' = l" by (intro level.equality) simp_all
  with l'(1) show ?thesis by (auto simp: ladder_iter_def)
qed

text \<open>Both list the same levels, best first, as far as both of them see and their maps are the same.\<close>

lemma iter_found:
  assumes inv: "ladder_inv a" "ladder_inv b" "lad_side a = lad_side b" and ex: "exact a m" "exact b m'"
    and i: "i < length (ladder_iter a)" and k: "k < length (ladder_iter b)"
    and better: "lkey (lad_side b) (ladder_iter b ! k) \<le> lkey (lad_side a) (ladder_iter a ! i)"
    and same: "m (lv_price (ladder_iter a ! i)) = m' (lv_price (ladder_iter a ! i))"
  shows "ladder_iter a ! i \<in> set (ladder_iter b)"
proof -
  let ?x = "ladder_iter a ! i" and ?y = "ladder_iter b ! k"
  have "\<not> beyond_horizon b (lv_price ?y)" by (rule iter_exact(2) [OF inv(2) ex(2)]) (use k in simp)
  then have "\<not> beyond_horizon b (lv_price ?x)" using better inv(3) by (auto simp: beyond_horizon_key)
  moreover have "m (lv_price ?x) = Some (lv_qty ?x)" by (rule iter_exact(1) [OF inv(1) ex(1)]) (use i in simp)
  ultimately show ?thesis using iter_complete [OF inv(2) ex(2)] same by simp
qed

lemma iter_same_from:
  assumes inv: "ladder_inv a" "ladder_inv b" "lad_side a = lad_side b" and ex: "exact a m" "exact b m'"
    and k: "k < length (ladder_iter a)" "k < length (ladder_iter b)" and same: "\<And>j. j < k \<Longrightarrow> ladder_iter a ! j = ladder_iter b ! j"
    and better: "lkey (lad_side b) (ladder_iter b ! k) \<le> lkey (lad_side a) (ladder_iter a ! k)"
    and maps: "m (lv_price (ladder_iter a ! k)) = m' (lv_price (ladder_iter a ! k))"
  shows "ladder_iter a ! k = ladder_iter b ! k"
proof -
  obtain j where j: "j < length (ladder_iter b)" "ladder_iter b ! j = ladder_iter a ! k"
    using iter_found [OF inv ex k better maps] by (auto simp: in_set_conv_nth)
  have "\<not> k < j" using iter_by_key [OF inv(2), of k j] j better inv(3) by auto
  moreover have "\<not> j < k" using iter_by_key [OF inv(1), of j k] j same [of j] k by auto
  ultimately show ?thesis using j by simp
qed

lemma iter_same:
  assumes inv: "ladder_inv a" "ladder_inv b" "lad_side a = lad_side b" and ex: "exact a m" "exact b m'"
    and maps: "\<And>p. R p \<Longrightarrow> m p = m' p" and closed: "\<And>p q. R p \<Longrightarrow> key (lad_side a) p \<le> key (lad_side a) q \<Longrightarrow> R q"
    and k: "k < length (ladder_iter a)" "k < length (ladder_iter b)"
    and reach: "R (lv_price (ladder_iter a ! k))" "R (lv_price (ladder_iter b ! k))"
  shows "ladder_iter a ! k = ladder_iter b ! k"
  using k reach
proof (induction k rule: less_induct)
  case (less k)
  have reached: "R (lv_price (ladder_iter a ! j))" "R (lv_price (ladder_iter b ! j))" if "j < k" for j
    using less.prems that iter_by_key [OF inv(1) that] iter_by_key [OF inv(2) that] inv(3) by (auto intro: closed order.strict_implies_order)
  have same: "ladder_iter a ! j = ladder_iter b ! j" if "j < k" for j using less that reached by simp
  show ?case
  proof (cases "lkey (lad_side b) (ladder_iter b ! k) \<le> lkey (lad_side a) (ladder_iter a ! k)")
    case True
    then show ?thesis using iter_same_from [OF inv ex less.prems(1,2) same] maps less.prems(3) by simp
  next
    case False
    then show ?thesis
      using iter_same_from [OF inv(2,1) inv(3) [symmetric] ex(2,1) less.prems(2,1) same [symmetric]] maps less.prems(4) by simp
  qed
qed

section \<open>The comparison\<close>

lemma nth_best_None_mono: "nth_best lad i = None \<Longrightarrow> i \<le> j \<Longrightarrow> nth_best lad j = None"
  by (auto simp: nth_best_iter)

lemma compare_levels_None:
  "compare_levels sd uid a b lvl n = None \<Longrightarrow> k < n \<Longrightarrow> nth_best a (lvl + k) = nth_best b (lvl + k)"
proof (induction n arbitrary: lvl k)
  case (Suc n)
  show ?case
  proof (cases k)
    case (Suc k')
    then show ?thesis using Suc.IH [of "Suc lvl" k'] Suc.prems nth_best_None_mono [of a lvl "lvl + k"] nth_best_None_mono [of b lvl "lvl + k"]
      by (auto simp: Let_def split: if_splits)
  qed (use Suc.prems in \<open>auto simp: Let_def split: if_splits\<close>)
qed simp

lemma compare_levels_Some:
  "compare_levels sd uid a b lvl n = Some m \<Longrightarrow> mm_side m = sd \<and> mm_update_id m = uid \<and> lvl \<le> mm_level m \<and> mm_level m < lvl + n
     \<and> mm_live m = nth_best a (mm_level m) \<and> mm_rebuilt m = nth_best b (mm_level m) \<and> mm_live m \<noteq> mm_rebuilt m"
proof (induction n arbitrary: lvl)
  case (Suc n)
  then show ?case using Suc.IH [of "Suc lvl"] by (fastforce simp: Let_def split: if_splits)
qed simp

lemma compare_levels_same:
  "(\<And>k. k < n \<Longrightarrow> nth_best a (lvl + k) = nth_best b (lvl + k)) \<Longrightarrow> compare_levels sd uid a b lvl n = None"
proof (induction n arbitrary: lvl)
  case (Suc n)
  have "nth_best a (Suc lvl + k) = nth_best b (Suc lvl + k)" if "k < n" for k using Suc.prems [of "Suc k"] that by simp
  then show ?case using Suc.IH [of "Suc lvl"] Suc.prems [of 0] by (simp add: Let_def)
qed simp

lemma compare_None:
  assumes "compare live rebuilt uid = None" "k < VERIFY_LEVELS"
  shows "nth_best (book_side sd live) k = nth_best (book_side sd rebuilt) k"
  using assms compare_levels_None [of sd uid "book_side sd live" "book_side sd rebuilt" 0 VERIFY_LEVELS k]
  by (cases sd) (auto simp: compare_def split: option.splits)

lemma compare_Some:
  assumes "compare live rebuilt uid = Some m"
  shows "mm_update_id m = uid \<and> mm_level m < VERIFY_LEVELS \<and> mm_live m = nth_best (book_side (mm_side m) live) (mm_level m)
    \<and> mm_rebuilt m = nth_best (book_side (mm_side m) rebuilt) (mm_level m) \<and> mm_live m \<noteq> mm_rebuilt m"
  using assms by (auto simp: compare_def split: option.splits dest!: compare_levels_Some)

section \<open>Every book follows its venue\<close>

text \<open>\<open>V k\<close> is the venue's side of the instrument with index \<open>k\<close>.\<close>

type_synonym venues = "nat \<Rightarrow> venue"

definition books_ok :: "venues \<Rightarrow> md_books \<Rightarrow> bool" where
  "books_ok V b \<longleftrightarrow> (\<forall>k < length (mb_syncs b). sync_inv (mb_syncs b ! k) \<and> agrees (V k) (mb_syncs b ! k))
     \<and> sync_inv (sh_sync (mb_shadow b)) \<and> (\<forall>i. sh_instrument (mb_shadow b) = Some i \<longrightarrow> agrees (V (index_of i)) (sh_sync (mb_shadow b)))"

lemma books_ok_sync:
  "books_ok V b \<Longrightarrow> nth_opt (mb_syncs b) k = Some s \<Longrightarrow> sync_inv s \<and> agrees (V k) s"
  by (auto simp: books_ok_def)

lemma books_ok_stats [simp]:
  "books_ok V (b\<lparr>mb_stats := x\<rparr>) = books_ok V b" "books_ok V (b\<lparr>mb_decoder := d\<rparr>) = books_ok V b"
  "books_ok V (b\<lparr>mb_snapshot_decoder := sd\<rparr>) = books_ok V b" "books_ok V (bump_invalidations b) = books_ok V b"
  "books_ok V (b\<lparr>mb_decoder := d, mb_stats := x\<rparr>) = books_ok V b"
  by (simp_all add: books_ok_def bump_invalidations_def)

lemma reset_ok: "sync_inv s \<Longrightarrow> sync_inv (reset s) \<and> agrees W (reset s)"
  using sync_step_inv [of s Reset] by (simp add: reset_def)

lemma set_sync_ok: "books_ok V b \<Longrightarrow> sync_inv s \<Longrightarrow> agrees (V (index_of i)) s \<Longrightarrow> books_ok V (set_sync i s b)"
  unfolding books_ok_def set_sync_def by (cases "index_of i < length (mb_syncs b)") (auto simp: nth_list_update list_update_beyond)

lemma set_sync_shadow [simp]: "mb_shadow (set_sync i s b) = mb_shadow b"
  by (simp add: set_sync_def)

lemma cancel_ok: "books_ok V b \<Longrightarrow> books_ok V (cancel_verification b)"
  using reset_ok [of "sh_sync (mb_shadow b)"] by (auto simp: books_ok_def cancel_verification_def split: option.splits)

lemma settle_ok:
  assumes "books_ok V b" "settle_verification b = (found, b')" shows "books_ok V b'"
proof -
  have c: "books_ok V (cancel_verification b)" by (rule cancel_ok [OF assms(1)])
  have "books_ok V (set_sync i (reset s) b1)" if "books_ok V b1" "nth_opt (mb_syncs b1) (index_of i) = Some s" for i s b1
    using that books_ok_sync [OF that] reset_ok by (intro set_sync_ok) auto
  then show ?thesis using assms c by (auto simp: settle_verification_def Let_def split: option.splits)
qed

lemma feed_shadow_ok:
  assumes "books_ok V b" "sh_instrument (mb_shadow b) = Some i" "true_delta (V (index_of i)) r us"
  shows "books_ok V (feed_shadow r us b)"
proof -
  obtain res s where s: "on_delta r us (sh_sync (mb_shadow b)) = (res, s)" by (cases "on_delta r us (sh_sync (mb_shadow b))")
  have "sync_inv s" "agrees (V (index_of i)) s"
    using assms on_delta_inv [OF _ s] on_delta_agrees [OF _ _ assms(3) s] by (auto simp: books_ok_def)
  then show ?thesis using assms s by (auto simp: feed_shadow_def books_ok_def)
qed

lemma feed_shadow_instrument [simp]: "sh_instrument (mb_shadow (feed_shadow r us b)) = sh_instrument (mb_shadow b)"
  by (simp add: feed_shadow_def)

lemma apply_update_ok:
  assumes ok: "books_ok V b" and s: "nth_opt (mb_syncs b) (index_of (du_instrument u)) = Some s"
    and true: "true_delta (V (index_of (du_instrument u))) (du_range u) (du_updates u)" and app: "apply_update u s b = (a, b')"
  shows "books_ok V b'"
proof -
  let ?i = "du_instrument u"
  obtain res s1 where d: "on_delta (du_range u) (du_updates u) s = (res, s1)" by (cases "on_delta (du_range u) (du_updates u) s")
  have S: "sync_inv s1" "agrees (V (index_of ?i)) s1"
    using books_ok_sync [OF ok s] on_delta_inv [OF _ d] on_delta_agrees [OF _ _ true d] by auto
  let ?b1 = "set_sync ?i s1 b"
  have b1: "books_ok V ?b1" by (rule set_sync_ok [OF ok S])
  have fed: "books_ok V (feed_shadow (du_range u) (du_updates u) b2)" if "books_ok V b2" "sh_instrument (mb_shadow b2) = Some ?i" for b2
    using feed_shadow_ok [OF that true] .
  show ?thesis
    using app d b1 fed [of ?b1] fed [of "?b1\<lparr>mb_stats := x\<rparr>" for x] cancel_ok [OF b1] settle_ok [OF fed [of "?b1\<lparr>mb_stats := x\<rparr>" for x]]
    by (auto simp: apply_update_def Let_def split: result.splits delta_outcome.splits if_splits prod.splits option.splits)
qed

declare nth_opt_None [simp del] nth_opt_Some [simp del]

lemma apply_ok:
  assumes ok: "books_ok V b" and app: "md_apply message b = (res, b')"
    and true: "\<And>u dec. decode_update message (mb_instruments b) (mb_decoder b) = (Ok u, dec) \<Longrightarrow>
      true_delta (V (index_of (du_instrument u))) (du_range u) (du_updates u)"
  shows "books_ok V b'"
proof -
  obtain r dec where d: "decode_update message (mb_instruments b) (mb_decoder b) = (r, dec)"
    by (cases "decode_update message (mb_instruments b) (mb_decoder b)")
  show ?thesis
  proof (cases r)
    case (Err e)
    then show ?thesis using app d ok by (auto simp: md_apply_def Let_def)
  next
    case (Ok u)
    let ?b1 = "b\<lparr>mb_stats := (mb_stats b)\<lparr>st_messages := sat_u64 (st_messages (mb_stats b) + 1)\<rparr>, mb_decoder := dec\<rparr>"
    have ok1: "books_ok V ?b1" using ok by (simp add: books_ok_def)
    show ?thesis
    proof (cases "nth_opt (mb_syncs b) (index_of (du_instrument u))")
      case None
      then show ?thesis using app d Ok ok1 by (auto simp: md_apply_def Let_def)
    next
      case (Some s)
      then have s1: "nth_opt (mb_syncs ?b1) (index_of (du_instrument u)) = Some s" by simp
      obtain a b2 where u: "apply_update u s ?b1 = (a, b2)" by (cases "apply_update u s ?b1")
      have "books_ok V b2" by (rule apply_update_ok [OF ok1 s1 true [OF d [unfolded Ok]] u])
      then show ?thesis using app d Ok Some u by (auto simp: md_apply_def Let_def)
    qed
  qed
qed

lemma on_snapshot_ok:
  assumes ok: "books_ok V b" and s: "nth_opt (mb_syncs b) (index_of i) = Some s"
    and true: "true_snapshot (V (index_of i)) uid bids asks" and step: "on_snapshot uid bids asks s = (res, s1)"
  shows "books_ok V (set_sync i s1 b)"
  using books_ok_sync [OF ok s] on_snapshot_inv [OF _ step] on_snapshot_agrees [OF _ _ true step] by (intro set_sync_ok [OF ok]) auto

lemma settle_snapshot_ok:
  assumes "books_ok V b" "settle s i res t b = (out, ns, b')" shows "books_ok V b'"
  using assms by (auto simp: settle_def split: result.splits bool.splits option.splits sync_error.splits)

lemma shadow_snapshot_ok:
  assumes ok: "books_ok V b" and run: "sh_instrument (mb_shadow b) = Some i"
    and true: "true_snapshot (V (index_of i)) uid bids asks" and step: "on_snapshot uid bids asks (sh_sync (mb_shadow b)) = (res, s1)"
  shows "books_ok V (b\<lparr>mb_shadow := (mb_shadow b)\<lparr>sh_sync := s1\<rparr>\<rparr>)"
proof -
  have "sync_inv (sh_sync (mb_shadow b))" "agrees (V (index_of i)) (sh_sync (mb_shadow b))" using ok run by (auto simp: books_ok_def)
  from on_snapshot_inv [OF this(1) step] on_snapshot_agrees [OF this true step] show ?thesis using ok run by (auto simp: books_ok_def)
qed

lemma after_verification_ok:
  assumes "books_ok V b" "after_verification_snapshot i loaded b = (v, ns, b')" shows "books_ok V b'"
proof -
  have "books_ok V (b\<lparr>mb_shadow := (mb_shadow b)\<lparr>sh_loaded := True\<rparr>\<rparr>)" using assms(1) by (simp add: books_ok_def)
  then show ?thesis using assms cancel_ok [OF assms(1)] settle_ok
    by (fastforce simp: after_verification_snapshot_def split: if_splits prod.splits option.splits)
qed

subsection \<open>Reachable states\<close>

datatype md_input =
    InMessage "byte list"
  | InSnapshot instrument_id nat "level list" "level list" nanos
  | InRawSnapshot instrument_id "byte list" nanos
  | InStartVerify instrument_id
  | InVerifySnapshot instrument_id nat "level list" "level list"
  | InRawVerifySnapshot instrument_id "byte list"
  | InCancelVerify
  | InResetAll

fun md_step :: "md_input \<Rightarrow> md_books \<Rightarrow> md_books" where
  "md_step (InMessage message) b = snd (md_apply message b)"
| "md_step (InSnapshot i uid bids asks t) b = snd (snd (md_on_snapshot i uid bids asks t b))"
| "md_step (InRawSnapshot i body t) b = snd (snd (md_on_raw_snapshot i body t b))"
| "md_step (InStartVerify i) b = snd (start_verification i b)"
| "md_step (InVerifySnapshot i uid bids asks) b = snd (snd (md_on_verification_snapshot i uid bids asks b))"
| "md_step (InRawVerifySnapshot i body) b = snd (snd (md_on_raw_verification_snapshot i body b))"
| "md_step InCancelVerify b = cancel_verification b"
| "md_step InResetAll b = reset_all b"

definition true_body :: "venue \<Rightarrow> instrument_id \<Rightarrow> byte list \<Rightarrow> md_books \<Rightarrow> bool" where
  "true_body W i body b \<longleftrightarrow>
     (\<forall>meta p dec. table_get (mb_instruments b) i = Some meta \<and> decode_snapshot body meta (mb_snapshot_decoder b) = (Ok p, dec) \<longrightarrow>
        true_snapshot W (dp_last_update_id p) (dp_bids p) (dp_asks p))"

text \<open>What the venue sends is true: if it decodes, the update or the snapshot is.\<close>

fun true_md :: "venues \<Rightarrow> md_books \<Rightarrow> md_input \<Rightarrow> bool" where
  "true_md V b (InMessage message) \<longleftrightarrow>
     (\<forall>u dec. decode_update message (mb_instruments b) (mb_decoder b) = (Ok u, dec) \<longrightarrow>
        true_delta (V (index_of (du_instrument u))) (du_range u) (du_updates u))"
| "true_md V b (InSnapshot i uid bids asks t) \<longleftrightarrow> true_snapshot (V (index_of i)) uid bids asks"
| "true_md V b (InRawSnapshot i body t) \<longleftrightarrow> true_body (V (index_of i)) i body b"
| "true_md V b (InVerifySnapshot i uid bids asks) \<longleftrightarrow> true_snapshot (V (index_of i)) uid bids asks"
| "true_md V b (InRawVerifySnapshot i body) \<longleftrightarrow> true_body (V (index_of i)) i body b"
| "true_md V b _ \<longleftrightarrow> True"

inductive md_reach :: "venues \<Rightarrow> md_books \<Rightarrow> bool" for V where
  start: "md_books_new tbl cfg n k = Ok b \<Longrightarrow> fits_u64 (buffered_updates cfg) \<Longrightarrow> md_reach V b"
| step: "md_reach V b \<Longrightarrow> true_md V b i \<Longrightarrow> md_reach V (md_step i b)"

lemma new_agrees: "sync_new cfg = Ok s \<Longrightarrow> agrees W s"
  by (auto simp: sync_new_def agrees_def result_simps split: if_splits)

lemma books_new_ok:
  assumes "md_books_new tbl cfg n k = Ok b" "fits_u64 (buffered_updates cfg)" shows "books_ok V b"
  using assms sync_new_inv [OF _ assms(2)] new_agrees by (auto simp: md_books_new_def books_ok_def split: result.splits)

lemma start_ok:
  assumes "books_ok V b" shows "books_ok V (snd (start_verification i b))"
proof -
  have "sync_inv (sh_sync (mb_shadow b))" using assms by (simp add: books_ok_def)
  then show ?thesis using assms reset_ok by (auto simp: start_verification_def books_ok_def)
qed

lemma reset_all_ok: "books_ok V b \<Longrightarrow> books_ok V (reset_all b)"
  unfolding reset_all_def using reset_ok by (intro cancel_ok) (simp add: books_ok_def)

lemma raw_snapshot_ok:
  assumes "books_ok V b" "true_body (V (index_of i)) i body b" shows "books_ok V (snd (snd (md_on_raw_snapshot i body t b)))"
proof (cases "table_get (mb_instruments b) i")
  case (Some meta)
  show ?thesis
  proof (cases "nth_opt (mb_syncs b) (index_of i)")
    case None
    then show ?thesis using assms Some by (simp add: md_on_raw_snapshot_def)
  next
    case s: (Some s)
    obtain r dec where d: "decode_snapshot body meta (mb_snapshot_decoder b) = (r, dec)" by (cases "decode_snapshot body meta (mb_snapshot_decoder b)")
    show ?thesis
    proof (cases r)
      case (Err e)
      then show ?thesis using assms Some s d by (simp add: md_on_raw_snapshot_def)
    next
      case (Ok p)
      let ?b = "b\<lparr>mb_snapshot_decoder := dec\<rparr>"
      obtain res s1 where o: "on_snapshot (dp_last_update_id p) (dp_bids p) (dp_asks p) s = (res, s1)"
        by (cases "on_snapshot (dp_last_update_id p) (dp_bids p) (dp_asks p) s")
      have true: "true_snapshot (V (index_of i)) (dp_last_update_id p) (dp_bids p) (dp_asks p)"
        using assms(2) Some d Ok by (auto simp: true_body_def)
      have b: "books_ok V ?b" "nth_opt (mb_syncs ?b) (index_of i) = Some s" using assms s by simp_all
      have "books_ok V (set_sync i s1 ?b)" by (rule on_snapshot_ok [OF b true o])
      then show ?thesis using Some s d Ok o settle_snapshot_ok
        by (cases "settle s1 i res t (set_sync i s1 ?b)") (auto simp: md_on_raw_snapshot_def)
    qed
  qed
qed (use assms in \<open>simp add: md_on_raw_snapshot_def\<close>)

lemma snapshot_ok:
  assumes "books_ok V b" "true_snapshot (V (index_of i)) uid bids asks" shows "books_ok V (snd (snd (md_on_snapshot i uid bids asks t b)))"
proof (cases "nth_opt (mb_syncs b) (index_of i)")
  case (Some s)
  obtain res s1 where o: "on_snapshot uid bids asks s = (res, s1)" by (cases "on_snapshot uid bids asks s")
  have "books_ok V (set_sync i s1 b)" by (rule on_snapshot_ok [OF assms(1) Some assms(2) o])
  then show ?thesis using Some o settle_snapshot_ok
    by (cases "settle s1 i res t (set_sync i s1 b)") (auto simp: md_on_snapshot_def)
qed (use assms in \<open>simp add: md_on_snapshot_def\<close>)

lemma verification_snapshot_ok:
  assumes "books_ok V b" "true_snapshot (V (index_of i)) uid bids asks"
  shows "books_ok V (snd (snd (md_on_verification_snapshot i uid bids asks b)))"
proof -
  obtain res s1 where o: "on_snapshot uid bids asks (sh_sync (mb_shadow b)) = (res, s1)" by (cases "on_snapshot uid bids asks (sh_sync (mb_shadow b))")
  let ?b = "b\<lparr>mb_shadow := (mb_shadow b)\<lparr>sh_sync := s1\<rparr>\<rparr>"
  show ?thesis using assms(1) o shadow_snapshot_ok [OF assms(1) _ assms(2) o] after_verification_ok [of V ?b i "is_ok res"]
    by (cases "after_verification_snapshot i (is_ok res) ?b") (auto simp: md_on_verification_snapshot_def)
qed

lemma raw_verification_snapshot_ok:
  assumes "books_ok V b" "true_body (V (index_of i)) i body b"
  shows "books_ok V (snd (snd (md_on_raw_verification_snapshot i body b)))"
proof (cases "sh_instrument (mb_shadow b) = Some i \<and> \<not> sh_loaded (mb_shadow b)")
  case run: True
  show ?thesis
  proof (cases "table_get (mb_instruments b) i")
    case None
    then show ?thesis using assms by (simp add: md_on_raw_verification_snapshot_def)
  next
    case (Some meta)
    obtain r dec where d: "decode_snapshot body meta (mb_snapshot_decoder b) = (r, dec)" by (cases "decode_snapshot body meta (mb_snapshot_decoder b)")
    let ?b = "b\<lparr>mb_snapshot_decoder := dec\<rparr>"
    show ?thesis
    proof (cases r)
      case (Err e)
      then show ?thesis using run Some d after_verification_ok [of V ?b i False] assms(1)
        by (cases "after_verification_snapshot i False ?b") (auto simp: md_on_raw_verification_snapshot_def)
    next
      case (Ok p)
      obtain res s1 where o: "on_snapshot (dp_last_update_id p) (dp_bids p) (dp_asks p) (sh_sync (mb_shadow b)) = (res, s1)"
        by (cases "on_snapshot (dp_last_update_id p) (dp_bids p) (dp_asks p) (sh_sync (mb_shadow b))")
      have true: "true_snapshot (V (index_of i)) (dp_last_update_id p) (dp_bids p) (dp_asks p)"
        using assms(2) Some d Ok by (auto simp: true_body_def)
      let ?b1 = "b\<lparr>mb_snapshot_decoder := dec, mb_shadow := (mb_shadow b)\<lparr>sh_sync := s1\<rparr>\<rparr>"
      have "books_ok V ?b1" using shadow_snapshot_ok [OF assms(1) _ true o] run by (simp add: books_ok_def)
      then show ?thesis using run Some d Ok o after_verification_ok [of V ?b1 i "is_ok res"]
        by (cases "after_verification_snapshot i (is_ok res) ?b1") (auto simp: md_on_raw_verification_snapshot_def)
    qed
  qed
next
  case False
  then show ?thesis using assms(1) by (auto simp: md_on_raw_verification_snapshot_def)
qed

lemma md_reach_ok: "md_reach V b \<Longrightarrow> books_ok V b"
proof (induction rule: md_reach.induct)
  case (start tbl cfg n k b)
  then show ?case by (rule books_new_ok)
next
  case (step b i)
  then show ?case
    by (cases i) (auto intro: apply_ok [OF _ prod.collapse [symmetric]] cancel_ok reset_all_ok start_ok snapshot_ok raw_snapshot_ok
        verification_snapshot_ok raw_verification_snapshot_ok)
qed

lemma verdict_parts:
  assumes "verdict b = Some (i, found)"
  shows "\<exists>s uid. sh_instrument (mb_shadow b) = Some i \<and> sh_loaded (mb_shadow b) \<and> nth_opt (mb_syncs b) (index_of i) = Some s
    \<and> last_seq s = Some uid \<and> last_seq (sh_sync (mb_shadow b)) = Some uid
    \<and> found = (case (sync_book s, sync_book (sh_sync (mb_shadow b))) of (Some live, Some rebuilt) \<Rightarrow> compare live rebuilt uid | _ \<Rightarrow> None)"
proof -
  obtain j where j: "sh_instrument (mb_shadow b) = Some j" "sh_loaded (mb_shadow b)"
    using assms by (cases "sh_instrument (mb_shadow b)") (auto simp: verdict_def split: if_splits)
  obtain s where s: "nth_opt (mb_syncs b) (index_of j) = Some s"
    using assms j by (cases "nth_opt (mb_syncs b) (index_of j)") (auto simp: verdict_def)
  obtain uid n where u: "last_seq s = Some uid" "last_seq (sh_sync (mb_shadow b)) = Some n"
    using assms j s by (cases "last_seq s"; cases "last_seq (sh_sync (mb_shadow b))") (auto simp: verdict_def)
  show ?thesis using assms j s u by (auto simp: verdict_def split: if_splits)
qed

lemma verdict_cases:
  assumes "verdict b = Some (i, found)"
  obtains live rebuilt uid where
    "sh_instrument (mb_shadow b) = Some i" "sh_loaded (mb_shadow b)"
    "md_book i b = Some live" "last_update_id i b = Some uid"
    "sync_book (sh_sync (mb_shadow b)) = Some rebuilt" "last_seq (sh_sync (mb_shadow b)) = Some uid"
    "found = compare live rebuilt uid"
proof -
  have seq: "last_seq s = Some n \<Longrightarrow> \<exists>bk. sync_book s = Some bk" for s n
    by (auto simp: last_seq_def sync_book_def split: sync_state.splits)
  obtain s uid where s: "sh_instrument (mb_shadow b) = Some i" "sh_loaded (mb_shadow b)" "nth_opt (mb_syncs b) (index_of i) = Some s"
    "last_seq s = Some uid" "last_seq (sh_sync (mb_shadow b)) = Some uid"
    "found = (case (sync_book s, sync_book (sh_sync (mb_shadow b))) of (Some live, Some rebuilt) \<Rightarrow> compare live rebuilt uid | _ \<Rightarrow> None)"
    using verdict_parts [OF assms] by blast
  obtain live rebuilt where "sync_book s = Some live" "sync_book (sh_sync (mb_shadow b)) = Some rebuilt"
    using seq [OF s(4)] seq [OF s(5)] by blast
  then show ?thesis using that [of live uid rebuilt] s by (simp add: md_book_def last_update_id_def)
qed

lemma reset_book [simp]: "sync_book (reset s) = None"
  by (simp add: reset_def sync_book_def)

lemma cancel_syncs [simp]: "mb_syncs (cancel_verification b) = mb_syncs b"
  by (simp add: cancel_verification_def split: option.splits)

lemma cancel_ends [simp]: "sh_instrument (mb_shadow (cancel_verification b)) = None"
  by (simp add: cancel_verification_def split: option.splits)

lemma settle_verdict:
  assumes "verdict b = Some (i, found)" "settle_verification b = (res, b')"
  shows "res = found" "verifying b' = None" "found \<noteq> None \<Longrightarrow> md_book i b' = None" "found = None \<Longrightarrow> mb_syncs b' = mb_syncs b"
proof -
  obtain s where s: "nth_opt (mb_syncs b) (index_of i) = Some s" using verdict_parts [OF assms(1)] by blast
  then have len: "index_of i < length (mb_syncs b)" by (simp add: nth_opt_Some)
  show "res = found" "verifying b' = None" "found \<noteq> None \<Longrightarrow> md_book i b' = None" "found = None \<Longrightarrow> mb_syncs b' = mb_syncs b"
    using assms s len
    by (auto simp: settle_verification_def verifying_def md_book_def bump_invalidations_def set_sync_def nth_opt_def Let_def split: option.splits)
qed

section \<open>A mismatch on a truthful feed\<close>

text \<open>A mismatch is excused when one of the books lists no level there or lists one that the snapshots do not reach.\<close>

definition excused :: "venue \<Rightarrow> mismatch \<Rightarrow> bool" where
  "excused W mm \<longleftrightarrow>
     (case (mm_live mm, mm_rebuilt mm) of
        (Some x, Some y) \<Rightarrow> \<not> ve_reach W (mm_side mm) (lv_price x) \<or> \<not> ve_reach W (mm_side mm) (lv_price y)
      | _ \<Rightarrow> True)"

text \<open>Snapshots list the best levels first, so they reach every price better than one they reach.\<close>

definition best_first :: "venue \<Rightarrow> bool" where
  "best_first W \<longleftrightarrow> (\<forall>sd p q. ve_reach W sd p \<and> key sd p \<le> key sd q \<longrightarrow> ve_reach W sd q)"

lemma true_books_compare:
  assumes inv: "book_inv a" "book_inv b" and sv: "shows_venue W n a" "shows_venue W n b" and W: "best_first W"
    and c: "compare a b uid = Some mm"
  shows "excused W mm"
proof (rule ccontr)
  let ?x = "book_side (mm_side mm) a" and ?y = "book_side (mm_side mm) b" and ?k = "mm_level mm"
  assume "\<not> excused W mm"
  then obtain x y where xy: "nth_best ?x ?k = Some x" "nth_best ?y ?k = Some y" "x \<noteq> y"
      "ve_reach W (mm_side mm) (lv_price x)" "ve_reach W (mm_side mm) (lv_price y)"
    using compare_Some [OF c] by (auto simp: excused_def split: option.splits)
  have lens: "?k < length (ladder_iter ?x)" "?k < length (ladder_iter ?y)" "ladder_iter ?x ! ?k = x" "ladder_iter ?y ! ?k = y"
    using xy(1,2) by (auto simp: nth_best_iter nth_opt_def split: if_splits)
  obtain m m' where m: "book_exact a m" "same_on (ve_reach W) m (ve_depths W n)" "book_exact b m'" "same_on (ve_reach W) m' (ve_depths W n)"
    using sv shows_venue_exact by blast
  have "ladder_iter ?x ! ?k = ladder_iter ?y ! ?k"
    using inv m W xy(4,5) lens
    by (intro iter_same [where R = "ve_reach W (mm_side mm)" and m = "m (mm_side mm)" and m' = "m' (mm_side mm)"])
      (auto simp: book_inv_side book_exact_side same_on_def best_first_def)
  then show False using lens xy(3) by simp
qed

lemma settle_mismatch:
  assumes ok: "books_ok V b" and st: "settle_verification b = (Some mm, b')" and V: "\<And>k. best_first (V k)"
    and run: "sh_instrument (mb_shadow b) = Some i"
  shows "excused (V (index_of i)) mm"
proof -
  obtain j where j: "verdict b = Some (j, Some mm)"
    using st settle_verdict(1) by (cases "verdict b") (auto simp: settle_verification_def Let_def split: option.splits)
  have "j = i" using j run by (cases rule: verdict_cases) simp
  then have v: "verdict b = Some (i, Some mm)" using j by simp
  from v show ?thesis
  proof (cases rule: verdict_cases)
    case (1 live rebuilt uid)
    obtain s where s: "nth_opt (mb_syncs b) (index_of i) = Some s" "sync_book s = Some live" "last_seq s = Some uid"
      using 1(3,4) by (auto simp: md_book_def last_update_id_def bind_eq_Some_conv)
    have "book_inv live" "shows_venue (V (index_of i)) uid live"
      using books_ok_sync [OF ok s(1)] s(2,3) by (auto simp: sync_inv_def agrees_def sync_book_def last_seq_def split: sync_state.splits)
    moreover have "book_inv rebuilt" "shows_venue (V (index_of i)) uid rebuilt"
      using ok 1(1,5,6) by (auto simp: books_ok_def sync_inv_def agrees_def sync_book_def last_seq_def split: sync_state.splits)
    ultimately show ?thesis using true_books_compare [OF _ _ _ _ V 1(7) [symmetric]] by blast
  qed
qed

lemma apply_update_mismatch:
  assumes ok: "books_ok V b" and s: "nth_opt (mb_syncs b) (index_of (du_instrument u)) = Some s"
    and true: "true_delta (V (index_of (du_instrument u))) (du_range u) (du_updates u)"
    and V: "\<And>k. best_first (V k)" and app: "apply_update u s b = (Down i (DownMismatch mm), b')"
  shows "excused (V (index_of i)) mm"
proof -
  let ?i = "du_instrument u"
  obtain res s1 where d: "on_delta (du_range u) (du_updates u) s = (res, s1)" by (cases "on_delta (du_range u) (du_updates u) s")
  let ?b1 = "set_sync ?i s1 b"
  let ?b2 = "?b1\<lparr>mb_stats := (mb_stats ?b1)\<lparr>st_deltas_applied := sat_u64 (st_deltas_applied (mb_stats ?b1) + 1)\<rparr>\<rparr>"
  have "books_ok V ?b1"
    using books_ok_sync [OF ok s] on_delta_inv [OF _ d] on_delta_agrees [OF _ _ true d] by (intro set_sync_ok [OF ok]) auto
  then have fed: "books_ok V (feed_shadow (du_range u) (du_updates u) ?b2)" if "sh_instrument (mb_shadow b) = Some ?i"
    using that true by (intro feed_shadow_ok [of V ?b2 ?i]) simp_all
  have "i = ?i \<and> sh_instrument (mb_shadow b) = Some ?i \<and> (\<exists>b3. settle_verification (feed_shadow (du_range u) (du_updates u) ?b2) = (Some mm, b3))"
    using app d by (auto simp: apply_update_def Let_def split: result.splits delta_outcome.splits if_splits prod.splits option.splits)
  then obtain b3 where i: "i = ?i" and sh: "sh_instrument (mb_shadow b) = Some ?i"
    and st: "settle_verification (feed_shadow (du_range u) (du_updates u) ?b2) = (Some mm, b3)" by (elim conjE exE)
  show ?thesis unfolding i by (rule settle_mismatch [OF fed [OF sh] st V]) (simp add: feed_shadow_def sh)
qed

lemma after_verification_mismatch:
  assumes "books_ok V b" "\<And>k. best_first (V k)" "sh_instrument (mb_shadow b) = Some i"
    "after_verification_snapshot i loaded b = (Failed mm, ns, b')"
  shows "excused (V (index_of i)) mm"
proof -
  let ?b = "b\<lparr>mb_shadow := (mb_shadow b)\<lparr>sh_loaded := True\<rparr>\<rparr>"
  have "books_ok V ?b" using assms(1) by (simp add: books_ok_def)
  moreover obtain b1 where "settle_verification ?b = (Some mm, b1)"
    using assms(4) by (auto simp: after_verification_snapshot_def split: if_splits prod.splits option.splits)
  ultimately show ?thesis by (rule settle_mismatch) (use assms in simp_all)
qed

lemma md_apply_mismatch:
  assumes ok: "books_ok V b" and true: "true_md V b (InMessage message)" and V: "\<And>k. best_first (V k)"
    and app: "fst (md_apply message b) = Ok (Down j (DownMismatch mm))"
  shows "excused (V (index_of j)) mm"
proof -
  obtain u dec where d: "decode_update message (mb_instruments b) (mb_decoder b) = (Ok u, dec)"
    using app by (cases "decode_update message (mb_instruments b) (mb_decoder b)"; cases "fst (decode_update message (mb_instruments b) (mb_decoder b))")
      (auto simp: md_apply_def Let_def)
  let ?b1 = "b\<lparr>mb_stats := (mb_stats b)\<lparr>st_messages := sat_u64 (st_messages (mb_stats b) + 1)\<rparr>, mb_decoder := dec\<rparr>"
  obtain s where s: "nth_opt (mb_syncs b) (index_of (du_instrument u)) = Some s"
    using app d by (cases "nth_opt (mb_syncs b) (index_of (du_instrument u))") (auto simp: md_apply_def Let_def)
  have ok1: "books_ok V ?b1" "nth_opt (mb_syncs ?b1) (index_of (du_instrument u)) = Some s" using ok s by (simp_all add: books_ok_def)
  have u: "true_delta (V (index_of (du_instrument u))) (du_range u) (du_updates u)" using true d by simp
  obtain b' where "apply_update u s ?b1 = (Down j (DownMismatch mm), b')"
    using app d s by (cases "apply_update u s ?b1") (auto simp: md_apply_def Let_def)
  then show ?thesis by (rule apply_update_mismatch [OF ok1 u V])
qed

lemma verify_snapshot_mismatch:
  assumes ok: "books_ok V b" and true: "true_snapshot (V (index_of i)) uid bids asks"
    and V: "\<And>k. best_first (V k)" and v: "fst (md_on_verification_snapshot i uid bids asks b) = Failed mm"
  shows "excused (V (index_of i)) mm"
proof -
  obtain res s1 where o: "on_snapshot uid bids asks (sh_sync (mb_shadow b)) = (res, s1)" by (cases "on_snapshot uid bids asks (sh_sync (mb_shadow b))")
  let ?b = "b\<lparr>mb_shadow := (mb_shadow b)\<lparr>sh_sync := s1\<rparr>\<rparr>"
  have run: "sh_instrument (mb_shadow b) = Some i" and f: "fst (after_verification_snapshot i (is_ok res) ?b) = Failed mm"
    using v o by (auto simp: md_on_verification_snapshot_def split: if_splits)
  show ?thesis
    using after_verification_mismatch [OF shadow_snapshot_ok [OF ok run true o] V] f run by (cases "after_verification_snapshot i (is_ok res) ?b") auto
qed

lemma raw_verify_snapshot_mismatch:
  assumes ok: "books_ok V b" and true: "true_body (V (index_of i)) i body b"
    and V: "\<And>k. best_first (V k)" and v: "fst (md_on_raw_verification_snapshot i body b) = Failed mm"
  shows "excused (V (index_of i)) mm"
proof -
  have run: "sh_instrument (mb_shadow b) = Some i" "\<not> sh_loaded (mb_shadow b)"
    using v by (auto simp: md_on_raw_verification_snapshot_def split: if_splits)
  obtain meta where meta: "table_get (mb_instruments b) i = Some meta"
    using v run by (cases "table_get (mb_instruments b) i") (auto simp: md_on_raw_verification_snapshot_def)
  obtain r dec where d: "decode_snapshot body meta (mb_snapshot_decoder b) = (r, dec)" by (cases "decode_snapshot body meta (mb_snapshot_decoder b)")
  obtain p where p: "r = Ok p"
    using v run meta d by (cases r) (auto simp: md_on_raw_verification_snapshot_def after_verification_snapshot_def)
  obtain res s1 where o: "on_snapshot (dp_last_update_id p) (dp_bids p) (dp_asks p) (sh_sync (mb_shadow b)) = (res, s1)"
    by (cases "on_snapshot (dp_last_update_id p) (dp_bids p) (dp_asks p) (sh_sync (mb_shadow b))")
  let ?b = "b\<lparr>mb_snapshot_decoder := dec, mb_shadow := (mb_shadow b)\<lparr>sh_sync := s1\<rparr>\<rparr>"
  have t: "true_snapshot (V (index_of i)) (dp_last_update_id p) (dp_bids p) (dp_asks p)" using true meta d p by (auto simp: true_body_def)
  have "books_ok V ?b" using shadow_snapshot_ok [OF ok run(1) t o] by (simp add: books_ok_def)
  moreover have "fst (after_verification_snapshot i (is_ok res) ?b) = Failed mm"
    using v run meta d p o by (simp add: md_on_raw_verification_snapshot_def)
  ultimately show ?thesis using after_verification_mismatch [of V ?b i] V run(1)
    by (cases "after_verification_snapshot i (is_ok res) ?b") auto
qed

text \<open>A session with one instrument and one snapshot.\<close>

definition demo_bids :: "level list" where "demo_bids = [\<lparr>lv_price = 99, lv_qty = 5\<rparr>]"
definition demo_asks :: "level list" where "demo_asks = [\<lparr>lv_price = 101, lv_qty = 3\<rparr>]"

definition demo_live_sync :: book_sync where
  "demo_live_sync = snd (on_snapshot 5 demo_bids demo_asks demo_start)"

definition demo_instrument :: instrument where
  "demo_instrument = \<lparr>inst_id = 0, inst_venue = Binance, inst_symbol = \<lparr>sym_bytes = [65], sym_len = 1\<rparr>,
     inst_tick = \<lparr>inc_mantissa = 1, inc_scale = 0\<rparr>, inst_lot = \<lparr>inc_mantissa = 1, inc_scale = 0\<rparr>, inst_min_notional = \<lparr>mantissa = 1, scale = 0\<rparr>\<rparr>"

definition demo_new :: md_books where
  "demo_new = \<lparr>mb_instruments = [demo_instrument], mb_syncs = [demo_start], mb_shadow = \<lparr>sh_instrument = None, sh_sync = demo_start, sh_loaded = False\<rparr>,
     mb_decoder = update_decoder_new 4, mb_snapshot_decoder = snapshot_decoder_new 4, mb_stats = md_stats_default\<rparr>"

definition demo_books :: md_books where
  "demo_books = md_step (InSnapshot 0 5 demo_bids demo_asks 0) demo_new"

lemma demo_live_sync_live: "\<exists>live. sync_book demo_live_sync = Some live \<and> last_seq demo_live_sync = Some 5"
  by (simp add: demo_live_sync_def demo_bids_def demo_asks_def demo_start_def demo_config_def sync_eval)

lemma demo_books_syncs [simp]: "mb_syncs demo_books = [demo_live_sync]" "mb_instruments demo_books = [demo_instrument]"
proof -
  obtain res s1 where o: "on_snapshot 5 demo_bids demo_asks demo_start = (res, s1)" by (cases "on_snapshot 5 demo_bids demo_asks demo_start")
  have keeps: "mb_syncs (snd (snd (settle s i r t b))) = mb_syncs b \<and> mb_instruments (snd (snd (settle s i r t b))) = mb_instruments b" for s i r t b
    by (auto simp: settle_def bump_invalidations_def split: result.splits bool.splits option.splits sync_error.splits)
  then show "mb_syncs demo_books = [demo_live_sync]" "mb_instruments demo_books = [demo_instrument]"
    using o by (simp_all add: demo_books_def demo_new_def md_on_snapshot_def demo_live_sync_def index_of_def nth_opt_def set_sync_def)
qed

lemma demo_snapshot_true: "true_snapshot demo_venue 5 demo_bids demo_asks"
  by (auto simp: true_snapshot_def same_on_def snapshot_depths_def snapshot_map_def demo_venue_def demo_depths_def demo_bids_def demo_asks_def split: side.split)

lemma demo_md_reach: "md_reach (\<lambda>_. demo_venue) demo_books"
  unfolding demo_books_def
proof (rule md_reach.step [OF md_reach.start])
  show "md_books_new [demo_instrument] demo_config 4 4 = Ok demo_new"
    by (simp add: md_books_new_def sync_new_def demo_config_def book_new_def ladder_new_def demo_start_def demo_new_def)
  show "fits_u64 (buffered_updates demo_config)" by (simp add: demo_config_def range_defs)
qed (use demo_snapshot_true in simp)

lemma decode_nothing:
  "fst (decode_update [] tbl dec) = Err (JsonError UnexpectedEnd)"
  "fst (decode_snapshot [] inst dec2) = Err (JsonError UnexpectedEnd)"
  by (simp_all add: decode_update_def decode_snapshot_def read_object_def from_json_def begin_object_def enter_def expect_byte_def
      skip_whitespace_def reader_new_def peek_def unexpected_def nth_opt_def Let_def)

lemma compare_refl: "compare a a uid = None"
  using compare_levels_same [of VERIFY_LEVELS "book_side Buy a" 0 "book_side Buy a" Buy uid]
    compare_levels_same [of VERIFY_LEVELS "book_side Sell a" 0 "book_side Sell a" Sell uid]
  by (simp add: compare_def)

section \<open>Properties\<close>

text \<open>C27: Whatever the raw messages and snapshots of a venue that tells the truth, in whatever order, with
  resynchronisations and verifications in between, every book that can be read is uncrossed and shows the venue's
  book of its instrument at the update it reports.\<close>

theorem md_books_true:
  assumes "md_reach V b" "md_book i b = Some bk" "last_update_id i b = Some n"
  shows "book_inv bk \<and> \<not> is_crossed bk \<and> shows_venue (V (index_of i)) n bk"
proof -
  obtain s where s: "nth_opt (mb_syncs b) (index_of i) = Some s" "sync_book s = Some bk" "last_seq s = Some n"
    using assms(2,3) by (auto simp: md_book_def last_update_id_def bind_eq_Some_conv)
  from books_ok_sync [OF md_reach_ok [OF assms(1)] s(1)] s(2,3) show ?thesis
    by (auto simp: sync_inv_def agrees_def sync_book_def last_seq_def split: sync_state.splits)
qed

theorem md_books_true_witness:
  "\<exists>bk. md_book 0 demo_books = Some bk \<and> last_update_id 0 demo_books = Some 5 \<and> shows_venue demo_venue 5 bk"
proof -
  obtain bk where "md_book 0 demo_books = Some bk" "last_update_id 0 demo_books = Some 5"
    using demo_live_sync_live by (auto simp: md_book_def last_update_id_def index_of_def nth_opt_def)
  with md_books_true [OF demo_md_reach this] show ?thesis by blast
qed

text \<open>C28: A verification that compares ends, and its verdict is about the books: when it passes, the live
  book and the rebuilt one are at the same update and agree on the best hundred levels of both sides; when it
  fails, the mismatch reported is a real one, at the same update, and the live book can no longer be read.\<close>

theorem verification_verdict:
  assumes "verdict b = Some (i, found)" "settle_verification b = (res, b')"
  shows "\<exists>live rebuilt uid. md_book i b = Some live \<and> sync_book (sh_sync (mb_shadow b)) = Some rebuilt
    \<and> last_update_id i b = Some uid \<and> last_seq (sh_sync (mb_shadow b)) = Some uid \<and> verifying b' = None
    \<and> (case res of
         None \<Rightarrow> md_book i b' = Some live
           \<and> (\<forall>sd k. k < VERIFY_LEVELS \<longrightarrow> nth_best (book_side sd live) k = nth_best (book_side sd rebuilt) k)
       | Some m \<Rightarrow> md_book i b' = None \<and> mm_update_id m = uid \<and> mm_level m < VERIFY_LEVELS
           \<and> nth_best (book_side (mm_side m) live) (mm_level m) \<noteq> nth_best (book_side (mm_side m) rebuilt) (mm_level m))"
  using assms(1)
proof (cases rule: verdict_cases)
  case (1 live rebuilt uid)
  note S = settle_verdict [OF assms]
  have "found = None \<Longrightarrow> md_book i b' = Some live" using S(4) 1(3) by (simp add: md_book_def)
  then have "case res of
         None \<Rightarrow> md_book i b' = Some live
           \<and> (\<forall>sd k. k < VERIFY_LEVELS \<longrightarrow> nth_best (book_side sd live) k = nth_best (book_side sd rebuilt) k)
       | Some m \<Rightarrow> md_book i b' = None \<and> mm_update_id m = uid \<and> mm_level m < VERIFY_LEVELS
           \<and> nth_best (book_side (mm_side m) live) (mm_level m) \<noteq> nth_best (book_side (mm_side m) rebuilt) (mm_level m)"
    using 1(7) S(1,3) compare_None [of live rebuilt uid] compare_Some [of live rebuilt uid]
    by (cases "compare live rebuilt uid") (simp, auto)
  with 1 S(2) show ?thesis by blast
qed

theorem verification_verdict_witness:
  "\<exists>b b' live. verdict b = Some (0, None) \<and> settle_verification b = (None, b') \<and> md_book 0 b = Some live \<and> md_book 0 b' = Some live"
proof -
  let ?b = "demo_books\<lparr>mb_shadow := \<lparr>sh_instrument = Some 0, sh_sync = demo_live_sync, sh_loaded = True\<rparr>\<rparr>"
  obtain live where live: "sync_book demo_live_sync = Some live" "last_seq demo_live_sync = Some 5" using demo_live_sync_live by blast
  have "compare live live 5 = None" by (rule compare_refl)
  then have v: "verdict ?b = Some (0, None)" using live by (simp add: verdict_def demo_books_syncs index_of_def nth_opt_def)
  obtain res b' where st: "settle_verification ?b = (res, b')" by (cases "settle_verification ?b")
  have "res = None" using settle_verdict(1) [OF v st] .
  moreover have "md_book 0 ?b = Some live" using live by (simp add: md_book_def demo_books_syncs index_of_def nth_opt_def)
  ultimately show ?thesis using verification_verdict [OF v st] v st by auto
qed

text \<open>C29: No false alarm.  While the venue tells the truth and its snapshots reach every price better than one they reach, a
  verification reports no mismatch between two levels that both lie within the snapshots' reach: at the level of any mismatch, one of
  the books lists nothing or one of the two prices lies beyond that reach.\<close>

theorem verification_no_false_alarm:
  assumes "md_reach V b" "\<And>k. best_first (V k)"
    "true_md V b (InMessage message)" "true_md V b (InVerifySnapshot i uid bids asks)" "true_md V b (InRawVerifySnapshot i body)"
  shows "(case fst (md_apply message b) of Ok (Down j (DownMismatch m)) \<Rightarrow> excused (V (index_of j)) m | _ \<Rightarrow> True)
    \<and> (case fst (md_on_verification_snapshot i uid bids asks b) of Failed m \<Rightarrow> excused (V (index_of i)) m | _ \<Rightarrow> True)
    \<and> (case fst (md_on_raw_verification_snapshot i body b) of Failed m \<Rightarrow> excused (V (index_of i)) m | _ \<Rightarrow> True)"
proof (intro conjI)
  note ok = md_reach_ok [OF assms(1)]
  have "excused (V (index_of j)) m" if app: "fst (md_apply message b) = Ok (Down j (DownMismatch m))" for j m
    by (rule md_apply_mismatch [OF ok assms(3) assms(2) app])
  then show "case fst (md_apply message b) of Ok (Down j (DownMismatch m)) \<Rightarrow> excused (V (index_of j)) m | _ \<Rightarrow> True"
    by (auto split: result.splits md_applied.splits down_reason.splits)
  show "case fst (md_on_verification_snapshot i uid bids asks b) of Failed m \<Rightarrow> excused (V (index_of i)) m | _ \<Rightarrow> True"
    using verify_snapshot_mismatch [OF ok _ assms(2)] assms(4) by (auto split: verification.splits)
  show "case fst (md_on_raw_verification_snapshot i body b) of Failed m \<Rightarrow> excused (V (index_of i)) m | _ \<Rightarrow> True"
    using raw_verify_snapshot_mismatch [OF ok _ assms(2)] assms(5) by (auto split: verification.splits)
qed

text \<open>A verification snapshot that lists one bid more, below what the snapshots of this venue reach.\<close>

definition demo_deep_bids :: "level list" where "demo_deep_bids = demo_bids @ [\<lparr>lv_price = 90, lv_qty = 1\<rparr>]"

lemma demo_deep_true: "true_snapshot demo_venue 5 demo_deep_bids demo_asks"
  by (auto simp: true_snapshot_def same_on_def snapshot_depths_def snapshot_map_def demo_venue_def demo_depths_def demo_deep_bids_def demo_bids_def demo_asks_def
      split: side.split)

lemma demo_books_shadow: "sh_sync (mb_shadow demo_books) = demo_start"
proof -
  obtain res s1 where o: "on_snapshot 5 demo_bids demo_asks demo_start = (res, s1)" by (cases "on_snapshot 5 demo_bids demo_asks demo_start")
  have keeps: "mb_shadow (snd (snd (settle s i r t b))) = mb_shadow b" for s i r t b
    by (auto simp: settle_def bump_invalidations_def split: result.splits bool.splits option.splits sync_error.splits)
  then show ?thesis using o by (simp add: demo_books_def demo_new_def md_on_snapshot_def index_of_def nth_opt_def set_sync_def)
qed

lemma two_levels:
  "compare_levels sd uid a b 0 100 =
     (if nth_best a 0 \<noteq> nth_best b 0
      then Some \<lparr>mm_side = sd, mm_level = 0, mm_update_id = uid, mm_live = nth_best a 0, mm_rebuilt = nth_best b 0\<rparr>
      else if nth_best a 0 = None then None
      else if nth_best a 1 \<noteq> nth_best b 1
      then Some \<lparr>mm_side = sd, mm_level = 1, mm_update_id = uid, mm_live = nth_best a 1, mm_rebuilt = nth_best b 1\<rparr>
      else if nth_best a 1 = None then None else compare_levels sd uid a b 2 98)"
proof -
  have "100 = Suc (Suc 98)" "2 = Suc (Suc 0)" "1 = Suc 0" by simp_all
  then show ?thesis by (simp only: compare_levels.simps Let_def)
qed

lemma demo_deep_books:
  "\<exists>live rebuilt s1. on_snapshot 5 demo_deep_bids demo_asks (reset demo_start) = (Ok True, s1) \<and> last_seq s1 = Some 5 \<and> sync_book s1 = Some rebuilt
     \<and> sync_book demo_live_sync = Some live \<and> last_seq demo_live_sync = Some 5
     \<and> compare live rebuilt 5 = Some \<lparr>mm_side = Buy, mm_level = 1, mm_update_id = 5, mm_live = None, mm_rebuilt = Some \<lparr>lv_price = 90, lv_qty = 1\<rparr>\<rparr>"
  by (simp add: demo_live_sync_def demo_deep_bids_def demo_bids_def demo_asks_def demo_start_def demo_config_def sync_eval compare_def VERIFY_LEVELS_def two_levels nth_best_def checked_nsub_def nth_opt_def
      reset_def invalidate_def book_clear_def)

lemma demo_alarm:
  "fst (md_on_verification_snapshot 0 5 demo_deep_bids demo_asks (snd (start_verification 0 demo_books)))
     = Failed \<lparr>mm_side = Buy, mm_level = 1, mm_update_id = 5, mm_live = None, mm_rebuilt = Some \<lparr>lv_price = 90, lv_qty = 1\<rparr>\<rparr>"
proof -
  obtain live rebuilt s1 where d: "on_snapshot 5 demo_deep_bids demo_asks (reset demo_start) = (Ok True, s1)" "last_seq s1 = Some 5" "sync_book s1 = Some rebuilt"
      "sync_book demo_live_sync = Some live" "last_seq demo_live_sync = Some 5"
      "compare live rebuilt 5 = Some \<lparr>mm_side = Buy, mm_level = 1, mm_update_id = 5, mm_live = None, mm_rebuilt = Some \<lparr>lv_price = 90, lv_qty = 1\<rparr>\<rparr>"
    using demo_deep_books by blast
  have "md_is_live 0 demo_books" using d(4) by (auto simp: md_is_live_def is_live_def sync_book_def index_of_def nth_opt_def split: sync_state.splits)
  then have "snd (start_verification 0 demo_books) = demo_books\<lparr>mb_shadow := \<lparr>sh_instrument = Some 0, sh_sync = reset demo_start, sh_loaded = False\<rparr>\<rparr>"
    by (simp add: start_verification_def demo_books_shadow)
  then show ?thesis using d
    by (simp add: md_on_verification_snapshot_def after_verification_snapshot_def settle_verification_def verdict_def index_of_def nth_opt_def Let_def)
qed

theorem verification_no_false_alarm_witness:
  "\<exists>m. fst (md_on_verification_snapshot 0 5 demo_deep_bids demo_asks (snd (start_verification 0 demo_books))) = Failed m
     \<and> mm_level m = 1 \<and> mm_rebuilt m = Some \<lparr>lv_price = 90, lv_qty = 1\<rparr> \<and> \<not> ve_reach demo_venue Buy 90 \<and> excused demo_venue m"
proof -
  let ?b = "md_step (InStartVerify 0) demo_books"
  let ?m = "\<lparr>mm_side = Buy, mm_level = 1, mm_update_id = 5, mm_live = None, mm_rebuilt = Some \<lparr>lv_price = 90, lv_qty = 1\<rparr>\<rparr>"
  have r: "md_reach (\<lambda>_. demo_venue) ?b" by (rule md_reach.step [OF demo_md_reach]) simp
  have V: "best_first ((\<lambda>_. demo_venue) k)" for k :: nat by (auto simp: best_first_def demo_venue_def) (metis key.simps(1) order.trans side.exhaust)
  have m: "true_md (\<lambda>_. demo_venue) ?b (InMessage [])" using decode_nothing(1) by (metis fst_conv result.distinct(1) true_md.simps(1))
  have v: "true_md (\<lambda>_. demo_venue) ?b (InVerifySnapshot 0 5 demo_deep_bids demo_asks)" using demo_deep_true by simp
  have w: "true_md (\<lambda>_. demo_venue) ?b (InRawVerifySnapshot 0 [])"
    using decode_nothing(2) by (metis fst_conv result.distinct(1) true_md.simps(5) true_body_def)
  have st: "?b = snd (start_verification 0 demo_books)" by simp
  have f: "fst (md_on_verification_snapshot 0 5 demo_deep_bids demo_asks ?b) = Failed ?m" unfolding st by (rule demo_alarm)
  moreover have "excused demo_venue ?m" using verification_no_false_alarm [OF r V m v w] unfolding f by simp
  moreover have "\<not> ve_reach demo_venue Buy 90" by (simp add: demo_venue_def)
  ultimately show ?thesis unfolding st by (intro exI [of _ ?m]) simp
qed
end
