(* ===== verification/Ws_Reader.thy ===== *)
theory Ws_Reader
  imports Ws_Frame
begin

text \<open>
  \<open>crates/bowst-venue/src/ws/reader.rs\<close>: received bytes turned into events.  The receive buffer,
  its two positions and the reassembly buffer are kept as the source keeps them; an event holds
  a copy of the payload it borrows.  Positions are offsets into the buffer, so the saturating
  additions on them never saturate and are written as additions.
\<close>

section \<open>The reader\<close>

datatype ws_event =
    EvText "byte list"
  | EvBinary "byte list"
  | EvPing "byte list"
  | EvPong "byte list"
  | EvClose "nat option" "byte list"

record reader_config =
  rc_buffer :: nat
  rc_max_frame :: nat
  rc_max_message :: nat

record ws_reader =
  wr_buf :: "byte list"
  wr_start :: nat
  wr_end :: nat
  wr_message :: "byte list"
  wr_fragment :: "opcode option"
  wr_config :: reader_config

datatype span = SpanBuf nat nat | SpanMessage

datatype ready = ReadyData opcode span | ReadyPing span | ReadyPong span | ReadyClose "nat option" span

definition MAX_SERVER_HEADER :: nat where "MAX_SERVER_HEADER = 10"

definition ws_reader_new :: "reader_config \<Rightarrow> (ws_reader, ws_error) result" where
  "ws_reader_new config =
     (if sat_u64 (rc_max_frame config + MAX_SERVER_HEADER) > rc_buffer config then Err BufferTooSmall
      else Ok \<lparr>wr_buf = replicate (rc_buffer config) 0, wr_start = 0, wr_end = 0, wr_message = [], wr_fragment = None, wr_config = config\<rparr>)"

definition ws_reader_reset :: "ws_reader \<Rightarrow> ws_reader" where
  "ws_reader_reset r = r\<lparr>wr_start := 0, wr_end := 0, wr_message := [], wr_fragment := None\<rparr>"

text \<open>\<open>buf.get(a..b).unwrap_or_default()\<close>.\<close>

definition slice_or_empty :: "byte list \<Rightarrow> nat \<Rightarrow> nat \<Rightarrow> byte list" where
  "slice_or_empty buf a b = (if a \<le> b \<and> b \<le> length buf then take (b - a) (drop a buf) else [])"

text \<open>\<open>spare\<close> compacts the buffer; the free space it hands out is what lies after the received bytes.\<close>

definition spare :: "ws_reader \<Rightarrow> ws_reader" where
  "spare r =
     (if wr_start r = wr_end r then r\<lparr>wr_start := 0, wr_end := 0\<rparr>
      else if wr_start r > 0 \<and> length (wr_buf r) - wr_end r < rc_max_frame (wr_config r) then
        r\<lparr>wr_buf := write_at 0 (take (wr_end r - wr_start r) (drop (wr_start r) (wr_buf r))) (wr_buf r),
          wr_end := wr_end r - wr_start r, wr_start := 0\<rparr>
      else r)"

definition spare_space :: "ws_reader \<Rightarrow> nat" where
  "spare_space r = length (wr_buf r) - wr_end r"

definition commit :: "nat \<Rightarrow> ws_reader \<Rightarrow> ws_reader" where
  "commit n r = r\<lparr>wr_end := min (wr_end r + n) (length (wr_buf r))\<rparr>"

definition buffered :: "ws_reader \<Rightarrow> nat" where
  "buffered r = wr_end r - wr_start r"

fun span_slice :: "ws_reader \<Rightarrow> span \<Rightarrow> byte list" where
  "span_slice r (SpanBuf a b) = slice_or_empty (wr_buf r) a b"
| "span_slice r SpanMessage = wr_message r"

fun ready_event :: "ws_reader \<Rightarrow> ready \<Rightarrow> ws_event" where
  "ready_event r (ReadyData Binary sp) = EvBinary (span_slice r sp)"
| "ready_event r (ReadyData _ sp) = EvText (span_slice r sp)"
| "ready_event r (ReadyPing sp) = EvPing (span_slice r sp)"
| "ready_event r (ReadyPong sp) = EvPong (span_slice r sp)"
| "ready_event r (ReadyClose code sp) = EvClose code (span_slice r sp)"

definition close_ready :: "ws_reader \<Rightarrow> span \<Rightarrow> (ready, ws_error) result" where
  "close_ready r payload =
     (case payload of
        SpanMessage \<Rightarrow> Err MalformedClose
      | SpanBuf a b \<Rightarrow>
          (case span_slice r payload of
             [] \<Rightarrow> Ok (ReadyClose None payload)
           | [_] \<Rightarrow> Err MalformedClose
           | hi # lo # _ \<Rightarrow> Ok (ReadyClose (Some (from_be [hi, lo])) (SpanBuf (a + 2) b))))"

definition append_span :: "span \<Rightarrow> ws_reader \<Rightarrow> (unit, ws_error) result \<times> ws_reader" where
  "append_span payload r =
     (case payload of
        SpanMessage \<Rightarrow> (Err UnexpectedFragment, r)
      | SpanBuf a b \<Rightarrow>
          let limit = rc_max_message (wr_config r) in
          if length (wr_message r) + (b - a) > limit then (Err (MessageTooLarge limit), r)
          else (Ok (), r\<lparr>wr_message := wr_message r @ slice_or_empty (wr_buf r) a b\<rparr>))"

definition on_data :: "frame_header \<Rightarrow> span \<Rightarrow> ws_reader \<Rightarrow> (ready option, ws_error) result \<times> ws_reader" where
  "on_data h payload r =
     (if wr_fragment r \<noteq> None then (Err UnexpectedFragment, r)
      else if fh_fin h then (Ok (Some (ReadyData (fh_opcode h) payload)), r)
      else
        (case append_span payload (r\<lparr>wr_fragment := Some (fh_opcode h), wr_message := []\<rparr>) of
           (Err e, r1) \<Rightarrow> (Err e, r1) | (Ok _, r1) \<Rightarrow> (Ok None, r1)))"

definition on_continuation :: "frame_header \<Rightarrow> span \<Rightarrow> ws_reader \<Rightarrow> (ready option, ws_error) result \<times> ws_reader" where
  "on_continuation h payload r =
     (case wr_fragment r of
        None \<Rightarrow> (Err UnexpectedFragment, r)
      | Some oc \<Rightarrow>
          (case append_span payload r of
             (Err e, r1) \<Rightarrow> (Err e, r1)
           | (Ok _, r1) \<Rightarrow>
               if \<not> fh_fin h then (Ok None, r1)
               else (Ok (Some (ReadyData oc SpanMessage)), r1\<lparr>wr_fragment := None\<rparr>)))"

definition on_frame :: "frame_header \<Rightarrow> span \<Rightarrow> ws_reader \<Rightarrow> (ready option, ws_error) result \<times> ws_reader" where
  "on_frame h payload r =
     (case fh_opcode h of
        Ping \<Rightarrow> (Ok (Some (ReadyPing payload)), r)
      | Pong \<Rightarrow> (Ok (Some (ReadyPong payload)), r)
      | Close \<Rightarrow> (result_map Some (close_ready r payload), r)
      | Text \<Rightarrow> on_data h payload r
      | Binary \<Rightarrow> on_data h payload r
      | Continuation \<Rightarrow> on_continuation h payload r)"

lemmas on_frame_defs = on_frame_def on_data_def on_continuation_def append_span_def

lemma on_frame_keeps:
  assumes "on_frame h p r = (res, r')"
  shows "wr_buf r' = wr_buf r" "wr_start r' = wr_start r" "wr_end r' = wr_end r" "wr_config r' = wr_config r"
  using assms by (auto simp: on_frame_defs Let_def split: opcode.splits if_splits span.splits option.splits)

definition received :: "ws_reader \<Rightarrow> byte list" where
  "received r = slice_or_empty (wr_buf r) (wr_start r) (wr_end r)"

lemma parsed_header:
  assumes "parse_server_header buf limit = Ok (Some h)"
  shows "2 \<le> fh_header_len h" "fh_header_len h \<le> MAX_SERVER_HEADER" "fh_payload_len h \<le> limit"
proof -
  obtain c t where ct: "len_code (fh_payload_len h) = c # t" "length t \<le> 8" using len_code_hd by blast
  have h: "h = header_of (fh_fin h) (fh_opcode h) (fh_payload_len h)" and ok: "fh_payload_len h \<le> limit"
    using parse_header_sound [OF assms] by (auto simp: header_ok_def)
  have "fh_header_len h = Suc (Suc (length t))" using ct arg_cong [OF h, of fh_header_len] by (simp add: header_of_def server_header_def)
  then show "2 \<le> fh_header_len h" "fh_header_len h \<le> MAX_SERVER_HEADER" using ct by (simp_all add: MAX_SERVER_HEADER_def)
  show "fh_payload_len h \<le> limit" by (rule ok)
qed

function next_event :: "ws_reader \<Rightarrow> (ws_event option, ws_error) result \<times> ws_reader" where
  "next_event r =
     (let available = received r in
      case parse_server_header available (rc_max_frame (wr_config r)) of
        Err e \<Rightarrow> (Err e, r)
      | Ok None \<Rightarrow> (Ok None, r)
      | Ok (Some h) \<Rightarrow>
          let frame_len = fh_header_len h + fh_payload_len h in
          if length available < frame_len then (Ok None, r)
          else
            (case on_frame h (SpanBuf (wr_start r + fh_header_len h) (wr_start r + frame_len)) (r\<lparr>wr_start := wr_start r + frame_len\<rparr>) of
               (Err e, r1) \<Rightarrow> (Err e, r1)
             | (Ok None, r1) \<Rightarrow> next_event r1
             | (Ok (Some ready), r1) \<Rightarrow> (Ok (Some (ready_event r1 ready)), r1)))"
  by pat_completeness auto
termination
proof (relation "measure (\<lambda>r. wr_end r - wr_start r)", goal_cases)
  case (2 r available found h frame_len res r1 none)
  then have "wr_start r1 = wr_start r + frame_len" "wr_end r1 = wr_end r"
    using on_frame_keeps [OF sym, of res r1] by simp_all
  moreover have "2 \<le> frame_len" using 2 parsed_header(1) [of available "rc_max_frame (wr_config r)" h] by simp
  moreover have "frame_len \<le> wr_end r - wr_start r"
    using 2 \<open>2 \<le> frame_len\<close> by (auto simp: received_def slice_or_empty_def split: if_splits)
  ultimately show ?case by simp
qed simp

declare next_event.simps [simp del]

section \<open>The events of a byte stream\<close>

text \<open>
  The specification: what a stream of bytes means, read from its start with everything
  available.  \<open>asm\<close> is the fragmented message in progress.
\<close>

type_synonym assembly = "(opcode \<times> byte list) option"

definition data_event :: "opcode \<Rightarrow> byte list \<Rightarrow> ws_event" where
  "data_event oc bs = (if oc = Binary then EvBinary bs else EvText bs)"

definition extend :: "nat \<Rightarrow> bool \<Rightarrow> opcode \<Rightarrow> byte list \<Rightarrow> (ws_event option \<times> assembly, ws_error) result" where
  "extend limit fin oc bs =
     (if length bs > limit then Err (MessageTooLarge limit)
      else if fin then Ok (Some (data_event oc bs), None) else Ok (None, Some (oc, bs)))"

fun frame_event :: "nat \<Rightarrow> bool \<Rightarrow> opcode \<Rightarrow> byte list \<Rightarrow> assembly \<Rightarrow> (ws_event option \<times> assembly, ws_error) result" where
  "frame_event limit fin Ping bs asm = Ok (Some (EvPing bs), asm)"
| "frame_event limit fin Pong bs asm = Ok (Some (EvPong bs), asm)"
| "frame_event limit fin Close bs asm =
     (case bs of
        [] \<Rightarrow> Ok (Some (EvClose None []), asm)
      | [_] \<Rightarrow> Err MalformedClose
      | hi # lo # reason \<Rightarrow> Ok (Some (EvClose (Some (from_be [hi, lo])) reason), asm))"
| "frame_event limit fin Continuation bs asm =
     (case asm of None \<Rightarrow> Err UnexpectedFragment | Some (oc, msg) \<Rightarrow> extend limit fin oc (msg @ bs))"
| "frame_event limit fin oc bs asm =
     (case asm of Some _ \<Rightarrow> Err UnexpectedFragment
      | None \<Rightarrow> if fin then Ok (Some (data_event oc bs), None) else extend limit fin oc bs)"

definition add_event :: "'e option \<Rightarrow> 'e list \<times> 'x \<Rightarrow> 'e list \<times> 'x" where
  "add_event ev t = (case ev of None \<Rightarrow> t | Some e \<Rightarrow> (e # fst t, snd t))"

function stream_events :: "reader_config \<Rightarrow> byte list \<Rightarrow> assembly \<Rightarrow> ws_event list \<times> ws_error option" where
  "stream_events cfg bs asm =
     (case parse_server_header bs (rc_max_frame cfg) of
        Err e \<Rightarrow> ([], Some e)
      | Ok None \<Rightarrow> ([], None)
      | Ok (Some h) \<Rightarrow>
          if length bs < fh_header_len h + fh_payload_len h then ([], None)
          else
            (case frame_event (rc_max_message cfg) (fh_fin h) (fh_opcode h) (take (fh_payload_len h) (drop (fh_header_len h) bs)) asm of
               Err e \<Rightarrow> ([], Some e)
             | Ok (ev, asm') \<Rightarrow> add_event ev (stream_events cfg (drop (fh_header_len h + fh_payload_len h) bs) asm')))"
  by pat_completeness auto
termination
  by (relation "measure (\<lambda>(cfg, bs, asm). length bs)") (auto dest: parsed_header(1))

declare stream_events.simps [simp del]

definition assembly_of :: "ws_reader \<Rightarrow> assembly" where
  "assembly_of r = map_option (\<lambda>oc. (oc, wr_message r)) (wr_fragment r)"

definition reader_ok :: "ws_reader \<Rightarrow> bool" where
  "reader_ok r \<longleftrightarrow> wr_start r \<le> wr_end r \<and> wr_end r \<le> length (wr_buf r)
     \<and> rc_max_frame (wr_config r) + MAX_SERVER_HEADER \<le> length (wr_buf r)
     \<and> length (wr_message r) \<le> rc_max_message (wr_config r)"

lemma slice_within: "a \<le> b \<Longrightarrow> b \<le> length buf \<Longrightarrow> slice_or_empty buf a b = take (b - a) (drop a buf)"
  by (simp add: slice_or_empty_def)

lemma slice_slice:
  assumes "a \<le> a'" "a' \<le> b'" "b' \<le> b" "b \<le> length buf"
  shows "slice_or_empty buf a' b' = take (b' - a') (drop (a' - a) (slice_or_empty buf a b))"
  using assms by (simp add: slice_within drop_take min_def)

lemma ready_event_data [simp]: "ready_event r (ReadyData oc sp) = data_event oc (span_slice r sp)"
  by (cases oc) (simp_all add: data_event_def)

text \<open>One frame, handled in place, does what the specification says of its payload.\<close>

lemma on_frame_event:
  assumes "on_frame h (SpanBuf a b) r = (res, r')" "a \<le> b" "b \<le> length (wr_buf r)" "length (wr_message r) \<le> rc_max_message (wr_config r)"
  shows "length (wr_message r') \<le> rc_max_message (wr_config r')
    \<and> frame_event (rc_max_message (wr_config r)) (fh_fin h) (fh_opcode h) (slice_or_empty (wr_buf r) a b) (assembly_of r)
      = (case res of Err e \<Rightarrow> Err e | Ok rdy \<Rightarrow> Ok (map_option (ready_event r') rdy, assembly_of r'))"
proof (cases "fh_opcode h")
  case Close
  let ?p = "slice_or_empty (wr_buf r) a b"
  have len: "length ?p = b - a" using assms by (simp add: slice_or_empty_def)
  have rest: "slice_or_empty (wr_buf r) (a + 2) b = drop 2 ?p" if "2 \<le> b - a"
    using slice_slice [of a "a + 2" b b "wr_buf r"] assms that by (simp add: slice_within)
  show ?thesis
  proof (cases ?p rule: remdups_adj.cases)
    case (3 hi lo t)
    then show ?thesis using assms Close rest len by (auto simp: on_frame_def close_ready_def)
  qed (use assms Close in \<open>auto simp: on_frame_def close_ready_def\<close>)
qed (use assms in \<open>auto simp: on_frame_defs extend_def data_event_def assembly_of_def slice_or_empty_def Let_def
      split: option.splits if_splits opcode.splits\<close>)

lemma received_within: "reader_ok r \<Longrightarrow> received r = take (wr_end r - wr_start r) (drop (wr_start r) (wr_buf r))"
  by (simp add: received_def reader_ok_def slice_within)

lemma length_received: "reader_ok r \<Longrightarrow> length (received r) = wr_end r - wr_start r"
  unfolding received_within by (auto simp: received_within reader_ok_def)

text \<open>The outcome of a poll, seen as a step of the specification on the bytes received so far and any to come.\<close>

definition poll_spec :: "ws_reader \<Rightarrow> (ws_event option, ws_error) result \<Rightarrow> ws_reader \<Rightarrow> bool" where
  "poll_spec r res r' \<longleftrightarrow> reader_ok r' \<and> wr_config r' = wr_config r
     \<and> (\<forall>s. stream_events (wr_config r) (received r @ s) (assembly_of r) =
          (case res of Err e \<Rightarrow> ([], Some e)
           | Ok ev \<Rightarrow> add_event ev (stream_events (wr_config r) (received r' @ s) (assembly_of r'))))
     \<and> (res = Ok None \<longrightarrow> length (received r') < rc_max_frame (wr_config r) + MAX_SERVER_HEADER
          \<and> stream_events (wr_config r) (received r') (assembly_of r') = ([], None))"

lemma parse_incomplete_short: "parse_server_header buf limit = Ok None \<Longrightarrow> length buf < MAX_SERVER_HEADER"
proof (rule ccontr)
  assume none: "parse_server_header buf limit = Ok None" and long: "\<not> length buf < MAX_SERVER_HEADER"
  then obtain b0 b1 t where buf: "buf = b0 # b1 # t" by (cases buf; cases "tl buf") (auto simp: MAX_SERVER_HEADER_def)
  have "payload_length buf c \<noteq> Ok None" for c using long by (auto simp: payload_length_def MAX_SERVER_HEADER_def Let_def)
  then show False using none buf
    by (cases "opcode_from_bits (b0 AND 0x0F)"; cases "payload_length buf (b1 AND 0x7F)")
      (auto simp: parse_server_header_def nth_opt_def Let_def split: if_splits option.splits)
qed

lemma take_frame:
  assumes ok: "reader_ok r" and parsed: "parse_server_header (received r) (rc_max_frame (wr_config r)) = Ok (Some h)"
    and whole: "fh_header_len h + fh_payload_len h \<le> length (received r)"
    and frame: "on_frame h (SpanBuf (wr_start r + fh_header_len h) (wr_start r + (fh_header_len h + fh_payload_len h)))
        (r\<lparr>wr_start := wr_start r + (fh_header_len h + fh_payload_len h)\<rparr>) = (res, r')"
  shows "reader_ok r' \<and> wr_config r' = wr_config r
    \<and> (\<forall>s. stream_events (wr_config r) (received r @ s) (assembly_of r) =
        (case res of Err e \<Rightarrow> ([], Some e)
         | Ok rdy \<Rightarrow> add_event (map_option (ready_event r') rdy) (stream_events (wr_config r) (received r' @ s) (assembly_of r'))))"
proof -
  let ?hl = "fh_header_len h" and ?n = "fh_header_len h + fh_payload_len h"
  let ?r1 = "r\<lparr>wr_start := wr_start r + ?n\<rparr>"
  note keeps = on_frame_keeps [OF frame]
  have inside: "wr_start r + ?n \<le> wr_end r" using whole length_received [OF ok] ok by (auto simp: reader_ok_def)
  have event: "length (wr_message r') \<le> rc_max_message (wr_config r')"
    "frame_event (rc_max_message (wr_config r)) (fh_fin h) (fh_opcode h)
        (slice_or_empty (wr_buf r) (wr_start r + ?hl) (wr_start r + ?n)) (assembly_of r)
      = (case res of Err e \<Rightarrow> Err e | Ok rdy \<Rightarrow> Ok (map_option (ready_event r') rdy, assembly_of r'))"
    using on_frame_event [OF frame] ok inside by (auto simp: reader_ok_def assembly_of_def)
  have payload: "slice_or_empty (wr_buf r) (wr_start r + ?hl) (wr_start r + ?n) = take (fh_payload_len h) (drop ?hl (received r))"
    using slice_slice [of "wr_start r" "wr_start r + ?hl" "wr_start r + ?n" "wr_end r" "wr_buf r"] inside ok
    by (simp add: received_def reader_ok_def)
  have ok': "reader_ok r'" using ok event(1) keeps inside by (simp add: reader_ok_def)
  have rest: "received r' = drop ?n (received r)"
    using received_within [OF ok] received_within [OF ok'] keeps by (simp add: drop_take add.commute)
  have "stream_events (wr_config r) (received r @ s) (assembly_of r) =
        (case res of Err e \<Rightarrow> ([], Some e)
         | Ok rdy \<Rightarrow> add_event (map_option (ready_event r') rdy) (stream_events (wr_config r) (received r' @ s) (assembly_of r')))" for s
    using parse_header_stable [of "received r" "rc_max_frame (wr_config r)" s] parsed whole event(2) payload rest
    by (subst stream_events.simps) (simp split: result.splits)
  then show ?thesis using ok' keeps by simp
qed

lemma poll_spec_skip:
  assumes "poll_spec r1 res r'" "wr_config r1 = wr_config r"
    and "\<And>s. stream_events (wr_config r) (received r @ s) (assembly_of r) = stream_events (wr_config r) (received r1 @ s) (assembly_of r1)"
  shows "poll_spec r res r'"
  using assms unfolding poll_spec_def by (simp cong: result.case_cong)

lemma next_event_spec:
  assumes "reader_ok r" "next_event r = (res, r')"
  shows "poll_spec r res r'"
  using assms
proof (induction r rule: next_event.induct)
  case (1 r)
  let ?cfg = "wr_config r"
  let ?av = "received r"
  show ?case
  proof (cases "parse_server_header ?av (rc_max_frame ?cfg)")
    case (Err e)
    have "stream_events ?cfg (?av @ s) (assembly_of r) = ([], Some e)" for s
      using parse_header_stable [of ?av "rc_max_frame ?cfg" s] Err by (subst stream_events.simps) simp
    then show ?thesis using "1.prems" Err by (auto simp: next_event.simps [of r] Let_def poll_spec_def)
  next
    case (Ok found)
    show ?thesis
    proof (cases found)
      case None
      have "stream_events ?cfg ?av (assembly_of r) = ([], None)" using Ok None by (subst stream_events.simps) simp
      then show ?thesis using "1.prems" Ok None parse_incomplete_short [of ?av "rc_max_frame ?cfg"]
        by (auto simp: next_event.simps [of r] Let_def poll_spec_def add_event_def)
    next
      case (Some h)
      have parsed: "parse_server_header ?av (rc_max_frame ?cfg) = Ok (Some h)" using Ok Some by simp
      let ?n = "fh_header_len h + fh_payload_len h"
      show ?thesis
      proof (cases "length ?av < ?n")
        case True
        have "stream_events ?cfg ?av (assembly_of r) = ([], None)" using parsed True by (subst stream_events.simps) simp
        moreover have "?n \<le> rc_max_frame ?cfg + MAX_SERVER_HEADER" using parsed_header [OF parsed] by simp
        ultimately show ?thesis using "1.prems" parsed True
          by (auto simp: next_event.simps [of r] Let_def poll_spec_def add_event_def)
      next
        case whole: False
        obtain out r1 where frame: "on_frame h (SpanBuf (wr_start r + fh_header_len h) (wr_start r + ?n)) (r\<lparr>wr_start := wr_start r + ?n\<rparr>) = (out, r1)"
          by (cases "on_frame h (SpanBuf (wr_start r + fh_header_len h) (wr_start r + ?n)) (r\<lparr>wr_start := wr_start r + ?n\<rparr>)")
        have step: "reader_ok r1" "wr_config r1 = wr_config r"
          "stream_events ?cfg (?av @ s) (assembly_of r) = (case out of Err e \<Rightarrow> ([], Some e)
             | Ok rdy \<Rightarrow> add_event (map_option (ready_event r1) rdy) (stream_events ?cfg (received r1 @ s) (assembly_of r1)))" for s
          using take_frame [OF "1.prems"(1) parsed _ frame] whole by auto
        have unfold: "next_event r = (case out of Err e \<Rightarrow> (Err e, r1) | Ok None \<Rightarrow> next_event r1
            | Ok (Some rdy) \<Rightarrow> (Ok (Some (ready_event r1 rdy)), r1))"
          using parsed whole frame by (simp add: next_event.simps [of r] Let_def split: result.splits option.splits)
        show ?thesis
        proof (cases "out = Ok None")
          case True
          have "poll_spec r1 res r'"
            using "1.IH" [OF refl Ok Some refl whole frame [symmetric] True refl] step(1) "1.prems"(2) unfold True by simp
          then show ?thesis by (rule poll_spec_skip) (use step True in \<open>simp_all add: add_event_def\<close>)
        next
          case False
          then consider e where "out = Err e" | rdy where "out = Ok (Some rdy)" by (metis not_None_eq result.exhaust)
          then show ?thesis
          proof cases
            case 1
            then have "res = Err e" "r' = r1" using unfold "1.prems"(2) by simp_all
            then show ?thesis using step 1 by (simp add: poll_spec_def)
          next
            case 2
            then have "res = Ok (Some (ready_event r1 rdy))" "r' = r1" using unfold "1.prems"(2) by simp_all
            then show ?thesis using step 2 by (simp add: poll_spec_def)
          qed
        qed
      qed
    qed
  qed
qed

section \<open>A connection\<close>

text \<open>
  The transport reads at most as many bytes as \<open>spare\<close> offers into it and commits them; polls
  come at any time.  \<open>ws_run\<close> returns the bytes taken, the events delivered and the error that
  ended the connection, if any.
\<close>

datatype ws_op = Arrive "byte list" | Poll

definition arrive :: "byte list \<Rightarrow> ws_reader \<Rightarrow> byte list \<times> ws_reader" where
  "arrive bs r =
     (let r1 = spare r; got = take (spare_space r1) bs in
      (got, commit (length got) (r1\<lparr>wr_buf := write_at (wr_end r1) got (wr_buf r1)\<rparr>)))"

fun ws_run :: "ws_op list \<Rightarrow> ws_reader \<Rightarrow> byte list \<times> ws_event list \<times> ws_error option \<times> ws_reader" where
  "ws_run [] r = ([], [], None, r)"
| "ws_run (Arrive bs # ops) r =
     (let (got, r1) = arrive bs r; (fed, evs, err, r2) = ws_run ops r1 in (got @ fed, evs, err, r2))"
| "ws_run (Poll # ops) r =
     (case next_event r of
        (Err e, r1) \<Rightarrow> ([], [], Some e, r1)
      | (Ok None, r1) \<Rightarrow> ws_run ops r1
      | (Ok (Some ev), r1) \<Rightarrow> (let (fed, evs, err, r2) = ws_run ops r1 in (fed, ev # evs, err, r2)))"

lemma spare_keeps:
  assumes "reader_ok r"
  shows "reader_ok (spare r) \<and> received (spare r) = received r \<and> assembly_of (spare r) = assembly_of r \<and> wr_config (spare r) = wr_config r"
proof (cases "wr_start r = wr_end r")
  case True
  then show ?thesis using assms by (simp add: spare_def reader_ok_def received_def slice_or_empty_def assembly_of_def)
next
  case False
  then show ?thesis using assms by (auto simp: spare_def reader_ok_def received_def slice_or_empty_def assembly_of_def write_at_def)
qed

lemma arrive_appends:
  assumes "reader_ok r" "arrive bs r = (got, r')"
  shows "reader_ok r'" "received r' = received r @ got" "assembly_of r' = assembly_of r" "wr_config r' = wr_config r"
proof -
  let ?r1 = "spare r"
  have ok: "reader_ok ?r1" and same: "received ?r1 = received r" "assembly_of ?r1 = assembly_of r" "wr_config ?r1 = wr_config r"
    using spare_keeps [OF assms(1)] by auto
  have got: "got = take (spare_space ?r1) bs" and r': "r' = commit (length got) (?r1\<lparr>wr_buf := write_at (wr_end ?r1) got (wr_buf ?r1)\<rparr>)"
    using assms(2) by (auto simp: arrive_def Let_def)
  have fit: "wr_end ?r1 + length got \<le> length (wr_buf ?r1)" using ok got by (auto simp: spare_space_def reader_ok_def)
  have fields: "wr_buf r' = write_at (wr_end ?r1) got (wr_buf ?r1)" "wr_end r' = wr_end ?r1 + length got" "wr_start r' = wr_start ?r1"
    "wr_config r' = wr_config ?r1" "wr_message r' = wr_message ?r1" "wr_fragment r' = wr_fragment ?r1"
    using fit by (simp_all add: r' commit_def)
  show ok': "reader_ok r'" using ok fit by (simp add: reader_ok_def fields)
  show "received r' = received r @ got"
    unfolding received_within [OF ok'] same(1) [symmetric] received_within [OF ok]
    using ok fit by (simp add: fields reader_ok_def write_at_def drop_take)
  show "assembly_of r' = assembly_of r" using same by (simp add: assembly_of_def fields)
  show "wr_config r' = wr_config r" using same by (simp add: fields)
qed

lemma ws_run_spec:
  assumes "reader_ok r" "ws_run ops r = (fed, evs, err, r')"
  shows "reader_ok r' \<and> wr_config r' = wr_config r
    \<and> stream_events (wr_config r) (received r @ fed) (assembly_of r) =
      (case err of Some e \<Rightarrow> (evs, Some e)
       | None \<Rightarrow> (let (more, end) = stream_events (wr_config r) (received r') (assembly_of r') in (evs @ more, end)))"
  using assms
proof (induction ops arbitrary: r fed evs)
  case Nil
  then show ?case by (auto split: prod.splits)
next
  case (Cons oper ops)
  show ?case
  proof (cases oper)
    case (Arrive bs)
    obtain got r1 where a: "arrive bs r = (got, r1)" by (cases "arrive bs r")
    then obtain fed1 where run: "ws_run ops r1 = (fed1, evs, err, r')" "fed = got @ fed1"
      using Cons.prems Arrive by (auto split: prod.splits)
    show ?thesis using Cons.IH [OF _ run(1)] arrive_appends [OF Cons.prems(1) a] run(2) by (cases err) simp_all
  next
    case Poll
    obtain res r1 where p: "next_event r = (res, r1)" by (cases "next_event r")
    note spec = next_event_spec [OF Cons.prems(1) p, unfolded poll_spec_def]
    show ?thesis
    proof (cases res)
      case (Err e)
      then show ?thesis using Cons.prems Poll p spec by (auto dest: HOL.spec [of _ "[]"])
    next
      case (Ok ev)
      then obtain evs1 where run: "ws_run ops r1 = (fed, evs1, err, r')" "evs = (case ev of None \<Rightarrow> evs1 | Some e \<Rightarrow> e # evs1)"
        using Cons.prems Poll p by (cases ev) (auto split: prod.splits)
      show ?thesis using Cons.IH [OF _ run(1)] spec Ok run(2)
        by (auto simp: add_event_def split: option.splits prod.splits)
    qed
  qed
qed

lemma new_reader:
  assumes "ws_reader_new cfg = Ok r" "rc_buffer cfg < 2 ^ 63"
  shows "reader_ok r" "received r = []" "assembly_of r = None" "wr_config r = cfg"
  using assms by (auto simp: ws_reader_new_def reader_ok_def received_def slice_or_empty_def assembly_of_def sat_u64_def u64_max_def
      MAX_SERVER_HEADER_def split: if_splits)

section \<open>Properties\<close>

text \<open>C31: However the bytes of a stream are cut into reads, and whenever the reader is polled in between,
  compaction of its buffer included, the events delivered and the error that ends the connection are those of
  the stream as a whole; and a poll that finds nothing has delivered all there is so far.\<close>

theorem ws_chunks_do_not_matter:
  assumes "ws_reader_new cfg = Ok r0" "rc_buffer cfg < 2 ^ 63" "ws_run ops r0 = (fed, evs, err, r)"
  shows "case err of
      Some e \<Rightarrow> stream_events cfg fed None = (evs, Some e)
    | None \<Rightarrow>
        (case fst (next_event r) of
           Ok None \<Rightarrow> stream_events cfg fed None = (evs, None)
         | Ok (Some ev) \<Rightarrow> (\<exists>more end. stream_events cfg fed None = (evs @ ev # more, end))
         | Err e \<Rightarrow> stream_events cfg fed None = (evs, Some e))"
proof (cases err)
  case (Some e)
  then show ?thesis using ws_run_spec [OF new_reader(1) [OF assms(1,2)] assms(3)] new_reader [OF assms(1,2)] by simp
next
  case None
  have ok: "reader_ok r" "wr_config r = cfg"
    and all: "stream_events cfg fed None = (let (more, end) = stream_events cfg (received r) (assembly_of r) in (evs @ more, end))"
    using ws_run_spec [OF new_reader(1) [OF assms(1,2)] assms(3)] new_reader [OF assms(1,2)] None by auto
  obtain res r' where p: "next_event r = (res, r')" by (cases "next_event r")
  have "stream_events cfg (received r) (assembly_of r) = (case res of Err e \<Rightarrow> ([], Some e)
      | Ok ev \<Rightarrow> add_event ev (stream_events cfg (received r') (assembly_of r')))"
    and "res = Ok None \<longrightarrow> stream_events cfg (received r') (assembly_of r') = ([], None)"
    using next_event_spec [OF ok(1) p] ok(2) unfolding poll_spec_def by (metis append_Nil2)+
  then show ?thesis using None all p by (auto simp: add_event_def split: result.splits option.splits prod.splits)
qed

theorem ws_chunks_do_not_matter_witness:
  "\<exists>r0 fed evs err r. ws_reader_new \<lparr>rc_buffer = 12, rc_max_frame = 2, rc_max_message = 4\<rparr> = Ok r0
    \<and> ws_run [Arrive [0x81, 2, 104], Poll, Arrive [105], Poll] r0 = (fed, evs, err, r)
    \<and> (case err of
        Some e \<Rightarrow> stream_events \<lparr>rc_buffer = 12, rc_max_frame = 2, rc_max_message = 4\<rparr> fed None = (evs, Some e)
      | None \<Rightarrow>
          (case fst (next_event r) of
             Ok None \<Rightarrow> stream_events \<lparr>rc_buffer = 12, rc_max_frame = 2, rc_max_message = 4\<rparr> fed None = (evs, None)
           | Ok (Some ev) \<Rightarrow> (\<exists>more end. stream_events \<lparr>rc_buffer = 12, rc_max_frame = 2, rc_max_message = 4\<rparr> fed None = (evs @ ev # more, end))
           | Err e \<Rightarrow> stream_events \<lparr>rc_buffer = 12, rc_max_frame = 2, rc_max_message = 4\<rparr> fed None = (evs, Some e)))"
proof -
  let ?cfg = "\<lparr>rc_buffer = 12, rc_max_frame = 2, rc_max_message = 4\<rparr>"
  obtain r0 where r0: "ws_reader_new ?cfg = Ok r0" by (simp add: ws_reader_new_def MAX_SERVER_HEADER_def sat_u64_def u64_max_def)
  obtain fed evs err r where run: "ws_run [Arrive [0x81, 2, 104], Poll, Arrive [105], Poll] r0 = (fed, evs, err, r)"
    by (cases "ws_run [Arrive [0x81, 2, 104], Poll, Arrive [105], Poll] r0")
  show ?thesis
    using r0 run ws_chunks_do_not_matter [OF r0 _ run]
    by (intro exI [of _ r0] exI [of _ fed] exI [of _ evs] exI [of _ err] exI [of _ r] conjI) simp_all
qed

text \<open>The reader is never stuck: after a poll that asks for more bytes there is room to read some, however
  many polls and reads came before, and the reassembly buffer stays within the size it was given.\<close>

lemma ws_reader_never_stuck:
  assumes "ws_reader_new cfg = Ok r0" "rc_buffer cfg < 2 ^ 63" "0 < rc_max_frame cfg" "ws_run ops r0 = (fed, evs, None, r)"
    "next_event r = (Ok None, r')"
  shows "0 < spare_space (spare r') \<and> length (wr_message r') \<le> rc_max_message cfg"
proof -
  have ok: "reader_ok r" "wr_config r = cfg"
    using ws_run_spec [OF new_reader(1) [OF assms(1,2)] assms(4)] new_reader [OF assms(1,2)] by auto
  have ok': "reader_ok r'" "wr_config r' = cfg" "length (received r') < rc_max_frame cfg + MAX_SERVER_HEADER"
    using next_event_spec [OF ok(1) assms(5)] ok(2) by (auto simp: poll_spec_def)
  then show ?thesis using assms(3) length_received [OF ok'(1)]
    by (auto simp: spare_def spare_space_def reader_ok_def)
qed

end
