(* ===== verification/Session_Text.thy ===== *)
theory Session_Text
  imports Str_Text Md_Books Journal_Reader
begin

text \<open>
  \<open>crates/bowst-venue/src/binance/replay.rs\<close>, first half: the text a session writes at the head
  of its journal, with the rules and sizes that decide how its books behave, and its parser.

  The formatting of a line piece by piece is modelled here, the other text functions of the standard
  library with the shared ones.
\<close>

section \<open>Text\<close>

text \<open>\<open>writeln!\<close> writes its pieces one by one and stops at one that fails; a piece is \<open>None\<close> when its \<open>Display\<close> fails.\<close>

fun write_pieces :: "byte list option list \<Rightarrow> byte list" where
  "write_pieces [] = []"
| "write_pieces (None # ps) = []"
| "write_pieces (Some t # ps) = t @ write_pieces ps"

definition dec_display :: "dec \<Rightarrow> byte list option" where
  "dec_display d =
     (case write_to d (replicate MAX_TEXT_LEN 0) of
        (Ok n, buf) \<Rightarrow> if n \<le> length buf \<and> utf8_valid (take n buf) then Some (take n buf) else None
      | (Err _, _) \<Rightarrow> None)"

definition increment_display :: "increment \<Rightarrow> byte list option" where
  "increment_display inc = dec_display (as_dec inc)"

section \<open>The description of a session\<close>

definition HEADER_LINE :: "byte list" where
  "HEADER_LINE = ascii ''bowst binance-md session v1''"

record book_sizing =
  bz_sync :: sync_config
  bz_max_levels_per_message :: nat
  bz_snapshot_limit :: nat

definition sizing_pieces :: "book_sizing \<Rightarrow> byte list option list" where
  "sizing_pieces z =
     [Some (ascii ''sizing ''), Some (show_nat (levels_per_side (bz_sync z))), Some (ascii '' ''),
      Some (show_nat (buffered_messages (bz_sync z))), Some (ascii '' ''), Some (show_nat (buffered_updates (bz_sync z))),
      Some (ascii '' ''), Some (show_nat (bz_max_levels_per_message z)), Some (ascii '' ''), Some (show_nat (bz_snapshot_limit z)),
      Some [10]]"

definition instrument_pieces :: "instrument \<Rightarrow> byte list option list" where
  "instrument_pieces i =
     [Some (ascii ''instrument ''), Some (show_nat (unat (inst_id i))), Some (ascii '' ''), Some (symbol_as_str (inst_symbol i)),
      Some (ascii '' ''), increment_display (inst_tick i), Some (ascii '' ''), increment_display (inst_lot i), Some (ascii '' ''),
      dec_display (inst_min_notional i), Some [10]]"

definition describe :: "book_sizing \<Rightarrow> instrument_table \<Rightarrow> byte list" where
  "describe z tbl =
     write_pieces [Some HEADER_LINE, Some [10]] @ write_pieces (sizing_pieces z)
       @ concat (map (\<lambda>i. write_pieces (instrument_pieces i)) tbl)"

datatype replay_error =
    ReplayRead read_error
  | NoSession
  | BadSession "byte list"
  | BadSnapshot
  | InvalidSizing

definition bad_session :: "byte list \<Rightarrow> replay_error" where
  "bad_session line = BadSession (take_chars 80 line)"

definition parse_sizing :: "byte list \<Rightarrow> byte list \<Rightarrow> byte list \<Rightarrow> byte list \<Rightarrow> byte list \<Rightarrow> byte list \<Rightarrow> (book_sizing, replay_error) result" where
  "parse_sizing line levels messages updates per_message limit =
     (let number = (\<lambda>s. ok_or (parse_uint (2 ^ 64) s) (bad_session line)) in
      rbind (number levels) (\<lambda>l.
      rbind (number messages) (\<lambda>m.
      rbind (number updates) (\<lambda>u.
      rbind (number per_message) (\<lambda>p.
      rbind (ok_or (parse_uint (2 ^ 32) limit) (bad_session line)) (\<lambda>k.
      Ok \<lparr>bz_sync = \<lparr>levels_per_side = l, buffered_messages = m, buffered_updates = u\<rparr>,
          bz_max_levels_per_message = p, bz_snapshot_limit = k\<rparr>))))))"

definition result_ok :: "('a, 'b) result \<Rightarrow> 'a option" where
  "result_ok r = (case r of Ok x \<Rightarrow> Some x | Err _ \<Rightarrow> None)"

definition parse_instrument :: "byte list \<Rightarrow> byte list \<Rightarrow> byte list \<Rightarrow> byte list \<Rightarrow> byte list \<Rightarrow> byte list \<Rightarrow> (instrument, replay_error) result" where
  "parse_instrument line id_txt name tick lot min_notional =
     rbind (ok_or (parse_uint (2 ^ 32) id_txt) (bad_session line)) (\<lambda>n.
      rbind (ok_or (symbol_new name) (bad_session line)) (\<lambda>s.
      rbind (ok_or (result_ok (increment_parse tick)) (bad_session line)) (\<lambda>t.
      rbind (ok_or (result_ok (increment_parse lot)) (bad_session line)) (\<lambda>l.
      rbind (ok_or (result_ok (parse_bytes min_notional)) (bad_session line)) (\<lambda>d.
      Ok \<lparr>inst_id = of_nat n, inst_venue = Binance, inst_symbol = s, inst_tick = t, inst_lot = l, inst_min_notional = d\<rparr>)))))"

fun parse_lines :: "byte list list \<Rightarrow> book_sizing option \<Rightarrow> instrument list \<Rightarrow> (book_sizing option \<times> instrument list, replay_error) result" where
  "parse_lines [] z is = Ok (z, is)"
| "parse_lines (line # rest) z is =
     (case split_on 32 line of
        [w, a, b, c, d, e] \<Rightarrow>
          if w = ascii ''sizing'' then rbind (parse_sizing line a b c d e) (\<lambda>z'. parse_lines rest (Some z') is)
          else if w = ascii ''instrument'' then rbind (parse_instrument line a b c d e) (\<lambda>i. parse_lines rest z (is @ [i]))
          else Err (bad_session line)
      | words \<Rightarrow> if words = [[]] then parse_lines rest z is else Err (bad_session line))"

definition parse_description :: "byte list \<Rightarrow> (book_sizing \<times> instrument_table, replay_error) result" where
  "parse_description txt =
     (case text_lines txt of
        [] \<Rightarrow> Err (bad_session [])
      | l # ls \<Rightarrow>
          if l \<noteq> HEADER_LINE then Err (bad_session l)
          else
            rbind (parse_lines ls None []) (\<lambda>(z, is).
            rbind (ok_or z (bad_session (ascii ''missing sizing line''))) (\<lambda>z.
            rbind (ok_or (result_ok (table_new is)) (bad_session (ascii ''invalid instrument list''))) (\<lambda>tbl.
            Ok (z, tbl)))))"

section \<open>Words and lines\<close>

definition word_txt :: "byte list \<Rightarrow> bool" where
  "word_txt w \<longleftrightarrow> list_all is_ascii_graphic w"

lemma word_txt_free: "word_txt w \<Longrightarrow> 32 \<notin> set w \<and> 10 \<notin> set w \<and> 13 \<notin> set w"
  by (auto simp: word_txt_def list_all_iff is_ascii_graphic_def)

lemma word_txt_utf8: "word_txt w \<Longrightarrow> utf8_valid w"
proof (induction w)
  case (Cons b w)
  then show ?case using ascii_graphic_128 [of b] by (simp add: word_txt_def)
qed simp

lemma digits_word: "list_all is_digit ds \<Longrightarrow> word_txt ds"
  unfolding word_txt_def list_all_iff is_digit_def is_ascii_graphic_def
  by (auto intro: order_trans [of 33 48] order_trans [of _ 57 126])

lemma word_txt_append [simp]: "word_txt (a @ b) \<longleftrightarrow> word_txt a \<and> word_txt b"
  by (simp add: word_txt_def)

lemma word_txt_show [simp]: "word_txt (show_nat n)"
  by (rule digits_word [OF show_nat_digits])

lemma word_txt_dec: "dec_wf d \<Longrightarrow> word_txt (dec_chars d)"
proof -
  assume "dec_wf d"
  then have ds: "word_txt (dec_digits d)" using dec_digits_spec(2) digits_word by blast
  then have "word_txt (take n (dec_digits d))" "word_txt (drop n (dec_digits d))" for n
    by (auto simp: word_txt_def list_all_iff dest: in_set_takeD in_set_dropD)
  moreover have "word_txt [45]" "word_txt [46]" by (simp_all add: word_txt_def is_ascii_graphic_def)
  ultimately show ?thesis using word_txt_append [of "[46]"] by (auto simp: dec_chars_def dec_text_def)
qed

lemma text_lines_Nil [simp]: "text_lines [] = []"
  by (simp add: text_lines_def)

lemma text_lines_first:
  assumes "10 \<notin> set l" "13 \<notin> set l"
  shows "text_lines (l @ 10 # rest) = l # text_lines rest"
proof -
  have "strip_cr l = l" using assms(2) last_in_set by (fastforce simp: strip_cr_def)
  then show ?thesis using assms(1) by (simp add: text_lines_def Let_def)
qed

section \<open>Numbers and increments as text\<close>

lemma dec_display_chars: "dec_wf d \<Longrightarrow> dec_display d = Some (dec_chars d)"
  using write_to_Ok [of d "replicate MAX_TEXT_LEN 0"] length_dec_chars [of d] word_txt_utf8 [OF word_txt_dec, of d]
  by (simp add: dec_display_def fixed_consts range_defs)

lemma as_dec_wf: "increment_wf inc \<Longrightarrow> dec_wf (as_dec inc)"
  by (auto simp: increment_wf_def dec_wf_def as_dec_def fixed_consts range_defs)

lemma increment_parse_chars:
  assumes "increment_wf inc" shows "increment_parse (dec_chars (as_dec inc)) = Ok inc"
proof -
  have "parse_bytes (dec_chars (as_dec inc)) = Ok (as_dec inc)"
    using assms by (intro parse_dec_chars as_dec_wf) (auto simp: increment_wf_def as_dec_def)
  moreover have "strip_zeros (inc_mantissa inc) (inc_scale inc) = (inc_mantissa inc, inc_scale inc)"
    using assms by (subst strip_zeros.simps) (auto simp: increment_wf_def)
  ultimately show ?thesis
    using assms by (simp add: increment_parse_def increment_new_def increment_wf_def as_dec_def checked_i64_def)
qed

section \<open>Reading a description back\<close>

definition sizing_ok :: "book_sizing \<Rightarrow> bool" where
  "sizing_ok z \<longleftrightarrow> levels_per_side (bz_sync z) < 2 ^ 64 \<and> buffered_messages (bz_sync z) < 2 ^ 64 \<and> buffered_updates (bz_sync z) < 2 ^ 64
     \<and> bz_max_levels_per_message z < 2 ^ 64 \<and> bz_snapshot_limit z < 2 ^ 32"

text \<open>An instrument as the venue's rules are read: on the venue, with a symbol, increments that are normal and
  a minimum that parses.\<close>

definition instrument_ok :: "instrument \<Rightarrow> bool" where
  "instrument_ok i \<longleftrightarrow> inst_venue i = Binance \<and> (\<exists>t. symbol_new t = Some (inst_symbol i)) \<and> increment_wf (inst_tick i)
     \<and> increment_wf (inst_lot i) \<and> dec_wf (inst_min_notional i) \<and> scale (inst_min_notional i) \<le> MAX_PARSE_SCALE
     \<and> mantissa (inst_min_notional i) \<noteq> - (2 ^ 127)"

fun spaced :: "byte list list \<Rightarrow> byte list" where
  "spaced [] = []"
| "spaced [w] = w"
| "spaced (w # ws) = w @ 32 # spaced ws"

lemma split_spaced: "ws \<noteq> [] \<Longrightarrow> list_all word_txt ws \<Longrightarrow> split_on 32 (spaced ws) = ws"
  by (induction ws rule: spaced.induct) (simp_all add: word_txt_free)

lemma spaced_free: "list_all word_txt ws \<Longrightarrow> 10 \<notin> set (spaced ws) \<and> 13 \<notin> set (spaced ws)"
  by (induction ws rule: spaced.induct) (auto dest: word_txt_free)

definition sizing_words :: "book_sizing \<Rightarrow> byte list list" where
  "sizing_words z = [ascii ''sizing'', show_nat (levels_per_side (bz_sync z)), show_nat (buffered_messages (bz_sync z)),
     show_nat (buffered_updates (bz_sync z)), show_nat (bz_max_levels_per_message z), show_nat (bz_snapshot_limit z)]"

definition instrument_words :: "instrument \<Rightarrow> byte list list" where
  "instrument_words i = [ascii ''instrument'', show_nat (unat (inst_id i)), symbol_as_str (inst_symbol i), dec_chars (as_dec (inst_tick i)),
     dec_chars (as_dec (inst_lot i)), dec_chars (inst_min_notional i)]"

lemma ascii_words [simp]: "word_txt (ascii ''sizing'')" "word_txt (ascii ''instrument'')" "ascii ''instrument'' \<noteq> ascii ''sizing''"
  by (simp_all add: word_txt_def ascii_def of_char_def is_ascii_graphic_def)

lemma sizing_line: "write_pieces (sizing_pieces z) = spaced (sizing_words z) @ [10]" "list_all word_txt (sizing_words z)"
  by (simp_all add: sizing_pieces_def sizing_words_def) (simp add: ascii_def of_char_def)

lemma symbol_word: "symbol_new t = Some y \<Longrightarrow> word_txt (symbol_as_str y) \<and> symbol_new (symbol_as_str y) = Some y"
  using symbol_round_trip [of t y] by (auto simp: symbol_new_def word_txt_def split: if_splits)

lemma instrument_line:
  assumes "instrument_ok i"
  shows "write_pieces (instrument_pieces i) = spaced (instrument_words i) @ [10]" "list_all word_txt (instrument_words i)"
proof -
  note ok = assms [unfolded instrument_ok_def]
  have d: "dec_wf (as_dec (inst_tick i))" "dec_wf (as_dec (inst_lot i))" "dec_wf (inst_min_notional i)" using ok as_dec_wf by auto
  show "list_all word_txt (instrument_words i)" using ok d symbol_word by (auto simp: instrument_words_def word_txt_dec)
  show "write_pieces (instrument_pieces i) = spaced (instrument_words i) @ [10]"
    using d by (simp add: instrument_pieces_def instrument_words_def increment_display_def dec_display_chars)
      (simp add: ascii_def of_char_def)
qed

lemma parse_sizing_words:
  "sizing_ok z \<Longrightarrow> parse_sizing l (show_nat (levels_per_side (bz_sync z))) (show_nat (buffered_messages (bz_sync z)))
     (show_nat (buffered_updates (bz_sync z))) (show_nat (bz_max_levels_per_message z)) (show_nat (bz_snapshot_limit z)) = Ok z"
  by (simp add: sizing_ok_def parse_sizing_def parse_show_nat Let_def)

lemma parse_instrument_words:
  assumes "instrument_ok i"
  shows "parse_instrument l (show_nat (unat (inst_id i))) (symbol_as_str (inst_symbol i)) (dec_chars (as_dec (inst_tick i)))
     (dec_chars (as_dec (inst_lot i))) (dec_chars (inst_min_notional i)) = Ok i"
proof -
  note ok = assms [unfolded instrument_ok_def]
  have "unat (inst_id i) < 2 ^ 32" using unsigned_less [of "inst_id i"] by simp
  moreover have "symbol_new (symbol_as_str (inst_symbol i)) = Some (inst_symbol i)" using ok symbol_word by blast
  moreover have "parse_bytes (dec_chars (inst_min_notional i)) = Ok (inst_min_notional i)" using ok by (intro parse_dec_chars) auto
  ultimately show ?thesis
    using ok by (simp add: parse_instrument_def parse_show_nat increment_parse_chars result_ok_def)
qed

lemma parse_lines_instrument:
  "split_on 32 line = [ascii ''instrument'', a, b, c, d, e] \<Longrightarrow> parse_instrument line a b c d e = Ok i \<Longrightarrow>
     parse_lines (line # rest) z is = parse_lines rest z (is @ [i])"
  by simp

lemma parse_lines_sizing:
  "split_on 32 line = [ascii ''sizing'', a, b, c, d, e] \<Longrightarrow> parse_sizing line a b c d e = Ok z' \<Longrightarrow>
     parse_lines (line # rest) z is = parse_lines rest (Some z') is"
  by simp

lemma parse_lines_instruments:
  "list_all instrument_ok is \<Longrightarrow> parse_lines (map (spaced o instrument_words) is) z acc = Ok (z, acc @ is)"
proof (induction "is" arbitrary: acc)
  case (Cons i "is")
  have "split_on 32 (spaced (instrument_words i)) = instrument_words i"
    using Cons.prems instrument_line(2) by (intro split_spaced) (auto simp: instrument_words_def)
  from parse_lines_instrument [OF this [unfolded instrument_words_def] parse_instrument_words] Cons
  show ?case by (simp add: instrument_words_def [symmetric] del: parse_lines.simps spaced.simps)
qed simp

lemma text_lines_described:
  "list_all instrument_ok is \<Longrightarrow> text_lines (concat (map (\<lambda>i. write_pieces (instrument_pieces i)) is)) = map (spaced o instrument_words) is"
proof (induction "is")
  case (Cons i "is")
  then show ?case
    using text_lines_first [of "spaced (instrument_words i)"] spaced_free [OF instrument_line(2) [of i]] instrument_line(1) [of i] by simp
qed simp

lemma header_line_free: "10 \<notin> set HEADER_LINE" "13 \<notin> set HEADER_LINE"
  by (simp_all add: HEADER_LINE_def ascii_def of_char_def)

lemma described_round_trip:
  assumes "sizing_ok z" "table_new is = Ok tbl" "list_all instrument_ok tbl"
  shows "parse_description (describe z tbl) = Ok (z, tbl)"
proof -
  have tbl: "tbl = is" using assms(2) by (auto simp: table_new_def split: option.splits)
  have "text_lines (describe z tbl) = HEADER_LINE # spaced (sizing_words z) # map (spaced o instrument_words) tbl"
    using text_lines_first [OF header_line_free] text_lines_first [of "spaced (sizing_words z)"] spaced_free [OF sizing_line(2) [of z]]
      text_lines_described [OF assms(3)]
    by (simp add: describe_def sizing_line(1))
  moreover have "split_on 32 (spaced (sizing_words z)) = sizing_words z"
    by (rule split_spaced [OF _ sizing_line(2)]) (simp add: sizing_words_def)
  note parse_lines_sizing [OF this [unfolded sizing_words_def] parse_sizing_words [OF assms(1)], folded sizing_words_def]
  ultimately show ?thesis
    using parse_lines_instruments [OF assms(3)] assms(2) tbl
    by (simp add: parse_description_def result_ok_def del: parse_lines.simps)
qed

section \<open>Properties\<close>

text \<open>A session's description is read back exactly: the sizes and every instrument, with its symbol, its increments
  and its minimum.\<close>

lemma description_round_trip:
  assumes "sizing_ok z" "table_new is = Ok tbl" "list_all instrument_ok tbl"
  shows "parse_description (describe z tbl) = Ok (z, tbl)"
  using assms by (rule described_round_trip)

definition demo_listing :: instrument where
  "demo_listing = demo_instrument\<lparr>inst_symbol := \<lparr>sym_bytes = 65 # replicate 23 0, sym_len = 1\<rparr>\<rparr>"

definition demo_sizing :: book_sizing where
  "demo_sizing = \<lparr>bz_sync = Book_Sync.demo_config, bz_max_levels_per_message = 20, bz_snapshot_limit = 1000\<rparr>"

lemma demo_described: "sizing_ok demo_sizing" "table_new [demo_listing] = Ok [demo_listing]" "list_all instrument_ok [demo_listing]"
proof -
  show "sizing_ok demo_sizing" by (simp add: sizing_ok_def demo_sizing_def Book_Sync.demo_config_def)
  show "table_new [demo_listing] = Ok [demo_listing]" by (simp add: table_new_def demo_listing_def demo_instrument_def)
  have "symbol_new [65] = Some (inst_symbol demo_listing)"
    by (simp add: symbol_new_def demo_listing_def is_ascii_graphic_def MAX_SYMBOL_LEN_def)
  then show "list_all instrument_ok [demo_listing]"
    by (auto simp: instrument_ok_def demo_listing_def demo_instrument_def increment_wf_def dec_wf_def fixed_consts range_defs)
qed

end
