(* ===== verification/Replay.thy ===== *)
theory Replay
  imports Session_Text
begin

text \<open>
  \<open>crates/bowst-venue/src/binance/replay.rs\<close>, second half: replaying a journal into the books.

  The handler is the list of the calls made to it, as in the books.
\<close>

section \<open>Replaying one record\<close>

record replay_report =
  rp_sessions :: nat
  rp_messages :: nat
  rp_snapshots :: nat
  rp_verifications :: nat
  rp_resets :: nat
  rp_dropped :: nat
  rp_torn_tail :: bool

definition replay_report_default :: replay_report where
  "replay_report_default = \<lparr>rp_sessions = 0, rp_messages = 0, rp_snapshots = 0, rp_verifications = 0, rp_resets = 0, rp_dropped = 0,
     rp_torn_tail = False\<rparr>"

record replay_state =
  ry_report :: replay_report
  ry_books :: "md_books option"
  ry_calls :: "notice list"

type_synonym replay_step = "replay_state \<Rightarrow> (unit, replay_error) result \<times> replay_state"

definition replay_start :: replay_state where
  "replay_start = \<lparr>ry_report = replay_report_default, ry_books = None, ry_calls = []\<rparr>"

text \<open>\<open>first_chunk\<close> and \<open>split_first_chunk\<close>, and the instrument id in four little-endian bytes.\<close>

definition split_chunk :: "nat \<Rightarrow> byte list \<Rightarrow> (byte list \<times> byte list) option" where
  "split_chunk k p = (if length p < k then None else Some (take k p, drop k p))"

definition id_from_le :: "byte list \<Rightarrow> instrument_id" where
  "id_from_le bs = of_nat (from_le bs)"

definition with_books :: "(md_books \<Rightarrow> replay_step) \<Rightarrow> replay_step" where
  "with_books f st = (case ry_books st of None \<Rightarrow> (Err NoSession, st) | Some b \<Rightarrow> f b st)"

definition replay_session :: "byte list \<Rightarrow> replay_step" where
  "replay_session p st =
     (if \<not> utf8_valid p then (Err (BadSession (ascii ''not UTF-8'')), st)
      else
        (case parse_description p of
           Err e \<Rightarrow> (Err e, st)
         | Ok (z, tbl) \<Rightarrow>
             (case md_books_new tbl (bz_sync z) (bz_max_levels_per_message z) (bz_snapshot_limit z) of
                Err _ \<Rightarrow> (Err InvalidSizing, st)
              | Ok b \<Rightarrow>
                  (Ok (), st\<lparr>ry_books := Some b, ry_report := (ry_report st)\<lparr>rp_sessions := sat_u64 (rp_sessions (ry_report st) + 1)\<rparr>\<rparr>))))"

definition replay_message :: "byte list \<Rightarrow> replay_step" where
  "replay_message p = with_books (\<lambda>b st.
     let (_, ns, b1) = md_on_message p b in
     (Ok (), st\<lparr>ry_books := Some b1, ry_calls := ry_calls st @ ns,
        ry_report := (ry_report st)\<lparr>rp_messages := sat_u64 (rp_messages (ry_report st) + 1)\<rparr>\<rparr>))"

definition replay_snapshot :: "nanos \<Rightarrow> byte list \<Rightarrow> replay_step" where
  "replay_snapshot wall p = with_books (\<lambda>b st.
     case split_chunk 4 p of
       None \<Rightarrow> (Err BadSnapshot, st)
     | Some (id_bytes, body) \<Rightarrow>
         let (_, ns, b1) = md_on_raw_snapshot (id_from_le id_bytes) body wall b in
         (Ok (), st\<lparr>ry_books := Some b1, ry_calls := ry_calls st @ ns,
            ry_report := (ry_report st)\<lparr>rp_snapshots := sat_u64 (rp_snapshots (ry_report st) + 1)\<rparr>\<rparr>))"

definition replay_verify_start :: "byte list \<Rightarrow> replay_step" where
  "replay_verify_start p = with_books (\<lambda>b st.
     case split_chunk 4 p of
       None \<Rightarrow> (Err BadSnapshot, st)
     | Some (id_bytes, _) \<Rightarrow> (Ok (), st\<lparr>ry_books := Some (snd (start_verification (id_from_le id_bytes) b))\<rparr>))"

definition replay_verify_snapshot :: "byte list \<Rightarrow> replay_step" where
  "replay_verify_snapshot p = with_books (\<lambda>b st.
     case split_chunk 4 p of
       None \<Rightarrow> (Err BadSnapshot, st)
     | Some (id_bytes, body) \<Rightarrow>
         let (_, ns, b1) = md_on_raw_verification_snapshot (id_from_le id_bytes) body b in
         (Ok (), st\<lparr>ry_books := Some b1, ry_calls := ry_calls st @ ns,
            ry_report := (ry_report st)\<lparr>rp_verifications := sat_u64 (rp_verifications (ry_report st) + 1)\<rparr>\<rparr>))"

definition replay_reset :: replay_step where
  "replay_reset = with_books (\<lambda>b st.
     (Ok (), st\<lparr>ry_books := Some (reset_all b), ry_report := (ry_report st)\<lparr>rp_resets := sat_u64 (rp_resets (ry_report st) + 1)\<rparr>\<rparr>))"

definition replay_gap :: "byte list \<Rightarrow> replay_step" where
  "replay_gap p st =
     (let n = (case split_chunk 8 p of None \<Rightarrow> 0 | Some (bs, _) \<Rightarrow> from_le bs) in
      (Ok (), st\<lparr>ry_report := (ry_report st)\<lparr>rp_dropped := sat_u64 (rp_dropped (ry_report st) + n)\<rparr>\<rparr>))"

definition replay_record :: "journal_record \<Rightarrow> replay_step" where
  "replay_record = (\<lambda>(h, p).
     if rh_kind h = SESSION_START then replay_session p
     else if rh_kind h = MD_MESSAGE then replay_message p
     else if rh_kind h = MD_SNAPSHOT then replay_snapshot (rh_wall h) p
     else if rh_kind h = MD_VERIFY_START then replay_verify_start p
     else if rh_kind h = MD_VERIFY_SNAPSHOT then replay_verify_snapshot p
     else if rh_kind h = MD_RESET then replay_reset
     else if rh_kind h = GAP then replay_gap p
     else Pair (Ok ()))"

section \<open>Replaying a journal\<close>

text \<open>The loop ends with the journal or at the first error; that it always ends is shown below.\<close>

partial_function (option) replay_loop ::
  "(byte list \<Rightarrow> 32 word) \<Rightarrow> journal_reader \<Rightarrow> replay_state \<Rightarrow> ((unit, replay_error) result \<times> replay_state \<times> journal_reader) option" where
  "replay_loop crc r st =
     (case next_record crc r of
        (Err e, r1) \<Rightarrow> Some (Err (ReplayRead e), st, r1)
      | (Ok None, r1) \<Rightarrow> Some (Ok (), st, r1)
      | (Ok (Some rc), r1) \<Rightarrow>
          (case replay_record rc st of
             (Err e, st1) \<Rightarrow> Some (Err e, st1, r1)
           | (Ok _, st1) \<Rightarrow> replay_loop crc r1 st1))"

definition replay :: "(byte list \<Rightarrow> 32 word) \<Rightarrow> journal_reader \<Rightarrow> ((replay_report, replay_error) result \<times> notice list \<times> journal_reader) option" where
  "replay crc r =
     map_option (\<lambda>(res, st, r1). (rbind res (\<lambda>_. Ok ((ry_report st)\<lparr>rp_torn_tail := jr_torn_tail r1\<rparr>)), ry_calls st, r1))
       (replay_loop crc r replay_start)"

text \<open>The same over the records the reader returns.\<close>

fun replay_all :: "journal_record list \<Rightarrow> replay_step" where
  "replay_all [] st = (Ok (), st)"
| "replay_all (rc # rcs) st =
     (case replay_record rc st of (Err e, st1) \<Rightarrow> (Err e, st1) | (Ok _, st1) \<Rightarrow> replay_all rcs st1)"

lemma replay_all_append:
  "replay_all (xs @ ys) st = (case replay_all xs st of (Err e, st1) \<Rightarrow> (Err e, st1) | (Ok _, st1) \<Rightarrow> replay_all ys st1)"
  by (induction xs arbitrary: st) (auto split: prod.splits result.splits)

lemma replay_loop_records:
  assumes "read_all crc r = Some (rcs, None, r')" "replay_all rcs st = (Ok (), st')"
  shows "replay_loop crc r st = Some (Ok (), st', r')"
  using assms
proof (induction rcs arbitrary: r st)
  case Nil
  then show ?case
    by (subst replay_loop.simps, subst (asm) read_all.simps) (auto split: prod.splits result.splits option.splits simp: bind_eq_Some_conv)
next
  case (Cons rc rcs)
  obtain r1 where n: "next_record crc r = (Ok (Some rc), r1)" "read_all crc r1 = Some (rcs, None, r')"
    using Cons.prems(1) by (subst (asm) read_all.simps) (auto split: prod.splits result.splits option.splits simp: bind_eq_Some_conv)
  obtain st1 where st1: "replay_record rc st = (Ok (), st1)" "replay_all rcs st1 = (Ok (), st')"
    using Cons.prems(2) by (auto split: prod.splits result.splits)
  show ?case using Cons.IH [OF n(2) st1(2)] n(1) st1(1) by (subst replay_loop.simps) simp
qed

section \<open>Replaying always ends\<close>

definition bytes_left :: "journal_reader \<Rightarrow> nat" where
  "bytes_left r = length (jr_data r) - jr_pos r"

definition files_left :: "journal_reader \<Rightarrow> nat" where
  "files_left r = length (jr_files r) - jr_next_file r"

lemma fill_data_left:
  "fill_data r = (Ok True, r1) \<Longrightarrow> 0 < bytes_left r1 \<and> (files_left r1 < files_left r \<or> files_left r1 = files_left r \<and> bytes_left r1 = bytes_left r)"
proof (induction r rule: fill_data.induct)
  case (1 r)
  show ?case
  proof (cases "length (jr_data r) \<le> jr_pos r")
    case True
    obtain r2 where r2: "load_next r = (Ok True, r2)" "fill_data r2 = (Ok True, r1)"
      using 1(2) True by (subst (asm) fill_data.simps) (auto split: prod.splits result.splits if_splits)
    from "1.IH" [OF True r2(1) [symmetric] refl] r2 load_next_True [OF r2(1)]
    show ?thesis by (auto simp: files_left_def)
  next
    case False
    then show ?thesis using 1(2) by (subst (asm) fill_data.simps) (auto simp: bytes_left_def)
  qed
qed

lemma next_record_left:
  assumes "next_record crc r = (Ok (Some rc), r1)"
  shows "files_left r1 < files_left r \<or> files_left r1 = files_left r \<and> bytes_left r1 < bytes_left r"
proof -
  obtain r2 h len where r2: "fill_data r = (Ok True, r2)" "decode_record crc (drop (jr_pos r2) (jr_data r2)) (jr_pos r2) = Ok (Record h len)"
    "r1 = r2\<lparr>jr_pos := jr_pos r2 + len\<rparr>"
    using assms by (auto simp: next_record_def Let_def split: prod.splits result.splits bool.splits decoded.splits if_splits)
  have "0 < len" using r2(2) by (auto simp: decode_record_def Let_def RECORD_HEADER_LEN_def split: if_splits)
  then show ?thesis using fill_data_left [OF r2(1)] r2(3) by (auto simp: files_left_def bytes_left_def)
qed

lemma replay_loop_total: "\<exists>x. replay_loop crc r st = Some x"
proof (induction "(files_left r, bytes_left r)" arbitrary: r st rule: wf_induct_rule [OF wf_lex_prod [OF wf_less_than wf_less_than]])
  case (1 r st)
  show ?case
  proof (cases "next_record crc r")
    case (Pair res r1)
    show ?thesis
    proof (cases res)
      case (Err e)
      then show ?thesis using Pair by (subst replay_loop.simps) simp
    next
      case (Ok found)
      show ?thesis
      proof (cases found)
        case None
        then show ?thesis using Pair Ok by (subst replay_loop.simps) simp
      next
        case (Some rc)
        then have "((files_left r1, bytes_left r1), (files_left r, bytes_left r)) \<in> less_than <*lex*> less_than"
          using next_record_left [of crc r rc r1] Pair Ok by auto
        from 1 [OF this] show ?thesis using Pair Ok Some by (subst replay_loop.simps) (auto split: prod.splits result.splits)
      qed
    qed
  qed
qed

section \<open>Properties\<close>

text \<open>C35: Replaying ends on every journal, damaged ones included: the files may hold any bytes.\<close>

theorem replay_ends: "\<exists>res calls r'. replay crc r = Some (res, calls, r')"
  using replay_loop_total [of crc r replay_start] by (auto simp: replay_def)

end
