(* ===== verification/Exchange_Info.thy ===== *)
theory Exchange_Info
  imports Depth
begin

text \<open>
  \<open>crates/bowst-venue/src/binance/exchange_info.rs\<close>: the trading rules of the symbols the venue lists.

  The two loops of the decoders, over the members of an object and over the elements of an array, are
  written once, with the body of the loop as an argument.  They are bounded by the input only: partial by
  construction, and shown to return whenever their body does and moves forward.
\<close>

section \<open>Loops over members and elements\<close>

partial_function (option) members_loop ::
  "(byte list \<Rightarrow> 's \<Rightarrow> 's dec_op) \<Rightarrow> 's \<Rightarrow> json_reader \<Rightarrow> (('s, decode_error) result \<times> json_reader) option" where
  "members_loop body s r =
     (case from_json next_key r of
        (Err e, r1) \<Rightarrow> Some (Err e, r1)
      | (Ok None, r1) \<Rightarrow> Some (Ok s, r1)
      | (Ok (Some name), r1) \<Rightarrow>
          (case body name s r1 of
             (Err e, r2) \<Rightarrow> Some (Err e, r2)
           | (Ok s1, r2) \<Rightarrow> members_loop body s1 r2))"

partial_function (option) elements_loop ::
  "('s \<Rightarrow> 's dec_op) \<Rightarrow> 's \<Rightarrow> json_reader \<Rightarrow> (('s, decode_error) result \<times> json_reader) option" where
  "elements_loop body s r =
     (case from_json next_element r of
        (Err e, r1) \<Rightarrow> Some (Err e, r1)
      | (Ok found, r1) \<Rightarrow>
          if \<not> found then Some (Ok s, r1)
          else
            (case body s r1 of
               (Err e, r2) \<Rightarrow> Some (Err e, r2)
             | (Ok s1, r2) \<Rightarrow> elements_loop body s1 r2))"

definition members :: "(byte list \<Rightarrow> 's \<Rightarrow> 's dec_op) \<Rightarrow> 's \<Rightarrow> 's dec_op" where
  "members body s r = the (members_loop body s r)"

definition elements :: "('s \<Rightarrow> 's dec_op) \<Rightarrow> 's \<Rightarrow> 's dec_op" where
  "elements body s r = the (elements_loop body s r)"

section \<open>The rules of a symbol\<close>

record symbol_rules =
  sr_symbol :: symbol
  sr_trading :: bool
  sr_tick :: increment
  sr_lot :: increment
  sr_min_notional :: dec

definition number :: "byte list \<Rightarrow> string \<Rightarrow> (dec, decode_error) result" where
  "number txt field = map_err (InvalidNumber field) (parse_bytes txt)"

definition increment_rule :: "byte list \<Rightarrow> string \<Rightarrow> (increment, decode_error) result" where
  "increment_rule txt field = map_err (InvalidNumber field) (increment_parse txt)"

text \<open>What is known of a symbol while its object is read, and of a filter while its own is.\<close>

record symbol_walk =
  sk_symbol :: "symbol option"
  sk_status :: "bool option"
  sk_tick :: "increment option"
  sk_lot :: "increment option"
  sk_min_notional :: "dec option"

record filter_walk =
  fk_kind :: "byte list option"
  fk_tick_size :: "byte list option"
  fk_step_size :: "byte list option"
  fk_notional :: "byte list option"

definition filter_member :: "byte list \<Rightarrow> filter_walk \<Rightarrow> filter_walk dec_op" where
  "filter_member name f =
     (if name = ascii ''filterType'' then dbind (from_json read_str) (\<lambda>t. give (Ok (f\<lparr>fk_kind := Some t\<rparr>)))
      else if name = ascii ''tickSize'' then dbind (from_json read_str) (\<lambda>t. give (Ok (f\<lparr>fk_tick_size := Some t\<rparr>)))
      else if name = ascii ''stepSize'' then dbind (from_json read_str) (\<lambda>t. give (Ok (f\<lparr>fk_step_size := Some t\<rparr>)))
      else if name = ascii ''minNotional'' then dbind (from_json read_str) (\<lambda>t. give (Ok (f\<lparr>fk_notional := Some t\<rparr>)))
      else dbind (from_json skip) (\<lambda>_. give (Ok f)))"

definition assign_filter :: "filter_walk \<Rightarrow> symbol_walk \<Rightarrow> (symbol_walk, decode_error) result" where
  "assign_filter f s =
     (case fk_kind f of
        None \<Rightarrow> Err (MissingField ''filterType'')
      | Some kind \<Rightarrow>
          if kind = ascii ''PRICE_FILTER'' then
            rbind (ok_or (fk_tick_size f) (MissingField ''tickSize'')) (\<lambda>t.
            rbind (increment_rule t ''tickSize'') (\<lambda>i. Ok (s\<lparr>sk_tick := Some i\<rparr>)))
          else if kind = ascii ''LOT_SIZE'' then
            rbind (ok_or (fk_step_size f) (MissingField ''stepSize'')) (\<lambda>t.
            rbind (increment_rule t ''stepSize'') (\<lambda>i. Ok (s\<lparr>sk_lot := Some i\<rparr>)))
          else if kind = ascii ''NOTIONAL'' \<or> kind = ascii ''MIN_NOTIONAL'' then
            rbind (ok_or (fk_notional f) (MissingField ''minNotional'')) (\<lambda>t.
            rbind (number t ''minNotional'') (\<lambda>d. Ok (s\<lparr>sk_min_notional := Some d\<rparr>)))
          else Ok s)"

definition read_filter :: "symbol_walk \<Rightarrow> symbol_walk dec_op" where
  "read_filter s =
     dbind (from_json begin_object) (\<lambda>_.
     dbind (members filter_member \<lparr>fk_kind = None, fk_tick_size = None, fk_step_size = None, fk_notional = None\<rparr>) (\<lambda>f.
     give (assign_filter f s)))"

definition symbol_member :: "byte list \<Rightarrow> symbol_walk \<Rightarrow> symbol_walk dec_op" where
  "symbol_member name s =
     (if name = ascii ''symbol'' then
        dbind (from_json read_str) (\<lambda>t.
        give (rbind (ok_or (symbol_new t) (UnexpectedValue ''symbol'')) (\<lambda>y. Ok (s\<lparr>sk_symbol := Some y\<rparr>))))
      else if name = ascii ''status'' then
        dbind (from_json read_str) (\<lambda>t. give (Ok (s\<lparr>sk_status := Some (t = ascii ''TRADING'')\<rparr>)))
      else if name = ascii ''filters'' then dbind (from_json begin_array) (\<lambda>_. elements read_filter s)
      else dbind (from_json skip) (\<lambda>_. give (Ok s)))"

definition symbol_checks :: "symbol_walk \<Rightarrow> (symbol_rules, decode_error) result" where
  "symbol_checks s =
     rbind (ok_or (sk_symbol s) (MissingField ''symbol'')) (\<lambda>y.
     rbind (ok_or (sk_status s) (MissingField ''status'')) (\<lambda>t.
     rbind (ok_or (sk_tick s) (MissingField ''tickSize'')) (\<lambda>tick.
     rbind (ok_or (sk_lot s) (MissingField ''stepSize'')) (\<lambda>lot.
     rbind (ok_or (sk_min_notional s) (MissingField ''minNotional'')) (\<lambda>d.
     Ok \<lparr>sr_symbol = y, sr_trading = t, sr_tick = tick, sr_lot = lot, sr_min_notional = d\<rparr>)))))"

definition read_symbol_rules :: "symbol_rules dec_op" where
  "read_symbol_rules =
     dbind (from_json begin_object) (\<lambda>_.
     dbind (members symbol_member \<lparr>sk_symbol = None, sk_status = None, sk_tick = None, sk_lot = None, sk_min_notional = None\<rparr>) (\<lambda>s.
     give (symbol_checks s)))"

definition info_member :: "byte list \<Rightarrow> symbol_rules list \<Rightarrow> symbol_rules list dec_op" where
  "info_member name rules =
     (if name = ascii ''symbols'' then
        dbind (from_json begin_array) (\<lambda>_. elements (\<lambda>rules. dbind read_symbol_rules (\<lambda>x. give (Ok (rules @ [x])))) rules)
      else dbind (from_json skip) (\<lambda>_. give (Ok rules)))"

definition decode_exchange_info :: "byte list \<Rightarrow> (symbol_rules list, decode_error) result" where
  "decode_exchange_info message =
     fst (dbind (from_json begin_object) (\<lambda>_.
          dbind (members info_member []) (\<lambda>rules.
          dbind (from_json finish) (\<lambda>_. give (Ok rules)))) (reader_new message))"

section \<open>The loops return\<close>

lemma members_loop_returns:
  assumes body: "\<And>name s r. reader_wf r \<Longrightarrow> advances 0 (body name s r) r"
    and keep: "\<And>name s r s' r'. reader_wf r \<Longrightarrow> P s \<Longrightarrow> body name s r = (Ok s', r') \<Longrightarrow> P s'" and start: "reader_wf r" "P s"
  shows "\<exists>out. members_loop body s r = Some out \<and> advances 0 out r \<and> (\<forall>s'. fst out = Ok s' \<longrightarrow> P s')"
  using start
proof (induction "length (rd_buf r) - rd_pos r" arbitrary: r s rule: less_induct)
  case less
  obtain res r1 where k: "from_json next_key r = (res, r1)" by (cases "from_json next_key r")
  consider (stop) "\<forall>name. res \<noteq> Ok (Some name)" | (member) name where "res = Ok (Some name)" by blast
  then show ?case
  proof cases
    case stop
    then show ?thesis using k next_key_from_json [OF less.prems(1) k] less.prems(2)
      by (subst members_loop.simps) (auto simp: advances_def intro: moved_weaken split: result.splits option.splits)
  next
    case member
    have m: "moved 1 r r1" using next_key_from_json [OF less.prems(1) k] member by simp
    obtain res2 r2 where b: "body name s r1 = (res2, r2)" by (cases "body name s r1")
    have m2: "moved 1 r r2" using moved_trans [OF m] body [OF moved_wf [OF m], of name s] b by (fastforce simp: advances_def)
    show ?thesis
    proof (cases res2)
      case (Ok s1)
      obtain out where "members_loop body s1 r2 = Some out" "advances 0 out r2" "\<forall>s'. fst out = Ok s' \<longrightarrow> P s'"
        using less.hyps [OF moved_shrinks [OF m2] moved_wf [OF m2] keep [OF moved_wf [OF m] less.prems(2)]] b Ok by blast
      then show ?thesis using moved_trans [OF m2, of 0] by (subst members_loop.simps) (auto simp: k member b Ok advances_def intro: moved_weaken)
    next
      case (Err e)
      then show ?thesis using moved_weaken [OF m2] by (subst members_loop.simps) (auto simp: k member b advances_def)
    qed
  qed
qed

lemma elements_loop_returns:
  assumes body: "\<And>s r. reader_wf r \<Longrightarrow> advances 1 (body s r) r"
    and keep: "\<And>s r s' r'. reader_wf r \<Longrightarrow> P s \<Longrightarrow> body s r = (Ok s', r') \<Longrightarrow> P s'" and start: "reader_wf r" "P s"
  shows "\<exists>out. elements_loop body s r = Some out \<and> advances 0 out r \<and> (\<forall>s'. fst out = Ok s' \<longrightarrow> P s')"
  using start
proof (induction "length (rd_buf r) - rd_pos r" arbitrary: r s rule: less_induct)
  case less
  obtain res r1 where k: "from_json next_element r = (res, r1)" by (cases "from_json next_element r")
  have m: "moved 0 r r1" using next_element_advances [OF less.prems(1)] k by (simp add: advances_def split: if_splits)
  show ?case
  proof (cases "res = Ok True")
    case False
    then show ?thesis using k m less.prems(2)
      by (subst elements_loop.simps) (auto simp: advances_def split: result.splits)
  next
    case True
    obtain res2 r2 where b: "body s r1 = (res2, r2)" by (cases "body s r1")
    have a: "advances 1 (res2, r2) r1" using body [OF moved_wf [OF m], of s] b by simp
    show ?thesis
    proof (cases res2)
      case (Ok s1)
      then have m2: "moved 1 r r2" using moved_trans [OF m, of 1 r2] a by (simp add: advances_def)
      obtain out where "elements_loop body s1 r2 = Some out" "advances 0 out r2" "\<forall>s'. fst out = Ok s' \<longrightarrow> P s'"
        using less.hyps [OF moved_shrinks [OF m2] moved_wf [OF m2] keep [OF moved_wf [OF m] less.prems(2)]] b Ok by blast
      then show ?thesis using moved_trans [OF m2, of 0] by (subst elements_loop.simps) (auto simp: k True b Ok advances_def intro: moved_weaken)
    next
      case (Err e)
      then show ?thesis using a moved_trans [OF m, of 0 r2] by (subst elements_loop.simps) (auto simp: k True b advances_def)
    qed
  qed
qed

lemma members_advances:
  assumes "\<And>name s r. reader_wf r \<Longrightarrow> advances 0 (body name s r) r" "reader_wf r"
  shows "members_loop body s r = Some (members body s r)" "advances 0 (members body s r) r"
  using members_loop_returns [of body "\<lambda>_. True" r s] assms by (auto simp: members_def)

lemma elements_advances:
  assumes "\<And>s r. reader_wf r \<Longrightarrow> advances 1 (body s r) r" "reader_wf r"
  shows "elements_loop body s r = Some (elements body s r)" "advances 0 (elements body s r) r"
  using elements_loop_returns [of body "\<lambda>_. True" r s] assms by (auto simp: elements_def)

text \<open>What every turn of a loop keeps holds at its end.\<close>

lemma members_keeps:
  assumes "members body s r = (Ok s', r')" "reader_wf r" "P s" "\<And>name s r. reader_wf r \<Longrightarrow> advances 0 (body name s r) r"
    "\<And>name s r s' r'. reader_wf r \<Longrightarrow> P s \<Longrightarrow> body name s r = (Ok s', r') \<Longrightarrow> P s'"
  shows "P s'"
proof -
  have "\<exists>out. members_loop body s r = Some out \<and> advances 0 out r \<and> (\<forall>s'. fst out = Ok s' \<longrightarrow> P s')"
    by (rule members_loop_returns [where P = P]) (erule assms(4), erule (2) assms(5), rule assms(2), rule assms(3))
  then show ?thesis using assms(1) by (auto simp: members_def)
qed

lemma elements_keeps:
  assumes "elements body s r = (Ok s', r')" "reader_wf r" "P s" "\<And>s r. reader_wf r \<Longrightarrow> advances 1 (body s r) r"
    "\<And>s r s' r'. reader_wf r \<Longrightarrow> P s \<Longrightarrow> body s r = (Ok s', r') \<Longrightarrow> P s'"
  shows "P s'"
proof -
  have "\<exists>out. elements_loop body s r = Some out \<and> advances 0 out r \<and> (\<forall>s'. fst out = Ok s' \<longrightarrow> P s')"
    by (rule elements_loop_returns [where P = P]) (erule assms(4), erule (2) assms(5), rule assms(2), rule assms(3))
  then show ?thesis using assms(1) by (auto simp: elements_def)
qed

lemmas dbind_advances_0 = dbind_advances [where k = 0 and l = 0, unfolded add_0]
lemmas dbind_advances_1 = dbind_advances [where k = 1 and l = 0, unfolded add_0_right]

lemma advances_weaken: "advances k out r \<Longrightarrow> advances 0 out r"
  by (auto simp: advances_def intro: moved_weaken split: if_splits)

lemma filter_member_advances: "reader_wf r \<Longrightarrow> advances 0 (filter_member name f r) r"
  by (auto simp: filter_member_def intro!: dbind_advances_0 str_advances skip_advances give_advances)

lemma read_filter_advances: "reader_wf r \<Longrightarrow> advances 1 (read_filter s r) r"
  unfolding read_filter_def
  by (intro dbind_advances_1 begin_advances(2) dbind_advances_0 members_advances(2) filter_member_advances give_advances)

lemma symbol_member_advances: "reader_wf r \<Longrightarrow> advances 0 (symbol_member name s r) r"
  by (auto simp: symbol_member_def
      intro!: dbind_advances_0 str_advances skip_advances give_advances elements_advances(2) read_filter_advances advances_weaken [OF begin_advances(1)])

lemma read_symbol_advances: "reader_wf r \<Longrightarrow> advances 1 (read_symbol_rules r) r"
  unfolding read_symbol_rules_def
  by (intro dbind_advances_1 begin_advances(2) dbind_advances_0 members_advances(2) symbol_member_advances give_advances)

lemma push_symbol_advances: "reader_wf r \<Longrightarrow> advances 1 (dbind read_symbol_rules (\<lambda>x. give (Ok (rules @ [x]))) r) r"
  by (intro dbind_advances_1 read_symbol_advances give_advances)

lemma info_member_advances: "reader_wf r \<Longrightarrow> advances 0 (info_member name rules r) r"
  by (auto simp: info_member_def
      intro!: dbind_advances_0 skip_advances give_advances elements_advances(2) push_symbol_advances advances_weaken [OF begin_advances(1)])

section \<open>The rules read are sound\<close>

definition dec_parsed :: "dec \<Rightarrow> bool" where
  "dec_parsed d \<longleftrightarrow> dec_wf d \<and> scale d \<le> MAX_PARSE_SCALE \<and> mantissa d \<noteq> - (2 ^ 127)"

definition made_symbol :: "symbol \<Rightarrow> bool" where
  "made_symbol y \<longleftrightarrow> (\<exists>t. symbol_new t = Some y)"

lemma made_symbolI: "symbol_new t = Some y \<Longrightarrow> made_symbol y"
  by (auto simp: made_symbol_def)

definition rules_ok :: "symbol_rules \<Rightarrow> bool" where
  "rules_ok x \<longleftrightarrow> made_symbol (sr_symbol x) \<and> increment_wf (sr_tick x) \<and> increment_wf (sr_lot x) \<and> dec_parsed (sr_min_notional x)"

definition walk_ok :: "symbol_walk \<Rightarrow> bool" where
  "walk_ok s \<longleftrightarrow> (\<forall>y. sk_symbol s = Some y \<longrightarrow> made_symbol y) \<and> (\<forall>i. sk_tick s = Some i \<longrightarrow> increment_wf i)
     \<and> (\<forall>i. sk_lot s = Some i \<longrightarrow> increment_wf i) \<and> (\<forall>d. sk_min_notional s = Some d \<longrightarrow> dec_parsed d)"

lemma dbind_Ok: "dbind m f r = (Ok y, r') \<Longrightarrow> \<exists>x r1. m r = (Ok x, r1) \<and> f x r1 = (Ok y, r')"
  by (auto simp: dbind_def split: prod.splits result.splits)

lemma parsed_dec: "parse_bytes t = Ok d \<Longrightarrow> dec_parsed d"
proof -
  assume "parse_bytes t = Ok d"
  then obtain neg ip fp where d: "text_ok ip fp" "d = dec_of neg ip fp" by (auto simp: parse_bytes_Ok_iff)
  then have "int (digits_val (ip @ fp)) < 2 ^ 127" using of_nat_less_iff [of "digits_val (ip @ fp)" "2 ^ 127"] by (simp add: text_ok_def)
  then show "dec_parsed d" using d by (auto simp: dec_parsed_def dec_wf_def dec_of_def text_ok_def range_defs fixed_consts split: if_splits)
qed

lemma parsed_increment: "increment_parse t = Ok i \<Longrightarrow> increment_wf i"
  by (simp add: increment_parse_normal)

lemma assign_filter_ok: "assign_filter f s = Ok s' \<Longrightarrow> walk_ok s \<Longrightarrow> walk_ok s'"
  by (auto simp: assign_filter_def walk_ok_def number_def increment_rule_def result_simps dest: parsed_dec parsed_increment split: option.splits if_splits)

lemma read_filter_ok: "read_filter s r = (Ok s', r') \<Longrightarrow> walk_ok s \<Longrightarrow> walk_ok s'"
  by (auto simp: read_filter_def give_def dest!: dbind_Ok intro: assign_filter_ok)

lemma symbol_member_ok:
  assumes "reader_wf r" "walk_ok s" "symbol_member name s r = (Ok s', r')"
  shows "walk_ok s'"
proof (cases "name = ascii ''filters''")
  case True
  have n: "ascii ''filters'' \<noteq> ascii ''symbol''" "ascii ''filters'' \<noteq> ascii ''status''" by (simp_all add: ascii_def of_char_def)
  then obtain x r1 where b: "from_json begin_array r = (Ok x, r1)" "elements read_filter s r1 = (Ok s', r')"
    using assms(3) True by (auto simp: symbol_member_def dest!: dbind_Ok)
  have "reader_wf r1" using begin_advances(1) [OF assms(1)] b(1) by (auto simp: advances_def dest: moved_wf)
  from elements_keeps [OF b(2) this, of walk_ok] show ?thesis using assms(2) read_filter_advances read_filter_ok by blast
next
  case False
  then show ?thesis using assms(3,2)
    by (auto simp: symbol_member_def give_def walk_ok_def result_simps dest!: dbind_Ok split: if_splits)
      (erule made_symbolI)
qed

lemma read_symbol_ok:
  assumes "read_symbol_rules r = (Ok x, r')" "reader_wf r"
  shows "rules_ok x"
proof -
  let ?s0 = "\<lparr>sk_symbol = None, sk_status = None, sk_tick = None, sk_lot = None, sk_min_notional = None\<rparr>"
  obtain u r1 s r2 where b: "from_json begin_object r = (Ok u, r1)" "members symbol_member ?s0 r1 = (Ok s, r2)" "symbol_checks s = Ok x"
    using assms(1) by (auto simp: read_symbol_rules_def give_def dest!: dbind_Ok)
  have "reader_wf r1" using begin_advances(2) [OF assms(2)] b(1) by (auto simp: advances_def dest: moved_wf)
  moreover have "walk_ok ?s0" by (simp add: walk_ok_def)
  ultimately have "walk_ok s"
    by (rule members_keeps [where P = walk_ok, OF b(2)]) (erule symbol_member_advances, erule (2) symbol_member_ok)
  then show ?thesis using b(3) by (auto simp: symbol_checks_def walk_ok_def rules_ok_def result_simps)
qed

lemma info_member_ok:
  assumes "info_member name rules r = (Ok rules', r')" "list_all rules_ok rules" "reader_wf r"
  shows "list_all rules_ok rules'"
proof (cases "name = ascii ''symbols''")
  case True
  then obtain x r1 where b: "from_json begin_array r = (Ok x, r1)"
      "elements (\<lambda>rules. dbind read_symbol_rules (\<lambda>x. give (Ok (rules @ [x])))) rules r1 = (Ok rules', r')"
    using assms(1) by (auto simp: info_member_def dest!: dbind_Ok)
  have wf: "reader_wf r1" using begin_advances(1) [OF assms(3)] b(1) by (auto simp: advances_def dest: moved_wf)
  show ?thesis
    by (rule elements_keeps [OF b(2) wf, of "list_all rules_ok"])
      (use assms(2) push_symbol_advances read_symbol_ok in \<open>auto simp: give_def dest!: dbind_Ok\<close>)
next
  case False
  then show ?thesis using assms(1,2) by (auto simp: info_member_def give_def dest!: dbind_Ok)
qed

lemma new_reader_wf: "reader_wf (reader_new message)"
  by (simp add: reader_wf_def reader_new_def)

lemma decode_exchange_info_ok:
  assumes "decode_exchange_info message = Ok rules"
  shows "list_all rules_ok rules"
proof -
  obtain u r1 r2 where b: "from_json begin_object (reader_new message) = (Ok u, r1)" "members info_member [] r1 = (Ok rules, r2)"
    using assms unfolding decode_exchange_info_def by (auto simp: give_def dbind_def split: prod.splits result.splits)
  have "reader_wf r1" using begin_advances(2) [OF new_reader_wf [of message]] b(1) by (auto simp: advances_def dest: moved_wf)
  from members_keeps [OF b(2) this, of "list_all rules_ok"] show ?thesis
    using info_member_advances info_member_ok by auto
qed

end
