(* ===== verification/Info_Text.thy ===== *)
theory Info_Text
  imports Exchange_Info
begin

text \<open>
  What an \<open>exchangeInfo\<close> answer says, stated on the JSON value it is the text of, and that \<open>decode_exchange_info\<close>
  (\<open>crates/bowst-venue/src/binance/exchange_info.rs\<close>) reads exactly that, whatever the order of the members and
  filters and whatever else the answer holds.
\<close>

section \<open>Operations that take one value\<close>

definition takes :: "nat \<Rightarrow> 'a dec_op \<Rightarrow> jval \<Rightarrow> 'a \<Rightarrow> bool" where
  "takes d m v x \<longleftrightarrow> (\<forall>r s. ahead r = val_text v @ s \<longrightarrow> delim s \<longrightarrow> rd_depth r + d \<le> MAX_DEPTH
     \<longrightarrow> m r = (Ok x, past (val_text v) (rd_depth r) True r))"

lemma takesD: "takes d m v x \<Longrightarrow> ahead r = val_text v @ s \<Longrightarrow> delim s \<Longrightarrow> rd_depth r + d \<le> MAX_DEPTH
    \<Longrightarrow> m r = (Ok x, past (val_text v) (rd_depth r) True r)"
  by (simp add: takes_def)

lemma takes_less: "takes d m v x \<Longrightarrow> d \<le> e \<Longrightarrow> takes e m v x"
  by (simp add: takes_def)

lemma takes_give: "takes d m v x \<Longrightarrow> f x = Ok y \<Longrightarrow> takes d (dbind m (\<lambda>x. give (f x))) v y"
  by (simp add: takes_def dbind_def give_def)

lemma dbind_assoc: "dbind (dbind m f) g = dbind m (\<lambda>x. dbind (f x) g)"
  by (rule ext) (auto simp: dbind_def split: prod.split result.split)

lemma takes_skip: "val_ok d v \<Longrightarrow> takes d (from_json skip) v ()"
  unfolding takes_def using skip_here by (auto intro!: from_json_Ok simp: skip_def)

definition is_text :: "jval \<Rightarrow> bool" where
  "is_text v \<longleftrightarrow> (\<exists>t. v = string_val t \<and> list_all plain t \<and> utf8_valid t)"

fun text_of :: "jval \<Rightarrow> byte list" where
  "text_of (JString us) = concat (map unit_text us)"
| "text_of v = []"

lemma text_of_string [simp]: "text_of (string_val t) = t"
  by (simp add: string_val_def)

lemma string_val_eq [simp]: "string_val a = string_val b \<longleftrightarrow> a = b"
  by (metis text_of_string)

lemma is_text_string [simp]: "is_text (string_val t) \<longleftrightarrow> list_all plain t \<and> utf8_valid t"
  by (auto simp: is_text_def)

lemma val_ok_string [simp]: "val_ok d (string_val t) \<longleftrightarrow> list_all plain t"
  by (auto simp: string_val_def list_all_iff)

lemma takes_str: "is_text v \<Longrightarrow> takes d (from_json read_str) v (text_of v)"
  unfolding takes_def is_text_def using str_here(2) by (auto intro!: from_json_Ok simp: string_text)

lemma takes_str_give: "is_text v \<Longrightarrow> g (text_of v) = Ok y \<Longrightarrow> takes d (dbind (from_json read_str) (\<lambda>t. give (g t))) v y"
  by (rule takes_give [OF takes_str])

lemma takes_skip_give: "val_ok d v \<Longrightarrow> takes d (dbind (from_json skip) (\<lambda>_. give (Ok y))) v y"
  by (rule takes_give [OF takes_skip]) simp_all

lemma members_take:
  assumes "list_all2 (\<lambda>(k, v) f. list_all plain k \<and> utf8_valid k \<and> (\<forall>s. takes d (body k s) v (f s))) kvs fs"
    "ahead r = members_text a kvs @ 125 # t" "rd_after_value r = a" "rd_depth r + d \<le> MAX_DEPTH"
  shows "members_loop body s r = Some (Ok (fold (\<lambda>f. f) fs s), past (members_text a kvs @ [125]) (rd_depth r - 1) True r)"
  using assms
proof (induction kvs arbitrary: fs s r a)
  case Nil
  then have "from_json next_key r = (Ok None, past [125] (rd_depth r - 1) True r)" using next_key_end [of r t] by (intro from_json_Ok) simp
  then show ?case using Nil by (subst members_loop.simps) simp
next
  case (Cons kv kvs)
  obtain k v where kv: "kv = (k, v)" by (cases kv)
  obtain f fs' where fs: "fs = f # fs'" "list_all plain k" "utf8_valid k" "\<And>s. takes d (body k s) v (f s)"
      and rest: "list_all2 (\<lambda>(k, v) f. list_all plain k \<and> utf8_valid k \<and> (\<forall>s. takes d (body k s) v (f s))) kvs fs'"
    using Cons.prems(1) kv by (auto simp: list_all2_Cons1)
  let ?r1 = "past (sep a @ key_text k) (rd_depth r) False r" and ?r2 = "past (sep a @ key_text k @ val_text v) (rd_depth r) True r"
  have ah: "ahead r = (sep a @ key_text k) @ (val_text v @ members_text True kvs @ 125 # t)" using Cons.prems(2) kv by simp
  have 1: "from_json next_key r = (Ok (Some k), ?r1)"
    using next_key_here [of r k, OF _ fs(2,3)] ah Cons.prems(3) by (intro from_json_Ok) simp
  have 2: "body k s ?r1 = (Ok (f s), ?r2)"
    using takesD [OF fs(4) _ delim_after(2), of ?r1 kvs t s] ahead_past [OF ah] Cons.prems(4) by simp
  have a2: "ahead ?r2 = members_text True kvs @ 125 # t" by (rule ahead_past) (simp add: ah)
  show ?case using Cons.IH [OF rest a2, of "f s"] Cons.prems(4) 1 2 kv fs(1) by (subst members_loop.simps) simp
qed

lemma elements_take:
  assumes "list_all2 (\<lambda>kvs f. \<forall>s. takes d (body s) (JObject kvs) (f s)) os fs"
    "ahead r = elems_text a (map JObject os) @ 93 # t" "rd_after_value r = a" "rd_depth r + d \<le> MAX_DEPTH"
  shows "elements_loop body s r = Some (Ok (fold (\<lambda>f. f) fs s), past (elems_text a (map JObject os) @ [93]) (rd_depth r - 1) True r)"
  using assms
proof (induction os arbitrary: fs s r a)
  case Nil
  then have "from_json next_element r = (Ok False, past [93] (rd_depth r - 1) True r)"
    unfolding next_element_def using next_member_end [of r 93 t] by (intro from_json_Ok) (simp add: is_space_def)
  then show ?case using Nil by (subst elements_loop.simps) simp
next
  case (Cons kvs os)
  obtain f fs' where fs: "fs = f # fs'" "\<And>s. takes d (body s) (JObject kvs) (f s)"
      and rest: "list_all2 (\<lambda>kvs f. \<forall>s. takes d (body s) (JObject kvs) (f s)) os fs'"
    using Cons.prems(1) by (auto simp: list_all2_Cons1)
  let ?v = "val_text (JObject kvs)"
  let ?r1 = "past (sep a) (rd_depth r) a r" and ?r2 = "past (sep a @ ?v) (rd_depth r) True r"
  have ah: "ahead r = sep a @ (?v @ elems_text True (map JObject os) @ 93 # t)" using Cons.prems(2) by simp
  have 1: "from_json next_element r = (Ok True, ?r1)" unfolding next_element_def
    using next_member_more [of r 123 _ 93] ah Cons.prems(3) by (intro from_json_Ok) (simp add: is_space_def)
  have 2: "body s ?r1 = (Ok (f s), ?r2)"
    using takesD [OF fs(2) _ delim_after(1), of ?r1 "map JObject os" t s] ahead_past [OF ah] Cons.prems(4) by simp
  have a2: "ahead ?r2 = elems_text True (map JObject os) @ 93 # t" by (rule ahead_past) (simp add: ah)
  show ?case using Cons.IH [OF rest a2, of "f s"] Cons.prems(4) 1 2 fs(1) by (subst elements_loop.simps) simp
qed

lemma takes_object:
  assumes "list_all2 (\<lambda>(k, v) f. list_all plain k \<and> utf8_valid k \<and> (\<forall>s. takes d (body k s) v (f s))) kvs fs"
  shows "takes (Suc d) (dbind (from_json begin_object) (\<lambda>_. members body s)) (JObject kvs) (fold (\<lambda>f. f) fs s)"
  unfolding takes_def
proof (intro allI impI)
  fix r t assume a: "ahead r = val_text (JObject kvs) @ t" "rd_depth r + Suc d \<le> MAX_DEPTH"
  let ?r1 = "past [123] (rd_depth r + 1) False r"
  have ah: "ahead r = [123] @ (members_text False kvs @ 125 # t)" using a(1) by simp
  have "from_json begin_object r = (Ok (), ?r1)" unfolding begin_object_def
    using enter_here [of r 123] ah a(2) by (intro from_json_Ok) (simp add: is_space_def)
  then show "dbind (from_json begin_object) (\<lambda>_. members body s) r = (Ok (fold (\<lambda>f. f) fs s), past (val_text (JObject kvs)) (rd_depth r) True r)"
    using members_take [OF assms, of ?r1 False t s] ahead_past [OF ah] a(2) by (simp add: dbind_def members_def)
qed

lemma every_member:
  assumes "\<And>k v. (k, v) \<in> set kvs \<Longrightarrow> list_all plain k \<and> utf8_valid k \<and> (\<forall>s. takes d (body k s) v (step k v s))"
  shows "list_all2 (\<lambda>(k, v) f. list_all plain k \<and> utf8_valid k \<and> (\<forall>s. takes d (body k s) v (f s))) kvs (map (\<lambda>(k, v). step k v) kvs)"
  using assms by (auto simp: list.rel_map split: prod.splits intro!: list.rel_refl_strong)

lemma takes_array:
  assumes "list_all2 (\<lambda>kvs f. \<forall>s. takes d (body s) (JObject kvs) (f s)) os fs"
  shows "takes (Suc d) (dbind (from_json begin_array) (\<lambda>_. elements body s)) (JArray (map JObject os)) (fold (\<lambda>f. f) fs s)"
  unfolding takes_def
proof (intro allI impI)
  fix r t assume a: "ahead r = val_text (JArray (map JObject os)) @ t" "rd_depth r + Suc d \<le> MAX_DEPTH"
  let ?r1 = "past [91] (rd_depth r + 1) False r"
  have ah: "ahead r = [91] @ (elems_text False (map JObject os) @ 93 # t)" using a(1) by simp
  have "from_json begin_array r = (Ok (), ?r1)" unfolding begin_array_def
    using enter_here [of r 91] ah a(2) by (intro from_json_Ok) (simp add: is_space_def)
  then show "dbind (from_json begin_array) (\<lambda>_. elements body s) r = (Ok (fold (\<lambda>f. f) fs s), past (val_text (JArray (map JObject os))) (rd_depth r) True r)"
    using elements_take [OF assms, of ?r1 False t s] ahead_past [OF ah] a(2) by (simp add: dbind_def elements_def)
qed

section \<open>What an answer says\<close>

text \<open>The last member of a name counts.  Every name is text, and every value that is not read is any JSON value that the reader's depth
  limit allows where it stands.\<close>

definition member_is :: "(byte list \<times> jval) list \<Rightarrow> string \<Rightarrow> byte list \<Rightarrow> bool" where
  "member_is kvs name t \<longleftrightarrow> map_of (rev kvs) (ascii name) = Some (string_val t)"

definition filter_fine :: "(byte list \<times> jval) list \<Rightarrow> bool" where
  "filter_fine kvs \<longleftrightarrow> list_all (\<lambda>(k, v). list_all plain k \<and> utf8_valid k
     \<and> (if k \<in> {ascii ''filterType'', ascii ''tickSize'', ascii ''stepSize'', ascii ''minNotional''} then is_text v else val_ok 27 v)) kvs"

definition filter_gives :: "symbol_rules \<Rightarrow> (byte list \<times> jval) list \<Rightarrow> bool" where
  "filter_gives x kvs \<longleftrightarrow> (\<exists>kind. member_is kvs ''filterType'' kind
     \<and> (kind = ascii ''PRICE_FILTER'' \<longrightarrow> (\<exists>t. member_is kvs ''tickSize'' t \<and> increment_parse t = Ok (sr_tick x)))
     \<and> (kind = ascii ''LOT_SIZE'' \<longrightarrow> (\<exists>t. member_is kvs ''stepSize'' t \<and> increment_parse t = Ok (sr_lot x)))
     \<and> (kind \<in> {ascii ''NOTIONAL'', ascii ''MIN_NOTIONAL''} \<longrightarrow> (\<exists>t. member_is kvs ''minNotional'' t \<and> parse_bytes t = Ok (sr_min_notional x))))"

text \<open>The objects an array lists, and those listed under a name.\<close>

fun objects :: "jval \<Rightarrow> (byte list \<times> jval) list list" where
  "objects (JArray vs) = map (\<lambda>v. case v of JObject kvs \<Rightarrow> kvs | _ \<Rightarrow> []) vs"
| "objects v = []"

lemma objects_array [simp]: "objects (JArray (map JObject os)) = os"
  by (simp add: comp_def)

declare objects.simps [simp del]

definition listed_under :: "string \<Rightarrow> (byte list \<times> jval) list \<Rightarrow> (byte list \<times> jval) list list" where
  "listed_under name kvs = concat (map (\<lambda>(k, v). if k = ascii name then objects v else []) kvs)"

definition symbol_fine :: "(byte list \<times> jval) list \<Rightarrow> bool" where
  "symbol_fine kvs \<longleftrightarrow> list_all (\<lambda>(k, v). list_all plain k \<and> utf8_valid k
     \<and> (if k = ascii ''symbol'' then is_text v \<and> symbol_new (text_of v) \<noteq> None
        else if k = ascii ''status'' then is_text v
        else if k = ascii ''filters'' then (\<exists>fs. v = JArray (map JObject fs) \<and> list_all filter_fine fs)
        else val_ok 29 v)) kvs"

definition symbol_lists :: "(byte list \<times> jval) list \<Rightarrow> symbol_rules \<Rightarrow> bool" where
  "symbol_lists kvs x \<longleftrightarrow> symbol_fine kvs
     \<and> (\<exists>t. member_is kvs ''symbol'' t \<and> symbol_new t = Some (sr_symbol x))
     \<and> (\<exists>t. member_is kvs ''status'' t \<and> (sr_trading x \<longleftrightarrow> t = ascii ''TRADING''))
     \<and> list_all (filter_gives x) (listed_under ''filters'' kvs)
     \<and> (\<exists>f \<in> set (listed_under ''filters'' kvs). member_is f ''filterType'' (ascii ''PRICE_FILTER''))
     \<and> (\<exists>f \<in> set (listed_under ''filters'' kvs). member_is f ''filterType'' (ascii ''LOT_SIZE''))
     \<and> (\<exists>f \<in> set (listed_under ''filters'' kvs). member_is f ''filterType'' (ascii ''NOTIONAL'') \<or> member_is f ''filterType'' (ascii ''MIN_NOTIONAL''))"

text \<open>An answer has one member \<open>symbols\<close>, among any others.\<close>

definition info_lists :: "jval \<Rightarrow> symbol_rules list \<Rightarrow> bool" where
  "info_lists info rules \<longleftrightarrow> (\<exists>kvs ss. info = JObject kvs \<and> filter (\<lambda>(k, v). k = ascii ''symbols'') kvs = [(ascii ''symbols'', JArray (map JObject ss))]
     \<and> list_all (\<lambda>(k, v). list_all plain k \<and> utf8_valid k \<and> (k \<noteq> ascii ''symbols'' \<longrightarrow> val_ok 31 v)) kvs
     \<and> list_all2 symbol_lists ss rules)"

section \<open>The decoder reads what the answer says\<close>

definition filter_step :: "byte list \<Rightarrow> jval \<Rightarrow> filter_walk \<Rightarrow> filter_walk" where
  "filter_step k v f =
     (if k = ascii ''filterType'' then f\<lparr>fk_kind := Some (text_of v)\<rparr> else if k = ascii ''tickSize'' then f\<lparr>fk_tick_size := Some (text_of v)\<rparr>
      else if k = ascii ''stepSize'' then f\<lparr>fk_step_size := Some (text_of v)\<rparr> else if k = ascii ''minNotional'' then f\<lparr>fk_notional := Some (text_of v)\<rparr> else f)"

lemma filter_names: "distinct [ascii ''filterType'', ascii ''tickSize'', ascii ''stepSize'', ascii ''minNotional'']"
  by (simp add: ascii_def of_char_def)

lemma symbol_names: "distinct [ascii ''symbol'', ascii ''status'', ascii ''filters'']"
  by (simp add: ascii_def of_char_def)

lemma kind_names: "distinct [ascii ''PRICE_FILTER'', ascii ''LOT_SIZE'', ascii ''NOTIONAL'', ascii ''MIN_NOTIONAL'']"
  by (simp add: ascii_def of_char_def)

lemma filter_member_takes:
  assumes "if k \<in> {ascii ''filterType'', ascii ''tickSize'', ascii ''stepSize'', ascii ''minNotional''} then is_text v else val_ok 27 v"
  shows "takes 27 (filter_member k f) v (filter_step k v f)"
proof -
  consider "k \<in> {ascii ''filterType'', ascii ''tickSize'', ascii ''stepSize'', ascii ''minNotional''}" "is_text v"
    | "k \<notin> {ascii ''filterType'', ascii ''tickSize'', ascii ''stepSize'', ascii ''minNotional''}" "val_ok 27 v"
    using assms by (auto split: if_splits)
  then show ?thesis
  proof cases
    case 1
    then show ?thesis unfolding filter_member_def filter_step_def by (auto intro!: takes_str_give)
  next
    case 2
    then show ?thesis unfolding filter_member_def filter_step_def by (auto intro!: takes_skip_give)
  qed
qed

lemma filter_walked:
  "fk_kind (fold (\<lambda>(k, v). filter_step k v) kvs f) = (case map_of (rev kvs) (ascii ''filterType'') of None \<Rightarrow> fk_kind f | Some v \<Rightarrow> Some (text_of v))"
  "fk_tick_size (fold (\<lambda>(k, v). filter_step k v) kvs f) = (case map_of (rev kvs) (ascii ''tickSize'') of None \<Rightarrow> fk_tick_size f | Some v \<Rightarrow> Some (text_of v))"
  "fk_step_size (fold (\<lambda>(k, v). filter_step k v) kvs f) = (case map_of (rev kvs) (ascii ''stepSize'') of None \<Rightarrow> fk_step_size f | Some v \<Rightarrow> Some (text_of v))"
  "fk_notional (fold (\<lambda>(k, v). filter_step k v) kvs f) = (case map_of (rev kvs) (ascii ''minNotional'') of None \<Rightarrow> fk_notional f | Some v \<Rightarrow> Some (text_of v))"
  using filter_names by (induction kvs rule: rev_induct) (auto simp: filter_step_def)

lemma fold_fun_map: "fold (\<lambda>f. f) (map g xs) s = fold g xs s"
  by (induction xs arbitrary: s) simp_all

definition rule_step :: "symbol_rules \<Rightarrow> (byte list \<times> jval) list \<Rightarrow> symbol_walk \<Rightarrow> symbol_walk" where
  "rule_step x kvs s =
     (if member_is kvs ''filterType'' (ascii ''PRICE_FILTER'') then s\<lparr>sk_tick := Some (sr_tick x)\<rparr>
      else if member_is kvs ''filterType'' (ascii ''LOT_SIZE'') then s\<lparr>sk_lot := Some (sr_lot x)\<rparr>
      else if member_is kvs ''filterType'' (ascii ''NOTIONAL'') \<or> member_is kvs ''filterType'' (ascii ''MIN_NOTIONAL'')
      then s\<lparr>sk_min_notional := Some (sr_min_notional x)\<rparr> else s)"

lemma read_filter_takes:
  assumes "filter_fine kvs" "filter_gives x kvs"
  shows "takes 28 (read_filter s) (JObject kvs) (rule_step x kvs s)"
proof -
  let ?start = "\<lparr>fk_kind = None, fk_tick_size = None, fk_step_size = None, fk_notional = None\<rparr>"
  let ?walk = "fold (\<lambda>(k, v). filter_step k v) kvs ?start"
  obtain kind where kind: "member_is kvs ''filterType'' kind"
      "kind = ascii ''PRICE_FILTER'' \<longrightarrow> (\<exists>t. member_is kvs ''tickSize'' t \<and> increment_parse t = Ok (sr_tick x))"
      "kind = ascii ''LOT_SIZE'' \<longrightarrow> (\<exists>t. member_is kvs ''stepSize'' t \<and> increment_parse t = Ok (sr_lot x))"
      "kind \<in> {ascii ''NOTIONAL'', ascii ''MIN_NOTIONAL''} \<longrightarrow> (\<exists>t. member_is kvs ''minNotional'' t \<and> parse_bytes t = Ok (sr_min_notional x))"
    using assms(2) by (auto simp: filter_gives_def)
  have k: "member_is kvs ''filterType'' t \<longleftrightarrow> t = kind" for t
    using kind(1) text_of_string [of t] text_of_string [of kind] by (auto simp: member_is_def simp del: text_of_string)
  have "fk_kind ?walk = Some kind" using kind(1) filter_walked(1) [of kvs ?start] by (simp add: member_is_def)
  have w: "member_is kvs ''tickSize'' t \<Longrightarrow> fk_tick_size ?walk = Some t" "member_is kvs ''stepSize'' t \<Longrightarrow> fk_step_size ?walk = Some t"
    "member_is kvs ''minNotional'' t \<Longrightarrow> fk_notional ?walk = Some t" for t
    using filter_walked(2-4) [of kvs ?start] by (simp_all add: member_is_def)
  note walked = \<open>fk_kind ?walk = Some kind\<close>
  consider "kind = ascii ''PRICE_FILTER''" | "kind = ascii ''LOT_SIZE''" | "kind \<in> {ascii ''NOTIONAL'', ascii ''MIN_NOTIONAL''}"
    | "kind \<notin> {ascii ''PRICE_FILTER'', ascii ''LOT_SIZE'', ascii ''NOTIONAL'', ascii ''MIN_NOTIONAL''}" by blast
  then have "assign_filter ?walk s = Ok (rule_step x kvs s)"
  proof cases
    case 1
    then obtain t where "fk_tick_size ?walk = Some t" "increment_parse t = Ok (sr_tick x)" using kind(2) w(1) by blast
    then show ?thesis using 1 walked by (simp add: assign_filter_def rule_step_def k increment_rule_def)
  next
    case 2
    then obtain t where "fk_step_size ?walk = Some t" "increment_parse t = Ok (sr_lot x)" using kind(3) w(2) by blast
    then show ?thesis using 2 walked kind_names by (auto simp: assign_filter_def rule_step_def k increment_rule_def)
  next
    case 3
    then obtain t where "fk_notional ?walk = Some t" "parse_bytes t = Ok (sr_min_notional x)" using kind(4) w(3) by blast
    then show ?thesis using 3 walked kind_names by (auto simp: assign_filter_def rule_step_def k number_def)
  next
    case 4
    then show ?thesis using walked by (auto simp: assign_filter_def rule_step_def k)
  qed
  moreover have "takes (Suc 27) (dbind (from_json begin_object) (\<lambda>_. members filter_member ?start)) (JObject kvs)
      (fold (\<lambda>f. f) (map (\<lambda>(k, v). filter_step k v) kvs) ?start)"
    using assms(1) filter_member_takes
    by (intro takes_object) (auto simp: filter_fine_def list_all_iff list.rel_map split: prod.splits intro!: list.rel_refl_strong)
  ultimately have "takes 28 (dbind (dbind (from_json begin_object) (\<lambda>_. members filter_member ?start)) (\<lambda>f. give (assign_filter f s))) (JObject kvs) (rule_step x kvs s)"
    using takes_give [where f = "\<lambda>f. assign_filter f s"] by (simp add: fold_fun_map)
  then show ?thesis by (simp only: read_filter_def dbind_assoc)
qed

text \<open>The walk over a symbol.\<close>

definition symbol_step :: "symbol_rules \<Rightarrow> byte list \<Rightarrow> jval \<Rightarrow> symbol_walk \<Rightarrow> symbol_walk" where
  "symbol_step x k v s =
     (if k = ascii ''symbol'' then s\<lparr>sk_symbol := symbol_new (text_of v)\<rparr>
      else if k = ascii ''status'' then s\<lparr>sk_status := Some (text_of v = ascii ''TRADING'')\<rparr>
      else if k = ascii ''filters'' then fold (rule_step x) (objects v) s else s)"

lemma symbol_member_takes:
  assumes "if k = ascii ''symbol'' then is_text v \<and> symbol_new (text_of v) \<noteq> None
        else if k = ascii ''status'' then is_text v
        else if k = ascii ''filters'' then (\<exists>fs. v = JArray (map JObject fs) \<and> list_all filter_fine fs)
        else val_ok 29 v"
    and gives: "k = ascii ''filters'' \<Longrightarrow> list_all (filter_gives x) (objects v)"
  shows "takes 29 (symbol_member k s) v (symbol_step x k v s)"
proof -
  consider (sym) y where "k = ascii ''symbol''" "is_text v" "symbol_new (text_of v) = Some y" | (status) "k = ascii ''status''" "is_text v"
    | (filters) fs where "k = ascii ''filters''" "v = JArray (map JObject fs)" "list_all filter_fine fs"
    | (other) "k \<notin> {ascii ''symbol'', ascii ''status'', ascii ''filters''}" "val_ok 29 v"
    using assms(1) by (auto split: if_splits)
  then show ?thesis
  proof cases
    case sym
    then show ?thesis unfolding symbol_member_def symbol_step_def by (auto intro!: takes_str_give)
  next
    case status
    then show ?thesis using symbol_names unfolding symbol_member_def symbol_step_def by (auto intro!: takes_str_give)
  next
    case filters
    have "list_all2 (\<lambda>kvs f. \<forall>s. takes 28 (read_filter s) (JObject kvs) (f s)) fs (map (rule_step x) fs)"
      using filters(2,3) gives [OF filters(1)] read_filter_takes by (auto simp: list.rel_map list_all_iff intro!: list.rel_refl_strong)
    from takes_array [OF this, of s] show ?thesis
      using symbol_names filters(1,2) by (auto simp: symbol_member_def symbol_step_def fold_fun_map)
  next
    case other
    then show ?thesis unfolding symbol_member_def symbol_step_def by (auto intro!: takes_skip_give)
  qed
qed

lemma rules_walked:
  "sk_symbol (fold (rule_step x) fs s) = sk_symbol s" "sk_status (fold (rule_step x) fs s) = sk_status s"
  "sk_tick (fold (rule_step x) fs s) = (if \<exists>f \<in> set fs. member_is f ''filterType'' (ascii ''PRICE_FILTER'') then Some (sr_tick x) else sk_tick s)"
  "sk_lot (fold (rule_step x) fs s) = (if \<exists>f \<in> set fs. member_is f ''filterType'' (ascii ''LOT_SIZE'') then Some (sr_lot x) else sk_lot s)"
  "sk_min_notional (fold (rule_step x) fs s) = (if \<exists>f \<in> set fs. member_is f ''filterType'' (ascii ''NOTIONAL'') \<or> member_is f ''filterType'' (ascii ''MIN_NOTIONAL'')
     then Some (sr_min_notional x) else sk_min_notional s)"
proof -
  have one: "member_is f ''filterType'' a \<Longrightarrow> member_is f ''filterType'' b \<Longrightarrow> a = b" for f a b
    unfolding member_is_def by (metis option.inject text_of_string)
  have ne: "ascii ''PRICE_FILTER'' \<noteq> ascii ''LOT_SIZE''" "ascii ''PRICE_FILTER'' \<noteq> ascii ''NOTIONAL''" "ascii ''PRICE_FILTER'' \<noteq> ascii ''MIN_NOTIONAL''"
    "ascii ''LOT_SIZE'' \<noteq> ascii ''NOTIONAL''" "ascii ''LOT_SIZE'' \<noteq> ascii ''MIN_NOTIONAL''" using kind_names by auto
  have ex: "\<not> (member_is f ''filterType'' (ascii ''PRICE_FILTER'') \<and> member_is f ''filterType'' (ascii ''LOT_SIZE''))"
    "\<not> (member_is f ''filterType'' (ascii ''PRICE_FILTER'') \<and> member_is f ''filterType'' (ascii ''NOTIONAL''))"
    "\<not> (member_is f ''filterType'' (ascii ''PRICE_FILTER'') \<and> member_is f ''filterType'' (ascii ''MIN_NOTIONAL''))"
    "\<not> (member_is f ''filterType'' (ascii ''LOT_SIZE'') \<and> member_is f ''filterType'' (ascii ''NOTIONAL''))"
    "\<not> (member_is f ''filterType'' (ascii ''LOT_SIZE'') \<and> member_is f ''filterType'' (ascii ''MIN_NOTIONAL''))" for f
    using one ne by blast+
  show "sk_symbol (fold (rule_step x) fs s) = sk_symbol s" "sk_status (fold (rule_step x) fs s) = sk_status s"
    by (induction fs arbitrary: s) (simp_all add: rule_step_def)
  show "sk_tick (fold (rule_step x) fs s) = (if \<exists>f \<in> set fs. member_is f ''filterType'' (ascii ''PRICE_FILTER'') then Some (sr_tick x) else sk_tick s)"
    by (induction fs arbitrary: s) (auto simp: rule_step_def)
  show "sk_lot (fold (rule_step x) fs s) = (if \<exists>f \<in> set fs. member_is f ''filterType'' (ascii ''LOT_SIZE'') then Some (sr_lot x) else sk_lot s)"
    using ex by (induction fs arbitrary: s) (auto simp: rule_step_def)
  show "sk_min_notional (fold (rule_step x) fs s) = (if \<exists>f \<in> set fs. member_is f ''filterType'' (ascii ''NOTIONAL'') \<or> member_is f ''filterType'' (ascii ''MIN_NOTIONAL'')
     then Some (sr_min_notional x) else sk_min_notional s)"
    using ex by (induction fs arbitrary: s) (auto simp: rule_step_def)
qed

lemma listed_under_snoc: "listed_under name [] = []" "listed_under name (kvs @ [(k, v)]) = listed_under name kvs @ (if k = ascii name then objects v else [])"
  by (simp_all add: listed_under_def)

lemma symbol_walked:
  fixes x kvs s
  defines "w \<equiv> fold (\<lambda>(k, v). symbol_step x k v) kvs s" and "fs \<equiv> listed_under ''filters'' kvs"
  shows "sk_symbol w = (case map_of (rev kvs) (ascii ''symbol'') of None \<Rightarrow> sk_symbol s | Some v \<Rightarrow> symbol_new (text_of v))"
    "sk_status w = (case map_of (rev kvs) (ascii ''status'') of None \<Rightarrow> sk_status s | Some v \<Rightarrow> Some (text_of v = ascii ''TRADING''))"
    "sk_tick w = sk_tick (fold (rule_step x) fs s)" "sk_lot w = sk_lot (fold (rule_step x) fs s)"
    "sk_min_notional w = sk_min_notional (fold (rule_step x) fs s)"
  unfolding w_def fs_def using symbol_names
  by (induction kvs rule: rev_induct) (auto simp: symbol_step_def rules_walked listed_under_snoc)

lemma read_symbol_takes:
  assumes "symbol_lists kvs x"
  shows "takes 30 read_symbol_rules (JObject kvs) x"
proof -
  let ?start = "\<lparr>sk_symbol = None, sk_status = None, sk_tick = None, sk_lot = None, sk_min_notional = None\<rparr>"
  let ?walk = "fold (\<lambda>(k, v). symbol_step x k v) kvs ?start"
  have fine: "symbol_fine kvs" and gives: "list_all (filter_gives x) (listed_under ''filters'' kvs)" using assms by (simp_all add: symbol_lists_def)
  have "list_all (filter_gives x) (objects v)" if "(ascii ''filters'', v) \<in> set kvs" for v
    using gives that by (fastforce simp: listed_under_def list_all_iff)
  then have "list_all plain k \<and> utf8_valid k \<and> (\<forall>s. takes 29 (symbol_member k s) v (symbol_step x k v s))" if "(k, v) \<in> set kvs" for k v
    using fine that symbol_member_takes [of k v x] unfolding symbol_fine_def list_all_iff [of _ kvs] by fastforce
  from takes_object [OF every_member [of kvs 29 symbol_member "symbol_step x", OF this], where s = ?start]
  have obj: "takes 30 (dbind (from_json begin_object) (\<lambda>_. members symbol_member ?start)) (JObject kvs) ?walk" by (simp add: fold_fun_map)
  have "sk_symbol ?walk = Some (sr_symbol x)" "sk_status ?walk = Some (sr_trading x)" "sk_tick ?walk = Some (sr_tick x)" "sk_lot ?walk = Some (sr_lot x)"
    "sk_min_notional ?walk = Some (sr_min_notional x)"
    using assms unfolding symbol_walked by (auto simp: symbol_lists_def member_is_def rules_walked)
  then have "symbol_checks ?walk = Ok x" by (simp add: symbol_checks_def)
  then have "takes 30 (dbind (dbind (from_json begin_object) (\<lambda>_. members symbol_member ?start)) (\<lambda>s. give (symbol_checks s))) (JObject kvs) x"
    by (rule takes_give [OF obj])
  then show ?thesis by (simp only: read_symbol_rules_def dbind_assoc)
qed

lemma info_member_takes:
  assumes "list_all2 symbol_lists ss rules"
  shows "takes 31 (info_member (ascii ''symbols'') rs) (JArray (map JObject ss)) (rs @ rules)"
proof -
  have "list_all2 (\<lambda>kvs f. \<forall>rs. takes 30 (dbind read_symbol_rules (\<lambda>x. give (Ok (rs @ [x])))) (JObject kvs) (f rs)) ss (map (\<lambda>x rs. rs @ [x]) rules)"
    unfolding list.rel_map
    by (rule list.rel_mono_strong [OF assms]) (auto intro!: takes_give [where f = "\<lambda>x. Ok (_ @ [x])"] read_symbol_takes)
  from takes_array [OF this, of rs] have "takes 31 (info_member (ascii ''symbols'') rs) (JArray (map JObject ss)) (fold (\<lambda>x rs. rs @ [x]) rules rs)"
    by (simp add: info_member_def fold_fun_map)
  moreover have "fold (\<lambda>x rs. rs @ [x]) rules rs = rs @ rules" by (induction rules arbitrary: rs) simp_all
  ultimately show ?thesis by simp
qed

lemma decode_exchange_info_reads:
  assumes "info_lists info rules"
  shows "decode_exchange_info (val_text info) = Ok rules"
proof -
  obtain kvs ss where i: "info = JObject kvs" "filter (\<lambda>(k, v). k = ascii ''symbols'') kvs = [(ascii ''symbols'', JArray (map JObject ss))]"
      "list_all (\<lambda>(k, v). list_all plain k \<and> utf8_valid k \<and> (k \<noteq> ascii ''symbols'' \<longrightarrow> val_ok 31 v)) kvs" "list_all2 symbol_lists ss rules"
    using assms by (auto simp: info_lists_def)
  let ?step = "\<lambda>k (v :: jval) rs. if k = ascii ''symbols'' then rs @ rules else rs"
  have only: "v = JArray (map JObject ss)" if "(ascii ''symbols'', v) \<in> set kvs" for v
  proof -
    have "(ascii ''symbols'', v) \<in> set (filter (\<lambda>(k, v). k = ascii ''symbols'') kvs)" using that by simp
    then show ?thesis unfolding i(2) by simp
  qed
  have member: "takes 31 (info_member k rs) v (?step k v rs)" if "(k, v) \<in> set kvs" for k v rs
  proof (cases "k = ascii ''symbols''")
    case True
    then show ?thesis using info_member_takes [OF i(4)] only that by simp
  next
    case False
    then have "val_ok 31 v" using i(3) that by (auto simp: list_all_iff)
    then show ?thesis using False by (simp add: info_member_def takes_skip_give)
  qed
  then have "list_all plain k \<and> utf8_valid k \<and> (\<forall>rs. takes 31 (info_member k rs) v (?step k v rs))" if "(k, v) \<in> set kvs" for k v
    using i(3) that unfolding list_all_iff [of _ kvs] by fastforce
  from takes_object [OF every_member [of kvs 31 info_member ?step, OF this], where s = "[]"]
  have obj: "takes 32 (dbind (from_json begin_object) (\<lambda>_. members info_member [])) info (fold (\<lambda>(k, v). ?step k v) kvs [])" unfolding i(1) fold_fun_map by simp
  have "fold (\<lambda>(k, v). ?step k v) kvs rs = fold (\<lambda>(k, v). ?step k v) (filter (\<lambda>(k, v). k = ascii ''symbols'') kvs) rs" for rs by (induction kvs arbitrary: rs) auto
  then have "fold (\<lambda>(k, v). ?step k v) kvs [] = rules" unfolding i(2) by simp
  then have "dbind (from_json begin_object) (\<lambda>_. members info_member []) (reader_new (val_text info))
      = (Ok rules, past (val_text info) 0 True (reader_new (val_text info)))"
    using takesD [OF obj, of "reader_new (val_text info)" "[]"] by (simp add: ahead_def reader_new_def delim_def MAX_DEPTH_def)
  moreover have "from_json finish (past (val_text info) 0 True (reader_new (val_text info))) = (Ok (), past (val_text info) 0 True (reader_new (val_text info)))"
    by (intro from_json_Ok finish_here) (simp_all add: ahead_def past_def reader_new_def reader_wf_def)
  ultimately have "fst (dbind (dbind (from_json begin_object) (\<lambda>_. members info_member [])) (\<lambda>rules. dbind (from_json finish) (\<lambda>_. give (Ok rules))) (reader_new (val_text info))) = Ok rules"
    by (simp add: dbind_def [of "dbind _ _"] dbind_def [of "from_json finish"] give_def)
  then show ?thesis by (simp add: decode_exchange_info_def dbind_assoc)
qed

end
