(* ===== verification/Http.thy ===== *)
theory Http
  imports Net_Url
begin

text \<open>
  \<open>crates/bowst-venue/src/net/http.rs\<close>: the parser of a complete HTTP response.  The body goes to the
  caller's buffer, which the functions return.
\<close>

section \<open>Responses\<close>

record http_response =
  hp_status :: nat
  hp_used_weight_1m :: "nat option"
  hp_retry_after_secs :: "nat option"

definition MAX_HEADERS :: nat where "MAX_HEADERS = 16 * 1024"

abbreviation CRLF :: "byte list" where "CRLF \<equiv> [13, 10]"

record head_state =
  hs_response :: http_response
  hs_content_length :: "nat option"
  hs_chunked :: bool

text \<open>One header line.\<close>

definition header_line :: "byte list \<Rightarrow> head_state \<Rightarrow> (head_state, http_error) result" where
  "header_line line st =
     (case split_once [58] line of
        None \<Rightarrow> Err (Malformed ''header line'')
      | Some (name, raw_value) \<Rightarrow>
          let val = trim raw_value in
          if eq_ignore_case name (ascii ''content-length'') then
            (case parse_uint (2 ^ 64) val of
               None \<Rightarrow> Err (Malformed ''Content-Length'')
             | Some len \<Rightarrow>
                 if hs_content_length st \<noteq> None \<and> hs_content_length st \<noteq> Some len then Err (Malformed ''conflicting Content-Length'')
                 else Ok (st\<lparr>hs_content_length := Some len\<rparr>))
          else if eq_ignore_case name (ascii ''transfer-encoding'') then
            (if \<not> eq_ignore_case val (ascii ''chunked'') then Err (Unsupported ''transfer encoding'') else Ok (st\<lparr>hs_chunked := True\<rparr>))
          else if eq_ignore_case name (ascii ''content-encoding'') then
            (if \<not> eq_ignore_case val (ascii ''identity'') then Err (Unsupported ''content encoding'') else Ok st)
          else if eq_ignore_case name (ascii ''x-mbx-used-weight-1m'') then
            Ok (st\<lparr>hs_response := (hs_response st)\<lparr>hp_used_weight_1m := parse_uint (2 ^ 32) val\<rparr>\<rparr>)
          else if eq_ignore_case name (ascii ''retry-after'') then
            Ok (st\<lparr>hs_response := (hs_response st)\<lparr>hp_retry_after_secs := parse_uint (2 ^ 32) val\<rparr>\<rparr>)
          else Ok st)"

fun header_lines :: "byte list list \<Rightarrow> head_state \<Rightarrow> (head_state, http_error) result" where
  "header_lines [] st = Ok st"
| "header_lines (l # ls) st = rbind (header_line l st) (header_lines ls)"

text \<open>The first two words of the status line, as \<open>splitn(3, ' ')\<close> gives them.\<close>

definition status_words :: "byte list \<Rightarrow> byte list \<times> byte list option" where
  "status_words line =
     (case split_once [32] line of
        None \<Rightarrow> (line, None)
      | Some (a, rest) \<Rightarrow> (a, Some (case split_once [32] rest of None \<Rightarrow> rest | Some (b, _) \<Rightarrow> b)))"

definition status_code :: "byte list \<Rightarrow> (nat, http_error) result" where
  "status_code line =
     (case status_words line of
        (proto, code) \<Rightarrow>
          if proto \<noteq> ascii ''HTTP/1.1'' \<and> proto \<noteq> ascii ''HTTP/1.0'' then Err (Malformed ''status line'')
          else
            ok_or (Option.bind code (\<lambda>c. if length c = 3 then parse_uint (2 ^ 16) c else None)) (Malformed ''status code''))"

text \<open>The chunks of a body, appended to what the buffer holds.\<close>

definition chunk_size :: "byte list \<Rightarrow> nat option" where
  "chunk_size line = (if utf8_valid line then parse_hex (2 ^ 64) (trim (hd (split_on 59 line))) else None)"

function decode_chunked :: "byte list \<Rightarrow> byte list \<Rightarrow> nat \<Rightarrow> (unit, http_error) result \<times> byte list" where
  "decode_chunked rest body max_body =
     (case find_sub CRLF rest of
        None \<Rightarrow> (Err TruncatedBody, body)
      | Some line_end \<Rightarrow>
          (case chunk_size (take line_end rest) of
             None \<Rightarrow> (Err (Malformed ''chunk size''), body)
           | Some n \<Rightarrow>
               let rest1 = drop (line_end + 2) rest in
               if n = 0 then (Ok (), body)
               else if sat_u64 (length body + n) > max_body then (Err (TooLarge max_body), body)
               else if length rest1 < n then (Err TruncatedBody, body)
               else
                 let body1 = body @ take n rest1; after = drop n rest1 in
                 if take 2 after = CRLF then decode_chunked (drop 2 after) body1 max_body
                 else (Err (Malformed ''chunk terminator''), body1)))"
  by pat_completeness auto
termination
  by (relation "measure (\<lambda>(rest, body, max_body). length rest)") (auto dest: find_sub_bound)

declare decode_chunked.simps [simp del]

definition parse_body :: "head_state \<Rightarrow> byte list \<Rightarrow> nat \<Rightarrow> (unit, http_error) result \<times> byte list" where
  "parse_body st rest max_body =
     (if hs_chunked st then
        (if hs_content_length st \<noteq> None then (Err (Malformed ''both chunked and Content-Length''), [])
         else decode_chunked rest [] max_body)
      else
        (case hs_content_length st of
           Some len \<Rightarrow>
             if len > max_body then (Err (TooLarge max_body), [])
             else if length rest < len then (Err TruncatedBody, [])
             else (Ok (), take len rest)
         | None \<Rightarrow> if length rest > max_body then (Err (TooLarge max_body), []) else (Ok (), rest)))"

definition parse_head :: "byte list \<Rightarrow> (head_state, http_error) result" where
  "parse_head head =
     (let lines = split_by CRLF head in
      rbind (status_code (hd lines)) (\<lambda>status.
      header_lines (tl lines)
        \<lparr>hs_response = \<lparr>hp_status = status, hp_used_weight_1m = None, hp_retry_after_secs = None\<rparr>, hs_content_length = None, hs_chunked = False\<rparr>))"

definition parse_response :: "byte list \<Rightarrow> nat \<Rightarrow> (http_response, http_error) result \<times> byte list" where
  "parse_response raw max_body =
     (case find_sub (CRLF @ CRLF) raw of
        None \<Rightarrow> (Err IncompleteHeaders, [])
      | Some head_end \<Rightarrow>
          if head_end > MAX_HEADERS then (Err (TooLarge MAX_HEADERS), [])
          else if \<not> utf8_valid (take head_end raw) then (Err (Malformed ''headers''), [])
          else
            (case parse_head (take head_end raw) of
               Err e \<Rightarrow> (Err e, [])
             | Ok st \<Rightarrow>
                 (case parse_body st (drop (head_end + 4) raw) max_body of
                    (Err e, body) \<Rightarrow> (Err e, body)
                  | (Ok _, body) \<Rightarrow> (Ok (hs_response st), body))))"

section \<open>Chunked bodies\<close>

definition hex_char :: "nat \<Rightarrow> byte" where
  "hex_char d = (if d < 10 then 48 + of_nat d else 87 + of_nat d)"

function show_hex :: "nat \<Rightarrow> byte list" where
  "show_hex n = (if n < 16 then [hex_char n] else show_hex (n div 16) @ [hex_char (n mod 16)])"
  by auto
termination by (relation "measure id") auto

declare show_hex.simps [simp del]

lemma hex_chars: "list_all (\<lambda>d. hex_val (hex_char d) = Some d \<and> is_ascii_graphic (hex_char d) \<and> hex_char d \<noteq> 13 \<and> hex_char d \<noteq> 43 \<and> hex_char d \<noteq> 59) [0..<16]"
  by code_simp

lemma hex_digit_shown:
  "d < 16 \<Longrightarrow> hex_val (hex_char d) = Some d \<and> is_ascii_graphic (hex_char d) \<and> hex_char d \<notin> {13, 43, 59}"
  using hex_chars by (simp only: list_all_iff) auto

lemma show_hex_step:
  obtains d where "show_hex n = (if n < 16 then [] else show_hex (n div 16)) @ [d]" "hex_val d = Some (n mod 16)"
    "is_ascii_graphic d" "d \<notin> {13, 43, 59}"
proof -
  have "hex_val (hex_char (n mod 16)) = Some (n mod 16) \<and> is_ascii_graphic (hex_char (n mod 16)) \<and> hex_char (n mod 16) \<notin> {13, 43, 59}"
    by (rule hex_digit_shown) simp
  moreover have "show_hex n = (if n < 16 then [] else show_hex (n div 16)) @ [hex_char (n mod 16)]" by (subst show_hex.simps) simp
  ultimately show ?thesis using that by blast
qed

lemma show_hex_bytes: "b \<in> set (show_hex n) \<Longrightarrow> is_ascii_graphic b \<and> b \<notin> {13, 43, 59}"
proof (induction n rule: less_induct)
  case (less n)
  obtain d where d: "show_hex n = (if n < 16 then [] else show_hex (n div 16)) @ [d]" "is_ascii_graphic d" "d \<notin> {13, 43, 59}"
    using show_hex_step by blast
  have "n div 16 < n" if "\<not> n < 16" using that by simp
  from less.IH [OF this] show ?case using less.prems d by (cases "n < 16") auto
qed

lemma show_hex_nonempty [simp]: "show_hex n \<noteq> []"
  by (subst show_hex.simps) (simp add: Let_def)

fun hex_from :: "nat \<Rightarrow> byte list \<Rightarrow> nat option" where
  "hex_from v [] = Some v"
| "hex_from v (b # bs) = Option.bind (hex_val b) (\<lambda>d. hex_from (v * 16 + d) bs)"

lemma hex_from_append: "hex_from v (xs @ ys) = Option.bind (hex_from v xs) (\<lambda>w. hex_from w ys)"
  by (induction xs arbitrary: v) (auto split: bind_splits)

lemma hex_from_show: "hex_from 0 (show_hex n) = Some n"
proof (induction n rule: less_induct)
  case (less n)
  obtain d where d: "show_hex n = (if n < 16 then [] else show_hex (n div 16)) @ [d]" "hex_val d = Some (n mod 16)"
    using show_hex_step by blast
  show ?case
  proof (cases "n < 16")
    case False
    then have "n div 16 < n" by simp
    from less [OF this] show ?thesis using d False by (simp add: hex_from_append)
  qed (use d in \<open>simp add: hex_from_append\<close>)
qed

lemma hex_from_ge: "hex_from v bs = Some w \<Longrightarrow> v \<le> w"
  by (induction bs arbitrary: v) (fastforce split: bind_splits)+

lemma parse_hex_digits_eq: "hex_from v bs = Some w \<Longrightarrow> w < limit \<Longrightarrow> parse_hex_digits limit v bs = Some w"
proof (induction bs arbitrary: v)
  case (Cons b bs)
  then obtain d where d: "hex_val b = Some d" "hex_from (v * 16 + d) bs = Some w" by (auto split: bind_splits)
  then show ?case using Cons hex_from_ge [OF d(2)] by simp
qed simp

lemma parse_hex_show: "n < limit \<Longrightarrow> parse_hex limit (show_hex n) = Some n"
proof -
  assume n: "n < limit"
  obtain b bs where b: "show_hex n = b # bs" by (cases "show_hex n") auto
  have "b \<noteq> 43" using show_hex_bytes [of b n] b by auto
  then show ?thesis using parse_hex_digits_eq [OF hex_from_show n] by (simp add: parse_hex_def b del: parse_hex_digits.simps)
qed

lemma graphic_utf8: "list_all is_ascii_graphic w \<Longrightarrow> utf8_valid w"
proof (induction w)
  case (Cons b w)
  then show ?case using ascii_graphic_128 [of b] by simp
qed simp

lemma chunk_size_show: "n < 2 ^ 64 \<Longrightarrow> chunk_size (show_hex n) = Some n"
proof -
  assume n: "n < 2 ^ 64"
  have g: "list_all is_ascii_graphic (show_hex n)" "59 \<notin> set (show_hex n)" using show_hex_bytes by (auto simp: list_all_iff)
  have "trim (show_hex n) = show_hex n" using g(1) by (intro trim_graphic) (auto simp: list_all_iff)
  then show ?thesis using parse_hex_show [OF n] graphic_utf8 [OF g(1)] g(2) by (simp add: chunk_size_def)
qed

text \<open>A body in chunks, as a server writes it: the sizes in hexadecimal, a last chunk of size zero.\<close>

definition chunk_text :: "byte list \<Rightarrow> byte list" where
  "chunk_text c = show_hex (length c) @ CRLF @ c @ CRLF"

definition chunked_text :: "byte list list \<Rightarrow> byte list" where
  "chunked_text cs = concat (map chunk_text cs) @ show_hex 0 @ CRLF"

lemma find_crlf_size: "find_sub CRLF (show_hex n @ CRLF @ rest) = Some (length (show_hex n))"
  using find_sub_at [of CRLF "show_hex n" rest] show_hex_bytes [of 13 n] by auto

lemma decode_chunk:
  assumes "c \<noteq> []" "length body + length c \<le> max_body" "max_body < 2 ^ 63"
  shows "decode_chunked (chunk_text c @ rest) body max_body = decode_chunked rest (body @ c) max_body"
proof -
  have n: "length c < 2 ^ 64" using assms by simp
  let ?all = "show_hex (length c) @ CRLF @ c @ CRLF @ rest"
  have f: "find_sub CRLF ?all = Some (length (show_hex (length c)))" by (rule find_crlf_size)
  have "sat_u64 (length body + length c) = length body + length c" using assms by (intro sat_u64_id) (simp add: range_defs)
  then have "decode_chunked ?all body max_body = decode_chunked rest (body @ c) max_body"
    using f chunk_size_show [OF n] assms(1,2) by (subst decode_chunked.simps) simp
  then show ?thesis by (simp add: chunk_text_def)
qed

lemma decode_chunks:
  assumes "[] \<notin> set cs" "length body + length (concat cs) \<le> max_body" "max_body < 2 ^ 63"
  shows "decode_chunked (concat (map chunk_text cs) @ rest) body max_body = decode_chunked rest (body @ concat cs) max_body"
  using assms
proof (induction cs arbitrary: body)
  case (Cons c cs)
  then have "c \<noteq> []" by auto
  with Cons show ?case using decode_chunk [of c body max_body "concat (map chunk_text cs) @ rest"] by simp
qed simp

lemma decode_last_chunk: "decode_chunked (show_hex 0 @ CRLF @ rest) body max_body = (Ok (), body)"
  using find_crlf_size [of 0 rest] chunk_size_show [of 0] by (subst decode_chunked.simps) simp

text \<open>A chunk that is cut short is never taken for a body.\<close>

lemma find_crlf_cut: "k < length w + 2 \<Longrightarrow> 13 \<notin> set w \<Longrightarrow> find_sub CRLF (take k (w @ CRLF)) = None"
proof (induction w arbitrary: k)
  case Nil
  then have "k = 0 \<or> k = 1" by auto
  then show ?case by auto
next
  case (Cons b w)
  then show ?case by (cases k) auto
qed

lemma size_line_cut:
  assumes "k < length (show_hex n) + 2"
  shows "decode_chunked (take k (show_hex n @ CRLF)) body max_body = (Err TruncatedBody, body)"
proof -
  have "find_sub CRLF (take k (show_hex n @ CRLF)) = None" using find_crlf_cut [OF assms] show_hex_bytes [of 13 n] by auto
  then show ?thesis by (subst decode_chunked.simps) (simp only: option.case)
qed

lemma chunk_cut:
  assumes "c \<noteq> []" "k < length (chunk_text c)" "length c < 2 ^ 64"
  shows "\<exists>e b. decode_chunked (take k (chunk_text c)) body max_body = (Err e, b)"
proof (cases "k < length (show_hex (length c)) + 2")
  case True
  then have "take k ((show_hex (length c) @ CRLF) @ c @ CRLF) = take k (show_hex (length c) @ CRLF)" by (subst take_append) simp
  then have "take k (chunk_text c) = take k (show_hex (length c) @ CRLF)" by (simp add: chunk_text_def)
  then show ?thesis using size_line_cut [OF True] by simp
next
  case False
  let ?w = "show_hex (length c)"
  obtain j where j: "k = length ?w + 2 + j" using False le_Suc_ex not_less by blast
  have t: "take k (chunk_text c) = ?w @ CRLF @ take j (c @ CRLF)" by (simp add: chunk_text_def j)
  have short: "j < length c + 2" using assms(2) by (simp add: chunk_text_def j)
  have "find_sub CRLF (?w @ CRLF @ take j (c @ CRLF)) = Some (length ?w)" by (rule find_crlf_size)
  moreover have "take 2 (drop (length c) (take j (c @ CRLF))) \<noteq> CRLF" using short by (auto simp: take_Cons')
  ultimately show ?thesis unfolding t using chunk_size_show [OF assms(3)] assms(1) short
    by (subst decode_chunked.simps) (auto simp: Let_def)
qed

lemma chunked_cut:
  assumes "[] \<notin> set cs" "list_all (\<lambda>c. length c < 2 ^ 64) cs" "k < length (chunked_text cs)" "length body + length (concat cs) \<le> max_body" "max_body < 2 ^ 63"
  shows "\<exists>e b. decode_chunked (take k (chunked_text cs)) body max_body = (Err e, b)"
  using assms
proof (induction cs arbitrary: k body)
  case Nil
  then show ?case using size_line_cut [of k 0] by (simp add: chunked_text_def)
next
  case (Cons c cs)
  have all: "chunked_text (c # cs) = chunk_text c @ chunked_text cs" by (simp add: chunked_text_def)
  show ?case
  proof (cases "k < length (chunk_text c)")
    case True
    moreover have "c \<noteq> []" using Cons.prems(1) by auto
    ultimately show ?thesis using chunk_cut [of c k body max_body] Cons.prems(2) by (simp add: all)
  next
    case False
    then have "decode_chunked (take k (chunked_text (c # cs))) body max_body
        = decode_chunked (take (k - length (chunk_text c)) (chunked_text cs)) (body @ c) max_body"
      using decode_chunk [of c body max_body] Cons.prems by (auto simp: all)
    then show ?thesis using Cons.IH [of "k - length (chunk_text c)" "body @ c"] Cons.prems False by (simp add: all)
  qed
qed

lemma decode_chunked_bound:
  "decode_chunked rest body max_body = (res, out) \<Longrightarrow> length body \<le> max_body \<Longrightarrow> max_body < 2 ^ 63 \<Longrightarrow> length out \<le> max_body"
proof (induction rest body max_body rule: decode_chunked.induct)
  case (1 rest body max_body)
  show ?case
  proof (rule ccontr)
    assume neg: "\<not> length out \<le> max_body"
    obtain e n where n: "find_sub CRLF rest = Some e" "chunk_size (take e rest) = Some n" "n \<noteq> 0"
      using "1.prems" neg by (subst (asm) decode_chunked.simps) (auto simp: Let_def split: option.splits if_splits)
    let ?rest1 = "drop (e + 2) rest"
    have fits: "\<not> sat_u64 (length body + n) > max_body"
      using "1.prems" neg n by (subst (asm) decode_chunked.simps) (auto split: if_splits)
    then have small: "length body + n \<le> max_body" using "1.prems"(3) by (auto simp: sat_u64_def range_defs split: if_splits)
    have long: "\<not> length ?rest1 < n" and crlf: "take 2 (drop n ?rest1) = CRLF"
      and rec: "decode_chunked (drop 2 (drop n ?rest1)) (body @ take n ?rest1) max_body = (res, out)"
      using "1.prems"(1) neg n fits small by (subst (asm) decode_chunked.simps, force simp: Let_def split: if_splits)+
    have "length (body @ take n ?rest1) \<le> max_body" using small by simp
    from "1.IH" [OF n(1,2) refl n(3) fits long refl refl crlf rec this "1.prems"(3)] neg show False by simp
  qed
qed

section \<open>Properties\<close>

text \<open>A chunked body is read back exactly, whatever its chunks; and one that the connection cut short is always
  an error, never a shorter body.\<close>

lemma http_chunked_body:
  assumes "[] \<notin> set cs" "length (concat cs) \<le> max_body" "max_body < 2 ^ 63"
  shows "decode_chunked (chunked_text cs @ trailers) [] max_body = (Ok (), concat cs)
    \<and> (\<forall>k < length (chunked_text cs). \<exists>e out. decode_chunked (take k (chunked_text cs)) [] max_body = (Err e, out))"
proof -
  have "length c < 2 ^ 64" if "c \<in> set cs" for c
  proof -
    have "length c \<le> length (concat cs)" using that by (induction cs) auto
    then show ?thesis using assms by simp
  qed
  then have "list_all (\<lambda>c. length c < 2 ^ 64) cs" by (simp add: list_all_iff)
  then show ?thesis
    using decode_chunks [of cs "[]" max_body "show_hex 0 @ CRLF @ trailers"] decode_last_chunk [of trailers "concat cs"] chunked_cut [of cs _ "[]"] assms
    by (simp add: chunked_text_def)
qed


definition demo_response :: "byte list" where
  "demo_response = ascii ''HTTP/1.1 200 OK'' @ (CRLF @ CRLF) @ [65]"

lemma demo_response_parsed:
  "parse_response demo_response 10 = (Ok \<lparr>hp_status = 200, hp_used_weight_1m = None, hp_retry_after_secs = None\<rparr>, [65])"
proof -
  let ?w = "ascii ''HTTP/1.1 200 OK''"
  have w: "?w = ascii ''HTTP/1.1'' @ 32 # [50, 48, 48] @ 32 # [79, 75]" "13 \<notin> set ?w" "utf8_valid ?w" "length ?w = 15"
    by (simp_all add: ascii_def of_char_def)
  have "32 \<notin> set (ascii ''HTTP/1.1'')" by (simp add: ascii_def of_char_def)
  then have "status_words ?w = (ascii ''HTTP/1.1'', Some [50, 48, 48])"
    using split_once_one [of 32 "[50, 48, 48]" "[79, 75]"] by (simp add: status_words_def w(1) split_once_one)
  then have "status_code ?w = Ok 200" by (simp add: status_code_def parse_uint_def is_digit_def digit_of_def)
  then have "parse_head ?w = Ok \<lparr>hs_response = \<lparr>hp_status = 200, hp_used_weight_1m = None, hp_retry_after_secs = None\<rparr>, hs_content_length = None, hs_chunked = False\<rparr>"
    using split_by_word [of CRLF ?w] w(2) by (simp add: parse_head_def)
  then show ?thesis using find_sub_at [of "CRLF @ CRLF" ?w "[65]"] w(2-4)
    by (simp add: parse_response_def demo_response_def MAX_HEADERS_def parse_body_def)
qed


end
