(* ===== verification/Rest.thy ===== *)
theory Rest
  imports Info_Text Http Session_Text
begin

text \<open>
  \<open>crates/bowst-venue/src/binance/rest.rs\<close>: the REST calls of the market-data side.

  The network is a parameter \<open>fetch\<close>: what a request for a URL brings back, the response with its
  body or the error of the network layer.
\<close>

section \<open>Requests\<close>

definition depth_weight :: "nat \<Rightarrow> nat" where
  "depth_weight limit = (if limit \<le> 100 then 5 else if limit \<le> 500 then 25 else if limit \<le> 1000 then 50 else 250)"

definition MAX_DEPTH_LIMIT :: nat where "MAX_DEPTH_LIMIT = 5000"

text \<open>\<open>trim_end_matches('/')\<close>.\<close>

definition trim_slashes :: "byte list \<Rightarrow> byte list" where
  "trim_slashes t = rev (dropWhile (\<lambda>b. b = 47) (rev t))"

definition depth_url :: "byte list \<Rightarrow> symbol \<Rightarrow> nat \<Rightarrow> (url, net_error) result" where
  "depth_url rest_base s limit =
     parse_url (trim_slashes rest_base @ ascii ''/api/v3/depth?symbol='' @ symbol_as_str s @ ascii ''&limit='' @ show_nat (min limit MAX_DEPTH_LIMIT))"

datatype rest_error =
    RestNet net_error
  | RestStatus nat "nat option"
  | RestDecode decode_error
  | RestUnknownSymbol symbol
  | NotTrading symbol
  | InvalidConfiguration

definition require_ok :: "http_response \<Rightarrow> (http_response, rest_error) result" where
  "require_ok resp = (if hp_status resp = 200 then Ok resp else Err (RestStatus (hp_status resp) (hp_retry_after_secs resp)))"

fun comma_list :: "byte list list \<Rightarrow> byte list" where
  "comma_list [] = []"
| "comma_list [w] = w"
| "comma_list (w # ws) = w @ [44] @ comma_list ws"

definition info_url :: "byte list \<Rightarrow> symbol list \<Rightarrow> (url, net_error) result" where
  "info_url rest_base symbols =
     parse_url (trim_slashes rest_base @ ascii ''/api/v3/exchangeInfo?symbols=%5B''
       @ comma_list (map (\<lambda>s. ascii ''%22'' @ symbol_as_str s @ ascii ''%22'') symbols) @ ascii ''%5D'')"

text \<open>The loop over the configured symbols, from one on.\<close>

fun list_instruments :: "symbol_rules list \<Rightarrow> nat \<Rightarrow> symbol list \<Rightarrow> instrument list \<Rightarrow> (instrument list, rest_error) result" where
  "list_instruments rules index [] is = Ok is"
| "list_instruments rules index (s # ss) is =
     (case List.find (\<lambda>x. sr_symbol x = s) rules of
        None \<Rightarrow> Err (RestUnknownSymbol s)
      | Some rule \<Rightarrow>
          if \<not> sr_trading rule then Err (NotTrading s)
          else if index \<ge> 2 ^ 32 then Err InvalidConfiguration
          else
            list_instruments rules (index + 1) ss
              (is @ [\<lparr>inst_id = of_nat index, inst_venue = Binance, inst_symbol = sr_symbol rule, inst_tick = sr_tick rule,
                     inst_lot = sr_lot rule, inst_min_notional = sr_min_notional rule\<rparr>]))"

definition load_instruments ::
  "(url \<Rightarrow> (http_response \<times> byte list, net_error) result) \<Rightarrow> byte list \<Rightarrow> symbol list \<Rightarrow> (instrument_table, rest_error) result" where
  "load_instruments fetch rest_base symbols =
     rbind (map_err RestNet (info_url rest_base symbols)) (\<lambda>u.
     rbind (map_err RestNet (fetch u)) (\<lambda>(resp, body).
     rbind (require_ok resp) (\<lambda>_.
     rbind (map_err RestDecode (decode_exchange_info body)) (\<lambda>rules.
     rbind (list_instruments rules 0 symbols []) (\<lambda>is.
     map_err (\<lambda>_. InvalidConfiguration) (table_new is))))))"

section \<open>The table that is loaded\<close>

definition listed_as :: "symbol_rules list \<Rightarrow> symbol \<Rightarrow> instrument \<Rightarrow> bool" where
  "listed_as rules s i \<longleftrightarrow> inst_symbol i = s \<and> inst_venue i = Binance
     \<and> (\<exists>x \<in> set rules. sr_symbol x = s \<and> sr_trading x \<and> inst_tick i = sr_tick x \<and> inst_lot i = sr_lot x \<and> inst_min_notional i = sr_min_notional x)"

lemma list_instruments_listed:
  assumes "list_instruments rules index ss is = Ok out"
  shows "\<exists>more. out = is @ more \<and> list_all2 (listed_as rules) ss more"
  using assms
proof (induction ss arbitrary: index "is")
  case (Cons s ss)
  obtain x where x: "List.find (\<lambda>x. sr_symbol x = s) rules = Some x" using Cons.prems by (auto split: option.splits)
  then have "x \<in> set rules" "sr_symbol x = s" by (auto simp: find_Some_iff)
  moreover from x Cons.prems have t: "sr_trading x" and rec: "list_instruments rules (index + 1) ss
      (is @ [\<lparr>inst_id = of_nat index, inst_venue = Binance, inst_symbol = sr_symbol x, inst_tick = sr_tick x,
             inst_lot = sr_lot x, inst_min_notional = sr_min_notional x\<rparr>]) = Ok out"
    by (auto split: if_splits)
  ultimately show ?case using Cons.IH [OF rec] by (fastforce simp: listed_as_def)
qed simp

lemma listed_instrument_ok:
  assumes "listed_as rules s i" "list_all rules_ok rules"
  shows "instrument_ok i"
proof -
  obtain x where x: "x \<in> set rules" "sr_symbol x = inst_symbol i" "inst_tick i = sr_tick x" "inst_lot i = sr_lot x" "inst_min_notional i = sr_min_notional x"
    using assms(1) by (auto simp: listed_as_def)
  then have "rules_ok x" using assms(2) by (simp add: list_all_iff)
  then show ?thesis using x assms(1) by (simp add: rules_ok_def instrument_ok_def dec_parsed_def made_symbol_def listed_as_def)
qed

lemma load_instruments_parts:
  assumes "load_instruments fetch base symbols = Ok tbl"
  shows "\<exists>u resp body rules. info_url base symbols = Ok u \<and> fetch u = Ok (resp, body) \<and> hp_status resp = 200
      \<and> decode_exchange_info body = Ok rules \<and> list_all2 (listed_as rules) symbols tbl \<and> table_new tbl = Ok tbl"
proof -
  obtain u resp body rules "is" where p: "info_url base symbols = Ok u" "fetch u = Ok (resp, body)" "require_ok resp = Ok resp"
      "decode_exchange_info body = Ok rules" "list_instruments rules 0 symbols [] = Ok is" "table_new is = Ok tbl"
    using assms by (auto simp: load_instruments_def result_simps require_ok_def split: if_splits)
  moreover have "is = tbl" using p(6) by (auto simp: table_new_def split: option.splits)
  ultimately show ?thesis using list_instruments_listed [OF p(5)] by (auto simp: require_ok_def split: if_splits)
qed

lemma loaded_table:
  assumes "load_instruments fetch base symbols = Ok tbl" "sizing_ok z"
  shows "map inst_symbol tbl = symbols \<and> map (unat o inst_id) tbl = [0..<length symbols] \<and> distinct symbols
    \<and> (\<exists>u resp body rules. info_url base symbols = Ok u \<and> fetch u = Ok (resp, body) \<and> hp_status resp = 200
         \<and> decode_exchange_info body = Ok rules \<and> list_all2 (listed_as rules) symbols tbl)
    \<and> parse_description (describe z tbl) = Ok (z, tbl)"
proof -
  obtain u resp body rules where p: "info_url base symbols = Ok u" "fetch u = Ok (resp, body)" "hp_status resp = 200"
      "decode_exchange_info body = Ok rules" "list_all2 (listed_as rules) symbols tbl" "table_new tbl = Ok tbl"
    using load_instruments_parts [OF assms(1)] by blast
  have len: "length symbols = length tbl" using p(5) by (rule list_all2_lengthD)
  have sym: "map inst_symbol tbl = symbols"
    using p(5) len by (intro nth_equalityI) (auto simp: listed_as_def dest: list_all2_nthD)
  have ven: "inst_venue i = Binance" if "i \<in> set tbl" for i
    using p(5) that len by (auto simp: listed_as_def in_set_conv_nth list_all2_conv_all_nth)
  have "table_check [] tbl = None" using p(6) by (simp add: table_new_def split: option.splits)
  note tc = table_check_None [OF this]
  have ids: "map (unat o inst_id) tbl = [0..<length symbols]" using tc len by (intro nth_equalityI) auto
  have "inst_symbol (tbl ! a) \<noteq> inst_symbol (tbl ! b)" if "a < b" "b < length tbl" for a b
  proof -
    have "tbl ! a \<in> set (take b tbl)" using that by (auto simp: in_set_conv_nth intro!: exI [of _ a])
    moreover have "inst_venue (tbl ! a) = inst_venue (tbl ! b)" using ven that by simp
    ultimately show ?thesis using tc that(2) by auto
  qed
  then have "distinct (map inst_symbol tbl)" by (auto simp: distinct_conv_nth) (metis nat_neq_iff)
  moreover have "list_all instrument_ok tbl"
    using p(5) listed_instrument_ok [OF _ decode_exchange_info_ok [OF p(4)]] len by (auto simp: list_all_length list_all2_conv_all_nth)
  then have "parse_description (describe z tbl) = Ok (z, tbl)" by (rule described_round_trip [OF assms(2) p(6)])
  ultimately show ?thesis using sym ids p by auto
qed

text \<open>Nothing but an unknown symbol, one that is not trading, or one listed twice keeps a table from loading.\<close>

lemma table_check_passes:
  assumes "\<forall>k < length rest. unat (inst_id (rest ! k)) = length seen + k" "distinct (map inst_symbol (seen @ rest))"
  shows "table_check seen rest = None"
  using assms
proof (induction seen rest rule: table_check.induct)
  case (2 seen i rest)
  have "unat (inst_id i) = length seen" using 2(2) by fastforce
  moreover have "\<not> list_ex (\<lambda>other. inst_venue other = inst_venue i \<and> inst_symbol other = inst_symbol i) seen" 
  proof
    assume "list_ex (\<lambda>other. inst_venue other = inst_venue i \<and> inst_symbol other = inst_symbol i) seen"
    then obtain other where "other \<in> set seen" "inst_symbol other = inst_symbol i" unfolding list_ex_iff by blast
    then have "inst_symbol i \<in> inst_symbol ` set seen" by (intro image_eqI [of _ _ other]) simp_all
    then show False using 2(3) by simp
  qed
  moreover have "\<forall>k < length rest. unat (inst_id (rest ! k)) = length (seen @ [i]) + k" using 2(2) by fastforce
  ultimately show ?case using 2 by simp
qed simp

lemma list_instruments_loads:
  assumes "\<forall>s \<in> set ss. (\<exists>x \<in> set rules. sr_symbol x = s) \<and> (\<forall>x \<in> set rules. sr_symbol x = s \<longrightarrow> sr_trading x)" "index + length ss \<le> 2 ^ 32"
  shows "\<exists>more. list_instruments rules index ss is = Ok (is @ more) \<and> map inst_symbol more = ss \<and> (\<forall>k < length ss. unat (inst_id (more ! k)) = index + k)"
  using assms
proof (induction ss arbitrary: index "is")
  case (Cons s ss)
  obtain x where x: "List.find (\<lambda>x. sr_symbol x = s) rules = Some x" 
    using Cons.prems(1) by (cases "List.find (\<lambda>x. sr_symbol x = s) rules") (auto simp: find_None_iff)
  then have "x \<in> set rules" "sr_symbol x = s" by (auto simp: find_Some_iff)
  then have t: "sr_trading x" using Cons.prems(1) by auto
  let ?i = "\<lparr>inst_id = of_nat index, inst_venue = Binance, inst_symbol = sr_symbol x, inst_tick = sr_tick x,
             inst_lot = sr_lot x, inst_min_notional = sr_min_notional x\<rparr>"
  obtain more where m: "list_instruments rules (index + 1) ss (is @ [?i]) = Ok ((is @ [?i]) @ more)" "map inst_symbol more = ss"
      "\<forall>k < length ss. unat (inst_id (more ! k)) = index + 1 + k"
    using Cons.IH [of "index + 1" "is @ [?i]"] Cons.prems by auto
  have "unat (of_nat index :: instrument_id) = index" using Cons.prems(2) by (simp add: unat_of_nat)
  then have "\<forall>k < length (s # ss). unat (inst_id ((?i # more) ! k)) = index + k" using m(3) by (auto simp: less_Suc_eq_0_disj)
  then show ?case using x t m(1,2) Cons.prems(2) \<open>sr_symbol x = s\<close> by (intro exI [of _ "?i # more"]) simp
qed simp

section \<open>Properties\<close>

text \<open>C40: When the venue answers with a list of symbols, the table that loads lists the configured symbols, in their order and under
  consecutive ids, each of them trading and with the tick, the lot and the minimum that the filters of the answer's JSON text give for it,
  and a session over it writes a description that is read back exactly.  It does load when the symbols are distinct and listed as
  trading.\<close>

theorem instruments_loaded:
  assumes "info_url base symbols = Ok u" "fetch u = Ok (resp, val_text info)" "hp_status resp = 200" "info_lists info rules" "sizing_ok z"
  shows "(\<forall>tbl. load_instruments fetch base symbols = Ok tbl \<longrightarrow>
       map inst_symbol tbl = symbols \<and> map (unat o inst_id) tbl = [0..<length symbols] \<and> distinct symbols
       \<and> list_all2 (listed_as rules) symbols tbl \<and> parse_description (describe z tbl) = Ok (z, tbl))
    \<and> (distinct symbols \<and> length symbols \<le> 2 ^ 32
         \<and> (\<forall>s \<in> set symbols. (\<exists>x \<in> set rules. sr_symbol x = s) \<and> (\<forall>x \<in> set rules. sr_symbol x = s \<longrightarrow> sr_trading x))
       \<longrightarrow> (\<exists>tbl. load_instruments fetch base symbols = Ok tbl))"
proof (intro conjI allI impI)
  note decoded = decode_exchange_info_reads [OF assms(4)]
  show "\<exists>tbl. load_instruments fetch base symbols = Ok tbl"
    if ok: "distinct symbols \<and> length symbols \<le> 2 ^ 32
      \<and> (\<forall>s \<in> set symbols. (\<exists>x \<in> set rules. sr_symbol x = s) \<and> (\<forall>x \<in> set rules. sr_symbol x = s \<longrightarrow> sr_trading x))"
  proof -
    obtain tbl where t: "list_instruments rules 0 symbols [] = Ok tbl" "map inst_symbol tbl = symbols" "\<forall>k < length symbols. unat (inst_id (tbl ! k)) = k"
      using list_instruments_loads [of symbols rules 0 "[]"] ok by auto
    then have "table_check [] tbl = None" using ok length_map [of inst_symbol tbl] by (intro table_check_passes) auto
    then show ?thesis using assms(1-3) t(1) by (simp add: load_instruments_def require_ok_def decoded table_new_def)
  qed
next
  fix tbl assume load: "load_instruments fetch base symbols = Ok tbl"
  note l = loaded_table [OF load assms(5)]
  show "map inst_symbol tbl = symbols" "map (unat o inst_id) tbl = [0..<length symbols]" "distinct symbols" "parse_description (describe z tbl) = Ok (z, tbl)"
    using l by blast+
  show "list_all2 (listed_as rules) symbols tbl" using l assms(1,2) decode_exchange_info_reads [OF assms(4)] by auto
qed

definition replace_quotes :: "string \<Rightarrow> string" where
  "replace_quotes t = map (\<lambda>c. if c = CHR 0x7E then CHR 0x22 else c) t"

text \<open>An answer with its members and filters in no particular order, and others between them.\<close>

definition demo_filters :: "(byte list \<times> jval) list list" where
  "demo_filters =
     [[(ascii ''limit'', JNumber [49]), (ascii ''filterType'', string_val (ascii ''ICEBERG_PARTS''))],
      [(ascii ''stepSize'', string_val [53]), (ascii ''filterType'', string_val (ascii ''LOT_SIZE''))],
      [(ascii ''filterType'', string_val (ascii ''NOTIONAL'')), (ascii ''minNotional'', string_val [53])],
      [(ascii ''filterType'', string_val (ascii ''PRICE_FILTER'')), (ascii ''minPrice'', string_val [49]), (ascii ''tickSize'', string_val [49])]]"

definition demo_symbol :: "(byte list \<times> jval) list" where
  "demo_symbol = [(ascii ''filters'', JArray (map JObject demo_filters)), (ascii ''status'', string_val (ascii ''TRADING'')), (ascii ''symbol'', string_val [65])]"

definition demo_info :: jval where
  "demo_info = JObject [(ascii ''timezone'', string_val (ascii ''UTC'')), (ascii ''symbols'', JArray (map JObject [demo_symbol]))]"

definition demo_rules :: symbol_rules where
  "demo_rules = \<lparr>sr_symbol = \<lparr>sym_bytes = 65 # replicate 23 0, sym_len = 1\<rparr>, sr_trading = True, sr_tick = \<lparr>inc_mantissa = 1, inc_scale = 0\<rparr>,
     sr_lot = \<lparr>inc_mantissa = 5, inc_scale = 0\<rparr>, sr_min_notional = \<lparr>mantissa = 5, scale = 0\<rparr>\<rparr>"

lemma demo_numbers: "increment_parse [49] = Ok \<lparr>inc_mantissa = 1, inc_scale = 0\<rparr>" "increment_parse [53] = Ok \<lparr>inc_mantissa = 5, inc_scale = 0\<rparr>"
  "parse_bytes [53] = Ok \<lparr>mantissa = 5, scale = 0\<rparr>"
proof -
  have p: "parse_bytes [49] = Ok \<lparr>mantissa = 1, scale = 0\<rparr>" "parse_bytes [53] = Ok \<lparr>mantissa = 5, scale = 0\<rparr>"
    unfolding parse_bytes_Ok_iff
    by (rule exI [of _ False], rule exI [of _ "[49]"], rule exI [of _ "[]"],
        simp add: dec_text_def text_ok_def dec_of_def is_digit_def digit_of_def fixed_consts)
      (rule exI [of _ False], rule exI [of _ "[53]"], rule exI [of _ "[]"],
        simp add: dec_text_def text_ok_def dec_of_def is_digit_def digit_of_def fixed_consts)
  then show "increment_parse [49] = Ok \<lparr>inc_mantissa = 1, inc_scale = 0\<rparr>" "increment_parse [53] = Ok \<lparr>inc_mantissa = 5, inc_scale = 0\<rparr>"
    by (simp_all add: increment_parse_def increment_new_def range_defs fixed_consts checked_i64_def strip_zeros.simps)
  show "parse_bytes [53] = Ok \<lparr>mantissa = 5, scale = 0\<rparr>" by (rule p)
qed

lemma demo_filters_fine: "list_all filter_fine demo_filters"
  by (simp add: demo_filters_def filter_fine_def ascii_def of_char_def plain_def is_digit_def)

lemma demo_filters_give: "list_all (filter_gives demo_rules) demo_filters"
  by (simp add: demo_filters_def filter_gives_def member_is_def ascii_def of_char_def demo_rules_def demo_numbers)

lemma demo_symbol_lists: "symbol_lists demo_symbol demo_rules"
proof -
  have under: "listed_under ''filters'' demo_symbol = demo_filters"
    by (simp add: listed_under_def demo_symbol_def) (simp add: ascii_def of_char_def)
  have y: "symbol_new [65] = Some (sr_symbol demo_rules)"
    by (simp add: symbol_new_def MAX_SYMBOL_LEN_def is_ascii_graphic_def demo_rules_def)
  have "symbol_fine demo_symbol"
    using demo_filters_fine y by (simp add: symbol_fine_def demo_symbol_def) (simp add: ascii_def of_char_def plain_def, blast)
  moreover have "member_is demo_symbol ''symbol'' [65]" "member_is demo_symbol ''status'' (ascii ''TRADING'')"
    by (simp_all add: member_is_def demo_symbol_def ascii_def of_char_def)
  moreover have "\<exists>f \<in> set demo_filters. member_is f ''filterType'' (ascii ''PRICE_FILTER'')" "\<exists>f \<in> set demo_filters. member_is f ''filterType'' (ascii ''LOT_SIZE'')"
    "\<exists>f \<in> set demo_filters. member_is f ''filterType'' (ascii ''NOTIONAL'') \<or> member_is f ''filterType'' (ascii ''MIN_NOTIONAL'')"
    by (simp_all add: demo_filters_def member_is_def ascii_def of_char_def)
  moreover have "sr_trading demo_rules" by (simp add: demo_rules_def)
  ultimately show ?thesis unfolding symbol_lists_def under using y demo_filters_give by blast
qed

lemma demo_info_lists: "info_lists demo_info [demo_rules]"
proof -
  have "ascii ''timezone'' \<noteq> ascii ''symbols''" "list_all plain (ascii ''timezone'')" "utf8_valid (ascii ''timezone'')" "list_all plain (ascii ''symbols'')"
    "utf8_valid (ascii ''symbols'')" "val_ok 31 (string_val (ascii ''UTC''))"
    by (simp_all add: ascii_def of_char_def plain_def string_val_def)
  then show ?thesis unfolding info_lists_def demo_info_def using demo_symbol_lists
    by (intro exI [of _ "[demo_symbol]"] exI conjI) auto
qed

definition demo_fetch :: "url \<Rightarrow> (http_response \<times> byte list, net_error) result" where
  "demo_fetch u = Ok (\<lparr>hp_status = 200, hp_used_weight_1m = None, hp_retry_after_secs = None\<rparr>, val_text demo_info)"

theorem instruments_loaded_witness:
  "\<exists>i. load_instruments demo_fetch (ascii ''http://h/'') [sr_symbol demo_rules] = Ok [i] \<and> inst_tick i = \<lparr>inc_mantissa = 1, inc_scale = 0\<rparr>
     \<and> inst_lot i = \<lparr>inc_mantissa = 5, inc_scale = 0\<rparr> \<and> inst_min_notional i = \<lparr>mantissa = 5, scale = 0\<rparr>
     \<and> parse_description (describe demo_sizing [i]) = Ok (demo_sizing, [i])"
proof -
  have "\<exists>u. info_url (ascii ''http://h/'') [sr_symbol demo_rules] = Ok u"
    by (simp add: info_url_def trim_slashes_def parse_url_def ascii_def of_char_def demo_rules_def symbol_as_str_def split_once_def scheme_of_def host_port_def)
  then obtain u where u: "info_url (ascii ''http://h/'') [sr_symbol demo_rules] = Ok u" ..
  have f: "demo_fetch u = Ok (\<lparr>hp_status = 200, hp_used_weight_1m = None, hp_retry_after_secs = None\<rparr>, val_text demo_info)" by (simp add: demo_fetch_def)
  note l = instruments_loaded [of _ _ _ demo_fetch, OF u f _ demo_info_lists demo_described(1)]
  obtain tbl where t: "load_instruments demo_fetch (ascii ''http://h/'') [sr_symbol demo_rules] = Ok tbl" using l by (auto simp: demo_rules_def)
  then have p: "list_all2 (listed_as [demo_rules]) [sr_symbol demo_rules] tbl" "parse_description (describe demo_sizing tbl) = Ok (demo_sizing, tbl)" using l by auto
  then obtain i where "tbl = [i]" "listed_as [demo_rules] (sr_symbol demo_rules) i" by (auto simp: list_all2_Cons1)
  then show ?thesis using t p(2) by (auto simp: listed_as_def demo_rules_def)
qed

end
