(* ===== verification/Ws_Handshake.thy ===== *)
theory Ws_Handshake
  imports Http
begin

text \<open>
  \<open>crates/bowst-venue/src/ws/handshake.rs\<close>: the HTTP upgrade that opens a WebSocket connection.

  The SHA-1 of the crate sha1_smol is a parameter \<open>sha\<close>, a function from the bytes fed to it to a digest of
  twenty bytes; nothing else is assumed of it.
\<close>

section \<open>Base64\<close>

definition BASE64 :: "byte list" where
  "BASE64 = ascii ''ABCDEFGHIJKLMNOPQRSTUVWXYZabcdefghijklmnopqrstuvwxyz0123456789+/''"

definition base64_symbol :: "nat \<Rightarrow> byte" where
  "base64_symbol i = (case nth_opt BASE64 (i mod 64) of Some b \<Rightarrow> b | None \<Rightarrow> 61)"

text \<open>One group of up to three bytes: 24 bits, six to a symbol, padded with equals signs.\<close>

definition base64_group :: "byte list \<Rightarrow> byte list" where
  "base64_group chunk =
     (let at_pos = (\<lambda>i. case nth_opt chunk i of Some b \<Rightarrow> unat b | None \<Rightarrow> 0);
          n = at_pos 0 * 2 ^ 16 + at_pos 1 * 2 ^ 8 + at_pos 2
      in [base64_symbol (n div 2 ^ 18), base64_symbol (n div 2 ^ 12),
          if length chunk > 1 then base64_symbol (n div 2 ^ 6) else 61, if length chunk > 2 then base64_symbol n else 61])"

fun base64_text :: "byte list \<Rightarrow> byte list" where
  "base64_text (a # b # c # rest) = base64_group [a, b, c] @ base64_text rest"
| "base64_text [] = []"
| "base64_text [a] = base64_group [a]"
| "base64_text [a, b] = base64_group [a, b]"

text \<open>Written over the output from its start, as far as it reaches.\<close>

definition base64_encode :: "byte list \<Rightarrow> byte list \<Rightarrow> byte list" where
  "base64_encode input out = take (length out) (base64_text input) @ drop (length (base64_text input)) out"

section \<open>The upgrade\<close>

definition ACCEPT_GUID :: "byte list" where "ACCEPT_GUID = ascii ''258EAFA5-E914-47DA-95CA-C5AB0DC85B11''"
definition MAX_RESPONSE_HEADERS :: nat where "MAX_RESPONSE_HEADERS = 8 * 1024"
definition KEY_LEN :: nat where "KEY_LEN = 24"
definition ACCEPT_LEN :: nat where "ACCEPT_LEN = 28"

record handshake =
  hk_key :: "byte list"
  hk_accept :: "byte list"

definition accept_for_key :: "(byte list \<Rightarrow> byte list) \<Rightarrow> byte list \<Rightarrow> byte list" where
  "accept_for_key sha k = base64_encode (sha (k @ ACCEPT_GUID)) (replicate ACCEPT_LEN 0)"

definition handshake_new :: "(byte list \<Rightarrow> byte list) \<Rightarrow> byte list \<Rightarrow> handshake" where
  "handshake_new sha random =
     (let k = base64_encode random (replicate KEY_LEN 0) in \<lparr>hk_key = k, hk_accept = accept_for_key sha k\<rparr>)"

definition text_or_empty :: "byte list \<Rightarrow> byte list" where
  "text_or_empty bs = (if utf8_valid bs then bs else [])"

definition handshake_key :: "handshake \<Rightarrow> byte list" where
  "handshake_key h = text_or_empty (hk_key h)"

definition expected_accept :: "handshake \<Rightarrow> byte list" where
  "expected_accept h = text_or_empty (hk_accept h)"

definition write_request :: "handshake \<Rightarrow> byte list \<Rightarrow> byte list \<Rightarrow> byte list" where
  "write_request h host path =
     ascii ''GET '' @ path @ ascii '' HTTP/1.1'' @ CRLF @ ascii ''Host: '' @ host @ CRLF @ ascii ''Upgrade: websocket'' @ CRLF
       @ ascii ''Connection: Upgrade'' @ CRLF @ ascii ''Sec-WebSocket-Key: '' @ handshake_key h @ CRLF
       @ ascii ''Sec-WebSocket-Version: 13'' @ CRLF @ CRLF"

record upgrade_state =
  up_upgrade :: bool
  up_connection :: bool
  up_accept :: bool

definition upgrade_line :: "handshake \<Rightarrow> byte list \<Rightarrow> upgrade_state \<Rightarrow> (upgrade_state, ws_error) result" where
  "upgrade_line h line st =
     (case split_once [58] line of
        None \<Rightarrow> Err (Handshake ''malformed header line'')
      | Some (name, raw_value) \<Rightarrow>
          let val = trim raw_value in
          if eq_ignore_case name (ascii ''upgrade'') then Ok (st\<lparr>up_upgrade := eq_ignore_case val (ascii ''websocket'')\<rparr>)
          else if eq_ignore_case name (ascii ''connection'') then
            Ok (st\<lparr>up_connection := list_ex (\<lambda>t. eq_ignore_case (trim t) (ascii ''upgrade'')) (split_on 44 val)\<rparr>)
          else if eq_ignore_case name (ascii ''sec-websocket-accept'') then
            (if val \<noteq> expected_accept h then Err (Handshake ''Sec-WebSocket-Accept does not match key'') else Ok (st\<lparr>up_accept := True\<rparr>))
          else if eq_ignore_case name (ascii ''sec-websocket-extensions'') \<or> eq_ignore_case name (ascii ''sec-websocket-protocol'') then
            Err (Handshake ''unrequested extension or subprotocol'')
          else Ok st)"

fun upgrade_lines :: "handshake \<Rightarrow> byte list list \<Rightarrow> upgrade_state \<Rightarrow> (upgrade_state, ws_error) result" where
  "upgrade_lines h [] st = Ok st"
| "upgrade_lines h (l # ls) st = rbind (upgrade_line h l st) (upgrade_lines h ls)"

definition is_101 :: "byte list \<Rightarrow> bool" where
  "is_101 status = (case split_on 32 status of a # b # _ \<Rightarrow> a = ascii ''HTTP/1.1'' \<and> b = ascii ''101'' | _ \<Rightarrow> False)"

definition upgrade_head :: "handshake \<Rightarrow> byte list \<Rightarrow> nat \<Rightarrow> (nat option, ws_error) result" where
  "upgrade_head h head header_len =
     (let lines = split_by CRLF head in
      if \<not> is_101 (hd lines) then Err (Handshake ''status is not 101'')
      else
        rbind (upgrade_lines h (tl lines) \<lparr>up_upgrade = False, up_connection = False, up_accept = False\<rparr>) (\<lambda>st.
          if \<not> up_upgrade st then Err (Handshake ''missing Upgrade: websocket'')
          else if \<not> up_connection st then Err (Handshake ''missing Connection: Upgrade'')
          else if \<not> up_accept st then Err (Handshake ''missing Sec-WebSocket-Accept'')
          else Ok (Some header_len)))"

definition upgrade_response :: "handshake \<Rightarrow> byte list \<Rightarrow> (nat option, ws_error) result" where
  "upgrade_response h buf =
     (case find_sub (CRLF @ CRLF) buf of
        None \<Rightarrow> if length buf > MAX_RESPONSE_HEADERS then Err HandshakeTooLarge else Ok None
      | Some e \<Rightarrow>
          if e + 4 > MAX_RESPONSE_HEADERS then Err HandshakeTooLarge
          else if \<not> utf8_valid (take e buf) then Err (Handshake ''headers are not UTF-8'')
          else upgrade_head h (take e buf) (e + 4))"

section \<open>Base64 is read back\<close>

definition symbol_index :: "byte \<Rightarrow> nat" where
  "symbol_index b = length (takeWhile (\<lambda>x. x \<noteq> b) BASE64)"

fun base64_decode :: "byte list \<Rightarrow> byte list" where
  "base64_decode (a # b # c # d # rest) =
     (let n = symbol_index a * 2 ^ 18 + symbol_index b * 2 ^ 12 + (if c = 61 then 0 else symbol_index c * 2 ^ 6) + (if d = 61 then 0 else symbol_index d);
          x = of_nat (n div 2 ^ 16); y = of_nat (n div 2 ^ 8 mod 256); z = of_nat (n mod 256)
      in (if c = 61 then [x] else if d = 61 then [x, y] else [x, y, z]) @ base64_decode rest)"
| "base64_decode _ = []"

lemma base64_table: "length BASE64 = 64" "distinct BASE64" "list_all is_ascii_graphic BASE64" "61 \<notin> set BASE64"
proof -
  show "length BASE64 = 64" by (simp add: BASE64_def ascii_def)
  show "list_all is_ascii_graphic BASE64" by (simp add: BASE64_def ascii_def of_char_def is_ascii_graphic_def)
  show "61 \<notin> set BASE64" by (simp add: BASE64_def ascii_def of_char_def)
  show "distinct BASE64" by (simp add: BASE64_def ascii_def of_char_def)
qed

lemma takeWhile_nth_distinct: "distinct xs \<Longrightarrow> i < length xs \<Longrightarrow> length (takeWhile (\<lambda>x. x \<noteq> xs ! i) xs) = i"
proof (induction xs arbitrary: i)
  case (Cons x xs)
  then show ?case by (cases i) auto
qed simp

lemma base64_symbol_exact [simp]:
  "symbol_index (base64_symbol i) = i mod 64" "base64_symbol i \<noteq> 61" "is_ascii_graphic (base64_symbol i)"
proof -
  have i: "i mod 64 < length BASE64" by (simp add: base64_table)
  then have "base64_symbol i = BASE64 ! (i mod 64)" "BASE64 ! (i mod 64) \<in> set BASE64" by (auto simp: base64_symbol_def nth_opt_def)
  then show "symbol_index (base64_symbol i) = i mod 64" "base64_symbol i \<noteq> 61" "is_ascii_graphic (base64_symbol i)"
    using takeWhile_nth_distinct [OF base64_table(2) i] base64_table(3,4) by (auto simp: symbol_index_def list_all_iff)
qed

lemma sextets:
  fixes n :: nat
  assumes "n < 16777216"
  shows "n div 262144 mod 64 * 262144 + n div 4096 mod 64 * 4096 + n div 64 mod 64 * 64 + n mod 64 = n"
proof -
  have "n div 262144 < 64" using assms by (simp add: less_mult_imp_div_less)
  then have "n div 262144 mod 64 = n div 262144" by simp
  moreover have "n div 4096 div 64 = n div 262144" "n div 64 div 64 = n div 4096" by (simp_all add: div_mult2_eq [symmetric])
  moreover note div_mult_mod_eq [of "n div 4096" 64] div_mult_mod_eq [of "n div 64" 64] div_mult_mod_eq [of n 64]
  ultimately show ?thesis by linarith
qed

lemma byte_bound: "unat (b :: byte) < 256"
  using unsigned_less [of b] by simp

lemma octets:
  fixes x y z :: nat
  assumes "x < 256" "y < 256" "z < 256"
  shows "(x * 65536 + y * 256 + z) div 65536 = x" "(x * 65536 + y * 256 + z) div 256 mod 256 = y" "(x * 65536 + y * 256 + z) mod 256 = z"
    "x * 65536 + y * 256 + z < 16777216"
proof -
  let ?n = "x * 65536 + y * 256 + z"
  have eq: "?n = z + 256 * (x * 256 + y)" by simp
  show "?n mod 256 = z" unfolding eq mod_mult_self2 using assms(3) by simp
  have d: "?n div 256 = x * 256 + y" unfolding eq using assms(3) by (subst div_mult_self2) simp_all
  show "?n div 256 mod 256 = y" unfolding d mod_mult_self3 using assms(2) by simp
  have "?n div 65536 = ?n div 256 div 256" by (simp add: div_mult2_eq [symmetric])
  then show "?n div 65536 = x" unfolding d using assms by simp
  show "?n < 16777216" using assms by simp
qed

lemma decode_group:
  assumes "chunk \<noteq> []" "length chunk \<le> 3"
  shows "base64_decode (base64_group chunk @ rest) = chunk @ base64_decode rest" "length (base64_group chunk) = 4"
    "b \<in> set (base64_group chunk) \<Longrightarrow> is_ascii_graphic b"
proof -
  obtain a t where c: "chunk = a # t" using assms(1) by (cases chunk) auto
  consider "chunk = [a]" | b where "chunk = [a, b]" | b d where "chunk = [a, b, d]"
  proof (cases t)
    case (Cons b u)
    show ?thesis by (cases u) (use that assms(2) c Cons in auto)
  qed (use that c in simp)
  then show "base64_decode (base64_group chunk @ rest) = chunk @ base64_decode rest"
  proof cases
    case 1
    have eq: "unat a * 65536 = 64 * (64 * (16 * unat a))" by simp
    have m: "unat a * 65536 mod 64 = 0" unfolding eq by (rule mod_mult_self1_is_0)
    have "unat a * 65536 div 64 = 64 * (16 * unat a)" unfolding eq by (rule nonzero_mult_div_cancel_left) simp
    then have z: "unat a * 65536 div 64 mod 64 = 0" "unat a * 65536 mod 64 = 0" using m by (simp_all only: mod_mult_self1_is_0)
    then show ?thesis using octets [of "unat a" 0 0] sextets [of "unat a * 65536"] byte_bound [of a] 1
      by (simp add: base64_group_def nth_opt_def Let_def)
  next
    case (2 b)
    have "unat a * 65536 + unat b * 256 = 64 * (1024 * unat a + 4 * unat b)" by simp
    then have "(unat a * 65536 + unat b * 256) mod 64 = 0" by (simp only: mod_mult_self1_is_0)
    then show ?thesis using octets [of "unat a" "unat b" 0] sextets [of "unat a * 65536 + unat b * 256"] byte_bound [of a] byte_bound [of b] 2
      by (simp add: base64_group_def nth_opt_def Let_def)
  next
    case (3 b d)
    then show ?thesis
      using octets [of "unat a" "unat b" "unat d"] sextets [of "unat a * 65536 + unat b * 256 + unat d"] byte_bound [of a] byte_bound [of b] byte_bound [of d]
      by (simp add: base64_group_def nth_opt_def Let_def)
  qed
  have "is_ascii_graphic 61" by (simp add: is_ascii_graphic_def)
  then show "length (base64_group chunk) = 4" "b \<in> set (base64_group chunk) \<Longrightarrow> is_ascii_graphic b"
    by (auto simp: base64_group_def Let_def split: if_splits)
qed

lemma base64_text_exact:
  "base64_decode (base64_text bs) = bs" "length (base64_text bs) = 4 * ((length bs + 2) div 3)" "list_all is_ascii_graphic (base64_text bs)"
proof (induction bs rule: base64_text.induct)
  case (1 a b c rest)
  have c3: "[a, b, c] \<noteq> []" "length [a, b, c] \<le> 3" by simp_all
  note g = decode_group [OF c3]
  show "base64_decode (base64_text (a # b # c # rest)) = a # b # c # rest"
    "length (base64_text (a # b # c # rest)) = 4 * ((length (a # b # c # rest) + 2) div 3)"
    "list_all is_ascii_graphic (base64_text (a # b # c # rest))"
    using 1 g div_add_self2 [of 3 "Suc (Suc (length rest))"] by (auto simp: list_all_iff)
next
  case (3 a)
  have c3: "[a] \<noteq> []" "length [a] \<le> 3" by simp_all
  note g = decode_group [OF c3]
  show "base64_decode (base64_text [a]) = [a]" "length (base64_text [a]) = 4 * ((length [a] + 2) div 3)" "list_all is_ascii_graphic (base64_text [a])"
    using g(1) [of "[]"] g(2,3) by (simp_all add: list_all_iff)
next
  case (4 a b)
  have c3: "[a, b] \<noteq> []" "length [a, b] \<le> 3" by simp_all
  note g = decode_group [OF c3]
  show "base64_decode (base64_text [a, b]) = [a, b]" "length (base64_text [a, b]) = 4 * ((length [a, b] + 2) div 3)"
    "list_all is_ascii_graphic (base64_text [a, b])"
    using g(1) [of "[]"] g(2,3) by (simp_all add: list_all_iff)
qed simp_all

lemma base64_encode_exact: "length out = 4 * ((length bs + 2) div 3) \<Longrightarrow> base64_encode bs out = base64_text bs"
  using base64_text_exact(2) [of bs] by (simp add: base64_encode_def)

section \<open>The end of the head\<close>

text \<open>What was found stays found when the text grows, and is not found in a shorter text.\<close>

lemma find_sub_fits: "find_sub pat s = Some k \<Longrightarrow> k + length pat \<le> length s"
  using arg_cong [OF find_sub_Some [of pat s k], of length] find_sub_bound [of pat s k] by simp

lemma find_sub_grow: "find_sub pat s = Some k \<Longrightarrow> pat \<noteq> [] \<Longrightarrow> find_sub pat (s @ t) = Some k"
proof (induction s arbitrary: k)
  case (Cons b s)
  note fits = find_sub_fits [OF Cons.prems(1)]
  show ?case
  proof (cases "take (length pat) (b # s) = pat")
    case True
    then show ?thesis using Cons.prems fits take_append [of "length pat" "b # s" t] by simp
  next
    case False
    then obtain j where j: "k = Suc j" "find_sub pat s = Some j" using Cons.prems by auto
    then have "take (length pat) ((b # s) @ t) = take (length pat) (b # s)" using fits by (simp only: take_append) simp
    then show ?thesis using False Cons.IH [OF j(2) Cons.prems(2)] j(1) by simp
  qed
qed simp

lemma find_sub_prefix:
  "find_sub pat (s @ t) = Some k \<Longrightarrow> k + length pat \<le> length s \<Longrightarrow> pat \<noteq> [] \<Longrightarrow> find_sub pat s = Some k"
proof (induction s arbitrary: k)
  case (Cons b s)
  have "take (length pat) ((b # s) @ t) = take (length pat) (b # s)" using Cons.prems(2) by (simp only: take_append) simp
  then show ?case using Cons by (cases k) (auto split: if_splits)
qed simp

lemma find_sub_take:
  assumes "find_sub pat s = Some k" "pat \<noteq> []"
  shows "find_sub pat (take (k + length pat) s @ t) = Some k" "j < k + length pat \<Longrightarrow> find_sub pat (take j s) = None"
proof -
  have l: "k + length pat \<le> length s" using find_sub_fits assms(1) by blast
  have "find_sub pat (take (k + length pat) s) = Some k"
    using find_sub_prefix [of pat "take (k + length pat) s" "drop (k + length pat) s" k] assms l by simp
  then show "find_sub pat (take (k + length pat) s @ t) = Some k" using find_sub_grow assms(2) by blast
  assume j: "j < k + length pat"
  show "find_sub pat (take j s) = None"
  proof (rule ccontr)
    assume "find_sub pat (take j s) \<noteq> None"
    then obtain i where i: "find_sub pat (take j s) = Some i" by auto
    have "find_sub pat s = Some i" using find_sub_grow [OF i assms(2), of "drop j s"] by simp
    moreover have "i + length pat \<le> length (take j s)" using find_sub_fits i by blast
    ultimately show False using assms(1) j by simp
  qed
qed

lemma find_sub_after_line:
  assumes "13 \<notin> set w" "rest \<noteq> []" "hd rest \<noteq> 13"
  shows "find_sub (CRLF @ CRLF) (w @ CRLF @ rest) = map_option (\<lambda>k. length w + 2 + k) (find_sub (CRLF @ CRLF) rest)"
  using assms(1)
proof (induction w)
  case Nil
  then show ?case using assms(2,3) by (cases rest) (auto simp: option.map_comp comp_def)
qed (auto simp: option.map_comp comp_def intro!: option.map_cong)

section \<open>What an accepted reply holds\<close>

definition names_header :: "char list \<Rightarrow> byte list \<Rightarrow> bool" where
  "names_header name line \<longleftrightarrow> (case split_once [58] line of None \<Rightarrow> False | Some (n, _) \<Rightarrow> eq_ignore_case n (ascii name))"

definition header_text :: "byte list \<Rightarrow> byte list" where
  "header_text line = (case split_once [58] line of None \<Rightarrow> [] | Some (_, v) \<Rightarrow> trim v)"

definition unrequested :: "byte list \<Rightarrow> bool" where
  "unrequested line \<longleftrightarrow> names_header ''sec-websocket-extensions'' line \<or> names_header ''sec-websocket-protocol'' line"

lemma header_names_distinct:
  "eq_ignore_case n (ascii ''upgrade'') \<Longrightarrow> \<not> eq_ignore_case n (ascii ''connection'')"
  "eq_ignore_case n (ascii ''upgrade'') \<or> eq_ignore_case n (ascii ''connection'') \<or> eq_ignore_case n (ascii ''sec-websocket-accept'')
     \<Longrightarrow> \<not> eq_ignore_case n (ascii ''sec-websocket-extensions'') \<and> \<not> eq_ignore_case n (ascii ''sec-websocket-protocol'')"
  "eq_ignore_case n (ascii ''upgrade'') \<or> eq_ignore_case n (ascii ''connection'') \<Longrightarrow> \<not> eq_ignore_case n (ascii ''sec-websocket-accept'')"
  by (auto simp: eq_ignore_case_def ascii_def of_char_def lower_def)

text \<open>Every line has a colon, none is unrequested, and those with an accept value have the right one; the last \<open>Upgrade\<close> and the last
  \<open>Connection\<close> header count.\<close>

definition line_good :: "byte list \<Rightarrow> byte list \<Rightarrow> bool" where
  "line_good accept l \<longleftrightarrow> 58 \<in> set l \<and> \<not> unrequested l \<and> (names_header ''sec-websocket-accept'' l \<longrightarrow> header_text l = accept)"

definition last_header :: "char list \<Rightarrow> byte list list \<Rightarrow> byte list option" where
  "last_header name ls = (case rev (filter (names_header name) ls) of [] \<Rightarrow> None | l # _ \<Rightarrow> Some (header_text l))"

definition lists_upgrade :: "byte list \<Rightarrow> bool" where
  "lists_upgrade v \<longleftrightarrow> (\<exists>t \<in> set (split_on 44 v). eq_ignore_case (trim t) (ascii ''upgrade''))"

definition accepts :: "byte list \<Rightarrow> byte list list \<Rightarrow> bool" where
  "accepts accept headers \<longleftrightarrow> list_all (line_good accept) headers \<and> list_ex (names_header ''sec-websocket-accept'') headers
     \<and> (case last_header ''upgrade'' headers of None \<Rightarrow> False | Some v \<Rightarrow> eq_ignore_case v (ascii ''websocket''))
     \<and> (case last_header ''connection'' headers of None \<Rightarrow> False | Some v \<Rightarrow> lists_upgrade v)"

lemma last_header_simps [simp]:
  "last_header name [] = None"
  "last_header name (l # ls) = (case last_header name ls of Some v \<Rightarrow> Some v | None \<Rightarrow> if names_header name l then Some (header_text l) else None)"
  by (auto simp: last_header_def split: list.splits)

lemma upgrade_line_Ok:
  "upgrade_line h l st = Ok st' \<longleftrightarrow> line_good (expected_accept h) l
     \<and> st' = \<lparr>up_upgrade = (if names_header ''upgrade'' l then eq_ignore_case (header_text l) (ascii ''websocket'') else up_upgrade st),
              up_connection = (if names_header ''connection'' l then lists_upgrade (header_text l) else up_connection st),
              up_accept = (up_accept st \<or> names_header ''sec-websocket-accept'' l)\<rparr>"
proof (cases "split_once [58] l")
  case None
  then show ?thesis using split_once_one_None [of 58 l] by (simp add: upgrade_line_def line_good_def)
next
  case (Some x)
  then obtain n v where x: "split_once [58] l = Some (n, v)" by (cases x) simp
  then have c: "58 \<in> set l" using split_once_one_None [of 58 l] by fastforce
  have nh: "names_header name l \<longleftrightarrow> eq_ignore_case n (ascii name)" "header_text l = trim v" for name by (simp_all add: names_header_def header_text_def x)
  show ?thesis using c header_names_distinct [of n]
    by (cases st) (auto simp: upgrade_line_def line_good_def x nh unrequested_def lists_upgrade_def list_ex_iff Let_def)
qed

lemma upgrade_lines_Ok:
  "upgrade_lines h ls st = Ok st' \<longleftrightarrow> list_all (line_good (expected_accept h)) ls
     \<and> st' = \<lparr>up_upgrade = (case last_header ''upgrade'' ls of None \<Rightarrow> up_upgrade st | Some v \<Rightarrow> eq_ignore_case v (ascii ''websocket'')),
              up_connection = (case last_header ''connection'' ls of None \<Rightarrow> up_connection st | Some v \<Rightarrow> lists_upgrade v),
              up_accept = (up_accept st \<or> list_ex (names_header ''sec-websocket-accept'') ls)\<rparr>"
proof (induction ls arbitrary: st)
  case Nil
  then show ?case by (cases st) auto
next
  case (Cons l ls)
  show ?case by (auto simp: rbind_Ok_iff upgrade_line_Ok Cons split: option.splits)
qed

lemma upgrade_head_Ok:
  "upgrade_head h head n = Ok (Some m) \<longleftrightarrow> m = n \<and> is_101 (hd (split_by CRLF head)) \<and> accepts (expected_accept h) (tl (split_by CRLF head))"
  by (auto simp: upgrade_head_def Let_def rbind_Ok_iff upgrade_lines_Ok accepts_def split: option.splits)

lemma upgrade_head_len: "upgrade_head h head n = Ok (Some m) \<Longrightarrow> m = n"
  by (simp add: upgrade_head_Ok)

lemma upgrade_response_Ok:
  "upgrade_response h buf = Ok (Some n) \<longleftrightarrow>
     (\<exists>e. find_sub (CRLF @ CRLF) buf = Some e \<and> n = e + 4 \<and> n \<le> MAX_RESPONSE_HEADERS \<and> utf8_valid (take e buf)
        \<and> is_101 (hd (split_by CRLF (take e buf))) \<and> accepts (expected_accept h) (tl (split_by CRLF (take e buf))))"
  by (auto simp: upgrade_response_def upgrade_head_Ok split: option.split)

section \<open>The reply of a server that speaks the protocol\<close>

text \<open>Lines as a server sends them, each ended but the last.\<close>

fun crlf_joined :: "byte list list \<Rightarrow> byte list" where
  "crlf_joined [] = []"
| "crlf_joined [l] = l"
| "crlf_joined (l # ls) = l @ CRLF @ crlf_joined ls"

definition cr_free :: "byte list \<Rightarrow> bool" where
  "cr_free l \<longleftrightarrow> l \<noteq> [] \<and> 13 \<notin> set l"

lemma cr_free_hd: "cr_free l \<Longrightarrow> 13 \<notin> set l \<and> hd l \<noteq> 13"
  by (cases l) (auto simp: cr_free_def)

lemma joined_split: "list_all cr_free ls \<Longrightarrow> ls \<noteq> [] \<Longrightarrow> split_by CRLF (crlf_joined ls) = ls"
proof (induction ls rule: crlf_joined.induct)
  case (2 l)
  then show ?case using split_by_word [of CRLF l] cr_free_hd by simp
next
  case (3 l k ls)
  then show ?case using split_by_first [of CRLF l "crlf_joined (k # ls)"] cr_free_hd by simp
qed simp

lemma joined_first: "list_all cr_free (l # ls) \<Longrightarrow> crlf_joined (l # ls) \<noteq> [] \<and> hd (crlf_joined (l # ls)) \<noteq> 13"
  using cr_free_hd [of l] by (cases ls) (auto simp: cr_free_def hd_append)

lemma joined_find:
  "list_all cr_free ls \<Longrightarrow> ls \<noteq> [] \<Longrightarrow> find_sub (CRLF @ CRLF) (crlf_joined ls @ (CRLF @ CRLF) @ body) = Some (length (crlf_joined ls))"
proof (induction ls rule: crlf_joined.induct)
  case (2 l)
  then show ?case using find_sub_at [of "CRLF @ CRLF" l body] cr_free_hd by simp
next
  case (3 l k ls)
  let ?rest = "crlf_joined (k # ls) @ (CRLF @ CRLF) @ body"
  have "13 \<notin> set l" "?rest \<noteq> []" "hd ?rest \<noteq> 13" using 3(2) cr_free_hd joined_first [of k ls] by (auto simp: hd_append)
  from find_sub_after_line [OF this] show ?case using 3 by simp
qed simp

lemma reply_accepted:
  assumes "list_all cr_free (status # headers)" "is_101 status" "accepts (expected_accept h) headers"
    "utf8_valid (crlf_joined (status # headers))" "length (crlf_joined (status # headers)) + 4 \<le> MAX_RESPONSE_HEADERS"
  shows "upgrade_response h (crlf_joined (status # headers) @ (CRLF @ CRLF) @ frames) = Ok (Some (length (crlf_joined (status # headers)) + 4))"
  unfolding upgrade_response_Ok
  using joined_find [OF assms(1), of frames] joined_split [OF assms(1)] assms(2-5) by (simp del: crlf_joined.simps append_assoc)

text \<open>The shortest such reply.\<close>

definition server_reply :: "byte list \<Rightarrow> byte list" where
  "server_reply accept =
     ascii ''HTTP/1.1 101 Switching Protocols'' @ CRLF @ ascii ''Upgrade: websocket'' @ CRLF @ ascii ''Connection: Upgrade'' @ CRLF
       @ (ascii ''Sec-WebSocket-Accept: '' @ accept) @ CRLF @ CRLF"

lemma header_split:
  assumes "58 \<notin> set name" "is_ascii_graphic (hd v)" "is_ascii_graphic (last v)" "v \<noteq> []"
  shows "split_once [58] (name @ 58 # 32 # v) = Some (name, 32 # v)" "trim (32 # v) = v"
  using assms split_once_one trim_graphic trim_space by simp_all

lemma utf8_append_ascii: "list_all (\<lambda>b. b < 128) w \<Longrightarrow> utf8_valid (w @ rest) = utf8_valid rest"
  by (induction w) auto

lemma joined_ascii: "list_all (list_all (\<lambda>b. b < 128)) ls \<Longrightarrow> utf8_valid (crlf_joined ls)"
proof -
  assume "list_all (list_all (\<lambda>b. b < 128)) ls"
  then have "list_all (\<lambda>b. b < 128) (crlf_joined ls)" by (induction ls rule: crlf_joined.induct) (auto simp: list_all_iff)
  then show ?thesis using utf8_append_ascii [of "crlf_joined ls" "[]"] by simp
qed

text \<open>A header as it is usually written.\<close>

definition header_as :: "char list \<Rightarrow> byte list \<Rightarrow> byte list" where
  "header_as name v = ascii name @ 58 # 32 # v"

lemma header_as_parts:
  assumes "58 \<notin> set (ascii name)" "v \<noteq> []" "is_ascii_graphic (hd v)" "is_ascii_graphic (last v)"
  shows "names_header n (header_as name v) \<longleftrightarrow> eq_ignore_case (ascii name) (ascii n)" "header_text (header_as name v) = v"
  using header_split [OF assms(1,3,4,2)] by (simp_all add: names_header_def header_text_def header_as_def)

lemma header_as_line:
  assumes "list_all (\<lambda>b. b < 128 \<and> b \<noteq> 13) (ascii name @ v)"
  shows "cr_free (header_as name v)" "list_all (\<lambda>b. b < 128) (header_as name v)"
  using assms by (auto simp: header_as_def cr_free_def list_all_iff)

lemma graphic_ends: "list_all is_ascii_graphic v \<Longrightarrow> v \<noteq> [] \<Longrightarrow> is_ascii_graphic (hd v) \<and> is_ascii_graphic (last v)"
  by (auto simp: list_all_iff)

lemma graphic_line: "list_all is_ascii_graphic v \<Longrightarrow> list_all (\<lambda>b. b < 128 \<and> b \<noteq> 13) v"
  by (auto simp: list_all_iff is_ascii_graphic_def intro: le_less_trans)

lemmas header_case = ascii_def of_char_def eq_ignore_case_def lower_def is_ascii_graphic_def

lemma header_as_colon: "58 \<in> set (header_as name v)"
  by (simp add: header_as_def)

text \<open>How the names of the headers below compare with those the handshake looks for.\<close>

lemma name_cases:
  "list_all (\<lambda>n. eq_ignore_case (ascii n) (ascii ''upgrade'') \<longleftrightarrow> n \<in> {''Upgrade'', ''UPGRADE''}) [''Upgrade'', ''UPGRADE'', ''Connection'', ''connection'', ''Sec-WebSocket-Accept'', ''SEC-WebSocket-Accept'', ''Server'']"
  "list_all (\<lambda>n. eq_ignore_case (ascii n) (ascii ''connection'') \<longleftrightarrow> n \<in> {''Connection'', ''connection''}) [''Upgrade'', ''UPGRADE'', ''Connection'', ''connection'', ''Sec-WebSocket-Accept'', ''SEC-WebSocket-Accept'', ''Server'']"
  "list_all (\<lambda>n. eq_ignore_case (ascii n) (ascii ''sec-websocket-accept'') \<longleftrightarrow> n \<in> {''Sec-WebSocket-Accept'', ''SEC-WebSocket-Accept''}) [''Upgrade'', ''UPGRADE'', ''Connection'', ''connection'', ''Sec-WebSocket-Accept'', ''SEC-WebSocket-Accept'', ''Server'']"
  "list_all (\<lambda>n. \<not> eq_ignore_case (ascii n) (ascii ''sec-websocket-extensions'')) [''Upgrade'', ''UPGRADE'', ''Connection'', ''connection'', ''Sec-WebSocket-Accept'', ''SEC-WebSocket-Accept'', ''Server'']"
  "list_all (\<lambda>n. \<not> eq_ignore_case (ascii n) (ascii ''sec-websocket-protocol'')) [''Upgrade'', ''UPGRADE'', ''Connection'', ''connection'', ''Sec-WebSocket-Accept'', ''SEC-WebSocket-Accept'', ''Server'']"
  by (simp_all add: ascii_def of_char_def eq_ignore_case_def lower_def)

lemma usual_headers:
  "names_header n (header_as ''Upgrade'' (ascii ''websocket'')) \<longleftrightarrow> eq_ignore_case (ascii ''Upgrade'') (ascii n)"
  "header_text (header_as ''Upgrade'' (ascii ''websocket'')) = ascii ''websocket''"
  "names_header n (header_as ''Connection'' (ascii ''Upgrade'')) \<longleftrightarrow> eq_ignore_case (ascii ''Connection'') (ascii n)"
  "header_text (header_as ''Connection'' (ascii ''Upgrade'')) = ascii ''Upgrade''"
  by (rule header_as_parts; simp add: header_case)+

lemma server_reply_accepted:
  assumes "list_all is_ascii_graphic accept" "accept \<noteq> []" "length accept \<le> 100" "expected_accept h = accept"
  shows "upgrade_response h (server_reply accept @ frames) = Ok (Some (length (server_reply accept)))"
proof -
  let ?s = "ascii ''HTTP/1.1 101 Switching Protocols''"
  let ?ls = "[header_as ''Upgrade'' (ascii ''websocket''), header_as ''Connection'' (ascii ''Upgrade''), header_as ''Sec-WebSocket-Accept'' accept]"
  have r: "server_reply accept = crlf_joined (?s # ?ls) @ CRLF @ CRLF" by (simp add: server_reply_def header_as_def ascii_def of_char_def)
  have "58 \<notin> set (ascii ''Sec-WebSocket-Accept'')" by (simp add: ascii_def of_char_def)
  note a = header_as_parts [OF this assms(2) conjunct1 [OF graphic_ends [OF assms(1,2)]] conjunct2 [OF graphic_ends [OF assms(1,2)]]]
  have "lists_upgrade (ascii ''Upgrade'')"
    using trim_graphic [of "ascii ''Upgrade''"] by (simp add: lists_upgrade_def header_case)
  then have ok: "accepts (expected_accept h) ?ls"
    unfolding accepts_def line_good_def unrequested_def assms(4) using name_cases
    by (simp add: a usual_headers header_as_colon) (simp add: eq_ignore_case_def)
  have lines: "list_all (\<lambda>b. b < 128 \<and> b \<noteq> 13) (ascii ''Sec-WebSocket-Accept'' @ accept)"
    using graphic_line [OF assms(1)] by (simp add: ascii_def of_char_def)
  have free: "list_all cr_free (?s # ?ls)" "list_all (list_all (\<lambda>b. b < 128)) (?s # ?ls)"
    using header_as_line [OF lines] by (simp_all add: cr_free_def header_as_def ascii_def of_char_def)
  have "is_101 ?s" "length (crlf_joined (?s # ?ls)) + 4 \<le> MAX_RESPONSE_HEADERS"
    using assms(3) by (simp_all add: is_101_def header_as_def MAX_RESPONSE_HEADERS_def ascii_def of_char_def)
  from reply_accepted [OF free(1) this(1) ok joined_ascii [OF free(2)] this(2), of frames] show ?thesis by (simp add: r)
qed

lemma handshake_new_exact:
  assumes "length random = 16" "\<forall>bs. length (sha bs) = 20"
  defines "h \<equiv> handshake_new sha random"
  shows "hk_key h = base64_text random" "handshake_key h = base64_text random" "expected_accept h = base64_text (sha (base64_text random @ ACCEPT_GUID))"
proof -
  have "hk_key h = base64_text random" "hk_accept h = base64_text (sha (base64_text random @ ACCEPT_GUID))"
    using assms base64_encode_exact [of "replicate 24 0" random] base64_encode_exact [of "replicate 28 0" "sha (base64_text random @ ACCEPT_GUID)"]
    by (simp_all add: h_def handshake_new_def accept_for_key_def KEY_LEN_def ACCEPT_LEN_def Let_def)
  then show "hk_key h = base64_text random" "handshake_key h = base64_text random"
      "expected_accept h = base64_text (sha (base64_text random @ ACCEPT_GUID))"
    using graphic_utf8 [OF base64_text_exact(3)] by (simp_all add: handshake_key_def expected_accept_def text_or_empty_def)
qed

section \<open>Properties\<close>

text \<open>C38: The upgrade completes.  The key sent encodes the sixteen random bytes.  A reply is taken when its status line is a
  101 and its header lines, in any order and case and with any others between them, have the accept value of that key in every
  \<open>Sec-WebSocket-Accept\<close> and at least one, ask for no extension and no subprotocol, and end with an \<open>Upgrade\<close> that is websocket
  and a \<open>Connection\<close> that lists upgrade; its lines are UTF-8, none has a carriage return or is empty, and it is no longer than
  \<open>MAX_RESPONSE_HEADERS\<close>.  Exactly the reply is counted, whatever frames already follow it.\<close>

theorem upgrade_completes:
  assumes "length random = 16" "\<forall>bs. length (sha bs) = 20"
    and "is_101 status" "accepts (base64_text (sha (handshake_key (handshake_new sha random) @ ACCEPT_GUID))) headers"
    and "list_all cr_free (status # headers)" "utf8_valid (crlf_joined (status # headers))"
    and "length (crlf_joined (status # headers)) + 4 \<le> MAX_RESPONSE_HEADERS"
  shows "base64_decode (handshake_key (handshake_new sha random)) = random
    \<and> upgrade_response (handshake_new sha random) (crlf_joined (status # headers) @ (CRLF @ CRLF) @ frames)
        = Ok (Some (length (crlf_joined (status # headers)) + 4))"
proof -
  note h = handshake_new_exact [OF assms(1,2)]
  have "accepts (expected_accept (handshake_new sha random)) headers" using assms(4) h(2,3) by simp
  from reply_accepted [OF assms(5,3) this assms(6,7)] show ?thesis using base64_text_exact(1) [of random] h(2) by simp
qed

definition demo_headers :: "byte list list" where
  "demo_headers = [header_as ''connection'' (ascii ''keep-alive, UPGRADE''), header_as ''Server'' (ascii ''x''),
     header_as ''SEC-WebSocket-Accept'' (base64_text (replicate 20 7)), header_as ''UPGRADE'' (ascii ''WebSocket'')]"

lemma demo_accept: "list_all is_ascii_graphic (base64_text (replicate 20 7))" "base64_text (replicate 20 7) \<noteq> []" "length (base64_text (replicate 20 7)) = 28"
proof -
  show l: "length (base64_text (replicate 20 7)) = 28" by (simp add: base64_text_exact(2))
  show "base64_text (replicate 20 7) \<noteq> []" using l by (metis list.size(3) zero_neq_numeral)
qed (rule base64_text_exact(3))

lemma demo_headers_parts:
  "names_header n (header_as ''connection'' (ascii ''keep-alive, UPGRADE'')) \<longleftrightarrow> eq_ignore_case (ascii ''connection'') (ascii n)"
  "header_text (header_as ''connection'' (ascii ''keep-alive, UPGRADE'')) = ascii ''keep-alive, UPGRADE''"
  "names_header n (header_as ''Server'' (ascii ''x'')) \<longleftrightarrow> eq_ignore_case (ascii ''Server'') (ascii n)"
  "names_header n (header_as ''UPGRADE'' (ascii ''WebSocket'')) \<longleftrightarrow> eq_ignore_case (ascii ''UPGRADE'') (ascii n)"
  "header_text (header_as ''UPGRADE'' (ascii ''WebSocket'')) = ascii ''WebSocket''"
  "names_header n (header_as ''SEC-WebSocket-Accept'' (base64_text (replicate 20 7))) \<longleftrightarrow> eq_ignore_case (ascii ''SEC-WebSocket-Accept'') (ascii n)"
  "header_text (header_as ''SEC-WebSocket-Accept'' (base64_text (replicate 20 7))) = base64_text (replicate 20 7)"
  using graphic_ends [OF demo_accept(1,2)] demo_accept(2) by - (rule header_as_parts; simp add: header_case)+

lemma demo_headers_ok:
  "accepts (base64_text (replicate 20 7)) demo_headers" "list_all cr_free demo_headers" "list_all (list_all (\<lambda>b. b < 128)) demo_headers"
proof -
  have "trim (ascii '' UPGRADE'') = ascii ''UPGRADE''"
    using trim_space [of "ascii ''UPGRADE''"] trim_graphic [of "ascii ''UPGRADE''"] by (simp add: ascii_def of_char_def is_ascii_graphic_def)
  moreover have "split_on 44 (ascii ''keep-alive, UPGRADE'') = [ascii ''keep-alive'', ascii '' UPGRADE'']" by (simp add: ascii_def of_char_def)
  ultimately have "lists_upgrade (ascii ''keep-alive, UPGRADE'')" by (simp add: lists_upgrade_def eq_ignore_case_def ascii_def of_char_def lower_def)
  then show "accepts (base64_text (replicate 20 7)) demo_headers"
    unfolding accepts_def line_good_def unrequested_def demo_headers_def using name_cases
    by (simp add: demo_headers_parts header_as_colon) (simp add: eq_ignore_case_def ascii_def of_char_def lower_def)
  have "list_all (\<lambda>b. b < 128 \<and> b \<noteq> 13) (ascii ''SEC-WebSocket-Accept'' @ base64_text (replicate 20 7))"
    using graphic_line [OF demo_accept(1)] by (simp add: ascii_def of_char_def)
  from header_as_line [OF this] show "list_all cr_free demo_headers" "list_all (list_all (\<lambda>b. b < 128)) demo_headers"
    by (simp_all add: demo_headers_def) (simp_all add: cr_free_def header_as_def ascii_def of_char_def)
qed

lemma demo_reply_line: "is_101 (ascii ''HTTP/1.1 101 OK'')" "cr_free (ascii ''HTTP/1.1 101 OK'')" "list_all (\<lambda>b. b < 128) (ascii ''HTTP/1.1 101 OK'')"
  by (simp_all add: is_101_def cr_free_def ascii_def of_char_def)

lemma demo_reply_length: "length (crlf_joined (ascii ''HTTP/1.1 101 OK'' # demo_headers)) = 131"
  using demo_accept(3) by (simp add: demo_headers_def header_as_def ascii_def)

theorem upgrade_completes_witness:
  "base64_decode (handshake_key (handshake_new (\<lambda>_. replicate 20 7) (replicate 16 3))) = replicate 16 3
   \<and> upgrade_response (handshake_new (\<lambda>_. replicate 20 7) (replicate 16 3)) (crlf_joined (ascii ''HTTP/1.1 101 OK'' # demo_headers) @ (CRLF @ CRLF) @ [0x81, 2, 104])
       = Ok (Some 135)"
  using upgrade_completes [of "replicate 16 3" "\<lambda>_. replicate 20 7" "ascii ''HTTP/1.1 101 OK''" demo_headers "[0x81, 2, 104]"]
    demo_headers_ok demo_reply_line demo_reply_length joined_ascii [of "ascii ''HTTP/1.1 101 OK'' # demo_headers"]
  by (simp add: MAX_RESPONSE_HEADERS_def del: crlf_joined.simps)

text \<open>C39: A reply is only taken when it has the status 101, the accept value of this attempt's key in every accept header and at least
  one, a last \<open>Upgrade\<close> header that is websocket, a last \<open>Connection\<close> header that lists upgrade, no extension or
  subprotocol and no line without a colon; the verdict is the same however much of what follows the head has arrived, and every
  part of the head that stops short of its end asks for more.\<close>

theorem upgrade_accepted_only:
  assumes "upgrade_response h buf = Ok (Some n)"
  shows "n \<le> MAX_RESPONSE_HEADERS \<and> n \<le> length buf
    \<and> (let lines = split_by CRLF (take (n - 4) buf)
       in is_101 (hd lines)
        \<and> (\<exists>l \<in> set (tl lines). names_header ''sec-websocket-accept'' l)
        \<and> (\<forall>l \<in> set (tl lines). names_header ''sec-websocket-accept'' l \<longrightarrow> header_text l = expected_accept h)
        \<and> (\<exists>v. last_header ''upgrade'' (tl lines) = Some v \<and> eq_ignore_case v (ascii ''websocket''))
        \<and> (\<exists>v. last_header ''connection'' (tl lines) = Some v \<and> lists_upgrade v)
        \<and> list_all (\<lambda>l. 58 \<in> set l \<and> \<not> unrequested l) (tl lines))
    \<and> (\<forall>frames. upgrade_response h (take n buf @ frames) = Ok (Some n))
    \<and> (\<forall>k < n. upgrade_response h (take k buf) = Ok None)"
proof -
  obtain e where e: "find_sub (CRLF @ CRLF) buf = Some e" "n = e + 4" "n \<le> MAX_RESPONSE_HEADERS" "utf8_valid (take e buf)"
      and u: "is_101 (hd (split_by CRLF (take e buf)))" "accepts (expected_accept h) (tl (split_by CRLF (take e buf)))"
    using assms by (auto simp: upgrade_response_Ok)
  have p4: "e + length (CRLF @ CRLF) = n" using e(2) by simp
  note fits = find_sub_fits [OF e(1), unfolded p4]
  have 1: "upgrade_response h (take n buf @ frames) = Ok (Some n)" for frames
    using find_sub_take(1) [OF e(1), of frames, unfolded p4] e(2-4) u fits by (simp add: upgrade_response_Ok)
  have 2: "upgrade_response h (take k buf) = Ok None" if "k < n" for k
    using find_sub_take(2) [OF e(1), of k, unfolded p4] that e(3) by (simp add: upgrade_response_def)
  show ?thesis using 1 2 e(2,3) fits u
    by (auto simp: Let_def accepts_def line_good_def list_all_iff list_ex_iff split: option.splits)
qed

theorem upgrade_accepted_only_witness:
  "upgrade_response \<lparr>hk_key = [65], hk_accept = [66]\<rparr> (server_reply [66]) = Ok (Some (length (server_reply [66])))
   \<and> (\<exists>v. last_header ''connection'' (tl (split_by CRLF (take (length (server_reply [66]) - 4) (server_reply [66])))) = Some v \<and> lists_upgrade v)
   \<and> upgrade_response \<lparr>hk_key = [65], hk_accept = [66]\<rparr> (take 3 (server_reply [66])) = Ok None"
proof -
  have "is_ascii_graphic 66" "expected_accept \<lparr>hk_key = [65], hk_accept = [66]\<rparr> = [66]" "3 < length (server_reply [66])"
    by (simp_all add: is_ascii_graphic_def expected_accept_def text_or_empty_def server_reply_def ascii_def)
  then show ?thesis
    using server_reply_accepted [of "[66]" "\<lparr>hk_key = [65], hk_accept = [66]\<rparr>" "[]"]
      upgrade_accepted_only [of "\<lparr>hk_key = [65], hk_accept = [66]\<rparr>" "server_reply [66]" "length (server_reply [66])"] by (simp add: Let_def)
qed

end
