(* ===== verification/Net_Client.thy ===== *)
theory Net_Client
  imports Ws_Handshake Ws_Reader
begin

text \<open>
  \<open>crates/bowst-venue/src/ws/client.rs\<close> and \<open>get\<close> of \<open>crates/bowst-venue/src/net/http.rs\<close>: the two clients over a stream.

  A socket is the list of what it still brings: bytes, of which a read takes as many as it has room for, and conditions.
  With nothing left to bring, a read would block.  What opening the stream, the random source and writing bring are
  parameters.
\<close>

section \<open>The socket\<close>

datatype io_read = Got "byte list" | Interrupted | WouldBlock | TimedOut | UnexpectedEof | ReadFailed

fun read_socket :: "nat \<Rightarrow> io_read list \<Rightarrow> io_read \<times> io_read list" where
  "read_socket room [] = (WouldBlock, [])"
| "read_socket room (Got bs # s) = (Got (take room bs), if length bs \<le> room then s else Got (drop room bs) # s)"
| "read_socket room (e # s) = (e, s)"

fun bytes_of :: "io_read \<Rightarrow> byte list" where
  "bytes_of (Got bs) = bs"
| "bytes_of _ = []"

abbreviation socket_bytes :: "io_read list \<Rightarrow> byte list" where
  "socket_bytes s \<equiv> concat (map bytes_of s)"

abbreviation socket_size :: "io_read list \<Rightarrow> nat" where
  "socket_size s \<equiv> sum_list (map (\<lambda>e. Suc (length (bytes_of e))) s)"

lemma read_takes: "read_socket room s = (e, s') \<Longrightarrow> socket_bytes s = bytes_of e @ socket_bytes s' \<and> length (bytes_of e) \<le> room"
  by (cases "(room, s)" rule: read_socket.cases) auto

lemma read_shrinks: "read_socket room s = (e, s') \<Longrightarrow> s' = [] \<and> s = [] \<and> e = WouldBlock \<or> e = Got [] \<or> socket_size s' < socket_size s"
  by (cases "(room, s)" rule: read_socket.cases) (auto split: if_splits)

section \<open>Connecting\<close>

definition MAX_SEND_PAYLOAD :: nat where "MAX_SEND_PAYLOAD = 4096"
definition SEND_DEADLINE :: nanos where "SEND_DEADLINE = 1000000000"

record ws_client =
  wc_reader :: ws_reader
  wc_out :: "byte list"

text \<open>The reads until the head of the reply is there, with all that came with it.\<close>

function await_upgrade :: "handshake \<Rightarrow> byte list \<Rightarrow> io_read list \<Rightarrow> (nat \<times> byte list, net_error) result \<times> io_read list" where
  "await_upgrade h response s =
     (case read_socket 1024 s of
        (Got chunk, s1) \<Rightarrow>
          if chunk = [] then (Err NetClosed, s1)
          else
            (case upgrade_response h (response @ chunk) of
               Err e \<Rightarrow> (Err (WebSocketErr e), s1)
             | Ok (Some n) \<Rightarrow> (Ok (n, response @ chunk), s1)
             | Ok None \<Rightarrow> await_upgrade h (response @ chunk) s1)
      | (Interrupted, s1) \<Rightarrow> await_upgrade h response s1
      | (WouldBlock, s1) \<Rightarrow> (Err (NetTimeout ''WebSocket handshake''), s1)
      | (TimedOut, s1) \<Rightarrow> (Err (NetTimeout ''WebSocket handshake''), s1)
      | (_, s1) \<Rightarrow> (Err (NetIo ''read upgrade response''), s1))"
  by auto
termination
  by (relation "measure (\<lambda>(h, response, s). socket_size s)") (auto dest: read_shrinks [OF sym])

declare await_upgrade.simps [simp del]

text \<open>What came after the head is copied into the free space of the reader, as far as it fits.\<close>

definition keep_leftover :: "byte list \<Rightarrow> ws_reader \<Rightarrow> ws_reader" where
  "keep_leftover leftover r =
     (let r1 = spare r; n = min (length leftover) (spare_space r1)
      in commit n (r1\<lparr>wr_buf := write_at (wr_end r1) (take n leftover) (wr_buf r1)\<rparr>))"

definition client_connect ::
  "(byte list \<Rightarrow> byte list) \<Rightarrow> url \<Rightarrow> reader_config \<Rightarrow> (unit, net_error) result \<Rightarrow> (byte list, net_error) result \<Rightarrow> (byte list \<Rightarrow> bool)
     \<Rightarrow> (unit, net_error) result \<Rightarrow> io_read list \<Rightarrow> (ws_client, net_error) result \<times> io_read list" where
  "client_connect sha u config opened random write_all nonblocking s =
     (case opened of
        Err e \<Rightarrow> (Err e, s)
      | Ok _ \<Rightarrow>
          (case random of
             Err e \<Rightarrow> (Err e, s)
           | Ok k \<Rightarrow>
               let h = handshake_new sha k in
               if \<not> write_all (write_request h (host_header u) (ur_path u)) then (Err (NetIo ''send upgrade request''), s)
               else
                 (case await_upgrade h [] s of
                    (Err e, s1) \<Rightarrow> (Err e, s1)
                  | (Ok (header_len, response), s1) \<Rightarrow>
                      (case ws_reader_new config of
                         Err e \<Rightarrow> (Err (WebSocketErr e), s1)
                       | Ok r \<Rightarrow>
                           let r1 = keep_leftover (drop header_len response) r in
                           (case nonblocking of
                              Err e \<Rightarrow> (Err e, s1)
                            | Ok _ \<Rightarrow> (Ok \<lparr>wc_reader = r1, wc_out = replicate (MAX_SEND_PAYLOAD + MAX_CLIENT_HEADER) 0\<rparr>, s1))))))"

section \<open>Receiving\<close>

definition client_fill :: "ws_client \<Rightarrow> io_read list \<Rightarrow> (nat, net_error) result \<times> ws_client \<times> io_read list" where
  "client_fill c s =
     (let r = spare (wc_reader c); c1 = c\<lparr>wc_reader := r\<rparr> in
      if spare_space r = 0 then (Ok 0, c1, s)
      else
        (case read_socket (spare_space r) s of
           (Got bs, s1) \<Rightarrow>
             if bs = [] then (Err NetClosed, c1, s1)
             else (Ok (length bs), c\<lparr>wc_reader := commit (length bs) (r\<lparr>wr_buf := write_at (wr_end r) bs (wr_buf r)\<rparr>)\<rparr>, s1)
         | (WouldBlock, s1) \<Rightarrow> (Ok 0, c1, s1)
         | (Interrupted, s1) \<Rightarrow> (Ok 0, c1, s1)
         | (_, s1) \<Rightarrow> (Err (NetIo ''read WebSocket''), c1, s1)))"

definition client_next_event :: "ws_client \<Rightarrow> (ws_event option, net_error) result \<times> ws_client" where
  "client_next_event c = (let (res, r) = next_event (wc_reader c) in (map_err WebSocketErr res, c\<lparr>wc_reader := r\<rparr>))"

section \<open>Sending\<close>

text \<open>What a write takes, or that it would block or was interrupted with the time spent so far; likewise a flush.  A loop whose
  outcome is \<open>None\<close> is still trying.\<close>

datatype io_write = Took nat | WriteWaits nanos | WriteFailed

fun write_loop :: "byte list \<Rightarrow> io_write list \<Rightarrow> (unit, net_error) result option \<times> byte list" where
  "write_loop [] ws = (Some (Ok ()), [])"
| "write_loop (b # bs) [] = (None, [])"
| "write_loop (b # bs) (Took n # ws) =
     (if n = 0 then (Some (Err NetClosed), [])
      else let (res, written) = write_loop (drop n (b # bs)) ws in (res, take n (b # bs) @ written))"
| "write_loop (b # bs) (WriteWaits elapsed # ws) =
     (if elapsed \<ge> SEND_DEADLINE then (Some (Err (NetTimeout ''sending WebSocket frame'')), []) else write_loop (b # bs) ws)"
| "write_loop (b # bs) (WriteFailed # ws) = (Some (Err (NetIo ''write WebSocket'')), [])"

datatype io_flush = Flushed | FlushWaits nanos | FlushFailed

fun flush_loop :: "io_flush list \<Rightarrow> (unit, net_error) result option" where
  "flush_loop [] = None"
| "flush_loop (Flushed # fs) = Some (Ok ())"
| "flush_loop (FlushWaits elapsed # fs) =
     (if elapsed \<ge> SEND_DEADLINE then Some (Err (NetTimeout ''flushing WebSocket frame'')) else flush_loop fs)"
| "flush_loop (FlushFailed # fs) = Some (Err (NetIo ''flush WebSocket''))"

definition client_send ::
  "opcode \<Rightarrow> byte list \<Rightarrow> (byte list, net_error) result \<Rightarrow> io_write list \<Rightarrow> io_flush list \<Rightarrow> ws_client
     \<Rightarrow> (unit, net_error) result option \<times> byte list \<times> ws_client" where
  "client_send oc payload random ws fs c =
     (if length payload > MAX_SEND_PAYLOAD \<or> is_control oc \<and> length payload > MAX_CONTROL_PAYLOAD
      then (Some (Err (WebSocketErr BufferTooSmall)), [], c)
      else
        (case random of
           Err e \<Rightarrow> (Some (Err e), [], c)
         | Ok k \<Rightarrow>
             (case encode_client_frame oc payload k (wc_out c) of
                (Err e, out) \<Rightarrow> (Some (Err (WebSocketErr e)), [], c\<lparr>wc_out := out\<rparr>)
              | (Ok n, out) \<Rightarrow>
                  (case write_loop (take n out) ws of
                     (Some (Ok _), written) \<Rightarrow> (flush_loop fs, written, c\<lparr>wc_out := out\<rparr>)
                   | (res, written) \<Rightarrow> (res, written, c\<lparr>wc_out := out\<rparr>)))))"

text \<open>The close frame carries the code 1000 in two bytes; whether it could be sent does not matter.\<close>

definition client_close :: "(byte list, net_error) result \<Rightarrow> io_write list \<Rightarrow> io_flush list \<Rightarrow> ws_client \<Rightarrow> byte list \<times> ws_client" where
  "client_close random ws fs c = snd (client_send Close [3, 232] random ws fs c)"

section \<open>A GET request\<close>

definition get_request :: "url \<Rightarrow> byte list" where
  "get_request u =
     ascii ''GET '' @ ur_path u @ ascii '' HTTP/1.1'' @ CRLF @ ascii ''Host: '' @ host_header u @ CRLF @ ascii ''User-Agent: bowst'' @ CRLF
       @ ascii ''Accept: application/json'' @ CRLF @ ascii ''Connection: close'' @ CRLF @ CRLF"

function read_response :: "nat \<Rightarrow> byte list \<Rightarrow> io_read list \<Rightarrow> (byte list, net_error) result \<times> io_read list" where
  "read_response max_body raw s =
     (case read_socket (16 * 1024) s of
        (Got chunk, s1) \<Rightarrow>
          if chunk = [] then (Ok raw, s1)
          else if sat_u64 (length raw + length chunk) > sat_u64 (max_body + MAX_HEADERS) then (Err (HttpErr (TooLarge max_body)), s1)
          else read_response max_body (raw @ chunk) s1
      | (Interrupted, s1) \<Rightarrow> read_response max_body raw s1
      | (WouldBlock, s1) \<Rightarrow> (Err (NetTimeout ''reading HTTP response''), s1)
      | (TimedOut, s1) \<Rightarrow> (Err (NetTimeout ''reading HTTP response''), s1)
      | (UnexpectedEof, s1) \<Rightarrow> (Ok raw, s1)
      | (ReadFailed, s1) \<Rightarrow> (Err (NetIo ''read HTTP response''), s1))"
  by auto
termination
  by (relation "measure (\<lambda>(max_body, raw, s). socket_size s)") (auto dest: read_shrinks [OF sym])

declare read_response.simps [simp del]

definition http_get ::
  "url \<Rightarrow> nat \<Rightarrow> (unit, net_error) result \<Rightarrow> (byte list \<Rightarrow> bool) \<Rightarrow> bool \<Rightarrow> io_read list \<Rightarrow> (http_response \<times> byte list, net_error) result" where
  "http_get u max_body opened write_all flushed s =
     (case opened of
        Err e \<Rightarrow> Err e
      | Ok _ \<Rightarrow>
          if \<not> write_all (get_request u) then Err (NetIo ''send HTTP request'')
          else if \<not> flushed then Err (NetIo ''send HTTP request'')
          else
            (case read_response max_body [] s of
               (Err e, _) \<Rightarrow> Err e
             | (Ok raw, _) \<Rightarrow>
                 (case parse_response raw max_body of
                    (Err e, _) \<Rightarrow> Err (HttpErr e)
                  | (Ok resp, body) \<Rightarrow> Ok (resp, body))))"

section \<open>No byte is lost\<close>

lemma leftover_arrives: "keep_leftover bs r = snd (arrive bs r)"
  by (simp add: keep_leftover_def arrive_def Let_def min_def)

lemma fill_arrives:
  assumes "client_fill c s = (res, c', s')" "reader_ok (wc_reader c)"
  shows "\<exists>got. socket_bytes s = got @ socket_bytes s' \<and> received (wc_reader c') = received (wc_reader c) @ got
    \<and> reader_ok (wc_reader c') \<and> assembly_of (wc_reader c') = assembly_of (wc_reader c) \<and> wr_config (wc_reader c') = wr_config (wc_reader c)"
proof -
  let ?r = "spare (wc_reader c)"
  obtain e s1 where e: "read_socket (spare_space ?r) s = (e, s1)" by (cases "read_socket (spare_space ?r) s")
  note t = read_takes [OF e] and k = spare_keeps [OF assms(2)]
  have a: "arrive (bytes_of e) (wc_reader c) = (bytes_of e, commit (length (bytes_of e)) (?r\<lparr>wr_buf := write_at (wr_end ?r) (bytes_of e) (wr_buf ?r)\<rparr>))"
    using t by (simp add: arrive_def Let_def)
  note n = arrive_appends [OF assms(2) a]
  show ?thesis
  proof (cases "spare_space ?r = 0 \<or> bytes_of e = []")
    case True
    then have "s' = s \<or> socket_bytes s = socket_bytes s'" "wc_reader c' = ?r"
      using assms(1) e t by (auto simp: client_fill_def Let_def split: io_read.splits if_splits)
    then show ?thesis using k by (intro exI [of _ "[]"]) auto
  next
    case False
    then obtain b where b: "e = Got b" "b \<noteq> []" by (cases e) auto
    then have "s' = s1" "wc_reader c' = commit (length b) (?r\<lparr>wr_buf := write_at (wr_end ?r) b (wr_buf ?r)\<rparr>)"
      using assms(1) e False by (auto simp: client_fill_def Let_def)
    then show ?thesis using n t b by (intro exI [of _ b]) auto
  qed
qed

lemma upgrade_in_chunk:
  assumes "upgrade_response h response = Ok None" "upgrade_response h (response @ chunk) = Ok (Some n)"
  shows "length response < n" "n \<le> length (response @ chunk)"
proof -
  obtain e where e: "find_sub (CRLF @ CRLF) (response @ chunk) = Some e" "n = e + length (CRLF @ CRLF)"
    using assms(2) upgrade_head_len by (fastforce simp: upgrade_response_def split: option.splits if_splits)
  have "find_sub (CRLF @ CRLF) response = None"
    using assms(1) by (auto simp: upgrade_response_def upgrade_head_def Let_def result_simps split: option.splits if_splits)
  then show "length response < n" using find_sub_prefix [OF e(1)] e(2) by force
  show "n \<le> length (response @ chunk)" using find_sub_fits [OF e(1)] e(2) by simp
qed

lemma await_upgrade_reads:
  assumes "await_upgrade h response s = (Ok (n, all), s')" "upgrade_response h response = Ok None"
  shows "response @ socket_bytes s = all @ socket_bytes s' \<and> upgrade_response h all = Ok (Some n) \<and> n \<le> length all \<and> length all < n + 1024"
  using assms
proof (induction h response s rule: await_upgrade.induct)
  case (1 h response s)
  obtain e s1 where e: "read_socket 1024 s = (e, s1)" by (cases "read_socket 1024 s")
  note t = read_takes [OF e]
  show ?case
  proof (cases e)
    case (Got chunk)
    then have c: "chunk \<noteq> []" using 1(3) e by (subst (asm) await_upgrade.simps) auto
    show ?thesis
    proof (cases "upgrade_response h (response @ chunk)")
      case (Ok found)
      show ?thesis
      proof (cases found)
        case None
        then have "await_upgrade h (response @ chunk) s1 = (Ok (n, all), s')" using 1(3) e Got c Ok by (subst (asm) await_upgrade.simps) simp
        then show ?thesis using 1(1) [OF e [symmetric] Got c Ok None] Ok None t Got by simp
      next
        case (Some m)
        then have "m = n" "all = response @ chunk" "s' = s1" using 1(3) e Got c Ok by (auto simp: await_upgrade.simps [of h response])
        then show ?thesis using upgrade_in_chunk [OF 1(4)] Ok Some t Got by fastforce
      qed
    qed (use 1(3) e Got c in \<open>simp add: await_upgrade.simps [of h response]\<close>)
  next
    case Interrupted
    then have "await_upgrade h response s1 = (Ok (n, all), s')" using 1(3) e by (subst (asm) await_upgrade.simps) simp
    then show ?thesis using 1(2) [OF e [symmetric] Interrupted] 1(4) t Interrupted by simp
  qed (use 1(3) e in \<open>simp_all add: await_upgrade.simps [of h response]\<close>)
qed

text \<open>The caller's use of a client: reads and polls in any order, until an error.\<close>

datatype client_op = Fill | PollEvent

fun client_run :: "client_op list \<Rightarrow> ws_client \<Rightarrow> io_read list \<Rightarrow> ws_event list \<times> net_error option \<times> ws_client \<times> io_read list" where
  "client_run [] c s = ([], None, c, s)"
| "client_run (Fill # ops) c s =
     (case client_fill c s of
        (Err e, c1, s1) \<Rightarrow> ([], Some e, c1, s1)
      | (Ok _, c1, s1) \<Rightarrow> client_run ops c1 s1)"
| "client_run (PollEvent # ops) c s =
     (case client_next_event c of
        (Err e, c1) \<Rightarrow> ([], Some e, c1, s)
      | (Ok ev, c1) \<Rightarrow> (let (evs, err, c2, s1) = client_run ops c1 s in ((case ev of None \<Rightarrow> [] | Some e \<Rightarrow> [e]) @ evs, err, c2, s1)))"

text \<open>The events of the bytes taken so far: those delivered, then those of what is still in the reader.\<close>

definition delivered :: "reader_config \<Rightarrow> byte list \<Rightarrow> assembly \<Rightarrow> ws_event list \<Rightarrow> net_error option \<Rightarrow> ws_client \<Rightarrow> bool" where
  "delivered cfg bs asm evs err c \<longleftrightarrow>
     (\<exists>e. err = Some (WebSocketErr e) \<and> stream_events cfg bs asm = (evs, Some e))
     \<or> (let (more, end) = stream_events cfg (received (wc_reader c)) (assembly_of (wc_reader c)) in stream_events cfg bs asm = (evs @ more, end))"

lemma client_run_delivers:
  assumes "client_run ops c s = (evs, err, c', s')" "reader_ok (wc_reader c)"
  shows "\<exists>fed. socket_bytes s = fed @ socket_bytes s'
    \<and> delivered (wr_config (wc_reader c)) (received (wc_reader c) @ fed) (assembly_of (wc_reader c)) evs err c'"
  using assms
proof (induction ops c s arbitrary: evs rule: client_run.induct)
  case (1 c s)
  then show ?case by (intro exI [of _ "[]"]) (auto simp: delivered_def)
next
  case (2 ops c s)
  obtain res c1 s1 where f: "client_fill c s = (res, c1, s1)" by (cases "client_fill c s") auto
  obtain got where g: "socket_bytes s = got @ socket_bytes s1" "received (wc_reader c1) = received (wc_reader c) @ got" "reader_ok (wc_reader c1)"
    "assembly_of (wc_reader c1) = assembly_of (wc_reader c)" "wr_config (wc_reader c1) = wr_config (wc_reader c)"
    using fill_arrives [OF f 2(3)] by blast
  show ?case
  proof (cases res)
    case (Err e)
    then have "evs = []" "c' = c1" "s' = s1" using 2(2) f by auto
    then show ?thesis using g by (intro exI [of _ got]) (auto simp: delivered_def)
  next
    case (Ok n)
    then have "client_run ops c1 s1 = (evs, err, c', s')" using 2(2) f by simp
    from 2(1) [OF f [symmetric] Ok refl this g(3)] obtain fed where
      "socket_bytes s1 = fed @ socket_bytes s'" "delivered (wr_config (wc_reader c)) ((received (wc_reader c) @ got) @ fed) (assembly_of (wc_reader c)) evs err c'"
      using g by auto
    then show ?thesis using g(1) by (intro exI [of _ "got @ fed"]) simp
  qed
next
  case (3 ops c s)
  obtain res r where p: "next_event (wc_reader c) = (res, r)" by (cases "next_event (wc_reader c)")
  let ?c1 = "c\<lparr>wc_reader := r\<rparr>"
  have spec: "reader_ok r" "wr_config r = wr_config (wc_reader c)"
    "stream_events (wr_config (wc_reader c)) (received (wc_reader c) @ x) (assembly_of (wc_reader c)) =
      (case res of Err e \<Rightarrow> ([], Some e) | Ok ev \<Rightarrow> add_event ev (stream_events (wr_config (wc_reader c)) (received r @ x) (assembly_of r)))" for x
    using next_event_spec [OF 3(3) p] by (auto simp: poll_spec_def)
  show ?case
  proof (cases res)
    case (Err e)
    then have "evs = []" "err = Some (WebSocketErr e)" "s' = s" using 3(2) p by (auto simp: client_next_event_def)
    then show ?thesis using spec(3) [of "[]"] Err by (intro exI [of _ "[]"]) (auto simp: delivered_def)
  next
    case (Ok ev)
    have n: "client_next_event c = (Ok ev, ?c1)" using p Ok by (simp add: client_next_event_def)
    obtain evs1 where e1: "client_run ops ?c1 s = (evs1, err, c', s')" "evs = (case ev of None \<Rightarrow> [] | Some e \<Rightarrow> [e]) @ evs1"
      using 3(2) n by (auto split: prod.splits)
    from 3(1) [OF n [symmetric] refl e1(1)] obtain fed where d: "socket_bytes s = fed @ socket_bytes s'"
      "delivered (wr_config (wc_reader c)) (received r @ fed) (assembly_of r) evs1 err c'" using spec(1,2) by auto
    have "delivered (wr_config (wc_reader c)) (received (wc_reader c) @ fed) (assembly_of (wc_reader c)) evs err c'"
      using d(2) spec(3) [of fed] Ok e1(2) by (cases ev) (auto simp: delivered_def add_event_def split: prod.splits)
    then show ?thesis using d(1) by blast
  qed
qed

section \<open>What is sent\<close>

text \<open>What the socket took is the start of what was to be written, and all of it when the loop succeeds.\<close>

lemma write_loop_takes:
  "write_loop bs ws = (res, written) \<Longrightarrow> (\<exists>rest. bs = written @ rest) \<and> (res = Some (Ok ()) \<longrightarrow> written = bs)"
proof (induction bs ws arbitrary: res written rule: write_loop.induct)
  case (3 b bs n ws)
  show ?case
  proof (cases "n = 0")
    case False
    obtain r w where w: "write_loop (drop n (b # bs)) ws = (r, w)" by (cases "write_loop (drop n (b # bs)) ws")
    note ih = 3(1) [OF False w]
    have "written = take n (b # bs) @ w" "res = r" using 3(2) False w by simp_all
    then show ?thesis using ih append_take_drop_id [of n "b # bs"] by (metis append.assoc)
  qed (use 3(2) in auto)
qed (auto split: if_splits)

text \<open>Whatever becomes of a send, the socket took a part of one whole frame from its start, and all of it when the send succeeds; the
  server then reads the opcode and the payload.  A frame over the limits is refused with nothing written.\<close>

lemma send_is_whole:
  assumes "client_send oc payload (Ok k) ws fs c = (res, written, c')" "length k = 4" "length (wc_out c) = MAX_SEND_PAYLOAD + MAX_CLIENT_HEADER"
  shows "length (wc_out c') = length (wc_out c)"
    "if length payload > MAX_SEND_PAYLOAD \<or> is_control oc \<and> length payload > MAX_CONTROL_PAYLOAD
     then res = Some (Err (WebSocketErr BufferTooSmall)) \<and> written = []
     else \<exists>rest. receive_client (written @ rest) = Some (oc, payload) \<and> (res = Some (Ok ()) \<longrightarrow> rest = [])"
proof -
  let ?big = "length payload > MAX_SEND_PAYLOAD \<or> is_control oc \<and> length payload > MAX_CONTROL_PAYLOAD" and ?f = "client_frame oc payload k"
  have "length (wc_out c') = length (wc_out c) \<and> (if ?big then res = Some (Err (WebSocketErr BufferTooSmall)) \<and> written = []
     else \<exists>rest. receive_client (written @ rest) = Some (oc, payload) \<and> (res = Some (Ok ()) \<longrightarrow> rest = []))"
  proof (cases ?big)
    case True
    then show ?thesis using assms(1) by (auto simp: client_send_def)
  next
    case False
    have fits: "length ?f \<le> length (wc_out c)" using client_frame_length [OF assms(2), of oc payload] assms(3) False by simp
    have "length (wc_out c) < 2 ^ 64" using assms(3) by (simp add: MAX_SEND_PAYLOAD_def MAX_CLIENT_HEADER_def)
    then have e: "encode_client_frame oc payload k (wc_out c) = (Ok (length ?f), write_at 0 ?f (wc_out c))"
      using encode_client_frame_result [of "wc_out c" oc payload k] False fits by auto
    obtain sent w where w: "write_loop ?f ws = (sent, w)" by (cases "write_loop ?f ws")
    have t: "take (length ?f) (write_at 0 ?f (wc_out c)) = ?f" by (simp add: write_at_def)
    have o: "written = w" "length (wc_out c') = length (wc_out c)" "res = Some (Ok ()) \<Longrightarrow> sent = Some (Ok ())"
      using assms(1) False e w t fits by (auto simp: client_send_def write_at_def split: option.splits result.splits)
    obtain rest where "?f = w @ rest" "sent = Some (Ok ()) \<longrightarrow> w = ?f" using write_loop_takes [OF w] by blast
    moreover have "receive_client ?f = Some (oc, payload)"
      using False by (intro receive_client_frame [OF assms(2)]) (auto simp: MAX_CONTROL_PAYLOAD_def MAX_SEND_PAYLOAD_def)
    ultimately show ?thesis using o False by (auto intro!: exI [of _ rest])
  qed
  then show "length (wc_out c') = length (wc_out c)"
    "if ?big then res = Some (Err (WebSocketErr BufferTooSmall)) \<and> written = []
     else \<exists>rest. receive_client (written @ rest) = Some (oc, payload) \<and> (res = Some (Ok ()) \<longrightarrow> rest = [])" by auto
qed

section \<open>A response is read whole\<close>

definition steady :: "io_read \<Rightarrow> bool" where
  "steady e \<longleftrightarrow> e = Interrupted \<or> (\<exists>b. e = Got b \<and> b \<noteq> [])"

text \<open>However the response is cut into reads, it is parsed as a whole once the server has closed.\<close>

lemma response_read_whole:
  assumes "list_all steady s" "fin \<in> {Got [], UnexpectedEof}" "length raw + length (socket_bytes s) \<le> max_body + MAX_HEADERS" "max_body + MAX_HEADERS < 2 ^ 64"
  shows "fst (read_response max_body raw (s @ fin # rest)) = Ok (raw @ socket_bytes s)"
  using assms
proof (induction "socket_size s" arbitrary: raw s rule: less_induct)
  case less
  note step = read_response.simps [of max_body raw]
  show ?case
  proof (cases s)
    case Nil
    then show ?thesis using less.prems(2) by (auto simp: step)
  next
    case (Cons e s1)
    show ?thesis
    proof (cases "e = Interrupted")
      case True
      then show ?thesis using less.hyps [of s1 raw] less.prems Cons by (simp add: step)
    next
      case False
      then obtain b where b: "e = Got b" "b \<noteq> []" using less.prems(1) Cons by (auto simp: steady_def)
      let ?k = "16 * 1024 :: nat"
      let ?s1 = "if length b \<le> ?k then s1 else Got (drop ?k b) # s1"
      have smaller: "socket_size ?s1 < socket_size s" "list_all steady ?s1" "take ?k b @ socket_bytes ?s1 = socket_bytes s" "take ?k b \<noteq> []"
        using b Cons less.prems(1) by (auto simp: steady_def)
      have len: "length raw + length (take ?k b) + length (socket_bytes ?s1) = length raw + length (socket_bytes s)"
        using arg_cong [OF smaller(3), of length] by (simp only: length_append add.assoc)
      have small: "\<not> sat_u64 (length raw + length (take ?k b)) > sat_u64 (max_body + MAX_HEADERS)"
        using less.prems(3,4) len by (simp add: sat_u64_def u64_max_def)
      have "read_response max_body raw (s @ fin # rest) = read_response max_body (raw @ take ?k b) (?s1 @ fin # rest)"
        using smaller(4) small b Cons by (subst step) simp
      then show ?thesis using less.hyps [OF smaller(1) smaller(2), of "raw @ take ?k b"] less.prems len smaller(3) by simp
    qed
  qed
qed

lemma get_parses_whole:
  assumes "list_all steady s" "fin \<in> {Got [], UnexpectedEof}" "length (socket_bytes s) \<le> max_body + MAX_HEADERS" "max_body + MAX_HEADERS < 2 ^ 64"
    "write_all (get_request u)"
  shows "http_get u max_body (Ok ()) write_all True (s @ fin # rest) =
    (case parse_response (socket_bytes s) max_body of (Err e, _) \<Rightarrow> Err (HttpErr e) | (Ok resp, body) \<Rightarrow> Ok (resp, body))"
  using response_read_whole [OF assms(1,2), of "[]" max_body rest] assms(3-5)
  by (cases "read_response max_body [] (s @ fin # rest)") (simp add: http_get_def)

section \<open>Properties\<close>

text \<open>C32: With a receive buffer of at least 1024 bytes, no byte is lost, repeated or reordered between the upgrade and the caller.  What follows the head of the server's reply,
  in the read that completed it or in any later one, and however reads and polls alternate, is handed out as the events of those
  bytes in order; an error of the protocol is reported after the events before it, and what is not handed out yet is still
  in the reader or in the socket.\<close>

theorem client_loses_nothing:
  assumes "client_connect sha u cfg opened (Ok k) write_all nonblocking s = (Ok c, s1)" "1024 \<le> rc_buffer cfg" "rc_buffer cfg < 2 ^ 63"
    "client_run ops c s1 = (evs, err, c', s2)"
  shows "\<exists>n j fed. upgrade_response (handshake_new sha k) (take j (socket_bytes s)) = Ok (Some n) \<and> n \<le> j
    \<and> drop n (socket_bytes s) = fed @ socket_bytes s2 \<and> delivered cfg fed None evs err c'"
proof -
  let ?h = "handshake_new sha k"
  obtain n all r where c: "await_upgrade ?h [] s = (Ok (n, all), s1)" "ws_reader_new cfg = Ok r" "wc_reader c = keep_leftover (drop n all) r"
    using assms(1) by (auto simp: client_connect_def Let_def split: result.splits prod.splits if_splits)
  have "upgrade_response ?h [] = Ok None" by (simp add: upgrade_response_def)
  note a = await_upgrade_reads [OF c(1) this]
  note r = new_reader [OF c(2) assms(3)]
  have "spare_space (spare r) = rc_buffer cfg" using c(2) by (auto simp: ws_reader_new_def spare_def spare_space_def split: if_splits)
  then have "arrive (drop n all) r = (drop n all, wc_reader c)" using a assms(2) c(3) leftover_arrives [of "drop n all" r] by (auto simp: arrive_def Let_def)
  note l = arrive_appends [OF r(1) this]
  obtain fed where f: "socket_bytes s1 = fed @ socket_bytes s2" "delivered cfg (drop n all @ fed) None evs err c'"
    using client_run_delivers [OF assms(4) l(1)] l(2-4) r by auto
  have "take (length all) (socket_bytes s) = all" "drop n (socket_bytes s) = drop n all @ fed @ socket_bytes s2" using a f(1) by simp_all
  then show ?thesis using a f(2) by (intro exI [of _ n] exI [of _ "length all"] exI [of _ "drop n all @ fed"]) simp
qed

definition demo_reader_config :: reader_config where
  "demo_reader_config = \<lparr>rc_buffer = 2048, rc_max_frame = 1024, rc_max_message = 1024\<rparr>"

definition demo_key :: "byte list" where "demo_key = replicate 16 3"
definition demo_sha :: "byte list \<Rightarrow> byte list" where "demo_sha bs = replicate 20 7"

definition demo_socket :: "io_read list" where
  "demo_socket = [Interrupted, Got (server_reply (base64_text (demo_sha (base64_text demo_key @ ACCEPT_GUID))) @ [0x81, 2, 104]), WouldBlock, Got [105]]"

lemma await_first:
  "length x \<le> 1024 \<Longrightarrow> x \<noteq> [] \<Longrightarrow> upgrade_response h x = Ok (Some n) \<Longrightarrow> await_upgrade h [] (Interrupted # Got x # s) = (Ok (n, x), s)"
  by (simp add: await_upgrade.simps [of h "[]" "Interrupted # Got x # s"] await_upgrade.simps [of h "[]" "Got x # s"])

lemma demo_connects:
  "\<exists>c. client_connect demo_sha u demo_reader_config (Ok ()) (Ok demo_key) (\<lambda>_. True) (Ok ()) demo_socket = (Ok c, [WouldBlock, Got [105]])"
proof -
  let ?a = "base64_text (demo_sha (base64_text demo_key @ ACCEPT_GUID))" and ?h = "handshake_new demo_sha demo_key"
  have k: "length demo_key = 16" "\<forall>bs. length (demo_sha bs) = 20" by (simp_all add: demo_key_def demo_sha_def)
  have a: "length ?a = 28" using base64_text_exact(2) [of "demo_sha (base64_text demo_key @ ACCEPT_GUID)"] k(2) by simp
  then have "?a \<noteq> []" "length ?a \<le> 100" by auto
  then have u: "upgrade_response ?h (server_reply ?a @ [0x81, 2, 104]) = Ok (Some (length (server_reply ?a)))"
    by (rule server_reply_accepted [OF base64_text_exact(3) _ _ handshake_new_exact(3) [OF k]])
  have "length (server_reply ?a @ [0x81, 2, 104]) \<le> 1024" using a by (simp add: server_reply_def ascii_def)
  then have "await_upgrade ?h [] demo_socket = (Ok (length (server_reply ?a), server_reply ?a @ [0x81, 2, 104]), [WouldBlock, Got [105]])"
    unfolding demo_socket_def by (rule await_first) (simp, rule u)
  moreover have "\<exists>r. ws_reader_new demo_reader_config = Ok r"
    by (simp add: ws_reader_new_def demo_reader_config_def MAX_SERVER_HEADER_def sat_u64_def u64_max_def)
  ultimately show ?thesis by (auto simp: client_connect_def Let_def)
qed

theorem client_loses_nothing_witness:
  "\<exists>c evs err c' s2 n j fed. client_connect demo_sha \<lparr>ur_scheme = SchemeWss, ur_host = [104], ur_port = 443, ur_path = [47]\<rparr> demo_reader_config (Ok ()) (Ok demo_key) (\<lambda>_. True) (Ok ()) demo_socket = (Ok c, [WouldBlock, Got [105]])
     \<and> client_run [PollEvent, Fill, Fill, PollEvent] c [WouldBlock, Got [105]] = (evs, err, c', s2)
     \<and> drop n (socket_bytes demo_socket) = fed @ socket_bytes s2 \<and> delivered demo_reader_config fed None evs err c'"
proof -
  obtain c where c: "client_connect demo_sha \<lparr>ur_scheme = SchemeWss, ur_host = [104], ur_port = 443, ur_path = [47]\<rparr> demo_reader_config (Ok ()) (Ok demo_key) (\<lambda>_. True) (Ok ()) demo_socket = (Ok c, [WouldBlock, Got [105]])"
    using demo_connects by blast
  obtain evs err c' s2 where r: "client_run [PollEvent, Fill, Fill, PollEvent] c [WouldBlock, Got [105]] = (evs, err, c', s2)"
    by (cases "client_run [PollEvent, Fill, Fill, PollEvent] c [WouldBlock, Got [105]]") auto
  show ?thesis using client_loses_nothing [OF c _ _ r] c r by (auto simp: demo_reader_config_def)
qed

end
