(* ===== verification/Exposition.thy ===== *)
theory Exposition
  imports Num_Text Str_Text Histogram
begin

text \<open>
  \<open>crates/bowst-telemetry/src/exposition.rs\<close>: writing metrics as text.  A text is the list of its UTF-8 bytes; the three
  characters that are escaped are ASCII, so that escaping bytes is escaping characters.

  The specification is a reader of the format: what is written reads back as what was asked to be written, less what has an
  invalid name.
\<close>

section \<open>The writer\<close>

datatype metric_type = Counter | Gauge | Summary

fun type_text :: "metric_type \<Rightarrow> byte list" where
  "type_text Counter = ascii ''counter''"
| "type_text Gauge = ascii ''gauge''"
| "type_text Summary = ascii ''summary''"

datatype metric_value = IntValue nat | NanosValue nat

type_synonym labels = "(byte list \<times> byte list) list"

record exposition =
  ex_out :: "byte list"
  ex_rejected :: nat

definition exposition_new :: exposition where
  "exposition_new = \<lparr>ex_out = [], ex_rejected = 0\<rparr>"

definition is_alphabetic :: "byte \<Rightarrow> bool" where
  "is_alphabetic b \<longleftrightarrow> 65 \<le> b \<and> b \<le> 90 \<or> 97 \<le> b \<and> b \<le> 122"

definition metric_byte :: "byte \<Rightarrow> bool" where
  "metric_byte b \<longleftrightarrow> is_alphabetic b \<or> is_digit b \<or> b = 95 \<or> b = 58"

definition label_byte :: "byte \<Rightarrow> bool" where
  "label_byte b \<longleftrightarrow> is_alphabetic b \<or> is_digit b \<or> b = 95"

fun valid_metric_name :: "byte list \<Rightarrow> bool" where
  "valid_metric_name [] \<longleftrightarrow> False"
| "valid_metric_name (b # bs) \<longleftrightarrow> (is_alphabetic b \<or> b = 95 \<or> b = 58) \<and> list_all metric_byte bs"

fun valid_label_name :: "byte list \<Rightarrow> bool" where
  "valid_label_name [] \<longleftrightarrow> False"
| "valid_label_name (b # bs) \<longleftrightarrow> (is_alphabetic b \<or> b = 95) \<and> list_all label_byte bs \<and> take 2 (b # bs) \<noteq> [95, 95]"

definition replace_byte :: "byte \<Rightarrow> byte list \<Rightarrow> byte list \<Rightarrow> byte list" where
  "replace_byte c w t = concat (map (\<lambda>b. if b = c then w else [b]) t)"

definition escape_help :: "byte list \<Rightarrow> byte list" where
  "escape_help help = replace_byte 10 [92, 110] (replace_byte 92 [92, 92] help)"

definition escaped_label_value :: "byte list \<Rightarrow> byte list" where
  "escaped_label_value v = concat (map (\<lambda>c. if c = 92 then [92, 92] else if c = 34 then [92, 34] else if c = 10 then [92, 110] else [c]) v)"

fun value_text :: "metric_value \<Rightarrow> byte list" where
  "value_text (IntValue v) = show_nat v"
| "value_text (NanosValue n) = show_nat (n div 1000000000) @ [46] @ show_padded 9 (n mod 1000000000)"

definition rejects :: "exposition \<Rightarrow> exposition" where
  "rejects e = e\<lparr>ex_rejected := sat_u64 (ex_rejected e + 1)\<rparr>"

definition family :: "byte list \<Rightarrow> metric_type \<Rightarrow> byte list \<Rightarrow> exposition \<Rightarrow> exposition" where
  "family name k help e =
     (if \<not> valid_metric_name name then rejects e
      else e\<lparr>ex_out := ex_out e @ ascii ''# HELP '' @ name @ [32] @ escape_help help @ [10]
                       @ ascii ''# TYPE '' @ name @ [32] @ type_text k @ [10]\<rparr>)"

fun label_list :: "labels \<Rightarrow> byte list" where
  "label_list [] = []"
| "label_list [(k, v)] = k @ [61, 34] @ escaped_label_value v @ [34]"
| "label_list ((k, v) # ls) = k @ [61, 34] @ escaped_label_value v @ [34] @ [44] @ label_list ls"

definition sample :: "byte list \<Rightarrow> labels \<Rightarrow> metric_value \<Rightarrow> exposition \<Rightarrow> exposition" where
  "sample name ls v e =
     (if \<not> valid_metric_name name \<or> \<not> list_all (\<lambda>(k, _). valid_label_name k) ls then rejects e
      else e\<lparr>ex_out := ex_out e @ name @ (if ls = [] then [] else [123] @ label_list ls @ [125]) @ [32] @ value_text v @ [10]\<rparr>)"

definition quantiles :: "latency_summary \<Rightarrow> (byte list \<times> nat) list" where
  "quantiles w = [(ascii ''0.5'', ls_p50 w), (ascii ''0.9'', ls_p90 w), (ascii ''0.99'', ls_p99 w), (ascii ''0.999'', ls_p999 w)]"

definition summary :: "byte list \<Rightarrow> labels \<Rightarrow> latency_summary \<Rightarrow> latency_summary \<Rightarrow> exposition \<Rightarrow> exposition" where
  "summary name ls window total_summary e =
     (let e1 = fold (\<lambda>(q, nanos). sample name (ls @ [(ascii ''quantile'', q)]) (NanosValue nanos)) (quantiles window) e;
          e2 = sample (name @ ascii ''_sum'') ls (NanosValue (ls_sum total_summary)) e1
      in sample (name @ ascii ''_count'') ls (IntValue (ls_count total_summary)) e2)"

section \<open>The reader\<close>

datatype entry =
    HelpOf "byte list" "byte list"
  | TypeOf "byte list" "byte list"
  | SampleOf "byte list" labels metric_value

fun unescape :: "byte list \<Rightarrow> byte list" where
  "unescape [] = []"
| "unescape [b] = [b]"
| "unescape (b # c # t) = (if b = 92 then (if c = 110 then 10 else c) # unescape t else b # unescape (c # t))"

fun read_quoted :: "byte list \<Rightarrow> (byte list \<times> byte list) option" where
  "read_quoted [] = None"
| "read_quoted [b] = (if b = 34 then Some ([], []) else None)"
| "read_quoted (b # c # t) =
     (if b = 34 then Some ([], c # t)
      else if b = 92 then map_option (\<lambda>(v, rest). ((if c = 110 then 10 else c) # v, rest)) (read_quoted t)
      else map_option (\<lambda>(v, rest). (b # v, rest)) (read_quoted (c # t)))"

lemma read_quoted_shorter: "read_quoted t = Some (v, rest) \<Longrightarrow> length rest < length t"
  by (induction t arbitrary: v rest rule: read_quoted.induct) (auto split: if_splits)

function read_labels :: "byte list \<Rightarrow> (labels \<times> byte list) option" where
  "read_labels t =
     (case split_once [61] t of
        Some (k, q # t1) \<Rightarrow>
          if q \<noteq> 34 then None
          else (case read_quoted t1 of
                  Some (v, c # t2) \<Rightarrow>
                    if c = 44 then map_option (\<lambda>(ls, rest). ((k, v) # ls, rest)) (read_labels t2)
                    else if c = 125 then Some ([(k, v)], t2) else None
                | _ \<Rightarrow> None)
      | _ \<Rightarrow> None)"
  by pat_completeness auto
termination
proof (relation "measure length")
  fix t x k y q t1 z v w c t2
  assume "split_once [61] t = Some x" "(k, y) = x" "y = q # t1" "read_quoted t1 = Some z" "(v, w) = z" "w = c # t2"
  then have "length (q # t1) < length t" "length (c # t2) < length t1" using split_once_shorter [of "[61]" t k y] read_quoted_shorter [of t1 v w] by auto
  then show "(t2, t) \<in> measure length" by simp
qed simp

declare read_labels.simps [simp del]

definition read_value :: "byte list \<Rightarrow> metric_value option" where
  "read_value t =
     (case split_once [46] t of
        None \<Rightarrow> map_option IntValue (parse_uint (2 ^ 64) t)
      | Some (a, b) \<Rightarrow>
          (case (parse_uint (2 ^ 64) a, parse_uint 1000000000 b) of
             (Some s, Some f) \<Rightarrow> if length b = 9 then Some (NanosValue (s * 1000000000 + f)) else None
           | _ \<Rightarrow> None))"

definition read_sample :: "byte list \<Rightarrow> entry option" where
  "read_sample l =
     (let name = takeWhile metric_byte l in
      case dropWhile metric_byte l of
        [] \<Rightarrow> None
      | c # t \<Rightarrow>
          if c = 123 then
            (case read_labels t of
               Some (ls, s # v) \<Rightarrow> if s = 32 then map_option (SampleOf name ls) (read_value v) else None
             | _ \<Rightarrow> None)
          else if c = 32 then map_option (SampleOf name []) (read_value t) else None)"

definition read_line :: "byte list \<Rightarrow> entry option" where
  "read_line l =
     (if take 7 l = ascii ''# HELP '' then map_option (\<lambda>(n, h). HelpOf n (unescape h)) (split_once [32] (drop 7 l))
      else if take 7 l = ascii ''# TYPE '' then map_option (\<lambda>(n, k). TypeOf n k) (split_once [32] (drop 7 l))
      else read_sample l)"

fun read_lines :: "byte list list \<Rightarrow> entry list option" where
  "read_lines [] = Some []"
| "read_lines (l # ls) = (case (read_line l, read_lines ls) of (Some e, Some es) \<Rightarrow> Some (e # es) | _ \<Rightarrow> None)"

definition scrape :: "byte list \<Rightarrow> entry list option" where
  "scrape txt = (let ls = split_on 10 txt in if last ls = [] then read_lines (butlast ls) else None)"

section \<open>Reading back what was written\<close>

definition escaped_help_byte :: "byte \<Rightarrow> byte list" where
  "escaped_help_byte b = (if b = 92 then [92, 92] else if b = 10 then [92, 110] else [b])"

lemma escape_help_bytes: "escape_help h = concat (map escaped_help_byte h)"
proof -
  have app: "replace_byte c w (a @ b) = replace_byte c w a @ replace_byte c w b" for c w a b by (simp add: replace_byte_def)
  show ?thesis
    by (induction h) (simp_all add: escape_help_def app replace_byte_def escaped_help_byte_def)
qed

lemma unescape_plain: "b \<noteq> 92 \<Longrightarrow> unescape (b # t) = b # unescape t"
  by (cases t) simp_all

lemma unescape_help [simp]: "unescape (escape_help h) = h"
  unfolding escape_help_bytes by (induction h) (auto simp: escaped_help_byte_def unescape_plain)

lemma read_quoted_plain: "b \<noteq> 34 \<Longrightarrow> b \<noteq> 92 \<Longrightarrow> t \<noteq> [] \<Longrightarrow> read_quoted (b # t) = map_option (\<lambda>(v, rest). (b # v, rest)) (read_quoted t)"
  by (cases t) simp_all

lemma read_quoted_escaped [simp]: "read_quoted (escaped_label_value v @ 34 # rest) = Some (v, rest)"
proof (induction v)
  case Nil
  then show ?case by (cases rest) (simp_all add: escaped_label_value_def)
next
  case (Cons c v)
  then show ?case by (auto simp: escaped_label_value_def read_quoted_plain)
qed

lemma read_labels_list:
  assumes "ls \<noteq> []" "list_all (\<lambda>(k, _). 61 \<notin> set k) ls"
  shows "read_labels (label_list ls @ 125 # rest) = Some (ls, rest)"
  using assms
proof (induction ls rule: label_list.induct)
  case (2 k v)
  then show ?case by (subst read_labels.simps) (simp add: split_once_one)
next
  case (3 k v l ls)
  then show ?case by (subst read_labels.simps) (simp add: split_once_one)
qed simp

lemma digit_not_point: "list_all is_digit ds \<Longrightarrow> 46 \<notin> set ds" "list_all is_digit ds \<Longrightarrow> 10 \<notin> set ds"
  by (auto simp: list_all_iff is_digit_def)

lemma show_padded_length: "n < 10 ^ w \<Longrightarrow> 0 < w \<Longrightarrow> length (show_padded w n) = w"
proof -
  have "n < 10 ^ k \<Longrightarrow> 0 < k \<Longrightarrow> length (show_nat n) \<le> k" for k n
  proof (induction n arbitrary: k rule: show_nat.induct)
    case (1 n)
    show ?case
    proof (cases "n < 10")
      case False
      from 1(3) obtain j where k: "k = Suc j" by (cases k) auto
      with 1(2) False have j: "k = Suc j" "0 < j" by (cases j; simp)+
      then have "n div 10 < 10 ^ j" using 1(2) by (simp add: less_mult_imp_div_less mult.commute)
      then show ?thesis using 1(1) [OF False _ j(2)] False j(1) by (subst show_nat.simps) simp
    qed (use 1 in \<open>subst show_nat.simps, simp\<close>)
  qed
  then show "n < 10 ^ w \<Longrightarrow> 0 < w \<Longrightarrow> length (show_padded w n) = w" by (simp add: show_padded_def)
qed

fun value_ok :: "metric_value \<Rightarrow> bool" where
  "value_ok (IntValue v) \<longleftrightarrow> v < 2 ^ 64"
| "value_ok (NanosValue v) \<longleftrightarrow> v < 2 ^ 64"

lemma read_value_text: "value_ok v \<Longrightarrow> read_value (value_text v) = Some v"
proof (cases v)
  case (IntValue n)
  assume "value_ok v"
  then show ?thesis using IntValue digit_not_point(1) [OF show_nat_digits] split_once_one_None [of 46 "show_nat n"]
    by (simp add: read_value_def parse_show_nat)
next
  case (NanosValue n)
  assume "value_ok v"
  then have "n div 1000000000 < 2 ^ 64" using NanosValue by (simp add: le_less_trans [OF div_le_dividend])
  moreover have "length (show_padded 9 (n mod 1000000000)) = 9" by (rule show_padded_length) simp_all
  ultimately show ?thesis using NanosValue split_once_one [OF digit_not_point(1) [OF show_nat_digits], of "n div 1000000000" "show_padded 9 (n mod 1000000000)"]
    by (simp add: read_value_def parse_show_nat parse_show_padded)
qed

lemma metric_name_bytes: "valid_metric_name n \<Longrightarrow> list_all metric_byte n \<and> n \<noteq> []"
  by (cases n) (auto simp: metric_byte_def)

lemma metric_byte_not: "\<not> metric_byte 32" "\<not> metric_byte 123" "\<not> metric_byte 10" "\<not> metric_byte 35"
  by (simp_all add: metric_byte_def is_alphabetic_def is_digit_def)

lemma metric_name_free: "valid_metric_name n \<Longrightarrow> 32 \<notin> set n \<and> 10 \<notin> set n \<and> hd n \<noteq> 35"
  using metric_name_bytes [of n] metric_byte_not by (cases n) (auto simp: list_all_iff)

lemma label_name_free: "valid_label_name k \<Longrightarrow> 61 \<notin> set k \<and> 10 \<notin> set k"
proof -
  assume "valid_label_name k"
  then have "list_all label_byte k" by (cases k) (auto simp: label_byte_def)
  moreover have "\<not> label_byte 61" "\<not> label_byte 10" by (simp_all add: label_byte_def is_alphabetic_def is_digit_def)
  ultimately show ?thesis by (auto simp: list_all_iff)
qed

abbreviation labels_ok :: "labels \<Rightarrow> bool" where
  "labels_ok ls \<equiv> list_all (\<lambda>(k, _). valid_label_name k) ls"

definition sample_line :: "byte list \<Rightarrow> labels \<Rightarrow> metric_value \<Rightarrow> byte list" where
  "sample_line name ls v = name @ (if ls = [] then [] else [123] @ label_list ls @ [125]) @ [32] @ value_text v"

lemma take_prefix: "take (length p) (p @ t) = p" "drop (length p) (p @ t) = t"
  by simp_all

lemma read_help_line:
  "valid_metric_name n \<Longrightarrow> read_line (ascii ''# HELP '' @ n @ [32] @ escape_help h) = Some (HelpOf n h)"
  "valid_metric_name n \<Longrightarrow> read_line (ascii ''# TYPE '' @ n @ [32] @ type_text k) = Some (TypeOf n (type_text k))"
  using metric_name_free [of n] by (simp_all add: read_line_def ascii_def of_char_def split_once_one)

lemma read_sample_line:
  assumes "valid_metric_name n" "labels_ok ls" "value_ok v"
  shows "read_line (sample_line n ls v) = Some (SampleOf n ls v)"
proof -
  have n: "list_all metric_byte n" "n \<noteq> []" "hd n \<noteq> 35" using metric_name_bytes metric_name_free assms(1) by auto
  have split: "takeWhile metric_byte (n @ c # t) = n" "dropWhile metric_byte (n @ c # t) = c # t" if "\<not> metric_byte c" for c t
    using n(1) that by (simp_all add: takeWhile_append2 dropWhile_append2 list_all_iff)
  have "take 7 (sample_line n ls v) \<noteq> ascii ''# HELP ''" "take 7 (sample_line n ls v) \<noteq> ascii ''# TYPE ''"
    using n(2,3) by (cases n; simp add: sample_line_def ascii_def of_char_def)+
  moreover have "list_all (\<lambda>(k, _). 61 \<notin> set k) ls" using assms(2) label_name_free by (auto simp: list_all_iff)
  ultimately show ?thesis using split metric_byte_not read_labels_list [of ls "32 # value_text v"] read_value_text [OF assms(3)]
    by (auto simp: read_line_def read_sample_def sample_line_def)
qed

lemma lines_free:
  "10 \<notin> set (escape_help h)" "10 \<notin> set (type_text k)" "value_ok v \<Longrightarrow> 10 \<notin> set (value_text v)"
  "labels_ok ls \<Longrightarrow> 10 \<notin> set (label_list ls)"
proof -
  show "10 \<notin> set (escape_help h)" unfolding escape_help_bytes by (auto simp: escaped_help_byte_def split: if_splits)
  show "10 \<notin> set (type_text k)" by (cases k) (simp_all add: ascii_def of_char_def)
  show "10 \<notin> set (value_text v)"
    using digit_not_point(2) [OF show_nat_digits] by (cases v) (auto simp: show_padded_def)
  have "10 \<notin> set (escaped_label_value t)" for t by (auto simp: escaped_label_value_def split: if_splits)
  then show "labels_ok ls \<Longrightarrow> 10 \<notin> set (label_list ls)"
    by (induction ls rule: label_list.induct) (auto dest: label_name_free)
qed

definition unlines :: "byte list list \<Rightarrow> byte list" where
  "unlines ls = concat (map (\<lambda>l. l @ [10]) ls)"

lemma split_unlines: "list_all (\<lambda>l. 10 \<notin> set l) ls \<Longrightarrow> split_on 10 (unlines ls) = ls @ [[]]"
  by (induction ls) (simp_all add: unlines_def)

lemma read_lines_append: "read_lines (as @ bs) = (case (read_lines as, read_lines bs) of (Some x, Some y) \<Rightarrow> Some (x @ y) | _ \<Rightarrow> None)"
  by (induction "as") (auto split: option.splits)

definition wrote :: "entry list \<Rightarrow> exposition \<Rightarrow> bool" where
  "wrote es e \<longleftrightarrow> (\<exists>ls. ex_out e = unlines ls \<and> list_all (\<lambda>l. 10 \<notin> set l) ls \<and> read_lines ls = Some es)"

lemma wrote_scrapes: "wrote es e \<Longrightarrow> scrape (ex_out e) = Some es"
  by (auto simp: wrote_def scrape_def split_unlines)

lemma wrote_more:
  assumes "wrote es e" "ex_out e' = ex_out e @ unlines ls" "list_all (\<lambda>l. 10 \<notin> set l) ls" "read_lines ls = Some fs"
  shows "wrote (es @ fs) e'"
proof -
  obtain ks where "ex_out e = unlines ks" "list_all (\<lambda>l. 10 \<notin> set l) ks" "read_lines ks = Some es" using assms(1) by (auto simp: wrote_def)
  then show ?thesis unfolding wrote_def using assms by (intro exI [of _ "ks @ ls"]) (simp add: unlines_def read_lines_append)
qed

definition family_entries :: "byte list \<Rightarrow> metric_type \<Rightarrow> byte list \<Rightarrow> entry list" where
  "family_entries n k h = (if valid_metric_name n then [HelpOf n h, TypeOf n (type_text k)] else [])"

definition sample_entries :: "byte list \<Rightarrow> labels \<Rightarrow> metric_value \<Rightarrow> entry list" where
  "sample_entries n ls v = (if valid_metric_name n \<and> labels_ok ls then [SampleOf n ls v] else [])"

lemma wrote_rejects: "wrote es e \<Longrightarrow> wrote es (rejects e)"
  by (simp add: wrote_def rejects_def)

lemma wrote_family: "wrote es e \<Longrightarrow> wrote (es @ family_entries n k h) (family n k h e)"
proof (cases "valid_metric_name n")
  case True
  assume "wrote es e"
  then show ?thesis
  proof (rule wrote_more)
    show "ex_out (family n k h e) = ex_out e @ unlines [ascii ''# HELP '' @ n @ [32] @ escape_help h, ascii ''# TYPE '' @ n @ [32] @ type_text k]"
      using True by (simp add: family_def unlines_def)
    show "list_all (\<lambda>l. 10 \<notin> set l) [ascii ''# HELP '' @ n @ [32] @ escape_help h, ascii ''# TYPE '' @ n @ [32] @ type_text k]"
      using metric_name_free [OF True] lines_free(1,2) by (simp add: ascii_def of_char_def)
    show "read_lines [ascii ''# HELP '' @ n @ [32] @ escape_help h, ascii ''# TYPE '' @ n @ [32] @ type_text k] = Some (family_entries n k h)"
      using True read_help_line [OF True] by (simp add: family_entries_def)
  qed
qed (simp add: family_def family_entries_def wrote_rejects)

lemma wrote_sample: "wrote es e \<Longrightarrow> value_ok v \<Longrightarrow> wrote (es @ sample_entries n ls v) (sample n ls v e)"
proof (cases "valid_metric_name n \<and> labels_ok ls")
  case True
  assume w: "wrote es e" "value_ok v"
  from w(1) show ?thesis
  proof (rule wrote_more)
    show "ex_out (sample n ls v e) = ex_out e @ unlines [sample_line n ls v]" using True by (simp add: sample_def sample_line_def unlines_def)
    show "list_all (\<lambda>l. 10 \<notin> set l) [sample_line n ls v]"
      using True metric_name_free [of n] lines_free(3) [OF w(2)] lines_free(4) [of ls] by (simp add: sample_line_def)
    show "read_lines [sample_line n ls v] = Some (sample_entries n ls v)" using True read_sample_line [OF _ _ w(2)] by (simp add: sample_entries_def)
  qed
qed (auto simp: sample_def sample_entries_def wrote_rejects)

section \<open>Interface of the writer\<close>

text \<open>
  A client writes families and samples; the contract says which entries a reader then sees.  Its lemma is that a
  sequence of samples shows one entry each.
\<close>

locale metric_writer =
  fixes showing :: "entry list \<Rightarrow> 'e \<Rightarrow> bool"
    and fam :: "byte list \<Rightarrow> metric_type \<Rightarrow> byte list \<Rightarrow> 'e \<Rightarrow> 'e"
    and smp :: "byte list \<Rightarrow> labels \<Rightarrow> metric_value \<Rightarrow> 'e \<Rightarrow> 'e"
  assumes fam_shows: "showing es e \<Longrightarrow> valid_metric_name n \<Longrightarrow> showing (es @ [HelpOf n h, TypeOf n (type_text k)]) (fam n k h e)"
    and smp_shows: "showing es e \<Longrightarrow> valid_metric_name n \<Longrightarrow> labels_ok ls \<Longrightarrow> value_ok v \<Longrightarrow> showing (es @ [SampleOf n ls v]) (smp n ls v e)"
begin

lemma samples_show:
  assumes "showing es e" "valid_metric_name n" "list_all (\<lambda>x. labels_ok (l x) \<and> value_ok (v x)) xs"
  shows "showing (es @ map (\<lambda>x. SampleOf n (l x) (v x)) xs) (fold (\<lambda>x. smp n (l x) (v x)) xs e)"
  using assms
proof (induction xs arbitrary: es e)
  case (Cons x xs)
  then show ?case using Cons.IH [OF smp_shows [OF Cons.prems(1,2)], of "l x" "v x"] by simp
qed simp

lemma counter_shows:
  assumes "showing es e" "valid_metric_name n" "labels_ok ls" "value_ok v"
  shows "showing (es @ [HelpOf n h, TypeOf n (type_text k), SampleOf n ls v]) (smp n ls v (fam n k h e))"
  using smp_shows [OF fam_shows [OF assms(1,2)] assms(2-4)] by simp

end

text \<open>Nothing was left out, and the text reads back as the entries.\<close>

definition accepted :: "entry list \<Rightarrow> exposition \<Rightarrow> bool" where
  "accepted es e \<longleftrightarrow> wrote es e \<and> ex_rejected e = 0"

interpretation expo: metric_writer accepted family sample
proof
  fix es e n h k assume "accepted es e" "valid_metric_name n"
  then show "accepted (es @ [HelpOf n h, TypeOf n (type_text k)]) (family n k h e)"
    using wrote_family [of es e n k h] by (simp add: accepted_def family_def family_entries_def)
next
  fix es e n ls v assume "accepted es e" "valid_metric_name n" "labels_ok ls" "value_ok v"
  then show "accepted (es @ [SampleOf n ls v]) (sample n ls v e)"
    using wrote_sample [of es e v n ls] by (simp add: accepted_def sample_def sample_entries_def)
qed

lemma accepted_new: "accepted [] exposition_new"
  by (simp add: accepted_def wrote_def exposition_new_def unlines_def)

section \<open>Any sequence of calls\<close>

datatype metric_call =
    CallFamily "byte list" metric_type "byte list"
  | CallSample "byte list" labels metric_value
  | CallSummary "byte list" labels latency_summary latency_summary

fun make_call :: "metric_call \<Rightarrow> exposition \<Rightarrow> exposition" where
  "make_call (CallFamily n k h) = family n k h"
| "make_call (CallSample n ls v) = sample n ls v"
| "make_call (CallSummary n ls window total_summary) = summary n ls window total_summary"

fun call_entries :: "metric_call \<Rightarrow> entry list" where
  "call_entries (CallFamily n k h) = family_entries n k h"
| "call_entries (CallSample n ls v) = sample_entries n ls v"
| "call_entries (CallSummary n ls window total_summary) =
     concat (map (\<lambda>(q, nanos). sample_entries n (ls @ [(ascii ''quantile'', q)]) (NanosValue nanos)) (quantiles window))
     @ sample_entries (n @ ascii ''_sum'') ls (NanosValue (ls_sum total_summary)) @ sample_entries (n @ ascii ''_count'') ls (IntValue (ls_count total_summary))"

definition summary_ok :: "latency_summary \<Rightarrow> bool" where
  "summary_ok w \<longleftrightarrow> list_all fits_u64 [ls_count w, ls_sum w, ls_p50 w, ls_p90 w, ls_p99 w, ls_p999 w]"

fun call_ok :: "metric_call \<Rightarrow> bool" where
  "call_ok (CallFamily n k h) \<longleftrightarrow> True"
| "call_ok (CallSample n ls v) \<longleftrightarrow> value_ok v"
| "call_ok (CallSummary n ls window total_summary) \<longleftrightarrow> summary_ok window \<and> summary_ok total_summary"

lemma wrote_call:
  assumes "wrote es e" "call_ok c"
  shows "wrote (es @ call_entries c) (make_call c e)"
proof (cases c)
  case (CallSummary n ls window total_summary)
  have v: "value_ok (NanosValue (ls_p50 window))" "value_ok (NanosValue (ls_p90 window))" "value_ok (NanosValue (ls_p99 window))"
    "value_ok (NanosValue (ls_p999 window))" "value_ok (NanosValue (ls_sum total_summary))" "value_ok (IntValue (ls_count total_summary))"
    using assms(2) CallSummary by (auto simp: summary_ok_def range_defs)
  show ?thesis
    using wrote_sample [OF wrote_sample [OF wrote_sample [OF wrote_sample [OF wrote_sample [OF wrote_sample [OF assms(1) v(1)] v(2)] v(3)] v(4)] v(5)] v(6)]
    by (simp add: CallSummary summary_def quantiles_def Let_def)
qed (use assms wrote_family wrote_sample in simp_all)

text \<open>The names every call asks for, a line of samples each or a family, and whether they can be written.\<close>

fun call_names :: "metric_call \<Rightarrow> (byte list \<times> labels) list" where
  "call_names (CallFamily n k h) = [(n, [])]"
| "call_names (CallSample n ls v) = [(n, ls)]"
| "call_names (CallSummary n ls window total_summary) =
     map (\<lambda>(q, nanos). (n, ls @ [(ascii ''quantile'', q)])) (quantiles window) @ [(n @ ascii ''_sum'', ls), (n @ ascii ''_count'', ls)]"

definition invalid_names :: "metric_call list \<Rightarrow> nat" where
  "invalid_names calls = length (filter (\<lambda>(n, ls). \<not> (valid_metric_name n \<and> labels_ok ls)) (concat (map call_names calls)))"

lemma invalid_names_split:
  "invalid_names [] = 0" "invalid_names (c # calls) = invalid_names [c] + invalid_names calls"
  by (simp_all add: invalid_names_def)

lemma rejected_family: "ex_rejected (family n k h e) = sat_u64 (ex_rejected e + of_bool (\<not> valid_metric_name n))" if "fits_u64 (ex_rejected e)"
  using that by (simp add: family_def rejects_def sat_u64_id)

lemma rejected_sample: "ex_rejected (sample n ls v e) = sat_u64 (ex_rejected e + of_bool (\<not> (valid_metric_name n \<and> labels_ok ls)))" if "fits_u64 (ex_rejected e)"
  using that by (simp add: sample_def rejects_def sat_u64_id)

lemma sat_u64_more: "fits_u64 (sat_u64 n)" "sat_u64 (sat_u64 n + m) = sat_u64 (n + m)"
  by (auto simp: sat_u64_def range_defs min_def)

lemma rejected_call: "ex_rejected (make_call c e) = sat_u64 (ex_rejected e + invalid_names [c])" if "fits_u64 (ex_rejected e)"
proof (cases c)
  case (CallSummary n ls window total_summary)
  then show ?thesis
    by (simp add: summary_def quantiles_def Let_def rejected_sample that sat_u64_more invalid_names_def)
qed (use that in \<open>simp_all add: rejected_family rejected_sample invalid_names_def\<close>)

lemma rejected_calls: "fits_u64 (ex_rejected e) \<Longrightarrow> ex_rejected (fold make_call calls e) = sat_u64 (ex_rejected e + invalid_names calls)"
proof (induction calls arbitrary: e)
  case (Cons c calls)
  then show ?case using Cons.IH [of "make_call c e"] by (simp add: rejected_call sat_u64_more add.assoc invalid_names_split(2) [of c calls])
qed (simp add: invalid_names_split(1) sat_u64_id)

section \<open>Properties\<close>

text \<open>C20: A scrape is read back exactly.  After any sequence of calls the text parses, line by line, into the families and
  samples asked for, in order, with their help texts, labels and values, whatever bytes they hold; what has an
  invalid name, and only that, is left out, and the number of families and samples left out is the rejection counter.\<close>

theorem exposition_reads_back:
  assumes "list_all call_ok calls"
  shows "scrape (ex_out (fold make_call calls exposition_new)) = Some (concat (map call_entries calls))
    \<and> ex_rejected (fold make_call calls exposition_new) = sat_u64 (invalid_names calls)"
proof
  have "wrote (es @ concat (map call_entries calls)) (fold make_call calls e)" if "wrote es e" for es e
    using assms that
  proof (induction calls arbitrary: es e)
    case (Cons c calls)
    then show ?case using Cons.IH [OF _ wrote_call [OF Cons.prems(2), of c]] by simp
  qed simp
  then show "scrape (ex_out (fold make_call calls exposition_new)) = Some (concat (map call_entries calls))"
    using wrote_scrapes accepted_new by (fastforce simp: accepted_def)
  show "ex_rejected (fold make_call calls exposition_new) = sat_u64 (invalid_names calls)"
    using rejected_calls [of exposition_new calls] by (simp add: exposition_new_def range_defs)
qed

theorem exposition_reads_back_witness:
  "scrape (ex_out (fold make_call [CallFamily [109] Gauge [10, 92], CallSample [109] [([97], [34])] (NanosValue 5), CallSample [57] [] (IntValue 1)] exposition_new))
     = Some [HelpOf [109] [10, 92], TypeOf [109] (type_text Gauge), SampleOf [109] [([97], [34])] (NanosValue 5)]
   \<and> ex_rejected (fold make_call [CallFamily [109] Gauge [10, 92], CallSample [109] [([97], [34])] (NanosValue 5), CallSample [57] [] (IntValue 1)] exposition_new) = 1"
  using exposition_reads_back [of "[CallFamily [109] Gauge [10, 92], CallSample [109] [([97], [34])] (NanosValue 5), CallSample [57] [] (IntValue 1)]"]
  by (simp add: family_entries_def sample_entries_def is_alphabetic_def invalid_names_def sat_u64_id range_defs)

end
