(* ===== verification/Md_Session.thy ===== *)
theory Md_Session
  imports Replay Rest Ratelimit Histogram Ws_Reader
begin

text \<open>
  \<open>crates/bowst-venue/src/binance/md.rs\<close>: the market-data session.  The market-data thread owns the books and drives
  the connection; the snapshot thread fetches snapshots.  The two share the queue of jobs and the queue of results.

  What the session hands to the outside is the list of the calls made: \<open>ms_calls\<close> for the handler, \<open>ms_journal\<close> for the
  journal.  A clock reading is consumed in the order the code takes it; the readings are arbitrary.  The text of a
  status that the derived \<open>Debug\<close> produces is a parameter \<open>debug\<close>.
\<close>

section \<open>Configuration and state\<close>

record md_config =
  mc_stream_url :: "byte list"
  mc_rest_url :: "byte list"
  mc_snapshot_limit :: nat
  mc_sync :: sync_config
  mc_reader :: reader_config
  mc_max_levels_per_message :: nat
  mc_connect_timeout :: nanos
  mc_stale_after :: nanos
  mc_max_connection_age :: nanos
  mc_reconnect_initial :: nanos
  mc_reconnect_max :: nanos
  mc_healthy_after :: nanos
  mc_snapshot_retry :: nanos
  mc_rest_weight_per_minute :: nat
  mc_idle_sleep :: "nanos option"
  mc_verify_every :: "nanos option"
  mc_verify_timeout :: nanos
  mc_report_every :: nanos

abbreviation secs :: "nat \<Rightarrow> nanos" where "secs n \<equiv> n * 1000000000"
abbreviation millis :: "nat \<Rightarrow> nanos" where "millis n \<equiv> n * 1000000"

definition md_config_new :: "byte list \<Rightarrow> byte list \<Rightarrow> md_config" where
  "md_config_new stream_url rest_url =
     \<lparr>mc_stream_url = stream_url, mc_rest_url = rest_url, mc_snapshot_limit = 1000,
      mc_sync = \<lparr>levels_per_side = 5000, buffered_messages = 4096, buffered_updates = 2 ^ 18\<rparr>,
      mc_reader = \<lparr>rc_buffer = 4 * 2 ^ 20, rc_max_frame = 2 * 2 ^ 20, rc_max_message = 2 * 2 ^ 20\<rparr>,
      mc_max_levels_per_message = 20000, mc_connect_timeout = secs 10, mc_stale_after = secs 60,
      mc_max_connection_age = secs (23 * 3600), mc_reconnect_initial = millis 250, mc_reconnect_max = secs 30,
      mc_healthy_after = secs 60, mc_snapshot_retry = secs 2, mc_rest_weight_per_minute = 1200, mc_idle_sleep = None,
      mc_verify_every = Some (secs 60), mc_verify_timeout = secs 30, mc_report_every = secs 10\<rparr>"

record md_report =
  mr_interval :: nanos
  mr_stats :: md_stats
  mr_latency :: latency_summary
  mr_latency_total :: latency_summary

datatype handler_call = Noticed notice | OnReport md_report

datatype snapshot_state = Idle | Requested | RetryAt nanos

datatype purpose = ForSync | ForVerify

record snapshot_job =
  jb_instrument :: instrument
  jb_generation :: nat
  jb_purpose :: purpose

record owned_snapshot =
  ow_raw :: "byte list"
  ow_last_update_id :: nat
  ow_bids :: "level list"
  ow_asks :: "level list"
  ow_fetched_at :: nanos

record snapshot_failure =
  fl_reason :: md_reason
  fl_retry_after :: "nanos option"

record snapshot_result =
  rs_instrument :: instrument_id
  rs_generation :: nat
  rs_purpose :: purpose
  rs_outcome :: "(owned_snapshot, snapshot_failure) result"

text \<open>A reading of the clocks: \<open>Instant::now\<close>, the monotonic and the wall clock of the system clock.\<close>

record moment =
  mo_instant :: nanos
  mo_mono :: nanos
  mo_wall :: nanos

record md_session =
  ms_config :: md_config
  ms_stream_url :: url
  ms_books :: md_books
  ms_states :: "snapshot_state list"
  ms_jobs :: "snapshot_job list"
  ms_results :: "snapshot_result list"
  ms_worker :: bool
  ms_generation :: nat
  ms_calls :: "handler_call list"
  ms_journal :: "journal_record list option"
  ms_clock :: "nat \<Rightarrow> moment"
  ms_ticks :: nat
  ms_interval_latency :: histogram
  ms_total_latency :: histogram
  ms_verification :: "(instrument_id \<times> nanos) option"
  ms_next_verification :: nanos
  ms_verify_cursor :: nat
  ms_report_started :: nanos

section \<open>Clock, journal and status\<close>

definition now :: "md_session \<Rightarrow> moment \<times> md_session" where
  "now s = (ms_clock s (ms_ticks s), s\<lparr>ms_ticks := Suc (ms_ticks s)\<rparr>)"

text \<open>An \<open>Instant\<close> counts seconds in an i64.\<close>

definition instant_add :: "nanos \<Rightarrow> nanos \<Rightarrow> nanos option" where
  "instant_add t d = (if t + d < secs (2 ^ 63) then Some (t + d) else None)"

definition later_than :: "nanos \<Rightarrow> nanos \<Rightarrow> nanos" where
  "later_than t wait =
     (case instant_add t wait of
        Some at_time \<Rightarrow> at_time
      | None \<Rightarrow> (case instant_add t (secs 86400) of Some at_time \<Rightarrow> at_time | None \<Rightarrow> t))"

definition later :: "nanos \<Rightarrow> md_session \<Rightarrow> nanos \<times> md_session" where
  "later wait s = (let (m, s1) = now s in (later_than (mo_instant m) wait, s1))"

definition id_of :: "nat \<Rightarrow> instrument_id" where
  "id_of index = (if index < 2 ^ 32 then of_nat index else - 1)"

definition BINANCE_CODE :: nat where "BINANCE_CODE = venue_code Binance"

definition journal_append :: "kind \<Rightarrow> nanos option \<Rightarrow> byte list list \<Rightarrow> md_session \<Rightarrow> md_session" where
  "journal_append knd wall parts s =
     (case ms_journal s of
        None \<Rightarrow> s
      | Some j \<Rightarrow>
          let (m1, s1) = now s;
              (w, s2) = (case wall of Some w \<Rightarrow> (w, s1) | None \<Rightarrow> (let (m2, s2) = now s1 in (mo_wall m2, s2)))
          in s2\<lparr>ms_journal := Some (j @ [(\<lparr>rh_kind = knd, rh_source = BINANCE_CODE, rh_mono = mo_mono m1, rh_wall = w\<rparr>, concat parts)])\<rparr>)"

definition tell :: "notice list \<Rightarrow> md_session \<Rightarrow> md_session" where
  "tell ns s = s\<lparr>ms_calls := ms_calls s @ map Noticed ns\<rparr>"

definition status :: "(md_status \<Rightarrow> byte list) \<Rightarrow> md_status \<Rightarrow> md_session \<Rightarrow> md_session" where
  "status debug st s = tell [OnStatus st] (journal_append MD_STATUS None [debug st] s)"

definition with_journal :: "md_session \<Rightarrow> md_session" where
  "with_journal s =
     (let cfg = ms_config s;
          sizing = \<lparr>bz_sync = mc_sync cfg, bz_max_levels_per_message = mc_max_levels_per_message cfg, bz_snapshot_limit = mc_snapshot_limit cfg\<rparr>
      in journal_append SESSION_START None [describe sizing (mb_instruments (ms_books s))] (s\<lparr>ms_journal := Some []\<rparr>))"

section \<open>Starting a session\<close>

fun join_slash :: "byte list list \<Rightarrow> byte list" where
  "join_slash [] = []"
| "join_slash [w] = w"
| "join_slash (w # ws) = w @ [47] @ join_slash ws"

datatype md_error = NoInstruments | InvalidSizes | MdUrl net_error | Spawn

definition stream_names :: "instrument_table \<Rightarrow> byte list" where
  "stream_names tbl = join_slash (map (\<lambda>i. map lower (symbol_as_str (inst_symbol i)) @ ascii ''@depth@100ms'') tbl)"

definition md_session_new :: "(nat \<Rightarrow> moment) \<Rightarrow> bool \<Rightarrow> md_config \<Rightarrow> instrument_table \<Rightarrow> (md_session, md_error) result" where
  "md_session_new clock spawned cfg tbl =
     (let streams = stream_names tbl in
      if streams = [] then Err NoInstruments
      else
        rbind (map_err MdUrl (parse_url (trim_slashes (mc_stream_url cfg) @ ascii ''/stream?streams='' @ streams))) (\<lambda>u.
        rbind (map_err (\<lambda>_. InvalidSizes) (md_books_new tbl (mc_sync cfg) (mc_max_levels_per_message cfg) (mc_snapshot_limit cfg))) (\<lambda>b.
        if \<not> spawned then Err Spawn
        else
          Ok \<lparr>ms_config = cfg, ms_stream_url = u, ms_books = b, ms_states = replicate (length tbl) Idle, ms_jobs = [], ms_results = [], ms_worker = True,
              ms_generation = 0, ms_calls = [], ms_journal = None, ms_clock = clock, ms_ticks = 2, ms_interval_latency = hist_new,
              ms_total_latency = hist_new, ms_verification = None, ms_next_verification = mo_instant (clock 0), ms_verify_cursor = 0,
              ms_report_started = mo_instant (clock 1)\<rparr>)))"

section \<open>Handlers of the market-data thread\<close>

definition bump_requested :: "md_books \<Rightarrow> md_books" where
  "bump_requested b = b\<lparr>mb_stats := (mb_stats b)\<lparr>st_snapshots_requested := sat_u64 (st_snapshots_requested (mb_stats b) + 1)\<rparr>\<rparr>"

definition count_abandoned :: "md_session \<Rightarrow> md_session" where
  "count_abandoned s = s\<lparr>ms_books := (ms_books s)\<lparr>mb_stats := (mb_stats (ms_books s))\<lparr>st_verifications_abandoned :=
     sat_u64 (st_verifications_abandoned (mb_stats (ms_books s)) + 1)\<rparr>\<rparr>\<rparr>"

definition set_state :: "nat \<Rightarrow> snapshot_state \<Rightarrow> md_session \<Rightarrow> md_session" where
  "set_state index st s = s\<lparr>ms_states := (ms_states s)[index := st]\<rparr>"

definition send_job :: "instrument \<Rightarrow> purpose \<Rightarrow> md_session \<Rightarrow> md_session" where
  "send_job i p s = s\<lparr>ms_jobs := ms_jobs s @ [\<lparr>jb_instrument = i, jb_generation = ms_generation s, jb_purpose = p\<rparr>]\<rparr>"

definition due :: "nanos \<Rightarrow> snapshot_state \<Rightarrow> bool" where
  "due t st = (case st of Idle \<Rightarrow> True | RetryAt at_time \<Rightarrow> t \<ge> at_time | Requested \<Rightarrow> False)"

definition request_one :: "nanos \<Rightarrow> nat \<Rightarrow> md_session \<Rightarrow> md_session" where
  "request_one t index s =
     (let i = id_of index in
      if md_is_live i (ms_books s) \<or> \<not> due t (ms_states s ! index) then s
      else
        (case table_get (mb_instruments (ms_books s)) i of
           None \<Rightarrow> s
         | Some inst \<Rightarrow>
             if ms_worker s then
               set_state index Requested ((send_job inst ForSync s)\<lparr>ms_books := bump_requested (ms_books s)\<rparr>)
             else s))"

definition request_snapshots :: "md_session \<Rightarrow> md_session" where
  "request_snapshots s = (let (m, s1) = now s in fold (request_one (mo_instant m)) [0..<length (ms_states s1)] s1)"

definition apply_snapshot :: "(md_status \<Rightarrow> byte list) \<Rightarrow> snapshot_result \<Rightarrow> md_session \<Rightarrow> md_session" where
  "apply_snapshot debug r s =
     (let index = index_of (rs_instrument r) in
      case rs_outcome r of
        Err f \<Rightarrow>
          let wait = (case fl_retry_after f of None \<Rightarrow> mc_snapshot_retry (ms_config s) | Some w \<Rightarrow> max w (mc_snapshot_retry (ms_config s)));
              s1 = (if index < length (ms_states s) then (let (t, s1) = later wait s in set_state index (RetryAt t) s1) else s)
          in status debug (SnapshotFailed (rs_instrument r) (fl_reason f)) s1
      | Ok p \<Rightarrow>
          let s1 = journal_append MD_SNAPSHOT (Some (ow_fetched_at p)) [le_bytes 4 (unat (rs_instrument r)), ow_raw p] s;
              (outcome, ns, b) = md_on_snapshot (rs_instrument r) (ow_last_update_id p) (ow_bids p) (ow_asks p) (ow_fetched_at p) (ms_books s1);
              s2 = tell ns (s1\<lparr>ms_books := b\<rparr>);
              (next_state, s3) = (if outcome = OutcomeInvalid then (let (t, s3) = later (mc_snapshot_retry (ms_config s2)) s2 in (RetryAt t, s3)) else (Idle, s2))
          in set_state index next_state s3)"

definition give_up_verification :: "md_session \<Rightarrow> md_session" where
  "give_up_verification s = count_abandoned (s\<lparr>ms_books := cancel_verification (ms_books s), ms_verification := None\<rparr>)"

definition apply_verification_snapshot :: "snapshot_result \<Rightarrow> md_session \<Rightarrow> md_session" where
  "apply_verification_snapshot r s =
     (case ms_verification s of
        None \<Rightarrow> s
      | Some (i, _) \<Rightarrow>
          if i \<noteq> rs_instrument r \<or> verifying (ms_books s) \<noteq> Some i then s
          else
            (case rs_outcome r of
               Err _ \<Rightarrow> give_up_verification s
             | Ok p \<Rightarrow>
                 let s1 = journal_append MD_VERIFY_SNAPSHOT (Some (ow_fetched_at p)) [le_bytes 4 (unat i), ow_raw p] s;
                     (v, ns, b) = md_on_verification_snapshot i (ow_last_update_id p) (ow_bids p) (ow_asks p) (ms_books s1);
                     s2 = tell ns (s1\<lparr>ms_books := b\<rparr>)
                 in (case v of
                       Pending \<Rightarrow> s2
                     | Passed \<Rightarrow> s2\<lparr>ms_verification := None\<rparr>
                     | NotRunning \<Rightarrow> s2\<lparr>ms_verification := None\<rparr>
                     | verification.Failed _ \<Rightarrow> set_state (index_of i) Idle (s2\<lparr>ms_verification := None\<rparr>)
                     | Unusable \<Rightarrow> count_abandoned (s2\<lparr>ms_verification := None\<rparr>))))"

definition collect_one :: "(md_status \<Rightarrow> byte list) \<Rightarrow> snapshot_result \<Rightarrow> md_session \<Rightarrow> md_session" where
  "collect_one debug r s =
     (if rs_generation r \<noteq> ms_generation s then s
      else (case rs_purpose r of ForSync \<Rightarrow> apply_snapshot debug r s | ForVerify \<Rightarrow> apply_verification_snapshot r s))"

text \<open>One turn of the loop of \<open>try_recv\<close>, and the loop: it ends when the queue is empty.\<close>

definition collect_next :: "(md_status \<Rightarrow> byte list) \<Rightarrow> md_session \<Rightarrow> md_session" where
  "collect_next debug s = (case ms_results s of [] \<Rightarrow> s | r # rs \<Rightarrow> collect_one debug r (s\<lparr>ms_results := rs\<rparr>))"

definition collect_snapshots :: "(md_status \<Rightarrow> byte list) \<Rightarrow> md_session \<Rightarrow> md_session" where
  "collect_snapshots debug s = (collect_next debug ^^ length (ms_results s)) s"

definition take_all_down :: "md_session \<Rightarrow> md_session" where
  "take_all_down s =
     (let s1 = journal_append MD_RESET None [] s;
          s2 = s1\<lparr>ms_generation := (ms_generation s1 + 1) mod 2 ^ 64, ms_books := reset_all (ms_books s1)\<rparr>;
          s3 = (case ms_verification s2 of None \<Rightarrow> s2 | Some _ \<Rightarrow> count_abandoned (s2\<lparr>ms_verification := None\<rparr>))
      in s3\<lparr>ms_states := map (\<lambda>_. Idle) (ms_states s3)\<rparr>)"

definition after_apply :: "md_applied \<Rightarrow> md_session \<Rightarrow> md_session" where
  "after_apply applied s =
     (let s1 = tell (report (ms_books s) applied) s;
          s2 = (case ms_verification s1 of
                  Some (i, _) \<Rightarrow>
                    if verifying (ms_books s1) \<noteq> Some i then
                      (case applied of
                         Down j (DownSync _) \<Rightarrow> if j = i then count_abandoned s1 else s1
                       | _ \<Rightarrow> s1)\<lparr>ms_verification := None\<rparr>
                    else s1
                | None \<Rightarrow> s1)
      in case applied of Down i _ \<Rightarrow> set_state (index_of i) Idle s2 | _ \<Rightarrow> s2)"

definition verify_index :: "nat \<Rightarrow> nat \<Rightarrow> md_session \<Rightarrow> nat" where
  "verify_index n_inst step s = (if n_inst = 0 then 0 else ((ms_verify_cursor s + step) mod 2 ^ 64) mod n_inst)"

text \<open>The books have started to verify an instrument: the start is journaled and its snapshot asked for.\<close>

definition begin_verification :: "nanos \<Rightarrow> nat \<Rightarrow> instrument \<Rightarrow> md_session \<Rightarrow> md_session" where
  "begin_verification t index inst s =
     (let i = id_of index;
          s1 = journal_append MD_VERIFY_START None [le_bytes 4 (unat i)] s;
          s2 = (if ms_worker s1 then (send_job inst ForVerify s1)\<lparr>ms_verification := Some (i, t), ms_books := bump_requested (ms_books s1)\<rparr>
                else s1\<lparr>ms_books := cancel_verification (ms_books s1)\<rparr>)
      in s2\<lparr>ms_verify_cursor := (index + 1) mod 2 ^ 64\<rparr>)"

text \<open>The search for the next instrument to verify, from one step on; it stops at the first that is live.\<close>

fun verify_from :: "nanos \<Rightarrow> nat \<Rightarrow> nat list \<Rightarrow> md_session \<Rightarrow> md_session" where
  "verify_from t n_inst [] s = s"
| "verify_from t n_inst (step # steps) s =
     (let index = verify_index n_inst step s in
      case table_get (mb_instruments (ms_books s)) (id_of index) of
        None \<Rightarrow> verify_from t n_inst steps s
      | Some inst \<Rightarrow>
          (case start_verification (id_of index) (ms_books s) of
             (False, b) \<Rightarrow> verify_from t n_inst steps (s\<lparr>ms_books := b\<rparr>)
           | (True, b) \<Rightarrow> begin_verification t index inst (s\<lparr>ms_books := b\<rparr>)))"

definition start_next :: "nanos \<Rightarrow> nanos \<Rightarrow> md_session \<Rightarrow> md_session" where
  "start_next t every s =
     (if t < ms_next_verification s then s
      else
        let n_inst = length (mb_instruments (ms_books s));
            (t1, s1) = later every (verify_from t n_inst [0..<n_inst] s)
        in s1\<lparr>ms_next_verification := t1\<rparr>)"

definition schedule_verification :: "md_session \<Rightarrow> md_session" where
  "schedule_verification s =
     (case mc_verify_every (ms_config s) of
        None \<Rightarrow> s
      | Some every \<Rightarrow>
          let (m, s1) = now s; t = mo_instant m in
          (case ms_verification s1 of
             Some (_, started) \<Rightarrow>
               if t - started < mc_verify_timeout (ms_config s1) then s1
               else start_next t every (give_up_verification s1)
           | None \<Rightarrow> start_next t every s1))"

definition maybe_report :: "md_session \<Rightarrow> md_session" where
  "maybe_report s =
     (let (m, s1) = now s; elapsed = mo_instant m - ms_report_started s1 in
      if elapsed < mc_report_every (ms_config s1) then s1
      else
        let rep = \<lparr>mr_interval = elapsed, mr_stats = mb_stats (ms_books s1), mr_latency = hist_summary (ms_interval_latency s1),
                   mr_latency_total = hist_summary (ms_total_latency s1)\<rparr>;
            (m2, s2) = now s1
        in s2\<lparr>ms_interval_latency := hist_reset (ms_interval_latency s2), ms_report_started := mo_instant m2,
              ms_calls := ms_calls s2 @ [OnReport rep]\<rparr>)"

section \<open>One connection\<close>

text \<open>A data message: journaled, decoded and applied, timed, and reported.\<close>

definition on_data :: "byte list \<Rightarrow> md_session \<Rightarrow> md_reason option \<times> md_session" where
  "on_data message s =
     (let s1 = journal_append MD_MESSAGE None [message] s;
          (started, s2) = now s1;
          (applied, b) = md_apply message (ms_books s2);
          (ended, s3) = now (s2\<lparr>ms_books := b\<rparr>);
          spent = sat_u64 (mo_instant ended - mo_instant started);
          s4 = s3\<lparr>ms_interval_latency := hist_record spent (ms_interval_latency s3), ms_total_latency := hist_record spent (ms_total_latency s3)\<rparr>
      in case applied of Ok a \<Rightarrow> (None, after_apply a s4) | Err e \<Rightarrow> (Some (ReasonApply e), s4))"

text \<open>An event, with what sending a pong brings: a reason ends the connection.  The pong carries at most 125 bytes.\<close>

fun on_event :: "ws_event \<times> (byte list \<Rightarrow> (unit, net_error) result) \<Rightarrow> md_session \<Rightarrow> md_reason option \<times> md_session" where
  "on_event (EvText message, pong) s = on_data message s"
| "on_event (EvBinary message, pong) s = on_data message s"
| "on_event (EvPing payload, pong) s = ((case pong (take 125 payload) of Ok _ \<Rightarrow> None | Err e \<Rightarrow> Some (ReasonNet e)), s)"
| "on_event (EvPong payload, pong) s = (None, s)"
| "on_event (EvClose code txt, pong) s = (Some (ReasonClosed code), s)"

text \<open>The events one turn drains, then nothing more or the error of \<open>next_event\<close>; the time of the last activity.\<close>

fun drain_events :: "(ws_event \<times> (byte list \<Rightarrow> (unit, net_error) result)) list \<Rightarrow> net_error option \<Rightarrow> nanos \<Rightarrow> md_session \<Rightarrow> md_reason option \<times> nanos \<times> md_session" where
  "drain_events [] failed active s = (map_option ReasonNet failed, active, s)"
| "drain_events (ev # evs) failed active s =
     (let (m, s1) = now s in
      case on_event ev s1 of
        (Some reason, s2) \<Rightarrow> (Some reason, mo_instant m, s2)
      | (None, s2) \<Rightarrow> drain_events evs failed (mo_instant m) s2)"

text \<open>What the world does in one turn of the loop: the stop flag, the events received, the snapshots that the other thread
  finished (what it made of a job for an instrument, oldest job first), and one read of the socket.\<close>

record turn =
  tn_stop :: bool
  tn_events :: "(ws_event \<times> (byte list \<Rightarrow> (unit, net_error) result)) list"
  tn_failed :: "net_error option"
  tn_fetched :: "(instrument \<Rightarrow> (owned_snapshot, snapshot_failure) result) list"
  tn_fill :: "(nat, net_error) result"

definition deliver :: "(instrument \<Rightarrow> (owned_snapshot, snapshot_failure) result) \<Rightarrow> md_session \<Rightarrow> md_session" where
  "deliver outcome s =
     (case ms_jobs s of
        [] \<Rightarrow> s
      | j # js \<Rightarrow>
          s\<lparr>ms_jobs := js, ms_results := ms_results s @ [\<lparr>rs_instrument = inst_id (jb_instrument j), rs_generation = jb_generation j,
             rs_purpose = jb_purpose j, rs_outcome = outcome (jb_instrument j)\<rparr>]\<rparr>)"

definition housekeeping :: "(md_status \<Rightarrow> byte list) \<Rightarrow> md_session \<Rightarrow> md_session" where
  "housekeeping debug s = maybe_report (schedule_verification (request_snapshots (collect_snapshots debug s)))"

definition stream_turn :: "(md_status \<Rightarrow> byte list) \<Rightarrow> nanos \<Rightarrow> turn \<Rightarrow> nanos \<Rightarrow> md_session \<Rightarrow> md_reason option \<times> nanos \<times> md_session" where
  "stream_turn debug connected_at t active s =
     (if tn_stop t then (Some (ReasonText ''stopped''), active, s)
      else
        case drain_events (tn_events t) (tn_failed t) active s of
          (Some reason, active1, s1) \<Rightarrow> (Some reason, active1, s1)
        | (None, active1, s1) \<Rightarrow>
            let (m, s2) = now (housekeeping debug (fold deliver (tn_fetched t) s1)); cfg = ms_config s2 in
            if mo_instant m - active1 \<ge> mc_stale_after cfg then (Some (ReasonNoData (mc_stale_after cfg)), active1, s2)
            else if mo_instant m - connected_at \<ge> mc_max_connection_age cfg then (Some (ReasonText ''connection reached its maximum age''), active1, s2)
            else
              (case tn_fill t of
                 Err e \<Rightarrow> (Some (ReasonNet e), active1, s2)
               | Ok n \<Rightarrow> if n = 0 then (None, active1, s2) else (let (m3, s3) = now s2 in (None, mo_instant m3, s3))))"

text \<open>The loop over the turns; with no reason, the connection is still up.\<close>

fun stream_loop :: "(md_status \<Rightarrow> byte list) \<Rightarrow> nanos \<Rightarrow> turn list \<Rightarrow> nanos \<Rightarrow> md_session \<Rightarrow> md_reason option \<times> md_session" where
  "stream_loop debug connected_at [] active s = (None, s)"
| "stream_loop debug connected_at (t # ts) active s =
     (case stream_turn debug connected_at t active s of
        (Some reason, _, s1) \<Rightarrow> (Some reason, s1)
      | (None, active1, s1) \<Rightarrow> stream_loop debug connected_at ts active1 s1)"

definition stream :: "(md_status \<Rightarrow> byte list) \<Rightarrow> turn list \<Rightarrow> md_session \<Rightarrow> md_reason option \<times> md_session" where
  "stream debug turns s = (let (m, s1) = now s in stream_loop debug (mo_instant m) turns (mo_instant m) s1)"

section \<open>The session's life\<close>

record attempt =
  am_stop :: bool
  am_connect :: "(unit, net_error) result"
  am_turns :: "turn list"
  am_stop_after :: bool
  am_random :: nat

definition bump_connections :: "md_session \<Rightarrow> md_session" where
  "bump_connections s = s\<lparr>ms_books := (ms_books s)\<lparr>mb_stats := (mb_stats (ms_books s))\<lparr>st_connections :=
     sat_u64 (st_connections (mb_stats (ms_books s)) + 1)\<rparr>\<rparr>\<rparr>"

text \<open>One attempt to connect and what came of it: the reason it ended, if it did.\<close>

definition connect_once :: "(md_status \<Rightarrow> byte list) \<Rightarrow> attempt \<Rightarrow> backoff \<Rightarrow> md_session \<Rightarrow> md_reason option \<times> backoff \<times> md_session" where
  "connect_once debug a bo s =
     (let s1 = status debug Connecting s in
      case am_connect a of
        Err e \<Rightarrow> (Some (ReasonNet e), bo, s1)
      | Ok _ \<Rightarrow>
          let (m, s2) = now (status debug Connected (bump_connections s1)) in
          (case stream debug (am_turns a) s2 of
             (None, s3) \<Rightarrow> (None, bo, s3)
           | (Some reason, s3) \<Rightarrow>
               let (m2, s4) = now s3 in
               (Some reason, if mo_instant m2 - mo_instant m \<ge> mc_healthy_after (ms_config s4) then backoff_reset bo else bo, s4)))"

text \<open>The loop of \<open>run\<close>: the delays it sleeps between attempts, and the session after it.\<close>

fun run_loop :: "(md_status \<Rightarrow> byte list) \<Rightarrow> attempt list \<Rightarrow> backoff \<Rightarrow> md_session \<Rightarrow> nanos list \<times> md_session" where
  "run_loop debug [] bo s = ([], s)"
| "run_loop debug (a # as) bo s =
     (if am_stop a then ([], s)
      else
        case connect_once debug a bo s of
          (None, _, s1) \<Rightarrow> ([], s1)
        | (Some reason, bo1, s1) \<Rightarrow>
            let s2 = status debug (Disconnected reason) (take_all_down s1) in
            if am_stop_after a then ([], s2)
            else
              let (delay, bo2) = next_delay (am_random a) bo1; (delays, s3) = run_loop debug as bo2 s2 in (delay # delays, s3))"

definition run :: "(md_status \<Rightarrow> byte list) \<Rightarrow> attempt list \<Rightarrow> md_session \<Rightarrow> nanos list \<times> md_session" where
  "run debug attempts s = run_loop debug attempts (backoff_new (mc_reconnect_initial (ms_config s)) (mc_reconnect_max (ms_config s))) s"

section \<open>The snapshot thread\<close>

text \<open>\<open>fetch_url\<close> stands for \<open>http::get\<close>: what the request for a URL brings.\<close>

definition http_failure :: "http_response \<Rightarrow> snapshot_failure" where
  "http_failure resp =
     \<lparr>fl_reason = ReasonHttpStatus (hp_status resp),
      fl_retry_after = (if hp_status resp \<in> {418, 429} then Some (secs (case hp_retry_after_secs resp of Some n \<Rightarrow> n | None \<Rightarrow> 60)) else None)\<rparr>"

definition fetch ::
  "(url \<Rightarrow> (http_response \<times> byte list, net_error) result) \<Rightarrow> md_config \<Rightarrow> instrument \<Rightarrow> nanos \<Rightarrow> nanos \<Rightarrow> snapshot_decoder \<Rightarrow> token_bucket
     \<Rightarrow> (owned_snapshot, snapshot_failure) result \<times> snapshot_decoder \<times> token_bucket" where
  "fetch fetch_url cfg i at_mono at_wall dec budget =
     (case depth_url (mc_rest_url cfg) (inst_symbol i) (mc_snapshot_limit cfg) of
        Err e \<Rightarrow> (Err \<lparr>fl_reason = ReasonNet e, fl_retry_after = None\<rparr>, dec, budget)
      | Ok u \<Rightarrow>
          (case fetch_url u of
             Err e \<Rightarrow> (Err \<lparr>fl_reason = ReasonNet e, fl_retry_after = None\<rparr>, dec, budget)
           | Ok (resp, body) \<Rightarrow>
               let budget1 = (case hp_used_weight_1m resp of Some used \<Rightarrow> observe_used used at_mono budget | None \<Rightarrow> budget) in
               if hp_status resp \<noteq> 200 then (Err (http_failure resp), dec, budget1)
               else
                 (case decode_snapshot body i dec of
                    (Err e, dec1) \<Rightarrow> (Err \<lparr>fl_reason = ReasonDecode e, fl_retry_after = None\<rparr>, dec1, budget1)
                  | (Ok p, dec1) \<Rightarrow>
                      (Ok \<lparr>ow_raw = body, ow_last_update_id = dp_last_update_id p, ow_bids = dp_bids p, ow_asks = dp_asks p, ow_fetched_at = at_wall\<rparr>,
                       dec1, budget1))))"

text \<open>The readings of the clock at the tries of \<open>wait_for_budget\<close>, one after each wait; \<open>None\<close> while it still waits.\<close>

fun wait_for_budget :: "nat \<Rightarrow> nanos list \<Rightarrow> token_bucket \<Rightarrow> token_bucket option" where
  "wait_for_budget weight [] b = None"
| "wait_for_budget weight (t # ts) b =
     (case try_take weight t b of
        (Ok _, b1) \<Rightarrow> Some b1
      | (Err wait, b1) \<Rightarrow> if wait = DURATION_MAX then Some b1 else wait_for_budget weight ts b1)"

record worker =
  wk_budget :: token_bucket
  wk_decoder :: snapshot_decoder
  wk_paused_until :: "nanos option"

definition worker_new :: "md_config \<Rightarrow> nanos \<Rightarrow> worker" where
  "worker_new cfg at_mono = \<lparr>wk_budget = bucket_new (mc_rest_weight_per_minute cfg) (secs 60) at_mono,
     wk_decoder = snapshot_decoder_new (mc_snapshot_limit cfg), wk_paused_until = None\<rparr>"

text \<open>One job: how long the pause before it lasts, and the outcome.  The clock readings are arguments.\<close>

definition work ::
  "(url \<Rightarrow> (http_response \<times> byte list, net_error) result) \<Rightarrow> md_config \<Rightarrow> instrument \<Rightarrow> nanos \<Rightarrow> nanos list \<Rightarrow> nanos \<Rightarrow> nanos \<Rightarrow> nanos \<Rightarrow> worker
     \<Rightarrow> (nanos \<times> (owned_snapshot, snapshot_failure) result \<times> worker) option" where
  "work fetch_url cfg i resumed tries at_mono at_wall ended w =
     (let pause = (case wk_paused_until w of Some until \<Rightarrow> until - resumed | None \<Rightarrow> 0) in
      map_option (\<lambda>budget.
        let (outcome, dec, budget1) = fetch fetch_url cfg i at_mono at_wall (wk_decoder w) budget;
            until = (case outcome of Err f \<Rightarrow> map_option (later_than ended) (fl_retry_after f) | Ok _ \<Rightarrow> None)
        in (pause, outcome, \<lparr>wk_budget = budget1, wk_decoder = dec, wk_paused_until = until\<rparr>))
      (wait_for_budget (depth_weight (mc_snapshot_limit cfg)) tries (wk_budget w)))"

end
