(* ===== verification/Metrics.thy ===== *)
theory Metrics
  imports Exposition Md_Session
begin

text \<open>
  \<open>bin/bowst-md/src/metrics.rs\<close>: what the tool's metrics show, rendered from the state its handler keeps.  The version of the
  build is a parameter.
\<close>

section \<open>Rendering\<close>

definition VENUE :: "byte list" where "VENUE = ascii ''binance''"

record metrics_state =
  mt_started :: nanos
  mt_connected :: bool
  mt_report :: "(md_report \<times> nanos) option"
  mt_journal :: "journal_health option"
  mt_journal_dropped :: nat

definition metrics_state_default :: metrics_state where
  "metrics_state_default = \<lparr>mt_started = 0, mt_connected = False, mt_report = None, mt_journal = None, mt_journal_dropped = 0\<rparr>"

definition venue_labels :: labels where
  "venue_labels = [(ascii ''venue'', VENUE)]"

definition process :: "byte list \<Rightarrow> metrics_state \<Rightarrow> exposition \<Rightarrow> exposition" where
  "process version st e =
     (let e1 = family (ascii ''bowst_build_info'') Gauge (ascii ''Always 1; labels identify the build.'') e;
          e2 = sample (ascii ''bowst_build_info'') [(ascii ''version'', version)] (IntValue 1) e1;
          e3 = family (ascii ''bowst_start_time_seconds'') Gauge (ascii ''Unix time the process started.'') e2
      in sample (ascii ''bowst_start_time_seconds'') [] (NanosValue (mt_started st)) e3)"

definition instrument_labels :: "instrument \<Rightarrow> labels" where
  "instrument_labels i = [(ascii ''venue'', VENUE), (ascii ''symbol'', symbol_as_str (inst_symbol i))]"

definition connection :: "metrics_state \<Rightarrow> instrument_table \<Rightarrow> (nat \<Rightarrow> bool) \<Rightarrow> exposition \<Rightarrow> exposition" where
  "connection st tbl live e =
     (let e1 = family (ascii ''bowst_md_connected'') Gauge (ascii ''1 while the market-data WebSocket is connected.'') e;
          e2 = sample (ascii ''bowst_md_connected'') venue_labels (IntValue (of_bool (mt_connected st))) e1;
          e3 = family (ascii ''bowst_md_instrument_live'') Gauge
                 (ascii ''1 while the instrument's book is live and may be used; 0 while it is down.'') e2
      in fold (\<lambda>i. sample (ascii ''bowst_md_instrument_live'') (instrument_labels i) (IntValue (of_bool (live (unat (inst_id i)))))) tbl e3)"

definition counters :: "md_stats \<Rightarrow> (byte list \<times> byte list \<times> nat) list" where
  "counters s =
     [(ascii ''bowst_md_messages_total'', ascii ''Market-data messages received.'', st_messages s),
      (ascii ''bowst_md_deltas_applied_total'', ascii ''Depth updates applied to live books.'', st_deltas_applied s),
      (ascii ''bowst_md_book_invalidations_total'',
       ascii ''Books taken down by a gap, invalid data, a crossed book or a verification mismatch.'', st_book_invalidations s),
      (ascii ''bowst_md_connections_total'', ascii ''WebSocket connections opened.'', st_connections s),
      (ascii ''bowst_md_snapshots_requested_total'', ascii ''REST depth snapshots requested (resyncs and verifications).'', st_snapshots_requested s),
      (ascii ''bowst_md_snapshots_applied_total'', ascii ''Snapshots that brought a book live.'', st_snapshots_applied s)]"

definition results :: "md_stats \<Rightarrow> (byte list \<times> nat) list" where
  "results s = [(ascii ''passed'', st_verifications_passed s), (ascii ''mismatch'', st_verification_mismatches s),
     (ascii ''abandoned'', st_verifications_abandoned s)]"

definition latency_metrics :: "metrics_state \<Rightarrow> exposition \<Rightarrow> exposition" where
  "latency_metrics st e =
     (case mt_report st of
        None \<Rightarrow> e
      | Some (r, _) \<Rightarrow>
          summary (ascii ''bowst_md_apply_latency_seconds'') venue_labels (mr_latency r) (mr_latency_total r)
            (family (ascii ''bowst_md_apply_latency_seconds'') Summary
               (ascii ''Time to decode one message and apply it to its book. Quantiles cover the last report interval; sum and count cover the whole run.'') e))"

definition session :: "metrics_state \<Rightarrow> exposition \<Rightarrow> exposition" where
  "session st e =
     (let (md_stats, report_at) = (case mt_report st of None \<Rightarrow> (md_stats_default, None) | Some (r, t) \<Rightarrow> (mr_stats r, Some t));
          e1 = fold (\<lambda>(name, help, v) e. sample name venue_labels (IntValue v) (family name Counter help e)) (counters md_stats) e;
          e2 = family (ascii ''bowst_md_verifications_total'') Counter (ascii ''Book verifications against fresh snapshots, by result.'') e1;
          e3 = fold (\<lambda>(res, v). sample (ascii ''bowst_md_verifications_total'') [(ascii ''venue'', VENUE), (ascii ''result'', res)] (IntValue v)) (results md_stats) e2;
          e4 = latency_metrics st e3;
          e5 = family (ascii ''bowst_md_last_report_timestamp_seconds'') Gauge
                 (ascii ''Unix time of the latest session report (every 10 s); stops advancing if the market-data thread stalls.'') e4
      in sample (ascii ''bowst_md_last_report_timestamp_seconds'') venue_labels (NanosValue (case report_at of None \<Rightarrow> 0 | Some t \<Rightarrow> t)) e5)"

fun state_name :: "journal_health \<Rightarrow> byte list" where
  "state_name Healthy = ascii ''ok''"
| "state_name (Degraded n) = ascii ''degraded''"
| "state_name journal_health.Failed = ascii ''failed''"

definition journal :: "metrics_state \<Rightarrow> exposition \<Rightarrow> exposition" where
  "journal st e =
     (case mt_journal st of
        None \<Rightarrow> e
      | Some h \<Rightarrow>
          let e1 = family (ascii ''bowst_journal_state'') Gauge
                     (ascii ''1 for the journal's current state: ok, degraded (records dropped) or failed (not persisting).'') e;
              e2 = fold (\<lambda>n. sample (ascii ''bowst_journal_state'') [(ascii ''state'', n)] (IntValue (of_bool (n = state_name h))))
                     [ascii ''ok'', ascii ''degraded'', ascii ''failed''] e1;
              e3 = family (ascii ''bowst_journal_dropped_records_total'') Counter (ascii ''Records the journal could not accept.'') e2
          in sample (ascii ''bowst_journal_dropped_records_total'') [] (IntValue (mt_journal_dropped st)) e3)"

definition exposed :: "byte list \<Rightarrow> metrics_state \<Rightarrow> instrument_table \<Rightarrow> (nat \<Rightarrow> bool) \<Rightarrow> exposition" where
  "exposed version st tbl live = journal st (session st (connection st tbl live (process version st exposition_new)))"

definition render :: "byte list \<Rightarrow> metrics_state \<Rightarrow> instrument_table \<Rightarrow> (nat \<Rightarrow> bool) \<Rightarrow> byte list" where
  "render version st tbl live = ex_out (exposed version st tbl live)"

section \<open>What the text shows\<close>

definition stats_ok :: "md_stats \<Rightarrow> bool" where
  "stats_ok s \<longleftrightarrow> list_all fits_u64 [st_messages s, st_deltas_applied s, st_book_invalidations s, st_connections s, st_snapshots_requested s,
     st_snapshots_applied s, st_verifications_passed s, st_verification_mismatches s, st_verifications_abandoned s]"

definition metrics_ok :: "metrics_state \<Rightarrow> bool" where
  "metrics_ok st \<longleftrightarrow> fits_u64 (mt_started st) \<and> fits_u64 (mt_journal_dropped st)
     \<and> (case mt_report st of None \<Rightarrow> True | Some (r, t) \<Rightarrow> stats_ok (mr_stats r) \<and> summary_ok (mr_latency r) \<and> summary_ok (mr_latency_total r) \<and> fits_u64 t)"

abbreviation family_pair :: "string \<Rightarrow> metric_type \<Rightarrow> string \<Rightarrow> entry list" where
  "family_pair n k h \<equiv> [HelpOf (ascii n) (ascii h), TypeOf (ascii n) (type_text k)]"

lemma names_ok [simp]:
  "valid_metric_name (ascii ''bowst_build_info'')" "valid_metric_name (ascii ''bowst_start_time_seconds'')" "valid_metric_name (ascii ''bowst_md_connected'')"
  "valid_metric_name (ascii ''bowst_md_instrument_live'')" "valid_metric_name (ascii ''bowst_md_messages_total'')"
  "valid_metric_name (ascii ''bowst_md_deltas_applied_total'')" "valid_metric_name (ascii ''bowst_md_book_invalidations_total'')"
  "valid_metric_name (ascii ''bowst_md_connections_total'')" "valid_metric_name (ascii ''bowst_md_snapshots_requested_total'')"
  "valid_metric_name (ascii ''bowst_md_snapshots_applied_total'')" "valid_metric_name (ascii ''bowst_md_verifications_total'')"
  "valid_metric_name (ascii ''bowst_md_apply_latency_seconds'')" "valid_metric_name (ascii ''bowst_md_apply_latency_seconds'' @ ascii ''_sum'')"
  "valid_metric_name (ascii ''bowst_md_apply_latency_seconds'' @ ascii ''_count'')" "valid_metric_name (ascii ''bowst_md_last_report_timestamp_seconds'')"
  "valid_metric_name (ascii ''bowst_journal_state'')" "valid_metric_name (ascii ''bowst_journal_dropped_records_total'')"
  by (simp_all add: ascii_def of_char_def is_alphabetic_def metric_byte_def)

lemma labels_valid [simp]:
  "valid_label_name (ascii ''version'')" "valid_label_name (ascii ''venue'')" "valid_label_name (ascii ''symbol'')" "valid_label_name (ascii ''result'')"
  "valid_label_name (ascii ''state'')" "valid_label_name (ascii ''quantile'')" "labels_ok venue_labels" "labels_ok (instrument_labels i)"
  by (simp_all add: ascii_def of_char_def is_alphabetic_def label_byte_def venue_labels_def instrument_labels_def)

definition process_entries :: "byte list \<Rightarrow> metrics_state \<Rightarrow> entry list" where
  "process_entries version st =
     family_pair ''bowst_build_info'' Gauge ''Always 1; labels identify the build.'' @ [SampleOf (ascii ''bowst_build_info'') [(ascii ''version'', version)] (IntValue 1)]
     @ family_pair ''bowst_start_time_seconds'' Gauge ''Unix time the process started.'' @ [SampleOf (ascii ''bowst_start_time_seconds'') [] (NanosValue (mt_started st))]"

lemma process_shows: "accepted es e \<Longrightarrow> metrics_ok st \<Longrightarrow> accepted (es @ process_entries version st) (process version st e)"
  unfolding process_entries_def process_def Let_def append.assoc [symmetric]
  by (intro expo.smp_shows expo.fam_shows) (simp_all add: metrics_ok_def range_defs)

definition connection_entries :: "metrics_state \<Rightarrow> instrument_table \<Rightarrow> (nat \<Rightarrow> bool) \<Rightarrow> entry list" where
  "connection_entries st tbl live =
     family_pair ''bowst_md_connected'' Gauge ''1 while the market-data WebSocket is connected.''
     @ [SampleOf (ascii ''bowst_md_connected'') venue_labels (IntValue (of_bool (mt_connected st)))]
     @ family_pair ''bowst_md_instrument_live'' Gauge ''1 while the instrument's book is live and may be used; 0 while it is down.''
     @ map (\<lambda>i. SampleOf (ascii ''bowst_md_instrument_live'') (instrument_labels i) (IntValue (of_bool (live (unat (inst_id i)))))) tbl"

lemma connection_shows: "accepted es e \<Longrightarrow> accepted (es @ connection_entries st tbl live) (connection st tbl live e)"
proof -
  have v: "list_all (\<lambda>i. labels_ok (instrument_labels i) \<and> value_ok (IntValue (of_bool (live (unat (inst_id i)))))) tbl" by (induction tbl) simp_all
  assume "accepted es e"
  then show ?thesis
    unfolding connection_entries_def connection_def Let_def append.assoc [symmetric]
    by (intro expo.samples_show [OF _ _ v] expo.smp_shows expo.fam_shows) simp_all
qed

definition report_stats :: "metrics_state \<Rightarrow> md_stats" where
  "report_stats st = (case mt_report st of None \<Rightarrow> md_stats_default | Some (r, _) \<Rightarrow> mr_stats r)"

definition report_time :: "metrics_state \<Rightarrow> nanos" where
  "report_time st = (case mt_report st of None \<Rightarrow> 0 | Some (_, t) \<Rightarrow> t)"

definition latency_entries :: "metrics_state \<Rightarrow> entry list" where
  "latency_entries st =
     (case mt_report st of
        None \<Rightarrow> []
      | Some (r, _) \<Rightarrow>
          family_pair ''bowst_md_apply_latency_seconds'' Summary
            ''Time to decode one message and apply it to its book. Quantiles cover the last report interval; sum and count cover the whole run.''
          @ map (\<lambda>(q, nanos). SampleOf (ascii ''bowst_md_apply_latency_seconds'') (venue_labels @ [(ascii ''quantile'', q)]) (NanosValue nanos)) (quantiles (mr_latency r))
          @ [SampleOf (ascii ''bowst_md_apply_latency_seconds'' @ ascii ''_sum'') venue_labels (NanosValue (ls_sum (mr_latency_total r)))]
          @ [SampleOf (ascii ''bowst_md_apply_latency_seconds'' @ ascii ''_count'') venue_labels (IntValue (ls_count (mr_latency_total r)))])"

definition session_entries :: "metrics_state \<Rightarrow> entry list" where
  "session_entries st =
     concat (map (\<lambda>(n, h, v). [HelpOf n h, TypeOf n (type_text Counter), SampleOf n venue_labels (IntValue v)]) (counters (report_stats st)))
     @ family_pair ''bowst_md_verifications_total'' Counter ''Book verifications against fresh snapshots, by result.''
     @ map (\<lambda>(res, v). SampleOf (ascii ''bowst_md_verifications_total'') [(ascii ''venue'', VENUE), (ascii ''result'', res)] (IntValue v)) (results (report_stats st))
     @ latency_entries st
     @ family_pair ''bowst_md_last_report_timestamp_seconds'' Gauge
         ''Unix time of the latest session report (every 10 s); stops advancing if the market-data thread stalls.''
     @ [SampleOf (ascii ''bowst_md_last_report_timestamp_seconds'') venue_labels (NanosValue (report_time st))]"

lemma counters_show:
  assumes "accepted es e" "list_all (\<lambda>(n, h, v). valid_metric_name n \<and> fits_u64 v) cs"
  shows "accepted (es @ concat (map (\<lambda>(n, h, v). [HelpOf n h, TypeOf n (type_text Counter), SampleOf n venue_labels (IntValue v)]) cs))
    (fold (\<lambda>(n, h, v) e. sample n venue_labels (IntValue v) (family n Counter h e)) cs e)"
  using assms
proof (induction cs arbitrary: es e)
  case (Cons c cs)
  obtain n h v where c: "c = (n, h, v)" by (cases c)
  have "accepted (es @ [HelpOf n h, TypeOf n (type_text Counter), SampleOf n venue_labels (IntValue v)]) (sample n venue_labels (IntValue v) (family n Counter h e))"
    using Cons.prems c by (intro expo.counter_shows) (simp_all add: range_defs)
  from Cons.IH [OF this] Cons.prems(2) c show ?case by simp
qed simp

lemma latency_shows:
  assumes "accepted es e" "metrics_ok st"
  shows "accepted (es @ latency_entries st) (latency_metrics st e)"
proof (cases "mt_report st")
  case None
  then show ?thesis using assms(1) by (simp add: latency_entries_def latency_metrics_def)
next
  case (Some x)
  obtain r t where x: "x = (r, t)" by (cases x)
  have ok: "summary_ok (mr_latency r)" "summary_ok (mr_latency_total r)" using assms(2) Some x by (simp_all add: metrics_ok_def)
  have "list_all (\<lambda>y. labels_ok (venue_labels @ [(ascii ''quantile'', fst y)]) \<and> value_ok (NanosValue (snd y))) (quantiles (mr_latency r))"
    using ok(1) by (simp add: quantiles_def summary_ok_def range_defs)
  note v = expo.samples_show [where l = "\<lambda>y. venue_labels @ [(ascii ''quantile'', fst y)]" and v = "\<lambda>y. NanosValue (snd y)", OF _ _ this]
  show ?thesis
    unfolding latency_entries_def latency_metrics_def Some x option.case prod.case summary_def Let_def append.assoc [symmetric] split_beta fst_conv
    by (intro expo.smp_shows v expo.fam_shows assms(1)) (use ok in \<open>simp_all add: summary_ok_def range_defs\<close>)
qed

lemma session_shows:
  assumes "accepted es e" "metrics_ok st"
  shows "accepted (es @ session_entries st) (session st e)"
proof -
  have s: "session st e = (let md_stats = report_stats st;
      e1 = fold (\<lambda>(name, help, v) e. sample name venue_labels (IntValue v) (family name Counter help e)) (counters md_stats) e;
      e2 = family (ascii ''bowst_md_verifications_total'') Counter (ascii ''Book verifications against fresh snapshots, by result.'') e1;
      e3 = fold (\<lambda>(res, v). sample (ascii ''bowst_md_verifications_total'') [(ascii ''venue'', VENUE), (ascii ''result'', res)] (IntValue v)) (results md_stats) e2;
      e4 = latency_metrics st e3;
      e5 = family (ascii ''bowst_md_last_report_timestamp_seconds'') Gauge
             (ascii ''Unix time of the latest session report (every 10 s); stops advancing if the market-data thread stalls.'') e4
      in sample (ascii ''bowst_md_last_report_timestamp_seconds'') venue_labels (NanosValue (report_time st)) e5)"
    by (simp add: session_def report_stats_def report_time_def Let_def split: option.split)
  have "stats_ok (report_stats st)" "fits_u64 (report_time st)"
    using assms(2) by (auto simp: metrics_ok_def report_stats_def report_time_def stats_ok_def md_stats_default_def range_defs split: option.splits)
  then have c: "list_all (\<lambda>(n, h, v). valid_metric_name n \<and> fits_u64 v) (counters (report_stats st))"
    and v: "list_all (\<lambda>y. labels_ok [(ascii ''venue'', VENUE), (ascii ''result'', fst y)] \<and> value_ok (IntValue (snd y))) (results (report_stats st))"
    and t: "value_ok (NanosValue (report_time st))"
    by (simp_all add: counters_def results_def stats_ok_def range_defs)
  have w: "accepted ds x \<Longrightarrow>
      accepted (ds @ map (\<lambda>(res, v). SampleOf (ascii ''bowst_md_verifications_total'') [(ascii ''venue'', VENUE), (ascii ''result'', res)] (IntValue v)) (results (report_stats st)))
        (fold (\<lambda>(res, v). sample (ascii ''bowst_md_verifications_total'') [(ascii ''venue'', VENUE), (ascii ''result'', res)] (IntValue v)) (results (report_stats st)) x)" for ds x
    using expo.samples_show [where l = "\<lambda>y. [(ascii ''venue'', VENUE), (ascii ''result'', fst y)]" and v = "\<lambda>y. IntValue (snd y)" and
        n = "ascii ''bowst_md_verifications_total''", OF _ _ v, of ds x] unfolding case_prod_beta' by simp
  show ?thesis
    unfolding s session_entries_def Let_def append.assoc [symmetric]
    by (intro expo.smp_shows expo.fam_shows latency_shows w counters_show [OF assms(1) c] assms(2))
      (use t in simp_all)
qed

definition journal_entries :: "metrics_state \<Rightarrow> entry list" where
  "journal_entries st =
     (case mt_journal st of
        None \<Rightarrow> []
      | Some h \<Rightarrow>
          family_pair ''bowst_journal_state'' Gauge ''1 for the journal's current state: ok, degraded (records dropped) or failed (not persisting).''
          @ map (\<lambda>n. SampleOf (ascii ''bowst_journal_state'') [(ascii ''state'', n)] (IntValue (of_bool (n = state_name h)))) [ascii ''ok'', ascii ''degraded'', ascii ''failed'']
          @ family_pair ''bowst_journal_dropped_records_total'' Counter ''Records the journal could not accept.''
          @ [SampleOf (ascii ''bowst_journal_dropped_records_total'') [] (IntValue (mt_journal_dropped st))])"

lemma journal_shows:
  assumes "accepted es e" "metrics_ok st"
  shows "accepted (es @ journal_entries st) (journal st e)"
proof (cases "mt_journal st")
  case None
  then show ?thesis using assms(1) by (simp add: journal_entries_def journal_def)
next
  case (Some h)
  have "list_all (\<lambda>n. labels_ok [(ascii ''state'', n)] \<and> value_ok (IntValue (of_bool (n = state_name h)))) [ascii ''ok'', ascii ''degraded'', ascii ''failed'']" by simp
  note v = expo.samples_show [where l = "\<lambda>n. [(ascii ''state'', n)]" and v = "\<lambda>n. IntValue (of_bool (n = state_name h))", OF _ _ this]
  show ?thesis
    unfolding journal_entries_def journal_def Some option.case Let_def append.assoc [symmetric]
    by (intro expo.smp_shows v expo.fam_shows assms(1)) (use assms(2) in \<open>simp_all add: metrics_ok_def range_defs\<close>)
qed

text \<open>Every sample belongs to a family declared before it, and no family is declared twice.\<close>

fun families :: "entry list \<Rightarrow> byte list list" where
  "families [] = []"
| "families (TypeOf n k # es) = n # families es"
| "families (e # es) = families es"

definition belongs :: "byte list list \<Rightarrow> byte list \<Rightarrow> bool" where
  "belongs fs n \<longleftrightarrow> n \<in> set fs \<union> (\<lambda>f. f @ ascii ''_sum'') ` set fs \<union> (\<lambda>f. f @ ascii ''_count'') ` set fs"

fun declared :: "byte list list \<Rightarrow> entry list \<Rightarrow> bool" where
  "declared fs [] \<longleftrightarrow> True"
| "declared fs (HelpOf n h # es) \<longleftrightarrow> n \<notin> set fs \<and> declared fs es"
| "declared fs (TypeOf n k # es) \<longleftrightarrow> n \<notin> set fs \<and> declared (n # fs) es"
| "declared fs (SampleOf n ls v # es) \<longleftrightarrow> belongs fs n \<and> declared fs es"

lemma declared_append: "declared fs (xs @ ys) \<longleftrightarrow> declared fs xs \<and> declared (rev (families xs) @ fs) ys"
  by (induction fs xs rule: declared.induct) auto

lemma families_append: "families (xs @ ys) = families xs @ families ys"
  by (induction xs rule: families.induct) auto

lemma declared_samples [simp]:
  "belongs fs n \<Longrightarrow> declared fs (map (\<lambda>x. SampleOf n (l x) (v x)) xs)" "families (map (\<lambda>x. SampleOf n (l x) (v x)) xs) = []"
  by (induction xs) simp_all

lemma belongs_family [simp]: "belongs (n # fs) n" "belongs (n # fs) (n @ ascii ''_sum'')" "belongs (n # fs) (n @ ascii ''_count'')"
  by (simp_all add: belongs_def)

lemma metric_names_distinct:
  "distinct (map ascii [''bowst_build_info'', ''bowst_start_time_seconds'', ''bowst_md_connected'', ''bowst_md_instrument_live'', ''bowst_md_messages_total'',
     ''bowst_md_deltas_applied_total'', ''bowst_md_book_invalidations_total'', ''bowst_md_connections_total'', ''bowst_md_snapshots_requested_total'',
     ''bowst_md_snapshots_applied_total'', ''bowst_md_verifications_total'', ''bowst_md_apply_latency_seconds'', ''bowst_md_last_report_timestamp_seconds'',
     ''bowst_journal_state'', ''bowst_journal_dropped_records_total''])"
  by (simp add: ascii_def of_char_def)

definition metrics_entries :: "byte list \<Rightarrow> metrics_state \<Rightarrow> instrument_table \<Rightarrow> (nat \<Rightarrow> bool) \<Rightarrow> entry list" where
  "metrics_entries version st tbl live = process_entries version st @ connection_entries st tbl live @ session_entries st @ journal_entries st"

lemma metrics_declared: "declared [] (metrics_entries version st tbl live)"
  using metric_names_distinct distinct_rev [THEN iffD2, OF metric_names_distinct]
  by (cases "mt_report st"; cases "mt_journal st")
    (simp_all add: metrics_entries_def declared_append families_append process_entries_def connection_entries_def session_entries_def journal_entries_def
      latency_entries_def counters_def results_def quantiles_def split_beta del: distinct_append)

definition gauges :: "instrument_table \<Rightarrow> (nat \<Rightarrow> bool) \<Rightarrow> entry set" where
  "gauges tbl live = (\<lambda>i. SampleOf (ascii ''bowst_md_instrument_live'') (instrument_labels i) (IntValue (of_bool (live (unat (inst_id i)))))) ` set tbl"

lemma entries_gauges: "gauges tbl live \<subseteq> set (metrics_entries version st tbl live)"
  unfolding gauges_def metrics_entries_def connection_entries_def set_append set_map by blast

lemma rendered_entries:
  assumes "metrics_ok st"
  shows "scrape (render version st tbl live) = Some (metrics_entries version st tbl live)" "ex_rejected (exposed version st tbl live) = 0"
proof -
  have "accepted (metrics_entries version st tbl live) (exposed version st tbl live)"
    using journal_shows [OF session_shows [OF connection_shows [OF process_shows [OF accepted_new assms]] assms] assms]
    by (simp add: exposed_def metrics_entries_def)
  then show "scrape (render version st tbl live) = Some (metrics_entries version st tbl live)" "ex_rejected (exposed version st tbl live) = 0"
    using wrote_scrapes by (simp_all add: accepted_def render_def)
qed

fun is_sample :: "entry \<Rightarrow> bool" where
  "is_sample (SampleOf n ls v) \<longleftrightarrow> True"
| "is_sample e \<longleftrightarrow> False"

abbreviation venue_counter :: "string \<Rightarrow> nat \<Rightarrow> entry" where
  "venue_counter n v \<equiv> SampleOf (ascii n) venue_labels (IntValue v)"

abbreviation verification_counter :: "string \<Rightarrow> nat \<Rightarrow> entry" where
  "verification_counter res v \<equiv> SampleOf (ascii ''bowst_md_verifications_total'') [(ascii ''venue'', VENUE), (ascii ''result'', ascii res)] (IntValue v)"

abbreviation latency_quantile :: "string \<Rightarrow> nat \<Rightarrow> entry" where
  "latency_quantile q v \<equiv> SampleOf (ascii ''bowst_md_apply_latency_seconds'') [(ascii ''venue'', VENUE), (ascii ''quantile'', ascii q)] (NanosValue v)"

abbreviation journal_gauge :: "string \<Rightarrow> bool \<Rightarrow> entry" where
  "journal_gauge n b \<equiv> SampleOf (ascii ''bowst_journal_state'') [(ascii ''state'', ascii n)] (IntValue (of_bool b))"

lemma state_names: "ascii ''ok'' \<noteq> ascii ''degraded''" "ascii ''ok'' \<noteq> ascii ''failed''" "ascii ''degraded'' \<noteq> ascii ''failed''"
  by (simp_all add: ascii_def of_char_def)

lemma process_samples:
  "filter is_sample (process_entries version st) =
     [SampleOf (ascii ''bowst_build_info'') [(ascii ''version'', version)] (IntValue 1), SampleOf (ascii ''bowst_start_time_seconds'') [] (NanosValue (mt_started st))]"
  by (simp add: process_entries_def)

lemma connection_samples:
  "filter is_sample (connection_entries st tbl live) = venue_counter ''bowst_md_connected'' (of_bool (mt_connected st))
     # map (\<lambda>i. SampleOf (ascii ''bowst_md_instrument_live'') (instrument_labels i) (IntValue (of_bool (live (unat (inst_id i)))))) tbl"
  by (simp add: connection_entries_def filter_map comp_def)

lemma latency_samples:
  "filter is_sample (latency_entries st) =
     (case mt_report st of
        None \<Rightarrow> []
      | Some (r, _) \<Rightarrow>
          [latency_quantile ''0.5'' (ls_p50 (mr_latency r)), latency_quantile ''0.9'' (ls_p90 (mr_latency r)), latency_quantile ''0.99'' (ls_p99 (mr_latency r)),
           latency_quantile ''0.999'' (ls_p999 (mr_latency r)),
           SampleOf (ascii ''bowst_md_apply_latency_seconds_sum'') venue_labels (NanosValue (ls_sum (mr_latency_total r))),
           venue_counter ''bowst_md_apply_latency_seconds_count'' (ls_count (mr_latency_total r))])"
  by (simp add: latency_entries_def quantiles_def venue_labels_def ascii_def split: option.split)

lemma session_samples:
  "filter is_sample (session_entries st) =
     [venue_counter ''bowst_md_messages_total'' (st_messages (report_stats st)),
      venue_counter ''bowst_md_deltas_applied_total'' (st_deltas_applied (report_stats st)),
      venue_counter ''bowst_md_book_invalidations_total'' (st_book_invalidations (report_stats st)),
      venue_counter ''bowst_md_connections_total'' (st_connections (report_stats st)),
      venue_counter ''bowst_md_snapshots_requested_total'' (st_snapshots_requested (report_stats st)),
      venue_counter ''bowst_md_snapshots_applied_total'' (st_snapshots_applied (report_stats st)),
      verification_counter ''passed'' (st_verifications_passed (report_stats st)),
      verification_counter ''mismatch'' (st_verification_mismatches (report_stats st)),
      verification_counter ''abandoned'' (st_verifications_abandoned (report_stats st))]
     @ filter is_sample (latency_entries st)
     @ [SampleOf (ascii ''bowst_md_last_report_timestamp_seconds'') venue_labels (NanosValue (report_time st))]"
  by (simp add: session_entries_def counters_def results_def)

lemma journal_samples:
  "filter is_sample (journal_entries st) =
     (case mt_journal st of
        None \<Rightarrow> []
      | Some h \<Rightarrow>
          [journal_gauge ''ok'' (h = Healthy), journal_gauge ''degraded'' (\<exists>n. h = Degraded n), journal_gauge ''failed'' (h = journal_health.Failed),
           SampleOf (ascii ''bowst_journal_dropped_records_total'') [] (IntValue (mt_journal_dropped st))])"
proof (cases "mt_journal st")
  case (Some h)
  then show ?thesis using state_names by (cases h) (auto simp: journal_entries_def)
qed (simp add: journal_entries_def)

lemmas page_samples = process_samples connection_samples session_samples latency_samples journal_samples

section \<open>Properties\<close>

text \<open>C21: What a scrape shows.  The text parses, nothing was left out for an invalid name, every family is declared once and
  before its samples, and the samples are exactly these, in order: the build and the start, the connection, one gauge for each
  configured instrument with the state of its book, the nine counters of the latest report (zero before the first) and the
  latency quantiles, sum and count it gives, the time of that report, and the state and the losses of the journal, if there
  is one.\<close>

theorem metrics_rendered:
  assumes "metrics_ok st"
  shows "\<exists>es. scrape (render version st tbl live) = Some es \<and> ex_rejected (exposed version st tbl live) = 0 \<and> declared [] es
    \<and> filter is_sample es =
        [SampleOf (ascii ''bowst_build_info'') [(ascii ''version'', version)] (IntValue 1),
         SampleOf (ascii ''bowst_start_time_seconds'') [] (NanosValue (mt_started st)),
         venue_counter ''bowst_md_connected'' (of_bool (mt_connected st))]
        @ map (\<lambda>i. SampleOf (ascii ''bowst_md_instrument_live'') (instrument_labels i) (IntValue (of_bool (live (unat (inst_id i)))))) tbl
        @ [venue_counter ''bowst_md_messages_total'' (st_messages (report_stats st)),
           venue_counter ''bowst_md_deltas_applied_total'' (st_deltas_applied (report_stats st)),
           venue_counter ''bowst_md_book_invalidations_total'' (st_book_invalidations (report_stats st)),
           venue_counter ''bowst_md_connections_total'' (st_connections (report_stats st)),
           venue_counter ''bowst_md_snapshots_requested_total'' (st_snapshots_requested (report_stats st)),
           venue_counter ''bowst_md_snapshots_applied_total'' (st_snapshots_applied (report_stats st)),
           verification_counter ''passed'' (st_verifications_passed (report_stats st)),
           verification_counter ''mismatch'' (st_verification_mismatches (report_stats st)),
           verification_counter ''abandoned'' (st_verifications_abandoned (report_stats st))]
        @ (case mt_report st of
             None \<Rightarrow> []
           | Some (r, _) \<Rightarrow>
               [latency_quantile ''0.5'' (ls_p50 (mr_latency r)), latency_quantile ''0.9'' (ls_p90 (mr_latency r)),
                latency_quantile ''0.99'' (ls_p99 (mr_latency r)), latency_quantile ''0.999'' (ls_p999 (mr_latency r)),
                SampleOf (ascii ''bowst_md_apply_latency_seconds_sum'') venue_labels (NanosValue (ls_sum (mr_latency_total r))),
                venue_counter ''bowst_md_apply_latency_seconds_count'' (ls_count (mr_latency_total r))])
        @ [SampleOf (ascii ''bowst_md_last_report_timestamp_seconds'') venue_labels (NanosValue (report_time st))]
        @ (case mt_journal st of
             None \<Rightarrow> []
           | Some h \<Rightarrow>
               [journal_gauge ''ok'' (h = Healthy), journal_gauge ''degraded'' (\<exists>n. h = Degraded n), journal_gauge ''failed'' (h = journal_health.Failed),
                SampleOf (ascii ''bowst_journal_dropped_records_total'') [] (IntValue (mt_journal_dropped st))])"
proof (intro exI conjI)
  show "scrape (render version st tbl live) = Some (metrics_entries version st tbl live)" "ex_rejected (exposed version st tbl live) = 0"
    by (rule rendered_entries [OF assms])+
  show "declared [] (metrics_entries version st tbl live)" by (rule metrics_declared)
qed (simp add: metrics_entries_def page_samples)

definition demo_metrics :: metrics_state where
  "demo_metrics = metrics_state_default\<lparr>mt_connected := True, mt_journal := Some (Degraded 3), mt_journal_dropped := 3\<rparr>"

theorem metrics_rendered_witness:
  "\<exists>es. scrape (render [49] demo_metrics [demo_listing] (\<lambda>i. i = 0)) = Some es \<and> declared [] es
     \<and> SampleOf (ascii ''bowst_md_instrument_live'') (instrument_labels demo_listing) (IntValue 1) \<in> set (filter is_sample es)
     \<and> venue_counter ''bowst_md_connected'' 1 \<in> set (filter is_sample es) \<and> venue_counter ''bowst_md_messages_total'' 0 \<in> set (filter is_sample es)
     \<and> journal_gauge ''degraded'' True \<in> set (filter is_sample es)
     \<and> SampleOf (ascii ''bowst_journal_dropped_records_total'') [] (IntValue 3) \<in> set (filter is_sample es)"
proof -
  have "metrics_ok demo_metrics" by (simp add: metrics_ok_def demo_metrics_def metrics_state_default_def range_defs)
  from metrics_rendered [OF this, of "[49]" "[demo_listing]" "\<lambda>i. i = 0"] obtain es where
    es: "scrape (render [49] demo_metrics [demo_listing] (\<lambda>i. i = 0)) = Some es" "declared [] es"
    and f: "filter is_sample es = filter is_sample (metrics_entries [49] demo_metrics [demo_listing] (\<lambda>i. i = 0))"
    unfolding metrics_entries_def filter_append page_samples by auto
  show ?thesis
    by (intro exI [of _ es] conjI es; unfold f)
      (simp_all add: metrics_entries_def page_samples demo_metrics_def metrics_state_default_def report_stats_def md_stats_default_def demo_listing_def demo_instrument_def)
qed

end
