(* ===== verification/Md_Resync.thy ===== *)
theory Md_Resync
  imports Md_Session
begin

text \<open>
  What holds in every state a session can reach, whatever arrives and whenever: its bookkeeping of snapshot requests, of
  connections and of verifications.
\<close>

section \<open>What the helpers leave alone\<close>

lemma now_frame [simp]:
  "ms_config (snd (now s)) = ms_config s"
  "ms_stream_url (snd (now s)) = ms_stream_url s"
  "ms_books (snd (now s)) = ms_books s"
  "ms_states (snd (now s)) = ms_states s"
  "ms_jobs (snd (now s)) = ms_jobs s"
  "ms_results (snd (now s)) = ms_results s"
  "ms_worker (snd (now s)) = ms_worker s"
  "ms_generation (snd (now s)) = ms_generation s"
  "ms_calls (snd (now s)) = ms_calls s"
  "ms_journal (snd (now s)) = ms_journal s"
  "ms_clock (snd (now s)) = ms_clock s"
  "ms_interval_latency (snd (now s)) = ms_interval_latency s"
  "ms_total_latency (snd (now s)) = ms_total_latency s"
  "ms_verification (snd (now s)) = ms_verification s"
  "ms_next_verification (snd (now s)) = ms_next_verification s"
  "ms_verify_cursor (snd (now s)) = ms_verify_cursor s"
  "ms_report_started (snd (now s)) = ms_report_started s"
  by (simp_all add: now_def)

lemma later_frame [simp]:
  "ms_config (snd (later w s)) = ms_config s"
  "ms_stream_url (snd (later w s)) = ms_stream_url s"
  "ms_books (snd (later w s)) = ms_books s"
  "ms_states (snd (later w s)) = ms_states s"
  "ms_jobs (snd (later w s)) = ms_jobs s"
  "ms_results (snd (later w s)) = ms_results s"
  "ms_worker (snd (later w s)) = ms_worker s"
  "ms_generation (snd (later w s)) = ms_generation s"
  "ms_calls (snd (later w s)) = ms_calls s"
  "ms_journal (snd (later w s)) = ms_journal s"
  "ms_clock (snd (later w s)) = ms_clock s"
  "ms_interval_latency (snd (later w s)) = ms_interval_latency s"
  "ms_total_latency (snd (later w s)) = ms_total_latency s"
  "ms_verification (snd (later w s)) = ms_verification s"
  "ms_next_verification (snd (later w s)) = ms_next_verification s"
  "ms_verify_cursor (snd (later w s)) = ms_verify_cursor s"
  "ms_report_started (snd (later w s)) = ms_report_started s"
  by (simp_all add: later_def now_def)

lemma journal_append_frame [simp]:
  "ms_config (journal_append k w ps s) = ms_config s"
  "ms_stream_url (journal_append k w ps s) = ms_stream_url s"
  "ms_books (journal_append k w ps s) = ms_books s"
  "ms_states (journal_append k w ps s) = ms_states s"
  "ms_jobs (journal_append k w ps s) = ms_jobs s"
  "ms_results (journal_append k w ps s) = ms_results s"
  "ms_worker (journal_append k w ps s) = ms_worker s"
  "ms_generation (journal_append k w ps s) = ms_generation s"
  "ms_calls (journal_append k w ps s) = ms_calls s"
  "ms_clock (journal_append k w ps s) = ms_clock s"
  "ms_interval_latency (journal_append k w ps s) = ms_interval_latency s"
  "ms_total_latency (journal_append k w ps s) = ms_total_latency s"
  "ms_verification (journal_append k w ps s) = ms_verification s"
  "ms_next_verification (journal_append k w ps s) = ms_next_verification s"
  "ms_verify_cursor (journal_append k w ps s) = ms_verify_cursor s"
  "ms_report_started (journal_append k w ps s) = ms_report_started s"
  by (simp_all add: journal_append_def now_def Let_def split: option.split)

lemma tell_frame [simp]:
  "ms_config (tell ns s) = ms_config s"
  "ms_stream_url (tell ns s) = ms_stream_url s"
  "ms_books (tell ns s) = ms_books s"
  "ms_states (tell ns s) = ms_states s"
  "ms_jobs (tell ns s) = ms_jobs s"
  "ms_results (tell ns s) = ms_results s"
  "ms_worker (tell ns s) = ms_worker s"
  "ms_generation (tell ns s) = ms_generation s"
  "ms_journal (tell ns s) = ms_journal s"
  "ms_clock (tell ns s) = ms_clock s"
  "ms_ticks (tell ns s) = ms_ticks s"
  "ms_interval_latency (tell ns s) = ms_interval_latency s"
  "ms_total_latency (tell ns s) = ms_total_latency s"
  "ms_verification (tell ns s) = ms_verification s"
  "ms_next_verification (tell ns s) = ms_next_verification s"
  "ms_verify_cursor (tell ns s) = ms_verify_cursor s"
  "ms_report_started (tell ns s) = ms_report_started s"
  by (simp_all add: tell_def)

lemma status_frame [simp]:
  "ms_config (status d st s) = ms_config s"
  "ms_stream_url (status d st s) = ms_stream_url s"
  "ms_books (status d st s) = ms_books s"
  "ms_states (status d st s) = ms_states s"
  "ms_jobs (status d st s) = ms_jobs s"
  "ms_results (status d st s) = ms_results s"
  "ms_worker (status d st s) = ms_worker s"
  "ms_generation (status d st s) = ms_generation s"
  "ms_clock (status d st s) = ms_clock s"
  "ms_interval_latency (status d st s) = ms_interval_latency s"
  "ms_total_latency (status d st s) = ms_total_latency s"
  "ms_verification (status d st s) = ms_verification s"
  "ms_next_verification (status d st s) = ms_next_verification s"
  "ms_verify_cursor (status d st s) = ms_verify_cursor s"
  "ms_report_started (status d st s) = ms_report_started s"
  by (simp_all add: status_def)

lemma set_state_frame [simp]:
  "ms_config (set_state k st s) = ms_config s"
  "ms_stream_url (set_state k st s) = ms_stream_url s"
  "ms_books (set_state k st s) = ms_books s"
  "ms_jobs (set_state k st s) = ms_jobs s"
  "ms_results (set_state k st s) = ms_results s"
  "ms_worker (set_state k st s) = ms_worker s"
  "ms_generation (set_state k st s) = ms_generation s"
  "ms_calls (set_state k st s) = ms_calls s"
  "ms_journal (set_state k st s) = ms_journal s"
  "ms_clock (set_state k st s) = ms_clock s"
  "ms_ticks (set_state k st s) = ms_ticks s"
  "ms_interval_latency (set_state k st s) = ms_interval_latency s"
  "ms_total_latency (set_state k st s) = ms_total_latency s"
  "ms_verification (set_state k st s) = ms_verification s"
  "ms_next_verification (set_state k st s) = ms_next_verification s"
  "ms_verify_cursor (set_state k st s) = ms_verify_cursor s"
  "ms_report_started (set_state k st s) = ms_report_started s"
  by (simp_all add: set_state_def)

lemma send_job_frame [simp]:
  "ms_config (send_job i p s) = ms_config s"
  "ms_stream_url (send_job i p s) = ms_stream_url s"
  "ms_books (send_job i p s) = ms_books s"
  "ms_states (send_job i p s) = ms_states s"
  "ms_results (send_job i p s) = ms_results s"
  "ms_worker (send_job i p s) = ms_worker s"
  "ms_generation (send_job i p s) = ms_generation s"
  "ms_calls (send_job i p s) = ms_calls s"
  "ms_journal (send_job i p s) = ms_journal s"
  "ms_clock (send_job i p s) = ms_clock s"
  "ms_ticks (send_job i p s) = ms_ticks s"
  "ms_interval_latency (send_job i p s) = ms_interval_latency s"
  "ms_total_latency (send_job i p s) = ms_total_latency s"
  "ms_verification (send_job i p s) = ms_verification s"
  "ms_next_verification (send_job i p s) = ms_next_verification s"
  "ms_verify_cursor (send_job i p s) = ms_verify_cursor s"
  "ms_report_started (send_job i p s) = ms_report_started s"
  by (simp_all add: send_job_def)

lemma count_abandoned_frame [simp]:
  "ms_config (count_abandoned s) = ms_config s"
  "ms_stream_url (count_abandoned s) = ms_stream_url s"
  "ms_states (count_abandoned s) = ms_states s"
  "ms_jobs (count_abandoned s) = ms_jobs s"
  "ms_results (count_abandoned s) = ms_results s"
  "ms_worker (count_abandoned s) = ms_worker s"
  "ms_generation (count_abandoned s) = ms_generation s"
  "ms_calls (count_abandoned s) = ms_calls s"
  "ms_journal (count_abandoned s) = ms_journal s"
  "ms_clock (count_abandoned s) = ms_clock s"
  "ms_ticks (count_abandoned s) = ms_ticks s"
  "ms_interval_latency (count_abandoned s) = ms_interval_latency s"
  "ms_total_latency (count_abandoned s) = ms_total_latency s"
  "ms_verification (count_abandoned s) = ms_verification s"
  "ms_next_verification (count_abandoned s) = ms_next_verification s"
  "ms_verify_cursor (count_abandoned s) = ms_verify_cursor s"
  "ms_report_started (count_abandoned s) = ms_report_started s"
  by (simp_all add: count_abandoned_def)

lemma bump_connections_frame [simp]:
  "ms_config (bump_connections s) = ms_config s"
  "ms_stream_url (bump_connections s) = ms_stream_url s"
  "ms_states (bump_connections s) = ms_states s"
  "ms_jobs (bump_connections s) = ms_jobs s"
  "ms_results (bump_connections s) = ms_results s"
  "ms_worker (bump_connections s) = ms_worker s"
  "ms_generation (bump_connections s) = ms_generation s"
  "ms_calls (bump_connections s) = ms_calls s"
  "ms_journal (bump_connections s) = ms_journal s"
  "ms_clock (bump_connections s) = ms_clock s"
  "ms_ticks (bump_connections s) = ms_ticks s"
  "ms_interval_latency (bump_connections s) = ms_interval_latency s"
  "ms_total_latency (bump_connections s) = ms_total_latency s"
  "ms_verification (bump_connections s) = ms_verification s"
  "ms_next_verification (bump_connections s) = ms_next_verification s"
  "ms_verify_cursor (bump_connections s) = ms_verify_cursor s"
  "ms_report_started (bump_connections s) = ms_report_started s"
  by (simp_all add: bump_connections_def)

lemma deliver_frame [simp]:
  "ms_config (deliver f s) = ms_config s"
  "ms_stream_url (deliver f s) = ms_stream_url s"
  "ms_books (deliver f s) = ms_books s"
  "ms_states (deliver f s) = ms_states s"
  "ms_worker (deliver f s) = ms_worker s"
  "ms_generation (deliver f s) = ms_generation s"
  "ms_calls (deliver f s) = ms_calls s"
  "ms_journal (deliver f s) = ms_journal s"
  "ms_clock (deliver f s) = ms_clock s"
  "ms_ticks (deliver f s) = ms_ticks s"
  "ms_interval_latency (deliver f s) = ms_interval_latency s"
  "ms_total_latency (deliver f s) = ms_total_latency s"
  "ms_verification (deliver f s) = ms_verification s"
  "ms_next_verification (deliver f s) = ms_next_verification s"
  "ms_verify_cursor (deliver f s) = ms_verify_cursor s"
  "ms_report_started (deliver f s) = ms_report_started s"
  by (simp_all add: deliver_def split: list.split)

section \<open>What the books' operations leave alone\<close>

definition shape :: "md_books \<Rightarrow> instrument_table \<times> nat \<times> nat" where
  "shape b = (mb_instruments b, length (mb_syncs b), sd_limit (mb_snapshot_decoder b))"

lemma shape_sel [simp]:
  "shape (b\<lparr>mb_stats := x\<rparr>) = shape b" "shape (b\<lparr>mb_shadow := sh\<rparr>) = shape b" "shape (b\<lparr>mb_decoder := dec\<rparr>) = shape b"
  "shape (set_sync i y b) = shape b" "shape (bump_invalidations b) = shape b" "shape (cancel_verification b) = shape b"
  "shape (feed_shadow r us b) = shape b" "shape (bump_requested b) = shape b" "shape (reset_all b) = shape b"
  "shape (snd (start_verification i b)) = shape b"
  by (simp_all add: shape_def set_sync_def bump_invalidations_def cancel_verification_def feed_shadow_def bump_requested_def reset_all_def
      start_verification_def split: option.split)

lemma shape_settle [simp]: "shape (snd (settle_verification b)) = shape b"
  by (simp add: settle_verification_def Let_def split: option.split prod.split)

lemma shape_apply_update: "apply_update u y b = (a, b') \<Longrightarrow> shape b' = shape b"
proof -
  assume eq: "apply_update u y b = (a, b')"
  have "settle_verification x = (m, b1) \<Longrightarrow> shape b1 = shape x" for x m b1 using shape_settle [of x] by simp
  then show ?thesis using eq
    by (auto simp: apply_update_def Let_def split: prod.splits result.splits delta_outcome.splits option.splits if_splits)
qed

lemma shape_apply [simp]: "shape (snd (md_apply m b)) = shape b"
proof -
  have d: "shape (b\<lparr>mb_stats := x, mb_decoder := dec\<rparr>) = shape b" for x dec by (simp add: shape_def)
  show ?thesis
    using shape_apply_update
    by (fastforce simp: md_apply_def Let_def d split: prod.splits result.splits option.splits)
qed

lemma shape_on_snapshot [simp]: "shape (snd (snd (md_on_snapshot i u bids asks t b))) = shape b"
  by (simp add: md_on_snapshot_def settle_def Let_def split: prod.split option.split result.split bool.split sync_error.split)

lemma shape_after_verification [simp]: "shape (snd (snd (after_verification_snapshot i ok b))) = shape b"
proof -
  have "settle_verification x = (m, b1) \<Longrightarrow> shape b1 = shape x" for x m b1 using shape_settle [of x] by simp
  from this [of "b\<lparr>mb_shadow := (mb_shadow b)\<lparr>sh_loaded := True\<rparr>\<rparr>"] show ?thesis
    by (auto simp: after_verification_snapshot_def split: prod.splits option.splits)
qed

lemma shape_on_verification_snapshot [simp]: "shape (snd (snd (md_on_verification_snapshot i u bids asks b))) = shape b"
  by (simp add: md_on_verification_snapshot_def Let_def split: prod.split)

text \<open>An operation of the books ends a verification or leaves it alone; only \<open>start_verification\<close> begins one.\<close>

lemma verifying_sel [simp]:
  "verifying (b\<lparr>mb_stats := x\<rparr>) = verifying b" "verifying (b\<lparr>mb_decoder := dec\<rparr>) = verifying b"
  "verifying (set_sync i y b) = verifying b" "verifying (bump_invalidations b) = verifying b" "verifying (bump_requested b) = verifying b"
  "verifying (feed_shadow r us b) = verifying b" "verifying (cancel_verification b) = None" "verifying (reset_all b) = None"
  by (simp_all add: verifying_def set_sync_def bump_invalidations_def feed_shadow_def bump_requested_def cancel_verification_def reset_all_def
      split: option.split)

lemma verifying_on_snapshot [simp]: "verifying (snd (snd (md_on_snapshot i u bids asks t b))) = verifying b"
  by (simp add: md_on_snapshot_def settle_def Let_def split: prod.split option.split result.split bool.split sync_error.split)

lemma pending_verifying:
  assumes "md_on_verification_snapshot i u bids asks b = (Pending, ns, b')"
  shows "verifying b' = Some i"
proof -
  let ?c = "b\<lparr>mb_shadow := (mb_shadow b)\<lparr>sh_sync := snd (on_snapshot u bids asks (sh_sync (mb_shadow b))), sh_loaded := True\<rparr>\<rparr>"
  have i: "sh_instrument (mb_shadow b) = Some i" and s: "settle_verification ?c = (None, b')" and n: "sh_instrument (mb_shadow b') \<noteq> None"
    using assms by (auto simp: md_on_verification_snapshot_def after_verification_snapshot_def split: prod.splits option.splits if_splits)
  have "b' = ?c \<or> verifying b' = None"
    using s by (auto simp: settle_verification_def Let_def split: option.splits prod.splits)
  then show ?thesis using i n by (auto simp: verifying_def)
qed

section \<open>The states a session reaches\<close>

text \<open>What the snapshot thread hands over was decoded from the bytes it hands over, for the instrument of the job.\<close>

definition fetched_from :: "nat \<Rightarrow> instrument \<Rightarrow> (owned_snapshot, snapshot_failure) result \<Rightarrow> bool" where
  "fetched_from limit i out \<longleftrightarrow>
     (\<forall>p. out = Ok p \<longrightarrow> fst (decode_snapshot (ow_raw p) i (snapshot_decoder_new limit))
        = Ok \<lparr>dp_last_update_id = ow_last_update_id p, dp_bids = ow_bids p, dp_asks = ow_asks p\<rparr>)"

fun of_session :: "md_status \<Rightarrow> bool" where
  "of_session Connecting \<longleftrightarrow> True"
| "of_session Connected \<longleftrightarrow> True"
| "of_session (Disconnected r) \<longleftrightarrow> True"
| "of_session (SnapshotFailed i r) \<longleftrightarrow> True"
| "of_session _ \<longleftrightarrow> False"

text \<open>The two ways in which the session drops a verification on its own: the fetch failed, or it took too long.\<close>

definition fetch_failed :: "md_session \<Rightarrow> bool" where
  "fetch_failed s = (case ms_results s of
     [] \<Rightarrow> False | r # _ \<Rightarrow> rs_generation r = ms_generation s \<and> rs_purpose r = ForVerify \<and> \<not> is_ok (rs_outcome r))"

definition overdue :: "md_session \<Rightarrow> bool" where
  "overdue s = (case ms_verification s of
     None \<Rightarrow> False | Some (_, started) \<Rightarrow> mc_verify_timeout (ms_config s) \<le> mo_instant (ms_clock s (ms_ticks s)) - started)"

abbreviation loaded :: "md_session \<Rightarrow> bool" where
  "loaded s \<equiv> sh_loaded (mb_shadow (ms_books s))"

text \<open>
  \<open>sess_reach d strict cfg tbl n s\<close>: the session configured with \<open>cfg\<close> over the instruments \<open>tbl\<close> can be in \<open>s\<close>, having taken
  everything down \<open>n\<close> times.  With \<open>strict\<close>, it never drops a verification whose snapshot was already loaded.
\<close>

inductive sess_reach :: "(md_status \<Rightarrow> byte list) \<Rightarrow> bool \<Rightarrow> md_config \<Rightarrow> instrument_table \<Rightarrow> nat \<Rightarrow> md_session \<Rightarrow> bool"
  for d strict cfg tbl where
  start: "md_session_new clock True cfg tbl = Ok s \<Longrightarrow> sess_reach d strict cfg tbl 0 s"
| start_journal: "md_session_new clock True cfg tbl = Ok s \<Longrightarrow> sess_reach d strict cfg tbl 0 (with_journal s)"
| tells: "sess_reach d strict cfg tbl n s \<Longrightarrow> of_session st \<Longrightarrow> sess_reach d strict cfg tbl n (status d st s)"
| connects: "sess_reach d strict cfg tbl n s \<Longrightarrow> sess_reach d strict cfg tbl n (bump_connections s)"
| reads_clock: "sess_reach d strict cfg tbl n s \<Longrightarrow> sess_reach d strict cfg tbl n (snd (now s))"
| data: "sess_reach d strict cfg tbl n s \<Longrightarrow> sess_reach d strict cfg tbl n (snd (on_data m s))"
| fetches: "sess_reach d strict cfg tbl n s \<Longrightarrow> (\<And>i. fetched_from (mc_snapshot_limit cfg) i (f i)) \<Longrightarrow> sess_reach d strict cfg tbl n (deliver f s)"
| collects: "sess_reach d strict cfg tbl n s \<Longrightarrow> \<not> (strict \<and> loaded s \<and> fetch_failed s) \<Longrightarrow> sess_reach d strict cfg tbl n (collect_next d s)"
| requests: "sess_reach d strict cfg tbl n s \<Longrightarrow> sess_reach d strict cfg tbl n (request_snapshots s)"
| schedules: "sess_reach d strict cfg tbl n s \<Longrightarrow> \<not> (strict \<and> loaded s \<and> overdue s) \<Longrightarrow> sess_reach d strict cfg tbl n (schedule_verification s)"
| reports: "sess_reach d strict cfg tbl n s \<Longrightarrow> sess_reach d strict cfg tbl n (maybe_report s)"
| goes_down: "sess_reach d strict cfg tbl n s \<Longrightarrow> sess_reach d strict cfg tbl (Suc n) (take_all_down s)"

section \<open>The code's own loop stays within them\<close>

lemma collects_all:
  assumes "sess_reach d False cfg tbl n s"
  shows "sess_reach d False cfg tbl n (collect_snapshots d s)"
proof -
  have "sess_reach d False cfg tbl n ((collect_next d ^^ k) s)" for k
    by (induction k) (auto intro: assms sess_reach.collects)
  then show ?thesis by (simp add: collect_snapshots_def)
qed

lemma on_event_reaches:
  assumes "sess_reach d strict cfg tbl n s"
  shows "sess_reach d strict cfg tbl n (snd (on_event ev s))"
proof -
  obtain e pong where ev: "ev = (e, pong)" by (cases ev)
  show ?thesis unfolding ev by (cases e) (auto simp: assms intro: sess_reach.data [OF assms])
qed

lemma drain_events_reaches:
  "sess_reach d strict cfg tbl n s \<Longrightarrow> sess_reach d strict cfg tbl n (snd (snd (drain_events evs failed t s)))"
proof (induction evs failed t s rule: drain_events.induct)
  case (2 ev evs failed t s)
  obtain m s1 where m: "now s = (m, s1)" by (cases "now s")
  then have s1: "sess_reach d strict cfg tbl n s1" using sess_reach.reads_clock [OF 2(2)] by simp
  obtain res s2 where e: "on_event ev s1 = (res, s2)" by (cases "on_event ev s1")
  then have s2: "sess_reach d strict cfg tbl n s2" using on_event_reaches [OF s1, of ev] by simp
  show ?case
    using 2(1) [OF m [symmetric] refl e [symmetric] _ s2] s2 m e by (cases res) simp_all
qed simp

lemma deliver_all_reaches:
  assumes "sess_reach d strict cfg tbl n s" "\<forall>f \<in> set fs. \<forall>i. fetched_from (mc_snapshot_limit cfg) i (f i)"
  shows "sess_reach d strict cfg tbl n (fold deliver fs s)"
  using assms by (induction fs arbitrary: s) (auto intro: sess_reach.fetches)

lemma housekeeping_reaches:
  "sess_reach d False cfg tbl n s \<Longrightarrow> sess_reach d False cfg tbl n (housekeeping d s)"
  unfolding housekeeping_def by (intro sess_reach.reports sess_reach.schedules sess_reach.requests collects_all) simp_all

definition turn_ok :: "md_config \<Rightarrow> turn \<Rightarrow> bool" where
  "turn_ok cfg t \<longleftrightarrow> (\<forall>f \<in> set (tn_fetched t). \<forall>i. fetched_from (mc_snapshot_limit cfg) i (f i))"

lemma stream_turn_reaches:
  assumes "sess_reach d False cfg tbl n s" "turn_ok cfg t" "stream_turn d c t active s = (res, active', s')"
  shows "sess_reach d False cfg tbl n s'"
proof (cases "tn_stop t")
  case False
  obtain r1 l1 s1 where dr: "drain_events (tn_events t) (tn_failed t) active s = (r1, l1, s1)"
    by (cases "drain_events (tn_events t) (tn_failed t) active s") auto
  then have s1: "sess_reach d False cfg tbl n s1" using drain_events_reaches [OF assms(1)] by (metis snd_conv)
  obtain m s2 where m: "now (housekeeping d (fold deliver (tn_fetched t) s1)) = (m, s2)"
    by (cases "now (housekeeping d (fold deliver (tn_fetched t) s1))")
  have s2: "sess_reach d False cfg tbl n s2"
    using sess_reach.reads_clock [OF housekeeping_reaches [OF deliver_all_reaches [OF s1, of "tn_fetched t"]]] assms(2) m by (simp add: turn_ok_def)
  obtain m3 s3 where m3: "now s2 = (m3, s3)" by (cases "now s2")
  then have s3: "sess_reach d False cfg tbl n s3" using sess_reach.reads_clock [OF s2] by simp
  show ?thesis
    using assms(3) False dr m m3 s1 s2 s3
    by (auto simp: stream_turn_def Let_def split: option.splits if_splits result.splits)
qed (use assms in \<open>auto simp: stream_turn_def\<close>)

lemma stream_loop_reaches:
  "sess_reach d False cfg tbl n s \<Longrightarrow> list_all (turn_ok cfg) ts \<Longrightarrow> sess_reach d False cfg tbl n (snd (stream_loop d c ts active s))"
proof (induction ts arbitrary: active s)
  case (Cons t ts)
  obtain res l1 s1 where t: "stream_turn d c t active s = (res, l1, s1)" by (cases "stream_turn d c t active s") auto
  then have "sess_reach d False cfg tbl n s1" using stream_turn_reaches Cons.prems by auto
  then show ?case using t Cons by (cases res) auto
qed simp

definition attempt_ok :: "md_config \<Rightarrow> attempt \<Rightarrow> bool" where
  "attempt_ok cfg a \<longleftrightarrow> list_all (turn_ok cfg) (am_turns a)"

lemma connect_once_reaches:
  assumes "sess_reach d False cfg tbl n s" "attempt_ok cfg a" "connect_once d a bo s = (res, bo', s')"
  shows "sess_reach d False cfg tbl n s'"
proof -
  have s1: "sess_reach d False cfg tbl n (status d Connecting s)" using assms(1) by (rule sess_reach.tells) simp
  have s2: "sess_reach d False cfg tbl n (snd (now (status d Connected (bump_connections (status d Connecting s)))))"
    by (intro sess_reach.reads_clock sess_reach.tells sess_reach.connects) (use assms(1) in simp_all)
  have s3: "sess_reach d False cfg tbl n (snd (stream d (am_turns a) x))" if "sess_reach d False cfg tbl n x" for x
    using stream_loop_reaches [OF sess_reach.reads_clock [OF that]] assms(2) by (simp add: stream_def attempt_ok_def split_beta)
  note s4 = sess_reach.reads_clock [OF s3 [OF s2]]
  show ?thesis
    using assms(3) s1 s3 [OF s2] s4
    by (auto simp: connect_once_def Let_def split: result.splits prod.splits option.splits)
qed

lemma run_reaches:
  "sess_reach d False cfg tbl n s \<Longrightarrow> list_all (attempt_ok cfg) as \<Longrightarrow> \<exists>n'. sess_reach d False cfg tbl n' (snd (run_loop d as bo s))"
proof (induction as arbitrary: bo s n)
  case (Cons a as)
  obtain res bo1 s1 where c: "connect_once d a bo s = (res, bo1, s1)" by (cases "connect_once d a bo s") auto
  have s1: "sess_reach d False cfg tbl n s1" using connect_once_reaches [OF Cons.prems(1) _ c] Cons.prems(2) by simp
  have s2: "sess_reach d False cfg tbl (Suc n) (status d (Disconnected r) (take_all_down s1))" for r
    using sess_reach.goes_down [OF s1] by (rule sess_reach.tells) simp
  show ?case
  proof (cases "am_stop a \<or> res = None \<or> am_stop_after a")
    case True
    then show ?thesis using Cons.prems(1) s1 s2 c by (cases res) (auto intro: exI [of _ "Suc n"])
  next
    case False
    then obtain r where r: "res = Some r" by auto
    show ?thesis using Cons.IH [OF s2 [of r]] Cons.prems(2) False c r by (auto simp: split_beta Let_def)
  qed
qed auto

section \<open>Requests are never lost\<close>

definition asked_job :: "nat \<Rightarrow> nat \<Rightarrow> snapshot_job \<Rightarrow> bool" where
  "asked_job k g j \<longleftrightarrow> inst_id (jb_instrument j) = id_of k \<and> jb_purpose j = ForSync \<and> jb_generation j = g"

definition asked_result :: "nat \<Rightarrow> nat \<Rightarrow> snapshot_result \<Rightarrow> bool" where
  "asked_result k g r \<longleftrightarrow> rs_instrument r = id_of k \<and> rs_purpose r = ForSync \<and> rs_generation r = g"

text \<open>A snapshot for the instrument's book is being fetched for this connection, or is waiting to be applied.\<close>

definition outstanding :: "md_session \<Rightarrow> nat \<Rightarrow> bool" where
  "outstanding s k \<longleftrightarrow> list_ex (asked_job k (ms_generation s)) (ms_jobs s) \<or> list_ex (asked_result k (ms_generation s)) (ms_results s)"

definition requests_inv :: "md_session \<Rightarrow> bool" where
  "requests_inv s \<longleftrightarrow> (\<forall>k < length (ms_states s). ms_states s ! k = Requested \<longrightarrow> outstanding s k)"

definition base_inv :: "md_config \<Rightarrow> instrument_table \<Rightarrow> md_session \<Rightarrow> bool" where
  "base_inv cfg tbl s \<longleftrightarrow> ms_config s = cfg \<and> shape (ms_books s) = (tbl, length tbl, mc_snapshot_limit cfg) \<and> length (ms_states s) = length tbl \<and> ms_worker s"

lemma base_inv_cong:
  assumes "base_inv cfg tbl s" "ms_config s' = ms_config s" "shape (ms_books s') = shape (ms_books s)" "length (ms_states s') = length (ms_states s)"
    "ms_worker s' = ms_worker s"
  shows "base_inv cfg tbl s'"
  using assms by (simp add: base_inv_def)

lemma requests_inv_cong:
  assumes "requests_inv s" "ms_states s' = ms_states s" "ms_jobs s' = ms_jobs s" "ms_results s' = ms_results s" "ms_generation s' = ms_generation s"
  shows "requests_inv s'"
  using assms by (simp add: requests_inv_def outstanding_def)

lemma nth_update_cases: "xs[k := v] ! j = w \<Longrightarrow> j < length xs \<Longrightarrow> j = k \<and> w = v \<or> j \<noteq> k \<and> xs ! j = w"
  by (cases "j = k") auto

lemma requests_set_state: "requests_inv s \<Longrightarrow> st \<noteq> Requested \<Longrightarrow> requests_inv (set_state k st s)"
  by (cases "k < length (ms_states s)") (auto simp: requests_inv_def outstanding_def set_state_def nth_list_update list_update_beyond split: if_splits)

lemma index_of_id: "k < 2 ^ 32 \<Longrightarrow> index_of (id_of k) = k"
  by (simp add: index_of_def id_of_def unsigned_of_nat take_bit_eq_mod)

text \<open>Both hold after each operation.\<close>

lemma after_apply_base: "base_inv cfg tbl s \<Longrightarrow> base_inv cfg tbl (after_apply a s)"
  by (erule base_inv_cong)
    (auto simp: after_apply_def Let_def shape_def set_state_def tell_def count_abandoned_def split: md_applied.split option.split down_reason.split)

lemma after_apply_requests: "requests_inv s \<Longrightarrow> requests_inv (after_apply a s)"
proof -
  assume i: "requests_inv s"
  have "requests_inv x" if "ms_states x = ms_states s" "ms_jobs x = ms_jobs s" "ms_results x = ms_results s" "ms_generation x = ms_generation s" for x
    by (rule requests_inv_cong [OF i that])
  then show ?thesis
    by (auto simp: after_apply_def Let_def intro!: requests_set_state split: md_applied.split option.split down_reason.split)
qed

lemma on_data_inv:
  assumes "base_inv cfg tbl s" "requests_inv s"
  shows "base_inv cfg tbl (snd (on_data m s))" "requests_inv (snd (on_data m s))"
proof -
  obtain res b where a: "md_apply m (ms_books (snd (now (journal_append MD_MESSAGE None [m] s)))) = (res, b)"
    by (cases "md_apply m (ms_books (snd (now (journal_append MD_MESSAGE None [m] s))))")
  then have a': "md_apply m (ms_books s) = (res, b)" by simp
  have sh: "shape b = shape (ms_books s)" using shape_apply [of m "ms_books s"] a' by simp
  have base: "base_inv cfg tbl x" if "ms_config x = ms_config s" "ms_books x = b" "ms_states x = ms_states s" "ms_worker x = ms_worker s" for x
    by (rule base_inv_cong [OF assms(1)]) (use that sh in simp_all)
  have req: "requests_inv x" if "ms_states x = ms_states s" "ms_jobs x = ms_jobs s" "ms_results x = ms_results s" "ms_generation x = ms_generation s" for x
    by (rule requests_inv_cong [OF assms(2) that])
  show "base_inv cfg tbl (snd (on_data m s))" "requests_inv (snd (on_data m s))"
    using a by (auto simp: on_data_def split_beta Let_def a' intro!: after_apply_base base after_apply_requests req split: result.split)
qed

lemma deliver_inv:
  assumes "requests_inv s"
  shows "requests_inv (deliver f s)"
proof (cases "ms_jobs s")
  case (Cons j js)
  have "outstanding (deliver f s) k" if "outstanding s k" for k
    using that Cons by (auto simp: outstanding_def deliver_def asked_job_def asked_result_def)
  then show ?thesis using assms by (auto simp: requests_inv_def)
qed (simp add: deliver_def assms)

text \<open>A result leaves the queue: those who wait for it must not wait any longer.\<close>

lemma requests_pop:
  assumes "requests_inv s" "ms_results s = r # rs" "ms_results s' = rs" "ms_jobs s' = ms_jobs s" "ms_generation s' = ms_generation s"
    "length (ms_states s') = length (ms_states s)"
    "\<And>k. k < length (ms_states s) \<Longrightarrow> ms_states s' ! k = Requested \<Longrightarrow> ms_states s ! k = Requested \<and> \<not> asked_result k (ms_generation s) r"
  shows "requests_inv s'"
  using assms by (auto simp: requests_inv_def outstanding_def)

lemma apply_snapshot_frame:
  "ms_config (apply_snapshot d r s) = ms_config s" "shape (ms_books (apply_snapshot d r s)) = shape (ms_books s)"
  "ms_worker (apply_snapshot d r s) = ms_worker s" "ms_jobs (apply_snapshot d r s) = ms_jobs s" "ms_results (apply_snapshot d r s) = ms_results s"
  "ms_generation (apply_snapshot d r s) = ms_generation s" "ms_verification (apply_snapshot d r s) = ms_verification s"
  "verifying (ms_books (apply_snapshot d r s)) = verifying (ms_books s)"
  "\<exists>st. st \<noteq> Requested \<and> ms_states (apply_snapshot d r s) = (ms_states s)[index_of (rs_instrument r) := st]"
proof -
  have l: "later w x = (fst (later w x), snd (later w x))" for w x by simp
  obtain p where p: "rs_outcome r = Err p \<or> (\<exists>q. rs_outcome r = Ok q)" by (cases "rs_outcome r") auto
  show "ms_config (apply_snapshot d r s) = ms_config s" "shape (ms_books (apply_snapshot d r s)) = shape (ms_books s)"
    "ms_worker (apply_snapshot d r s) = ms_worker s" "ms_jobs (apply_snapshot d r s) = ms_jobs s" "ms_results (apply_snapshot d r s) = ms_results s"
    "ms_generation (apply_snapshot d r s) = ms_generation s" "ms_verification (apply_snapshot d r s) = ms_verification s"
    "verifying (ms_books (apply_snapshot d r s)) = verifying (ms_books s)"
    by (cases "rs_outcome r"; simp add: apply_snapshot_def split_beta Let_def)+
  show "\<exists>st. st \<noteq> Requested \<and> ms_states (apply_snapshot d r s) = (ms_states s)[index_of (rs_instrument r) := st]"
    by (cases "rs_outcome r") (auto simp: apply_snapshot_def split_beta Let_def set_state_def list_update_beyond not_less)
qed

lemma apply_verification_frame:
  "ms_config (apply_verification_snapshot r s) = ms_config s" "shape (ms_books (apply_verification_snapshot r s)) = shape (ms_books s)"
  "ms_worker (apply_verification_snapshot r s) = ms_worker s" "ms_jobs (apply_verification_snapshot r s) = ms_jobs s"
  "ms_results (apply_verification_snapshot r s) = ms_results s" "ms_generation (apply_verification_snapshot r s) = ms_generation s"
  "\<exists>k st. st \<noteq> Requested \<and> ms_states (apply_verification_snapshot r s) = (ms_states s)[k := st]"
proof -
  have u: "\<exists>k st. st \<noteq> Requested \<and> xs = xs[k := st]" for xs by (rule exI [of _ "length xs"], rule exI [of _ Idle]) (simp add: list_update_beyond)
  show "ms_config (apply_verification_snapshot r s) = ms_config s" "shape (ms_books (apply_verification_snapshot r s)) = shape (ms_books s)"
    "ms_worker (apply_verification_snapshot r s) = ms_worker s" "ms_jobs (apply_verification_snapshot r s) = ms_jobs s"
    "ms_results (apply_verification_snapshot r s) = ms_results s" "ms_generation (apply_verification_snapshot r s) = ms_generation s"
    by (auto simp: apply_verification_snapshot_def give_up_verification_def split_beta Let_def count_abandoned_def split: option.split result.split verification.split)
  show "\<exists>k st. st \<noteq> Requested \<and> ms_states (apply_verification_snapshot r s) = (ms_states s)[k := st]"
    using u by (auto simp: apply_verification_snapshot_def give_up_verification_def split_beta Let_def set_state_def split: option.split result.split verification.split)
qed

lemma collect_next_base: "base_inv cfg tbl s \<Longrightarrow> base_inv cfg tbl (collect_next d s)"
proof -
  assume b: "base_inv cfg tbl s"
  have "length (ms_states (apply_snapshot d r x)) = length (ms_states x)" "length (ms_states (apply_verification_snapshot r x)) = length (ms_states x)" for r x
    using apply_snapshot_frame(9) [of d r x] apply_verification_frame(7) [of r x] by (metis length_list_update)+
  then show ?thesis using base_inv_cong [OF b]
    by (auto simp: collect_next_def collect_one_def apply_snapshot_frame apply_verification_frame b split: list.split purpose.split)
qed

lemma collect_next_requests:
  assumes "base_inv cfg tbl s" "requests_inv s" "length tbl \<le> 2 ^ 32"
  shows "requests_inv (collect_next d s)"
proof (cases "ms_results s")
  case (Cons r rs)
  let ?s = "s\<lparr>ms_results := rs\<rparr>"
  have len: "length (ms_states s) \<le> 2 ^ 32" using assms(1,3) by (simp add: base_inv_def)
  consider (sync) "rs_generation r = ms_generation s" "rs_purpose r = ForSync"
    | (verify) "rs_generation r = ms_generation s" "rs_purpose r = ForVerify" | (old) "rs_generation r \<noteq> ms_generation s"
    by (cases "rs_purpose r") auto
  then show ?thesis
  proof cases
    case sync
    obtain st where st: "st \<noteq> Requested" "ms_states (apply_snapshot d r ?s) = (ms_states s)[index_of (rs_instrument r) := st]"
      using apply_snapshot_frame(9) [of d r ?s] by auto
    have "requests_inv (apply_snapshot d r ?s)"
    proof (rule requests_pop [OF assms(2) Cons])
      fix k assume k: "k < length (ms_states s)" "ms_states (apply_snapshot d r ?s) ! k = Requested"
      then have "k \<noteq> index_of (rs_instrument r)" using st by auto
      moreover have "index_of (id_of k) = k" using index_of_id k(1) len by simp
      ultimately show "ms_states s ! k = Requested \<and> \<not> asked_result k (ms_generation s) r"
        using k st(2) by (auto simp: asked_result_def)
    qed (simp_all add: apply_snapshot_frame st)
    then show ?thesis using sync Cons by (simp add: collect_next_def collect_one_def)
  next
    case verify
    obtain j st where st: "st \<noteq> Requested" "ms_states (apply_verification_snapshot r ?s) = (ms_states s)[j := st]"
      using apply_verification_frame(7) [of r ?s] by auto
    have "requests_inv (apply_verification_snapshot r ?s)"
    proof (rule requests_pop [OF assms(2) Cons])
      fix k assume k: "k < length (ms_states s)" "ms_states (apply_verification_snapshot r ?s) ! k = Requested"
      then show "ms_states s ! k = Requested \<and> \<not> asked_result k (ms_generation s) r"
        using st verify by (cases "k = j") (auto simp: asked_result_def)
    qed (simp_all add: apply_verification_frame st)
    then show ?thesis using verify Cons by (simp add: collect_next_def collect_one_def)
  next
    case old
    have "requests_inv ?s" by (rule requests_pop [OF assms(2) Cons]) (use old in \<open>simp_all add: asked_result_def\<close>)
    then show ?thesis using old Cons by (simp add: collect_next_def collect_one_def)
  qed
qed (simp add: collect_next_def assms)

lemma request_one_base: "base_inv cfg tbl s \<Longrightarrow> base_inv cfg tbl (request_one t k s)"
  by (erule base_inv_cong) (simp_all add: request_one_def Let_def set_state_def split: option.split)

lemma table_ids: "table_new is = Ok tbl \<Longrightarrow> k < length tbl \<Longrightarrow> inst_id (tbl ! k) = id_of k \<and> k < 2 ^ 32"
proof -
  assume t: "table_new is = Ok tbl" and k: "k < length tbl"
  then have "table_check [] tbl = None" by (auto simp: table_new_def split: option.splits)
  then have u: "unat (inst_id (tbl ! k)) = k" using table_check_None k by fastforce
  moreover have "unat (inst_id (tbl ! k)) < 2 ^ 32" using unsigned_less [of "inst_id (tbl ! k)"] by simp
  ultimately have "k < 2 ^ 32" by simp
  moreover have "of_nat (unat (inst_id (tbl ! k))) = inst_id (tbl ! k)" by simp
  ultimately show ?thesis using u by (simp add: id_of_def)
qed

lemma table_length: "table_new is = Ok tbl \<Longrightarrow> length tbl \<le> 2 ^ 32"
  using table_ids [of "is" tbl "length tbl - 1"] by (cases tbl) auto

lemma request_one_requests:
  assumes "base_inv cfg tbl s" "requests_inv s" "table_new is = Ok tbl"
  shows "requests_inv (request_one t k s)"
proof (cases "request_one t k s = s")
  case False
  then obtain inst where i: "table_get tbl (id_of k) = Some inst"
      and r: "request_one t k s = set_state k Requested ((send_job inst ForSync s)\<lparr>ms_books := bump_requested (ms_books s)\<rparr>)"
    using assms(1) by (auto simp: request_one_def base_inv_def shape_def Let_def split: option.splits if_splits)
  have "unat (id_of k) < length tbl" "inst = tbl ! unat (id_of k)" using i by (auto simp: table_get_def nth_opt_def split: if_splits)
  then have "inst_id inst = id_of (unat (id_of k))" using table_ids [OF assms(3)] by simp
  moreover have "unat (id_of k) < 2 ^ 32" using unsigned_less [of "id_of k"] by simp
  then have "id_of (unat (id_of k)) = id_of k" by (simp add: id_of_def [of "unat (id_of k)"])
  ultimately have "asked_job k (ms_generation s) \<lparr>jb_instrument = inst, jb_generation = ms_generation s, jb_purpose = ForSync\<rparr>"
    by (simp add: asked_job_def)
  then show ?thesis using assms(2) unfolding r
    by (auto simp: requests_inv_def outstanding_def set_state_def send_job_def dest!: nth_update_cases)
qed (use assms in simp)

lemma request_fold_inv:
  assumes "base_inv cfg tbl s" "requests_inv s" "table_new is = Ok tbl"
  shows "base_inv cfg tbl (fold (request_one t) ks s) \<and> requests_inv (fold (request_one t) ks s)"
  using assms(1,2) by (induction ks arbitrary: s) (auto intro: request_one_base request_one_requests [OF _ _ assms(3)])

lemma request_inv:
  assumes "base_inv cfg tbl s" "requests_inv s" "table_new is = Ok tbl"
  shows "base_inv cfg tbl (request_snapshots s)" "requests_inv (request_snapshots s)"
proof -
  have "base_inv cfg tbl (snd (now s))" "requests_inv (snd (now s))"
    using base_inv_cong [OF assms(1)] requests_inv_cong [OF assms(2)] by simp_all
  then show "base_inv cfg tbl (request_snapshots s)" "requests_inv (request_snapshots s)"
    using request_fold_inv [OF _ _ assms(3)] by (simp_all add: request_snapshots_def split_beta Let_def)
qed

text \<open>The search ends without having changed anything, or begins a verification of a live instrument.\<close>

lemma verify_from_cases:
  obtains "verify_from t n steps s = s"
  | index inst b where "verify_from t n steps s = begin_verification t index inst (s\<lparr>ms_books := b\<rparr>)"
    "table_get (mb_instruments (ms_books s)) (id_of index) = Some inst" "start_verification (id_of index) (ms_books s) = (True, b)"
proof (induction steps arbitrary: thesis)
  case (Cons step steps)
  let ?k = "verify_index n step s"
  show ?case
  proof (cases "table_get (mb_instruments (ms_books s)) (id_of ?k)")
    case None
    then have eq: "verify_from t n (step # steps) s = verify_from t n steps s" by simp
    show ?thesis by (rule Cons.IH) (use Cons.prems eq in metis)+
  next
    case (Some inst)
    show ?thesis
    proof (cases "md_is_live (id_of ?k) (ms_books s)")
      case True
      then obtain b where b: "start_verification (id_of ?k) (ms_books s) = (True, b)" by (simp add: start_verification_def)
      show ?thesis by (rule Cons.prems(2) [of ?k inst b]) (use Some b in simp_all)
    next
      case False
      then have "start_verification (id_of ?k) (ms_books s) = (False, ms_books s)" by (simp add: start_verification_def)
      then have eq: "verify_from t n (step # steps) s = verify_from t n steps s" using Some by simp
      show ?thesis by (rule Cons.IH) (use Cons.prems eq in metis)+
    qed
  qed
qed simp

lemma begin_verification_frame:
  "ms_config (begin_verification t k i s) = ms_config s" "shape (ms_books (begin_verification t k i s)) = shape (ms_books s)"
  "ms_states (begin_verification t k i s) = ms_states s" "ms_worker (begin_verification t k i s) = ms_worker s"
  "ms_generation (begin_verification t k i s) = ms_generation s" "ms_results (begin_verification t k i s) = ms_results s"
  "\<exists>js. ms_jobs (begin_verification t k i s) = ms_jobs s @ js \<and> list_all (\<lambda>j. jb_generation j = ms_generation s \<and> jb_instrument j = i) js"
  by (auto simp: begin_verification_def Let_def send_job_def)

lemma verify_from_frame:
  "ms_config (verify_from t n steps s) = ms_config s" "shape (ms_books (verify_from t n steps s)) = shape (ms_books s)"
  "ms_states (verify_from t n steps s) = ms_states s" "ms_worker (verify_from t n steps s) = ms_worker s"
  "ms_generation (verify_from t n steps s) = ms_generation s" "ms_results (verify_from t n steps s) = ms_results s"
  "\<exists>js. ms_jobs (verify_from t n steps s) = ms_jobs s @ js \<and> list_all (\<lambda>j. jb_generation j = ms_generation s \<and> jb_instrument j \<in> set (mb_instruments (ms_books s))) js"
proof -
  let ?v = "verify_from t n steps s"
  have "ms_config ?v = ms_config s \<and> shape (ms_books ?v) = shape (ms_books s) \<and> ms_states ?v = ms_states s \<and> ms_worker ?v = ms_worker s
      \<and> ms_generation ?v = ms_generation s \<and> ms_results ?v = ms_results s
      \<and> (\<exists>js. ms_jobs ?v = ms_jobs s @ js \<and> list_all (\<lambda>j. jb_generation j = ms_generation s \<and> jb_instrument j \<in> set (mb_instruments (ms_books s))) js)"
  proof (rule verify_from_cases [of t n steps s])
    fix k inst b
    assume v: "?v = begin_verification t k inst (s\<lparr>ms_books := b\<rparr>)" "table_get (mb_instruments (ms_books s)) (id_of k) = Some inst"
      "start_verification (id_of k) (ms_books s) = (True, b)"
    have "shape b = shape (ms_books s)" using shape_sel(10) [of "id_of k" "ms_books s"] v(3) by simp
    moreover have "inst \<in> set (mb_instruments (ms_books s))" using v(2) by (auto simp: table_get_def nth_opt_def split: if_splits)
    ultimately show ?thesis unfolding v(1)
      using begin_verification_frame(1-6) [of t k inst "s\<lparr>ms_books := b\<rparr>"] begin_verification_frame(7) [of t k inst "s\<lparr>ms_books := b\<rparr>"]
      by (auto simp: list_all_iff)
  qed auto
  then show "ms_config ?v = ms_config s" "shape (ms_books ?v) = shape (ms_books s)" "ms_states ?v = ms_states s" "ms_worker ?v = ms_worker s"
      "ms_generation ?v = ms_generation s" "ms_results ?v = ms_results s"
      "\<exists>js. ms_jobs ?v = ms_jobs s @ js \<and> list_all (\<lambda>j. jb_generation j = ms_generation s \<and> jb_instrument j \<in> set (mb_instruments (ms_books s))) js"
    by blast+
qed

lemma start_next_frame:
  "ms_config (start_next t e s) = ms_config s" "shape (ms_books (start_next t e s)) = shape (ms_books s)"
  "ms_states (start_next t e s) = ms_states s" "ms_worker (start_next t e s) = ms_worker s"
  "ms_generation (start_next t e s) = ms_generation s" "ms_results (start_next t e s) = ms_results s"
  "\<exists>js. ms_jobs (start_next t e s) = ms_jobs s @ js \<and> list_all (\<lambda>j. jb_generation j = ms_generation s \<and> jb_instrument j \<in> set (mb_instruments (ms_books s))) js"
  using verify_from_frame by (simp_all add: start_next_def split_beta Let_def)

lemma give_up_frame [simp]:
  "ms_config (give_up_verification s) = ms_config s" "shape (ms_books (give_up_verification s)) = shape (ms_books s)"
  "ms_states (give_up_verification s) = ms_states s" "ms_worker (give_up_verification s) = ms_worker s"
  "ms_generation (give_up_verification s) = ms_generation s" "ms_results (give_up_verification s) = ms_results s" "ms_jobs (give_up_verification s) = ms_jobs s"
  "mb_instruments (ms_books (give_up_verification s)) = mb_instruments (ms_books s)" "ms_verification (give_up_verification s) = None"
  by (simp_all add: give_up_verification_def count_abandoned_def cancel_verification_def split: option.split)

lemma schedule_frame:
  "ms_config (schedule_verification s) = ms_config s" "shape (ms_books (schedule_verification s)) = shape (ms_books s)"
  "ms_states (schedule_verification s) = ms_states s" "ms_worker (schedule_verification s) = ms_worker s"
  "ms_generation (schedule_verification s) = ms_generation s" "ms_results (schedule_verification s) = ms_results s"
  "\<exists>js. ms_jobs (schedule_verification s) = ms_jobs s @ js \<and> list_all (\<lambda>j. jb_generation j = ms_generation s \<and> jb_instrument j \<in> set (mb_instruments (ms_books s))) js"
proof -
  have e: "\<exists>js. xs = xs @ js \<and> list_all P js" for xs P by (rule exI [of _ "[]"]) simp
  show "ms_config (schedule_verification s) = ms_config s" "shape (ms_books (schedule_verification s)) = shape (ms_books s)"
    "ms_states (schedule_verification s) = ms_states s" "ms_worker (schedule_verification s) = ms_worker s"
    "ms_generation (schedule_verification s) = ms_generation s" "ms_results (schedule_verification s) = ms_results s"
    by (simp_all add: schedule_verification_def split_beta Let_def start_next_frame split: option.split)
  show "\<exists>js. ms_jobs (schedule_verification s) = ms_jobs s @ js
      \<and> list_all (\<lambda>j. jb_generation j = ms_generation s \<and> jb_instrument j \<in> set (mb_instruments (ms_books s))) js"
    using e start_next_frame(7) [of _ _ "give_up_verification (snd (now s))"] start_next_frame(7) [of _ _ "snd (now s)"]
    by (simp add: schedule_verification_def split_beta Let_def split: option.split)
qed

lemma more_jobs_requests:
  assumes "requests_inv s" "ms_states s' = ms_states s" "ms_jobs s' = ms_jobs s @ js" "ms_results s' = ms_results s" "ms_generation s' = ms_generation s"
  shows "requests_inv s'"
  using assms by (auto simp: requests_inv_def outstanding_def)

lemma maybe_report_frame [simp]:
  "ms_config (maybe_report s) = ms_config s" "ms_books (maybe_report s) = ms_books s" "ms_states (maybe_report s) = ms_states s"
  "ms_worker (maybe_report s) = ms_worker s" "ms_generation (maybe_report s) = ms_generation s" "ms_results (maybe_report s) = ms_results s"
  "ms_jobs (maybe_report s) = ms_jobs s" "ms_verification (maybe_report s) = ms_verification s" "ms_journal (maybe_report s) = ms_journal s"
  by (simp_all add: maybe_report_def split_beta Let_def)

lemma take_all_down_frame:
  "ms_config (take_all_down s) = ms_config s" "shape (ms_books (take_all_down s)) = shape (ms_books s)"
  "ms_states (take_all_down s) = map (\<lambda>_. Idle) (ms_states s)" "ms_worker (take_all_down s) = ms_worker s"
  "ms_generation (take_all_down s) = (ms_generation s + 1) mod 2 ^ 64" "ms_results (take_all_down s) = ms_results s" "ms_jobs (take_all_down s) = ms_jobs s"
  "ms_verification (take_all_down s) = None" "mb_syncs (ms_books (take_all_down s)) = map reset (mb_syncs (ms_books s))"
  by (simp_all add: take_all_down_def Let_def count_abandoned_def reset_all_def cancel_verification_def shape_def split: option.split)

lemma new_session_inv:
  assumes "md_session_new clock True cfg tbl = Ok s"
  shows "base_inv cfg tbl s" "requests_inv s" "ms_verification s = None" "ms_jobs s = []" "ms_results s = []" "ms_generation s = 0"
proof -
  obtain b where b: "md_books_new tbl (mc_sync cfg) (mc_max_levels_per_message cfg) (mc_snapshot_limit cfg) = Ok b" "ms_books s = b"
    "ms_states s = replicate (length tbl) Idle" "ms_config s = cfg" "ms_worker s"
    using assms by (auto simp: md_session_new_def Let_def result_simps split: if_splits)
  have "shape b = (tbl, length tbl, mc_snapshot_limit cfg)"
    using b(1) by (auto simp: md_books_new_def shape_def snapshot_decoder_new_def split: result.splits)
  then show "base_inv cfg tbl s" "requests_inv s" using b by (simp_all add: base_inv_def requests_inv_def)
  show "ms_verification s = None" "ms_jobs s = []" "ms_results s = []" "ms_generation s = 0"
    using assms by (auto simp: md_session_new_def Let_def result_simps split: if_splits)
qed

lemma with_journal_frame [simp]:
  "ms_config (with_journal s) = ms_config s" "ms_books (with_journal s) = ms_books s" "ms_states (with_journal s) = ms_states s"
  "ms_worker (with_journal s) = ms_worker s" "ms_generation (with_journal s) = ms_generation s" "ms_results (with_journal s) = ms_results s"
  "ms_jobs (with_journal s) = ms_jobs s" "ms_verification (with_journal s) = ms_verification s" "ms_calls (with_journal s) = ms_calls s"
  by (simp_all add: with_journal_def Let_def)

lemma bump_connections_shape [simp]: "shape (ms_books (bump_connections s)) = shape (ms_books s)" "verifying (ms_books (bump_connections s)) = verifying (ms_books s)"
  by (simp_all add: bump_connections_def)

lemma sess_reach_requests:
  assumes "sess_reach d strict cfg tbl n s" "table_new is = Ok tbl"
  shows "base_inv cfg tbl s \<and> requests_inv s"
  using assms(1)
proof induction
  case (start clock s)
  then show ?case using new_session_inv by blast
next
  case (start_journal clock s)
  then show ?case
    using base_inv_cong [OF new_session_inv(1) [OF start_journal]] requests_inv_cong [OF new_session_inv(2) [OF start_journal]] by simp
next
  case (tells n s st)
  then show ?case using base_inv_cong [of cfg tbl s] requests_inv_cong [of s] by simp
next
  case (connects n s)
  then show ?case using base_inv_cong [of cfg tbl s] requests_inv_cong [of s] by simp
next
  case (reads_clock n s)
  then show ?case using base_inv_cong [of cfg tbl s] requests_inv_cong [of s] by simp
next
  case (data n s m)
  then show ?case using on_data_inv by blast
next
  case (fetches n s f)
  then show ?case using base_inv_cong [of cfg tbl s] deliver_inv by simp
next
  case (collects n s)
  then show ?case using collect_next_base collect_next_requests [OF _ _ table_length [OF assms(2)]] by blast
next
  case (requests n s)
  then show ?case using request_inv [OF _ _ assms(2)] by blast
next
  case (schedules n s)
  then show ?case using base_inv_cong [of cfg tbl s] more_jobs_requests [of s] schedule_frame [of s] by fastforce
next
  case (reports n s)
  then show ?case using base_inv_cong [of cfg tbl s] requests_inv_cong [of s] by simp
next
  case (goes_down n s)
  then show ?case using base_inv_cong [of cfg tbl s] by (auto simp: take_all_down_frame requests_inv_def)
qed

section \<open>Connections and verifications\<close>

definition tracked :: "md_session \<Rightarrow> bool" where
  "tracked s \<longleftrightarrow> (\<forall>i t. ms_verification s = Some (i, t) \<longrightarrow> verifying (ms_books s) = Some i)"

lemma tracked_cong: "tracked s \<Longrightarrow> ms_verification s' = ms_verification s \<Longrightarrow> verifying (ms_books s') = verifying (ms_books s) \<Longrightarrow> tracked s'"
  by (simp add: tracked_def)

lemma after_apply_tracked: "tracked (after_apply a s)"
  by (auto simp: tracked_def after_apply_def Let_def split: md_applied.split option.split down_reason.split)

lemma apply_error_keeps: "md_apply m b = (Err e, b') \<Longrightarrow> verifying b' = verifying b"
  by (auto simp: md_apply_def Let_def verifying_def split: prod.splits result.splits option.splits)

lemma on_data_tracked: "tracked s \<Longrightarrow> tracked (snd (on_data m s))"
proof -
  assume t: "tracked s"
  obtain res b where a: "md_apply m (ms_books s) = (res, b)" by (cases "md_apply m (ms_books s)")
  show ?thesis
    using after_apply_tracked a apply_error_keeps [of m "ms_books s"] t
    by (cases res) (auto simp: on_data_def split_beta Let_def tracked_def)
qed

lemma collect_next_tracked: "tracked s \<Longrightarrow> tracked (collect_next d s)"
proof -
  assume t: "tracked s"
  have v: "tracked (apply_verification_snapshot r x)" if "tracked x" for r x
  proof (cases "ms_verification x")
    case (Some it)
    obtain i t where it: "it = (i, t)" by (cases it)
    show ?thesis
    proof (cases "i \<noteq> rs_instrument r \<or> verifying (ms_books x) \<noteq> Some i")
      case False
      show ?thesis
      proof (cases "rs_outcome r")
        case (Ok p)
        obtain v ns b where mv: "md_on_verification_snapshot i (ow_last_update_id p) (ow_bids p) (ow_asks p) (ms_books x) = (v, ns, b)"
          by (cases "md_on_verification_snapshot i (ow_last_update_id p) (ow_bids p) (ow_asks p) (ms_books x)") auto
        show ?thesis
          using False Some it Ok mv pending_verifying [of i _ _ _ "ms_books x" ns b]
          by (cases v) (auto simp: apply_verification_snapshot_def tracked_def Let_def)
      qed (use False Some it in \<open>simp add: apply_verification_snapshot_def tracked_def\<close>)
    qed (use Some it that in \<open>simp add: apply_verification_snapshot_def\<close>)
  qed (use that in \<open>simp add: apply_verification_snapshot_def\<close>)
  show ?thesis
    using t tracked_cong [OF t] v by (auto simp: collect_next_def collect_one_def apply_snapshot_frame split: list.split purpose.split)
qed

lemma begin_verification_tracked:
  assumes "ms_verification s = None" "start_verification (id_of k) (ms_books s) = (True, b)"
  shows "tracked (begin_verification t k inst (s\<lparr>ms_books := b\<rparr>))"
  using assms by (auto simp: begin_verification_def Let_def tracked_def start_verification_def verifying_def bump_requested_def split: if_splits)

lemma start_next_tracked: "ms_verification s = None \<Longrightarrow> tracked (start_next t e s)"
proof -
  assume n: "ms_verification s = None"
  have "tracked (verify_from t k steps s)" for k steps
    by (rule verify_from_cases [of t k steps s]) (use n begin_verification_tracked [OF n] in \<open>auto simp: tracked_def\<close>)
  then have v: "tracked (verify_from t (length (mb_instruments (ms_books s))) [0..<length (mb_instruments (ms_books s))] s)" .
  show ?thesis
    using tracked_cong [OF v] n by (simp add: start_next_def split_beta Let_def tracked_def)
qed

lemma schedule_tracked: "tracked s \<Longrightarrow> tracked (schedule_verification s)"
  using start_next_tracked [of "snd (now s)"] start_next_tracked [of "give_up_verification (snd (now s))"] tracked_cong [of s "snd (now s)"]
  by (auto simp: schedule_verification_def split_beta Let_def split: option.split)

lemma request_keeps:
  "ms_verification (request_one t k s) = ms_verification s" "verifying (ms_books (request_one t k s)) = verifying (ms_books s)"
  "ms_generation (request_one t k s) = ms_generation s" "ms_results (request_one t k s) = ms_results s"
  "mb_syncs (ms_books (request_one t k s)) = mb_syncs (ms_books s)"
  "\<exists>js. ms_jobs (request_one t k s) = ms_jobs s @ js \<and> list_all (\<lambda>j. jb_generation j = ms_generation s \<and> jb_instrument j \<in> set (mb_instruments (ms_books s))) js"
proof -
  have e: "\<exists>js. xs = xs @ js \<and> list_all P js" for xs P by (rule exI [of _ "[]"]) simp
  show "ms_verification (request_one t k s) = ms_verification s" "verifying (ms_books (request_one t k s)) = verifying (ms_books s)"
    "ms_generation (request_one t k s) = ms_generation s" "ms_results (request_one t k s) = ms_results s"
    "mb_syncs (ms_books (request_one t k s)) = mb_syncs (ms_books s)"
    by (simp_all add: request_one_def Let_def split: option.split) (simp add: bump_requested_def)
  show "\<exists>js. ms_jobs (request_one t k s) = ms_jobs s @ js \<and> list_all (\<lambda>j. jb_generation j = ms_generation s \<and> jb_instrument j \<in> set (mb_instruments (ms_books s))) js"
    using e by (auto simp: request_one_def Let_def send_job_def table_get_def nth_opt_def split: option.split if_splits)
qed

lemma request_fold_keeps:
  "ms_verification (fold (request_one t) ks s) = ms_verification s" "verifying (ms_books (fold (request_one t) ks s)) = verifying (ms_books s)"
  "ms_generation (fold (request_one t) ks s) = ms_generation s" "ms_results (fold (request_one t) ks s) = ms_results s"
  "mb_syncs (ms_books (fold (request_one t) ks s)) = mb_syncs (ms_books s)"
  by (induction ks arbitrary: s) (simp_all add: request_keeps)

lemma sess_reach_tracked: "sess_reach d strict cfg tbl n s \<Longrightarrow> tracked s"
proof (induction rule: sess_reach.induct)
  case (start clock s)
  then show ?case using new_session_inv(3) by (simp add: tracked_def)
next
  case (start_journal clock s)
  then show ?case using new_session_inv(3) by (simp add: tracked_def)
next
  case (requests n s)
  then show ?case using tracked_cong [of s "request_snapshots s"] by (simp add: request_snapshots_def split_beta Let_def request_fold_keeps)
next
  case (goes_down n s)
  then show ?case by (simp add: tracked_def take_all_down_frame)
qed (auto intro: tracked_cong on_data_tracked collect_next_tracked schedule_tracked)

text \<open>Nothing in the queues is from a later connection, and before the counter wraps it counts the connections.\<close>

definition generations_inv :: "nat \<Rightarrow> md_session \<Rightarrow> bool" where
  "generations_inv n s \<longleftrightarrow> (n < 2 ^ 64 \<longrightarrow> ms_generation s = n \<and> list_all (\<lambda>j. jb_generation j \<le> n) (ms_jobs s) \<and> list_all (\<lambda>r. rs_generation r \<le> n) (ms_results s))"

lemma generations_cong:
  assumes "generations_inv n s" "ms_generation s' = ms_generation s" "ms_jobs s' = ms_jobs s @ js" "list_all (\<lambda>j. jb_generation j = ms_generation s) js"
    "set (ms_results s') \<subseteq> set (ms_results s)"
  shows "generations_inv n s'"
  using assms by (auto simp: generations_inv_def list_all_iff)

lemma after_apply_frame:
  "ms_generation (after_apply a s) = ms_generation s" "ms_jobs (after_apply a s) = ms_jobs s" "ms_results (after_apply a s) = ms_results s"
  "ms_journal (after_apply a s) = ms_journal s"
  by (simp_all add: after_apply_def Let_def split: md_applied.split option.split down_reason.split)

lemma on_data_frame:
  "ms_generation (snd (on_data m s)) = ms_generation s" "ms_jobs (snd (on_data m s)) = ms_jobs s" "ms_results (snd (on_data m s)) = ms_results s"
  by (simp_all add: on_data_def split_beta Let_def after_apply_frame split: result.split)

lemma deliver_generations: "generations_inv n s \<Longrightarrow> generations_inv n (deliver f s)"
  by (auto simp: generations_inv_def deliver_def split: list.split)

lemma collect_generations: "generations_inv n s \<Longrightarrow> generations_inv n (collect_next d s)"
  by (erule generations_cong [where js = "[]"])
    (auto simp: collect_next_def collect_one_def apply_snapshot_frame apply_verification_frame split: list.split purpose.split)

lemma request_generations:
  assumes "generations_inv n s"
  shows "generations_inv n (fold (request_one t) ks s)"
  using assms
proof (induction ks arbitrary: s)
  case (Cons k ks)
  obtain js where js: "ms_jobs (request_one t k s) = ms_jobs s @ js" "list_all (\<lambda>j. jb_generation j = ms_generation s) js"
    using request_keeps(6) [of t k s] by (auto simp: list_all_iff)
  have "generations_inv n (request_one t k s)" by (rule generations_cong [OF Cons.prems _ js]) (simp_all add: request_keeps)
  then show ?case using Cons.IH by simp
qed simp

lemma generations_simple:
  "generations_inv n s \<Longrightarrow> ms_generation s' = ms_generation s \<Longrightarrow> ms_jobs s' = ms_jobs s \<Longrightarrow> ms_results s' = ms_results s \<Longrightarrow> generations_inv n s'"
  by (simp add: generations_inv_def)

lemma sess_reach_generations: "sess_reach d strict cfg tbl n s \<Longrightarrow> generations_inv n s"
proof (induction rule: sess_reach.induct)
  case (start clock s)
  then show ?case using new_session_inv(4-6) by (simp add: generations_inv_def)
next
  case (start_journal clock s)
  then show ?case using new_session_inv(4-6) by (simp add: generations_inv_def)
next
  case (requests n s)
  then show ?case using request_generations [of n "snd (now s)"] generations_simple [of n s "snd (now s)"] by (simp add: request_snapshots_def split_beta Let_def)
next
  case (schedules n s)
  obtain js where js: "ms_jobs (schedule_verification s) = ms_jobs s @ js" "list_all (\<lambda>j. jb_generation j = ms_generation s) js"
    using schedule_frame(7) [of s] by (auto simp: list_all_iff)
  show ?case by (rule generations_cong [OF schedules.IH _ js]) (simp_all add: schedule_frame)
next
  case (goes_down n s)
  then show ?case by (auto simp: generations_inv_def take_all_down_frame list_all_iff)
qed (auto intro: generations_simple deliver_generations collect_generations simp: on_data_frame)

section \<open>What the snapshot thread delivers\<close>

lemma decode_snapshot_limit: "sd_limit dec = sd_limit dec' \<Longrightarrow> fst (decode_snapshot m i dec) = fst (decode_snapshot m i dec')"
  by (simp add: decode_snapshot_def split_beta Let_def)

lemma decode_snapshot_keeps: "sd_limit (snd (decode_snapshot m i dec)) = sd_limit dec"
  by (simp add: decode_snapshot_def split_beta Let_def)

lemma fetch_delivers:
  assumes "fetch get cfg i t w dec budget = (out, dec', budget')" "sd_limit dec = mc_snapshot_limit cfg"
  shows "fetched_from (mc_snapshot_limit cfg) i out" "sd_limit dec' = mc_snapshot_limit cfg"
proof -
  have l: "sd_limit dec = sd_limit (snapshot_decoder_new (mc_snapshot_limit cfg))" using assms(2) by (simp add: snapshot_decoder_new_def)
  have d: "fst (decode_snapshot body i dec) = fst (decode_snapshot body i (snapshot_decoder_new (mc_snapshot_limit cfg)))" for body
    by (rule decode_snapshot_limit [OF l])
  have k: "decode_snapshot body i dec = (x, y) \<Longrightarrow> sd_limit y = sd_limit dec \<and> fst (decode_snapshot body i (snapshot_decoder_new (mc_snapshot_limit cfg))) = x" for body x y
    using d [of body] decode_snapshot_keeps [of body i dec] by auto
  show "fetched_from (mc_snapshot_limit cfg) i out" "sd_limit dec' = mc_snapshot_limit cfg"
    using assms by (auto simp: fetch_def fetched_from_def Let_def split: result.splits prod.splits if_splits dest!: k)
qed

lemma requested_after:
  assumes "base_inv cfg tbl s" "table_new is = Ok tbl" "k \<in> set ks" "k < length tbl"
  shows "md_is_live (id_of k) (ms_books (fold (request_one t) ks s)) \<or> ms_states (fold (request_one t) ks s) ! k = Requested
    \<or> (\<exists>u. ms_states (fold (request_one t) ks s) ! k = RetryAt u \<and> t < u)"
proof -
  define good where "good x \<longleftrightarrow> md_is_live (id_of k) (ms_books x) \<or> ms_states x ! k = Requested \<or> (\<exists>u. ms_states x ! k = RetryAt u \<and> t < u)" for x :: md_session
  have live: "md_is_live i (ms_books (request_one t j x)) = md_is_live i (ms_books x)" for i j x
    by (simp add: md_is_live_def request_keeps)
  have "k < 2 ^ 32" using table_ids [OF assms(2,4)] by simp
  then have get: "table_get (mb_instruments (ms_books x)) (id_of k) = Some (tbl ! k)" if "base_inv cfg tbl x" for x
    using that assms(4) index_of_id [of k] by (simp add: base_inv_def shape_def table_get_def nth_opt_def index_of_def)
  have hit: "good (request_one t k x)" if "base_inv cfg tbl x" for x
  proof (cases "md_is_live (id_of k) (ms_books x) \<or> \<not> due t (ms_states x ! k)")
    case True
    then have "request_one t k x = x" by (simp add: request_one_def Let_def)
    then show ?thesis using True by (auto simp: good_def due_def split: snapshot_state.splits)
  next
    case False
    then have "ms_states (request_one t k x) = (ms_states x)[k := Requested]"
      using get [OF that] that by (simp add: request_one_def base_inv_def set_state_def Let_def)
    then show ?thesis using that assms(4) by (simp add: good_def base_inv_def)
  qed
  have keep: "good (request_one t j x)" if "good x" "base_inv cfg tbl x" for j x
  proof (cases "j = k")
    case False
    then have "ms_states (request_one t j x) ! k = ms_states x ! k" by (simp add: request_one_def set_state_def Let_def split: option.split)
    then show ?thesis using that(1) live by (simp add: good_def)
  qed (use hit that in simp)
  have kept: "good (fold (request_one t) js x)" if "good x" "base_inv cfg tbl x" for js x
    using that by (induction js arbitrary: x) (auto intro: keep request_one_base)
  have "good (fold (request_one t) ks s)" using assms(1,3)
  proof (induction ks arbitrary: s)
    case (Cons j ks)
    show ?case
    proof (cases "j = k")
      case True
      then show ?thesis using kept [OF hit [OF Cons.prems(1)] request_one_base [OF Cons.prems(1)]] by simp
    qed (use Cons request_one_base in auto)
  qed simp
  then show ?thesis by (simp add: good_def)
qed

section \<open>Properties\<close>

text \<open>C14: A resynchronisation is never lost.  Whatever happened before, once the session has looked for books to
  resynchronise, every instrument's book is live, or a snapshot for it is on its way for this very connection, or the
  time of its next request is set and still ahead.\<close>

theorem resync_never_lost:
  assumes "sess_reach d strict cfg tbl n s" "table_new is = Ok tbl" "k < length tbl"
  shows "md_is_live (id_of k) (ms_books (request_snapshots s)) \<or> outstanding (request_snapshots s) k
    \<or> (\<exists>t. ms_states (request_snapshots s) ! k = RetryAt t \<and> mo_instant (ms_clock s (ms_ticks s)) < t)"
proof -
  have inv: "base_inv cfg tbl s" "requests_inv s" using sess_reach_requests [OF assms(1,2)] by auto
  then have b1: "base_inv cfg tbl (snd (now s))" using base_inv_cong [OF inv(1), of "snd (now s)"] by simp
  have r: "requests_inv (request_snapshots s)" "base_inv cfg tbl (request_snapshots s)" using request_inv [OF inv assms(2)] by auto
  have "md_is_live (id_of k) (ms_books (request_snapshots s)) \<or> ms_states (request_snapshots s) ! k = Requested
      \<or> (\<exists>u. ms_states (request_snapshots s) ! k = RetryAt u \<and> mo_instant (fst (now s)) < u)"
    using requested_after [OF b1 assms(2) _ assms(3), of "[0..<length (ms_states (snd (now s)))]" "mo_instant (fst (now s))"] assms(3) inv(1)
    by (simp add: request_snapshots_def split_beta Let_def base_inv_def)
  then show ?thesis using r assms(3) by (auto simp: requests_inv_def base_inv_def now_def)
qed

text \<open>C15: A new connection starts clean: every book is down and asks for a snapshot, no verification is running, and
  every job and every result that was still under way is of an older connection, so that it is dropped
  unread when it arrives.\<close>

theorem reconnect_starts_clean:
  assumes "sess_reach d strict cfg tbl n s" "Suc n < 2 ^ 64"
  shows "\<not> md_is_live i (ms_books (take_all_down s)) \<and> set (ms_states (take_all_down s)) \<subseteq> {Idle} \<and> ms_verification (take_all_down s) = None
    \<and> verifying (ms_books (take_all_down s)) = None
    \<and> list_all (\<lambda>j. jb_generation j \<noteq> ms_generation (take_all_down s)) (ms_jobs (take_all_down s))
    \<and> list_all (\<lambda>r. collect_one d r (take_all_down s) = take_all_down s) (ms_results (take_all_down s))"
proof -
  have g: "generations_inv n s" by (rule sess_reach_generations [OF assms(1)])
  have "\<not> md_is_live i (ms_books (take_all_down s))"
    by (simp add: md_is_live_def take_all_down_frame nth_opt_def is_live_def reset_def invalidate_def split: option.split)
  moreover have "verifying (ms_books (take_all_down s)) = None"
    by (simp add: take_all_down_def Let_def count_abandoned_def split: option.split)
  ultimately show ?thesis using g assms(2)
    by (auto simp: generations_inv_def take_all_down_frame list_all_iff collect_one_def)
qed

text \<open>What the snapshot thread makes of a job.  It starts no earlier than the pause asked for by the request before it;
  a snapshot comes only from a 200 whose body decodes, and then holds exactly what the body says, stamped with the wall clock;
  and only a 418 or a 429 pauses the requests that follow, for the time the venue asks or a minute.\<close>

lemma snapshot_work:
  assumes "depth_url (mc_rest_url cfg) (inst_symbol i) (mc_snapshot_limit cfg) = Ok u" "get u = Ok (resp, body)"
    "work get cfg i resumed tries at_mono at_wall ended w = Some (pause, out, w')"
  shows "(case wk_paused_until w of Some until \<Rightarrow> until | None \<Rightarrow> 0) \<le> resumed + pause
    \<and> out = (if hp_status resp \<noteq> 200 then Err (http_failure resp)
             else (case fst (decode_snapshot body i (wk_decoder w)) of
                     Ok p \<Rightarrow> Ok \<lparr>ow_raw = body, ow_last_update_id = dp_last_update_id p, ow_bids = dp_bids p, ow_asks = dp_asks p, ow_fetched_at = at_wall\<rparr>
                   | Err e \<Rightarrow> Err \<lparr>fl_reason = ReasonDecode e, fl_retry_after = None\<rparr>))
    \<and> wk_paused_until w' = (if hp_status resp = 418 \<or> hp_status resp = 429
        then Some (later_than ended (secs (case hp_retry_after_secs resp of Some n \<Rightarrow> n | None \<Rightarrow> 60))) else None)"
  using assms
  by (cases "decode_snapshot body i (wk_decoder w)")
    (auto simp: work_def fetch_def http_failure_def Let_def split: result.splits if_splits option.splits)

section \<open>A session over one instrument\<close>

definition demo_md_config :: md_config where
  "demo_md_config = (md_config_new (ascii ''wss://h'') (ascii ''https://h''))\<lparr>mc_sync := Book_Sync.demo_config, mc_max_levels_per_message := 20\<rparr>"

lemma demo_session: "\<exists>s. md_session_new clock True demo_md_config [demo_listing] = Ok s"
  by (simp add: md_session_new_def demo_md_config_def md_config_new_def stream_names_def trim_slashes_def parse_url_def ascii_def of_char_def
      demo_listing_def symbol_as_str_def split_once_def scheme_of_def host_port_def md_books_new_def sync_new_def Book_Sync.demo_config_def
      book_new_def ladder_new_def lower_def Let_def)

theorem resync_never_lost_witness:
  "\<exists>s. md_session_new (\<lambda>n. \<lparr>mo_instant = n, mo_mono = n, mo_wall = n\<rparr>) True demo_md_config [demo_listing] = Ok s
     \<and> (md_is_live (id_of 0) (ms_books (request_snapshots s)) \<or> outstanding (request_snapshots s) 0
       \<or> (\<exists>t. ms_states (request_snapshots s) ! 0 = RetryAt t \<and> mo_instant (ms_clock s (ms_ticks s)) < t))"
proof -
  obtain s where s: "md_session_new (\<lambda>n. \<lparr>mo_instant = n, mo_mono = n, mo_wall = n\<rparr>) True demo_md_config [demo_listing] = Ok s"
    using demo_session by blast
  show ?thesis using resync_never_lost [OF sess_reach.start [OF s, of "\<lambda>_. []" False] demo_described(2), of 0] s by auto
qed

theorem reconnect_starts_clean_witness:
  "\<exists>s. md_session_new (\<lambda>n. \<lparr>mo_instant = n, mo_mono = n, mo_wall = n\<rparr>) True demo_md_config [demo_listing] = Ok s
     \<and> \<not> md_is_live 0 (ms_books (take_all_down s))
     \<and> list_all (\<lambda>j. jb_generation j \<noteq> ms_generation (take_all_down s)) (ms_jobs (take_all_down s))"
proof -
  obtain s where s: "md_session_new (\<lambda>n. \<lparr>mo_instant = n, mo_mono = n, mo_wall = n\<rparr>) True demo_md_config [demo_listing] = Ok s"
    using demo_session by blast
  show ?thesis using reconnect_starts_clean [OF sess_reach.start [OF s, of "\<lambda>_. []" False], of 0] s by auto
qed

end
