(* ===== verification/Md_Replay.thy ===== *)
theory Md_Replay
  imports Md_Resync
begin

text \<open>
  What a session journals is enough to reproduce it: replaying its records feeds the books of the replay the way the
  session fed its own, and the handler of the replay receives what the session's handler received of the books.

  The books of the two differ in what has no influence on them: counters, the snapshot decoder's buffers, and a
  verification that the session dropped without a verdict and the replay still carries along.
\<close>

section \<open>Two components in lockstep\<close>

text \<open>
  Two components that answer every input alike, as long as they are related, and stay related.  Then they answer every
  sequence of inputs alike.
\<close>

fun answers :: "('i \<Rightarrow> 's \<Rightarrow> 'o \<times> 's) \<Rightarrow> 'i list \<Rightarrow> 's \<Rightarrow> 'o list \<times> 's" where
  "answers f [] s = ([], s)"
| "answers f (x # xs) s = (let (out, s1) = f x s; (outs, s2) = answers f xs s1 in (out # outs, s2))"

locale lockstep =
  fixes alike :: "'a \<Rightarrow> 'b \<Rightarrow> bool"
    and f :: "'i \<Rightarrow> 'a \<Rightarrow> 'o \<times> 'a"
    and g :: "'i \<Rightarrow> 'b \<Rightarrow> 'o \<times> 'b"
  assumes same_answer: "alike a b \<Longrightarrow> fst (f x a) = fst (g x b)"
    and stays_alike: "alike a b \<Longrightarrow> alike (snd (f x a)) (snd (g x b))"
begin

lemma one: "alike a b \<Longrightarrow> f x a = (out, a') \<Longrightarrow> \<exists>b'. g x b = (out, b') \<and> alike a' b'"
  using same_answer [of a b x] stays_alike [of a b x] by (cases "g x b") auto

lemma all: "alike a b \<Longrightarrow> answers f xs a = (outs, a') \<Longrightarrow> \<exists>b'. answers g xs b = (outs, b') \<and> alike a' b'"
proof (induction xs arbitrary: a b outs)
  case (Cons x xs)
  obtain out a1 outs' where a1: "f x a = (out, a1)" "answers f xs a1 = (outs', a')" "outs = out # outs'"
    using Cons.prems(2) by (auto simp: Let_def split: prod.splits)
  obtain b1 where "g x b = (out, b1)" "alike a1 b1" using one [OF Cons.prems(1) a1(1)] by blast
  then show ?case using Cons.IH [OF _ a1(2)] a1(3) by fastforce
qed simp

end

section \<open>Counters do not matter to a book\<close>

definition twin :: "book_sync \<Rightarrow> book_sync \<Rightarrow> bool" where
  "twin s s' \<longleftrightarrow> sy_book s = sy_book s' \<and> sy_state s = sy_state s' \<and> sy_pending s = sy_pending s' \<and> sy_updates s = sy_updates s'
     \<and> sy_config s = sy_config s'"

lemma twin_refl [simp]: "twin s s"
  by (simp add: twin_def)

lemma twin_parts [intro]:
  "twin s s' \<Longrightarrow> twin (invalidate s) (invalidate s')" "twin s s' \<Longrightarrow> twin (bump_stale s) (bump_stale s')"
  "twin s s' \<Longrightarrow> twin (restart_buffer s) (restart_buffer s')" "twin s s' \<Longrightarrow> twin (reset s) (reset s')"
  by (simp_all add: twin_def reset_def)

lemma twin_book: "twin s s' \<Longrightarrow> twin (s\<lparr>sy_book := b\<rparr>) (s'\<lparr>sy_book := b\<rparr>)"
  by (simp add: twin_def)

lemma twin_sees: "twin s s' \<Longrightarrow> last_seq s = last_seq s' \<and> sync_book s = sync_book s' \<and> is_live s = is_live s'"
  by (auto simp: twin_def last_seq_def sync_book_def is_live_def split: sync_state.split)

lemma buffer_twin: "twin s s' \<Longrightarrow> fst (buffer r us s) = fst (buffer r us s') \<and> twin (snd (buffer r us s)) (snd (buffer r us s'))"
proof -
  have store: "twin a a' \<Longrightarrow> fst (buffer_store r us a) = fst (buffer_store r us a') \<and> twin (snd (buffer_store r us a)) (snd (buffer_store r us a'))" for a a'
    by (simp add: buffer_store_eq make_room_def Let_def twin_def)
  assume "twin s s'"
  then show ?thesis using store [of s s'] store [of "restart_buffer s" "restart_buffer s'"] twin_parts
    by (auto simp: buffer_def twin_def split: option.split)
qed

lemma check_crossed_twin: "twin s s' \<Longrightarrow> fst (check_crossed s) = fst (check_crossed s') \<and> twin (snd (check_crossed s)) (snd (check_crossed s'))"
  using twin_parts(1) [of s s'] by (auto simp: check_crossed_def twin_def split: option.split)

lemma delta_twin: "twin s s' \<Longrightarrow> fst (on_delta r us s) = fst (on_delta r us s') \<and> twin (snd (on_delta r us s)) (snd (on_delta r us s'))"
proof -
  assume t: "twin s s'"
  then have eq: "sy_state s' = sy_state s" "sy_book s' = sy_book s" by (simp_all add: twin_def)
  obtain res b where a: "run_steps book_apply us (sy_book s) = (res, b)" by (cases "run_steps book_apply us (sy_book s)")
  have "twin (s\<lparr>sy_book := b\<rparr>) (s'\<lparr>sy_book := b\<rparr>)" using t by (rule twin_book)
  then have c: "twin (invalidate (s\<lparr>sy_book := b\<rparr>)) (invalidate (s'\<lparr>sy_book := b\<rparr>))"
    "twin (s\<lparr>sy_book := b, sy_state := q\<rparr>) (s'\<lparr>sy_book := b, sy_state := q\<rparr>)" for q by (auto simp: twin_def)
  show ?thesis
    using a eq buffer_twin [OF t, of r us] buffer_twin [OF twin_parts(1) [OF t], of r us] twin_parts(2) [OF t] c(1)
      check_crossed_twin [OF c(2), of "Live (sr_last r)"]
    by (auto simp: on_delta_def apply_all_def split_beta split: sync_state.split result.split)
qed

lemma replay_twin:
  "twin s s' \<Longrightarrow> fst (replay_pending u ms c s) = fst (replay_pending u ms c s') \<and> twin (snd (replay_pending u ms c s)) (snd (replay_pending u ms c s'))"
proof (induction ms arbitrary: c s s')
  case (Cons m ms)
  have eq: "sy_book s' = sy_book s" "sy_updates s' = sy_updates s" using Cons.prems by (simp_all add: twin_def)
  obtain res b where a: "run_steps book_apply (message_updates m (sy_updates s)) (sy_book s) = (res, b)"
    by (cases "run_steps book_apply (message_updates m (sy_updates s)) (sy_book s)")
  have "twin (s\<lparr>sy_book := b\<rparr>) (s'\<lparr>sy_book := b\<rparr>)" using Cons.prems by (rule twin_book)
  moreover have "twin (s\<lparr>sy_book := x, sy_state := AwaitingSnapshot\<rparr>) (s'\<lparr>sy_book := x, sy_state := AwaitingSnapshot\<rparr>)" for x
    using Cons.prems by (simp add: twin_def)
  ultimately show ?case using Cons.IH [OF Cons.prems] Cons.IH a eq by (auto split: result.split)
qed simp

lemma snapshot_twin: "twin s s' \<Longrightarrow> fst (on_snapshot u bids asks s) = fst (on_snapshot u bids asks s') \<and> twin (snd (on_snapshot u bids asks s)) (snd (on_snapshot u bids asks s'))"
proof -
  assume t: "twin s s'"
  then have eq: "sy_state s' = sy_state s" "sy_book s' = sy_book s" "sy_pending s' = sy_pending s" by (simp_all add: twin_def)
  obtain res b where l: "book_load bids asks (sy_book s) = (res, b)" by (cases "book_load bids asks (sy_book s)")
  have tb: "twin (s\<lparr>sy_book := b\<rparr>) (s'\<lparr>sy_book := b\<rparr>)" using t by (rule twin_book)
  obtain out x x' where r: "replay_pending u (sy_pending s) u (s\<lparr>sy_book := b\<rparr>) = (out, x)"
    "replay_pending u (sy_pending s) u (s'\<lparr>sy_book := b\<rparr>) = (out, x')" "twin x x'"
    using replay_twin [OF tb, of u "sy_pending s" u] by (metis prod.collapse)
  have "twin (x\<lparr>sy_pending := [], sy_updates := [], sy_state := q\<rparr>) (x'\<lparr>sy_pending := [], sy_updates := [], sy_state := q\<rparr>)" for q
    using r(3) by (simp add: twin_def)
  from check_crossed_twin [OF this] show ?thesis
    using t eq l r twin_parts(1) [OF tb] by (auto simp: on_snapshot_def split_beta split: result.split sync_state.split)
qed

interpretation deltas: lockstep twin "\<lambda>(r, us). on_delta r us" "\<lambda>(r, us). on_delta r us"
  by unfold_locales (auto simp: delta_twin)

interpretation snapshots: lockstep twin "\<lambda>(u, bids, asks). on_snapshot u bids asks" "\<lambda>(u, bids, asks). on_snapshot u bids asks"
  by unfold_locales (auto simp: snapshot_twin)

text \<open>What remains of a book once it is reset: its sides and its sizes.\<close>

definition frame_of :: "book_sync \<Rightarrow> book \<times> sync_config" where
  "frame_of s = (book_clear (sy_book s), sy_config s)"

lemma twin_frame: "twin s s' \<Longrightarrow> frame_of s = frame_of s'"
  by (simp add: twin_def frame_of_def)

lemma clear_clear [simp]: "book_clear (book_clear b) = book_clear b"
  by (simp add: book_clear_def ladder_clear_def)

lemma frame_reset [simp]: "frame_of (reset s) = frame_of s" "frame_of (invalidate s) = frame_of s"
  by (simp_all add: frame_of_def reset_def)

lemma reset_twin: "frame_of s = frame_of s' \<Longrightarrow> twin (reset s) (reset s')"
  by (simp add: frame_of_def twin_def reset_def)

lemma apply_clear: "book_clear (snd (book_apply u b)) = book_clear b"
proof -
  have "ladder_clear (snd (ladder_apply p q lad)) = ladder_clear lad" for p q lad
    by (cases "search lad p"; cases "q = 0") (auto simp: ladder_apply_def ladder_insert_def ladder_clear_def Let_def split: result.split)
  then show ?thesis by (cases "lu_side u") (simp_all add: book_apply_def book_clear_def split_beta)
qed

lemma run_clear: "book_clear (snd (run_steps book_apply us b)) = book_clear b"
proof (induction us arbitrary: b)
  case (Cons u us)
  show ?case using Cons [of "snd (book_apply u b)"] apply_clear [of u b] by (simp add: split_beta split: result.split)
qed simp

lemma frame_delta: "frame_of (snd (on_delta r us s)) = frame_of s"
proof -
  have buf: "frame_of (snd (buffer r us x)) = frame_of x" for x
    by (simp add: buffer_def buffer_store_eq make_room_def Let_def frame_of_def split: option.split)
  have chk: "frame_of (snd (check_crossed x)) = frame_of x" for x
    by (simp add: check_crossed_def split: option.split)
  obtain res b where a: "run_steps book_apply us (sy_book s) = (res, b)" by (cases "run_steps book_apply us (sy_book s)")
  then have "book_clear b = book_clear (sy_book s)" using run_clear [of us "sy_book s"] by simp
  then have "frame_of (s\<lparr>sy_book := b\<rparr>) = frame_of s" "frame_of (s\<lparr>sy_book := b, sy_state := q\<rparr>) = frame_of s" for q by (simp_all add: frame_of_def)
  moreover have "frame_of (bump_stale s) = frame_of s" by (simp add: frame_of_def)
  ultimately show ?thesis using a buf [of s] buf [of "invalidate s"] chk
    by (auto simp: on_delta_def apply_all_def split_beta split: sync_state.split result.split)
qed

section \<open>Books of a session and of its replay\<close>

abbreviation shadow_sync :: "md_books \<Rightarrow> book_sync" where "shadow_sync b \<equiv> sh_sync (mb_shadow b)"

text \<open>Both verify the same instrument, or the session verifies none and the replay can reach no verdict.\<close>

definition same_shadow :: "md_books \<Rightarrow> md_books \<Rightarrow> bool" where
  "same_shadow b b' \<longleftrightarrow> verifying b = verifying b' \<and> sh_loaded (mb_shadow b) = sh_loaded (mb_shadow b') \<and> twin (shadow_sync b) (shadow_sync b')"

definition left_behind :: "md_books \<Rightarrow> md_books \<Rightarrow> bool" where
  "left_behind b b' \<longleftrightarrow> verifying b = None \<and> \<not> sh_loaded (mb_shadow b')"

definition same_books :: "md_books \<Rightarrow> md_books \<Rightarrow> bool" where
  "same_books b b' \<longleftrightarrow> mb_instruments b = mb_instruments b' \<and> mb_syncs b = mb_syncs b' \<and> mb_decoder b = mb_decoder b'
     \<and> sd_limit (mb_snapshot_decoder b) = sd_limit (mb_snapshot_decoder b') \<and> frame_of (shadow_sync b) = frame_of (shadow_sync b')
     \<and> (same_shadow b b' \<or> left_behind b b')"

lemmas same_defs = same_books_def same_shadow_def left_behind_def verifying_def

lemma same_books_refl: "same_books b b"
  by (simp add: same_defs)

lemma same_stats [simp]:
  "same_books (b\<lparr>mb_stats := st\<rparr>) b' = same_books b b'" "same_books b (b'\<lparr>mb_stats := st\<rparr>) = same_books b b'"
  by (simp_all add: same_defs)

lemma same_decoder: "same_books b b' \<Longrightarrow> same_books (b\<lparr>mb_decoder := dec\<rparr>) (b'\<lparr>mb_decoder := dec\<rparr>)"
  by (simp add: same_defs)

lemma same_snapshot_decoder: "same_books b b' \<Longrightarrow> sd_limit dec = sd_limit (mb_snapshot_decoder b') \<Longrightarrow> same_books b (b'\<lparr>mb_snapshot_decoder := dec\<rparr>)"
  by (simp add: same_defs)

lemma same_syncs: "same_books b b' \<Longrightarrow> same_books (b\<lparr>mb_syncs := ys\<rparr>) (b'\<lparr>mb_syncs := ys\<rparr>)"
  by (simp add: same_defs)

lemma same_set_sync: "same_books b b' \<Longrightarrow> same_books (set_sync i y b) (set_sync i y b')"
  using same_syncs [of b b' "(mb_syncs b)[index_of i := y]"] by (simp add: set_sync_def same_books_def)

lemma same_invalidations [simp]: "same_books (bump_invalidations b) (bump_invalidations b') = same_books b b'"
  by (simp add: bump_invalidations_def)

lemma same_live: "same_books b b' \<Longrightarrow> md_is_live i b = md_is_live i b' \<and> md_book i b = md_book i b'"
  by (simp add: same_books_def md_is_live_def md_book_def)

lemma cancel_both: "same_books b b' \<Longrightarrow> same_books (cancel_verification b) (cancel_verification b')"
  using reset_twin [of "shadow_sync b" "shadow_sync b'"]
  by (auto simp: same_defs cancel_verification_def split: option.splits)

text \<open>A verification without its snapshot may be dropped in the session alone, or in the replay alone once the session dropped it.\<close>

lemma cancel_alone: "same_books b b' \<Longrightarrow> \<not> sh_loaded (mb_shadow b) \<Longrightarrow> same_books (cancel_verification b) b'"
  by (auto simp: same_defs cancel_verification_def split: option.splits)

lemma cancel_late: "same_books b b' \<Longrightarrow> verifying b = None \<Longrightarrow> left_behind b b' \<Longrightarrow> same_books b (cancel_verification b')"
  by (auto simp: same_defs cancel_verification_def split: option.splits)

lemma same_start: "same_books b b' \<Longrightarrow> fst (start_verification i b) = fst (start_verification i b') \<and> same_books (snd (start_verification i b)) (snd (start_verification i b'))"
  using reset_twin [of "shadow_sync b" "shadow_sync b'"] same_live [of b b' i] by (simp add: start_verification_def) (simp add: same_defs)

lemma same_reset_all: "same_books b b' \<Longrightarrow> same_books (reset_all b) (reset_all b')"
  using cancel_both [OF same_syncs [of b b' "map reset (mb_syncs b)"]] by (simp add: reset_all_def same_books_def)

lemma same_verdict: "same_books b b' \<Longrightarrow> same_shadow b b' \<Longrightarrow> verdict b = verdict b'"
proof -
  assume a: "same_books b b'" "same_shadow b b'"
  then have e: "last_seq (shadow_sync b) = last_seq (shadow_sync b')" "sync_book (shadow_sync b) = sync_book (shadow_sync b')" "mb_syncs b = mb_syncs b'"
      "sh_instrument (mb_shadow b) = sh_instrument (mb_shadow b')" "sh_loaded (mb_shadow b) = sh_loaded (mb_shadow b')"
    using twin_sees [of "shadow_sync b" "shadow_sync b'"] by (simp_all add: same_shadow_def same_books_def verifying_def)
  show ?thesis unfolding verdict_def e ..
qed

lemma same_settle:
  assumes "same_books b b'" "same_shadow b b'"
  shows "fst (settle_verification b) = fst (settle_verification b') \<and> same_books (snd (settle_verification b)) (snd (settle_verification b'))"
proof -
  let ?c = "cancel_verification b" and ?c' = "cancel_verification b'"
  have c: "same_books ?c ?c'" by (rule cancel_both [OF assms(1)])
  then have "mb_syncs ?c = mb_syncs ?c'" by (simp add: same_books_def)
  then show ?thesis using same_verdict [OF assms] c assms(1)
    by (auto simp: settle_verification_def Let_def bump_invalidations_def intro!: same_set_sync split: option.split)
qed

lemma settle_verifying: "verifying (snd (settle_verification b)) = (if verdict b = None then verifying b else None)"
  by (simp add: settle_verification_def Let_def split: option.split prod.split)

lemma unloaded_settle: "\<not> sh_loaded (mb_shadow b) \<Longrightarrow> settle_verification b = (None, b)"
  by (simp add: settle_verification_def verdict_def bind_eq_None_conv split: option.split)

lemma same_feed: "same_books b b' \<Longrightarrow> same_shadow b b' \<Longrightarrow> same_books (feed_shadow r us b) (feed_shadow r us b') \<and> same_shadow (feed_shadow r us b) (feed_shadow r us b')"
  using delta_twin [of "shadow_sync b" "shadow_sync b'" r us] twin_frame by (auto simp: feed_shadow_def same_defs)

lemma feed_late: "same_books b b' \<Longrightarrow> left_behind b b' \<Longrightarrow> same_books b (feed_shadow r us b') \<and> \<not> sh_loaded (mb_shadow (feed_shadow r us b'))"
  by (auto simp: feed_shadow_def same_defs frame_delta)

lemma same_update:
  assumes "same_books b b'" "apply_update u y b = (a, b1)"
  shows "\<exists>b1'. apply_update u y b' = (a, b1') \<and> same_books b1 b1'"
proof -
  let ?i = "du_instrument u"
  obtain out y1 where o: "on_delta (du_range u) (du_updates u) y = (out, y1)" by (cases "on_delta (du_range u) (du_updates u) y")
  let ?c = "set_sync ?i y1 b" and ?c' = "set_sync ?i y1 b'"
  have c: "same_books ?c ?c'" using assms(1) by (rule same_set_sync)
  have e: "mb_shadow ?c = mb_shadow b" "mb_shadow ?c' = mb_shadow b'" by (simp_all add: set_sync_def)
  show ?thesis
  proof (cases "same_shadow ?c ?c'")
    case True
    have v: "sh_instrument (mb_shadow b') = sh_instrument (mb_shadow b)" using True e by (simp add: same_shadow_def verifying_def)
    have f: "same_books (feed_shadow (du_range u) (du_updates u) (?c\<lparr>mb_stats := st\<rparr>)) (feed_shadow (du_range u) (du_updates u) (?c'\<lparr>mb_stats := st'\<rparr>))"
      "same_shadow (feed_shadow (du_range u) (du_updates u) (?c\<lparr>mb_stats := st\<rparr>)) (feed_shadow (du_range u) (du_updates u) (?c'\<lparr>mb_stats := st'\<rparr>))" for st st'
      using same_feed [of "?c\<lparr>mb_stats := st\<rparr>" "?c'\<lparr>mb_stats := st'\<rparr>"] c True by (simp_all add: same_shadow_def verifying_def)
    have fed: "same_books (feed_shadow (du_range u) (du_updates u) ?c) (feed_shadow (du_range u) (du_updates u) ?c')" using same_feed [OF c True] by simp
    have "settle_verification (feed_shadow (du_range u) (du_updates u) (?c\<lparr>mb_stats := st\<rparr>)) = (k, x) \<Longrightarrow>
        \<exists>x'. settle_verification (feed_shadow (du_range u) (du_updates u) (?c'\<lparr>mb_stats := st'\<rparr>)) = (k, x') \<and> same_books x x'" for st st' k x
      using same_settle [OF f] by (metis prod.collapse fst_conv snd_conv)
    note settles = this
    show ?thesis
    proof (cases "out = Ok Applied \<and> sh_instrument (mb_shadow b) = Some ?i")
      case True
      let ?more = "\<lambda>z. z\<lparr>mb_stats := (mb_stats z)\<lparr>st_deltas_applied := sat_u64 (st_deltas_applied (mb_stats z) + 1)\<rparr>\<rparr>"
      obtain k x where k: "settle_verification (feed_shadow (du_range u) (du_updates u) (?more ?c)) = (k, x)" by fastforce
      obtain x' where x': "settle_verification (feed_shadow (du_range u) (du_updates u) (?more ?c')) = (k, x')" "same_books x x'" using settles [OF k] by blast
      show ?thesis using True assms(2) o e v k x' by (cases k) (auto simp: apply_update_def)
    next
      case False
      then show ?thesis using assms(2) o e v c cancel_both [OF c] fed
        by (auto simp: apply_update_def Let_def split: result.splits delta_outcome.splits if_splits)
    qed
  next
    case False
    then have l: "left_behind ?c ?c'" using c by (auto simp: same_books_def)
    have n: "sh_instrument (mb_shadow b) = None" using l e by (simp add: left_behind_def verifying_def)
    have f: "same_books ?c (feed_shadow (du_range u) (du_updates u) (?c'\<lparr>mb_stats := st\<rparr>))"
      "settle_verification (feed_shadow (du_range u) (du_updates u) (?c'\<lparr>mb_stats := st\<rparr>)) = (None, feed_shadow (du_range u) (du_updates u) (?c'\<lparr>mb_stats := st\<rparr>))" for st
      using feed_late [of ?c "?c'\<lparr>mb_stats := st\<rparr>"] c l unloaded_settle by (simp_all add: left_behind_def)
    have "same_books ?c (feed_shadow (du_range u) (du_updates u) ?c')" using feed_late [OF c l] by simp
    moreover have "same_books ?c (cancel_verification ?c')" by (rule cancel_late [OF c _ l]) (use n e in \<open>simp add: verifying_def\<close>)
    ultimately show ?thesis using assms(2) o e n c f
      by (auto simp: apply_update_def Let_def split_beta split: result.splits delta_outcome.splits if_splits)
  qed
qed

lemma same_message:
  assumes "same_books b b'"
  shows "fst (md_apply m b) = fst (md_apply m b') \<and> same_books (snd (md_apply m b)) (snd (md_apply m b'))"
proof -
  have eq: "mb_instruments b' = mb_instruments b" "mb_decoder b' = mb_decoder b" "mb_syncs b' = mb_syncs b" using assms by (simp_all add: same_books_def)
  obtain res dec where d: "decode_update m (mb_instruments b) (mb_decoder b) = (res, dec)" by (cases "decode_update m (mb_instruments b) (mb_decoder b)")
  have "same_books (b\<lparr>mb_stats := st, mb_decoder := dec\<rparr>) (b'\<lparr>mb_stats := st', mb_decoder := dec\<rparr>)" for st st'
    by (rule same_decoder) (simp add: assms)
  moreover have "same_books x x' \<Longrightarrow> fst (apply_update u y x) = fst (apply_update u y x') \<and> same_books (snd (apply_update u y x)) (snd (apply_update u y x'))" for x x' u y
    using same_update [of x x' u y] by (cases "apply_update u y x") fastforce
  ultimately show ?thesis using d eq by (simp add: md_apply_def Let_def split_beta split: result.split option.split)
qed

interpretation messages: lockstep same_books md_apply md_apply
  by unfold_locales (auto simp: same_message)

text \<open>A fetched snapshot: the session applies what the other thread decoded, the replay decodes the journaled body again.\<close>

lemma fetched_decodes:
  assumes "fetched_from (sd_limit dec) meta (Ok p)"
  shows "\<exists>dec'. decode_snapshot (ow_raw p) meta dec = (Ok \<lparr>dp_last_update_id = ow_last_update_id p, dp_bids = ow_bids p, dp_asks = ow_asks p\<rparr>, dec')
    \<and> sd_limit dec' = sd_limit dec"
proof -
  have "fst (decode_snapshot (ow_raw p) meta dec) = fst (decode_snapshot (ow_raw p) meta (snapshot_decoder_new (sd_limit dec)))"
    by (rule decode_snapshot_limit) (simp add: snapshot_decoder_new_def)
  then show ?thesis using assms decode_snapshot_keeps [of "ow_raw p" meta dec]
    by (cases "decode_snapshot (ow_raw p) meta dec") (simp add: fetched_from_def)
qed

lemma same_on_snapshot:
  assumes "same_books b b'" "table_get (mb_instruments b) i = Some meta" "fetched_from (sd_limit (mb_snapshot_decoder b)) meta (Ok p)"
    "md_on_snapshot i (ow_last_update_id p) (ow_bids p) (ow_asks p) t b = (out, ns, b1)"
  shows "\<exists>b1'. md_on_raw_snapshot i (ow_raw p) t b' = (out, ns, b1') \<and> same_books b1 b1'"
proof -
  have eq: "mb_instruments b' = mb_instruments b" "mb_syncs b' = mb_syncs b" "sd_limit (mb_snapshot_decoder b') = sd_limit (mb_snapshot_decoder b)"
    using assms(1) by (simp_all add: same_books_def)
  obtain dec where d: "decode_snapshot (ow_raw p) meta (mb_snapshot_decoder b')
      = (Ok \<lparr>dp_last_update_id = ow_last_update_id p, dp_bids = ow_bids p, dp_asks = ow_asks p\<rparr>, dec)" "sd_limit dec = sd_limit (mb_snapshot_decoder b')"
    using fetched_decodes [of "mb_snapshot_decoder b'" meta p] assms(3) eq(3) by auto
  have "same_books b (b'\<lparr>mb_snapshot_decoder := dec\<rparr>)" using same_snapshot_decoder [OF assms(1) d(2)] .
  then have c: "same_books (set_sync i y b) (set_sync i y (b'\<lparr>mb_snapshot_decoder := dec\<rparr>))" for y by (rule same_set_sync)
  have settle: "same_books x x' \<Longrightarrow> settle y i res t x = (out, ns, b1) \<Longrightarrow> \<exists>b1'. settle y i res t x' = (out, ns, b1') \<and> same_books b1 b1'" for x x' y res
    by (auto simp: settle_def split: result.splits bool.splits option.splits sync_error.splits)
  show ?thesis
  proof (cases "nth_opt (mb_syncs b) (index_of i)")
    case None
    then show ?thesis using assms eq by (auto simp: md_on_snapshot_def md_on_raw_snapshot_def nth_opt_def)
  next
    case (Some y)
    then show ?thesis using assms(2,4) eq d settle [OF c]
      by (auto simp: md_on_snapshot_def md_on_raw_snapshot_def nth_opt_def split: prod.splits)
  qed
qed

lemma same_after_verification:
  assumes "same_books b b'" "same_shadow b b'" "after_verification_snapshot i ok b = (v, ns, b1)"
  shows "\<exists>b1'. after_verification_snapshot i ok b' = (v, ns, b1') \<and> same_books b1 b1'"
proof -
  let ?c = "b\<lparr>mb_shadow := (mb_shadow b)\<lparr>sh_loaded := True\<rparr>\<rparr>" and ?c' = "b'\<lparr>mb_shadow := (mb_shadow b')\<lparr>sh_loaded := True\<rparr>\<rparr>"
  have c: "same_books ?c ?c'" "same_shadow ?c ?c'" using assms(1,2) by (auto simp: same_defs)
  note settled = same_settle [OF c]
  show ?thesis
  proof (cases ok)
    case False
    then show ?thesis using assms(3) cancel_both [OF assms(1)] by (simp add: after_verification_snapshot_def)
  next
    case True
    obtain m x x' where m: "settle_verification ?c = (m, x)" "settle_verification ?c' = (m, x')" "same_books x x'"
      using settled by (metis prod.collapse)
    have "sh_instrument (mb_shadow x) = None \<longleftrightarrow> sh_instrument (mb_shadow x') = None"
      using settle_verifying [of ?c] settle_verifying [of ?c'] m same_verdict [OF c] c(2) by (auto simp: same_shadow_def verifying_def)
    then show ?thesis using True assms(3) m by (auto simp: after_verification_snapshot_def split: option.splits if_splits)
  qed
qed

lemma same_on_verification:
  assumes "same_books b b'" "verifying b = Some i" "table_get (mb_instruments b) i = Some meta" "fetched_from (sd_limit (mb_snapshot_decoder b)) meta (Ok p)"
    "md_on_verification_snapshot i (ow_last_update_id p) (ow_bids p) (ow_asks p) b = (v, ns, b1)"
  shows "\<exists>b1'. md_on_raw_verification_snapshot i (ow_raw p) b' = (v, ns, b1') \<and> same_books b1 b1'"
proof -
  have sh: "same_shadow b b'" using assms(1,2) by (auto simp: same_books_def left_behind_def)
  have eq: "mb_instruments b' = mb_instruments b" "sd_limit (mb_snapshot_decoder b') = sd_limit (mb_snapshot_decoder b)"
      "sh_instrument (mb_shadow b') = Some i" "sh_instrument (mb_shadow b) = Some i" "sh_loaded (mb_shadow b') = sh_loaded (mb_shadow b)"
    using assms(1,2) sh by (simp_all add: same_books_def same_shadow_def verifying_def)
  obtain dec where d: "decode_snapshot (ow_raw p) meta (mb_snapshot_decoder b')
      = (Ok \<lparr>dp_last_update_id = ow_last_update_id p, dp_bids = ow_bids p, dp_asks = ow_asks p\<rparr>, dec)" "sd_limit dec = sd_limit (mb_snapshot_decoder b')"
    using fetched_decodes [of "mb_snapshot_decoder b'" meta p] assms(4) eq(2) by auto
  obtain res y y' where y: "on_snapshot (ow_last_update_id p) (ow_bids p) (ow_asks p) (shadow_sync b) = (res, y)"
      "on_snapshot (ow_last_update_id p) (ow_bids p) (ow_asks p) (shadow_sync b') = (res, y')" "twin y y'"
    using snapshot_twin [of "shadow_sync b" "shadow_sync b'" "ow_last_update_id p" "ow_bids p" "ow_asks p"] sh
    by (cases "on_snapshot (ow_last_update_id p) (ow_bids p) (ow_asks p) (shadow_sync b)";
        cases "on_snapshot (ow_last_update_id p) (ow_bids p) (ow_asks p) (shadow_sync b')") (auto simp: same_shadow_def)
  let ?c = "b\<lparr>mb_shadow := (mb_shadow b)\<lparr>sh_sync := y\<rparr>\<rparr>"
  let ?c' = "b'\<lparr>mb_snapshot_decoder := dec, mb_shadow := (mb_shadow b')\<lparr>sh_sync := y'\<rparr>\<rparr>"
  have c: "same_shadow ?c ?c'" using sh y(3) by (simp add: same_shadow_def verifying_def)
  then have "same_books ?c ?c'" using assms(1) d(2) twin_frame [OF y(3)] by (simp add: same_books_def)
  from same_after_verification [OF this c] show ?thesis using assms eq d(1) y
    by (auto simp: md_on_verification_snapshot_def md_on_raw_verification_snapshot_def)
qed

section \<open>Every record replays what the session did\<close>

fun book_notice :: "handler_call \<Rightarrow> notice list" where
  "book_notice (Noticed (OnStatus st)) = (if of_session st then [] else [OnStatus st])"
| "book_notice (Noticed n) = [n]"
| "book_notice (OnReport r) = []"

abbreviation book_notices :: "handler_call list \<Rightarrow> notice list" where
  "book_notices cs \<equiv> concat (map book_notice cs)"

text \<open>The records reproduce a session: its books, and the notices its books gave.\<close>

definition reproduces :: "journal_record list \<Rightarrow> md_session \<Rightarrow> bool" where
  "reproduces j s \<longleftrightarrow> (\<exists>st b. replay_all j replay_start = (Ok (), st) \<and> ry_books st = Some b \<and> same_books (ms_books s) b
     \<and> ry_calls st = book_notices (ms_calls s))"

definition replayed :: "md_session \<Rightarrow> bool" where
  "replayed s \<longleftrightarrow> (\<forall>j. ms_journal s = Some j \<longrightarrow> reproduces j s)"

lemma replayed_quiet:
  assumes "replayed s" "ms_journal s' = ms_journal s" "\<And>b. same_books (ms_books s) b \<Longrightarrow> same_books (ms_books s') b"
    "book_notices (ms_calls s') = book_notices (ms_calls s)"
  shows "replayed s'"
  using assms unfolding replayed_def reproduces_def by metis

lemma appended:
  "ms_journal s = Some j \<Longrightarrow> \<exists>h. rh_kind h = k \<and> (\<forall>x. w = Some x \<longrightarrow> rh_wall h = x) \<and> ms_journal (journal_append k w ps s) = Some (j @ [(h, concat ps)])"
  "ms_journal s = None \<Longrightarrow> ms_journal (journal_append k w ps s) = None"
  by (auto simp: journal_append_def Let_def split_beta split: option.split)

lemma replayed_record:
  assumes "replayed s" "ms_journal s' = ms_journal (journal_append k w ps s0)" "ms_journal s0 = ms_journal s"
    "book_notices (ms_calls s') = book_notices (ms_calls s) @ ns"
    "\<And>h b st. rh_kind h = k \<Longrightarrow> (\<forall>x. w = Some x \<longrightarrow> rh_wall h = x) \<Longrightarrow> ry_books st = Some b \<Longrightarrow> same_books (ms_books s) b \<Longrightarrow>
       \<exists>st' b'. replay_record (h, concat ps) st = (Ok (), st') \<and> ry_books st' = Some b' \<and> same_books (ms_books s') b' \<and> ry_calls st' = ry_calls st @ ns"
  shows "replayed s'"
  unfolding replayed_def
proof (intro allI impI)
  fix j' assume j': "ms_journal s' = Some j'"
  then obtain j where j: "ms_journal s = Some j" using assms(2,3) appended(2) [of s0 k w ps] by (cases "ms_journal s") auto
  then obtain h where h: "rh_kind h = k" "\<forall>x. w = Some x \<longrightarrow> rh_wall h = x" "j' = j @ [(h, concat ps)]"
    using appended(1) [of s0 j k w ps] j' assms(2,3) by auto
  obtain st b where st: "replay_all j replay_start = (Ok (), st)" "ry_books st = Some b" "same_books (ms_books s) b" "ry_calls st = book_notices (ms_calls s)"
    using assms(1) j by (auto simp: replayed_def reproduces_def)
  obtain st' b' where "replay_record (h, concat ps) st = (Ok (), st')" "ry_books st' = Some b'" "same_books (ms_books s') b'" "ry_calls st' = ry_calls st @ ns"
    using assms(5) [OF h(1,2) st(2,3)] by blast
  then show "reproduces j' s'" using st h(3) assms(4) unfolding reproduces_def by (intro exI [of _ st'] exI [of _ b']) (simp add: replay_all_append)
qed

lemmas kind_defs = GAP_def SESSION_START_def MD_MESSAGE_def MD_SNAPSHOT_def MD_STATUS_def MD_RESET_def MD_VERIFY_START_def MD_VERIFY_SNAPSHOT_def

lemma book_reports [simp]: "concat (map (book_notice \<circ> Noticed) (report b a)) = report b a"
  by (cases a) (auto split: option.split)

lemma snapshot_reports: "md_on_snapshot i u bids asks t b = (out, ns, b') \<Longrightarrow> concat (map (book_notice \<circ> Noticed) ns) = ns"
  by (auto simp: md_on_snapshot_def settle_def split: option.splits prod.splits result.splits bool.splits sync_error.splits)

lemma verification_reports: "md_on_verification_snapshot i u bids asks b = (v, ns, b') \<Longrightarrow> concat (map (book_notice \<circ> Noticed) ns) = ns"
  by (auto simp: md_on_verification_snapshot_def after_verification_snapshot_def split: option.splits prod.splits if_splits)

lemma id_read_back: "split_chunk 4 (le_bytes 4 (unat (i :: 32 word)) @ raw) = Some (le_bytes 4 (unat i), raw)" "id_from_le (le_bytes 4 (unat (i :: 32 word))) = i"
proof -
  have "unat i < 256 ^ 4" using unsigned_less [of i] by simp
  then show "id_from_le (le_bytes 4 (unat i)) = i" by (simp add: id_from_le_def)
  show "split_chunk 4 (le_bytes 4 (unat i) @ raw) = Some (le_bytes 4 (unat i), raw)" by (simp add: split_chunk_def)
qed

lemma status_replayed: "replayed s \<Longrightarrow> of_session st \<Longrightarrow> replayed (status d st s)"
  by (rule replayed_record [where k = MD_STATUS and ns = "[]" and ?s0.0 = s and w = None and ps = "[d st]"])
    (auto simp: status_def tell_def replay_record_def kind_defs)

lemma after_apply_books: "ms_books s = b \<Longrightarrow> \<exists>st. ms_books (after_apply a s) = b\<lparr>mb_stats := st\<rparr>"
  "ms_calls (after_apply a s) = ms_calls s @ map Noticed (report (ms_books s) a)"
proof -
  have "\<exists>st. b = b\<lparr>mb_stats := st\<rparr>" by (rule exI [of _ "mb_stats b"]) simp
  then show "ms_books s = b \<Longrightarrow> \<exists>st. ms_books (after_apply a s) = b\<lparr>mb_stats := st\<rparr>"
    by (auto simp: after_apply_def Let_def count_abandoned_def split: md_applied.split option.split down_reason.split)
  show "ms_calls (after_apply a s) = ms_calls s @ map Noticed (report (ms_books s) a)"
    by (auto simp: after_apply_def Let_def tell_def split: md_applied.split option.split down_reason.split)
qed

lemma report_same: "same_books b b' \<Longrightarrow> report b a = report b' a"
  using same_live by (cases a) auto

lemma data_replayed:
  assumes "replayed s"
  shows "replayed (snd (on_data m s))"
proof -
  obtain res b1 where a: "md_apply m (ms_books s) = (res, b1)" by (cases "md_apply m (ms_books s)")
  let ?ns = "case res of Ok x \<Rightarrow> report b1 x | Err e \<Rightarrow> []"
  have "\<exists>st. ms_books (snd (on_data m s)) = b1\<lparr>mb_stats := st\<rparr>"
  proof (cases res)
    case (Ok x)
    then show ?thesis using a by (simp add: on_data_def Let_def split_beta) (rule after_apply_books(1), simp)
  next
    case (Err e)
    then show ?thesis using a by (auto simp: on_data_def Let_def split_beta intro: exI [of _ "mb_stats b1"])
  qed
  then obtain stats where b: "ms_books (snd (on_data m s)) = b1\<lparr>mb_stats := stats\<rparr>" ..
  show ?thesis
  proof (rule replayed_record [where k = MD_MESSAGE and w = None and ps = "[m]" and ?s0.0 = s and ns = ?ns, OF assms])
    show "ms_journal (snd (on_data m s)) = ms_journal (journal_append MD_MESSAGE None [m] s)"
      by (simp add: on_data_def Let_def split_beta after_apply_frame split: result.split)
    show "book_notices (ms_calls (snd (on_data m s))) = book_notices (ms_calls s) @ ?ns"
      using a by (cases res) (simp_all add: on_data_def Let_def split_beta after_apply_books(2))
    fix h :: record_header and b' and st :: replay_state assume "rh_kind h = MD_MESSAGE" "ry_books st = Some b'" "same_books (ms_books s) b'"
    then show "\<exists>st' b''. replay_record (h, concat [m]) st = (Ok (), st') \<and> ry_books st' = Some b'' \<and> same_books (ms_books (snd (on_data m s))) b''
        \<and> ry_calls st' = ry_calls st @ ?ns"
      using messages.one [OF _ a, of b'] report_same [of b1]
      by (cases res) (auto simp: b replay_record_def kind_defs replay_message_def with_books_def md_on_message_def)
  qed simp
qed

lemma down_replayed:
  assumes "replayed s"
  shows "replayed (take_all_down s)"
proof (rule replayed_record [where k = MD_RESET and w = None and ps = "[]" and ?s0.0 = s and ns = "[]", OF assms])
  fix h :: record_header and b and st :: replay_state assume a: "rh_kind h = MD_RESET" "ry_books st = Some b" "same_books (ms_books s) b"
  have "same_books (ms_books (take_all_down s)) (reset_all b)"
    using same_reset_all [OF a(3)] by (simp add: take_all_down_def Let_def count_abandoned_def split: option.split)
  then show "\<exists>st' b'. replay_record (h, concat ([] :: byte list list)) st = (Ok (), st') \<and> ry_books st' = Some b' \<and> same_books (ms_books (take_all_down s)) b' \<and> ry_calls st' = ry_calls st @ []"
    using a by (simp add: replay_record_def kind_defs replay_reset_def with_books_def)
qed (simp_all add: take_all_down_def Let_def split: option.split)

section \<open>Snapshots and verifications\<close>

text \<open>What is asked for and what comes back belongs to an instrument of the table.\<close>

definition sound :: "md_config \<Rightarrow> instrument_table \<Rightarrow> md_session \<Rightarrow> bool" where
  "sound cfg tbl s \<longleftrightarrow> list_all (\<lambda>j. jb_instrument j \<in> set tbl) (ms_jobs s)
     \<and> list_all (\<lambda>r. \<exists>i \<in> set tbl. rs_instrument r = inst_id i \<and> fetched_from (mc_snapshot_limit cfg) i (rs_outcome r)) (ms_results s)"

lemma sound_cong:
  "sound cfg tbl s \<Longrightarrow> ms_jobs s' = ms_jobs s @ js \<Longrightarrow> list_all (\<lambda>j. jb_instrument j \<in> set tbl) js \<Longrightarrow> set (ms_results s') \<subseteq> set (ms_results s) \<Longrightarrow> sound cfg tbl s'"
  by (auto simp: sound_def list_all_iff)

lemma sound_same: "sound cfg tbl s \<Longrightarrow> ms_jobs s' = ms_jobs s \<Longrightarrow> ms_results s' = ms_results s \<Longrightarrow> sound cfg tbl s'"
  by (simp add: sound_def)

lemma request_sound:
  "sound cfg tbl s \<Longrightarrow> base_inv cfg tbl s \<Longrightarrow> sound cfg tbl (fold (request_one t) ks s)"
proof (induction ks arbitrary: s)
  case (Cons k ks)
  obtain js where js: "ms_jobs (request_one t k s) = ms_jobs s @ js" "list_all (\<lambda>j. jb_instrument j \<in> set (mb_instruments (ms_books s))) js"
    using request_keeps(6) [of t k s] by (auto simp: list_all_iff)
  have "mb_instruments (ms_books s) = tbl" using Cons.prems(2) by (simp add: base_inv_def shape_def)
  then have "sound cfg tbl (request_one t k s)" using sound_cong [OF Cons.prems(1) js(1)] js(2) by (simp add: request_keeps)
  then show ?case using Cons.IH request_one_base [OF Cons.prems(2)] by simp
qed simp

lemma collect_next_results: "ms_jobs (collect_next d s) = ms_jobs s" "ms_results (collect_next d s) = tl (ms_results s)"
  by (auto simp: collect_next_def collect_one_def apply_snapshot_frame apply_verification_frame split: list.split purpose.split)

lemma sess_reach_sound:
  assumes "sess_reach d strict cfg tbl n s" "table_new is = Ok tbl"
  shows "sound cfg tbl s"
  using assms(1)
proof (induction rule: sess_reach.induct)
  case (start clock s)
  then show ?case using new_session_inv by (simp add: sound_def)
next
  case (start_journal clock s)
  then show ?case using new_session_inv by (simp add: sound_def)
next
  case (requests n s)
  have b: "base_inv cfg tbl s" using sess_reach_requests [OF requests.hyps assms(2)] by simp
  have "sound cfg tbl (snd (now s))" "base_inv cfg tbl (snd (now s))"
    using sound_same [OF requests.IH] base_inv_cong [OF b] by simp_all
  then show ?case using request_sound by (simp add: request_snapshots_def split_beta Let_def)
next
  case (schedules n s)
  have "base_inv cfg tbl s" using sess_reach_requests [OF schedules.hyps(1) assms(2)] by simp
  then have "mb_instruments (ms_books s) = tbl" by (simp add: base_inv_def shape_def)
  then show ?case using schedule_frame(6,7) [of s] sound_cong [OF schedules.IH, of "schedule_verification s"] by (auto simp: list_all_iff)
next
  case (fetches n s f)
  then show ?case by (fastforce simp: sound_def deliver_def list_all_iff split: list.split)
next
  case (collects n s)
  have "set (tl (ms_results s)) \<subseteq> set (ms_results s)" by (cases "ms_results s") auto
  then show ?case using sound_cong [OF collects.IH, of "collect_next d s" "[]"] by (simp add: collect_next_results)
next
  case (data n s m)
  then show ?case using sound_same by (simp add: on_data_frame)
qed (auto intro: sound_same simp: take_all_down_frame)

lemma table_entry: "table_new is = Ok tbl \<Longrightarrow> i \<in> set tbl \<Longrightarrow> table_get tbl (inst_id i) = Some i"
  using table_ids [of "is" tbl] index_of_id by (auto simp: in_set_conv_nth table_get_def nth_opt_def index_of_def)

lemma replayed_same:
  "replayed s \<Longrightarrow> ms_journal s' = ms_journal s \<Longrightarrow> ms_books s' = (ms_books s)\<lparr>mb_stats := st\<rparr> \<Longrightarrow> ms_calls s' = ms_calls s \<Longrightarrow> replayed s'"
  by (rule replayed_quiet) simp_all

lemma replayed_frame: "replayed s \<Longrightarrow> ms_journal s' = ms_journal s \<Longrightarrow> ms_books s' = ms_books s \<Longrightarrow> ms_calls s' = ms_calls s \<Longrightarrow> replayed s'"
  by (rule replayed_quiet) simp_all

lemma snapshot_replayed:
  assumes "replayed s" "table_get (mb_instruments (ms_books s)) (rs_instrument r) = Some meta"
    "fetched_from (sd_limit (mb_snapshot_decoder (ms_books s))) meta (rs_outcome r)"
  shows "replayed (apply_snapshot d r s)"
proof (cases "rs_outcome r")
  case (Err f)
  let ?wait = "case fl_retry_after f of None \<Rightarrow> mc_snapshot_retry (ms_config s) | Some w \<Rightarrow> max w (mc_snapshot_retry (ms_config s))"
  have "replayed (set_state (index_of (rs_instrument r)) (RetryAt (fst (later ?wait s))) (snd (later ?wait s)))"
    using assms(1) by (rule replayed_frame) simp_all
  then show ?thesis using Err assms(1) status_replayed by (simp add: apply_snapshot_def Let_def split_beta)
next
  case (Ok p)
  let ?i = "rs_instrument r"
  obtain out ns b1 where o: "md_on_snapshot ?i (ow_last_update_id p) (ow_bids p) (ow_asks p) (ow_fetched_at p) (ms_books s) = (out, ns, b1)"
    by (cases "md_on_snapshot ?i (ow_last_update_id p) (ow_bids p) (ow_asks p) (ow_fetched_at p) (ms_books s)")
  have b: "ms_books (apply_snapshot d r s) = b1" "ms_calls (apply_snapshot d r s) = ms_calls s @ map Noticed ns"
    "ms_journal (apply_snapshot d r s) = ms_journal (journal_append MD_SNAPSHOT (Some (ow_fetched_at p)) [le_bytes 4 (unat ?i), ow_raw p] s)"
    using Ok o by (simp_all add: apply_snapshot_def Let_def split_beta tell_def)
  show ?thesis
  proof (rule replayed_record [where ns = ns and ?s0.0 = s, OF assms(1) b(3)])
    show "book_notices (ms_calls (apply_snapshot d r s)) = book_notices (ms_calls s) @ ns" using b(2) snapshot_reports [OF o] by simp
    fix h :: record_header and b' and st :: replay_state
    assume h: "rh_kind h = MD_SNAPSHOT" "\<forall>x. Some (ow_fetched_at p) = Some x \<longrightarrow> rh_wall h = x" "ry_books st = Some b'" "same_books (ms_books s) b'"
    from same_on_snapshot [OF h(4) assms(2) _ o] assms(3) Ok obtain b1' where "md_on_raw_snapshot ?i (ow_raw p) (ow_fetched_at p) b' = (out, ns, b1')" "same_books b1 b1'"
      by auto
    then show "\<exists>st' b'. replay_record (h, concat [le_bytes 4 (unat ?i), ow_raw p]) st = (Ok (), st') \<and> ry_books st' = Some b'
        \<and> same_books (ms_books (apply_snapshot d r s)) b' \<and> ry_calls st' = ry_calls st @ ns"
      using h by (simp add: b(1) replay_record_def kind_defs replay_snapshot_def with_books_def id_read_back)
  qed simp
qed

lemma give_up_replayed: "replayed s \<Longrightarrow> \<not> loaded s \<Longrightarrow> replayed (give_up_verification s)"
  by (rule replayed_quiet [of s]) (simp_all add: give_up_verification_def count_abandoned_def cancel_alone)

lemma verification_replayed:
  assumes "replayed s" "table_get (mb_instruments (ms_books s)) (rs_instrument r) = Some meta"
    "fetched_from (sd_limit (mb_snapshot_decoder (ms_books s))) meta (rs_outcome r)" "\<not> (loaded s \<and> \<not> is_ok (rs_outcome r))"
  shows "replayed (apply_verification_snapshot r s)"
proof (cases "\<exists>t. ms_verification s = Some (rs_instrument r, t) \<and> verifying (ms_books s) = Some (rs_instrument r)")
  case False
  then have "apply_verification_snapshot r s = s" by (auto simp: apply_verification_snapshot_def split: option.split)
  then show ?thesis using assms(1) by simp
next
  case True
  let ?i = "rs_instrument r"
  obtain t where t: "ms_verification s = Some (?i, t)" "verifying (ms_books s) = Some ?i" using True by blast
  show ?thesis
  proof (cases "rs_outcome r")
    case (Err f)
    then have "apply_verification_snapshot r s = give_up_verification s" using t by (simp add: apply_verification_snapshot_def)
    then show ?thesis using give_up_replayed [OF assms(1)] assms(4) Err by simp
  next
    case (Ok p)
    let ?s1 = "journal_append MD_VERIFY_SNAPSHOT (Some (ow_fetched_at p)) [le_bytes 4 (unat ?i), ow_raw p] s"
    obtain v ns b1 where o: "md_on_verification_snapshot ?i (ow_last_update_id p) (ow_bids p) (ow_asks p) (ms_books s) = (v, ns, b1)"
      by (cases "md_on_verification_snapshot ?i (ow_last_update_id p) (ow_bids p) (ow_asks p) (ms_books s)")
    have j: "ms_journal (tell ns (?s1\<lparr>ms_books := b1\<rparr>)) = ms_journal ?s1" by simp
    have tell: "replayed (tell ns (?s1\<lparr>ms_books := b1\<rparr>))"
    proof (rule replayed_record [where ns = ns and ?s0.0 = s, OF assms(1) j])
      show "book_notices (ms_calls (tell ns (?s1\<lparr>ms_books := b1\<rparr>))) = book_notices (ms_calls s) @ ns" using verification_reports [OF o] by (simp add: tell_def)
      fix h :: record_header and b' and st :: replay_state
      assume h: "rh_kind h = MD_VERIFY_SNAPSHOT" "\<forall>x. Some (ow_fetched_at p) = Some x \<longrightarrow> rh_wall h = x" "ry_books st = Some b'" "same_books (ms_books s) b'"
      from same_on_verification [OF h(4) t(2) assms(2) _ o] assms(3) Ok
      obtain b1' where "md_on_raw_verification_snapshot ?i (ow_raw p) b' = (v, ns, b1')" "same_books b1 b1'" by auto
      then show "\<exists>st' b'. replay_record (h, concat [le_bytes 4 (unat ?i), ow_raw p]) st = (Ok (), st') \<and> ry_books st' = Some b'
          \<and> same_books (ms_books (tell ns (?s1\<lparr>ms_books := b1\<rparr>))) b' \<and> ry_calls st' = ry_calls st @ ns"
        using h by (simp add: replay_record_def kind_defs replay_verify_snapshot_def with_books_def id_read_back)
    qed simp
    show ?thesis using Ok t o
      by (cases v) (auto simp: apply_verification_snapshot_def Let_def count_abandoned_def intro!: replayed_quiet [OF tell])
  qed
qed

lemma collect_replayed:
  assumes "replayed s" "sound cfg tbl s" "base_inv cfg tbl s" "table_new is = Ok tbl" "\<not> (loaded s \<and> fetch_failed s)"
  shows "replayed (collect_next d s)"
proof (cases "ms_results s")
  case Nil
  then show ?thesis using assms(1) by (simp add: collect_next_def)
next
  case (Cons r rs)
  let ?x = "s\<lparr>ms_results := rs\<rparr>"
  have x: "replayed ?x" using assms(1) by (rule replayed_frame) simp_all
  obtain meta where m: "meta \<in> set tbl" "rs_instrument r = inst_id meta" "fetched_from (mc_snapshot_limit cfg) meta (rs_outcome r)"
    using assms(2) Cons by (auto simp: sound_def)
  have b: "mb_instruments (ms_books ?x) = tbl" "sd_limit (mb_snapshot_decoder (ms_books ?x)) = mc_snapshot_limit cfg"
    using assms(3) by (simp_all add: base_inv_def shape_def)
  have r: "table_get (mb_instruments (ms_books ?x)) (rs_instrument r) = Some meta" "fetched_from (sd_limit (mb_snapshot_decoder (ms_books ?x))) meta (rs_outcome r)"
    using table_entry [OF assms(4) m(1)] m(2,3) b by simp_all
  show ?thesis
    using x snapshot_replayed [OF x r] verification_replayed [OF x r] assms(5) Cons
    by (auto simp: collect_next_def collect_one_def fetch_failed_def split: purpose.split)
qed

lemma begin_replayed:
  assumes "replayed s" "start_verification (id_of k) (ms_books s) = (True, b)"
  shows "replayed (begin_verification t k inst (s\<lparr>ms_books := b\<rparr>))"
proof -
  let ?s' = "begin_verification t k inst (s\<lparr>ms_books := b\<rparr>)" and ?s0 = "s\<lparr>ms_books := b\<rparr>"
  have j: "ms_journal ?s' = ms_journal (journal_append MD_VERIFY_START None [le_bytes 4 (unat (id_of k))] ?s0)"
    by (simp add: begin_verification_def Let_def)
  show ?thesis
  proof (rule replayed_record [where ns = "[]", OF assms(1) j])
    show "book_notices (ms_calls ?s') = book_notices (ms_calls s) @ []" by (simp add: begin_verification_def Let_def)
    fix h :: record_header and b' and st :: replay_state
    assume h: "rh_kind h = MD_VERIFY_START" "ry_books st = Some b'" "same_books (ms_books s) b'"
    have "same_books b (snd (start_verification (id_of k) b'))" using same_start [OF h(3), of "id_of k"] assms(2) by simp
    moreover have "\<not> sh_loaded (mb_shadow b)" using assms(2) by (auto simp: start_verification_def split: if_splits)
    ultimately have "same_books (ms_books ?s') (snd (start_verification (id_of k) b'))"
      using cancel_alone by (simp add: begin_verification_def Let_def bump_requested_def)
    then show "\<exists>st' b'. replay_record (h, concat [le_bytes 4 (unat (id_of k))]) st = (Ok (), st') \<and> ry_books st' = Some b' \<and> same_books (ms_books ?s') b'
        \<and> ry_calls st' = ry_calls st @ []"
      using h id_read_back(1) [of "id_of k" "[]"] by (simp add: replay_record_def kind_defs replay_verify_start_def with_books_def id_read_back(2))
  qed simp
qed

lemma start_next_replayed:
  assumes "replayed s"
  shows "replayed (start_next t every s)"
proof -
  have v: "replayed (verify_from t n steps s)" for n steps
    by (rule verify_from_cases [of t n steps s]) (use assms begin_replayed in auto)
  show ?thesis using assms by (auto simp: start_next_def Let_def split_beta intro!: replayed_frame [OF v])
qed

lemma schedule_replayed:
  assumes "replayed s" "\<not> (loaded s \<and> overdue s)"
  shows "replayed (schedule_verification s)"
proof -
  have n: "replayed (snd (now s))" using assms(1) by (rule replayed_frame) simp_all
  have "replayed (give_up_verification (snd (now s)))" if "\<not> loaded s" using give_up_replayed [OF n] that by simp
  moreover have "loaded s \<Longrightarrow> ms_verification s = Some (i, started) \<Longrightarrow> mo_instant (fst (now s)) - started < mc_verify_timeout (ms_config s)" for i started
    using assms(2) by (auto simp: overdue_def now_def)
  ultimately show ?thesis using start_next_replayed n assms(1)
    by (cases "loaded s") (auto simp: schedule_verification_def Let_def split_beta split: option.split)
qed

lemma request_replayed: "replayed s \<Longrightarrow> replayed (fold (request_one t) ks s)"
proof (induction ks arbitrary: s)
  case (Cons k ks)
  have "replayed (request_one t k s)" by (rule replayed_quiet [OF Cons.prems]) (simp_all add: request_one_def Let_def bump_requested_def split: option.split)
  then show ?case using Cons.IH by simp
qed simp

definition sizing_of :: "md_config \<Rightarrow> book_sizing" where
  "sizing_of cfg = \<lparr>bz_sync = mc_sync cfg, bz_max_levels_per_message = mc_max_levels_per_message cfg, bz_snapshot_limit = mc_snapshot_limit cfg\<rparr>"

lemma ascii_utf8: "list_all (\<lambda>c. c < 128) t \<Longrightarrow> utf8_valid t"
  by (induction t) simp_all

lemma described_utf8:
  assumes "list_all instrument_ok tbl"
  shows "utf8_valid (describe z tbl)"
proof -
  have g: "is_ascii_graphic c \<Longrightarrow> c < 128" for c by (auto simp: is_ascii_graphic_def intro: le_less_trans)
  have w: "list_all word_txt ws \<Longrightarrow> list_all (\<lambda>c. c < 128) (spaced ws @ [10])" for ws
    by (induction ws rule: spaced.induct) (auto simp: word_txt_def list_all_iff g)
  have "list_all (\<lambda>c. c < 128) (concat (map (\<lambda>i. write_pieces (instrument_pieces i)) tbl))"
    using assms w [OF instrument_line(2)] by (induction tbl) (auto simp: instrument_line(1))
  moreover have "list_all (\<lambda>c. c < 128) (write_pieces (sizing_pieces z))" using w [OF sizing_line(2)] by (simp add: sizing_line(1))
  moreover have "list_all (\<lambda>c. c < 128) HEADER_LINE" by (simp add: HEADER_LINE_def ascii_def of_char_def)
  ultimately show ?thesis by (intro ascii_utf8) (simp add: describe_def)
qed

lemma start_replayed:
  assumes "md_session_new clock True cfg tbl = Ok s" "table_new is = Ok tbl" "list_all instrument_ok tbl" "sizing_ok (sizing_of cfg)"
  shows "replayed (with_journal s)"
proof -
  have s: "md_books_new tbl (mc_sync cfg) (mc_max_levels_per_message cfg) (mc_snapshot_limit cfg) = Ok (ms_books s)" "ms_config s = cfg" "ms_calls s = []"
    using assms(1) by (auto simp: md_session_new_def Let_def result_simps split: if_splits)
  have t: "mb_instruments (ms_books s) = tbl" using new_session_inv(1) [OF assms(1)] by (simp add: base_inv_def shape_def)
  obtain h where h: "rh_kind h = SESSION_START" "ms_journal (with_journal s) = Some [(h, describe (sizing_of cfg) tbl)]"
    using appended(1) [of "s\<lparr>ms_journal := Some []\<rparr>" "[]" SESSION_START None "[describe (sizing_of cfg) tbl]"] s t
    by (auto simp: with_journal_def Let_def sizing_of_def)
  have "replay_record (h, describe (sizing_of cfg) tbl) replay_start
      = (Ok (), replay_start\<lparr>ry_books := Some (ms_books s), ry_report := replay_report_default\<lparr>rp_sessions := sat_u64 1\<rparr>\<rparr>)"
    using h(1) described_round_trip [OF assms(4,2,3)] described_utf8 [OF assms(3)] s(1)
    by (simp add: replay_record_def kind_defs replay_session_def sizing_of_def replay_start_def replay_report_default_def)
  then show ?thesis using h(2) s same_books_refl by (simp add: replayed_def reproduces_def replay_start_def)
qed

lemma sess_reach_replayed:
  assumes "sess_reach d True cfg tbl n s" "table_new is = Ok tbl" "list_all instrument_ok tbl" "sizing_ok (sizing_of cfg)"
  shows "replayed s"
  using assms(1)
proof (induction rule: sess_reach.induct)
  case (start clock s)
  then have "ms_journal s = None" by (auto simp: md_session_new_def Let_def result_simps split: if_splits)
  then show ?case by (simp add: replayed_def)
next
  case (start_journal clock s)
  then show ?case using start_replayed assms(2-4) by blast
next
  case (requests n s)
  have "replayed (snd (now s))" using requests.IH by (rule replayed_frame) simp_all
  then show ?case using request_replayed by (simp add: request_snapshots_def split_beta Let_def)
next
  case (schedules n s)
  then show ?case using schedule_replayed by blast
next
  case (fetches n s f)
  show ?case using fetches.IH by (rule replayed_frame) simp_all
next
  case (collects n s)
  then show ?case using collect_replayed [OF collects.IH sess_reach_sound [OF collects.hyps(1) assms(2)] _ assms(2)]
      sess_reach_requests [OF collects.hyps(1) assms(2)] by blast
next
  case (reports n s)
  show ?case using reports.IH by (rule replayed_quiet) (simp_all add: maybe_report_def Let_def split_beta)
next
  case (connects n s)
  show ?case using connects.IH by (rule replayed_quiet) (simp_all add: bump_connections_def)
next
  case (reads_clock n s)
  show ?case using reads_clock.IH by (rule replayed_frame) simp_all
qed (auto intro: status_replayed data_replayed down_replayed)

end
