(* ===== verification/Md_Board.thy ===== *)
theory Md_Board
  imports Metrics Md_Replay
begin

text \<open>
  \<open>bin/bowst-md/src/main.rs\<close>: the handler of the tool, which keeps the board that is printed and that the metrics are
  rendered from.  Terminal output and argument parsing are not modelled, nor the list of symbols that the handler
  keeps for its output only; the lock of the board is always obtained.
\<close>

section \<open>The board\<close>

record top =
  tp_bid :: "(price \<times> qty) option"
  tp_ask :: "(price \<times> qty) option"
  tp_depth :: "nat \<times> nat"
  tp_updates :: nat
  tp_event_time :: nanos

definition top_default :: top where
  "top_default = \<lparr>tp_bid = None, tp_ask = None, tp_depth = (0, 0), tp_updates = 0, tp_event_time = 0\<rparr>"

record board =
  bd_tops :: "nat \<rightharpoonup> top"
  bd_live :: "nat \<rightharpoonup> bool"
  bd_metrics :: metrics_state

definition board_default :: board where
  "board_default = \<lparr>bd_tops = Map.empty, bd_live = Map.empty, bd_metrics = metrics_state_default\<rparr>"

record recorder =
  rk_board :: board
  rk_reported_messages :: nat

definition recorder_new :: "board \<Rightarrow> recorder" where
  "recorder_new bd = \<lparr>rk_board = bd, rk_reported_messages = 0\<rparr>"

text \<open>The board as \<open>main\<close> hands it over, stamped with the time of the start.\<close>

definition board_started :: "nanos \<Rightarrow> board" where
  "board_started wall = board_default\<lparr>bd_metrics := metrics_state_default\<lparr>mt_started := wall\<rparr>\<rparr>"

definition on_book :: "instrument_id \<Rightarrow> book \<Rightarrow> nanos \<Rightarrow> recorder \<Rightarrow> recorder" where
  "on_book i b event_time r =
     (let bd = rk_board r;
          t = (case bd_tops bd (unat i) of Some t \<Rightarrow> t | None \<Rightarrow> top_default);
          t1 = t\<lparr>tp_bid := map_option (\<lambda>l. (lv_price l, lv_qty l)) (best_bid b), tp_ask := map_option (\<lambda>l. (lv_price l, lv_qty l)) (best_ask b),
                 tp_depth := (length (lad_levels (book_side Buy b)), length (lad_levels (book_side Sell b))),
                 tp_updates := sat_u64 (tp_updates t + 1), tp_event_time := event_time\<rparr>
      in r\<lparr>rk_board := bd\<lparr>bd_tops := (bd_tops bd)(unat i \<mapsto> t1)\<rparr>\<rparr>)"

fun on_status :: "md_status \<Rightarrow> recorder \<Rightarrow> recorder" where
  "on_status (InstrumentLive i) r = r\<lparr>rk_board := (rk_board r)\<lparr>bd_live := (bd_live (rk_board r))(unat i \<mapsto> True)\<rparr>\<rparr>"
| "on_status (InstrumentDown i reason) r = r\<lparr>rk_board := (rk_board r)\<lparr>bd_live := (bd_live (rk_board r))(unat i \<mapsto> False)\<rparr>\<rparr>"
| "on_status (SnapshotFailed i reason) r = r"
| "on_status (Disconnected reason) r =
     (let bd = rk_board r in
      r\<lparr>rk_board := bd\<lparr>bd_live := (\<lambda>k. map_option (\<lambda>_. False) (bd_live bd k)), bd_metrics := (bd_metrics bd)\<lparr>mt_connected := False\<rparr>\<rparr>\<rparr>)"
| "on_status Connecting r = r"
| "on_status Connected r = r\<lparr>rk_board := (rk_board r)\<lparr>bd_metrics := (bd_metrics (rk_board r))\<lparr>mt_connected := True\<rparr>\<rparr>\<rparr>"

definition on_report :: "nanos \<Rightarrow> md_report \<Rightarrow> recorder \<Rightarrow> recorder" where
  "on_report wall rep r =
     r\<lparr>rk_board := (rk_board r)\<lparr>bd_metrics := (bd_metrics (rk_board r))\<lparr>mt_report := Some (rep, wall)\<rparr>\<rparr>,
       rk_reported_messages := st_messages (mr_stats rep)\<rparr>"

text \<open>A call of the session to its handler, with the wall clock as the handler reads it.\<close>

fun record_call :: "handler_call \<times> nanos \<Rightarrow> recorder \<Rightarrow> recorder" where
  "record_call (Noticed (OnBook i b t), wall) r = on_book i b t r"
| "record_call (Noticed (OnStatus st), wall) r = on_status st r"
| "record_call (OnReport rep, wall) r = on_report wall rep r"

text \<open>The closure the metrics are rendered with.\<close>

definition live_on :: "board \<Rightarrow> nat \<Rightarrow> bool" where
  "live_on bd i = (case bd_live bd i of Some l \<Rightarrow> l | None \<Rightarrow> False)"

text \<open>One tick of \<open>watch\<close>: what it takes from the journal, and the instruments seen live so far.\<close>

definition watch_tick :: "journal_health option \<Rightarrow> board \<times> nat set \<Rightarrow> board \<times> nat set" where
  "watch_tick journal_state = (\<lambda>(bd, ever_live).
     let bd1 = (case journal_state of
            None \<Rightarrow> bd
          | Some h \<Rightarrow>
              let m = (bd_metrics bd)\<lparr>mt_journal := Some h\<rparr> in
              bd\<lparr>bd_metrics := (case h of Degraded dropped \<Rightarrow> m\<lparr>mt_journal_dropped := dropped\<rparr> | _ \<Rightarrow> m)\<rparr>)
     in (bd1, ever_live \<union> {i. bd_live bd1 i = Some True}))"

text \<open>The board is shared by the market-data thread and the thread that prints it, each taking its lock: their steps in the order
  they took it.\<close>

datatype board_step = Called handler_call nanos | Ticked "journal_health option"

fun on_board :: "board_step \<Rightarrow> recorder \<times> nat set \<Rightarrow> recorder \<times> nat set" where
  "on_board (Called c wall) (r, seen) = (record_call (c, wall) r, seen)"
| "on_board (Ticked h) (r, seen) = (let (bd, seen1) = watch_tick h (rk_board r, seen) in (r\<lparr>rk_board := bd\<rparr>, seen1))"

fun calls_of :: "board_step list \<Rightarrow> handler_call list" where
  "calls_of [] = []"
| "calls_of (Called c wall # bs) = c # calls_of bs"
| "calls_of (Ticked h # bs) = calls_of bs"

text \<open>The page the tool serves, from the board as it is when the request is answered.\<close>

definition page :: "byte list \<Rightarrow> instrument_table \<Rightarrow> board \<Rightarrow> byte list" where
  "page version tbl bd = render version (bd_metrics bd) tbl (live_on bd)"

section \<open>The board follows the books\<close>

fun live_step :: "handler_call \<Rightarrow> (instrument_id \<Rightarrow> bool) \<Rightarrow> instrument_id \<Rightarrow> bool" where
  "live_step (Noticed (OnStatus (InstrumentLive i))) f = f(i := True)"
| "live_step (Noticed (OnStatus (InstrumentDown i reason))) f = f(i := False)"
| "live_step (Noticed (OnStatus (Disconnected reason))) f = (\<lambda>_. False)"
| "live_step _ f = f"

lemma record_call_live: "live_on (rk_board (record_call (c, w) r)) (unat i) = live_step c (\<lambda>j. live_on (rk_board r) (unat (j :: instrument_id))) i"
proof (cases "((c, w), r)" rule: record_call.cases)
  case (2 st w' r')
  have "unat i = unat j \<longleftrightarrow> i = j" for j :: instrument_id by (simp add: word_unat_eq_iff)
  then show ?thesis using 2 by (cases st) (auto simp: live_on_def Let_def split: option.split)
qed (simp_all add: on_book_def on_report_def live_on_def Let_def)

lemma watch_live: "live_on (fst (watch_tick h (bd, seen))) = live_on bd"
  by (auto simp: watch_tick_def live_on_def Let_def fun_eq_iff split: option.split journal_health.split)

abbreviation shown :: "recorder \<times> nat set \<Rightarrow> instrument_id \<Rightarrow> bool" where
  "shown x \<equiv> \<lambda>i. live_on (rk_board (fst x)) (unat i)"

lemma board_steps_live: "shown (fold on_board bs x) = fold live_step (calls_of bs) (shown x)"
proof (induction bs arbitrary: x)
  case (Cons b bs)
  obtain r seen where x: "x = (r, seen)" by (cases x)
  show ?case
  proof (cases b)
    case (Called c w)
    have "shown (on_board b x) = live_step c (shown x)" using record_call_live [of c w r] Called x by auto
    then show ?thesis using Cons [of "on_board b x"] Called by simp
  next
    case (Ticked h)
    have "shown (on_board b x) = shown x" using watch_live [of h "rk_board r" seen] Ticked x by (simp add: split_beta Let_def)
    then show ?thesis using Cons [of "on_board b x"] Ticked by simp
  qed
qed simp

text \<open>A live book has nothing buffered, so that a snapshot for it cannot be too old.\<close>

definition calm :: "book_sync \<Rightarrow> bool" where
  "calm s \<longleftrightarrow> (is_live s \<longrightarrow> sy_pending s = [])"

lemma calm_reset [simp]: "calm (reset s)" "\<not> is_live (reset s)" "calm (invalidate s)" "\<not> is_live (invalidate s)"
  by (simp_all add: calm_def reset_def is_live_def)

lemma check_crossed_cases: "check_crossed s = (Ok (), s) \<or> (\<exists>a b. check_crossed s = (Err (Crossed a b), invalidate s))"
  by (auto simp: check_crossed_def split: option.split)

lemma buffer_awaits: "sy_state s = AwaitingSnapshot \<Longrightarrow> sy_state (snd (buffer r us s)) = AwaitingSnapshot"
  by (simp add: buffer_def buffer_store_eq make_room_def Let_def split: option.split)

lemma buffer_buffers: "fst (buffer r us s) \<noteq> Applied"
  by (simp add: buffer_def buffer_store_eq Let_def split: option.split)

lemma delta_live:
  assumes "on_delta r us s = (out, s1)" "calm s"
  shows "calm s1" "is_live s1 = (case out of Ok _ \<Rightarrow> is_live s | Err _ \<Rightarrow> False)" "out = Ok Applied \<Longrightarrow> is_live s"
proof -
  obtain res b where a: "run_steps book_apply us (sy_book s) = (res, b)" by (cases "run_steps book_apply us (sy_book s)")
  note c = check_crossed_cases [of "s\<lparr>sy_book := b, sy_state := Live (sr_last r)\<rparr>"]
  have "calm s1 \<and> is_live s1 = (case out of Ok _ \<Rightarrow> is_live s | Err _ \<Rightarrow> False) \<and> (out = Ok Applied \<longrightarrow> is_live s)"
  proof (cases "sy_state s")
    case AwaitingSnapshot
    then show ?thesis using assms(1) buffer_awaits [OF AwaitingSnapshot, of r us] buffer_buffers [of r us s]
      by (cases "buffer r us s") (auto simp: on_delta_def is_live_def calm_def)
  next
    case (Live lst)
    then have p: "sy_pending s = []" "is_live s" using assms(2) by (simp_all add: calm_def is_live_def)
    have i: "sy_state (snd (buffer r us (invalidate s))) = AwaitingSnapshot" by (rule buffer_awaits) simp
    show ?thesis using assms(1) Live a c p i
      by (auto simp: on_delta_def apply_all_def is_live_def calm_def split: if_splits result.splits)
  qed
  then show "calm s1" "is_live s1 = (case out of Ok _ \<Rightarrow> is_live s | Err _ \<Rightarrow> False)" "out = Ok Applied \<Longrightarrow> is_live s" by auto
qed

lemma replay_awaits: "replay_pending u ms c s = (Err e, s1) \<Longrightarrow> \<not> is_live s1"
  by (induction ms arbitrary: c s) (auto simp: is_live_def split: if_splits prod.splits result.splits)

lemma snapshot_live:
  assumes "on_snapshot u bids asks s = (out, s1)" "calm s"
  shows "calm s1" "is_live s1 = (case out of Ok True \<Rightarrow> True | Ok False \<Rightarrow> is_live s | Err _ \<Rightarrow> False)"
    "\<exists>a b. out = Err (SnapshotTooOld a b) \<Longrightarrow> \<not> is_live s"
proof -
  obtain res b where l: "book_load bids asks (sy_book s) = (res, b)" by (cases "book_load bids asks (sy_book s)")
  obtain rep s2 where r: "replay_pending u (sy_pending s) u (s\<lparr>sy_book := b\<rparr>) = (rep, s2)" by (cases "replay_pending u (sy_pending s) u (s\<lparr>sy_book := b\<rparr>)")
  note c = check_crossed_cases [of "s2\<lparr>sy_pending := [], sy_updates := [], sy_state := Live k\<rparr>" for k]
  have "calm s1 \<and> is_live s1 = (case out of Ok True \<Rightarrow> True | Ok False \<Rightarrow> is_live s | Err _ \<Rightarrow> False) \<and> ((\<exists>a b. out = Err (SnapshotTooOld a b)) \<longrightarrow> \<not> is_live s)"
  proof (cases "case sy_state s of Live lst \<Rightarrow> u < lst | AwaitingSnapshot \<Rightarrow> False")
    case True
    then show ?thesis using assms by (auto simp: on_snapshot_def)
  next
    case False
    show ?thesis
    proof (cases rep)
      case (Err e)
      have "\<not> is_live s" using r Err assms(2) by (auto simp: calm_def)
      then show ?thesis using assms(1) False l r Err replay_awaits [of u "sy_pending s" u _ e s2]
        by (auto simp: on_snapshot_def calm_def is_live_def split: result.splits)
    next
      case (Ok k)
      then show ?thesis using assms(1) False l r c [of k]
        by (auto simp: on_snapshot_def calm_def is_live_def split: result.splits)
    qed
  qed
  then show "calm s1" "is_live s1 = (case out of Ok True \<Rightarrow> True | Ok False \<Rightarrow> is_live s | Err _ \<Rightarrow> False)"
    "\<exists>a b. out = Err (SnapshotTooOld a b) \<Longrightarrow> \<not> is_live s" by auto
qed

section \<open>What the books report is what they are\<close>

abbreviation lives :: "md_books \<Rightarrow> instrument_id \<Rightarrow> bool" where
  "lives b \<equiv> \<lambda>i. md_is_live i b"

abbreviation reported :: "notice list \<Rightarrow> (instrument_id \<Rightarrow> bool) \<Rightarrow> instrument_id \<Rightarrow> bool" where
  "reported ns \<equiv> fold live_step (map Noticed ns)"

lemma lives_cong: "mb_syncs b = mb_syncs b' \<Longrightarrow> lives b = lives b'"
  by (simp add: md_is_live_def)

lemma lives_set_sync:
  assumes "nth_opt (mb_syncs b) (index_of i) = Some y"
  shows "lives (set_sync i y1 b) = (lives b)(i := is_live y1)" "lives b i = is_live y"
proof -
  have inj: "index_of j = index_of k \<longleftrightarrow> j = k" for j k by (simp add: index_of_def word_unat_eq_iff)
  show "lives b i = is_live y" using assms by (simp add: md_is_live_def nth_opt_def split: if_splits)
  show "lives (set_sync i y1 b) = (lives b)(i := is_live y1)"
    using assms by (auto simp: md_is_live_def set_sync_def nth_opt_def fun_eq_iff inj nth_list_update split: if_splits)
qed

lemma verdict_some: "verdict b = Some (i, res) \<Longrightarrow> verifying b = Some i \<and> (\<exists>y. nth_opt (mb_syncs b) (index_of i) = Some y)"
  by (auto simp: verdict_def verifying_def bind_eq_Some_conv split: if_splits option.splits)

lemma settle_live:
  assumes "settle_verification b = (found, b1)" "list_all calm (mb_syncs b)"
  shows "list_all calm (mb_syncs b1)"
    "lives b1 = (case found of Some m \<Rightarrow> (lives b)(the (verifying b) := False) | None \<Rightarrow> lives b)"
    "found \<noteq> None \<Longrightarrow> verifying b \<noteq> None"
proof -
  note s = cancel_syncs [of b]
  have "list_all calm (mb_syncs b1) \<and> lives b1 = (case found of Some m \<Rightarrow> (lives b)(the (verifying b) := False) | None \<Rightarrow> lives b) \<and> (found \<noteq> None \<longrightarrow> verifying b \<noteq> None)"
  proof (cases "verdict b")
    case None
    then show ?thesis using assms by (auto simp: settle_verification_def)
  next
    case (Some v)
    then obtain i res where v: "verdict b = Some (i, res)" by (cases v) auto
    obtain y where y: "verifying b = Some i" "nth_opt (mb_syncs b) (index_of i) = Some y" using verdict_some [OF v] by blast
    show ?thesis
    proof (cases res)
      case None
      then have "mb_syncs b1 = mb_syncs b" "found = None" using assms(1) v s by (auto simp: settle_verification_def Let_def)
      then show ?thesis using assms(2) lives_cong [of b1 b] by simp
    next
      case (Some m)
      then have b1: "mb_syncs b1 = mb_syncs (set_sync i (reset y) b)" "found = Some m"
        using assms(1) v s y(2) by (auto simp: settle_verification_def Let_def set_sync_def bump_invalidations_def nth_opt_def split: if_splits)
      have "list_all calm (mb_syncs b1)" using assms(2) y unfolding b1(1)
        by (auto simp: set_sync_def list_all_iff dest!: set_update_subset_insert [THEN subsetD])
      then show ?thesis using b1 y(1) lives_cong [OF b1(1)] lives_set_sync(1) [OF y(2), of "reset y"] by simp
    qed
  qed
  then show "list_all calm (mb_syncs b1)"
    "lives b1 = (case found of Some m \<Rightarrow> (lives b)(the (verifying b) := False) | None \<Rightarrow> lives b)"
    "found \<noteq> None \<Longrightarrow> verifying b \<noteq> None" by auto
qed

lemma calm_update: "list_all calm ys \<Longrightarrow> calm y \<Longrightarrow> list_all calm (ys[k := y])"
  by (auto simp: list_all_iff dest!: set_update_subset_insert [THEN subsetD])

lemma update_live:
  assumes "apply_update u y b = (a, b1)" "nth_opt (mb_syncs b) (index_of (du_instrument u)) = Some y" "list_all calm (mb_syncs b)"
  shows "list_all calm (mb_syncs b1) \<and> lives b1 = reported (report b1 a) (lives b)"
proof -
  let ?i = "du_instrument u"
  obtain out y1 where o: "on_delta (du_range u) (du_updates u) y = (out, y1)" by (cases "on_delta (du_range u) (du_updates u) y")
  have "calm y" using assms(2,3) by (auto simp: nth_opt_def list_all_iff split: if_splits)
  note d = delta_live [OF o this]
  let ?c = "set_sync ?i y1 b"
  have c: "list_all calm (mb_syncs ?c)" using calm_update [OF assms(3) d(1)] by (simp add: set_sync_def)
  have l: "lives ?c = (lives b)(?i := is_live y1)" "lives b ?i = is_live y" using lives_set_sync [OF assms(2)] by simp_all
  have quiet: "lives ?c = lives b" if "\<exists>x. out = Ok x" using that d(2) l by (auto simp: fun_eq_iff)
  have changed: "reported (report z (BookChanged j t)) f = f" for z j t f by (simp split: option.split)
  note cancel = cancel_syncs
  show ?thesis
  proof (cases "\<exists>x. out = Ok x \<and> x = Applied \<and> sh_instrument (mb_shadow b) = Some ?i")
    case True
    then have out: "out = Ok Applied" and sh: "sh_instrument (mb_shadow b) = Some ?i" by auto
    let ?d = "feed_shadow (du_range u) (du_updates u) (?c\<lparr>mb_stats := (mb_stats ?c)\<lparr>st_deltas_applied := sat_u64 (st_deltas_applied (mb_stats ?c) + 1)\<rparr>\<rparr>)"
    obtain found z where z: "settle_verification ?d = (found, z)" by (cases "settle_verification ?d")
    have e: "mb_syncs ?d = mb_syncs ?c" "verifying ?d = Some ?i" using sh by (simp_all add: feed_shadow_def set_sync_def verifying_def)
    note s = settle_live [OF z, unfolded e(1), OF c]
    have "lives ?d = lives b" using lives_cong [OF e(1)] quiet out by simp
    then show ?thesis using assms(1) o out sh z s e(2) changed
      by (cases found) (auto simp: apply_update_def set_sync_def)
  next
    case False
    have e: "mb_syncs (feed_shadow r us z) = mb_syncs z" "mb_syncs (bump_invalidations z) = mb_syncs z" for r us z
      by (simp_all add: feed_shadow_def bump_invalidations_def)
    show ?thesis
    proof (cases out)
      case (Ok x)
      have "mb_syncs b1 = mb_syncs ?c" "a = Quiet \<or> (\<exists>t. a = BookChanged ?i t)"
        using False Ok assms(1) o e by (auto simp: apply_update_def Let_def set_sync_def split: delta_outcome.splits if_splits)
      then show ?thesis using c quiet Ok lives_cong [of b1 ?c] changed by auto
    next
      case (Err x)
      have "mb_syncs b1 = mb_syncs ?c" "\<exists>r. a = Down ?i r"
        using Err assms(1) o e cancel by (auto simp: apply_update_def Let_def split: if_splits)
      then show ?thesis using c l(1) d(2) Err lives_cong [of b1 ?c] by auto
    qed
  qed
qed

lemma apply_live:
  assumes "md_apply m b = (res, b1)" "list_all calm (mb_syncs b)"
  shows "list_all calm (mb_syncs b1) \<and> lives b1 = reported (case res of Ok a \<Rightarrow> report b1 a | Err _ \<Rightarrow> []) (lives b)"
proof -
  obtain r dec where d: "decode_update m (mb_instruments b) (mb_decoder b) = (r, dec)" by (cases "decode_update m (mb_instruments b) (mb_decoder b)")
  let ?c = "b\<lparr>mb_stats := (mb_stats b)\<lparr>st_messages := sat_u64 (st_messages (mb_stats b) + 1)\<rparr>, mb_decoder := dec\<rparr>"
  have l: "lives ?c = lives b" by (rule lives_cong) simp
  show ?thesis
  proof (cases "\<exists>u y. r = Ok u \<and> nth_opt (mb_syncs b) (index_of (du_instrument u)) = Some y")
    case True
    then obtain u y where u: "r = Ok u" "nth_opt (mb_syncs b) (index_of (du_instrument u)) = Some y" by blast
    then obtain a where a: "apply_update u y ?c = (a, b1)" "res = Ok a" using assms(1) d by (auto simp: md_apply_def Let_def nth_opt_def split: prod.splits if_splits)
    show ?thesis using update_live [OF a(1)] u(2) assms(2) a(2) l by simp
  next
    case False
    then have "b1 = ?c" "\<exists>e. res = Err e" using assms(1) d by (auto simp: md_apply_def Let_def split: result.splits option.splits)
    then show ?thesis using assms(2) l by auto
  qed
qed

lemma on_snapshot_live:
  assumes "md_on_snapshot i u bids asks t b = (out, ns, b1)" "list_all calm (mb_syncs b)"
  shows "list_all calm (mb_syncs b1) \<and> lives b1 = reported ns (lives b)"
proof (cases "nth_opt (mb_syncs b) (index_of i)")
  case None
  then show ?thesis using assms by (auto simp: md_on_snapshot_def nth_opt_def split: if_splits)
next
  case (Some y)
  obtain res y1 where o: "on_snapshot u bids asks y = (res, y1)" by (cases "on_snapshot u bids asks y")
  have "calm y" using assms(2) Some by (auto simp: nth_opt_def list_all_iff split: if_splits)
  note s = snapshot_live [OF o this]
  let ?c = "set_sync i y1 b"
  have c: "list_all calm (mb_syncs ?c)" using calm_update [OF assms(2) s(1)] by (simp add: set_sync_def)
  have l: "lives ?c = (lives b)(i := is_live y1)" "lives b i = is_live y" using lives_set_sync [OF Some] by simp_all
  have b1: "settle y1 i res t ?c = (out, ns, b1)" using assms(1) Some o by (auto simp: md_on_snapshot_def nth_opt_def split: if_splits)
  have m: "mb_syncs b1 = mb_syncs ?c" using b1 by (auto simp: settle_def bump_invalidations_def split: result.splits bool.splits option.splits sync_error.splits)
  have "sync_book y1 = None \<longleftrightarrow> \<not> is_live y1" by (simp add: sync_book_def is_live_def split: sync_state.split)
  then have "(lives b)(i := is_live y1) = reported ns (lives b)"
    using b1 s(2,3) l(2) by (auto simp: settle_def fun_eq_iff split: result.splits bool.splits option.splits sync_error.splits)
  then show ?thesis using c m l lives_cong [OF m] by simp
qed

lemma on_verification_live:
  assumes "md_on_verification_snapshot i u bids asks b = (v, ns, b1)" "list_all calm (mb_syncs b)"
  shows "list_all calm (mb_syncs b1) \<and> lives b1 = reported ns (lives b)"
proof (cases "sh_instrument (mb_shadow b) \<noteq> Some i \<or> sh_loaded (mb_shadow b)")
  case True
  then show ?thesis using assms by (auto simp: md_on_verification_snapshot_def)
next
  case False
  obtain res y where o: "on_snapshot u bids asks (sh_sync (mb_shadow b)) = (res, y)" by (cases "on_snapshot u bids asks (sh_sync (mb_shadow b))")
  let ?c = "b\<lparr>mb_shadow := (mb_shadow b)\<lparr>sh_sync := y\<rparr>\<rparr>" and ?d = "b\<lparr>mb_shadow := (mb_shadow b)\<lparr>sh_sync := y, sh_loaded := True\<rparr>\<rparr>"
  have a: "after_verification_snapshot i (is_ok res) ?c = (v, ns, b1)" using assms(1) False o by (simp add: md_on_verification_snapshot_def)
  obtain found z where z: "settle_verification ?d = (found, z)" by (cases "settle_verification ?d")
  have e: "mb_syncs ?d = mb_syncs b" "verifying ?d = Some i" "lives ?d = lives b" using False lives_cong [of ?d b] by (simp_all add: verifying_def)
  note s = settle_live [OF z, unfolded e, OF assms(2)]
  show ?thesis
  proof (cases "is_ok res")
    case True
    then show ?thesis using a z s by (cases found) (auto simp: after_verification_snapshot_def split: if_splits)
  next
    case False
    then have "ns = []" "mb_syncs b1 = mb_syncs b" using a by (auto simp: after_verification_snapshot_def cancel_verification_def split: option.splits)
    then show ?thesis using assms(2) lives_cong [of b1 b] by simp
  qed
qed

section \<open>The session keeps the board right\<close>

definition agrees :: "md_session \<Rightarrow> bool" where
  "agrees s \<longleftrightarrow> fold live_step (ms_calls s) (\<lambda>_. False) = lives (ms_books s) \<and> list_all calm (mb_syncs (ms_books s))"

lemma agrees_told:
  assumes "agrees s" "ms_calls s' = ms_calls s @ map Noticed ns" "list_all calm (mb_syncs (ms_books s'))" "lives (ms_books s') = reported ns (lives (ms_books s))"
  shows "agrees s'"
  using assms by (simp add: agrees_def)

lemma agrees_same:
  assumes "agrees s" "ms_calls s' = ms_calls s" "mb_syncs (ms_books s') = mb_syncs (ms_books s)"
  shows "agrees s'"
  using assms lives_cong [OF assms(3)] by (simp add: agrees_def)

lemma agrees_status:
  assumes "agrees s" "of_session st" "\<And>r. st \<noteq> Disconnected r"
  shows "agrees (status d st s)"
proof (rule agrees_told [OF assms(1), of _ "[OnStatus st]"])
  show "lives (ms_books (status d st s)) = reported [OnStatus st] (lives (ms_books s))" using assms(2,3) by (cases st) (simp_all, blast)
qed (use assms(1) in \<open>simp_all add: agrees_def status_def tell_def\<close>)

lemma agrees_disconnected: "agrees (status d (Disconnected r) (take_all_down s))"
proof -
  have "mb_syncs (ms_books (take_all_down s)) = map reset (mb_syncs (ms_books s))" by (simp add: take_all_down_frame)
  then have "lives (ms_books (take_all_down s)) = (\<lambda>_. False)" "list_all calm (mb_syncs (ms_books (take_all_down s)))"
    by (auto simp: md_is_live_def nth_opt_def list_all_iff fun_eq_iff split: option.split)
  then show ?thesis by (simp add: agrees_def status_def tell_def)
qed

lemma agrees_data:
  assumes "agrees s"
  shows "agrees (snd (on_data m s))"
proof -
  obtain res b1 where a: "md_apply m (ms_books s) = (res, b1)" by (cases "md_apply m (ms_books s)")
  have c: "list_all calm (mb_syncs (ms_books s))" using assms by (simp add: agrees_def)
  note l = apply_live [OF a c]
  have "\<exists>st. ms_books (snd (on_data m s)) = b1\<lparr>mb_stats := st\<rparr>"
  proof (cases res)
    case (Ok x)
    then show ?thesis using a by (simp add: on_data_def Let_def split_beta) (rule after_apply_books(1), simp)
  next
    case (Err e)
    then show ?thesis using a by (auto simp: on_data_def Let_def split_beta intro: exI [of _ "mb_stats b1"])
  qed
  then have b: "mb_syncs (ms_books (snd (on_data m s))) = mb_syncs b1" by auto
  have "ms_calls (snd (on_data m s)) = ms_calls s @ map Noticed (case res of Ok x \<Rightarrow> report b1 x | Err _ \<Rightarrow> [])"
    using a by (cases res) (simp_all add: on_data_def Let_def split_beta after_apply_books(2))
  from agrees_told [OF assms this] show ?thesis using l b lives_cong [OF b] by simp
qed

lemma agrees_snapshot:
  assumes "agrees s"
  shows "agrees (apply_snapshot d r s)"
proof (cases "rs_outcome r")
  case (Err f)
  let ?wait = "case fl_retry_after f of None \<Rightarrow> mc_snapshot_retry (ms_config s) | Some w \<Rightarrow> max w (mc_snapshot_retry (ms_config s))"
  have "agrees (set_state (index_of (rs_instrument r)) (RetryAt (fst (later ?wait s))) (snd (later ?wait s)))"
    using assms by (rule agrees_same) simp_all
  then show ?thesis using Err assms agrees_status by (simp add: apply_snapshot_def Let_def split_beta)
next
  case (Ok p)
  obtain out ns b1 where o: "md_on_snapshot (rs_instrument r) (ow_last_update_id p) (ow_bids p) (ow_asks p) (ow_fetched_at p) (ms_books s) = (out, ns, b1)"
    by (cases "md_on_snapshot (rs_instrument r) (ow_last_update_id p) (ow_bids p) (ow_asks p) (ow_fetched_at p) (ms_books s)")
  have "list_all calm (mb_syncs (ms_books s))" using assms by (simp add: agrees_def)
  from on_snapshot_live [OF o this] show ?thesis using Ok o
    by (intro agrees_told [OF assms, of _ ns]) (simp_all add: apply_snapshot_def Let_def split_beta tell_def)
qed

lemma agrees_give_up: "agrees s \<Longrightarrow> agrees (give_up_verification s)"
  by (rule agrees_same) (simp_all add: give_up_verification_def count_abandoned_def cancel_syncs)

lemma agrees_verification:
  assumes "agrees s"
  shows "agrees (apply_verification_snapshot r s)"
proof (cases "\<exists>t p. ms_verification s = Some (rs_instrument r, t) \<and> verifying (ms_books s) = Some (rs_instrument r) \<and> rs_outcome r = Ok p")
  case False
  then have "apply_verification_snapshot r s \<in> {s, give_up_verification s}"
    by (auto simp: apply_verification_snapshot_def split: option.split result.split)
  then show ?thesis using assms agrees_give_up by auto
next
  case True
  let ?i = "rs_instrument r"
  obtain t p where t: "ms_verification s = Some (?i, t)" "verifying (ms_books s) = Some ?i" "rs_outcome r = Ok p" using True by blast
  let ?s1 = "journal_append MD_VERIFY_SNAPSHOT (Some (ow_fetched_at p)) [le_bytes 4 (unat ?i), ow_raw p] s"
  obtain v ns b1 where o: "md_on_verification_snapshot ?i (ow_last_update_id p) (ow_bids p) (ow_asks p) (ms_books s) = (v, ns, b1)"
    by (cases "md_on_verification_snapshot ?i (ow_last_update_id p) (ow_bids p) (ow_asks p) (ms_books s)")
  have "list_all calm (mb_syncs (ms_books s))" using assms by (simp add: agrees_def)
  from on_verification_live [OF o this] have told: "agrees (tell ns (?s1\<lparr>ms_books := b1\<rparr>))"
    by (intro agrees_told [OF assms, of _ ns]) (simp_all add: tell_def)
  show ?thesis using t o
    by (cases v) (auto simp: apply_verification_snapshot_def Let_def count_abandoned_def intro!: agrees_same [OF told])
qed

lemma agrees_collect: "agrees s \<Longrightarrow> agrees (collect_snapshots d s)"
proof -
  have one: "agrees s \<Longrightarrow> agrees (collect_next d s)" for s
  proof (cases "ms_results s")
    case (Cons r rs)
    assume "agrees s"
    then have "agrees (s\<lparr>ms_results := rs\<rparr>)" by (rule agrees_same) simp_all
    then show ?thesis using Cons agrees_snapshot agrees_verification by (simp add: collect_next_def collect_one_def split: purpose.split)
  qed (simp add: collect_next_def)
  have "agrees s \<Longrightarrow> agrees ((collect_next d ^^ k) s)" for k by (induction k) (simp_all add: one)
  then show "agrees s \<Longrightarrow> agrees (collect_snapshots d s)" by (simp add: collect_snapshots_def)
qed

lemma agrees_requests: "agrees s \<Longrightarrow> agrees (request_snapshots s)"
proof -
  have "agrees s \<Longrightarrow> agrees (fold (request_one t) ks s)" for t ks s
  proof (induction ks arbitrary: s)
    case (Cons k ks)
    have "agrees (request_one t k s)" by (rule agrees_same [OF Cons.prems]) (simp_all add: request_one_def Let_def bump_requested_def split: option.split)
    then show ?case using Cons.IH by simp
  qed simp
  moreover assume "agrees s"
  then have "agrees (snd (now s))" by (rule agrees_same) simp_all
  ultimately show ?thesis by (simp add: request_snapshots_def split_beta Let_def)
qed

lemma agrees_now: "agrees s \<Longrightarrow> agrees (snd (now s))"
  by (rule agrees_same) simp_all

lemma start_syncs: "mb_syncs (snd (start_verification i b)) = mb_syncs b"
  by (simp add: start_verification_def Let_def)

lemma agrees_start_next:
  assumes "agrees s"
  shows "agrees (start_next t e s)"
proof -
  have v: "agrees (verify_from t n steps s)" for n steps
  proof (rule verify_from_cases [of t n steps s])
    fix k inst b
    assume v: "verify_from t n steps s = begin_verification t k inst (s\<lparr>ms_books := b\<rparr>)" "start_verification (id_of k) (ms_books s) = (True, b)"
    have "mb_syncs b = mb_syncs (ms_books s)" using start_syncs [of "id_of k" "ms_books s"] v(2) by simp
    then show ?thesis unfolding v(1)
      by (intro agrees_same [OF assms]) (simp_all add: begin_verification_def Let_def bump_requested_def cancel_syncs)
  qed (use assms in simp)
  have "agrees ((snd (later e y))\<lparr>ms_next_verification := x\<rparr>)" if "agrees y" for x y
    using that by (rule agrees_same) simp_all
  then show ?thesis using assms v by (simp add: start_next_def split_beta Let_def)
qed

lemma agrees_schedule: "agrees s \<Longrightarrow> agrees (schedule_verification s)"
  using agrees_now [of s] agrees_start_next agrees_give_up
  by (auto simp: schedule_verification_def split_beta Let_def split: option.split)

lemma agrees_report: "agrees s \<Longrightarrow> agrees (maybe_report s)"
  by (auto simp: agrees_def maybe_report_def split_beta Let_def)

lemma agrees_deliver: "agrees s \<Longrightarrow> agrees (fold deliver fs s)"
proof (induction fs arbitrary: s)
  case (Cons f fs)
  have "agrees (deliver f s)" using Cons.prems by (rule agrees_same) simp_all
  then show ?case using Cons.IH by simp
qed simp

lemma agrees_housekeeping: "agrees s \<Longrightarrow> agrees (housekeeping d s)"
  unfolding housekeeping_def by (intro agrees_report agrees_schedule agrees_requests agrees_collect)

lemma agrees_event: "agrees s \<Longrightarrow> agrees (snd (on_event ev s))"
  by (cases "(ev, s)" rule: on_event.cases) (auto intro: agrees_data)

lemma agrees_drain: "agrees s \<Longrightarrow> agrees (snd (snd (drain_events evs failed t s)))"
proof (induction evs arbitrary: t s)
  case (Cons ev evs)
  obtain res s2 where e: "on_event ev (snd (now s)) = (res, s2)" by (cases "on_event ev (snd (now s))")
  have "agrees s2" using agrees_event [OF agrees_now [OF Cons.prems], of ev] e by simp
  then show ?case using Cons.IH e by (cases res) (simp_all add: split_beta Let_def)
qed simp

lemma agrees_turn:
  assumes "agrees s" "stream_turn d c t active s = (res, active', s')"
  shows "agrees s'"
proof (cases "tn_stop t")
  case False
  obtain r1 l1 s1 where dr: "drain_events (tn_events t) (tn_failed t) active s = (r1, l1, s1)"
    by (cases "drain_events (tn_events t) (tn_failed t) active s") auto
  then have s1: "agrees s1" using agrees_drain [OF assms(1)] by (metis snd_conv)
  have s2: "agrees (snd (now (housekeeping d (fold deliver (tn_fetched t) s1))))"
    by (intro agrees_now agrees_housekeeping agrees_deliver s1)
  show ?thesis
    using assms(2) False dr s1 s2 agrees_now [OF s2]
    by (auto simp: stream_turn_def Let_def split_beta split: option.splits if_splits result.splits)
qed (use assms in \<open>auto simp: stream_turn_def\<close>)

lemma agrees_loop: "agrees s \<Longrightarrow> agrees (snd (stream_loop d c ts active s))"
proof (induction ts arbitrary: active s)
  case (Cons t ts)
  obtain res l1 s1 where t: "stream_turn d c t active s = (res, l1, s1)" by (cases "stream_turn d c t active s") auto
  then show ?case using agrees_turn [OF Cons.prems t] Cons.IH by (cases res) auto
qed simp

lemma agrees_connect:
  assumes "agrees s" "connect_once d a bo s = (res, bo', s')"
  shows "agrees s'"
proof -
  have s1: "agrees (status d Connecting s)" using assms(1) by (rule agrees_status) simp_all
  have "agrees (bump_connections (status d Connecting s))" using s1 by (rule agrees_same) (simp_all add: bump_connections_def)
  then have s2: "agrees (snd (now (status d Connected (bump_connections (status d Connecting s)))))"
    by (intro agrees_now agrees_status) simp_all
  have s3: "agrees (snd (stream d ts x))" if "agrees x" for x ts
    using agrees_loop [OF agrees_now [OF that]] by (simp add: stream_def split_beta)
  note s4 = agrees_now [OF s3 [OF s2]]
  show ?thesis
    using assms(2) s1 s3 [OF s2, of "am_turns a"] s4 [of "am_turns a"]
    by (auto simp: connect_once_def Let_def split: result.splits prod.splits option.splits)
qed

lemma agrees_run: "agrees s \<Longrightarrow> agrees (snd (run_loop d as bo s))"
proof (induction as arbitrary: bo s)
  case (Cons a as)
  obtain res bo1 s1 where c: "connect_once d a bo s = (res, bo1, s1)" by (cases "connect_once d a bo s") auto
  then show ?case
    using Cons agrees_connect [OF Cons.prems c] agrees_disconnected by (cases res) (auto simp: split_beta Let_def)
qed simp

lemma agrees_new:
  assumes "md_session_new clock True cfg tbl = Ok s"
  shows "agrees s" "agrees (with_journal s)"
proof -
  obtain b where b: "md_books_new tbl (mc_sync cfg) (mc_max_levels_per_message cfg) (mc_snapshot_limit cfg) = Ok b" "ms_books s = b" "ms_calls s = []"
    using assms by (auto simp: md_session_new_def Let_def result_simps split: if_splits)
  have "list_all (\<lambda>y. \<not> is_live y) (mb_syncs b)"
    using b(1) by (auto simp: md_books_new_def list_all_iff sync_new_def is_live_def result_simps split: result.splits if_splits)
  then show "agrees s" using b(2,3) by (auto simp: agrees_def md_is_live_def calm_def nth_opt_def list_all_iff fun_eq_iff split: option.split)
  then show "agrees (with_journal s)" by (rule agrees_same) simp_all
qed

section \<open>Properties\<close>

text \<open>C19: The board tells the truth.  However the session's calls and the ticks of the printing thread interleave, once the calls of
  a run have been handled the board shows as live exactly the instruments whose books are live, and so does the page
  that a scrape gets, with the connection's state beside it.\<close>

theorem board_tells_truth:
  assumes "md_session_new clock True cfg tbl = Ok s0" "s \<in> {s0, with_journal s0}" "calls_of bs = ms_calls (snd (run d attempts s))"
    "fold on_board bs (recorder_new (board_started wall), {}) = (r, seen)"
  shows "live_on (rk_board r) (unat i) = md_is_live i (ms_books (snd (run d attempts s)))
    \<and> (metrics_ok (bd_metrics (rk_board r)) \<longrightarrow> (\<exists>es. scrape (page version tbl (rk_board r)) = Some es
        \<and> (\<lambda>x. SampleOf (ascii ''bowst_md_instrument_live'') (instrument_labels x)
             (IntValue (of_bool (md_is_live (inst_id x) (ms_books (snd (run d attempts s))))))) ` set tbl \<subseteq> set es))"
proof -
  let ?b = "ms_books (snd (run d attempts s))"
  have "agrees (snd (run d attempts s))" using agrees_new [OF assms(1)] assms(2) agrees_run by (auto simp: run_def)
  then have "fold live_step (calls_of bs) (\<lambda>_. False) = lives ?b" using assms(3) by (simp add: agrees_def)
  moreover have "shown (recorder_new (board_started wall), {}) = (\<lambda>_. False)" by (simp add: recorder_new_def board_started_def board_default_def live_on_def)
  ultimately have l: "live_on (rk_board r) (unat j) = md_is_live j ?b" for j
    using fun_cong [OF board_steps_live [of bs "(recorder_new (board_started wall), {})"], of j] assms(4) by simp
  have "\<exists>es. scrape (page version tbl (rk_board r)) = Some es \<and> gauges tbl (live_on (rk_board r)) \<subseteq> set es" if "metrics_ok (bd_metrics (rk_board r))"
    using rendered_entries [OF that] entries_gauges by (metis page_def)
  then show ?thesis using l by (simp add: gauges_def)
qed

definition demo_attempts :: "attempt list" where
  "demo_attempts = [\<lparr>am_stop = False, am_connect = Err NetClosed, am_turns = [], am_stop_after = True, am_random = 0\<rparr>]"

lemma demo_calls:
  "md_session_new clock True demo_md_config [demo_listing] = Ok s \<Longrightarrow>
     ms_calls (snd (run d demo_attempts s)) = [Noticed (OnStatus Connecting), Noticed (OnStatus (Disconnected (ReasonNet NetClosed)))]"
  by (auto simp: md_session_new_def Let_def result_simps run_def demo_attempts_def connect_once_def status_def tell_def take_all_down_def count_abandoned_def
      split: if_splits option.split)

definition demo_steps :: "board_step list" where
  "demo_steps = [Called (Noticed (OnStatus Connecting)) 1, Ticked (Some (Degraded 3)), Called (Noticed (OnStatus (Disconnected (ReasonNet NetClosed)))) 2]"

theorem board_tells_truth_witness:
  "\<exists>s r seen. md_session_new (\<lambda>n. \<lparr>mo_instant = n, mo_mono = n, mo_wall = n\<rparr>) True demo_md_config [demo_listing] = Ok s
     \<and> fold on_board demo_steps (recorder_new (board_started 5), {}) = (r, seen)
     \<and> live_on (rk_board r) (unat (0 :: instrument_id)) = md_is_live 0 (ms_books (snd (run (\<lambda>_. []) demo_attempts s)))
     \<and> (\<exists>es. scrape (page [49] [demo_listing] (rk_board r)) = Some es)"
proof -
  obtain s where s: "md_session_new (\<lambda>n. \<lparr>mo_instant = n, mo_mono = n, mo_wall = n\<rparr>) True demo_md_config [demo_listing] = Ok s"
    using demo_session by blast
  obtain r seen where r: "fold on_board demo_steps (recorder_new (board_started 5), {}) = (r, seen)"
    by (cases "fold on_board demo_steps (recorder_new (board_started 5), {})")
  have c: "calls_of demo_steps = ms_calls (snd (run (\<lambda>_. []) demo_attempts s))" using demo_calls [OF s] by (simp add: demo_steps_def)
  have "bd_metrics (rk_board r) = metrics_state_default\<lparr>mt_started := 5, mt_journal := Some (Degraded 3), mt_journal_dropped := 3, mt_connected := False\<rparr>"
    using r by (auto simp: demo_steps_def recorder_new_def board_started_def board_default_def watch_tick_def Let_def)
  then have "metrics_ok (bd_metrics (rk_board r))" by (simp add: metrics_ok_def metrics_state_default_def range_defs)
  then show ?thesis using board_tells_truth [OF s _ c r, of 0 "[49]"] s r by auto
qed

end
