(* ===== verification/Metrics_Server.thy ===== *)
theory Metrics_Server
  imports Exposition Ws_Handshake
begin

text \<open>
  \<open>crates/bowst-telemetry/src/server.rs\<close>: the endpoint that serves the metrics.  A connection is the list of what its reads
  return; binding the socket and the thread are not modelled.
\<close>

section \<open>Settings\<close>

definition MAX_REQUEST :: nat where "MAX_REQUEST = 8 * 1024"

definition DRAIN_LIMIT :: nat where "DRAIN_LIMIT = 64 * 1024"

definition CONTENT_TYPE :: "byte list" where
  "CONTENT_TYPE = ascii ''text/plain; version=0.0.4; charset=utf-8''"

record 'a metrics_config =
  mx_addr :: 'a
  mx_allow_remote :: bool
  mx_io_timeout :: nanos

definition metrics_config_new :: "'a \<Rightarrow> 'a metrics_config" where
  "metrics_config_new addr = \<lparr>mx_addr = addr, mx_allow_remote = False, mx_io_timeout = 2 * 1000000000\<rparr>"

datatype 'a metrics_error = NotLoopback 'a | Bind 'a | Thread

text \<open>\<open>bind\<close> answers the address that was bound, \<open>is_loopback\<close> is the standard library's test.\<close>

definition server_start :: "('a \<Rightarrow> bool) \<Rightarrow> ('a \<Rightarrow> 'a option) \<Rightarrow> bool \<Rightarrow> 'a metrics_config \<Rightarrow> ('a, 'a metrics_error) result" where
  "server_start is_loopback bind spawned cfg =
     (if \<not> mx_allow_remote cfg \<and> \<not> is_loopback (mx_addr cfg) then Err (NotLoopback (mx_addr cfg))
      else
        (case bind (mx_addr cfg) of
           None \<Rightarrow> Err (Bind (mx_addr cfg))
         | Some addr \<Rightarrow> if spawned then Ok addr else Err Thread))"

section \<open>One request\<close>

datatype head = Complete "byte list" | HeadTooLarge

text \<open>The reads until the head is there; \<open>None\<close> while it is not.\<close>

fun read_head :: "(byte list, 'e) result list \<Rightarrow> byte list \<Rightarrow> (head, 'e) result option" where
  "read_head [] got = None"
| "read_head (Err e # reads) got = Some (Err e)"
| "read_head (Ok chunk # reads) got =
     (if chunk = [] then Some (Ok (Complete got))
      else if length (got @ chunk) > MAX_REQUEST then Some (Ok HeadTooLarge)
      else if find_sub (CRLF @ CRLF) (got @ chunk) \<noteq> None then Some (Ok (Complete (got @ chunk)))
      else read_head reads (got @ chunk))"

definition status_text :: "nat \<Rightarrow> byte list \<Rightarrow> byte list" where
  "status_text code reason =
     ascii ''HTTP/1.1 '' @ show_nat code @ [32] @ reason @ CRLF @ ascii ''Content-Length: 0'' @ CRLF @ ascii ''Connection: close'' @ CRLF
       @ (if code = 405 then ascii ''Allow: GET'' @ CRLF else []) @ CRLF"

definition ok_text :: "byte list \<Rightarrow> byte list" where
  "ok_text body =
     ascii ''HTTP/1.1 200 OK'' @ CRLF @ ascii ''Content-Type: '' @ CONTENT_TYPE @ CRLF @ ascii ''Content-Length: '' @ show_nat (length body) @ CRLF
       @ ascii ''Cache-Control: no-store'' @ CRLF @ ascii ''Connection: close'' @ CRLF @ CRLF @ body"

definition request_line :: "byte list \<Rightarrow> byte list" where
  "request_line hd_bytes = (let l = hd (split_on 10 hd_bytes) in if l \<noteq> [] \<and> last l = 13 then butlast l else [])"

definition respond :: "byte list \<Rightarrow> byte list \<Rightarrow> byte list" where
  "respond hd_bytes rendered =
     (case split_on 32 (request_line hd_bytes) of
        [meth, target, version] \<Rightarrow>
          if take 7 version \<noteq> ascii ''HTTP/1.'' then status_text 400 (ascii ''Bad Request'')
          else
            let path = hd (split_on 63 target) in
            if meth = ascii ''GET'' then
              (if path = ascii ''/metrics'' then ok_text rendered else status_text 404 (ascii ''Not Found''))
            else status_text 405 (ascii ''Method Not Allowed'')
      | _ \<Rightarrow> status_text 400 (ascii ''Bad Request''))"

definition head_response :: "head \<Rightarrow> byte list \<Rightarrow> byte list" where
  "head_response h rendered =
     (case h of Complete hd_bytes \<Rightarrow> respond hd_bytes rendered | HeadTooLarge \<Rightarrow> status_text 431 (ascii ''Request Header Fields Too Large''))"

text \<open>The bytes discarded after the response: the loop ends with the stream, with an error, or at the limit.\<close>

fun drain_rest :: "(byte list, 'e) result list \<Rightarrow> nat \<Rightarrow> nat option" where
  "drain_rest [] drained = (if drained < DRAIN_LIMIT then None else Some drained)"
| "drain_rest (r # reads) drained =
     (if drained < DRAIN_LIMIT then
        (case r of
           Err e \<Rightarrow> Some drained
         | Ok chunk \<Rightarrow> if chunk = [] then Some drained else drain_rest reads (sat_u64 (drained + length chunk)))
      else Some drained)"

text \<open>A whole exchange: what is written to the client.  \<open>write\<close> tells whether writing it, flushing and closing succeeded.\<close>

definition handle ::
  "(byte list, 'e) result list \<Rightarrow> (byte list \<Rightarrow> (unit, 'e) result) \<Rightarrow> (byte list, 'e) result list \<Rightarrow> byte list \<Rightarrow> (byte list option \<times> (nat option, 'e) result) option" where
  "handle reads write rest rendered =
     (case read_head reads [] of
        None \<Rightarrow> None
      | Some (Err e) \<Rightarrow> Some (None, Err e)
      | Some (Ok h) \<Rightarrow>
          let response = head_response h rendered in Some (Some response, result_map (\<lambda>_. drain_rest rest 0) (write response)))"

section \<open>A response is read by an HTTP client\<close>

definition line_ok :: "byte list \<Rightarrow> bool" where
  "line_ok l \<longleftrightarrow> l \<noteq> [] \<and> list_all (\<lambda>b. b < 128 \<and> b \<noteq> 13) l"

lemma line_ok_parts: "list_all line_ok ls \<Longrightarrow> list_all cr_free ls" "list_all line_ok ls \<Longrightarrow> list_all (list_all (\<lambda>b. b < 128)) ls"
  by (induction ls) (auto simp: line_ok_def cr_free_def list_all_iff)

lemma response_parsed:
  assumes "list_all line_ok (l # ls)" "status_code l = Ok code" "length (crlf_joined (l # ls)) \<le> MAX_HEADERS"
    "header_lines ls \<lparr>hs_response = \<lparr>hp_status = code, hp_used_weight_1m = None, hp_retry_after_secs = None\<rparr>, hs_content_length = None, hs_chunked = False\<rparr>
       = Ok \<lparr>hs_response = \<lparr>hp_status = code, hp_used_weight_1m = None, hp_retry_after_secs = None\<rparr>, hs_content_length = Some (length body), hs_chunked = False\<rparr>"
    "length body \<le> max_body"
  shows "parse_response (crlf_joined (l # ls) @ (CRLF @ CRLF) @ body) max_body = (Ok \<lparr>hp_status = code, hp_used_weight_1m = None, hp_retry_after_secs = None\<rparr>, body)"
proof -
  let ?h = "crlf_joined (l # ls)"
  have "take (length ?h) (?h @ (CRLF @ CRLF) @ body) = ?h" "drop (length ?h + 4) (?h @ (CRLF @ CRLF) @ body) = body" by simp_all
  then show ?thesis
    using joined_find [OF line_ok_parts(1) [OF assms(1)], of body] joined_split [OF line_ok_parts(1) [OF assms(1)]]
      joined_ascii [OF line_ok_parts(2) [OF assms(1)]] assms(2-5)
    by (simp add: parse_response_def parse_head_def parse_body_def del: crlf_joined.simps)
qed

lemma status_line:
  assumes "code \<in> {200, 400, 404, 405, 431}" "32 \<notin> set (ascii ''HTTP/1.1'')"
  shows "status_code (ascii ''HTTP/1.1 '' @ show_nat code @ [32] @ reason) = Ok code"
proof -
  have "\<exists>a b c. show_nat code = [a, b, c] \<and> 32 \<notin> {a, b, c}" using assms(1) by (auto simp: show_nat.simps)
  then obtain a b c where s: "show_nat code = [a, b, c]" "32 \<notin> {a, b, c}" by blast
  have w: "ascii ''HTTP/1.1 '' @ show_nat code @ [32] @ reason = ascii ''HTTP/1.1'' @ 32 # show_nat code @ 32 # reason" by (simp add: ascii_def of_char_def)
  have "status_words (ascii ''HTTP/1.1'' @ 32 # show_nat code @ 32 # reason) = (ascii ''HTTP/1.1'', Some (show_nat code))"
    using split_once_one [OF assms(2)] split_once_one [of 32 "show_nat code" reason] s by (simp add: status_words_def)
  moreover have "parse_uint (2 ^ 16) (show_nat code) = Some code" using assms(1) by (intro parse_show_nat) auto
  ultimately show ?thesis using s(1) unfolding w by (simp add: status_code_def)
qed

lemma other_header:
  "header_line (ascii ''Connection: close'') st = Ok st" "header_line (ascii ''Cache-Control: no-store'') st = Ok st"
  "header_line (ascii ''Allow: GET'') st = Ok st" "header_line (ascii ''Content-Type: '' @ CONTENT_TYPE) st = Ok st"
  by (simp_all add: header_line_def CONTENT_TYPE_def ascii_def of_char_def split_once_def eq_ignore_case_def lower_def Let_def)

lemma length_header:
  assumes "n < 2 ^ 64" "hs_content_length st = None"
  shows "header_line (ascii ''Content-Length: '' @ show_nat n) st = Ok (st\<lparr>hs_content_length := Some n\<rparr>)"
proof -
  have g: "list_all is_ascii_graphic (show_nat n)" using show_nat_digits [of n] by (fastforce simp: list_all_iff is_digit_def is_ascii_graphic_def word_le_nat_alt)
  then have h: "is_ascii_graphic (hd (show_nat n))" "is_ascii_graphic (last (show_nat n))" by (auto simp: list_all_iff)
  have "ascii ''Content-Length: '' @ show_nat n = ascii ''Content-Length'' @ 58 # 32 # show_nat n" by (simp add: ascii_def of_char_def)
  moreover have "58 \<notin> set (ascii ''Content-Length'')" "eq_ignore_case (ascii ''Content-Length'') (ascii ''content-length'')"
    by (simp_all add: ascii_def of_char_def eq_ignore_case_def lower_def)
  ultimately show ?thesis using header_split [OF _ h show_nat_nonempty, of "ascii ''Content-Length''"] parse_show_nat [OF assms(1)] assms(2)
    by (simp add: header_line_def)
qed

lemma digits_line: "line_ok (ascii ''Content-Length: '' @ show_nat n)"
  using show_nat_digits [of n] by (auto simp: line_ok_def list_all_iff is_digit_def ascii_def of_char_def intro: le_less_trans)

lemma short_number: "n < 2 ^ 64 \<Longrightarrow> length (show_nat n) \<le> 20"
  using show_padded_length [of n 20] by (simp add: show_padded_def)

lemma ok_text_parsed:
  assumes "length body < 2 ^ 64" "length body \<le> max_body"
  shows "parse_response (ok_text body) max_body = (Ok \<lparr>hp_status = 200, hp_used_weight_1m = None, hp_retry_after_secs = None\<rparr>, body)"
proof -
  let ?l = "ascii ''HTTP/1.1 200 OK''"
  let ?ls = "[ascii ''Content-Type: '' @ CONTENT_TYPE, ascii ''Content-Length: '' @ show_nat (length body), ascii ''Cache-Control: no-store'', ascii ''Connection: close'']"
  have t: "ok_text body = crlf_joined (?l # ?ls) @ (CRLF @ CRLF) @ body" by (simp add: ok_text_def)
  have "line_ok ?l" "line_ok (ascii ''Content-Type: '' @ CONTENT_TYPE)" "line_ok (ascii ''Cache-Control: no-store'')" "line_ok (ascii ''Connection: close'')"
    by (simp_all add: line_ok_def CONTENT_TYPE_def ascii_def of_char_def)
  then have ok: "list_all line_ok (?l # ?ls)" using digits_line by simp
  have h32: "32 \<notin> set (ascii ''HTTP/1.1'')" by (simp add: ascii_def of_char_def)
  have "?l = ascii ''HTTP/1.1 '' @ show_nat 200 @ [32] @ ascii ''OK''" by (simp add: ascii_def of_char_def show_nat.simps)
  then have "status_code ?l = Ok 200" using status_line [of 200, OF _ h32] by simp
  moreover have "length (crlf_joined (?l # ?ls)) \<le> MAX_HEADERS" using short_number [OF assms(1)] by (simp add: MAX_HEADERS_def CONTENT_TYPE_def ascii_def)
  ultimately show ?thesis unfolding t using assms by (intro response_parsed [OF ok]) (simp_all add: other_header length_header)
qed

lemma status_text_parsed:
  assumes "code \<in> {400, 404, 405, 431}" "list_all (\<lambda>b. b < 128 \<and> b \<noteq> 13) reason" "length reason \<le> 100"
  shows "parse_response (status_text code reason) max_body = (Ok \<lparr>hp_status = code, hp_used_weight_1m = None, hp_retry_after_secs = None\<rparr>, [])"
proof -
  let ?l = "ascii ''HTTP/1.1 '' @ show_nat code @ [32] @ reason"
  let ?ls = "[ascii ''Content-Length: 0'', ascii ''Connection: close''] @ (if code = 405 then [ascii ''Allow: GET''] else [])"
  have zero: "ascii ''Content-Length: 0'' = ascii ''Content-Length: '' @ show_nat 0" by (simp add: ascii_def of_char_def show_nat.simps)
  have t: "status_text code reason = crlf_joined (?l # ?ls) @ (CRLF @ CRLF) @ []" by (simp add: status_text_def)
  have "line_ok ?l" using assms(2) show_nat_digits [of code]
    by (auto simp: line_ok_def list_all_iff is_digit_def ascii_def of_char_def intro: le_less_trans)
  moreover have "line_ok (ascii ''Connection: close'')" "line_ok (ascii ''Allow: GET'')" "line_ok (ascii ''Content-Length: 0'')" by (simp_all add: line_ok_def ascii_def of_char_def)
  ultimately have ok: "list_all line_ok (?l # ?ls)" by simp
  have h32: "32 \<notin> set (ascii ''HTTP/1.1'')" by (simp add: ascii_def of_char_def)
  have "code \<in> {200, 400, 404, 405, 431}" using assms(1) by auto
  note st = status_line [OF this h32]
  have "length (crlf_joined (?l # ?ls)) \<le> MAX_HEADERS" using short_number [of code] assms(1,3) by (auto simp: MAX_HEADERS_def ascii_def)
  then show ?thesis unfolding t using st by (intro response_parsed [OF ok]) (simp_all add: other_header zero length_header)
qed

lemma split_on_hd: "\<exists>rest. t = hd (split_on c t) @ rest \<and> (rest = [] \<or> hd rest = c) \<and> c \<notin> set (hd (split_on c t))"
proof (induction t)
  case (Cons b t)
  obtain w ws where w: "split_on c t = w # ws" by (cases "split_on c t") auto
  show ?case using Cons w by (cases "b = c") auto
qed simp

lemma split_on_three:
  "split_on c t = [x, y, z] \<Longrightarrow> t = x @ c # y @ c # z \<and> c \<notin> set x \<and> c \<notin> set y \<and> c \<notin> set z"
proof -
  have one: "split_on c t = [x] \<Longrightarrow> t = x \<and> c \<notin> set x" for t x
    by (induction t arbitrary: x) (auto split: if_splits list.splits)
  have more: "split_on c t = x # w # ws \<Longrightarrow> \<exists>u. t = x @ c # u \<and> c \<notin> set x \<and> split_on c u = w # ws" for t x w ws
  proof (induction t arbitrary: x)
    case (Cons b t)
    obtain v vs where v: "split_on c t = v # vs" by (cases "split_on c t") auto
    show ?case using Cons v by (cases "b = c") fastforce+
  qed simp
  assume "split_on c t = [x, y, z]"
  from more [OF this] obtain u where u: "t = x @ c # u" "c \<notin> set x" "split_on c u = [y, z]" by blast
  from more [OF u(3)] obtain v where "u = y @ c # v" "c \<notin> set y" "split_on c v = [z]" by blast
  then show ?thesis using u one by auto
qed

text \<open>A request for the metrics: a GET of the path, with or without a query, in HTTP/1, on a line that ends as HTTP asks.\<close>

definition asks_metrics :: "byte list \<Rightarrow> bool" where
  "asks_metrics t \<longleftrightarrow> (\<exists>target version rest. t = ascii ''GET '' @ target @ [32] @ version @ [13] @ rest \<and> (rest = [] \<or> hd rest = 10)
     \<and> {10, 32} \<inter> set (target @ version) = {} \<and> hd (split_on 63 target) = ascii ''/metrics'' \<and> take 7 version = ascii ''HTTP/1.'')"

lemma request_line_asks:
  "asks_metrics t \<longleftrightarrow> (\<exists>target version. split_on 32 (request_line t) = [ascii ''GET'', target, version]
     \<and> hd (split_on 63 target) = ascii ''/metrics'' \<and> take 7 version = ascii ''HTTP/1.'')"
proof
  assume "asks_metrics t"
  then obtain target version rest where t: "t = ascii ''GET '' @ target @ [32] @ version @ [13] @ rest" "rest = [] \<or> hd rest = 10"
    "{10, 32} \<inter> set (target @ version) = {}" "hd (split_on 63 target) = ascii ''/metrics''" "take 7 version = ascii ''HTTP/1.''"
    by (auto simp: asks_metrics_def)
  let ?l = "ascii ''GET '' @ target @ [32] @ version"
  have n: "10 \<notin> set (?l @ [13])" using t(3) by (simp add: ascii_def of_char_def)
  then have "hd (split_on 10 t) = ?l @ [13]"
    using t(1,2) split_on_first [OF n] split_on_word [OF n] by (cases rest) auto
  then have "request_line t = ?l" by (simp add: request_line_def butlast_append)
  also have "?l = ascii ''GET'' @ 32 # target @ 32 # version" by (simp add: ascii_def of_char_def)
  finally have "split_on 32 (request_line t) = [ascii ''GET'', target, version]"
    using t(3) split_on_first [of 32 "ascii ''GET''"] by (simp add: ascii_def of_char_def)
  then show "\<exists>target version. split_on 32 (request_line t) = [ascii ''GET'', target, version]
      \<and> hd (split_on 63 target) = ascii ''/metrics'' \<and> take 7 version = ascii ''HTTP/1.''" using t(4,5) by blast
next
  assume "\<exists>target version. split_on 32 (request_line t) = [ascii ''GET'', target, version]
      \<and> hd (split_on 63 target) = ascii ''/metrics'' \<and> take 7 version = ascii ''HTTP/1.''"
  then obtain target version where r: "split_on 32 (request_line t) = [ascii ''GET'', target, version]"
    "hd (split_on 63 target) = ascii ''/metrics''" "take 7 version = ascii ''HTTP/1.''" by blast
  have l: "request_line t = ascii ''GET '' @ target @ [32] @ version" "32 \<notin> set target" "32 \<notin> set version"
    using split_on_three [OF r(1)] by (simp_all add: ascii_def of_char_def)
  obtain rest where rest: "t = hd (split_on 10 t) @ rest" "rest = [] \<or> hd rest = 10" "10 \<notin> set (hd (split_on 10 t))" using split_on_hd [of t 10] by blast
  have "request_line t \<noteq> []" using l(1) by (simp add: ascii_def)
  then have "hd (split_on 10 t) = request_line t @ [13]"
    by (auto simp: request_line_def Let_def split: if_splits) (metis append_butlast_last_id)
  then show "asks_metrics t" unfolding asks_metrics_def using l rest r(2,3)
    by (intro exI [of _ target] exI [of _ version] exI [of _ rest]) auto
qed

section \<open>Reading the head\<close>

lemma request_line_grow: "10 \<in> set t \<Longrightarrow> asks_metrics (t @ u) \<longleftrightarrow> asks_metrics t"
proof -
  assume "10 \<in> set t"
  then obtain w rest where t: "t = w @ 10 # rest" "10 \<notin> set w" by (meson split_list_first)
  then have "request_line (t @ u) = request_line t" by (simp add: request_line_def)
  then show ?thesis unfolding request_line_asks by simp
qed

lemma blank_line_feed: "find_sub (CRLF @ CRLF) t \<noteq> None \<Longrightarrow> 10 \<in> set t"
  using arg_cong [OF find_sub_Some, of "CRLF @ CRLF" t _ set] by auto

text \<open>One read brings 1 to 512 bytes.  Whatever its reads bring, a request is over when its blank line is there, when
  it is too long, or when the client has no more to send.\<close>

definition chunk_ok :: "byte list \<Rightarrow> bool" where
  "chunk_ok c \<longleftrightarrow> c \<noteq> [] \<and> length c \<le> 512"

definition request_over :: "byte list \<Rightarrow> (byte list, 'e) result list \<Rightarrow> bool" where
  "request_over sent later \<longleftrightarrow> find_sub (CRLF @ CRLF) sent \<noteq> None \<or> MAX_REQUEST < length sent \<or> (\<exists>later'. later = Ok [] # later')"

definition head_fits :: "byte list \<Rightarrow> bool" where
  "head_fits sent \<longleftrightarrow> length sent \<le> MAX_REQUEST \<or> (\<exists>p. find_sub (CRLF @ CRLF) sent = Some p \<and> p + 4 + 511 \<le> MAX_REQUEST)"

definition head_too_long :: "byte list \<Rightarrow> bool" where
  "head_too_long sent \<longleftrightarrow> MAX_REQUEST < length sent \<and> find_sub (CRLF @ CRLF) (take MAX_REQUEST sent) = None"

lemma too_long_by_chunk:
  assumes "find_sub (CRLF @ CRLF) got = None" "MAX_REQUEST < length (got @ chunk)" "chunk_ok chunk"
  shows "\<not> head_fits (got @ chunk @ t)"
proof
  assume "head_fits (got @ chunk @ t)"
  then obtain p where p: "find_sub (CRLF @ CRLF) (got @ chunk @ t) = Some p" "p + 4 + 511 \<le> MAX_REQUEST"
    using assms(2) by (auto simp: head_fits_def)
  have "\<not> p + 4 \<le> length got" using find_sub_prefix [OF p(1)] assms(1) by fastforce
  then show False using assms(2,3) p(2) by (simp add: chunk_ok_def)
qed

lemma read_head_takes:
  assumes "list_all chunk_ok chunks" "find_sub (CRLF @ CRLF) got = None" "length got \<le> MAX_REQUEST" "request_over (got @ concat chunks) later"
  shows "(\<exists>g r. read_head (map Ok chunks @ later) got = Some (Ok (Complete g)) \<and> got @ concat chunks = g @ r \<and> length g \<le> MAX_REQUEST
            \<and> (r = [] \<or> find_sub (CRLF @ CRLF) g \<noteq> None))
       \<or> read_head (map Ok chunks @ later) got = Some (Ok HeadTooLarge) \<and> \<not> head_fits (got @ concat chunks)"
  using assms
proof (induction chunks arbitrary: got)
  case (Cons c chunks)
  have c: "chunk_ok c" "c \<noteq> []" using Cons.prems(1) by (simp_all add: chunk_ok_def)
  consider (long) "MAX_REQUEST < length (got @ c)" | (blank) "length (got @ c) \<le> MAX_REQUEST" "find_sub (CRLF @ CRLF) (got @ c) \<noteq> None"
    | (next_read) "length (got @ c) \<le> MAX_REQUEST" "find_sub (CRLF @ CRLF) (got @ c) = None" by fastforce
  then show ?case
  proof cases
    case long
    then show ?thesis using too_long_by_chunk [OF Cons.prems(2) long c(1)] c(2) by simp
  next
    case blank
    then show ?thesis using c(2) by (intro disjI1 exI [of _ "got @ c"] exI [of _ "concat chunks"]) (auto simp: not_less)
  next
    case next_read
    then show ?thesis using Cons.IH [OF _ next_read(2,1)] Cons.prems(1,4) c(2) by simp
  qed
qed (auto simp: request_over_def)

lemma complete_head:
  assumes "sent = g @ r" "length g \<le> MAX_REQUEST" "r = [] \<or> find_sub (CRLF @ CRLF) g \<noteq> None"
  shows "\<not> head_too_long sent" "asks_metrics sent \<longleftrightarrow> asks_metrics g"
proof -
  show "asks_metrics sent \<longleftrightarrow> asks_metrics g" using assms(1,3) request_line_grow blank_line_feed by auto
  have "find_sub (CRLF @ CRLF) (take MAX_REQUEST sent) \<noteq> None" if "r \<noteq> []"
    using assms that find_sub_grow [of "CRLF @ CRLF" g _ "take (MAX_REQUEST - length g) r"] by auto
  then show "\<not> head_too_long sent" using assms(1,2) by (cases "r = []") (simp_all add: head_too_long_def)
qed

lemma respond_read_back:
  assumes "length rendered \<le> max_body" "max_body < 2 ^ 64"
  shows "\<exists>code. code \<in> {200, 400, 404, 405} \<and> parse_response (respond request rendered) max_body
      = (Ok \<lparr>hp_status = code, hp_used_weight_1m = None, hp_retry_after_secs = None\<rparr>, if code = 200 then rendered else [])
    \<and> (code = 200 \<longleftrightarrow> asks_metrics request)"
proof -
  have short: "length rendered < 2 ^ 64" using assms by simp
  have bad: "parse_response (status_text 400 (ascii ''Bad Request'')) max_body = (Ok \<lparr>hp_status = 400, hp_used_weight_1m = None, hp_retry_after_secs = None\<rparr>, [])"
    "parse_response (status_text 404 (ascii ''Not Found'')) max_body = (Ok \<lparr>hp_status = 404, hp_used_weight_1m = None, hp_retry_after_secs = None\<rparr>, [])"
    "parse_response (status_text 405 (ascii ''Method Not Allowed'')) max_body = (Ok \<lparr>hp_status = 405, hp_used_weight_1m = None, hp_retry_after_secs = None\<rparr>, [])"
    by (rule status_text_parsed; simp add: ascii_def of_char_def)+
  show ?thesis
  proof (cases "\<exists>m target version. split_on 32 (request_line request) = [m, target, version]")
    case True
    then obtain m target version where r: "split_on 32 (request_line request) = [m, target, version]" by blast
    show ?thesis using r bad ok_text_parsed [OF short assms(1)] request_line_asks [of request] by (auto simp: respond_def Let_def)
  next
    case False
    then have "respond request rendered = status_text 400 (ascii ''Bad Request'')" by (auto simp: respond_def split: list.split)
    moreover have "\<not> asks_metrics request" using False by (auto simp: request_line_asks)
    ultimately show ?thesis using bad(1) by auto
  qed
qed

section \<open>Properties\<close>

text \<open>C22: The endpoint answers every request, whatever bytes it is made of and however the reads cut them, with a response
  that an HTTP client reads back exactly.  The head is too long (431) when \<open>MAX_REQUEST\<close> bytes came without the blank line
  that ends it, and never when the request is that short or its blank line comes a read earlier.  Any other request gets the
  rendered metrics if it asks for them and an empty 400, 404 or 405 if it does not.\<close>

theorem metrics_endpoint:
  assumes "length rendered \<le> max_body" "max_body < 2 ^ 64"
    and "list_all chunk_ok chunks" "request_over (concat chunks) later"
  shows "\<exists>response code. handle (map Ok chunks @ later) write rest rendered = Some (Some response, result_map (\<lambda>_. drain_rest rest 0) (write response))
    \<and> code \<in> {200, 400, 404, 405, 431}
    \<and> parse_response response max_body = (Ok \<lparr>hp_status = code, hp_used_weight_1m = None, hp_retry_after_secs = None\<rparr>, if code = 200 then rendered else [])
    \<and> (head_too_long (concat chunks) \<longrightarrow> code = 431) \<and> (head_fits (concat chunks) \<longrightarrow> code \<noteq> 431)
    \<and> (code \<noteq> 431 \<longrightarrow> (code = 200 \<longleftrightarrow> asks_metrics (concat chunks)))"
proof -
  have head: "\<exists>h. read_head (map Ok chunks @ later) [] = Some (Ok h)
    \<and> (case h of Complete g \<Rightarrow> \<not> head_too_long (concat chunks) \<and> asks_metrics (concat chunks) = asks_metrics g | HeadTooLarge \<Rightarrow> \<not> head_fits (concat chunks))"
    using read_head_takes [of chunks "[]" later] assms(3,4) complete_head by fastforce
  then obtain h where h: "read_head (map Ok chunks @ later) [] = Some (Ok h)"
    "case h of Complete g \<Rightarrow> \<not> head_too_long (concat chunks) \<and> asks_metrics (concat chunks) = asks_metrics g | HeadTooLarge \<Rightarrow> \<not> head_fits (concat chunks)" by blast
  show ?thesis
  proof (cases h)
    case (Complete g)
    from respond_read_back [OF assms(1,2), of g] obtain code where "code \<in> {200, 400, 404, 405}"
      "parse_response (respond g rendered) max_body
         = (Ok \<lparr>hp_status = code, hp_used_weight_1m = None, hp_retry_after_secs = None\<rparr>, if code = 200 then rendered else [])"
      "code = 200 \<longleftrightarrow> asks_metrics g" by blast
    then show ?thesis using h Complete by (intro exI [of _ "respond g rendered"] exI [of _ code]) (auto simp: handle_def head_response_def Let_def)
  next
    case HeadTooLarge
    have "parse_response (status_text 431 (ascii ''Request Header Fields Too Large'')) max_body
        = (Ok \<lparr>hp_status = 431, hp_used_weight_1m = None, hp_retry_after_secs = None\<rparr>, [])"
      by (rule status_text_parsed; simp add: ascii_def of_char_def)
    then show ?thesis using h HeadTooLarge by (fastforce simp: handle_def head_response_def Let_def)
  qed
qed

theorem metrics_endpoint_witness:
  "\<exists>response. handle [Ok (ascii ''GET /met''), Ok (ascii ''rics HTTP/1.1'' @ CRLF @ CRLF)] (\<lambda>_. Ok () :: (unit, unit) result) [Ok []] [65] = Some (Some response, Ok (Some 0))
     \<and> parse_response response 10 = (Ok \<lparr>hp_status = 200, hp_used_weight_1m = None, hp_retry_after_secs = None\<rparr>, [65])"
proof -
  let ?a = "ascii ''GET /met''" and ?b = "ascii ''rics HTTP/1.1'' @ CRLF @ CRLF"
  have over: "request_over (concat [?a, ?b]) ([] :: (byte list, unit) result list)" "head_fits (concat [?a, ?b])" "list_all chunk_ok [?a, ?b]"
    by (simp_all add: request_over_def head_fits_def chunk_ok_def MAX_REQUEST_def ascii_def of_char_def)
  have "asks_metrics (concat [?a, ?b])" unfolding request_line_asks by (simp add: request_line_def ascii_def of_char_def)
  then show ?thesis using metrics_endpoint [OF _ _ over(3,1), of "[65]" 10 "\<lambda>_. Ok ()" "[Ok []]"] over(2) by (auto simp: DRAIN_LIMIT_def)
qed

end
