(* ===== verification/Spec2Isabelle.thy ===== *)
theory Spec2Isabelle
  imports Book_Sync Ring Journal_Reader Histogram Ratelimit Md_Books Ws_Reader Replay Rest Net_Client Md_Board Metrics_Server
begin

text \<open>
  bowst receives the market data of a venue and keeps the order book of each instrument.  This development models its code
  under \<open>src/crates\<close> and the tool \<open>src/bin/bowst-md\<close>, and proves what makes it correct.  Paths below are relative to
  \<open>src/crates/\<close> unless they start with \<open>bin\<close>.

  \<^bold>\<open>How the program works.\<close>  A session (\<open>bowst-venue/src/binance/md.rs\<close>) opens a WebSocket, reads frames from a byte stream, and
  decodes each JSON message into levels counted in whole ticks and lots.  Per instrument a synchroniser applies the messages to
  a book of two ladders, buffers them until a snapshot fits, and takes the book down at the first sign that it may be
  wrong.  A second thread fetches snapshots over REST, within the venue's limits; the session also compares its books
  with fresh snapshots.  Everything received is journaled through a ring to a writer thread, and can be replayed.  The tool
  records what the session reports on a board, and serves it as metrics.

  \<^bold>\<open>The theories, from the bottom.\<close>

    \<^item> \<open>Bowst_Prelude\<close>: results as values, saturating and checked arithmetic, lists, little-endian bytes, and the interfaces
      \<open>delta_store\<close>, \<open>fifo\<close> and \<open>bounded_fifo\<close>.
    \<^item> \<open>Fixed\<close> (\<open>bowst-core/src/fixed.rs\<close>): decimals and increments.  Parsing is exact for the text, the fast paths equal the
      general one, writing reads back, rounding brackets.
    \<^item> \<open>Core_Types\<close> (\<open>units.rs\<close>, \<open>ids.rs\<close>, \<open>instrument.rs\<close>, \<open>time.rs\<close>): prices, identifiers, instruments and their table.
    \<^item> \<open>Ring\<close> and \<open>Bytes_Ring\<close> (\<open>ring.rs\<close>, \<open>bytes_ring.rs\<close>): the lock-free queues, over wrapping counters, which answer as bounded lists do; \<open>ring_step\<close> interleaves
      the memory accesses of producer and consumer.
    \<^item> \<open>Ladder\<close>, \<open>Book\<close>, \<open>Book_Sync\<close> (\<open>bowst-book/src\<close>): one side, both sides, and the synchroniser.  A ladder refines the
      unbounded map of the venue within its horizon; \<open>sync_reach\<close> is any history of deltas, snapshots and resets, and in
      all of them a readable book is the venue's book at the update it reports.
    \<^item> \<open>Journal_Format\<close>, \<open>Journal\<close>, \<open>Journal_Reader\<close> (\<open>bowst-journal/src\<close>): records, producer and writer thread, reader.
      What was accepted is written or counted, and reads back after a crash at any byte past a file header.
    \<^item> \<open>Histogram\<close> (\<open>bowst-telemetry/src/histogram.rs\<close>), \<open>Backoff\<close> and \<open>Ratelimit\<close> (\<open>bowst-venue/src\<close>): latency percentiles with their error,
      reconnect delays, and the token bucket that never exceeds its rate.
    \<^item> \<open>Num_Text\<close>, \<open>Str_Text\<close>: the parts of the standard library's text functions that are used.
    \<^item> \<open>Json\<close>, \<open>Levels\<close>, \<open>Depth\<close>, \<open>Exchange_Info\<close>, \<open>Info_Text\<close>, \<open>Rest\<close> (\<open>json.rs\<close>, \<open>levels.rs\<close>, \<open>binance/\<close>): the pull parser, the decoders
      of messages, snapshots and trading rules, and the requests for them.  \<open>Depth\<close> and \<open>Info_Text\<close> say what a JSON value means and show
      that its text is decoded to that, in whatever order its members stand.
    \<^item> \<open>Ws_Frame\<close>, \<open>Ws_Reader\<close>, \<open>Ws_Handshake\<close>, \<open>Net_Url\<close>, \<open>Http\<close>, \<open>Net_Client\<close> (\<open>ws/\<close>, \<open>net/\<close>): frames, their reassembly, the
      upgrade, URLs and responses, and the two clients over a socket.  Headers, URLs and replies to an upgrade are accepted exactly
      when they have the form stated.
    \<^item> \<open>Md_Books\<close> (\<open>binance/books.rs\<close>): the books of all instruments, and their verification against a shadow book.
    \<^item> \<open>Session_Text\<close>, \<open>Replay\<close> (\<open>binance/replay.rs\<close>): the description a journal starts with, and the replay.
    \<^item> \<open>Md_Session\<close> (\<open>binance/md.rs\<close>): both threads of the session.  \<open>Md_Resync\<close> has its reachable states \<open>sess_reach\<close> and the
      bookkeeping of requests, connections and verifications; \<open>Md_Replay\<close> shows that the books a replay
      rebuilds stay in step with the session's.
    \<^item> \<open>Exposition\<close>, \<open>Metrics_Server\<close> (\<open>bowst-telemetry/src\<close>), \<open>Metrics\<close>, \<open>Md_Board\<close> (\<open>bin/bowst-md/src\<close>): the metrics as text with a
      reader as its specification, the endpoint from the reads of a request to its response, the tool's metrics, and the board that two threads share.

  Below stands the theorem that spans them: what a session journaled, read back from disk, replays to the same reports.

  \<^bold>\<open>State and errors.\<close>  A struct is a record, an enum a datatype, an operation a function that returns the new state; every
  error and early return is a branch with its value.  What a component hands outside (handler calls, journal records, bytes
  written) is a list in its state or its result.  Integers that may wrap are words; others are numbers with the
  saturation, check or wrap of the code written out.  usize has 64 bits.

  \<^bold>\<open>Interfaces.\<close>  \<open>delta_store\<close> is what the synchroniser needs of a store of levels; ladder and book interpret it.  \<open>fifo\<close> and
  \<open>bounded_fifo\<close> are the contracts of a queue, interpreted by the two rings.  \<open>lockstep\<close> carries answers along a relation
  kept by each step; synchronisers and market-data books interpret it.  \<open>metric_writer\<close> is what the tool's metrics need of
  the text writer.

  \<^bold>\<open>Loops.\<close>  Recursion is structural or has a measure.  Where the code loops until its input tells it to stop (\<open>read_with\<close>, \<open>drain\<close>,
  \<open>read_all\<close>, \<open>skip_loop\<close>, \<open>read_items\<close>, \<open>object_loop\<close>, \<open>snapshot_loop\<close>, \<open>members_loop\<close>, \<open>elements_loop\<close>, \<open>replay_loop\<close>) the model is
  partial, with \<open>None\<close> for not returning, and lemmas show that it returns; no fuel is used.  Loops that wait for the world (the
  session's turns, the writes of a frame, the wait for the request budget) recurse over the list of what the world does, and
  say so when that list ends first.

  \<^bold>\<open>What is assumed.\<close>  The venue's truth is a parameter of the theorems that speak of it, with the venue's documented numbering of
  updates as hypotheses (\<open>true_delta\<close> and its like).  The checksum, SHA-1, the \<open>Debug\<close> text of a status, the outcomes
  of opening and writing to a stream, random bytes and clock readings are parameters, arbitrary unless a theorem says
  otherwise.  The session's journal is the list of records handed over; that the writer keeps them is proved in \<open>Journal\<close>.
  Memory accesses of the rings happen in the order their release and acquire orderings give.

  \<^bold>\<open>Not modelled.\<close>  Sockets, TLS and threads themselves, \<open>SystemClock\<close>, the \<open>Stamped\<close> envelope and the allocation counter, which only
  call the operating system or a library; the accept loop of the metrics endpoint; of \<open>bin/bowst-md/src/main.rs\<close> the arguments,
  the printed text, the replay command and the wiring; \<open>is_abandoned\<close> of the rings, which reads a reference count; sleeping,
  benchmarks, fuzz targets and tests.
\<close>

section \<open>From the session to its replay\<close>

text \<open>C2: A session is reproduced from its journal.  The records a session journaled, sealed into consecutive segments and read
  back from the directory in whatever order it is listed, replay without an error, and the handler of the replay receives
  exactly the books and the book statuses that the session's handler received, in the same order: those of connections
  and of failed requests are the only ones left out.  The session may have gone through anything, reconnections,
  resynchronisations and verifications included, as long as it dropped no verification whose snapshot was loaded
  already, which it does not journal.\<close>

theorem session_replays:
  assumes "sess_reach d True cfg tbl n s" "table_new is = Ok tbl" "list_all instrument_ok tbl" "sizing_ok (sizing_of cfg)" "ms_journal s = Some j"
    "contiguous i (map raw_seg sgs)" "i + length sgs \<le> 2 ^ 32" "FILE_HEADER_LEN \<le> k" "sgs \<noteq> []"
    "list_all (\<lambda>sg. list_all record_ok (recs sg)) sgs" "list_all (\<lambda>(n, c). segment_index n = None) foreign"
    "mset dir = mset (foreign @ cut_entries crc k sgs)" "concat (surviving k sgs) = j"
  shows "\<exists>r rep r'. open_journal (Some dir) = Ok r \<and> replay crc r = Some (Ok rep, book_notices (ms_calls s), r')"
proof -
  obtain r r' where r: "open_journal (Some dir) = Ok r" "read_all crc r = Some (j, None, r')"
    using journal_read_back [OF assms(6-12)] assms(13) by blast
  obtain st where "replay_all j replay_start = (Ok (), st)" "ry_calls st = book_notices (ms_calls s)"
    using sess_reach_replayed [OF assms(1-4)] assms(5) by (auto simp: replayed_def reproduces_def)
  then show ?thesis using r replay_loop_records [OF r(2)] by (simp add: replay_def)
qed

lemma demo_description_short: "length (describe (sizing_of demo_md_config) [demo_listing]) \<le> MAX_PAYLOAD"
proof -
  have i: "instrument_ok demo_listing" using demo_described(3) by simp
  then have "length (dec_chars (as_dec (inst_tick demo_listing))) \<le> MAX_TEXT_LEN - 1" "length (dec_chars (as_dec (inst_lot demo_listing))) \<le> MAX_TEXT_LEN - 1"
    "length (dec_chars (inst_min_notional demo_listing)) \<le> MAX_TEXT_LEN - 1"
    using as_dec_wf length_dec_chars unfolding instrument_ok_def by blast+
  then show ?thesis
    by (simp add: describe_def sizing_line instrument_line [OF i] sizing_words_def instrument_words_def)
      (simp add: ascii_def HEADER_LINE_def MAX_PAYLOAD_def MAX_TEXT_LEN_def sizing_of_def demo_md_config_def md_config_new_def Book_Sync.demo_config_def
        demo_listing_def demo_instrument_def symbol_as_str_def show_nat.simps)
qed

text \<open>A session that asks for a snapshot, is given one and brings its book live with it.\<close>

definition demo_body :: "byte list" where
  "demo_body = ascii (replace_quotes ''{~lastUpdateId~:5,~bids~:[[~9~,~5~]],~asks~:[]}'')"

lemma one_digit: "parse_units_bytes \<lparr>inc_mantissa = 1, inc_scale = 0\<rparr> [57] Exact = Ok 9" "parse_units_bytes \<lparr>inc_mantissa = 1, inc_scale = 0\<rparr> [53] Exact = Ok 5"
    by (simp_all add: parse_units_bytes_def parse_exact_power_of_ten_def split_point_def fixed_consts digit_of_def nth_opt_POW10_I64
        checked_i64_def range_defs)

lemma demo_body_decoded:
  "fst (decode_snapshot demo_body demo_listing (snapshot_decoder_new 1000)) = Ok \<lparr>dp_last_update_id = 5, dp_bids = [\<lparr>lv_price = 9, lv_qty = 5\<rparr>], dp_asks = []\<rparr>"
  by (simp add: demo_body_def decode_snapshot_def snapshot_decoder_new_def ascii_def of_char_def replace_quotes_def Let_def from_json_def
    begin_object_def begin_array_def enter_def expect_byte_def skip_whitespace_def peek_def advance_pos_def next_element_def next_key_def next_member_def
  leave_def read_str_def string_end_def finish_def reader_new_def is_space_def MAX_DEPTH_def nth_opt_def sat_u8_def snapshot_loop.simps snapshot_member_def read_u64_def
   read_levels_into_def read_array_def demo_listing_def demo_instrument_def one_digit
   read_items.simps read_level_def dbind_def str_bytes_def give_def snapshot_checks_def exact_units_def
   is_digit_def digit_of_def checked_u64_def range_defs)

lemma demo_session_is:
  "md_session_new clock True demo_md_config [demo_listing] = Ok s \<Longrightarrow> mb_syncs (ms_books s) = [Book_Sync.demo_start] \<and> ms_states s = [Idle] \<and> ms_jobs s = [] \<and> ms_results s = [] \<and> ms_worker s
     \<and> ms_generation s = 0 \<and> ms_calls s = [] \<and> ms_clock s = clock \<and> ms_ticks s = 2 \<and> mb_instruments (ms_books s) = [demo_listing] \<and> ms_config s = demo_md_config"
  by (auto simp: md_session_new_def md_books_new_def sync_new_def demo_md_config_def md_config_new_def Book_Sync.demo_config_def book_new_def ladder_new_def Let_def result_simps demo_start_def split: if_splits)
definition demo_answer :: "instrument \<Rightarrow> (owned_snapshot, snapshot_failure) result" where
  "demo_answer i = (if i = demo_listing
     then Ok \<lparr>ow_raw = demo_body, ow_last_update_id = 5, ow_bids = [\<lparr>lv_price = 9, lv_qty = 5\<rparr>], ow_asks = [], ow_fetched_at = 77\<rparr>
     else Err \<lparr>fl_reason = ReasonText ''unknown'', fl_retry_after = None\<rparr>)"

lemma demo_answer_true: "fetched_from (mc_snapshot_limit demo_md_config) i (demo_answer i)"
  using demo_body_decoded by (simp add: fetched_from_def demo_answer_def demo_md_config_def md_config_new_def)

definition demo_synced :: "(md_status \<Rightarrow> byte list) \<Rightarrow> md_session \<Rightarrow> md_session" where
  "demo_synced d s = collect_next d (deliver demo_answer (request_snapshots (with_journal s)))"


lemma demo_sync_evals:
  "on_snapshot 5 [\<lparr>lv_price = 9, lv_qty = 5\<rparr>] [] Book_Sync.demo_start
     = (Ok True, Book_Sync.demo_start\<lparr>sy_book := \<lparr>bk_bids = \<lparr>lad_side = Buy, lad_levels = [\<lparr>lv_price = 9, lv_qty = 5\<rparr>], lad_capacity = 4, lad_horizon = None\<rparr>,
       bk_asks = \<lparr>lad_side = Sell, lad_levels = [], lad_capacity = 4, lad_horizon = None\<rparr>\<rparr>, sy_state := Live 5\<rparr>)"
  by (simp add: Book_Sync.demo_start_def Book_Sync.demo_config_def sync_eval)


lemmas session_eval = with_journal_def journal_append_def now_def request_snapshots_def request_one_def md_is_live_def is_live_def index_of_def
  nth_opt_def id_of_def due_def table_get_def set_state_def send_job_def bump_requested_def deliver_def collect_next_def collect_one_def apply_snapshot_def
  md_on_snapshot_def settle_def set_sync_def tell_def sync_book_def

lemma demo_awaiting: "sy_state Book_Sync.demo_start = AwaitingSnapshot"
  by (simp add: Book_Sync.demo_start_def)

lemma demo_listing_id: "inst_id demo_listing = 0"
  by (simp add: demo_listing_def demo_instrument_def)

lemma demo_asked:
  assumes "md_session_new clock True demo_md_config [demo_listing] = Ok s"
  shows "ms_results (deliver demo_answer (request_snapshots (with_journal s)))
     = [\<lparr>rs_instrument = 0, rs_generation = 0, rs_purpose = ForSync, rs_outcome = demo_answer demo_listing\<rparr>]"
    "mb_syncs (ms_books (deliver demo_answer (request_snapshots (with_journal s)))) = [Book_Sync.demo_start]"
    "ms_generation (deliver demo_answer (request_snapshots (with_journal s))) = 0"
    "ms_calls (deliver demo_answer (request_snapshots (with_journal s))) = []"
    "ms_states (deliver demo_answer (request_snapshots (with_journal s))) = [Requested]"
    "ms_clock (deliver demo_answer (request_snapshots (with_journal s))) = clock"
    "ms_ticks (deliver demo_answer (request_snapshots (with_journal s))) = 5"
    "ms_journal (deliver demo_answer (request_snapshots (with_journal s)))
       = Some [(\<lparr>rh_kind = SESSION_START, rh_source = BINANCE_CODE, rh_mono = mo_mono (clock 2), rh_wall = mo_wall (clock 3)\<rparr>, describe (sizing_of demo_md_config) [demo_listing])]"
  using demo_session_is [OF assms] by (simp_all add: session_eval demo_awaiting demo_listing_id sizing_of_def Let_def)

lemma four_zeros: "le_bytes 4 0 = [0, 0, 0, 0]"
proof -
  have "4 = Suc (Suc (Suc (Suc 0)))" by simp
  then show ?thesis by (simp only: le_bytes.simps) simp
qed

lemma demo_synced_is:
  assumes "md_session_new clock True demo_md_config [demo_listing] = Ok s"
  shows "ms_journal (demo_synced d s)
       = Some [(\<lparr>rh_kind = SESSION_START, rh_source = BINANCE_CODE, rh_mono = mo_mono (clock 2), rh_wall = mo_wall (clock 3)\<rparr>, describe (sizing_of demo_md_config) [demo_listing]),
               (\<lparr>rh_kind = MD_SNAPSHOT, rh_source = BINANCE_CODE, rh_mono = mo_mono (clock 5), rh_wall = 77\<rparr>, [0, 0, 0, 0] @ demo_body)]"
    "book_notices (ms_calls (demo_synced d s)) = [OnStatus (InstrumentLive 0),
       OnBook 0 \<lparr>bk_bids = \<lparr>lad_side = Buy, lad_levels = [\<lparr>lv_price = 9, lv_qty = 5\<rparr>], lad_capacity = 4, lad_horizon = None\<rparr>,
       bk_asks = \<lparr>lad_side = Sell, lad_levels = [], lad_capacity = 4, lad_horizon = None\<rparr>\<rparr> 77]"
  unfolding demo_synced_def using demo_asked [OF assms] demo_sync_evals
  by (simp_all add: collect_next_def collect_one_def apply_snapshot_def demo_answer_def journal_append_def now_def Let_def md_on_snapshot_def index_of_def nth_opt_def
   settle_def set_sync_def tell_def sync_book_def set_state_def four_zeros)

lemma demo_synced_reach:
  assumes "md_session_new clock True demo_md_config [demo_listing] = Ok s"
  shows "sess_reach d True demo_md_config [demo_listing] 0 (demo_synced d s)"
  unfolding demo_synced_def
proof (rule sess_reach.collects [OF sess_reach.fetches [OF sess_reach.requests [OF sess_reach.start_journal [OF assms]] demo_answer_true]])
  show "\<not> (True \<and> loaded (deliver demo_answer (request_snapshots (with_journal s))) \<and> fetch_failed (deliver demo_answer (request_snapshots (with_journal s))))"
    using demo_asked(1) [OF assms] by (simp add: fetch_failed_def)
qed

theorem session_replays_witness:
  "\<exists>s r rep r'. md_session_new (\<lambda>n. \<lparr>mo_instant = n, mo_mono = n, mo_wall = n\<rparr>) True demo_md_config [demo_listing] = Ok s
     \<and> open_journal (Some (cut_entries (\<lambda>_. 7) (2 ^ 25) [(0, 5, the (ms_journal (demo_synced (\<lambda>_. []) s)))])) = Ok r
     \<and> replay (\<lambda>_. 7) r = Some (Ok rep, [OnStatus (InstrumentLive 0),
          OnBook 0 \<lparr>bk_bids = \<lparr>lad_side = Buy, lad_levels = [\<lparr>lv_price = 9, lv_qty = 5\<rparr>], lad_capacity = 4, lad_horizon = None\<rparr>,
            bk_asks = \<lparr>lad_side = Sell, lad_levels = [], lad_capacity = 4, lad_horizon = None\<rparr>\<rparr> 77], r')"
proof -
  obtain s where s: "md_session_new (\<lambda>n. \<lparr>mo_instant = n, mo_mono = n, mo_wall = n\<rparr>) True demo_md_config [demo_listing] = Ok s"
    using demo_session by blast
  let ?p = "describe (sizing_of demo_md_config) [demo_listing]"
  let ?h = "\<lparr>rh_kind = SESSION_START, rh_source = BINANCE_CODE, rh_mono = 2, rh_wall = 3\<rparr>"
  let ?k = "\<lparr>rh_kind = MD_SNAPSHOT, rh_source = BINANCE_CODE, rh_mono = 5, rh_wall = 77\<rparr>"
  let ?j = "[(?h, ?p), (?k, [0, 0, 0, 0] @ demo_body)]"
  have j: "ms_journal (demo_synced (\<lambda>_. []) s) = Some ?j" using demo_synced_is(1) [OF s] by simp
  have len: "length demo_body \<le> 100" by (simp add: demo_body_def ascii_def replace_quotes_def)
  have ok: "list_all record_ok ?j"
    using demo_description_short len by (simp add: record_ok_def header_ok_def SESSION_START_def MD_SNAPSHOT_def BINANCE_CODE_def range_defs MAX_PAYLOAD_def)
  have surv: "surviving (2 ^ 25) [(0, 5, ?j)] = [?j]"
    using demo_description_short len by (simp add: surviving_def on_last_def recs_def FILE_HEADER_LEN_def RECORD_HEADER_LEN_def MAX_PAYLOAD_def)
  have sz: "sizing_ok (sizing_of demo_md_config)" by (simp add: sizing_ok_def sizing_of_def demo_md_config_def md_config_new_def Book_Sync.demo_config_def)
  show ?thesis
    using session_replays [OF demo_synced_reach [OF s] demo_described(2,3) sz j,
        of 0 "[(0, 5, ?j)]" "2 ^ 25" "[]" "cut_entries (\<lambda>_. 7) (2 ^ 25) [(0, 5, ?j)]" "\<lambda>_. 7"] s j ok surv demo_synced_is(2) [OF s]
    by (auto simp: FILE_HEADER_LEN_def recs_def)
qed

end
